(* ===== verification/Prelude.thy ===== *)
theory Prelude
  imports Main "HOL-Library.Word"
begin

text \<open>
  Shared vocabulary of the development: the machine-integer types of the C++ code
  (\<open>uint8_t\<close>, \<open>uint32_t\<close>, \<open>uint64_t\<close>; a signed integer of the
  same width is the same word read with \<open>sint\<close>), byte vectors, and the generic facts
  on words and lists that several components use.
\<close>

unbundle bit_operations_syntax

section \<open>Types\<close>

type_synonym u8 = "8 word"
type_synonym u16 = "16 word"
type_synonym u32 = "32 word"
type_synonym u64 = "64 word"
type_synonym bytes = "u8 list"
type_synonym uint256 = bytes  \<comment> \<open>the 32 bytes of \<open>base_blob<256>\<close>\<close>
type_synonym CAmount = int     \<comment> \<open>\<open>int64_t\<close>\<close>

section \<open>Collections of hints\<close>

named_theorems wf_intros "a constructor or an operation establishes a well-formedness invariant"
named_theorems word_val "the integer value of a word expression that does not wrap"

section \<open>Words\<close>

lemma uint_u32_bound: "uint (x :: u32) < 4294967296"
  using uint_lt2p [of x] by simp

lemma uint_u64_bound: "uint (x :: u64) < 18446744073709551616"
  using uint_lt2p [of x] by simp

lemma uint_u8_bound: "uint (x :: u8) < 256"
  using uint_lt2p [of x] by simp

lemma unat_u8_bound: "unat (x :: u8) < 256"
  using unsigned_less [of x, where 'a = nat] by simp

lemma uint_ucast_u32_u64 [word_val]: "uint (ucast (x :: u32) :: u64) = uint x"
  using uint_u32_bound [of x] by (simp add: unsigned_ucast_eq take_bit_int_eq_self)

lemma uint_low32 [word_val]: "uint (ucast (n :: u64) :: u32) = uint n mod 2 ^ 32"
  by (simp add: unsigned_ucast_eq take_bit_eq_mod)

lemma uint_high32 [word_val]: "uint (drop_bit 32 (n :: u64)) = uint n div 2 ^ 32"
  by (simp add: drop_bit_eq_div uint_div_distrib)

lemma uint_add_u64 [word_val]:
  "uint a + uint b < 2 ^ 64 \<Longrightarrow> uint (a + b :: u64) = uint a + uint b"
  by (simp add: uint_word_ariths)

lemma uint_mult_u64 [word_val]:
  "uint a * uint b < 2 ^ 64 \<Longrightarrow> uint (a * b :: u64) = uint a * uint b"
  by (simp add: uint_word_ariths)

lemma uint_NOT_u32 [word_val]: "uint (NOT x :: u32) = 4294967295 - uint x"
proof -
  have eq: "- uint x - 1 = 4294967295 - uint x + (- 1) * 2 ^ 32" by simp
  have "uint (NOT x) = take_bit 32 (NOT (uint x))"
    by (simp add: unsigned_not_eq)
  also have "\<dots> = (4294967295 - uint x + (- 1) * 2 ^ 32) mod 2 ^ 32"
    by (simp only: take_bit_eq_mod not_int_def eq)
  also have "\<dots> = (4294967295 - uint x) mod 2 ^ 32" by (rule mod_mult_self1)
  also have "\<dots> = 4294967295 - uint x"
  proof -
    have "- 1 < uint x" using uint_ge_0 [of x] by linarith
    then show ?thesis using uint_u32_bound [of x] by (intro mod_pos_pos_trivial) simp_all
  qed
  finally show ?thesis .
qed

lemma uint_minus_1_u32 [simp]: "uint (- 1 :: u32) = 4294967295"
  by (simp add: unsigned_minus_1_eq_mask mask_eq_exp_minus_1)

lemma uint_succ_u32 [word_val]:
  "uint (x + 1 :: u32) = (if x + 1 = 0 then 0 else uint x + 1)"
proof (cases "uint x = 4294967295")
  case True
  then have "x = 4294967295" by (simp add: word_uint_eq_iff)
  then show ?thesis by simp
next
  case False
  then have "uint x + 1 < 2 ^ 32" using uint_u32_bound [of x] by simp
  then have "uint (x + 1) = uint x + 1" using uint_add_lem [of x 1] by simp
  then show ?thesis using uint_ge_0 [of x] by (metis add_cancel_right_left uint_0_eq
    zle_add1_eq_le not_less order_refl zero_less_one)
qed

section \<open>Results that may fail\<close>

fun sum_bind :: "'e + 'a \<Rightarrow> ('a \<Rightarrow> 'e + 'b) \<Rightarrow> 'e + 'b" where
  "sum_bind (Inl e) f = Inl e"
| "sum_bind (Inr x) f = f x"

lemma sum_bind_Inr_iff: "sum_bind m f = Inr y \<longleftrightarrow> (\<exists>x. m = Inr x \<and> f x = Inr y)"
  by (cases m) auto

lemma sum_bind_assoc: "sum_bind (sum_bind m f) g = sum_bind m (\<lambda>x. sum_bind (f x) g)"
  by (cases m) auto

section \<open>Lists\<close>

lemma nth_list_update_if: "i < length xs \<Longrightarrow> xs[i := v] ! j = (if i = j then v else xs ! j)"
  by simp

lemma foldl_invariant:
  "P s \<Longrightarrow> (\<And>s x. x \<in> set xs \<Longrightarrow> P s \<Longrightarrow> P (f s x)) \<Longrightarrow> P (foldl f s xs)"
  by (induction xs arbitrary: s) auto

lemma concat_chunk_drop:
  "(\<And>x. length (f x) = k) \<Longrightarrow> i \<le> length xs \<Longrightarrow> drop (i * k) (concat (map f xs)) = concat (map f (drop i xs))"
proof (induction i arbitrary: xs)
  case (Suc i)
  then show ?case by (cases xs) simp_all
qed simp

lemma concat_chunk_take:
  "(\<And>x. length (f x) = k) \<Longrightarrow> i < length xs \<Longrightarrow>
    take k (drop (i * k) (concat (map f xs))) = f (xs ! i)"
  by (simp add: concat_chunk_drop Cons_nth_drop_Suc [symmetric])

lemma length_concat_chunk: "(\<And>x. length (f x) = k) \<Longrightarrow> length (concat (map f xs)) = length xs * k"
  by (induction xs) simp_all

lemma concat_chunks:
  "length xs = n * k \<Longrightarrow> concat (map (\<lambda>i. take k (drop (i * k) xs)) [0..<n]) = xs"
proof (induction n arbitrary: xs)
  case (Suc n)
  have "[0..<Suc n] = 0 # map Suc [0..<n]" by (simp add: map_Suc_upt upt_conv_Cons)
  then show ?case using Suc.IH [of "drop k xs"] Suc.prems
    by (simp add: o_def add.commute append_take_drop_id del: upt_Suc)
qed simp

end
