(* ===== verification/ArithUint256.thy ===== *)
theory ArithUint256
  imports Prelude
begin

text \<open>
  The 256-bit unsigned integers of \<open>arith_uint256.h\<close> and \<open>arith_uint256.cpp\<close>: eight
  32-bit limbs, least significant first (\<open>pn\<close>), with the carry loops of the code over
  64-bit intermediates.  \<open>uval\<close> is the number a limb list stands for; every operation
  is shown to compute the arithmetic operation modulo \<open>2\<^sup>2\<^sup>5\<^sup>6\<close> on it.
\<close>

section \<open>Representation\<close>

record base_uint =
  pn :: "u32 list"

definition WIDTH :: nat where
  "WIDTH = 8"

definition bu_wf :: "base_uint \<Rightarrow> bool" where
  "bu_wf a \<longleftrightarrow> length (pn a) = WIDTH"

fun uval :: "u32 list \<Rightarrow> int" where
  "uval [] = 0"
| "uval (x # xs) = uint x + 2 ^ 32 * uval xs"

definition bval :: "base_uint \<Rightarrow> int" where
  "bval a = uval (pn a)"

datatype uint_error = DivisionByZero

section \<open>Operations of the class\<close>

definition bu_zero :: base_uint where
  "bu_zero = \<lparr>pn = replicate WIDTH 0\<rparr>"

definition from_u64 :: "u64 \<Rightarrow> base_uint" where
  "from_u64 b = \<lparr>pn = ucast b # ucast (drop_bit 32 b) # replicate (WIDTH - 2) 0\<rparr>"

definition bu_is_zero :: "base_uint \<Rightarrow> bool" where
  "bu_is_zero a \<longleftrightarrow> list_all (\<lambda>x. x = 0) (pn a)"

definition bu_compl :: "base_uint \<Rightarrow> base_uint" where
  "bu_compl a = \<lparr>pn = map NOT (pn a)\<rparr>"

fun inc_loop :: "u32 list \<Rightarrow> u32 list" where
  "inc_loop [] = []"
| "inc_loop (x # xs) = (if x + 1 = 0 then (x + 1) # inc_loop xs else (x + 1) # xs)"

definition bu_inc :: "base_uint \<Rightarrow> base_uint" where
  "bu_inc a = \<lparr>pn = inc_loop (pn a)\<rparr>"

fun dec_loop :: "u32 list \<Rightarrow> u32 list" where
  "dec_loop [] = []"
| "dec_loop (x # xs) = (if x - 1 = - 1 then (x - 1) # dec_loop xs else (x - 1) # xs)"

definition bu_dec :: "base_uint \<Rightarrow> base_uint" where
  "bu_dec a = \<lparr>pn = dec_loop (pn a)\<rparr>"

definition bu_neg :: "base_uint \<Rightarrow> base_uint" where
  "bu_neg a = bu_inc (bu_compl a)"

fun add_loop :: "u64 \<Rightarrow> u32 list \<Rightarrow> u32 list \<Rightarrow> u32 list" where
  "add_loop carry (x # xs) (y # ys) =
     (let n = carry + ucast x + ucast y
      in ucast n # add_loop (drop_bit 32 n) xs ys)"
| "add_loop carry _ _ = []"

definition bu_add :: "base_uint \<Rightarrow> base_uint \<Rightarrow> base_uint" where
  "bu_add a b = \<lparr>pn = add_loop 0 (pn a) (pn b)\<rparr>"

definition bu_sub :: "base_uint \<Rightarrow> base_uint \<Rightarrow> base_uint" where
  "bu_sub a b = bu_add a (bu_neg b)"

fun mul32_loop :: "u64 \<Rightarrow> u32 \<Rightarrow> u32 list \<Rightarrow> u32 list" where
  "mul32_loop carry b32 [] = []"
| "mul32_loop carry b32 (x # xs) =
     (let n = carry + ucast b32 * ucast x
      in ucast n # mul32_loop (drop_bit 32 n) b32 xs)"

definition bu_mul32 :: "base_uint \<Rightarrow> u32 \<Rightarrow> base_uint" where
  "bu_mul32 a b32 = \<lparr>pn = mul32_loop 0 b32 (pn a)\<rparr>"

function mul_inner :: "u32 \<Rightarrow> u32 list \<Rightarrow> nat \<Rightarrow> nat \<Rightarrow> u64 \<Rightarrow> u32 list \<Rightarrow> u32 list" where
  "mul_inner aj b j i carry p =
     (if i + j < WIDTH then
        (let n = carry + ucast (p ! (i + j)) + ucast aj * ucast (b ! i)
         in mul_inner aj b j (Suc i) (drop_bit 32 n) (p[i + j := ucast n]))
      else p)"
  by pat_completeness auto
termination
  by (relation "measure (\<lambda>(aj, b, j, i, carry, p). WIDTH - (i + j))") auto

function mul_outer :: "u32 list \<Rightarrow> u32 list \<Rightarrow> nat \<Rightarrow> u32 list \<Rightarrow> u32 list" where
  "mul_outer a b j p =
     (if j < WIDTH then mul_outer a b (Suc j) (mul_inner (a ! j) b j 0 0 p) else p)"
  by pat_completeness auto
termination
  by (relation "measure (\<lambda>(a, b, j, p). WIDTH - j)") auto

declare mul_inner.simps [simp del] mul_outer.simps [simp del]

definition bu_mul :: "base_uint \<Rightarrow> base_uint \<Rightarrow> base_uint" where
  "bu_mul a b = \<lparr>pn = mul_outer (pn a) (pn b) 0 (replicate WIDTH 0)\<rparr>"

definition shl_step :: "u32 list \<Rightarrow> nat \<Rightarrow> nat \<Rightarrow> u32 list \<Rightarrow> nat \<Rightarrow> u32 list" where
  "shl_step a k s p i =
     (let p1 = (if i + k + 1 < WIDTH \<and> s \<noteq> 0
                then p[i + k + 1 := (p ! (i + k + 1)) OR drop_bit (32 - s) (a ! i)] else p)
      in if i + k < WIDTH then p1[i + k := (p1 ! (i + k)) OR push_bit s (a ! i)] else p1)"

definition bu_shl :: "base_uint \<Rightarrow> nat \<Rightarrow> base_uint" where
  "bu_shl a shift =
     \<lparr>pn = foldl (shl_step (pn a) (shift div 32) (shift mod 32)) (replicate WIDTH 0) [0..<WIDTH]\<rparr>"

definition shr_step :: "u32 list \<Rightarrow> nat \<Rightarrow> nat \<Rightarrow> u32 list \<Rightarrow> nat \<Rightarrow> u32 list" where
  "shr_step a k s p i =
     (let p1 = (if i \<ge> k + 1 \<and> s \<noteq> 0
                then p[i - k - 1 := (p ! (i - k - 1)) OR push_bit (32 - s) (a ! i)] else p)
      in if i \<ge> k then p1[i - k := (p1 ! (i - k)) OR drop_bit s (a ! i)] else p1)"

definition bu_shr :: "base_uint \<Rightarrow> nat \<Rightarrow> base_uint" where
  "bu_shr a shift =
     \<lparr>pn = foldl (shr_step (pn a) (shift div 32) (shift mod 32)) (replicate WIDTH 0) [0..<WIDTH]\<rparr>"

fun cmp_loop :: "nat \<Rightarrow> u32 list \<Rightarrow> u32 list \<Rightarrow> int" where
  "cmp_loop 0 a b = 0"
| "cmp_loop (Suc i) a b =
     (if a ! i < b ! i then - 1 else if a ! i > b ! i then 1 else cmp_loop i a b)"

definition bu_compare :: "base_uint \<Rightarrow> base_uint \<Rightarrow> int" where
  "bu_compare a b = cmp_loop WIDTH (pn a) (pn b)"

definition bu_eq_u64 :: "base_uint \<Rightarrow> u64 \<Rightarrow> bool" where
  "bu_eq_u64 a b \<longleftrightarrow>
     list_all (\<lambda>x. x = 0) (drop 2 (pn a)) \<and>
     (ucast (pn a ! 1) :: u64) = drop_bit 32 b \<and>
     (ucast (pn a ! 0) :: u64) = b AND 0xffffffff"

fun limb_bits :: "nat \<Rightarrow> u32 \<Rightarrow> nat" where
  "limb_bits 0 x = 1"
| "limb_bits (Suc n) x = (if x AND push_bit (Suc n) 1 \<noteq> 0 then Suc n + 1 else limb_bits n x)"

fun bits_loop :: "nat \<Rightarrow> u32 list \<Rightarrow> nat" where
  "bits_loop 0 a = 0"
| "bits_loop (Suc pos) a =
     (if a ! pos \<noteq> 0 then 32 * pos + limb_bits 31 (a ! pos) else bits_loop pos a)"

definition bu_bits :: "base_uint \<Rightarrow> nat" where
  "bu_bits a = bits_loop WIDTH (pn a)"

definition set_bit_at :: "u32 list \<Rightarrow> nat \<Rightarrow> u32 list" where
  "set_bit_at p sh = p[sh div 32 := (p ! (sh div 32)) OR push_bit (sh mod 32) 1]"

fun div_loop :: "nat \<Rightarrow> base_uint \<Rightarrow> base_uint \<Rightarrow> u32 list \<Rightarrow> u32 list" where
  \<comment> \<open>\<open>div_loop (Suc sh)\<close> is the loop body with \<open>shift = sh\<close>, \<open>div_loop 0\<close> the exit with \<open>shift = -1\<close>\<close>
  "div_loop 0 num dv q = q"
| "div_loop (Suc sh) num dv q =
     (if bu_compare num dv \<ge> 0
      then div_loop sh (bu_sub num dv) (bu_shr dv 1) (set_bit_at q sh)
      else div_loop sh num (bu_shr dv 1) q)"

definition bu_div :: "base_uint \<Rightarrow> base_uint \<Rightarrow> uint_error + base_uint" where
  "bu_div a b =
     (let num_bits = bu_bits a; div_bits = bu_bits b
      in if div_bits = 0 then Inl DivisionByZero
         else if div_bits > num_bits then Inr bu_zero
         else let shift = num_bits - div_bits
              in Inr \<lparr>pn = div_loop (Suc shift) a (bu_shl b shift) (replicate WIDTH 0)\<rparr>)"

definition GetLow64 :: "base_uint \<Rightarrow> u64" where
  "GetLow64 a = ucast (pn a ! 0) OR push_bit 32 (ucast (pn a ! 1))"

text \<open>
  The compact encoding: the size in bytes in the top byte, the sign in bit 23 and a 23-bit
  mantissa.  \<open>SetCompact\<close> returns the number with the two output parameters
  \<open>*pfNegative\<close> and \<open>*pfOverflow\<close>; a failing \<open>assert\<close> of
  \<open>GetCompact\<close> is \<open>None\<close>.
\<close>

definition SetCompact :: "u32 \<Rightarrow> base_uint \<times> bool \<times> bool" where
  "SetCompact nCompact =
     (let nSize = unat (drop_bit 24 nCompact);
          nWord0 = nCompact AND 0x007fffff;
          nWord = (if nSize \<le> 3 then drop_bit (8 * (3 - nSize)) nWord0 else nWord0);
          v = (if nSize \<le> 3 then from_u64 (ucast nWord)
               else bu_shl (from_u64 (ucast nWord)) (8 * (nSize - 3)));
          fNegative = (nWord \<noteq> 0 \<and> nCompact AND 0x00800000 \<noteq> 0);
          fOverflow = (nWord \<noteq> 0 \<and> (nSize > 34 \<or> (nWord > 0xff \<and> nSize > 33) \<or>
                                     (nWord > 0xffff \<and> nSize > 32)))
      in (v, fNegative, fOverflow))"

definition GetCompact :: "base_uint \<Rightarrow> bool \<Rightarrow> u32 option" where
  "GetCompact a fNegative =
     (let nSize0 = (bu_bits a + 7) div 8;
          c0 = (if nSize0 \<le> 3 then ucast (push_bit (8 * (3 - nSize0)) (GetLow64 a))
                else ucast (GetLow64 (bu_shr a (8 * (nSize0 - 3)))));
          c1 = (if c0 AND 0x00800000 \<noteq> 0 then drop_bit 8 c0 else c0);
          nSize = (if c0 AND 0x00800000 \<noteq> 0 then nSize0 + 1 else nSize0)
      in if c1 AND NOT 0x007fffff \<noteq> 0 then None
         else if \<not> nSize < 256 then None
         else let c2 = c1 OR push_bit 24 (of_nat nSize)
              in Some (c2 OR (if fNegative \<and> c2 AND 0x007fffff \<noteq> 0 then 0x00800000 else 0)))"

section \<open>Values of limb lists\<close>

lemma uval_nonneg: "0 \<le> uval xs"
  by (induction xs) auto

lemma uval_bound: "uval xs < 2 ^ (32 * length xs)"
proof (induction xs)
  case Nil
  then show ?case by simp
next
  case (Cons x xs)
  have "uint x < 2 ^ 32" using uint_u32_bound [of x] by simp
  moreover have "uval xs + 1 \<le> 2 ^ (32 * length xs)" using Cons.IH by simp
  then have "2 ^ 32 * (uval xs + 1) \<le> 2 ^ 32 * 2 ^ (32 * length xs)"
    by (intro mult_left_mono) auto
  ultimately show ?case by (simp add: power_add algebra_simps)
qed

lemma uval_append: "uval (xs @ ys) = uval xs + 2 ^ (32 * length xs) * uval ys"
  by (induction xs) (simp_all add: power_add algebra_simps)

lemma uval_replicate_0 [simp]: "uval (replicate n 0) = 0"
  by (induction n) auto

lemma uval_eq_0_iff: "uval xs = 0 \<longleftrightarrow> list_all (\<lambda>x. x = 0) xs"
proof (induction xs)
  case Nil
  then show ?case by simp
next
  case (Cons x xs)
  have "uint x + 2 ^ 32 * uval xs = 0 \<longleftrightarrow> uint x = 0 \<and> uval xs = 0"
    using uint_ge_0 [of x] uval_nonneg [of xs] by (auto simp: add_nonneg_eq_0_iff)
  with Cons.IH show ?case by (simp add: uint_0_iff)
qed

lemma uval_inj: "length xs = length ys \<Longrightarrow> uval xs = uval ys \<Longrightarrow> xs = ys"
proof (induction xs ys rule: list_induct2)
  case Nil
  then show ?case by simp
next
  case (Cons x xs y ys)
  have m: "(uint x + 2 ^ 32 * uval xs) mod 2 ^ 32 = uint x"
    "(uint y + 2 ^ 32 * uval ys) mod 2 ^ 32 = uint y"
    using uint_u32_bound [of x] uint_u32_bound [of y] by simp_all
  moreover have "uint x + 2 ^ 32 * uval xs = uint y + 2 ^ 32 * uval ys"
    using Cons.prems by simp
  ultimately have "uint x = uint y" by metis
  moreover from this have "uval xs = uval ys" using Cons.prems by simp
  ultimately show ?case using Cons.IH by (simp add: word_uint_eq_iff)
qed

lemma uval_update:
  "i < length xs \<Longrightarrow> uval (xs[i := v]) = uval xs + 2 ^ (32 * i) * (uint v - uint (xs ! i))"
proof (induction xs arbitrary: i)
  case Nil
  then show ?case by simp
next
  case (Cons x xs)
  show ?case
  proof (cases i)
    case 0
    then show ?thesis by simp
  next
    case (Suc j)
    with Cons.prems have
      IH: "uval (xs[j := v]) = uval xs + 2 ^ (32 * j) * (uint v - uint (xs ! j))"
      by (intro Cons.IH) simp
    have "(2 :: int) ^ (32 * i) = 2 ^ 32 * 2 ^ (32 * j)"
      by (simp add: Suc power_add)
    then show ?thesis
      by (simp only: Suc list_update_code uval.simps nth_Cons_Suc IH) (simp add: algebra_simps)
  qed
qed

lemma uval_drop_Cons:
  "i < length xs \<Longrightarrow> uval (drop i xs) = uint (xs ! i) + 2 ^ 32 * uval (drop (Suc i) xs)"
  by (simp add: Cons_nth_drop_Suc [symmetric])

lemma bval_bounds: "bu_wf a \<Longrightarrow> 0 \<le> bval a \<and> bval a < 2 ^ 256"
  using uval_bound [of "pn a"] by (simp add: bu_wf_def bval_def WIDTH_def uval_nonneg)

lemma bval_inj: "bu_wf a \<Longrightarrow> bu_wf b \<Longrightarrow> bval a = bval b \<Longrightarrow> a = b"
  using uval_inj [of "pn a" "pn b"] by (cases a; cases b) (simp add: bu_wf_def bval_def)

section \<open>Addition, negation and subtraction\<close>

lemma carry_split: "uint (ucast n :: u32) + 2 ^ 32 * uint (drop_bit 32 (n :: u64)) = uint n"
  by (simp only: word_val mod_mult_div_eq mod_div_mult_eq mult.commute)

lemma length_add_loop [simp]: "length xs = length ys \<Longrightarrow> length (add_loop c xs ys) = length xs"
  by (induction xs ys arbitrary: c rule: list_induct2) (auto simp: Let_def)

lemma add_loop_val:
  assumes "length xs = length ys" and "uint c \<le> 1"
  shows "\<exists>k. uval (add_loop c xs ys) + 2 ^ (32 * length xs) * k = uval xs + uval ys + uint c"
  using assms
proof (induction xs ys arbitrary: c rule: list_induct2)
  case Nil
  then show ?case by (intro exI [of _ "uint c"]) simp
next
  case (Cons x xs y ys)
  define n :: u64 where "n = c + ucast x + ucast y"
  have b: "uint x < 4294967296" "uint y < 4294967296" by (rule uint_u32_bound)+
  have n1: "uint (c + ucast x) = uint c + uint x"
    using b Cons.prems by (subst uint_add_u64) (simp_all add: word_val)
  have n: "uint n = uint c + uint x + uint y"
    unfolding n_def using b Cons.prems n1 by (subst uint_add_u64) (simp_all add: word_val)
  have "uint (drop_bit 32 n) \<le> 1"
    using b Cons.prems n by (simp only: word_val) simp
  from Cons.IH [OF this] obtain k where
    k: "uval (add_loop (drop_bit 32 n) xs ys) + 2 ^ (32 * length xs) * k
      = uval xs + uval ys + uint (drop_bit 32 n)" by blast
  have "uval (add_loop c (x # xs) (y # ys)) + 2 ^ (32 * length (x # xs)) * k
      = uint (ucast n :: u32) + 2 ^ 32 * (uval (add_loop (drop_bit 32 n) xs ys) + 2 ^ (32 * length xs) * k)"
    by (simp add: Let_def n_def power_add algebra_simps)
  also have "\<dots> = uint n + 2 ^ 32 * (uval xs + uval ys)"
    unfolding k using carry_split [of n] by (simp add: algebra_simps)
  also have "\<dots> = uval (x # xs) + uval (y # ys) + uint c"
    by (simp add: n algebra_simps)
  finally show ?case by blast
qed

lemma bu_wf_add [simp, wf_intros]: "bu_wf a \<Longrightarrow> bu_wf b \<Longrightarrow> bu_wf (bu_add a b)"
  by (simp add: bu_wf_def bu_add_def)

lemma mod_from_multiple: "(r :: int) + m * k = s \<Longrightarrow> 0 \<le> r \<Longrightarrow> r < m \<Longrightarrow> r = s mod m"
  by auto

lemma bval_add: "bu_wf a \<Longrightarrow> bu_wf b \<Longrightarrow> bval (bu_add a b) = (bval a + bval b) mod 2 ^ 256"
  using add_loop_val [of "pn a" "pn b" 0] bval_bounds [of "bu_add a b"]
  by (auto simp: bu_wf_def bval_def bu_add_def WIDTH_def intro!: mod_from_multiple)

lemma uval_compl: "uval (map NOT xs) = 2 ^ (32 * length xs) - 1 - uval xs"
  by (induction xs) (simp_all add: word_val power_add algebra_simps)

lemma bu_wf_compl [simp, wf_intros]: "bu_wf a \<Longrightarrow> bu_wf (bu_compl a)"
  by (simp add: bu_wf_def bu_compl_def)

lemma bval_compl: "bu_wf a \<Longrightarrow> bval (bu_compl a) = 2 ^ 256 - 1 - bval a"
  by (simp add: bu_wf_def bu_compl_def bval_def uval_compl WIDTH_def)

lemma length_inc_loop [simp]: "length (inc_loop xs) = length xs"
  by (induction xs) auto

lemma length_dec_loop [simp]: "length (dec_loop xs) = length xs"
  by (induction xs) auto

lemma inc_loop_val: "uval (inc_loop xs) = (uval xs + 1) mod 2 ^ (32 * length xs)"
proof (induction xs)
  case Nil
  then show ?case by simp
next
  case (Cons x xs)
  have len: "(2 :: int) ^ (32 * length (x # xs)) = 2 ^ 32 * 2 ^ (32 * length xs)"
    by (simp add: power_add)
  show ?case
  proof (cases "x + 1 = 0")
    case True
    then have "x = - 1" by (simp add: eq_neg_iff_add_eq_0)
    then have "uint x = 4294967295" by simp
    then have eq: "uval (x # xs) + 1 = 2 ^ 32 * (uval xs + 1)" by simp
    show ?thesis unfolding len eq using True Cons.IH by (simp add: mult_mod_right)
  next
    case False
    then have v: "uval (inc_loop (x # xs)) = uval (x # xs) + 1"
      by (simp add: word_val)
    have "uval (inc_loop (x # xs)) < 2 ^ (32 * length (x # xs))"
      by (metis length_inc_loop uval_bound)
    then show ?thesis using v uval_nonneg [of "x # xs"] by simp
  qed
qed

lemma uint_pred_u32: "uint (x - 1 :: u32) = (if x = 0 then 4294967295 else uint x - 1)"
proof (cases "x = 0")
  case False
  then have "1 \<le> uint x" using uint_ge_0 [of x] by (metis uint_0_iff int_one_le_iff_zero_less le_less)
  then show ?thesis using False uint_sub_lem [of 1 x] by simp
qed (simp add: unsigned_minus_1_eq_mask mask_eq_exp_minus_1)

lemma dec_loop_val: "uval (dec_loop xs) = (uval xs - 1) mod 2 ^ (32 * length xs)"
proof (induction xs)
  case Nil
  then show ?case by simp
next
  case (Cons x xs)
  have len: "(2 :: int) ^ (32 * length (x # xs)) = 2 ^ 32 * 2 ^ (32 * length xs)"
    by (simp add: power_add)
  show ?case
  proof (cases "x = 0")
    case True
    have m: "(2 ^ 32 * a + r) mod (2 ^ 32 * b) = 2 ^ 32 * (a mod b) + r"
      if "0 \<le> r" "r < 2 ^ 32" "0 < b" for a b r :: int
    proof -
      have ab: "0 \<le> a mod b" "a mod b < b" using that by simp_all
      then have "a mod b + 1 \<le> b" by simp
      then have "2 ^ 32 * (a mod b + 1) \<le> 2 ^ 32 * b" by (intro mult_left_mono) simp_all
      then have "2 ^ 32 * (a mod b) + r < 2 ^ 32 * b" using that(2) by (simp add: algebra_simps)
      moreover have "2 ^ 32 * a + r = (2 ^ 32 * (a mod b) + r) + 2 ^ 32 * b * (a div b)"
        by (subst mult_div_mod_eq [of b a, symmetric]) (simp only: algebra_simps)
      ultimately show ?thesis using ab that(1) by (metis add_nonneg_nonneg mod_mult_self2
        mod_pos_pos_trivial mult_nonneg_nonneg zero_le_numeral zero_le_power)
    qed
    have eq: "uval (x # xs) - 1 = 2 ^ 32 * (uval xs - 1) + 4294967295"
      using True by simp
    have "uval (dec_loop (x # xs)) = 2 ^ 32 * ((uval xs - 1) mod 2 ^ (32 * length xs)) + 4294967295"
      using True Cons.IH by simp
    then show ?thesis unfolding len eq by (subst m) simp_all
  next
    case False
    then have v: "uval (dec_loop (x # xs)) = uval (x # xs) - 1"
      by (simp add: uint_pred_u32)
    have "uval (dec_loop (x # xs)) < 2 ^ (32 * length (x # xs))"
      by (metis length_dec_loop uval_bound)
    then show ?thesis using v uval_nonneg [of "dec_loop (x # xs)"] by simp
  qed
qed

lemma bu_wf_inc [simp, wf_intros]: "bu_wf a \<Longrightarrow> bu_wf (bu_inc a)"
  by (simp add: bu_wf_def bu_inc_def)

lemma bu_wf_neg [simp, wf_intros]: "bu_wf a \<Longrightarrow> bu_wf (bu_neg a)"
  by (simp add: bu_neg_def)

lemma bval_inc: "bu_wf a \<Longrightarrow> bval (bu_inc a) = (bval a + 1) mod 2 ^ 256"
  by (simp add: bu_wf_def bu_inc_def bval_def inc_loop_val WIDTH_def)

lemma bval_dec: "bu_wf a \<Longrightarrow> bval (bu_dec a) = (bval a - 1) mod 2 ^ 256"
  by (simp add: bu_wf_def bu_dec_def bval_def dec_loop_val WIDTH_def)

lemma bval_neg: "bu_wf a \<Longrightarrow> bval (bu_neg a) = (- bval a) mod 2 ^ 256"
  by (simp add: bu_neg_def bval_inc bval_compl mod_simps)

lemma bu_wf_sub [simp, wf_intros]: "bu_wf a \<Longrightarrow> bu_wf b \<Longrightarrow> bu_wf (bu_sub a b)"
  by (simp add: bu_sub_def)

lemma bval_sub: "bu_wf a \<Longrightarrow> bu_wf b \<Longrightarrow> bval (bu_sub a b) = (bval a - bval b) mod 2 ^ 256"
  by (simp add: bu_sub_def bval_add bval_neg mod_simps)

section \<open>Multiplication\<close>

lemma mul_step_bound:
  fixes c x a b :: int
  assumes "0 \<le> a" "a < 2 ^ 32" "0 \<le> b" "b < 2 ^ 32" "c < 2 ^ 32" "x < 2 ^ 32"
  shows "c + x + a * b < 2 ^ 64" and "a * b < 2 ^ 64"
proof -
  have "a * b \<le> (2 ^ 32 - 1) * (2 ^ 32 - 1)"
    using assms by (intro mult_mono) auto
  then show "c + x + a * b < 2 ^ 64" and "a * b < 2 ^ 64" using assms by simp_all
qed

lemma mul_step_val:
  fixes c :: u64 and x a b :: u32
  assumes "uint c < 2 ^ 32"
  shows "uint (c + ucast x + ucast a * ucast b) = uint c + uint x + uint a * uint b"
proof -
  have b: "uint x < 2 ^ 32" "uint a < 2 ^ 32" "uint b < 2 ^ 32"
    using uint_u32_bound [of x] uint_u32_bound [of a] uint_u32_bound [of b] by simp_all
  note mb = mul_step_bound [OF uint_ge_0 b(2) uint_ge_0 b(3) assms b(1)]
  have ab: "uint (ucast a * ucast b :: u64) = uint a * uint b"
    by (subst uint_mult_u64) (use mb(2) in \<open>simp_all only: word_val\<close>)
  have cx: "uint (c + ucast x) = uint c + uint x"
    by (subst uint_add_u64) (use assms b(1) in \<open>simp_all add: word_val\<close>)
  show ?thesis
    by (subst uint_add_u64) (use mb(1) ab cx in simp_all)
qed

lemma high32_bound: "uint (drop_bit 32 (n :: u64)) < 2 ^ 32"
  using uint_u64_bound [of n] by (simp only: word_val) simp

lemma length_mul32_loop [simp]: "length (mul32_loop c b xs) = length xs"
  by (induction xs arbitrary: c) (auto simp: Let_def)

lemma mul32_loop_val:
  "uint c < 2 ^ 32 \<Longrightarrow>
    \<exists>k. uval (mul32_loop c b xs) + 2 ^ (32 * length xs) * k = uint b * uval xs + uint c"
proof (induction xs arbitrary: c)
  case Nil
  then show ?case by (intro exI [of _ "uint c"]) simp
next
  case (Cons x xs)
  define n :: u64 where "n = c + ucast b * ucast x"
  have n: "uint n = uint c + uint b * uint x"
    using mul_step_val [OF Cons.prems, of 0 b x] by (simp add: n_def)
  from Cons.IH [OF high32_bound, of n] obtain k where
    k: "uval (mul32_loop (drop_bit 32 n) b xs) + 2 ^ (32 * length xs) * k
      = uint b * uval xs + uint (drop_bit 32 n)" by blast
  have "uval (mul32_loop c b (x # xs)) + 2 ^ (32 * length (x # xs)) * k
      = uint (ucast n :: u32)
        + 2 ^ 32 * (uval (mul32_loop (drop_bit 32 n) b xs) + 2 ^ (32 * length xs) * k)"
    by (simp add: Let_def n_def power_add algebra_simps)
  also have "\<dots> = uint n + 2 ^ 32 * (uint b * uval xs)"
    unfolding k using carry_split [of n] by (simp add: algebra_simps)
  also have "\<dots> = uint b * uval (x # xs) + uint c"
    by (simp add: n algebra_simps)
  finally show ?case by blast
qed

lemma bu_wf_mul32 [simp, wf_intros]: "bu_wf a \<Longrightarrow> bu_wf (bu_mul32 a b)"
  by (simp add: bu_wf_def bu_mul32_def)

lemma bval_mul32: "bu_wf a \<Longrightarrow> bval (bu_mul32 a b) = (bval a * uint b) mod 2 ^ 256"
  using mul32_loop_val [of 0 b "pn a"] bval_bounds [of "bu_mul32 a b"]
  by (auto simp: bu_wf_def bval_def bu_mul32_def WIDTH_def mult.commute intro!: mod_from_multiple)

lemma length_mul_inner [simp]: "length (mul_inner aj b j i c p) = length p"
  by (induction aj b j i c p rule: mul_inner.induct) (simp add: mul_inner.simps Let_def)

lemma mul_inner_val:
  "length p = WIDTH \<Longrightarrow> length b = WIDTH \<Longrightarrow> uint c < 2 ^ 32 \<Longrightarrow>
    \<exists>k. uval (mul_inner aj b j i c p) + 2 ^ (32 * WIDTH) * k
        = uval p + 2 ^ (32 * (i + j)) * (uint c + uint aj * uval (drop i b))"
proof (induction aj b j i c p rule: mul_inner.induct)
  case (1 aj b j i c p)
  show ?case
  proof (cases "i + j < WIDTH")
    case False
    then obtain d where d: "i + j = WIDTH + d" by (metis le_add_diff_inverse not_less)
    have "(2 :: int) ^ (32 * (i + j)) = 2 ^ (32 * WIDTH) * 2 ^ (32 * d)"
      by (simp add: d power_add)
    then show ?thesis using False by (subst mul_inner.simps) (auto simp: mult.assoc)
  next
    case True
    define n where "n = c + ucast (p ! (i + j)) + ucast aj * ucast (b ! i)"
    have n: "uint n = uint c + uint (p ! (i + j)) + uint aj * uint (b ! i)"
      unfolding n_def by (rule mul_step_val) (fact "1.prems"(3))
    let ?p = "p[i + j := ucast n]" and ?B = "(2 :: int) ^ (32 * (i + j))"
    obtain k where k: "uval (mul_inner aj b j (Suc i) (drop_bit 32 n) ?p) + 2 ^ (32 * WIDTH) * k
        = uval ?p + 2 ^ (32 * (Suc i + j)) * (uint (drop_bit 32 n) + uint aj * uval (drop (Suc i) b))"
      using "1.IH" [OF True n_def] "1.prems" high32_bound by auto
    have up: "uval ?p = uval p + ?B * (uint (ucast n :: u32) - uint (p ! (i + j)))"
      using True "1.prems" by (subst uval_update) simp_all
    have B: "(2 :: int) ^ (32 * (Suc i + j)) = ?B * 2 ^ 32" by (simp add: power_add)
    have dr: "uval (drop i b) = uint (b ! i) + 2 ^ 32 * uval (drop (Suc i) b)"
      using True "1.prems" by (intro uval_drop_Cons) simp
    have "uval ?p + ?B * 2 ^ 32 * (uint (drop_bit 32 n) + uint aj * uval (drop (Suc i) b))
       = uval p + ?B * ((uint (ucast n :: u32) + 2 ^ 32 * uint (drop_bit 32 n))
           - uint (p ! (i + j)) + 2 ^ 32 * (uint aj * uval (drop (Suc i) b)))"
      unfolding up by (simp only: algebra_simps)
    also have "\<dots> = uval p + ?B * (uint c + uint aj * uval (drop i b))"
      unfolding carry_split n dr by (simp only: algebra_simps)
    finally show ?thesis using True k B by (subst mul_inner.simps) (auto simp: n_def Let_def)
  qed
qed

lemma length_mul_outer [simp]: "length (mul_outer a b j p) = length p"
  by (induction a b j p rule: mul_outer.induct) (simp add: mul_outer.simps)

lemma mul_outer_val:
  "length a = WIDTH \<Longrightarrow> length b = WIDTH \<Longrightarrow> length p = WIDTH \<Longrightarrow>
    \<exists>k. uval (mul_outer a b j p) + 2 ^ (32 * WIDTH) * k
        = uval p + 2 ^ (32 * j) * uval (drop j a) * uval b"
proof (induction a b j p rule: mul_outer.induct)
  case (1 a b j p)
  show ?case
  proof (cases "j < WIDTH")
    case False
    then show ?thesis using "1.prems" by (subst mul_outer.simps) (auto intro: exI [of _ 0])
  next
    case True
    let ?q = "mul_inner (a ! j) b j 0 0 p"
    obtain k1 where k1: "uval ?q + 2 ^ (32 * WIDTH) * k1
        = uval p + 2 ^ (32 * j) * (uint (a ! j) * uval b)"
      using mul_inner_val [of p b 0 "a ! j" j 0] "1.prems" by auto
    obtain k2 where k2: "uval (mul_outer a b (Suc j) ?q) + 2 ^ (32 * WIDTH) * k2
        = uval ?q + 2 ^ (32 * Suc j) * uval (drop (Suc j) a) * uval b"
      using "1.IH" [OF True] "1.prems" by auto
    have dr: "uval (drop j a) = uint (a ! j) + 2 ^ 32 * uval (drop (Suc j) a)"
      using True "1.prems" by (intro uval_drop_Cons) simp
    have "uval (mul_outer a b (Suc j) ?q) + 2 ^ (32 * WIDTH) * (k1 + k2)
        = uval p + 2 ^ (32 * j) * (uint (a ! j) * uval b)
          + 2 ^ (32 * Suc j) * uval (drop (Suc j) a) * uval b"
      using k1 k2 by (simp add: algebra_simps)
    also have "\<dots> = uval p + 2 ^ (32 * j) * uval (drop j a) * uval b"
      unfolding dr by (simp add: power_add algebra_simps)
    finally show ?thesis using True by (subst mul_outer.simps) auto
  qed
qed

lemma bu_wf_mul [simp, wf_intros]: "bu_wf (bu_mul a b)"
  by (simp add: bu_wf_def bu_mul_def)

lemma bval_mul: "bu_wf a \<Longrightarrow> bu_wf b \<Longrightarrow> bval (bu_mul a b) = (bval a * bval b) mod 2 ^ 256"
  using mul_outer_val [of "pn a" "pn b" "replicate WIDTH 0" 0] bval_bounds [OF bu_wf_mul, of a b]
  by (auto simp: bu_wf_def bval_def bu_mul_def WIDTH_def intro!: mod_from_multiple)

section \<open>Shifts\<close>

lemma bit_uval:
  "bit (uval xs) n \<longleftrightarrow> n div 32 < length xs \<and> bit (xs ! (n div 32)) (n mod 32)"
proof (induction xs arbitrary: n)
  case Nil
  then show ?case by simp
next
  case (Cons x xs)
  have "uval (x # xs) = concat_bit 32 (uint x) (uval xs)"
    by (simp add: concat_bit_eq push_bit_eq_mult take_bit_int_eq_self uint_u32_bound)
  then have b: "bit (uval (x # xs)) n \<longleftrightarrow> (if n < 32 then bit (uint x) n else bit (uval xs) (n - 32))"
    by (simp add: bit_concat_bit_iff)
  show ?case
  proof (cases "n < 32")
    case True
    then show ?thesis using b by (simp add: bit_uint_iff)
  next
    case False
    then have "n div 32 = Suc ((n - 32) div 32)" "n mod 32 = (n - 32) mod 32"
      by (simp_all add: le_div_geq le_mod_geq)
    then show ?thesis using False b Cons.IH [of "n - 32"] by simp
  qed
qed

lemma length_shl_step [simp]: "length (shl_step a k s p i) = length p"
  by (simp add: shl_step_def Let_def)

lemma length_shr_step [simp]: "length (shr_step a k s p i) = length p"
  by (simp add: shr_step_def Let_def)

lemma length_foldl_preserved:
  "(\<And>p i. length (f p i) = length p) \<Longrightarrow> length (foldl f p is) = length p"
  by (induction "is" arbitrary: p) auto

lemma bu_wf_shl [simp, wf_intros]: "bu_wf (bu_shl a n)"
  by (simp add: bu_wf_def bu_shl_def length_foldl_preserved del: upt_Suc)

lemma bu_wf_shr [simp, wf_intros]: "bu_wf (bu_shr a n)"
  by (simp add: bu_wf_def bu_shr_def length_foldl_preserved del: upt_Suc)

lemma shl_fold_nth:
  "m < WIDTH \<Longrightarrow> foldl (shl_step a k s) (replicate WIDTH 0) [0..<i] ! m =
     (if k \<le> m \<and> m - k < i then push_bit s (a ! (m - k)) else 0) OR
     (if s \<noteq> 0 \<and> k + 1 \<le> m \<and> m - k - 1 < i then drop_bit (32 - s) (a ! (m - k - 1)) else 0)"
proof (induction i)
  case 0
  then show ?case by simp
next
  case (Suc i)
  define p where "p = foldl (shl_step a k s) (replicate WIDTH 0) [0..<i]"
  have len: "length p = WIDTH" by (simp add: p_def length_foldl_preserved)
  have "foldl (shl_step a k s) (replicate WIDTH 0) [0..<Suc i] = shl_step a k s p i"
    by (simp add: p_def)
  moreover have "shl_step a k s p i ! m =
     (if i + k = m then (p ! m) OR push_bit s (a ! i)
      else if i + k + 1 = m \<and> s \<noteq> 0 then (p ! m) OR drop_bit (32 - s) (a ! i) else p ! m)"
    using Suc.prems len by (auto simp: shl_step_def Let_def nth_list_update)
  moreover note Suc.IH [OF Suc.prems, folded p_def]
  ultimately show ?case
    by (auto simp: less_Suc_eq ac_simps bit.disj_zero_right)
qed

lemma shr_fold_nth:
  "m < WIDTH \<Longrightarrow> i \<le> WIDTH \<Longrightarrow> foldl (shr_step a k s) (replicate WIDTH 0) [0..<i] ! m =
     (if m + k < i then drop_bit s (a ! (m + k)) else 0) OR
     (if s \<noteq> 0 \<and> m + k + 1 < i then push_bit (32 - s) (a ! (m + k + 1)) else 0)"
proof (induction i)
  case 0
  then show ?case by simp
next
  case (Suc i)
  define p where "p = foldl (shr_step a k s) (replicate WIDTH 0) [0..<i]"
  have len: "length p = WIDTH" by (simp add: p_def length_foldl_preserved)
  have "foldl (shr_step a k s) (replicate WIDTH 0) [0..<Suc i] = shr_step a k s p i"
    by (simp add: p_def)
  moreover have "shr_step a k s p i ! m =
     (if i = m + k then (p ! m) OR drop_bit s (a ! i)
      else if i = m + k + 1 \<and> s \<noteq> 0 then (p ! m) OR push_bit (32 - s) (a ! i) else p ! m)"
    using Suc.prems len by (auto simp: shr_step_def Let_def nth_list_update)
  moreover note Suc.IH [OF Suc.prems(1), folded p_def]
  ultimately show ?case using Suc.prems
    by (auto simp: less_Suc_eq ac_simps)
qed

lemma bit_u32_ge: "32 \<le> n \<Longrightarrow> \<not> bit (x :: u32) n"
  using bit_imp_le_length [of x n] by auto

lemma div_mod_32: "x = 32 * q + r \<Longrightarrow> r < 32 \<Longrightarrow> x div 32 = q \<and> x mod 32 = r" for x :: nat
  by simp

lemma bit_uval_limb:
  "r < 32 \<Longrightarrow> bit (uval xs) (32 * q + r) \<longleftrightarrow> q < length xs \<and> bit (xs ! q) r"
  by (simp add: bit_uval)

lemma bit_shl_limbs:
  fixes k s m b :: nat
  assumes len: "length xs = 8" and m: "m < 8" and bs: "b < 32" "s < 32"
  shows "(32 * k + s \<le> 32 * m + b \<and> bit (uval xs) (32 * m + b - (32 * k + s))) \<longleftrightarrow>
    (k \<le> m \<and> s \<le> b \<and> bit (xs ! (m - k)) (b - s)) \<or>
    (s \<noteq> 0 \<and> k + 1 \<le> m \<and> bit (xs ! (m - k - 1)) (32 - s + b))"
proof (cases "s \<le> b")
  case ge: True
  have no: "s \<noteq> 0 \<Longrightarrow> \<not> bit (xs ! (m - k - 1)) (32 - s + b)"
    using ge bs by (intro bit_u32_ge) simp
  show ?thesis
  proof (cases "k \<le> m")
    case True
    then have "32 * m + b - (32 * k + s) = 32 * (m - k) + (b - s)" "32 * k + s \<le> 32 * m + b"
      using ge by linarith+
    then show ?thesis using True ge no m len bs div_mod_32 [of _ "m - k" "b - s"]
      by (auto simp: bit_uval)
  next
    case False
    then have "\<not> 32 * k + s \<le> 32 * m + b" using bs by linarith
    then show ?thesis using False by auto
  qed
next
  case lt: False
  show ?thesis
  proof (cases "k + 1 \<le> m")
    case True
    then have "32 * m + b - (32 * k + s) = 32 * (m - k - 1) + (32 - s + b)" "32 * k + s \<le> 32 * m + b"
      using lt bs by linarith+
    then show ?thesis using True lt m len bs div_mod_32 [of _ "m - k - 1" "32 - s + b"]
      by (auto simp: bit_uval)
  next
    case False
    then have "\<not> 32 * k + s \<le> 32 * m + b" using lt bs by linarith
    then show ?thesis using False lt by auto
  qed
qed

lemma bval_shl:
  assumes "bu_wf a"
  shows "bval (bu_shl a n) = (bval a * 2 ^ n) mod 2 ^ 256"
proof -
  have len: "length (pn (bu_shl a n)) = 8" using bu_wf_shl [of a n] by (simp add: bu_wf_def WIDTH_def)
  have la: "length (pn a) = 8" using assms by (simp add: bu_wf_def WIDTH_def)
  have "bval (bu_shl a n) = take_bit 256 (push_bit n (bval a))"
  proof (rule bit_eqI)
    fix j :: nat
    define k s m b where "k = n div 32" and "s = n mod 32" and "m = j div 32" and "b = j mod 32"
    have n: "n = 32 * k + s" and j: "j = 32 * m + b" and bs: "b < 32" "s < 32"
      by (simp_all add: k_def s_def m_def b_def)
    show "bit (bval (bu_shl a n)) j = bit (take_bit 256 (push_bit n (bval a))) j"
    proof (cases "m < 8")
      case False
      then have "\<not> j < 256" using j by linarith
      then show ?thesis using False len m_def by (simp add: bval_def bit_uval bit_take_bit_iff)
    next
      case True
      then have j256: "j < 256" using j bs by linarith
      have "bit (bval (bu_shl a n)) j \<longleftrightarrow>
          (k \<le> m \<and> s \<le> b \<and> bit (pn a ! (m - k)) (b - s)) \<or>
          (s \<noteq> 0 \<and> k + 1 \<le> m \<and> bit (pn a ! (m - k - 1)) (32 - s + b))"
        using True len shl_fold_nth [of m "pn a" k s WIDTH] bs
        by (auto simp: bval_def bit_uval bu_shl_def WIDTH_def bit_or_iff bit_push_bit_iff
          bit_drop_bit_eq k_def [symmetric] s_def [symmetric] m_def [symmetric] b_def [symmetric]
          simp del: upt_Suc)
      then show ?thesis using j256 bit_shl_limbs [OF la True bs, of k]
        by (simp add: bit_take_bit_iff bit_push_bit_iff_int bval_def n j)
    qed
  qed
  then show ?thesis by (simp add: take_bit_eq_mod push_bit_eq_mult)
qed

lemma bit_shr_limbs:
  fixes k s m b :: nat
  assumes len: "length xs = 8" and m: "m < 8" and bs: "b < 32" "s < 32"
  shows "bit (uval xs) (32 * k + s + (32 * m + b)) \<longleftrightarrow>
    (m + k < 8 \<and> bit (xs ! (m + k)) (s + b)) \<or>
    (s \<noteq> 0 \<and> m + k + 1 < 8 \<and> 32 - s \<le> b \<and> bit (xs ! (m + k + 1)) (b - (32 - s)))"
proof (cases "s + b < 32")
  case True
  have e: "32 * k + s + (32 * m + b) = 32 * (m + k) + (s + b)" by simp
  show ?thesis unfolding e bit_uval_limb [OF True] len using True by auto
next
  case False
  have e: "32 * k + s + (32 * m + b) = 32 * (m + k + 1) + (b - (32 - s))"
    using False bs by simp
  have r: "b - (32 - s) < 32" using bs by simp
  have "\<not> bit (xs ! (m + k)) (s + b)"
    using False by (intro bit_u32_ge) simp
  then show ?thesis unfolding e bit_uval_limb [OF r] len using False bs by auto
qed

lemma bval_shr:
  assumes "bu_wf a"
  shows "bval (bu_shr a n) = bval a div 2 ^ n"
proof -
  have len: "length (pn (bu_shr a n)) = 8" using bu_wf_shr [of a n] by (simp add: bu_wf_def WIDTH_def)
  have la: "length (pn a) = 8" using assms by (simp add: bu_wf_def WIDTH_def)
  have "bval (bu_shr a n) = drop_bit n (bval a)"
  proof (rule bit_eqI)
    fix j :: nat
    define k s m b where "k = n div 32" and "s = n mod 32" and "m = j div 32" and "b = j mod 32"
    have n: "n = 32 * k + s" and j: "j = 32 * m + b" and bs: "b < 32" "s < 32"
      by (simp_all add: k_def s_def m_def b_def)
    show "bit (bval (bu_shr a n)) j = bit (drop_bit n (bval a)) j"
    proof (cases "m < 8")
      case False
      then have "\<not> (n + j) div 32 < 8" unfolding m_def by linarith
      then show ?thesis using False len la m_def by (simp add: bval_def bit_uval bit_drop_bit_eq)
    next
      case True
      have "bit (bval (bu_shr a n)) j \<longleftrightarrow>
          (m + k < 8 \<and> bit (pn a ! (m + k)) (s + b)) \<or>
          (s \<noteq> 0 \<and> m + k + 1 < 8 \<and> 32 - s \<le> b \<and> bit (pn a ! (m + k + 1)) (b - (32 - s)))"
        using True len shr_fold_nth [of m WIDTH "pn a" k s] bs
        by (auto simp: bval_def bit_uval bu_shr_def WIDTH_def bit_or_iff bit_push_bit_iff
          bit_drop_bit_eq k_def [symmetric] s_def [symmetric] m_def [symmetric] b_def [symmetric]
          simp del: upt_Suc)
      then show ?thesis using bit_shr_limbs [OF la True bs, of k]
        by (simp add: bit_drop_bit_eq bval_def n j)
    qed
  qed
  then show ?thesis by (simp add: drop_bit_eq_div)
qed

section \<open>Comparison\<close>

lemma uval_take_Suc:
  "i < length xs \<Longrightarrow> uval (take (Suc i) xs) = uval (take i xs) + 2 ^ (32 * i) * uint (xs ! i)"
  by (simp add: take_Suc_conv_app_nth uval_append)

lemma cmp_loop_val:
  "i \<le> length xs \<Longrightarrow> i \<le> length ys \<Longrightarrow> cmp_loop i xs ys = sgn (uval (take i xs) - uval (take i ys))"
proof (induction i)
  case 0
  then show ?case by simp
next
  case (Suc i)
  have len: "i < length xs" "i < length ys" using Suc.prems by simp_all
  let ?B = "(2 :: int) ^ (32 * i)"
  have lo: "uval (take i xs) - uval (take i ys) < ?B" "uval (take i ys) - uval (take i xs) < ?B"
    using uval_bound [of "take i xs"] uval_bound [of "take i ys"]
      uval_nonneg [of "take i xs"] uval_nonneg [of "take i ys"] len by simp_all
  have eq: "uval (take (Suc i) xs) - uval (take (Suc i) ys) =
      (uval (take i xs) - uval (take i ys)) + ?B * (uint (xs ! i) - uint (ys ! i))"
    by (simp only: uval_take_Suc [OF len(1)] uval_take_Suc [OF len(2)] algebra_simps)
  consider "xs ! i < ys ! i" | "xs ! i > ys ! i" | "xs ! i = ys ! i" by force
  then show ?case
  proof cases
    case 1
    then have "uint (xs ! i) - uint (ys ! i) \<le> - 1" by (simp add: word_less_def)
    then have "?B * (uint (xs ! i) - uint (ys ! i)) \<le> ?B * (- 1)" by (intro mult_left_mono) auto
    then show ?thesis using 1 lo eq by simp
  next
    case 2
    then have "1 \<le> uint (xs ! i) - uint (ys ! i)" by (simp add: word_less_def)
    then have "?B * 1 \<le> ?B * (uint (xs ! i) - uint (ys ! i))" by (intro mult_left_mono) auto
    then have "0 < uval (take (Suc i) xs) - uval (take (Suc i) ys)"
      unfolding eq using lo by linarith
    moreover have "\<not> xs ! i < ys ! i" using 2 by simp
    ultimately show ?thesis using 2 by simp
  next
    case 3
    then show ?thesis using Suc.IH len eq by simp
  qed
qed

lemma bu_compare_val: "bu_wf a \<Longrightarrow> bu_wf b \<Longrightarrow> bu_compare a b = sgn (bval a - bval b)"
  by (simp add: bu_compare_def bu_wf_def bval_def cmp_loop_val)

lemma bu_compare_ge [simp]: "bu_wf a \<Longrightarrow> bu_wf b \<Longrightarrow> 0 \<le> bu_compare a b \<longleftrightarrow> bval b \<le> bval a"
  by (simp add: bu_compare_val sgn_if)

lemma bu_compare_gt [simp]: "bu_wf a \<Longrightarrow> bu_wf b \<Longrightarrow> 0 < bu_compare a b \<longleftrightarrow> bval b < bval a"
  by (simp add: bu_compare_val)

section \<open>The highest bit\<close>

lemma limb_bits_val:
  "x \<noteq> 0 \<Longrightarrow> (\<And>m. n < m \<Longrightarrow> \<not> bit x m) \<Longrightarrow>
    1 \<le> limb_bits n x \<and> limb_bits n x \<le> Suc n \<and> bit x (limb_bits n x - 1) \<and>
    (\<forall>m \<ge> limb_bits n x. \<not> bit x m)"
proof (induction n)
  case 0
  then have "bit x 0" by (metis bit_0_eq bit_word_eqI bot_apply bot_nat_0.not_eq_extremum bot_bool_def)
  with 0 show ?case by auto
next
  case (Suc n)
  show ?case
  proof (cases "x AND push_bit (Suc n) 1 = 0")
    case True
    then have "\<not> bit x (Suc n)" by (simp only: bit_iff_and_push_bit_not_eq_0 not_not)
    then have "\<And>m. n < m \<Longrightarrow> \<not> bit x m" using Suc.prems(2) by (metis Suc_lessI)
    then show ?thesis using Suc.IH [OF Suc.prems(1)] True by auto
  next
    case False
    then have "bit x (Suc n)" by (simp only: bit_iff_and_push_bit_not_eq_0 not_not simp_thms)
    then show ?thesis using False Suc.prems(2) by auto
  qed
qed


lemma bits_loop_val:
  "i \<le> length xs \<Longrightarrow>
    (if uval (take i xs) = 0 then bits_loop i xs = 0
     else 1 \<le> bits_loop i xs \<and> bits_loop i xs \<le> 32 * i \<and>
       2 ^ (bits_loop i xs - 1) \<le> uval (take i xs) \<and> uval (take i xs) < 2 ^ bits_loop i xs)"
proof (induction i)
  case 0
  then show ?case by simp
next
  case (Suc i)
  then have len: "i < length xs" by simp
  note tk = uval_take_Suc [OF len]
  show ?case
  proof (cases "xs ! i = 0")
    case True
    then show ?thesis using Suc tk by (auto split: if_splits)
  next
    case False
    let ?l = "limb_bits 31 (xs ! i)" and ?B = "(2 :: int) ^ (32 * i)"
    have nb: "31 < m \<Longrightarrow> \<not> bit (xs ! i) m" for m by (rule bit_u32_ge) simp
    from limb_bits_val [of "xs ! i" 31, OF False nb]
    have l: "1 \<le> ?l" "?l \<le> 32" "bit (xs ! i) (?l - 1)" "\<forall>m \<ge> ?l. \<not> bit (xs ! i) m" by auto
    have "take_bit ?l (uint (xs ! i)) = uint (xs ! i)"
      using l(4) by (intro bit_eqI) (auto simp: bit_take_bit_iff bit_uint_iff not_le)
    then have up: "uint (xs ! i) < 2 ^ ?l" by (metis take_bit_int_less_exp)
    have lo: "2 ^ (?l - 1) \<le> uint (xs ! i)"
    proof (rule ccontr)
      assume "\<not> 2 ^ (?l - 1) \<le> uint (xs ! i)"
      then have "take_bit (?l - 1) (uint (xs ! i)) = uint (xs ! i)"
        by (simp add: take_bit_int_eq_self)
      then have "\<not> bit (uint (xs ! i)) (?l - 1)" by (metis bit_take_bit_iff less_irrefl)
      then show False using l(2,3) by (simp add: bit_uint_iff)
    qed
    have tb: "0 \<le> uval (take i xs)" "uval (take i xs) < ?B"
      using uval_nonneg uval_bound [of "take i xs"] len by simp_all
    have "?B * 2 ^ (?l - 1) \<le> ?B * uint (xs ! i)" using lo by (intro mult_left_mono) auto
    moreover have "?B * (uint (xs ! i) + 1) \<le> ?B * 2 ^ ?l" using up by (intro mult_left_mono) auto
    moreover have "(2 :: int) ^ (32 * i + ?l - 1) = ?B * 2 ^ (?l - 1)"
      using l(1) by (metis Nat.add_diff_assoc power_add)
    moreover have "(2 :: int) ^ (32 * i + ?l) = ?B * 2 ^ ?l" by (rule power_add)
    moreover have "?B * (uint (xs ! i) + 1) = ?B * uint (xs ! i) + ?B" by (simp add: distrib_left)
    ultimately have lohi: "2 ^ (32 * i + ?l - 1) \<le> uval (take (Suc i) xs)"
      "uval (take (Suc i) xs) < 2 ^ (32 * i + ?l)"
      unfolding tk using tb by linarith+
    moreover have "uval (take (Suc i) xs) \<noteq> 0"
      using lohi(1) by (metis not_one_le_zero one_le_power order_trans one_le_numeral)
    ultimately show ?thesis using False l by simp
  qed
qed

lemma bu_bits_val:
  assumes "bu_wf a"
  shows "if bval a = 0 then bu_bits a = 0
    else 1 \<le> bu_bits a \<and> bu_bits a \<le> 256 \<and> 2 ^ (bu_bits a - 1) \<le> bval a \<and> bval a < 2 ^ bu_bits a"
  using bits_loop_val [of 8 "pn a"] assms
  unfolding bu_wf_def bval_def bu_bits_def WIDTH_def by (cases "uval (pn a) = 0") simp_all


section \<open>Division\<close>

lemma length_set_bit_at [simp]: "length (set_bit_at p sh) = length p"
  by (simp add: set_bit_at_def)

lemma uint_OR_bit:
  assumes nb: "\<not> bit x s" and s: "s < 32"
  shows "uint (x OR push_bit s 1 :: u32) = uint x + 2 ^ s"
proof -
  have d: "x AND push_bit s 1 = 0" using nb by (simp only: bit_iff_and_push_bit_not_eq_0 not_not)
  have "uint (push_bit s 1 :: u32) = take_bit 32 (push_bit s 1)"
    by (simp only: unsigned_push_bit_eq) simp
  also have "\<dots> = 2 ^ s" using s by (simp add: take_bit_int_eq_self)
  finally have p: "uint (push_bit s 1 :: u32) = 2 ^ s" .
  have "uint x AND uint (push_bit s 1 :: u32) = 0"
    using d by (metis unsigned_0 unsigned_and_eq)
  then have "uint x + uint (push_bit s 1 :: u32) = uint x OR uint (push_bit s 1 :: u32)"
    by (rule disjunctive_add_eq_or)
  then show ?thesis using p by (simp only: unsigned_or_eq)
qed

lemma set_bit_at_val:
  assumes "sh < 32 * length p" and "2 ^ Suc sh dvd uval p"
  shows "uval (set_bit_at p sh) = uval p + 2 ^ sh"
proof -
  have l: "sh div 32 < length p" using assms(1) by (simp add: less_mult_imp_div_less mult.commute)
  have "\<not> bit (uval p) sh"
    using assms(2) by (metis bit_take_bit_iff bit_0_eq bot_apply bot_bool_def dvd_imp_mod_0 lessI take_bit_eq_mod)
  then have "\<not> bit (p ! (sh div 32)) (sh mod 32)" using l by (simp add: bit_uval)
  then have "uint (p ! (sh div 32) OR push_bit (sh mod 32) 1) = uint (p ! (sh div 32)) + 2 ^ (sh mod 32)"
    by (rule uint_OR_bit) simp
  then have "uval (set_bit_at p sh) = uval p + 2 ^ (32 * (sh div 32)) * 2 ^ (sh mod 32)"
    by (simp only: set_bit_at_def uval_update [OF l] add_diff_cancel_left')
  also have "2 ^ (32 * (sh div 32)) * 2 ^ (sh mod 32) = (2 :: int) ^ sh"
    by (metis mult_div_mod_eq power_add)
  finally show ?thesis .
qed

lemma div_loop_val:
  "bu_wf num \<Longrightarrow> bu_wf dv \<Longrightarrow> length q = WIDTH \<Longrightarrow> n \<le> 256 \<Longrightarrow> 0 < D \<Longrightarrow>
    (n \<noteq> 0 \<longrightarrow> bval dv = D * 2 ^ (n - 1)) \<Longrightarrow> bval num < D * 2 ^ n \<Longrightarrow> 2 ^ n dvd uval q \<Longrightarrow>
    length (div_loop n num dv q) = WIDTH \<and> uval (div_loop n num dv q) = uval q + bval num div D"
proof (induction n num dv q rule: div_loop.induct)
  case (1 num dv q)
  have "0 \<le> bval num" by (simp add: bval_def uval_nonneg)
  then show ?case using 1 by simp
next
  case (2 sh num dv q)
  have dv: "bval dv = D * 2 ^ sh" using "2.prems" by simp
  have shr: "sh \<noteq> 0 \<longrightarrow> bval (bu_shr dv 1) = D * 2 ^ (sh - 1)"
    using "2.prems"(2) dv by (cases sh) (simp_all add: bval_shr)
  have dvd: "2 ^ sh dvd uval q" using "2.prems"(8) by (meson le_imp_power_dvd lessI less_imp_le dvd_trans)
  show ?case
  proof (cases "bval dv \<le> bval num")
    case False
    then show ?thesis
      using "2.IH"(2) "2.prems" shr dvd dv by simp
  next
    case True
    have b: "bval (bu_sub num dv) = bval num - D * 2 ^ sh"
      using True "2.prems"(1,2) dv bval_bounds [of num] bval_bounds [of dv] by (simp add: bval_sub)
    have sb: "uval (set_bit_at q sh) = uval q + 2 ^ sh"
      using "2.prems" by (intro set_bit_at_val) (simp_all add: WIDTH_def)
    have lt: "bval (bu_sub num dv) < D * 2 ^ sh" using "2.prems"(7) b by (simp add: algebra_simps)
    have dvd': "2 ^ sh dvd uval (set_bit_at q sh)" unfolding sb using dvd by simp
    have cmp: "bu_compare num dv \<ge> 0" using True "2.prems" by simp
    have IH: "length (div_loop sh (bu_sub num dv) (bu_shr dv 1) (set_bit_at q sh)) = WIDTH \<and>
        uval (div_loop sh (bu_sub num dv) (bu_shr dv 1) (set_bit_at q sh))
        = uval (set_bit_at q sh) + bval (bu_sub num dv) div D"
      by (rule "2.IH"(1) [OF cmp]) (use "2.prems" shr lt dvd' in simp_all)
    have "bval num - D * 2 ^ sh = bval num + D * (- (2 ^ sh))" by simp
    then have "(bval num - D * 2 ^ sh) div D = bval num div D - 2 ^ sh"
      using "2.prems"(5) by (simp only: div_mult_self2)
    then show ?thesis using IH cmp b sb by simp
  qed
qed

text \<open>The quotient of the shift-and-subtract loop is the integer quotient.\<close>

lemma bu_div_val:
  assumes "bu_wf a" and "bu_wf b"
  shows "bu_div a b = Inl DivisionByZero \<and> bval b = 0 \<or>
    (\<exists>q. bu_div a b = Inr q \<and> bu_wf q \<and> bval q = bval a div bval b \<and> bval b \<noteq> 0)"
proof -
  have ba: "0 \<le> bval a" and bb: "0 \<le> bval b" using assms bval_bounds by auto
  note a = bu_bits_val [OF assms(1)] and b = bu_bits_val [OF assms(2)]
  consider "bu_bits b = 0" | "bu_bits b \<noteq> 0" "bu_bits a < bu_bits b"
    | "bu_bits b \<noteq> 0" "bu_bits b \<le> bu_bits a" by linarith
  then show ?thesis
  proof cases
    case 1
    then show ?thesis using b by (simp add: bu_div_def split: if_splits)
  next
    case 2
    have "bval a < 2 ^ bu_bits a" using a by (auto split: if_splits)
    also have "\<dots> \<le> (2 :: int) ^ (bu_bits b - 1)" using 2 by (intro power_increasing) auto
    also have "\<dots> \<le> bval b" using b 2 by (auto split: if_splits)
    finally have "bval a div bval b = 0" using ba by (intro div_pos_pos_trivial) auto
    moreover have "bval b \<noteq> 0" using b 2 by (auto split: if_splits)
    ultimately show ?thesis using 2 by (simp add: bu_div_def bu_zero_def bu_wf_def bval_def)
  next
    case 3
    define sh where "sh = bu_bits a - bu_bits b"
    have nz: "bval b \<noteq> 0" and pos: "0 < bval b" using b bb 3 by (auto split: if_splits)
    have sh: "sh + bu_bits b \<le> 256" "bval b < 2 ^ bu_bits b" "2 ^ (bu_bits b - 1) \<le> bval b"
      "bval a < 2 ^ bu_bits a"
      using a b 3 by (auto simp: sh_def split: if_splits)
    have "bval b * 2 ^ sh < 2 ^ bu_bits b * 2 ^ sh" using sh by (intro mult_strict_right_mono) auto
    also have "\<dots> \<le> (2 :: int) ^ 256" using sh by (subst power_add [symmetric], intro power_increasing) auto
    finally have shl: "bval (bu_shl b sh) = bval b * 2 ^ sh" using assms bb by (simp add: bval_shl)
    have "bval a < 2 ^ bu_bits a" by (fact sh(4))
    also have "\<dots> = (2 :: int) ^ (bu_bits b - 1) * 2 ^ Suc sh"
      using 3 by (subst power_add [symmetric]) (simp add: sh_def)
    also have "\<dots> \<le> bval b * 2 ^ Suc sh" using sh by (intro mult_right_mono) auto
    finally have lt: "bval a < bval b * 2 ^ Suc sh" .
    have "length (div_loop (Suc sh) a (bu_shl b sh) (replicate WIDTH 0)) = WIDTH \<and>
        uval (div_loop (Suc sh) a (bu_shl b sh) (replicate WIDTH 0))
        = uval (replicate WIDTH 0) + bval a div bval b"
      by (rule div_loop_val) (use assms sh(1) lt pos shl 3 in simp_all)
    then show ?thesis using 3 nz by (simp add: bu_div_def sh_def Let_def bu_wf_def bval_def)
  qed
qed


section \<open>The compact encoding\<close>

definition compact_size :: "u32 \<Rightarrow> nat" where
  "compact_size c = unat (drop_bit 24 c)"

definition compact_mant :: "u32 \<Rightarrow> int" where
  "compact_mant c = uint c mod 2 ^ 23"

definition compact_value :: "u32 \<Rightarrow> int" where
  "compact_value c =
     (if compact_size c \<le> 3 then compact_mant c div 256 ^ (3 - compact_size c)
      else compact_mant c * 256 ^ (compact_size c - 3))"

lemma bu_wf_from_u64 [simp, wf_intros]: "bu_wf (from_u64 b)"
  by (simp add: bu_wf_def from_u64_def WIDTH_def)

lemma bval_from_u64 [simp]: "bval (from_u64 b) = uint b"
proof -
  have "uint (ucast (drop_bit 32 b) :: u32) = uint (drop_bit 32 b)"
    using high32_bound [of b] by (simp only: uint_low32 mod_pos_pos_trivial uint_ge_0)
  then show ?thesis using carry_split [of b] by (simp add: bval_def from_u64_def)
qed

lemma uint_AND_low23: "uint (c AND 0x007fffff :: u32) = uint c mod 2 ^ 23"
proof -
  have "c AND 0x007fffff = take_bit 23 c" by (simp add: take_bit_eq_mask mask_numeral)
  then show ?thesis by (simp add: take_bit_eq_mod uint_mod_distrib)
qed

lemma uint_drop_bit_u32: "uint (drop_bit n (x :: u32)) = uint x div 2 ^ n"
  by (subst unsigned_drop_bit_eq) (simp add: drop_bit_eq_div take_bit_int_eq_self uint_u32_bound)

lemma uint_ucast_u32 [simp]: "uint (ucast (x :: u32) :: u64) = uint x"
  by (simp add: word_val)

lemma compact_mant_bounds: "0 \<le> compact_mant c" "compact_mant c < 2 ^ 23"
  by (simp_all add: compact_mant_def)

lemma compact_overflow_iff:
  fixes m :: int and n :: nat
  assumes "0 \<le> m" "m < 2 ^ 23" "3 < n"
  shows "2 ^ 256 \<le> m * 256 ^ (n - 3) \<longleftrightarrow>
    m \<noteq> 0 \<and> (34 < n \<or> 255 < m \<and> 33 < n \<or> 65535 < m \<and> 32 < n)"
proof -
  have pw: "m * 256 ^ k < 2 ^ 256" if "k \<le> 29" for k
  proof -
    have "m * 256 ^ k \<le> 2 ^ 23 * 256 ^ 29"
      using assms that by (intro mult_mono power_increasing) auto
    then show ?thesis by simp
  qed
  consider "n \<le> 32" | "n = 33" | "n = 34" | "34 < n" by linarith
  then show ?thesis
  proof cases
    case 1
    then have "n - 3 \<le> 29" by linarith
    then show ?thesis using pw [of "n - 3"] 1 by simp
  next
    case 4
    have p: "(256 :: int) ^ 32 \<le> 256 ^ (n - 3)"
      using 4 by (intro power_increasing) auto
    show ?thesis
    proof (cases "m = 0")
      case False
      then have "1 * 256 ^ (n - 3) \<le> m * 256 ^ (n - 3)"
        using assms by (intro mult_right_mono) auto
      then have "256 ^ 32 \<le> m * 256 ^ (n - 3)" using p by linarith
      then show ?thesis using 4 False by simp
    qed simp
  qed auto
qed

theorem SetCompact_sound:
  assumes "SetCompact c = (v, neg, ov)"
  shows "bu_wf v \<and> bval v = compact_value c mod 2 ^ 256 \<and> (ov \<longleftrightarrow> 2 ^ 256 \<le> compact_value c) \<and>
    (neg \<longleftrightarrow> compact_value c \<noteq> 0 \<and> bit c 23)"
proof -
  let ?n = "compact_size c" and ?m = "compact_mant c"
  note mb = compact_mant_bounds [of c]
  have sign: "c AND 0x00800000 \<noteq> 0 \<longleftrightarrow> bit c 23"
    using bit_iff_and_push_bit_not_eq_0 [of c 23] by (simp add: push_bit_eq_mult)
  show ?thesis
  proof (cases "?n \<le> 3")
    case True
    define w where "w = drop_bit (8 * (3 - ?n)) (c AND 0x007fffff)"
    have w: "uint w = ?m div 256 ^ (3 - ?n)"
      unfolding w_def uint_drop_bit_u32 uint_AND_low23 compact_mant_def by (simp add: power_mult)
    have le: "?m div 256 ^ (3 - ?n) \<le> ?m" using mb zdiv_mono2 [of ?m 1 "256 ^ (3 - ?n)"] by simp
    have ge: "0 \<le> ?m div 256 ^ (3 - ?n)" using mb by (simp add: pos_imp_zdiv_nonneg_iff)
    have v: "v = from_u64 (ucast w)" and n: "neg \<longleftrightarrow> w \<noteq> 0 \<and> bit c 23" and o: "\<not> ov"
      using assms True by (auto simp: SetCompact_def Let_def w_def compact_size_def sign)
    have "w \<noteq> 0 \<longleftrightarrow> uint w \<noteq> 0" by (simp add: uint_0_iff)
    then show ?thesis using True v n o w le ge mb
      by (simp add: compact_value_def)
  next
    case False
    define w where "w = c AND (0x007fffff :: u32)"
    have w: "uint w = ?m" unfolding w_def uint_AND_low23 compact_mant_def ..
    have v: "v = bu_shl (from_u64 (ucast w)) (8 * (?n - 3))"
      and n: "neg \<longleftrightarrow> w \<noteq> 0 \<and> bit c 23"
      and o: "ov \<longleftrightarrow> w \<noteq> 0 \<and> (34 < ?n \<or> w > 0xff \<and> 33 < ?n \<or> w > 0xffff \<and> 32 < ?n)"
      using assms False by (auto simp: SetCompact_def Let_def w_def compact_size_def sign)
    have cmp: "w \<noteq> 0 \<longleftrightarrow> ?m \<noteq> 0" "w > 0xff \<longleftrightarrow> 255 < ?m" "w > 0xffff \<longleftrightarrow> 65535 < ?m"
      using w by (simp_all add: word_less_def flip: uint_0_iff)
    have "(2 :: int) ^ (8 * (?n - 3)) = 256 ^ (?n - 3)" by (simp add: power_mult)
    then have "bval v = compact_value c mod 2 ^ 256"
      using False w by (simp add: v bval_shl compact_value_def)
    moreover have "ov \<longleftrightarrow> 2 ^ 256 \<le> compact_value c"
      using False compact_overflow_iff [OF mb, of ?n] o cmp by (simp add: compact_value_def)
    moreover have "neg \<longleftrightarrow> compact_value c \<noteq> 0 \<and> bit c 23"
      using False n cmp by (simp add: compact_value_def)
    ultimately show ?thesis using v by simp
  qed
qed

lemma bits_bytes:
  assumes "bu_wf a" and "s = (bu_bits a + 7) div 8"
  shows "s \<le> 32" and "bval a < 256 ^ s" and "s \<noteq> 0 \<Longrightarrow> 256 ^ (s - 1) \<le> bval a"
proof -
  note b = bu_bits_val [OF assms(1)]
  have p: "(256 :: int) ^ k = 2 ^ (8 * k)" for k by (simp add: power_mult)
  have bits: "bu_bits a \<le> 256" "bval a < 2 ^ bu_bits a" "bval a = 0 \<longleftrightarrow> bu_bits a = 0"
    using b by (auto split: if_splits)
  show "s \<le> 32" using assms(2) bits(1) by linarith
  have "(2 :: int) ^ bu_bits a \<le> 256 ^ s"
    unfolding p by (intro power_increasing) (use assms(2) in linarith, simp)
  then show "bval a < 256 ^ s" using bits(2) by linarith
  assume "s \<noteq> 0"
  then have nz: "bu_bits a \<noteq> 0" using assms(2) by (intro notI) simp
  have "(256 :: int) ^ (s - 1) \<le> 2 ^ (bu_bits a - 1)"
    unfolding p by (intro power_increasing) (use assms(2) nz in linarith, simp)
  then show "256 ^ (s - 1) \<le> bval a" using b bits(3) nz by (auto split: if_splits)
qed

lemma uint_GetLow64: "bu_wf a \<Longrightarrow> uint (GetLow64 a) = bval a mod 2 ^ 64"
proof -
  assume wf: "bu_wf a"
  then obtain x y xs where a: "pn a = x # y # xs"
    by (auto simp: bu_wf_def WIDTH_def length_Suc_conv eval_nat_numeral)
  have "GetLow64 a = ucast x + push_bit 32 (ucast y)"
    unfolding GetLow64_def a
    by (simp, intro disjunctive_add_eq_or [symmetric] bit_word_eqI)
      (auto simp: bit_simps bit_u32_ge)
  moreover have py: "uint (push_bit 32 (ucast y :: u64)) = 2 ^ 32 * uint y"
    using uint_u32_bound [of y]
    by (simp add: unsigned_push_bit_eq push_bit_eq_mult take_bit_int_eq_self word_val mult.commute)
  ultimately have "uint (GetLow64 a) = uint x + 2 ^ 32 * uint y"
    using uint_u32_bound [of x] uint_u32_bound [of y]
    by (simp add: uint_add_u64 word_val)
  moreover have "bval a = (uint x + 2 ^ 32 * uint y) + 2 ^ 64 * uval xs"
    by (simp add: bval_def a)
  moreover have "0 \<le> uint x + 2 ^ 32 * uint y" "uint x + 2 ^ 32 * uint y < 2 ^ 64"
    using uint_u32_bound [of x] uint_u32_bound [of y] by simp_all
  ultimately show ?thesis by simp
qed

lemma GetCompact_word:
  assumes "uint c1 < 2 ^ 23" and "n < 256"
  shows "uint (c1 OR push_bit 24 (of_nat n) :: u32) = uint c1 + 2 ^ 24 * int n"
    and "c1 AND NOT 0x007fffff = (0 :: u32)"
proof -
  have nb: "\<not> bit c1 k" if "23 \<le> k" for k
  proof
    assume "bit c1 k"
    then have "bit (uint c1) k" using bit_imp_le_length [of c1 k] by (simp add: bit_uint_iff)
    moreover have "take_bit 23 (uint c1) = uint c1" using assms(1) by (simp add: take_bit_int_eq_self)
    ultimately show False using that by (metis bit_take_bit_iff not_le)
  qed
  have "c1 OR push_bit 24 (of_nat n) = c1 + push_bit 24 (of_nat n)"
    by (intro disjunctive_add_eq_or [symmetric] bit_word_eqI) (auto simp: bit_simps nb)
  moreover have "uint (push_bit 24 (of_nat n) :: u32) = 2 ^ 24 * int n"
    using assms(2)
    by (simp add: push_bit_eq_mult uint_word_ariths unsigned_of_nat take_bit_nat_eq_self)
  ultimately show "uint (c1 OR push_bit 24 (of_nat n)) = uint c1 + 2 ^ 24 * int n"
    using assms by (simp add: uint_word_ariths)
  have m: "(0x007fffff :: u32) = mask 23" by (simp add: mask_eq_exp_minus_1)
  show "c1 AND NOT 0x007fffff = 0"
    unfolding m by (intro bit_word_eqI) (use nb in \<open>auto simp: bit_simps simp flip: not_le\<close>)
qed

text \<open>The size of the encoding: the least number of bytes with room for the sign bit.\<close>

lemma le_zdiv_iff: "0 < b \<Longrightarrow> k \<le> a div b \<longleftrightarrow> k * b \<le> a" for a b k :: int
proof
  assume b: "0 < b" and k: "k \<le> a div b"
  have "k * b \<le> a div b * b" using b k by (intro mult_right_mono) simp_all
  also have "\<dots> \<le> a" using b pos_mod_sign [of b a] div_mult_mod_eq [of a b] by linarith
  finally show "k * b \<le> a" .
next
  assume "0 < b" "k * b \<le> a"
  then show "k \<le> a div b" using zdiv_mono1 [of "k * b" a b] by simp
qed

lemma size_bounds:
  fixes a lead :: int
  assumes lead: "lead = (if s \<le> 3 then a * 256 ^ (3 - s) else a div 256 ^ (s - 3))"
    and a: "0 \<le> a" "a < 256 ^ s" "s \<noteq> 0 \<Longrightarrow> 256 ^ (s - 1) \<le> a"
    and n: "n = (if 2 ^ 23 \<le> lead then s + 1 else s)"
  shows "2 * a < 256 ^ n" "n = 0 \<or> 256 ^ (n - 1) \<le> 2 * a"
proof -
  have carry: "2 ^ 23 \<le> lead \<longleftrightarrow> 256 ^ s \<le> 2 * a"
  proof (cases "s \<le> 3")
    case True
    have e: "(256 :: int) ^ 3 = 256 ^ s * 256 ^ (3 - s)" using True by (simp flip: power_add)
    have "2 ^ 23 \<le> lead \<longleftrightarrow> 256 ^ 3 \<le> 2 * lead" by simp
    also have "\<dots> \<longleftrightarrow> 256 ^ s * 256 ^ (3 - s) \<le> (2 * a) * 256 ^ (3 - s)" using lead True unfolding e by simp
    also have "\<dots> \<longleftrightarrow> 256 ^ s \<le> 2 * a" by simp
    finally show ?thesis .
  next
    case False
    have "(256 :: int) ^ s = 256 ^ (3 + (s - 3))" using False by simp
    then have e: "(256 :: int) ^ s = 256 ^ 3 * 256 ^ (s - 3)" unfolding power_add .
    have "2 ^ 23 \<le> lead \<longleftrightarrow> 2 ^ 23 * 256 ^ (s - 3) \<le> a" using lead False by (simp add: le_zdiv_iff)
    then show ?thesis unfolding e by simp
  qed
  show "2 * a < 256 ^ n" using carry a(2) n by (cases "2 ^ 23 \<le> lead") auto
  show "n = 0 \<or> 256 ^ (n - 1) \<le> 2 * a" using carry a(1,3) n by (cases "2 ^ 23 \<le> lead"; cases "s = 0") auto
qed

text \<open>
  The compact encoding of a number always exists (no assertion fails), has no sign bit, and stands
  for the number cut to its leading mantissa bytes.
\<close>

definition compact_lead :: "base_uint \<Rightarrow> nat \<Rightarrow> u32" where
  "compact_lead a s =
     (if s \<le> 3 then ucast (push_bit (8 * (3 - s)) (GetLow64 a))
      else ucast (GetLow64 (bu_shr a (8 * (s - 3)))))"

lemma compact_lead_val:
  assumes wf: "bu_wf a" and lt: "bval a < 256 ^ s"
  shows "uint (compact_lead a s) = (if s \<le> 3 then bval a * 256 ^ (3 - s) else bval a div 256 ^ (s - 3))"
    and "uint (compact_lead a s) < 2 ^ 24"
proof -
  have ge: "0 \<le> bval a" using wf bval_bounds by auto
  have p: "(256 :: int) ^ k = 2 ^ (8 * k)" for k by (simp add: power_mult)
  have "uint (compact_lead a s) = (if s \<le> 3 then bval a * 256 ^ (3 - s) else bval a div 256 ^ (s - 3))
      \<and> uint (compact_lead a s) < 2 ^ 24"
  proof (cases "s \<le> 3")
    case True
    have e: "(256 :: int) ^ s * 256 ^ (3 - s) = 2 ^ 24"
      using True by (simp flip: power_add)
    have "bval a * 256 ^ (3 - s) < 256 ^ s * 256 ^ (3 - s)"
      using lt by (intro mult_strict_right_mono) auto
    then have b: "bval a * 256 ^ (3 - s) < 2 ^ 24" unfolding e .
    have "bval a * 1 \<le> bval a * 256 ^ (3 - s)" using ge by (intro mult_left_mono) auto
    then have "bval a < 2 ^ 64" using b by simp
    then have low: "uint (GetLow64 a) = bval a" using wf ge by (simp add: uint_GetLow64)
    have "uint (push_bit (8 * (3 - s)) (GetLow64 a)) = take_bit 64 (push_bit (8 * (3 - s)) (bval a))"
      by (simp only: unsigned_push_bit_eq low) simp
    then have "uint (compact_lead a s) = take_bit 64 (push_bit (8 * (3 - s)) (bval a)) mod 2 ^ 32"
      using True by (simp only: compact_lead_def if_True uint_low32)
    also have "push_bit (8 * (3 - s)) (bval a) = bval a * 256 ^ (3 - s)"
      by (simp only: push_bit_eq_mult p)
    finally show ?thesis using True b ge by (simp add: take_bit_int_eq_self)
  next
    case False
    then have e: "(256 :: int) ^ s = 2 ^ 24 * 256 ^ (s - 3)"
      using power_add [of "256 :: int" 3 "s - 3"] by simp
    have b: "bval a div 256 ^ (s - 3) < 2 ^ 24"
    proof -
      have "bval a div 256 ^ (s - 3) * 256 ^ (s - 3) \<le> bval a"
        by (simp add: minus_mod_eq_div_mult [symmetric])
      then have "bval a div 256 ^ (s - 3) * 256 ^ (s - 3) < 2 ^ 24 * 256 ^ (s - 3)"
        using lt unfolding e by linarith
      then show ?thesis by (simp only: mult_less_cancel_right) auto
    qed
    have nn: "0 \<le> bval a div 256 ^ (s - 3)" using ge by (simp add: pos_imp_zdiv_nonneg_iff)
    have "uint (GetLow64 (bu_shr a (8 * (s - 3)))) = bval a div 256 ^ (s - 3)"
      using b nn wf by (simp add: uint_GetLow64 bval_shr p)
    then show ?thesis using False b nn
      by (simp add: compact_lead_def unsigned_ucast_eq take_bit_int_eq_self)
  qed
  then show "uint (compact_lead a s) = (if s \<le> 3 then bval a * 256 ^ (3 - s) else bval a div 256 ^ (s - 3))"
    and "uint (compact_lead a s) < 2 ^ 24" by blast+
qed

lemma bit_23_iff: "uint x < 2 ^ 24 \<Longrightarrow> bit (x :: u32) 23 \<longleftrightarrow> 2 ^ 23 \<le> uint x"
proof -
  assume lt: "uint x < 2 ^ 24"
  have "bit x 23 \<longleftrightarrow> bit (uint x) 23" by (simp add: bit_uint_iff)
  also have "\<dots> \<longleftrightarrow> odd (uint x div 2 ^ 23)" by (simp add: bit_iff_odd)
  also have "\<dots> \<longleftrightarrow> 2 ^ 23 \<le> uint x"
  proof (cases "2 ^ 23 \<le> uint x")
    case True
    then have "uint x div 2 ^ 23 = 1" using lt int_div_pos_eq [of "uint x" "2 ^ 23" 1 "uint x - 2 ^ 23"] by simp
    then show ?thesis using True by simp
  next
    case False
    then show ?thesis by simp
  qed
  finally show ?thesis .
qed

lemma compact_value_word:
  assumes "uint c = m + 2 ^ 24 * int n" and "0 \<le> m" and "m < 2 ^ 23"
  shows "compact_size c = n" and "compact_mant c = m" and "\<not> bit c 23"
proof -
  have "uint (drop_bit 24 c) = int n"
    unfolding uint_drop_bit_u32 using assms by simp
  then show "compact_size c = n" by (simp add: compact_size_def unat_eq_nat_uint)
  have "uint c = m + 2 ^ 23 * (2 * int n)" using assms by simp
  then show "compact_mant c = m" using assms unfolding compact_mant_def by (simp only: mod_mult_self2) simp
  have "bit c 23 \<longleftrightarrow> bit (uint c) 23" by (simp add: bit_uint_iff)
  also have "\<dots> \<longleftrightarrow> odd (uint c div 2 ^ 23)" by (simp add: bit_iff_odd)
  also have "uint c div 2 ^ 23 = 2 * int n"
    using assms int_div_pos_eq [of "uint c" "2 ^ 23" "2 * int n" m] by simp
  finally show "\<not> bit c 23" by simp
qed

text \<open>
  The compact encoding of a number always exists (no assertion fails), has no sign bit, and stands
  for the number cut to its leading mantissa bytes.
\<close>

lemma GetCompact_val:
  assumes wf: "bu_wf a"
  shows "\<exists>c n. GetCompact a False = Some c \<and> n \<le> 33 \<and> compact_size c = n \<and> \<not> bit c 23 \<and>
    bval a < 256 ^ n \<and> compact_value c = bval a div 256 ^ (n - 3) * 256 ^ (n - 3) \<and>
    2 * bval a < 256 ^ n \<and> (n = 0 \<or> 256 ^ (n - 1) \<le> 2 * bval a)"
proof -
  define s where "s = (bu_bits a + 7) div 8"
  note sb = bits_bytes [OF wf s_def]
  note lead = compact_lead_val [OF wf sb(2)]
  have ge: "0 \<le> bval a" using wf bval_bounds by auto
  define c0 where "c0 = compact_lead a s"
  define carry where "carry \<longleftrightarrow> bit c0 23"
  define c1 where "c1 = (if carry then drop_bit 8 c0 else c0)"
  define n where "n = (if carry then s + 1 else s)"
  have carry: "carry \<longleftrightarrow> 2 ^ 23 \<le> uint c0" unfolding carry_def c0_def using bit_23_iff [OF lead(2)] .
  have c1: "uint c1 = (if carry then uint c0 div 256 else uint c0)"
    by (simp add: c1_def uint_drop_bit_u32)
  have c1b: "uint c1 < 2 ^ 23" using carry lead(2) c1 by (auto simp: c0_def)
  have n33: "n \<le> 33" using sb(1) by (simp add: n_def)
  have sgn: "c0 AND 0x00800000 \<noteq> 0 \<longleftrightarrow> carry"
    using bit_iff_and_push_bit_not_eq_0 [of c0 23] by (simp add: push_bit_eq_mult carry_def)
  define c where "c = c1 OR push_bit 24 (of_nat n)"
  have n256: "n < 256" using n33 by simp
  note cw = GetCompact_word [OF c1b n256]
  have get: "GetCompact a False = Some c"
    using cw(2) n256 unfolding GetCompact_def Let_def s_def [symmetric]
      compact_lead_def [symmetric] c0_def [symmetric] sgn c1_def [symmetric] n_def [symmetric] c_def
    by simp
  note cv = compact_value_word [OF cw(1) uint_ge_0 c1b, folded c_def]
  have "bval a < 256 ^ n"
  proof -
    have "(256 :: int) ^ s \<le> 256 ^ n" by (intro power_increasing) (simp_all add: n_def)
    then show ?thesis using sb(2) by linarith
  qed
  moreover have "compact_value c = bval a div 256 ^ (n - 3) * 256 ^ (n - 3)"
  proof (cases "n \<le> 3")
    case True
    have "uint c1 = bval a * 256 ^ (3 - n)"
    proof (cases carry)
      case c: True
      then have "3 - s = Suc (3 - n)" using True by (simp add: n_def)
      then show ?thesis using c True c1 lead(1) by (simp add: c0_def n_def)
    next
      case False
      then show ?thesis using True c1 lead(1) by (simp add: c0_def n_def)
    qed
    then show ?thesis using True cv(1,2) by (simp add: compact_value_def)
  next
    case False
    have "uint c1 = bval a div 256 ^ (n - 3)"
    proof (cases carry)
      case True
      show ?thesis
      proof (cases "s \<le> 3")
        case s3: True
        then have "s = 3" using False True by (simp add: n_def)
        then show ?thesis using True c1 lead(1) by (simp add: c0_def n_def)
      next
        case s4: False
        then have "n - 3 = Suc (s - 3)" using True by (simp add: n_def)
        then show ?thesis using True s4 c1 lead(1)
          by (simp add: c0_def zdiv_zmult2_eq [symmetric] mult.commute)
      qed
    next
      case nc: False
      then show ?thesis using False c1 lead(1) by (simp add: c0_def n_def)
    qed
    then show ?thesis using False cv(1,2) by (simp add: compact_value_def)
  qed
  moreover have "2 * bval a < 256 ^ n" "n = 0 \<or> 256 ^ (n - 1) \<le> 2 * bval a"
    using size_bounds [OF lead(1) ge sb(2,3), of n] carry by (simp_all add: n_def c0_def)
  ultimately show ?thesis using get n33 cv by blast
qed

text \<open>Decoding an encoded number gives it back up to the bytes the mantissa does not hold.\<close>

lemma SetCompact_GetCompact:
  assumes wf: "bu_wf a"
  shows "\<exists>c v n. GetCompact a False = Some c \<and> SetCompact c = (v, False, False) \<and> bu_wf v \<and>
    bval a < 256 ^ n \<and> bval v = bval a - bval a mod 256 ^ (n - 3) \<and> compact_size c = n \<and>
    2 * bval a < 256 ^ n \<and> (n = 0 \<or> 256 ^ (n - 1) \<le> 2 * bval a)"
proof -
  obtain c n where g: "GetCompact a False = Some c" "\<not> bit c 23" "bval a < 256 ^ n" "compact_size c = n" "2 * bval a < 256 ^ n"
      "n = 0 \<or> 256 ^ (n - 1) \<le> 2 * bval a"
    and v: "compact_value c = bval a div 256 ^ (n - 3) * 256 ^ (n - 3)"
    using GetCompact_val [OF wf] by blast
  have v': "compact_value c = bval a - bval a mod 256 ^ (n - 3)"
    using v by (simp add: minus_mod_eq_div_mult)
  have b: "0 \<le> bval a" "bval a < 2 ^ 256" using bval_bounds [OF wf] by auto
  have m: "0 \<le> bval a mod 256 ^ (n - 3)" by simp
  have lt: "compact_value c < 2 ^ 256" using v' b m by linarith
  have nn: "0 \<le> compact_value c" unfolding v using b(1) by (simp add: pos_imp_zdiv_nonneg_iff)
  obtain w neg ov where s: "SetCompact c = (w, neg, ov)" by (cases "SetCompact c") auto
  note SetCompact_sound [OF s]
  then show ?thesis using g s v' lt nn by auto
qed

section \<open>Properties\<close>

text \<open>The limb-wise operations of \<open>base_uint\<close> compute in the integers modulo
  \<open>2 ^ 256\<close>, the shifts multiply and divide by powers of two, and
  \<open>CompareTo\<close> is the sign of the difference.\<close>

theorem base_uint_arithmetic:
  assumes "bu_wf a" "bu_wf b"
  shows "bval (bu_add a b) = (bval a + bval b) mod 2 ^ 256 \<and>
    bval (bu_sub a b) = (bval a - bval b) mod 2 ^ 256 \<and>
    bval (bu_mul a b) = (bval a * bval b) mod 2 ^ 256 \<and>
    bval (bu_mul32 a c) = (bval a * uint c) mod 2 ^ 256 \<and>
    bval (bu_shl a n) = (bval a * 2 ^ n) mod 2 ^ 256 \<and>
    bval (bu_shr a n) = bval a div 2 ^ n \<and>
    bu_compare a b = sgn (bval a - bval b)"
  using bval_add [OF assms] bval_sub [OF assms] bval_mul [OF assms] bval_mul32 [OF assms(1)]
    bval_shl [OF assms(1)] bval_shr [OF assms(1)] bu_compare_val [OF assms]
  by blast

theorem base_uint_arithmetic_witness:
  "bval (bu_sub (from_u64 3) (from_u64 5)) = (3 - 5) mod 2 ^ 256 \<and>
   bval (bu_mul (from_u64 3) (from_u64 5)) = 15"
proof -
  have "bu_wf (from_u64 3)" "bu_wf (from_u64 5)" by code_simp+
  from base_uint_arithmetic [OF this, of 0 0] show ?thesis by simp
qed

text \<open>C18: \<open>operator/=\<close> throws exactly when the divisor is zero, and otherwise leaves
  the integer quotient.\<close>

theorem base_uint_division:
  assumes "bu_wf a" "bu_wf b"
  shows "bu_div a b = Inl DivisionByZero \<and> bval b = 0 \<or>
    (\<exists>q. bu_div a b = Inr q \<and> bu_wf q \<and> bval q = bval a div bval b \<and> bval b \<noteq> 0)"
  by (rule bu_div_val [OF assms])

theorem base_uint_division_witness:
  "\<exists>q. bu_div (from_u64 100) (from_u64 7) = Inr q \<and> bval q = 14"
proof -
  have "bu_wf (from_u64 100)" "bu_wf (from_u64 7)" by code_simp+
  from base_uint_division [OF this] show ?thesis by auto
qed

text \<open>C19: encoding a 256-bit number compactly never fails.  The size byte is the least number of bytes that holds
  the number and a clear sign bit, and decoding gives the number back, with the sign and overflow flags clear, less
  exactly the bytes below the three of the mantissa.\<close>

theorem compact_roundtrip:
  assumes "bu_wf a"
  shows "\<exists>c v n. GetCompact a False = Some c \<and> compact_size c = n \<and>
    2 * bval a < 256 ^ n \<and> (n = 0 \<or> 256 ^ (n - 1) \<le> 2 * bval a) \<and>
    SetCompact c = (v, False, False) \<and> bu_wf v \<and> bval v = bval a - bval a mod 256 ^ (n - 3)"
  using SetCompact_GetCompact [OF assms] by blast

theorem compact_roundtrip_witness:
  "\<exists>c v. GetCompact (from_u64 0x80123456) False = Some c \<and> compact_size c = 5 \<and>
     SetCompact c = (v, False, False) \<and> bval v = 0x80120000"
proof -
  have wf: "bu_wf (from_u64 0x80123456)" and val: "bval (from_u64 0x80123456) = 0x80123456" by code_simp+
  obtain c v n where c: "GetCompact (from_u64 0x80123456) False = Some c" "compact_size c = n" "SetCompact c = (v, False, False)"
      "2 * 0x80123456 < (256 :: int) ^ n" "n = 0 \<or> 256 ^ (n - 1) \<le> 2 * (0x80123456 :: int)"
      "bval v = 0x80123456 - 0x80123456 mod 256 ^ (n - 3)"
    using compact_roundtrip [OF wf] unfolding val by blast
  have "n = 5"
  proof (rule ccontr)
    assume "n \<noteq> 5"
    then consider "n \<le> 4" | "5 \<le> n - 1" by linarith
    then show False
    proof cases
      case 1
      then have "(256 :: int) ^ n \<le> 256 ^ 4" by (intro power_increasing) simp_all
      then show False using c(4) by simp
    next
      case 2
      then have "(256 :: int) ^ 5 \<le> 256 ^ (n - 1)" by (intro power_increasing) simp_all
      then show False using c(5) 2 by auto
    qed
  qed
  then show ?thesis using c by auto
qed

end
