(* ===== verification/BlockIndex.thy ===== *)
theory BlockIndex
  imports ArithUint256
begin

text \<open>
  The block index of \<open>chain.h\<close> and \<open>chain.cpp\<close>: a tree of
  \<open>CBlockIndex\<close> objects linked by \<open>pprev\<close>, with the skip pointer
  \<open>pskip\<close> that makes \<open>GetAncestor\<close> logarithmic.  Objects live in a store
  from addresses to records; they are only ever added.  \<open>walk\<close> is the ancestor by
  following \<open>pprev\<close>, the reference the skip-list search is compared with.
\<close>

section \<open>Data\<close>

type_synonym ptr = nat

record CBlockIndex =
  phashBlock :: uint256
  pprev :: "ptr option"
  pskip :: "ptr option"
  nHeight :: int
  nFile :: int
  nDataPos :: u32
  nUndoPos :: u32
  nChainWork :: base_uint
  nTx :: u32
  nChainTx :: u32
  nStatus :: u32
  nVersion :: u32
  hashMerkleRoot :: uint256
  nTime :: u32
  nBits :: u32
  nNonce :: u32
  nSequenceId :: u32

record btree =
  obj :: "ptr \<Rightarrow> CBlockIndex"
  known :: "ptr set"

datatype fault = AssertFailed | NullDeref | Thrown uint_error

definition CBlockIndex_null :: CBlockIndex where
  \<comment> \<open>\<open>SetNull\<close>, the default constructor; no hash is the empty list\<close>
  "CBlockIndex_null =
     \<lparr>phashBlock = [], pprev = None, pskip = None, nHeight = 0, nFile = 0, nDataPos = 0, nUndoPos = 0,
      nChainWork = bu_zero, nTx = 0, nChainTx = 0, nStatus = 0, nVersion = 0,
      hashMerkleRoot = replicate 32 0, nTime = 0, nBits = 0, nNonce = 0, nSequenceId = 0\<rparr>"

section \<open>Skip heights\<close>

definition InvertLowestOne :: "int \<Rightarrow> int" where
  "InvertLowestOne n = n AND (n - 1)"

definition GetSkipHeight :: "int \<Rightarrow> int" where
  "GetSkipHeight height =
     (if height < 2 then 0
      else if height AND 1 \<noteq> 0 then InvertLowestOne (InvertLowestOne (height - 1)) + 1
      else InvertLowestOne height)"

lemma InvertLowestOne_bounds: "1 \<le> n \<Longrightarrow> 0 \<le> InvertLowestOne n \<and> InvertLowestOne n \<le> n - 1"
  unfolding InvertLowestOne_def by (simp add: AND_upper2)

lemma GetSkipHeight_bounds: "1 \<le> h \<Longrightarrow> 0 \<le> GetSkipHeight h \<and> GetSkipHeight h < h"
proof (cases "h < 2")
  case False
  define m where "m = InvertLowestOne (h - 1)"
  have m: "0 \<le> m" "m \<le> h - 2" using False InvertLowestOne_bounds [of "h - 1"] by (auto simp: m_def)
  have "0 \<le> InvertLowestOne m \<and> InvertLowestOne m + 1 < h"
  proof (cases "m = 0")
    case True
    then show ?thesis using False by (simp add: InvertLowestOne_def)
  next
    case nz: False
    then show ?thesis using m InvertLowestOne_bounds [of m] by linarith
  qed
  then show ?thesis using False InvertLowestOne_bounds [of h]
    by (simp add: GetSkipHeight_def m_def)
qed (simp add: GetSkipHeight_def)

section \<open>The ancestor search\<close>

function ancestor_loop :: "btree \<Rightarrow> int \<Rightarrow> ptr \<Rightarrow> int \<Rightarrow> fault + ptr" where
  "ancestor_loop T height pindexWalk heightWalk =
     (if 0 \<le> height \<and> heightWalk > height then
        (let heightSkip = GetSkipHeight heightWalk;
             heightSkipPrev = GetSkipHeight (heightWalk - 1);
             b = obj T pindexWalk
         in if pskip b \<noteq> None \<and>
               (heightSkip = height \<or>
                (heightSkip > height \<and> \<not> (heightSkipPrev < heightSkip - 2 \<and> heightSkipPrev \<ge> height)))
            then ancestor_loop T height (the (pskip b)) heightSkip
            else (case pprev b of
                    None \<Rightarrow> Inl AssertFailed
                  | Some q \<Rightarrow> ancestor_loop T height q (heightWalk - 1)))
      else Inr pindexWalk)"
  by pat_completeness auto
termination
proof (relation "measure (\<lambda>(T, height, p, heightWalk). nat heightWalk)", goal_cases)
  case (2 T height p hw hs hsp b)
  then have "1 \<le> hw" by simp
  then show ?case using GetSkipHeight_bounds [of hw] 2 by simp
qed auto

declare ancestor_loop.simps [simp del]

definition GetAncestor :: "btree \<Rightarrow> ptr \<Rightarrow> int \<Rightarrow> fault + ptr option" where
  "GetAncestor T p height =
     (if height > nHeight (obj T p) \<or> height < 0 then Inr None
      else case ancestor_loop T height p (nHeight (obj T p)) of
             Inl e \<Rightarrow> Inl e | Inr q \<Rightarrow> Inr (Some q))"

definition BuildSkip :: "btree \<Rightarrow> ptr \<Rightarrow> fault + btree" where
  "BuildSkip T p =
     (case pprev (obj T p) of
        None \<Rightarrow> Inr T
      | Some q \<Rightarrow>
          (case GetAncestor T q (GetSkipHeight (nHeight (obj T p))) of
             Inl e \<Rightarrow> Inl e
           | Inr a \<Rightarrow> Inr (T\<lparr>obj := (obj T)(p := (obj T p)\<lparr>pskip := a\<rparr>)\<rparr>)))"

section \<open>The reference: following pprev\<close>

fun walk :: "btree \<Rightarrow> nat \<Rightarrow> ptr \<Rightarrow> ptr option" where
  "walk T 0 p = Some p"
| "walk T (Suc k) p = (case pprev (obj T p) of None \<Rightarrow> None | Some q \<Rightarrow> walk T k q)"

definition ancestor_at :: "btree \<Rightarrow> ptr \<Rightarrow> int \<Rightarrow> ptr option" where
  "ancestor_at T p h =
     (if h < 0 \<or> h > nHeight (obj T p) then None else walk T (nat (nHeight (obj T p) - h)) p)"

definition linked :: "btree \<Rightarrow> ptr \<Rightarrow> bool" where
  "linked T p \<longleftrightarrow> 0 \<le> nHeight (obj T p) \<and>
     (case pprev (obj T p) of
        None \<Rightarrow> nHeight (obj T p) = 0
      | Some q \<Rightarrow> q \<in> known T \<and> nHeight (obj T p) = nHeight (obj T q) + 1)"

definition skip_ok :: "btree \<Rightarrow> ptr \<Rightarrow> bool" where
  "skip_ok T p \<longleftrightarrow>
     (case pskip (obj T p) of
        None \<Rightarrow> True
      | Some q \<Rightarrow> ancestor_at T p (GetSkipHeight (nHeight (obj T p))) = Some q)"

definition btree_wf :: "btree \<Rightarrow> bool" where
  "btree_wf T \<longleftrightarrow> (\<forall>p \<in> known T. linked T p \<and> skip_ok T p)"

lemma walk_add: "walk T (j + k) p = Option.bind (walk T j p) (walk T k)"
  by (induction j arbitrary: p) (auto split: option.splits)

lemma walk_total:
  assumes wf: "btree_wf T"
  shows "p \<in> known T \<Longrightarrow> int k \<le> nHeight (obj T p) \<Longrightarrow>
    \<exists>q. walk T k p = Some q \<and> q \<in> known T \<and> nHeight (obj T q) = nHeight (obj T p) - int k"
proof (induction k arbitrary: p)
  case 0
  then show ?case by simp
next
  case (Suc k)
  from wf Suc.prems(1) have l: "linked T p" by (simp add: btree_wf_def)
  then obtain q where q: "pprev (obj T p) = Some q" "q \<in> known T"
    "nHeight (obj T p) = nHeight (obj T q) + 1"
    using Suc.prems(2) by (auto simp: linked_def split: option.splits)
  then show ?case using Suc.IH [of q] Suc.prems(2) by auto
qed

lemma ancestor_at_total:
  assumes "btree_wf T" "p \<in> known T" "0 \<le> h" "h \<le> nHeight (obj T p)"
  shows "\<exists>q. ancestor_at T p h = Some q \<and> q \<in> known T \<and> nHeight (obj T q) = h"
  using walk_total [OF assms(1,2), of "nat (nHeight (obj T p) - h)"] assms(3,4)
  by (auto simp: ancestor_at_def)

lemma ancestor_at_self [simp]: "0 \<le> nHeight (obj T p) \<Longrightarrow> ancestor_at T p (nHeight (obj T p)) = Some p"
  by (simp add: ancestor_at_def)

lemma ancestor_at_trans:
  assumes wf: "btree_wf T" and p: "p \<in> known T" and q: "ancestor_at T p h = Some q" and g: "0 \<le> g" "g \<le> h"
  shows "ancestor_at T q g = ancestor_at T p g"
proof -
  have h: "0 \<le> h" "h \<le> nHeight (obj T p)" using q by (auto simp: ancestor_at_def split: if_splits)
  have hq: "nHeight (obj T q) = h" using ancestor_at_total [OF wf p h] q by auto
  have "nat (nHeight (obj T p) - g) = nat (nHeight (obj T p) - h) + nat (h - g)"
    using g h by simp
  then show ?thesis using q g h hq
    by (simp add: ancestor_at_def walk_add split: if_splits)
qed

lemma ancestor_at_pprev:
  assumes "btree_wf T" "p \<in> known T" "pprev (obj T p) = Some q" "0 \<le> h" "h < nHeight (obj T p)"
  shows "ancestor_at T q h = ancestor_at T p h"
proof -
  have l: "linked T p" using assms by (simp add: btree_wf_def)
  then have hq: "nHeight (obj T p) = nHeight (obj T q) + 1" using assms by (auto simp: linked_def)
  then have "nat (nHeight (obj T p) - h) = Suc (nat (nHeight (obj T q) - h))" using assms by simp
  then show ?thesis using assms hq by (simp add: ancestor_at_def)
qed

text \<open>The skip-list search finds the ancestor \<open>pprev\<close> leads to, and no assertion fails.\<close>

lemma ancestor_loop_correct:
  "btree_wf T \<Longrightarrow> p \<in> known T \<Longrightarrow> 0 \<le> h \<Longrightarrow> h \<le> nHeight (obj T p) \<Longrightarrow> hw = nHeight (obj T p) \<Longrightarrow>
    \<exists>q. ancestor_loop T h p hw = Inr q \<and> ancestor_at T p h = Some q"
proof (induction T h p hw rule: ancestor_loop.induct)
  case (1 T h p hw)
  have l: "linked T p" and sk: "skip_ok T p" using "1.prems" by (auto simp: btree_wf_def)
  show ?case
  proof (cases "hw > h")
    case False
    then show ?thesis using "1.prems" by (subst ancestor_loop.simps) simp
  next
    case True
    have guard: "0 \<le> h \<and> h < hw" using True "1.prems" by simp
    let ?s = "GetSkipHeight hw" and ?sp = "GetSkipHeight (hw - 1)"
    let ?C = "pskip (obj T p) \<noteq> None \<and> (?s = h \<or> (?s > h \<and> \<not> (?sp < ?s - 2 \<and> ?sp \<ge> h)))"
    show ?thesis
    proof (cases ?C)
      case C: True
      then obtain q where q: "pskip (obj T p) = Some q" by auto
      then have a: "ancestor_at T p ?s = Some q" using sk "1.prems" by (simp add: skip_ok_def)
      have s: "0 \<le> ?s" "?s \<le> nHeight (obj T p)" "h \<le> ?s"
        using guard GetSkipHeight_bounds [of hw] "1.prems" C by auto
      have qk: "q \<in> known T" "nHeight (obj T q) = ?s"
        using ancestor_at_total [OF "1.prems"(1,2) s(1,2)] a by auto
      have "\<exists>r. ancestor_loop T h q ?s = Inr r \<and> ancestor_at T q h = Some r"
        using "1.IH"(1) [OF guard refl refl refl C] "1.prems" q qk s by simp
      moreover have "ancestor_at T q h = ancestor_at T p h"
        using ancestor_at_trans [OF "1.prems"(1,2) a] guard s by simp
      moreover have "ancestor_loop T h p hw = ancestor_loop T h q ?s"
        using guard C q by (subst ancestor_loop.simps) (simp add: Let_def)
      ultimately show ?thesis by simp
    next
      case C: False
      obtain q where q: "pprev (obj T p) = Some q" "q \<in> known T" "hw = nHeight (obj T q) + 1"
        using l guard "1.prems" by (auto simp: linked_def split: option.splits)
      have "\<exists>r. ancestor_loop T h q (hw - 1) = Inr r \<and> ancestor_at T q h = Some r"
        using "1.IH"(2) [OF guard refl refl refl C q(1)] "1.prems" q guard by simp
      moreover have "ancestor_at T q h = ancestor_at T p h"
        using ancestor_at_pprev [OF "1.prems"(1,2) q(1)] guard "1.prems" by simp
      moreover have "ancestor_loop T h p hw = ancestor_loop T h q (hw - 1)"
        using guard C q by (subst ancestor_loop.simps) (auto simp: Let_def)
      ultimately show ?thesis by simp
    qed
  qed
qed

lemma GetAncestor_correct:
  assumes "btree_wf T" "p \<in> known T"
  shows "GetAncestor T p h = Inr (ancestor_at T p h)"
proof (cases "h > nHeight (obj T p) \<or> h < 0")
  case True
  then show ?thesis by (auto simp: GetAncestor_def ancestor_at_def)
next
  case False
  then obtain q where "ancestor_loop T h p (nHeight (obj T p)) = Inr q \<and> ancestor_at T p h = Some q"
    using ancestor_loop_correct [OF assms, of h] by auto
  then show ?thesis using False by (simp add: GetAncestor_def)
qed

section \<open>Adding a block\<close>

text \<open>
  The linking part of \<open>AddToBlockIndex\<close>: a new object gets its \<open>pprev\<close>, its
  height and its skip pointer.  The tree keeps its invariant, so the search stays correct for every
  block ever added.
\<close>

definition link_block :: "btree \<Rightarrow> ptr \<Rightarrow> CBlockIndex \<Rightarrow> ptr option \<Rightarrow> fault + btree" where
  "link_block T p b prev =
     (case prev of
        None \<Rightarrow> Inr (T\<lparr>obj := (obj T)(p := b\<lparr>pprev := None, pskip := None, nHeight := 0\<rparr>),
                      known := insert p (known T)\<rparr>)
      | Some q \<Rightarrow>
          BuildSkip (T\<lparr>obj := (obj T)(p := b\<lparr>pprev := Some q, pskip := None,
                        nHeight := nHeight (obj T q) + 1\<rparr>),
                      known := insert p (known T)\<rparr>) p)"

definition agree_on :: "ptr set \<Rightarrow> btree \<Rightarrow> btree \<Rightarrow> bool" where
  "agree_on D T T' \<longleftrightarrow> (\<forall>p \<in> D. pprev (obj T' p) = pprev (obj T p) \<and> nHeight (obj T' p) = nHeight (obj T p))"

lemma walk_agree:
  assumes wf: "btree_wf T" and ag: "agree_on (known T) T T'"
  shows "p \<in> known T \<Longrightarrow> walk T' k p = walk T k p"
proof (induction k arbitrary: p)
  case 0
  then show ?case by simp
next
  case (Suc k)
  have "linked T p" using wf Suc.prems by (simp add: btree_wf_def)
  then show ?case using Suc ag
    by (auto simp: agree_on_def linked_def split: option.splits)
qed

lemma ancestor_at_agree:
  "btree_wf T \<Longrightarrow> agree_on (known T) T T' \<Longrightarrow> p \<in> known T \<Longrightarrow> ancestor_at T' p h = ancestor_at T p h"
  by (simp add: ancestor_at_def walk_agree) (simp add: agree_on_def)

lemma btree_wf_extend:
  assumes wf: "btree_wf T" and kn: "known T' = insert p (known T)" and new: "p \<notin> known T"
    and old: "\<And>q. q \<noteq> p \<Longrightarrow> obj T' q = obj T q"
    and link: "linked T' p" and skip: "skip_ok T' p"
  shows "btree_wf T'"
  unfolding btree_wf_def kn
proof
  fix q
  assume q: "q \<in> insert p (known T)"
  have same: "obj T' r = obj T r" if "r \<in> known T" for r using old [of r] new that by auto
  then have ag: "agree_on (known T) T T'" by (simp add: agree_on_def)
  show "linked T' q \<and> skip_ok T' q"
  proof (cases "q = p")
    case True
    then show ?thesis using link skip by simp
  next
    case False
    then have qk: "q \<in> known T" using q by simp
    then have l: "linked T q" "skip_ok T q" using wf by (auto simp: btree_wf_def)
    have oq: "obj T' q = obj T q" using old False by simp
    have "linked T' q" using l(1) oq kn same by (auto simp: linked_def split: option.splits)
    moreover have "skip_ok T' q"
      using l(2) oq ancestor_at_agree [OF wf ag qk] by (auto simp: skip_ok_def split: option.splits)
    ultimately show ?thesis by simp
  qed
qed

lemma link_block_wf:
  assumes wf: "btree_wf T" and new: "p \<notin> known T" and prev: "\<And>q. prev = Some q \<Longrightarrow> q \<in> known T"
  shows "\<exists>T'. link_block T p b prev = Inr T' \<and> btree_wf T' \<and> known T' = insert p (known T) \<and>
    (\<forall>q. q \<noteq> p \<longrightarrow> obj T' q = obj T q) \<and> pprev (obj T' p) = prev"
proof (cases prev)
  case None
  then show ?thesis using wf new
    by (auto simp: link_block_def intro!: btree_wf_extend [OF wf] simp: linked_def skip_ok_def)
next
  case (Some q)
  then have qk: "q \<in> known T" using prev by simp
  then have qp: "q \<noteq> p" using new by auto
  define T1 where "T1 = T\<lparr>obj := (obj T)(p := b\<lparr>pprev := Some q, pskip := None,
                        nHeight := nHeight (obj T q) + 1\<rparr>), known := insert p (known T)\<rparr>"
  have T1: "known T1 = insert p (known T)" "pprev (obj T1 p) = Some q" "pskip (obj T1 p) = None"
    "nHeight (obj T1 p) = nHeight (obj T q) + 1" "\<And>r. r \<noteq> p \<Longrightarrow> obj T1 r = obj T r"
    by (simp_all add: T1_def)
  have lq: "0 \<le> nHeight (obj T q)" using wf qk by (auto simp: btree_wf_def linked_def)
  have wf1: "btree_wf T1"
    by (rule btree_wf_extend [OF wf T1(1) new]) (use T1 qk qp lq in \<open>auto simp: linked_def skip_ok_def\<close>)
  let ?s = "GetSkipHeight (nHeight (obj T1 p))"
  have s: "0 \<le> ?s" "?s < nHeight (obj T1 p)" using GetSkipHeight_bounds [of "nHeight (obj T1 p)"] lq T1 by auto
  define a where "a = ancestor_at T1 q ?s"
  have g: "GetAncestor T1 q ?s = Inr a"
    unfolding a_def using qk T1 by (intro GetAncestor_correct [OF wf1]) simp
  have anc: "a = ancestor_at T1 p ?s"
    unfolding a_def using s T1 by (intro ancestor_at_pprev [OF wf1]) simp_all
  define T2 where "T2 = T1\<lparr>obj := (obj T1)(p := (obj T1 p)\<lparr>pskip := a\<rparr>)\<rparr>"
  have T2: "known T2 = insert p (known T)" "pprev (obj T2 p) = Some q" "pskip (obj T2 p) = a"
    "nHeight (obj T2 p) = nHeight (obj T1 p)" "\<And>r. r \<noteq> p \<Longrightarrow> obj T2 r = obj T r"
    using T1 by (simp_all add: T2_def)
  have "agree_on (known T1) T1 T2" using T1 T2 by (auto simp: agree_on_def T2_def)
  then have "ancestor_at T2 p ?s = a"
    unfolding anc using T1 by (intro ancestor_at_agree [OF wf1]) simp_all
  then have sk: "skip_ok T2 p" using T2 by (simp add: skip_ok_def split: option.splits)
  have wf2: "btree_wf T2"
    by (rule btree_wf_extend [OF wf T2(1) new]) (use T1 T2 sk qk qp lq in \<open>auto simp: linked_def\<close>)
  have "link_block T p b prev = BuildSkip T1 p" by (simp add: link_block_def Some T1_def)
  also have "\<dots> = Inr T2" using g T1 by (simp add: BuildSkip_def T2_def)
  finally show ?thesis using wf2 T2 Some by auto
qed

section \<open>The active chain\<close>

text \<open>\<open>CChain\<close>: the vector of the blocks of the active branch, by height.\<close>

record CChain =
  vChain :: "ptr option list"

definition chain_Tip :: "CChain \<Rightarrow> ptr option" where
  "chain_Tip c = (if length (vChain c) > 0 then vChain c ! (length (vChain c) - 1) else None)"

definition chain_Genesis :: "CChain \<Rightarrow> ptr option" where
  "chain_Genesis c = (if length (vChain c) > 0 then vChain c ! 0 else None)"

definition chain_at :: "CChain \<Rightarrow> int \<Rightarrow> ptr option" where
  "chain_at c h = (if h < 0 \<or> h \<ge> int (length (vChain c)) then None else vChain c ! nat h)"

definition chain_Contains :: "btree \<Rightarrow> CChain \<Rightarrow> ptr \<Rightarrow> bool" where
  "chain_Contains T c p \<longleftrightarrow> chain_at c (nHeight (obj T p)) = Some p"

definition chain_Next :: "btree \<Rightarrow> CChain \<Rightarrow> ptr \<Rightarrow> ptr option" where
  "chain_Next T c p = (if chain_Contains T c p then chain_at c (nHeight (obj T p) + 1) else None)"

definition chain_Height :: "CChain \<Rightarrow> int" where
  "chain_Height c = int (length (vChain c)) - 1"

definition resize :: "nat \<Rightarrow> 'a \<Rightarrow> 'a list \<Rightarrow> 'a list" where
  "resize n x xs = take n xs @ replicate (n - length xs) x"

fun settip_loop :: "btree \<Rightarrow> nat \<Rightarrow> ptr option list \<Rightarrow> ptr option \<Rightarrow> ptr option list" where
  \<comment> \<open>the first argument of the loop counts down the height, which bounds the iterations\<close>
  "settip_loop T fuel v None = v"
| "settip_loop T 0 v (Some p) = v"
| "settip_loop T (Suc fuel) v (Some p) =
     (let h = nat (nHeight (obj T p))
      in if v ! h \<noteq> Some p then settip_loop T fuel (v[h := Some p]) (pprev (obj T p)) else v)"

definition chain_SetTip :: "btree \<Rightarrow> CChain \<Rightarrow> ptr option \<Rightarrow> CChain" where
  "chain_SetTip T c pindex =
     (case pindex of
        None \<Rightarrow> c\<lparr>vChain := []\<rparr>
      | Some p \<Rightarrow>
          (let n = nat (nHeight (obj T p) + 1)
           in c\<lparr>vChain := settip_loop T n (resize n None (vChain c)) (Some p)\<rparr>))"

text \<open>The chain invariant: the entry at each height is the tip's ancestor at that height.\<close>

definition chain_wf :: "btree \<Rightarrow> CChain \<Rightarrow> bool" where
  "chain_wf T c \<longleftrightarrow> (vChain c = [] \<or>
     (\<exists>t \<in> known T. nHeight (obj T t) + 1 = int (length (vChain c)) \<and>
       (\<forall>h < length (vChain c). vChain c ! h = ancestor_at T t (int h))))"


definition chained :: "btree \<Rightarrow> ptr option list \<Rightarrow> nat \<Rightarrow> bool" where
  "chained T v n \<longleftrightarrow> (\<forall>j < n. \<forall>q. v ! j = Some q \<longrightarrow> (\<forall>i \<le> j. v ! i = ancestor_at T q (int i)))"

lemma genesis_no_pprev:
  assumes "btree_wf T" "p \<in> known T" "nHeight (obj T p) = 0"
  shows "pprev (obj T p) = None"
proof (cases "pprev (obj T p)")
  case (Some q)
  then have "q \<in> known T" "nHeight (obj T q) = - 1" using assms by (auto simp: btree_wf_def linked_def)
  then have False using assms(1) by (auto simp: btree_wf_def linked_def)
  then show ?thesis ..
qed

lemma settip_loop_correct:
  assumes wf: "btree_wf T"
  shows "p \<in> known T \<Longrightarrow> nHeight (obj T p) = int n \<Longrightarrow> n < length v \<Longrightarrow> chained T v (Suc n) \<Longrightarrow>
    v' = settip_loop T (Suc n) v (Some p) \<Longrightarrow>
    length v' = length v \<and> (\<forall>i \<le> n. v' ! i = ancestor_at T p (int i)) \<and> (\<forall>i > n. v' ! i = v ! i)"
proof (induction n arbitrary: p v v')
  case 0
  have "pprev (obj T p) = None"
    using wf 0 by (intro genesis_no_pprev) simp_all
  then have "settip_loop T 1 v (Some p) = (if v ! 0 \<noteq> Some p then v[0 := Some p] else v)"
    using 0 by (simp add: Let_def)
  moreover have "ancestor_at T p 0 = Some p" using 0 ancestor_at_self [of T p] by simp
  ultimately show ?case using 0 by auto
next
  case (Suc n)
  have self: "ancestor_at T p (int (Suc n)) = Some p" using Suc.prems(2) ancestor_at_self [of T p] by simp
  have nh: "nat (nHeight (obj T p)) = Suc n" using Suc.prems(2) by simp
  show ?case
  proof (cases "v ! Suc n = Some p")
    case True
    then have "v' = v" using Suc.prems(5) nh by (simp add: Let_def)
    then show ?thesis using True Suc.prems(4) self by (auto simp: chained_def)
  next
    case False
    obtain q where q: "pprev (obj T p) = Some q" "q \<in> known T" "nHeight (obj T q) = int n"
      using wf Suc.prems by (force simp: btree_wf_def linked_def split: option.splits)
    let ?v = "v[Suc n := Some p]"
    have v': "v' = settip_loop T (Suc n) ?v (Some q)"
      using False Suc.prems(5) nh q(1) by (simp add: Let_def)
    have "chained T ?v (Suc n)"
      unfolding chained_def
    proof (intro allI impI)
      fix j q' i
      assume a: "j < Suc n" "?v ! j = Some q'" "i \<le> j"
      then have "v ! i = ancestor_at T q' (int i)"
        using Suc.prems(4) [unfolded chained_def, rule_format, of j q' i] by simp
      then show "?v ! i = ancestor_at T q' (int i)" using a by simp
    qed
    then have IH: "length v' = length ?v" "\<forall>i \<le> n. v' ! i = ancestor_at T q (int i)" "\<forall>i > n. v' ! i = ?v ! i"
      using Suc.IH [OF q(2,3) _ _ v'] Suc.prems(3) by auto
    have "ancestor_at T q (int i) = ancestor_at T p (int i)" if "i \<le> n" for i
      using that Suc.prems by (intro ancestor_at_pprev [OF wf _ q(1)]) simp_all
    then have "v' ! i = ancestor_at T p (int i)" if "i \<le> Suc n" for i
      using that IH self Suc.prems(3) by (cases "i = Suc n") auto
    then show ?thesis using IH Suc.prems(3) by auto
  qed
qed

lemma chain_SetTip_correct:
  assumes wf: "btree_wf T" and c: "chain_wf T c" and p: "p \<in> known T"
  defines "c' \<equiv> chain_SetTip T c (Some p)"
  shows "chain_wf T c' \<and> chain_Height c' = nHeight (obj T p) \<and> (\<forall>h. chain_at c' h = ancestor_at T p h)"
proof -
  obtain n where n: "nHeight (obj T p) = int n"
    using wf p by (metis btree_wf_def linked_def zero_le_imp_eq_int)
  let ?v = "resize (Suc n) None (vChain c)"
  have len: "length ?v = Suc n" by (simp add: resize_def)
  have nth: "?v ! i = (if i < length (vChain c) then vChain c ! i else None)" if "i \<le> n" for i
    using that by (auto simp: resize_def nth_append)
  have ch: "chained T ?v (Suc n)"
    unfolding chained_def
  proof (intro allI impI)
    fix j q i
    assume j: "j < Suc n" and q: "?v ! j = Some q" and i: "i \<le> j"
    then have jl: "j < length (vChain c)" "vChain c ! j = Some q" using nth [of j] by (auto split: if_splits)
    then obtain t where t: "t \<in> known T" "\<forall>h < length (vChain c). vChain c ! h = ancestor_at T t (int h)"
      using c by (auto simp: chain_wf_def)
    then have "ancestor_at T t (int j) = Some q" using jl by simp
    from ancestor_at_trans [OF wf t(1) this, of "int i"]
    have "ancestor_at T q (int i) = ancestor_at T t (int i)" using i by simp
    then show "?v ! i = ancestor_at T q (int i)" using t jl i j nth [of i] by simp
  qed
  let ?v' = "settip_loop T (Suc n) ?v (Some p)"
  have r: "length ?v' = Suc n" "\<forall>i \<le> n. ?v' ! i = ancestor_at T p (int i)"
    using settip_loop_correct [OF wf p n _ ch refl] len by auto
  have c': "vChain c' = ?v'" using n by (simp add: c'_def chain_SetTip_def Let_def nat_add_distrib)
  have at: "chain_at c' h = ancestor_at T p h" for h
  proof (cases "h < 0 \<or> h > int n")
    case True
    then show ?thesis using c' r n by (auto simp: chain_at_def ancestor_at_def)
  next
    case False
    then have "nat h \<le> n" "int (nat h) = h" by auto
    then show ?thesis using c' r False by (auto simp: chain_at_def)
  qed
  have "chain_wf T c'" unfolding chain_wf_def c' using r p n by (auto intro!: bexI [of _ p])
  then show ?thesis using at c' r n by (simp add: chain_Height_def)
qed


subsection \<open>Forks and locators\<close>

function findfork_loop :: "btree \<Rightarrow> CChain \<Rightarrow> nat \<Rightarrow> ptr option \<Rightarrow> ptr option" where
  \<comment> \<open>walk back while the block is not in the chain; the height bounds the iterations\<close>
  "findfork_loop T c fuel None = None"
| "findfork_loop T c 0 (Some p) = Some p"
| "findfork_loop T c (Suc fuel) (Some p) =
     (if chain_Contains T c p then Some p else findfork_loop T c fuel (pprev (obj T p)))"
  by pat_completeness auto
termination
  by (relation "measure (\<lambda>(T, c, fuel, p). fuel)") auto

definition chain_FindFork :: "btree \<Rightarrow> CChain \<Rightarrow> ptr option \<Rightarrow> fault + ptr option" where
  "chain_FindFork T c pindex =
     (case pindex of
        None \<Rightarrow> Inr None
      | Some p \<Rightarrow>
          (case (if nHeight (obj T p) > chain_Height c then GetAncestor T p (chain_Height c)
                 else Inr (Some p)) of
             Inl e \<Rightarrow> Inl e
           | Inr q \<Rightarrow> Inr (findfork_loop T c (case q of None \<Rightarrow> 0 | Some r \<Rightarrow> nat (nHeight (obj T r) + 1)) q)))"

lemma findfork_loop_correct:
  assumes wf: "btree_wf T"
  shows "p \<in> known T \<Longrightarrow> nHeight (obj T p) = int n \<Longrightarrow>
    (case findfork_loop T c (Suc n) (Some p) of
       None \<Rightarrow> (\<forall>h q. ancestor_at T p h = Some q \<longrightarrow> \<not> chain_Contains T c q)
     | Some f \<Rightarrow> chain_Contains T c f \<and> (\<exists>g. ancestor_at T p g = Some f \<and>
         (\<forall>h q. g < h \<longrightarrow> ancestor_at T p h = Some q \<longrightarrow> \<not> chain_Contains T c q)))"
proof (induction n arbitrary: p)
  case 0
  have prev: "pprev (obj T p) = None" using wf 0 by (intro genesis_no_pprev) simp_all
  have "ancestor_at T p h = (if h = 0 then Some p else None)" for h
    using 0 by (auto simp: ancestor_at_def)
  then show ?case using prev by (auto split: option.splits)
next
  case (Suc n)
  obtain q where q: "pprev (obj T p) = Some q" "q \<in> known T" "nHeight (obj T q) = int n"
    using wf Suc.prems by (force simp: btree_wf_def linked_def split: option.splits)
  have self: "ancestor_at T p (int (Suc n)) = Some p" using Suc.prems(2) ancestor_at_self [of T p] by simp
  have above: "ancestor_at T p h = None" if "int (Suc n) < h" for h
    using that Suc.prems by (simp add: ancestor_at_def)
  have below: "ancestor_at T q h = ancestor_at T p h" if "h \<le> int n" for h
  proof (cases "h < 0")
    case True
    then show ?thesis by (simp add: ancestor_at_def)
  next
    case False
    then show ?thesis using that Suc.prems by (intro ancestor_at_pprev [OF wf _ q(1)]) simp_all
  qed
  have qh: "ancestor_at T q h = Some r \<Longrightarrow> h \<le> int n" for h r
    using q(3) by (auto simp: ancestor_at_def split: if_splits)
  have split: "h \<le> int n \<or> h = int (Suc n) \<or> int (Suc n) < h" for h by auto
  show ?case
  proof (cases "chain_Contains T c p")
    case True
    then show ?thesis using self above by (auto intro!: exI [of _ "int (Suc n)"])
  next
    case False
    then have eq: "findfork_loop T c (Suc (Suc n)) (Some p) = findfork_loop T c (Suc n) (Some q)"
      using q(1) by simp
    show ?thesis
    proof (cases "findfork_loop T c (Suc n) (Some q)")
      case None
      then have "\<forall>h r. ancestor_at T q h = Some r \<longrightarrow> \<not> chain_Contains T c r"
        using Suc.IH [OF q(2,3)] by simp
      then have "\<forall>h r. ancestor_at T p h = Some r \<longrightarrow> \<not> chain_Contains T c r"
        using split below self above False by (metis option.distinct(1) option.inject)
      then show ?thesis unfolding eq None by simp
    next
      case (Some f)
      then obtain g where g: "chain_Contains T c f" "ancestor_at T q g = Some f"
        "\<forall>h r. g < h \<longrightarrow> ancestor_at T q h = Some r \<longrightarrow> \<not> chain_Contains T c r"
        using Suc.IH [OF q(2,3)] by auto
      have "ancestor_at T p g = Some f" using g(2) qh below by metis
      moreover have "\<forall>h r. g < h \<longrightarrow> ancestor_at T p h = Some r \<longrightarrow> \<not> chain_Contains T c r"
        using split below self above False g(3) by (metis option.distinct(1) option.inject)
      ultimately show ?thesis unfolding eq Some using g(1) by auto
    qed
  qed
qed


definition highest_common :: "btree \<Rightarrow> CChain \<Rightarrow> ptr \<Rightarrow> ptr option \<Rightarrow> bool" where
  "highest_common T c p r \<longleftrightarrow>
     (case r of
        None \<Rightarrow> (\<forall>h q. ancestor_at T p h = Some q \<longrightarrow> \<not> chain_Contains T c q)
      | Some f \<Rightarrow> chain_Contains T c f \<and> (\<exists>g. ancestor_at T p g = Some f \<and>
          (\<forall>h q. g < h \<longrightarrow> ancestor_at T p h = Some q \<longrightarrow> \<not> chain_Contains T c q)))"

lemma above_chain: "p \<in> known T \<Longrightarrow> btree_wf T \<Longrightarrow> chain_Height c < h \<Longrightarrow> ancestor_at T p h = Some q \<Longrightarrow>
    \<not> chain_Contains T c q"
  using ancestor_at_total [of T p h]
  by (auto simp: chain_Contains_def chain_at_def chain_Height_def ancestor_at_def split: if_splits)

lemma chain_FindFork_correct:
  assumes wf: "btree_wf T" and p: "p \<in> known T"
  shows "\<exists>r. chain_FindFork T c (Some p) = Inr r \<and> highest_common T c p r"
proof (cases "nHeight (obj T p) > chain_Height c")
  case False
  obtain n where n: "nHeight (obj T p) = int n"
    using wf p by (metis btree_wf_def linked_def zero_le_imp_eq_int)
  have f: "nat (nHeight (obj T p) + 1) = Suc n" using n by simp
  have "chain_FindFork T c (Some p) = Inr (findfork_loop T c (Suc n) (Some p))"
    unfolding chain_FindFork_def option.case if_not_P [OF False] sum.case f ..
  moreover have "highest_common T c p (findfork_loop T c (Suc n) (Some p))"
    unfolding highest_common_def by (rule findfork_loop_correct [OF wf p n, of c])
  ultimately show ?thesis by blast
next
  case True
  show ?thesis
  proof (cases "chain_Height c < 0")
    case neg: True
    have "\<not> chain_Contains T c q" if "ancestor_at T p h = Some q" for h q
    proof (rule above_chain [OF p wf _ that])
      show "chain_Height c < h" using that neg by (auto simp: ancestor_at_def split: if_splits)
    qed
    then have h: "highest_common T c p None" by (auto simp: highest_common_def)
    have "GetAncestor T p (chain_Height c) = Inr None" using neg by (simp add: GetAncestor_def)
    then have "chain_FindFork T c (Some p) = Inr (findfork_loop T c 0 None)"
      unfolding chain_FindFork_def option.case if_P [OF True] by simp
    then show ?thesis using h by simp
  next
    case False
    then obtain q where q: "ancestor_at T p (chain_Height c) = Some q" "q \<in> known T"
      "nHeight (obj T q) = chain_Height c"
      using ancestor_at_total [OF wf p, of "chain_Height c"] True by auto
    then obtain n where n: "nHeight (obj T q) = int n" using False by (metis not_less zero_le_imp_eq_int)
    have f: "nat (chain_Height c + 1) = Suc n" using n q by simp
    define r where "r = findfork_loop T c (Suc n) (Some q)"
    have ga: "GetAncestor T p (chain_Height c) = Inr (Some q)"
      using GetAncestor_correct [OF wf p, of "chain_Height c"] q(1) by simp
    have ff: "chain_FindFork T c (Some p) = Inr r"
      unfolding chain_FindFork_def option.case if_P [OF True] ga sum.case q(3) f r_def ..
    have hq: "highest_common T c q r"
      unfolding highest_common_def r_def by (rule findfork_loop_correct [OF wf q(2) n, of c])
    have eq: "ancestor_at T q h = ancestor_at T p h" if "0 \<le> h" "h \<le> chain_Height c" for h
      using ancestor_at_trans [OF wf p q(1) that] .
    have rng: "ancestor_at T x h = Some y \<Longrightarrow> 0 \<le> h \<and> h \<le> nHeight (obj T x)" for x h y
      by (auto simp: ancestor_at_def split: if_splits)
    have conv: "ancestor_at T p h = Some y \<Longrightarrow> chain_Contains T c y \<Longrightarrow> ancestor_at T q h = Some y" for h y
      using above_chain [OF p wf, of c h y] rng [of p h y] eq [of h] by (cases "chain_Height c < h") simp_all
    have bwd: "ancestor_at T p h = Some y" if "ancestor_at T q h = Some y" for h y
    proof -
      have "0 \<le> h" "h \<le> chain_Height c" using rng [OF that] q(3) by auto
      then show ?thesis using eq [of h] that by simp
    qed
    have "highest_common T c p r"
    proof (cases r)
      case None
      then have "\<not> chain_Contains T c y" if "ancestor_at T q h = Some y" for h y
        using hq that unfolding highest_common_def by simp
      then have "\<not> chain_Contains T c y" if "ancestor_at T p h = Some y" for h y
        using conv [OF that] by metis
      then show ?thesis unfolding highest_common_def None option.case by metis
    next
      case (Some y)
      then obtain g where g: "chain_Contains T c y" "ancestor_at T q g = Some y"
        "\<And>h z. g < h \<Longrightarrow> ancestor_at T q h = Some z \<Longrightarrow> \<not> chain_Contains T c z"
        using hq unfolding highest_common_def by auto
      have "\<not> chain_Contains T c z" if "g < h" "ancestor_at T p h = Some z" for h z
        using g(3) [OF that(1)] conv [OF that(2)] by metis
      then show ?thesis using g(1) bwd [OF g(2)] unfolding highest_common_def Some option.case by metis
    qed
    then show ?thesis using ff by simp
  qed
qed

section \<open>Median time past\<close>

definition nMedianTimeSpan :: nat where
  "nMedianTimeSpan = 11"

definition GetBlockTime :: "CBlockIndex \<Rightarrow> int" where
  "GetBlockTime b = uint (nTime b)"

fun median_times :: "btree \<Rightarrow> nat \<Rightarrow> ptr option \<Rightarrow> int list" where
  "median_times T 0 p = []"
| "median_times T (Suc i) None = []"
| "median_times T (Suc i) (Some p) = GetBlockTime (obj T p) # median_times T i (pprev (obj T p))"

definition GetMedianTimePast :: "btree \<Rightarrow> ptr \<Rightarrow> int" where
  "GetMedianTimePast T p =
     (let pmedian = sort (median_times T nMedianTimeSpan (Some p))
      in pmedian ! (length pmedian div 2))"

lemma median_times_nonempty: "median_times T nMedianTimeSpan (Some p) \<noteq> []"
  by (simp add: nMedianTimeSpan_def eval_nat_numeral)

text \<open>The median is one of the last eleven block times, with at most half of them on either
  side of it.\<close>

lemma sorted_median:
  assumes "sorted xs" "xs \<noteq> []"
  defines "m \<equiv> xs ! (length xs div 2)"
  shows "m \<in> set xs" "2 * length (filter (\<lambda>t. t < m) xs) \<le> length xs"
    "2 * length (filter (\<lambda>t. t > m) xs) \<le> length xs"
proof -
  let ?k = "length xs div 2"
  have k: "?k < length xs" using assms(2) by (simp add: div_less_dividend)
  then show "m \<in> set xs" by (simp add: m_def)
  have lo: "filter (\<lambda>t. t < m) (drop ?k xs) = []"
    using assms(1) k by (auto simp: filter_empty_conv in_set_conv_nth m_def not_less
        intro!: sorted_nth_mono)
  have "length (filter (\<lambda>t. t < m) (take ?k xs)) \<le> ?k"
    by (rule order_trans [OF length_filter_le]) simp
  moreover have "filter (\<lambda>t. t < m) xs = filter (\<lambda>t. t < m) (take ?k xs)"
    using lo by (metis append_Nil2 append_take_drop_id filter_append)
  ultimately show "2 * length (filter (\<lambda>t. t < m) xs) \<le> length xs" by simp
  have hi: "filter (\<lambda>t. t > m) (take (Suc ?k) xs) = []"
    using assms(1) k by (auto simp: filter_empty_conv in_set_conv_nth m_def not_less
        intro!: sorted_nth_mono)
  have "length (filter (\<lambda>t. t > m) (drop (Suc ?k) xs)) \<le> length xs - Suc ?k"
    by (rule order_trans [OF length_filter_le]) simp
  moreover have "filter (\<lambda>t. t > m) xs = filter (\<lambda>t. t > m) (drop (Suc ?k) xs)"
    using hi by (metis append_Nil append_take_drop_id filter_append)
  ultimately show "2 * length (filter (\<lambda>t. t > m) xs) \<le> length xs" by simp
qed

lemma GetMedianTimePast_median:
  fixes T p
  defines "ts \<equiv> median_times T nMedianTimeSpan (Some p)" and "m \<equiv> GetMedianTimePast T p"
  shows "m \<in> set ts" "2 * length (filter (\<lambda>t. t < m) ts) \<le> length ts"
    "2 * length (filter (\<lambda>t. t > m) ts) \<le> length ts"
proof -
  have m: "m = sort ts ! (length (sort ts) div 2)"
    by (simp add: m_def ts_def GetMedianTimePast_def Let_def)
  have ne: "sort ts \<noteq> []" using median_times_nonempty [of T p] unfolding ts_def
    by (metis length_0_conv length_sort)
  have fl: "length (filter P (sort ts)) = length (filter P ts)" for P
    by (metis filter_sort length_sort)
  have st: "set (sort ts) = set ts" by (rule set_sort)
  show "m \<in> set ts" "2 * length (filter (\<lambda>t. t < m) ts) \<le> length ts"
    "2 * length (filter (\<lambda>t. t > m) ts) \<le> length ts"
    using sorted_median [OF sorted_sort ne] unfolding m fl st length_sort by -
qed

section \<open>Validity levels\<close>

definition BLOCK_VALID_TREE :: u32 where "BLOCK_VALID_TREE = 2"
definition BLOCK_VALID_MASK :: u32 where "BLOCK_VALID_MASK = 1 OR 2 OR 3 OR 4 OR 5"
definition BLOCK_FAILED_MASK :: u32 where "BLOCK_FAILED_MASK = 32 OR 64"

definition IsValid :: "CBlockIndex \<Rightarrow> u32 \<Rightarrow> fault + bool" where
  "IsValid b nUpTo =
     (if nUpTo AND NOT BLOCK_VALID_MASK \<noteq> 0 then Inl AssertFailed
      else if nStatus b AND BLOCK_FAILED_MASK \<noteq> 0 then Inr False
      else Inr (nStatus b AND BLOCK_VALID_MASK \<ge> nUpTo))"

definition RaiseValidity :: "CBlockIndex \<Rightarrow> u32 \<Rightarrow> fault + CBlockIndex \<times> bool" where
  "RaiseValidity b nUpTo =
     (if nUpTo AND NOT BLOCK_VALID_MASK \<noteq> 0 then Inl AssertFailed
      else if nStatus b AND BLOCK_FAILED_MASK \<noteq> 0 then Inr (b, False)
      else if nStatus b AND BLOCK_VALID_MASK < nUpTo
      then Inr (b\<lparr>nStatus := (nStatus b AND NOT BLOCK_VALID_MASK) OR nUpTo\<rparr>, True)
      else Inr (b, False))"

lemma and_not_zeroD: "n AND NOT v = 0 \<Longrightarrow> bit n i \<Longrightarrow> bit v i" for n v :: "'a::len word"
  using bit_imp_le_length [of n i] bit_and_iff [of n "NOT v" i] by (auto simp: bit_not_iff)

lemma BLOCK_masks_disjoint: "bit BLOCK_VALID_MASK i \<Longrightarrow> \<not> bit BLOCK_FAILED_MASK i"
proof -
  have "BLOCK_VALID_MASK AND BLOCK_FAILED_MASK = 0"
    by (simp add: BLOCK_VALID_MASK_def BLOCK_FAILED_MASK_def)
  then show "bit BLOCK_VALID_MASK i \<Longrightarrow> \<not> bit BLOCK_FAILED_MASK i"
    by (metis bit_0_eq bit_and_iff bot_apply bot_bool_def)
qed

lemma RaiseValidity_valid:
  assumes r: "RaiseValidity b n = Inr (b', changed)" and ok: "nStatus b AND BLOCK_FAILED_MASK = 0"
  shows "IsValid b' n = Inr True \<and> nStatus b' AND NOT BLOCK_VALID_MASK = nStatus b AND NOT BLOCK_VALID_MASK"
proof -
  have n: "n AND NOT BLOCK_VALID_MASK = 0" using r by (auto simp: RaiseValidity_def split: if_splits)
  note nb = and_not_zeroD [OF n]
  let ?s = "nStatus b AND NOT BLOCK_VALID_MASK OR n"
  have "?s AND BLOCK_VALID_MASK = n" "?s AND NOT BLOCK_VALID_MASK = nStatus b AND NOT BLOCK_VALID_MASK"
    by (rule bit_word_eqI, use nb in \<open>auto simp: bit_simps\<close>)+
  moreover have "bit (nStatus b) i \<Longrightarrow> \<not> bit BLOCK_FAILED_MASK i" for i
    using ok by (metis bit_0_eq bit_and_iff bot_apply bot_bool_def)
  then have "?s AND BLOCK_FAILED_MASK = 0"
    by (intro bit_word_eqI) (use nb BLOCK_masks_disjoint in \<open>auto simp: bit_simps\<close>)
  ultimately show ?thesis
    using r ok n unfolding RaiseValidity_def IsValid_def by (auto simp: not_less split: if_splits)
qed

section \<open>A straight chain\<close>

text \<open>The tree with one block per height below \<open>n\<close>, for concrete instances.\<close>

definition line_tree :: "nat \<Rightarrow> (nat \<Rightarrow> CBlockIndex) \<Rightarrow> btree" where
  "line_tree n b =
     \<lparr>obj = (\<lambda>p. (b p)\<lparr>pprev := (if p = 0 then None else Some (p - 1)), pskip := None, nHeight := int p\<rparr>),
      known = {..<n}\<rparr>"

lemma line_tree_wf: "btree_wf (line_tree n b)"
  by (auto simp: btree_wf_def linked_def skip_ok_def line_tree_def split: if_splits)

lemma line_tree_sel [simp]:
  "known (line_tree n b) = {..<n}" "nHeight (obj (line_tree n b) p) = int p"
  "pprev (obj (line_tree n b) p) = (if p = 0 then None else Some (p - 1))"
  "nTime (obj (line_tree n b) p) = nTime (b p)" "nBits (obj (line_tree n b) p) = nBits (b p)"
  "nChainWork (obj (line_tree n b) p) = nChainWork (b p)"
  by (simp_all add: line_tree_def)

section \<open>Properties\<close>

text \<open>C17: the skip-list search \<open>GetAncestor\<close> never fails an assertion and returns the
  block reached by following \<open>pprev\<close> down to the height, for every block of a well-formed
  tree and every height.\<close>

theorem GetAncestor_finds_ancestor:
  assumes "btree_wf T" "p \<in> known T"
  shows "GetAncestor T p h = Inr (ancestor_at T p h)"
  by (rule GetAncestor_correct [OF assms])

theorem GetAncestor_finds_ancestor_witness: "GetAncestor (line_tree 5 (\<lambda>_. CBlockIndex_null)) 4 2 = Inr (Some 2)"
proof -
  have "4 \<in> known (line_tree 5 (\<lambda>_. CBlockIndex_null))" by simp
  from GetAncestor_finds_ancestor [OF line_tree_wf this, of 2] show ?thesis
    by (simp add: ancestor_at_def eval_nat_numeral)
qed

text \<open>Linking a new block into a well-formed tree, with its height and its skip pointer,
  succeeds and keeps the tree well-formed and every old block as it was.\<close>

theorem linking_keeps_tree:
  assumes "btree_wf T" "p \<notin> known T" "\<And>q. prev = Some q \<Longrightarrow> q \<in> known T"
  shows "\<exists>T'. link_block T p b prev = Inr T' \<and> btree_wf T' \<and> known T' = insert p (known T) \<and>
    (\<forall>q. q \<noteq> p \<longrightarrow> obj T' q = obj T q) \<and> pprev (obj T' p) = prev"
  by (rule link_block_wf [OF assms])

theorem linking_keeps_tree_witness:
  "\<exists>T'. link_block (line_tree 3 (\<lambda>_. CBlockIndex_null)) 7 CBlockIndex_null (Some 2) = Inr T' \<and> btree_wf T'"
proof -
  have "7 \<notin> known (line_tree 3 (\<lambda>_. CBlockIndex_null))" by simp
  moreover have "Some 2 = Some q \<Longrightarrow> q \<in> known (line_tree 3 (\<lambda>_. CBlockIndex_null))" for q by simp
  ultimately show ?thesis using linking_keeps_tree [OF line_tree_wf, of 7 3 "\<lambda>_. CBlockIndex_null" "Some 2" CBlockIndex_null] by blast
qed

text \<open>\<open>SetTip\<close> makes the chain hold, at each height, the new tip's ancestor at
  that height, although it stops rewriting at the first entry that already agrees.\<close>

theorem SetTip_follows_tip:
  assumes "btree_wf T" "chain_wf T c" "p \<in> known T"
  shows "chain_wf T (chain_SetTip T c (Some p)) \<and> chain_Height (chain_SetTip T c (Some p)) = nHeight (obj T p) \<and>
    (\<forall>h. chain_at (chain_SetTip T c (Some p)) h = ancestor_at T p h)"
  by (rule chain_SetTip_correct [OF assms])

theorem SetTip_follows_tip_witness:
  "chain_at (chain_SetTip (line_tree 5 (\<lambda>_. CBlockIndex_null)) \<lparr>vChain = []\<rparr> (Some 4)) 3 = Some 3"
proof -
  have "chain_wf (line_tree 5 (\<lambda>_. CBlockIndex_null)) \<lparr>vChain = []\<rparr>" "4 \<in> known (line_tree 5 (\<lambda>_. CBlockIndex_null))" by (simp_all add: chain_wf_def)
  from SetTip_follows_tip [OF line_tree_wf this] show ?thesis by (simp add: ancestor_at_def)
qed

text \<open>\<open>FindFork\<close> returns the highest ancestor of a block that is in the chain, and
  NULL only when no ancestor is.\<close>

theorem FindFork_highest_common:
  assumes "btree_wf T" "p \<in> known T"
  shows "\<exists>r. chain_FindFork T c (Some p) = Inr r \<and> highest_common T c p r"
  by (rule chain_FindFork_correct [OF assms])

theorem FindFork_highest_common_witness:
  "\<exists>r. chain_FindFork (line_tree 3 (\<lambda>_. CBlockIndex_null)) \<lparr>vChain = [Some 0, Some 1]\<rparr> (Some 2) = Inr r \<and>
     highest_common (line_tree 3 (\<lambda>_. CBlockIndex_null)) \<lparr>vChain = [Some 0, Some 1]\<rparr> 2 r"
proof -
  have "2 \<in> known (line_tree 3 (\<lambda>_. CBlockIndex_null))" by simp
  from FindFork_highest_common [OF line_tree_wf this] show ?thesis by blast
qed

text \<open>The median time past is the time of one of the last eleven blocks, and at most half
  of their times are below it and at most half above.\<close>

theorem median_time_is_median:
  "GetMedianTimePast T p \<in> set (median_times T nMedianTimeSpan (Some p)) \<and>
   2 * length (filter (\<lambda>t. t < GetMedianTimePast T p) (median_times T nMedianTimeSpan (Some p)))
     \<le> length (median_times T nMedianTimeSpan (Some p)) \<and>
   2 * length (filter (\<lambda>t. t > GetMedianTimePast T p) (median_times T nMedianTimeSpan (Some p)))
     \<le> length (median_times T nMedianTimeSpan (Some p))"
  using GetMedianTimePast_median by blast

end
