(* ===== verification/Serialize.thy ===== *)
theory Serialize
  imports Prelude
begin

text \<open>
  Byte streams and the integer encodings of \<open>crypto/common.h\<close> and
  \<open>serialize.h\<close>: fixed-width little-endian integers, the compact size prefix,
  vectors and the base-128 variable-length integers.  A stream is the list of the bytes still to be read; a read
  past the end and a refused encoding are errors, as the exceptions of the code are.  The
  \<open>codec\<close> locale is the contract between a writer and a reader; every encoding of the
  development interprets it.
\<close>

section \<open>Streams\<close>

datatype ser_error = EndOfData | NonCanonical | SizeTooLarge

type_synonym 'a reader = "bytes \<Rightarrow> ser_error + 'a \<times> bytes"

definition stream_read :: "nat \<Rightarrow> bytes reader" where
  "stream_read n s = (if length s < n then Inl EndOfData else Inr (take n s, drop n s))"

definition read_then :: "'a reader \<Rightarrow> ('a \<Rightarrow> 'b reader) \<Rightarrow> 'b reader" where
  "read_then r f s = (case r s of Inl e \<Rightarrow> Inl e | Inr (x, s') \<Rightarrow> f x s')"

definition read_return :: "'a \<Rightarrow> 'a reader" where
  "read_return x s = Inr (x, s)"

definition read_fail :: "ser_error \<Rightarrow> 'a reader" where
  "read_fail e s = Inl e"

lemma read_then_Inr [simp]: "r s = Inr (x, s') \<Longrightarrow> read_then r f s = f x s'"
  by (simp add: read_then_def)

lemma read_then_Inl [simp]: "r s = Inl e \<Longrightarrow> read_then r f s = Inl e"
  by (simp add: read_then_def)

lemma read_then_Inr_iff:
  "read_then r f s = Inr (y, t) \<longleftrightarrow> (\<exists>x s'. r s = Inr (x, s') \<and> f x s' = Inr (y, t))"
  by (auto simp: read_then_def split: sum.splits)

section \<open>The contract of an encoding\<close>

locale codec =
  fixes enc :: "'a \<Rightarrow> bytes"
    and dec :: "'a reader"
    and ok :: "'a \<Rightarrow> bool"
  assumes dec_enc: "ok x \<Longrightarrow> dec (enc x @ rest) = Inr (x, rest)"
begin

lemma enc_prefix_free: "ok x \<Longrightarrow> ok y \<Longrightarrow> enc x @ r = enc y @ s \<Longrightarrow> x = y \<and> r = s"
  by (metis dec_enc Pair_inject sum.inject(2))

lemma enc_inj: "ok x \<Longrightarrow> ok y \<Longrightarrow> enc x = enc y \<Longrightarrow> x = y"
  by (metis enc_prefix_free)

end

locale canonical_codec = codec +
  assumes enc_dec: "dec bs = Inr (x, rest) \<Longrightarrow> bs = enc x @ rest \<and> ok x"
begin

lemma dec_iff: "dec bs = Inr (x, rest) \<longleftrightarrow> bs = enc x @ rest \<and> ok x"
  using enc_dec dec_enc by blast

end

section \<open>Fixed-width integers\<close>

definition le_write :: "nat \<Rightarrow> 'a::len word \<Rightarrow> bytes" where
  "le_write n x = map (\<lambda>i. ucast (drop_bit (8 * i) x)) [0..<n]"

fun le_read :: "bytes \<Rightarrow> 'a::len word" where
  "le_read [] = 0"
| "le_read (b # bs) = ucast b OR push_bit 8 (le_read bs)"

definition WriteLE16 :: "u16 \<Rightarrow> bytes" where "WriteLE16 x = le_write 2 x"
definition WriteLE32 :: "u32 \<Rightarrow> bytes" where "WriteLE32 x = le_write 4 x"
definition WriteLE64 :: "u64 \<Rightarrow> bytes" where "WriteLE64 x = le_write 8 x"
definition ReadLE16 :: "bytes \<Rightarrow> u16" where "ReadLE16 p = le_read (take 2 p)"
definition ReadLE32 :: "bytes \<Rightarrow> u32" where "ReadLE32 p = le_read (take 4 p)"
definition ReadLE64 :: "bytes \<Rightarrow> u64" where "ReadLE64 p = le_read (take 8 p)"
definition WriteBE32 :: "u32 \<Rightarrow> bytes" where "WriteBE32 x = rev (le_write 4 x)"
definition WriteBE64 :: "u64 \<Rightarrow> bytes" where "WriteBE64 x = rev (le_write 8 x)"
definition ReadBE32 :: "bytes \<Rightarrow> u32" where "ReadBE32 p = le_read (rev (take 4 p))"
definition ReadBE64 :: "bytes \<Rightarrow> u64" where "ReadBE64 p = le_read (rev (take 8 p))"

definition ser_writedata8 :: "u8 \<Rightarrow> bytes" where "ser_writedata8 x = [x]"
definition ser_writedata16 :: "u16 \<Rightarrow> bytes" where "ser_writedata16 x = WriteLE16 x"
definition ser_writedata32 :: "u32 \<Rightarrow> bytes" where "ser_writedata32 x = WriteLE32 x"
definition ser_writedata64 :: "u64 \<Rightarrow> bytes" where "ser_writedata64 x = WriteLE64 x"

definition ser_readdata8 :: "u8 reader" where
  "ser_readdata8 = read_then (stream_read 1) (\<lambda>b. read_return (hd b))"

definition ser_readdata16 :: "u16 reader" where
  "ser_readdata16 = read_then (stream_read 2) (\<lambda>b. read_return (ReadLE16 b))"

definition ser_readdata32 :: "u32 reader" where
  "ser_readdata32 = read_then (stream_read 4) (\<lambda>b. read_return (ReadLE32 b))"

definition ser_readdata64 :: "u64 reader" where
  "ser_readdata64 = read_then (stream_read 8) (\<lambda>b. read_return (ReadLE64 b))"

lemma length_le_write [simp]: "length (le_write n x) = n"
  by (simp add: le_write_def)

lemma le_write_Suc: "le_write (Suc n) x = ucast x # le_write n (drop_bit 8 x)"
proof -
  have "[0..<Suc n] = 0 # map Suc [0..<n]" by (simp only: map_Suc_upt upt_conv_Cons)
  then show ?thesis by (simp add: le_write_def drop_bit_drop_bit o_def add.commute del: upt_Suc)
qed

lemma le_read_le_write: "le_read (le_write n x) = take_bit (8 * n) x" for x :: "'a::len word"
proof (induction n arbitrary: x)
  case 0
  then show ?case by (simp add: le_write_def)
next
  case (Suc n)
  show ?case
    unfolding le_write_Suc le_read.simps Suc.IH
    by (rule bit_word_eqI) (auto simp: bit_simps)
qed

lemma le_write_le_read:
  "8 * length bs \<le> LENGTH('a::len) \<Longrightarrow> le_write (length bs) (le_read bs :: 'a word) = bs"
proof (induction bs)
  case Nil
  then show ?case by (simp add: le_write_def)
next
  case (Cons b bs)
  have hd: "ucast (ucast b OR push_bit 8 (le_read bs :: 'a word)) = b"
    using Cons.prems by (intro bit_word_eqI) (auto simp: bit_simps)
  have lt: "\<not> bit (le_read bs :: 'a word) i" if "8 * length bs \<le> i" for i
  proof -
    have "le_read bs = (le_read (le_write (length bs) (le_read bs :: 'a word)) :: 'a word)"
      using Cons by simp
    then have "le_read bs = take_bit (8 * length bs) (le_read bs :: 'a word)"
      by (simp add: le_read_le_write)
    then show ?thesis using that by (metis bit_take_bit_iff not_le)
  qed
  have "drop_bit 8 (ucast b OR push_bit 8 (le_read bs :: 'a word)) = le_read bs"
    by (intro bit_word_eqI) (use Cons.prems lt in \<open>auto simp: bit_simps dest: bit_imp_le_length\<close>)
  then show ?case using Cons hd by (simp add: le_write_Suc)
qed


section \<open>Fixed-width codecs\<close>

lemma stream_read_append [simp]: "length p = n \<Longrightarrow> stream_read n (p @ rest) = Inr (p, rest)"
  by (simp add: stream_read_def)

lemma stream_read_Inr: "stream_read n s = Inr (p, t) \<Longrightarrow> s = p @ t \<and> length p = n"
  by (auto simp: stream_read_def split: if_splits)

lemma Read_Write_LE [simp]:
  "ReadLE16 (WriteLE16 a) = a" "ReadLE32 (WriteLE32 b) = b" "ReadLE64 (WriteLE64 c) = c"
  "ReadBE32 (WriteBE32 b) = b" "ReadBE64 (WriteBE64 c) = c"
  by (simp_all add: ReadLE16_def ReadLE32_def ReadLE64_def WriteLE16_def WriteLE32_def
      WriteLE64_def ReadBE32_def ReadBE64_def WriteBE32_def WriteBE64_def le_read_le_write take_bit_word_eq_self)

lemma length_Write [simp]:
  "length (WriteLE16 a) = 2" "length (WriteLE32 b) = 4" "length (WriteLE64 c) = 8"
  "length (WriteBE32 b) = 4" "length (WriteBE64 c) = 8"
  by (simp_all add: WriteLE16_def WriteLE32_def WriteLE64_def WriteBE32_def WriteBE64_def)

lemma Write_Read_LE:
  "length p = 2 \<Longrightarrow> WriteLE16 (ReadLE16 p) = p"
  "length p = 4 \<Longrightarrow> WriteLE32 (ReadLE32 p) = p"
  "length p = 8 \<Longrightarrow> WriteLE64 (ReadLE64 p) = p"
  using le_write_le_read [of p, where 'a = 16] le_write_le_read [of p, where 'a = 32]
    le_write_le_read [of p, where 'a = 64]
  by (simp_all add: ReadLE16_def ReadLE32_def ReadLE64_def WriteLE16_def WriteLE32_def WriteLE64_def)

lemmas ser_int_defs =
  ser_writedata8_def ser_writedata16_def ser_writedata32_def ser_writedata64_def
  ser_readdata8_def ser_readdata16_def ser_readdata32_def ser_readdata64_def read_return_def

lemma ser_readdata8_Cons [simp]: "ser_readdata8 (b # bs) = Inr (b, bs)"
  by (simp add: ser_readdata8_def read_then_def stream_read_def read_return_def)

lemma ser_readdata8_Nil [simp]: "ser_readdata8 [] = Inl EndOfData"
  by (simp add: ser_readdata8_def read_then_def stream_read_def)

lemma ser_readdata8_iff: "ser_readdata8 s = Inr (b, t) \<longleftrightarrow> s = b # t"
  by (cases s) auto

interpretation ser8: canonical_codec ser_writedata8 ser_readdata8 "\<lambda>_. True"
  by unfold_locales (auto simp: ser_writedata8_def ser_readdata8_iff)

interpretation ser16: canonical_codec ser_writedata16 ser_readdata16 "\<lambda>_. True"
  by unfold_locales
    (auto simp: ser_int_defs read_then_Inr_iff Write_Read_LE dest!: stream_read_Inr)

interpretation ser32: canonical_codec ser_writedata32 ser_readdata32 "\<lambda>_. True"
  by unfold_locales
    (auto simp: ser_int_defs read_then_Inr_iff Write_Read_LE dest!: stream_read_Inr)

interpretation ser64: canonical_codec ser_writedata64 ser_readdata64 "\<lambda>_. True"
  by unfold_locales
    (auto simp: ser_int_defs read_then_Inr_iff Write_Read_LE dest!: stream_read_Inr)

section \<open>Compact sizes\<close>

definition MAX_SIZE :: u64 where
  "MAX_SIZE = 0x02000000"

definition GetSizeOfCompactSize :: "u64 \<Rightarrow> nat" where
  "GetSizeOfCompactSize nSize =
     (if nSize < 253 then 1 else if nSize \<le> 0xFFFF then 1 + 2
      else if nSize \<le> 0xFFFFFFFF then 1 + 4 else 1 + 8)"

definition WriteCompactSize :: "u64 \<Rightarrow> bytes" where
  "WriteCompactSize nSize =
     (if nSize < 253 then ser_writedata8 (ucast nSize)
      else if nSize \<le> 0xFFFF then ser_writedata8 253 @ ser_writedata16 (ucast nSize)
      else if nSize \<le> 0xFFFFFFFF then ser_writedata8 254 @ ser_writedata32 (ucast nSize)
      else ser_writedata8 255 @ ser_writedata64 nSize)"

definition check_size :: "u64 \<Rightarrow> u64 \<Rightarrow> u64 reader" where
  "check_size least nSizeRet =
     (if nSizeRet < least then read_fail NonCanonical
      else if nSizeRet > MAX_SIZE then read_fail SizeTooLarge
      else read_return nSizeRet)"

definition ReadCompactSize :: "u64 reader" where
  "ReadCompactSize =
     read_then ser_readdata8 (\<lambda>chSize.
       if chSize < 253 then check_size 0 (ucast chSize)
       else if chSize = 253 then read_then ser_readdata16 (\<lambda>n. check_size 253 (ucast n))
       else if chSize = 254 then read_then ser_readdata32 (\<lambda>n. check_size 0x10000 (ucast n))
       else read_then ser_readdata64 (\<lambda>n. check_size 0x100000000 n))"

lemma check_size_Inr: "check_size least n s = Inr (m, t) \<longleftrightarrow> least \<le> n \<and> n \<le> MAX_SIZE \<and> m = n \<and> t = s"
  by (auto simp: check_size_def read_fail_def read_return_def not_less)

lemma length_WriteCompactSize: "length (WriteCompactSize n) = GetSizeOfCompactSize n"
  by (simp add: WriteCompactSize_def GetSizeOfCompactSize_def ser_int_defs)


lemma ucast_narrow: "uint n < 2 ^ LENGTH('b) \<Longrightarrow> ucast (ucast n :: 'b::len word) = (n :: u64)"
  using uint_lt2p [of n]
  by (simp add: word_uint_eq_iff unsigned_ucast_eq unsigned_take_bit_eq take_bit_int_eq_self)

lemma ucast_back:
  "ucast (ucast (a :: u8) :: u64) = a" "ucast (ucast (b :: u16) :: u64) = b"
  "ucast (ucast (c :: u32) :: u64) = c"
  by (rule bit_word_eqI, auto simp: bit_simps)+

lemma ucast_narrow_u64:
  "n < 256 \<Longrightarrow> ucast (ucast n :: u8) = n"
  "n \<le> 0xFFFF \<Longrightarrow> ucast (ucast n :: u16) = n"
  "n \<le> 0xFFFFFFFF \<Longrightarrow> ucast (ucast n :: u32) = n" for n :: u64
  by (simp_all add: ucast_narrow word_less_def word_le_def)

lemma ucast_widen_le:
  "(ucast (a :: u8) :: u64) < 256" "(ucast (b :: u16) :: u64) \<le> 0xFFFF" "(ucast (c :: u32) :: u64) \<le> 0xFFFFFFFF"
  using uint_u8_bound [of a] uint_lt2p [of b] uint_u32_bound [of c]
  by (simp_all add: word_less_def word_le_def unsigned_ucast_eq take_bit_int_eq_self)

lemma ucast_u8_less: "(ucast (a :: u8) :: u64) < 253 \<longleftrightarrow> a < 253"
  using uint_u8_bound [of a] by (simp add: word_less_def unsigned_ucast_eq take_bit_int_eq_self)

interpretation compact_size: canonical_codec WriteCompactSize ReadCompactSize "\<lambda>n. n \<le> MAX_SIZE"
proof unfold_locales
  fix n :: u64 and rest
  assume ok: "n \<le> MAX_SIZE"
  consider "n < 253" | "253 \<le> n" "n \<le> 0xFFFF" | "0xFFFF < n" "n \<le> 0xFFFFFFFF" | "0xFFFFFFFF < n"
    by fastforce
  then show "ReadCompactSize (WriteCompactSize n @ rest) = Inr (n, rest)"
  proof cases
    case 1
    then have u: "ucast (ucast n :: u8) = n" by (intro ucast_narrow_u64) (simp add: word_less_def)
    then have "(ucast n :: u8) < 253" using 1 ucast_u8_less [of "ucast n"] by simp
    then show ?thesis using 1 u ok
      by (simp add: ReadCompactSize_def WriteCompactSize_def ser_writedata8_def check_size_Inr)
  next
    case 2
    then have "\<not> n < 253" by simp
    then show ?thesis using 2 ok ucast_narrow_u64(2) [of n]
      by (simp add: ReadCompactSize_def WriteCompactSize_def ser_writedata8_def ser16.dec_enc check_size_Inr)
  next
    case 3
    then have "\<not> n < 253" "\<not> n \<le> 0xFFFF" "0x10000 \<le> n" by (simp_all add: word_less_def word_le_def)
    then show ?thesis using 3 ok ucast_narrow_u64(3) [of n]
      by (simp add: ReadCompactSize_def WriteCompactSize_def ser_writedata8_def ser32.dec_enc check_size_Inr)
  next
    case 4
    then have False using ok by (simp add: MAX_SIZE_def word_less_def word_le_def)
    then show ?thesis ..
  qed
next
  fix bs n rest
  assume r: "ReadCompactSize bs = Inr (n, rest)"
  then obtain c s where bs: "bs = c # s" by (cases bs) (auto simp: ReadCompactSize_def)
  consider "c < 253" | "c = 253" | "c = 254" | "\<not> c < 253" "c \<noteq> 253" "c \<noteq> 254" by blast
  then show "bs = WriteCompactSize n @ rest \<and> n \<le> MAX_SIZE"
  proof cases
    case 1
    then have n: "n = ucast c" "rest = s" "n \<le> MAX_SIZE" "n < 253"
      using r bs ucast_u8_less [of c] by (auto simp: ReadCompactSize_def check_size_Inr)
    then show ?thesis using bs
      by (simp add: WriteCompactSize_def ser_writedata8_def ucast_back)
  next
    case 2
    then obtain m where m: "ser_readdata16 s = Inr (m, rest)" "253 \<le> n" "n \<le> MAX_SIZE" "n = ucast m"
      using r bs by (auto simp: ReadCompactSize_def check_size_Inr read_then_Inr_iff)
    then have "\<not> n < 253" by simp
    then show ?thesis using bs 2 m ser16.dec_iff [of s m rest] ucast_widen_le(2) [of m]
      by (simp add: WriteCompactSize_def ser_writedata8_def ucast_back)
  next
    case 3
    then obtain m where m: "ser_readdata32 s = Inr (m, rest)" "0x10000 \<le> n" "n \<le> MAX_SIZE" "n = ucast m"
      using r bs by (auto simp: ReadCompactSize_def check_size_Inr read_then_Inr_iff)
    then have "\<not> n < 253" "\<not> n \<le> 0xFFFF" by (auto simp: word_less_def word_le_def)
    then show ?thesis using bs 3 m ser32.dec_iff [of s m rest] ucast_widen_le(3) [of m]
      by (simp add: WriteCompactSize_def ser_writedata8_def ucast_back)
  next
    case 4
    then have "0x100000000 \<le> n \<and> n \<le> MAX_SIZE"
      using r bs by (auto simp: ReadCompactSize_def check_size_Inr read_then_Inr_iff)
    then have False by (auto simp: MAX_SIZE_def word_le_def)
    then show ?thesis ..
  qed
qed


section \<open>Vectors\<close>

text \<open>
  A vector is its compact size and its elements.  The bytes of a \<open>vector<unsigned char>\<close>
  are read in blocks of at most 5000000, so that a bogus size cannot exhaust the memory; other
  elements are read one by one (the same bound on the growth of the vector is not visible in the
  result).
\<close>

definition ser_bytes :: "bytes \<Rightarrow> bytes" where
  "ser_bytes v = WriteCompactSize (of_nat (length v)) @ v"

definition ser_vector :: "('a \<Rightarrow> bytes) \<Rightarrow> 'a list \<Rightarrow> bytes" where
  "ser_vector enc v = WriteCompactSize (of_nat (length v)) @ concat (map enc v)"

definition size_bytes :: "bytes \<Rightarrow> nat" where
  "size_bytes v = GetSizeOfCompactSize (of_nat (length v)) + length v"

definition size_vector :: "('a \<Rightarrow> nat) \<Rightarrow> 'a list \<Rightarrow> nat" where
  "size_vector sz v = GetSizeOfCompactSize (of_nat (length v)) + sum_list (map sz v)"

function read_blocks :: "nat \<Rightarrow> nat \<Rightarrow> bytes \<Rightarrow> bytes reader" where
  \<comment> \<open>the vector so far is \<open>v\<close>, whose length is \<open>i\<close>\<close>
  "read_blocks nSize i v =
     (if i < nSize
      then let blk = min (nSize - i) 5000000
           in read_then (stream_read blk) (\<lambda>p. read_blocks nSize (i + blk) (v @ p))
      else read_return v)"
  by pat_completeness auto
termination by (relation "measure (\<lambda>(nSize, i, v). nSize - i)") auto

declare read_blocks.simps [simp del]

definition unser_bytes :: "bytes reader" where
  "unser_bytes = read_then ReadCompactSize (\<lambda>nSize. read_blocks (unat nSize) 0 [])"

fun read_elems :: "'a reader \<Rightarrow> nat \<Rightarrow> 'a list reader" where
  "read_elems dec 0 = read_return []"
| "read_elems dec (Suc n) = read_then dec (\<lambda>x. read_then (read_elems dec n) (\<lambda>xs. read_return (x # xs)))"

definition unser_vector :: "'a reader \<Rightarrow> 'a list reader" where
  "unser_vector dec = read_then ReadCompactSize (\<lambda>nSize. read_elems dec (unat nSize))"

definition unser_limited_string :: "nat \<Rightarrow> bytes reader" where
  \<comment> \<open>\<open>LimitedString<Limit>::Unserialize\<close>\<close>
  "unser_limited_string limit =
     read_then ReadCompactSize (\<lambda>size.
       if unat size > limit then read_fail SizeTooLarge else stream_read (unat size))"

definition vec_ok :: "'a list \<Rightarrow> bool" where
  "vec_ok v \<longleftrightarrow> length v \<le> 0x02000000"

lemma vec_ok_size: "vec_ok v \<Longrightarrow> (of_nat (length v) :: u64) \<le> MAX_SIZE \<and> unat (of_nat (length v) :: u64) = length v"
  by (simp add: vec_ok_def MAX_SIZE_def word_le_nat_alt unat_of_nat)

lemma size_vec_ok:
  assumes "n \<le> MAX_SIZE" "length v = unat n"
  shows "vec_ok v \<and> (of_nat (length v) :: u64) = n"
  using assms by (simp add: vec_ok_def MAX_SIZE_def word_le_nat_alt)

lemma stream_read_split:
  assumes "a \<le> n"
  shows "stream_read n s = read_then (stream_read a) (\<lambda>p. read_then (stream_read (n - a)) (\<lambda>q. read_return (p @ q))) s"
  using assms by (auto simp: stream_read_def read_then_def read_return_def take_add [symmetric] drop_drop)

text \<open>Reading in blocks is reading at once, also where the stream ends too early.\<close>

lemma read_blocks_is_stream_read:
  "i \<le> nSize \<Longrightarrow> read_blocks nSize i v s = read_then (stream_read (nSize - i)) (\<lambda>p. read_return (v @ p)) s"
proof (induction nSize i v arbitrary: s rule: read_blocks.induct)
  case (1 nSize i v)
  show ?case
  proof (cases "i < nSize")
    case False
    then show ?thesis using "1.prems" by (subst read_blocks.simps) (simp add: stream_read_def read_then_def)
  next
    case True
    define blk where "blk = min (nSize - i) 5000000"
    have b: "blk \<le> nSize - i" "i + blk \<le> nSize" "nSize - i - blk = nSize - (i + blk)"
      using True by (auto simp: blk_def)
    have "read_blocks nSize i v s = read_then (stream_read blk) (\<lambda>p. read_blocks nSize (i + blk) (v @ p)) s"
      using True by (subst read_blocks.simps) (simp add: blk_def Let_def)
    also have "\<dots> = read_then (stream_read blk) (\<lambda>p.
        read_then (stream_read (nSize - (i + blk))) (\<lambda>q. read_return ((v @ p) @ q))) s"
      using "1.IH" [OF True blk_def b(2)] by (simp add: read_then_def split: sum.split)
    finally show ?thesis unfolding stream_read_split [OF b(1)] b(3)
      by (simp add: read_then_def read_return_def stream_read_split [OF b(1)] b(3) split: sum.split)
  qed
qed

lemma unser_bytes_eq: "unser_bytes = read_then ReadCompactSize (\<lambda>n. stream_read (unat n))"
proof -
  have "read_blocks m 0 [] = stream_read m" for m
    by (rule ext) (auto simp: read_blocks_is_stream_read read_then_def read_return_def split: sum.split)
  then show ?thesis by (simp add: unser_bytes_def)
qed

interpretation byte_vector: canonical_codec ser_bytes unser_bytes vec_ok
proof unfold_locales
  fix v :: bytes and rest
  assume "vec_ok v"
  then show "unser_bytes (ser_bytes v @ rest) = Inr (v, rest)"
    using vec_ok_size [of v] by (simp add: unser_bytes_eq ser_bytes_def compact_size.dec_enc)
next
  fix bs :: bytes and v rest
  assume "unser_bytes bs = Inr (v, rest)"
  then obtain n s where n: "bs = WriteCompactSize n @ s" "n \<le> MAX_SIZE" "s = v @ rest" "length v = unat n"
    by (auto simp: unser_bytes_eq read_then_Inr_iff compact_size.dec_iff dest!: stream_read_Inr)
  then show "bs = ser_bytes v @ rest \<and> vec_ok v" using size_vec_ok [of n v] by (simp add: ser_bytes_def)
qed

text \<open>Vectors of encoded elements, for every encoding.\<close>

context codec
begin

lemma read_elems_enc: "list_all ok v \<Longrightarrow> read_elems dec (length v) (concat (map enc v) @ rest) = Inr (v, rest)"
  by (induction v) (simp_all add: read_return_def dec_enc)

lemma unser_vector_ser:
  "vec_ok v \<Longrightarrow> list_all ok v \<Longrightarrow> unser_vector dec (ser_vector enc v @ rest) = Inr (v, rest)"
  using vec_ok_size [of v] read_elems_enc [of v rest]
  by (simp add: unser_vector_def ser_vector_def compact_size.dec_enc)

end

context canonical_codec
begin

lemma read_elems_dec:
  "read_elems dec n s = Inr (v, rest) \<Longrightarrow> length v = n \<and> list_all ok v \<and> s = concat (map enc v) @ rest"
proof (induction n arbitrary: s v)
  case 0
  then show ?case by (simp add: read_return_def)
next
  case (Suc n)
  from Suc.prems obtain x s' xs where d: "dec s = Inr (x, s')" "read_elems dec n s' = Inr (xs, rest)" "v = x # xs"
    by (auto simp: read_then_Inr_iff read_return_def)
  then show ?case using Suc.IH [OF d(2)] enc_dec [OF d(1)] by simp
qed

lemma unser_vector_iff:
  "unser_vector dec bs = Inr (v, rest) \<longleftrightarrow> bs = ser_vector enc v @ rest \<and> vec_ok v \<and> list_all ok v"
proof
  assume "unser_vector dec bs = Inr (v, rest)"
  then obtain n s where n: "bs = WriteCompactSize n @ s" "n \<le> MAX_SIZE" "read_elems dec (unat n) s = Inr (v, rest)"
    by (auto simp: unser_vector_def read_then_Inr_iff compact_size.dec_iff)
  then show "bs = ser_vector enc v @ rest \<and> vec_ok v \<and> list_all ok v"
    using read_elems_dec [OF n(3)] size_vec_ok [of n v] by (simp add: ser_vector_def)
qed (use unser_vector_ser in blast)

end

lemma length_ser_bytes: "length (ser_bytes v) = size_bytes v"
  by (simp add: ser_bytes_def size_bytes_def length_WriteCompactSize)

lemma length_ser_vector: "(\<And>x. length (enc x) = sz x) \<Longrightarrow> length (ser_vector enc v) = size_vector sz v"
  by (simp add: ser_vector_def size_vector_def length_WriteCompactSize length_concat o_def)

section \<open>Variable-length integers\<close>

text \<open>
  \<open>varint_tmp\<close> is the buffer \<open>tmp\<close> of \<open>WriteVarInt\<close> in index order
  (\<open>more\<close> is \<open>len > 0\<close>); the \<open>do\<close> loop then writes it backwards.
\<close>

function varint_tmp :: "bool \<Rightarrow> u64 \<Rightarrow> bytes" where
  "varint_tmp more n =
     ucast ((n AND 0x7F) OR (if more then 0x80 else 0x00)) #
     (if n \<le> 0x7F then [] else varint_tmp True (drop_bit 7 n - 1))"
  by pat_completeness auto

lemma varint_step_less: "\<not> n \<le> 0x7F \<Longrightarrow> uint (drop_bit 7 n - 1) = uint n div 128 - 1 \<and> 128 \<le> uint n"
  for n :: u64
proof -
  assume "\<not> n \<le> 0x7F"
  then have n: "128 \<le> uint n" by (simp add: word_le_def)
  have d: "uint (drop_bit 7 n) = uint n div 128" by (simp add: drop_bit_eq_div uint_div_distrib)
  then have "1 \<le> uint (drop_bit 7 n)" using n by simp
  then have "uint (drop_bit 7 n - 1) = uint (drop_bit 7 n) - 1"
    using uint_sub_lem [of 1 "drop_bit 7 n"] by simp
  then show ?thesis using d n by simp
qed

lemma varint_step_unat: "\<not> n \<le> 0x7F \<Longrightarrow> unat (drop_bit 7 n - 1) < unat n" for n :: u64
proof -
  assume "\<not> n \<le> 0x7F"
  note v = varint_step_less [OF this]
  then have "uint (drop_bit 7 n - 1) < uint n" by linarith
  then show ?thesis by (simp only: word_less_def [symmetric] word_less_nat_alt)
qed

termination varint_tmp
  by (relation "measure (\<lambda>(more, n). unat n)") (simp_all add: varint_step_unat)

declare varint_tmp.simps [simp del]

definition WriteVarInt :: "u64 \<Rightarrow> bytes" where
  "WriteVarInt n = rev (varint_tmp False n)"

fun ReadVarInt_loop :: "u64 \<Rightarrow> u64 reader" where
  "ReadVarInt_loop n [] = Inl EndOfData"
| "ReadVarInt_loop n (chData # s) =
     (let n' = push_bit 7 n OR ucast (chData AND 0x7F)
      in if chData AND 0x80 \<noteq> 0 then ReadVarInt_loop (n' + 1) s else Inr (n', s))"

definition ReadVarInt :: "u64 reader" where
  "ReadVarInt = ReadVarInt_loop 0"

function GetSizeOfVarInt :: "u64 \<Rightarrow> nat" where
  "GetSizeOfVarInt n = Suc (if n \<le> 0x7F then 0 else GetSizeOfVarInt (drop_bit 7 n - 1))"
  by pat_completeness auto
termination GetSizeOfVarInt
  by (relation "measure unat") (simp_all add: varint_step_unat)

declare GetSizeOfVarInt.simps [simp del]

lemma length_varint_tmp: "length (varint_tmp more n) = GetSizeOfVarInt n"
  by (induction more n rule: varint_tmp.induct)
    (simp add: varint_tmp.simps GetSizeOfVarInt.simps)

lemma varint_digit:
  fixes n :: u64
  shows "ucast ((n AND 0x7F) OR (if more then 0x80 else 0x00)) AND (0x7F :: u8) = ucast (n AND 0x7F)"
    and "ucast ((n AND 0x7F) OR (if more then 0x80 else 0x00)) AND (0x80 :: u8) = (if more then 0x80 else 0)"
    and "ucast (ucast (n AND 0x7F) :: u8) = n AND 0x7F"
    and "push_bit 7 (drop_bit 7 n) OR (n AND 0x7F) = n"
    and "n \<le> 0x7F \<Longrightarrow> n AND 0x7F = n"
proof -
  have m: "(0x7F :: u64) = mask 7" "(0x7F :: u8) = mask 7" "(0x80 :: u64) = push_bit 7 1" "(0x80 :: u8) = push_bit 7 1"
    by (simp_all add: mask_eq_exp_minus_1)
  have b: "bit (0x80 :: u64) k \<longleftrightarrow> k = 7" "bit (0x80 :: u8) k \<longleftrightarrow> k = 7"
    "bit (0x80 :: int) k \<longleftrightarrow> k = 7" "bit (0x80 :: nat) k \<longleftrightarrow> k = 7" for k
    using bit_exp_iff [of 7 k, where 'a = "64 word"] bit_exp_iff [of 7 k, where 'a = "8 word"]
      bit_exp_iff [of 7 k, where 'a = int] bit_exp_iff [of 7 k, where 'a = nat]
    by (auto simp: possible_bit_def)
  show "ucast ((n AND 0x7F) OR (if more then 0x80 else 0x00)) AND (0x7F :: u8) = ucast (n AND 0x7F)"
    unfolding m by (cases more; intro bit_word_eqI) (auto simp: bit_simps b)
  show "ucast ((n AND 0x7F) OR (if more then 0x80 else 0x00)) AND (0x80 :: u8) = (if more then 0x80 else 0)"
    unfolding m by (cases more; intro bit_word_eqI) (auto simp: bit_simps b)
  show "ucast (ucast (n AND 0x7F) :: u8) = n AND 0x7F"
    unfolding m by (intro bit_word_eqI) (auto simp: bit_simps)
  show "push_bit 7 (drop_bit 7 n) OR (n AND 0x7F) = n"
    unfolding m by (intro bit_word_eqI) (auto simp: bit_simps)
  assume "n \<le> 0x7F"
  then have "uint n < 2 ^ 7" by (simp add: word_le_def)
  then have "take_bit 7 n = n"
    by (simp only: word_uint_eq_iff unsigned_take_bit_eq) (simp add: take_bit_int_eq_self)
  then show "n AND 0x7F = n" unfolding m by (simp only: take_bit_eq_mask)
qed


lemma ReadVarInt_loop_last:
  assumes le: "n \<le> 0x7F"
  shows "ReadVarInt_loop 0 (varint_tmp False n @ s) = Inr (n, s)"
proof -
  have n: "n AND 0x7F = n" "ucast (ucast n :: u8) = n"
    using varint_digit(5) [OF le] varint_digit(3) [of n] by simp_all
  have "varint_tmp False n = [ucast n]" using le n by (simp add: varint_tmp.simps [of False n])
  then show ?thesis using varint_digit(1,2) [of n False] n by (simp add: Let_def)
qed

lemma ReadVarInt_loop_more:
  "ReadVarInt_loop 0 (rev (varint_tmp True n) @ s) = ReadVarInt_loop (n + 1) s"
proof (induction True n arbitrary: s rule: varint_tmp.induct)
  case (1 n)
  define d where "d = (ucast ((n AND 0x7F) OR 0x80) :: u8)"
  have d: "d AND 0x7F = ucast (n AND 0x7F)" "d AND 0x80 = 0x80"
    using varint_digit(1,2) [of n True] by (simp_all add: d_def)
  show ?case
  proof (cases "n \<le> 0x7F")
    case True
    then have "varint_tmp True n = [d]" by (simp add: varint_tmp.simps [of True n] d_def)
    then show ?thesis using d varint_digit(3) [of n] varint_digit(5) [OF True] by (simp add: Let_def)
  next
    case False
    then have "rev (varint_tmp True n) @ s = rev (varint_tmp True (drop_bit 7 n - 1)) @ d # s"
      by (simp add: varint_tmp.simps [of True n] d_def)
    then have "ReadVarInt_loop 0 (rev (varint_tmp True n) @ s) = ReadVarInt_loop (drop_bit 7 n) (d # s)"
      using "1.hyps" [OF False] by simp
    then show ?thesis using d by (simp add: Let_def varint_digit)
  qed
qed

lemma ReadVarInt_WriteVarInt: "ReadVarInt (WriteVarInt n @ s) = Inr (n, s)"
proof (cases "n \<le> 0x7F")
  case True
  then have "rev (varint_tmp False n) = varint_tmp False n" by (simp add: varint_tmp.simps)
  then show ?thesis using ReadVarInt_loop_last [OF True]
    by (simp add: ReadVarInt_def WriteVarInt_def)
next
  case False
  define d where "d = (ucast (n AND 0x7F) :: u8)"
  have d: "d AND 0x7F = ucast (n AND 0x7F)" "d AND 0x80 = 0"
    using varint_digit(1,2) [of n False] by (simp_all add: d_def)
  have "WriteVarInt n @ s = rev (varint_tmp True (drop_bit 7 n - 1)) @ d # s"
    using False by (simp add: WriteVarInt_def varint_tmp.simps [of False n] d_def)
  then have "ReadVarInt (WriteVarInt n @ s) = ReadVarInt_loop (drop_bit 7 n) (d # s)"
    by (simp add: ReadVarInt_def ReadVarInt_loop_more)
  then show ?thesis using d by (simp add: Let_def varint_digit)
qed

interpretation varint: codec WriteVarInt ReadVarInt "\<lambda>_. True"
  by unfold_locales (rule ReadVarInt_WriteVarInt)

text \<open>The size function agrees with the writer, and the writer never overruns its
  \<open>(64 + 6) / 7 = 10\<close> byte buffer.\<close>

lemma length_WriteVarInt: "length (WriteVarInt n) = GetSizeOfVarInt n"
  by (simp add: WriteVarInt_def length_varint_tmp)

lemma varint_size_bound: "uint n < 128 ^ k \<Longrightarrow> 0 < k \<Longrightarrow> GetSizeOfVarInt n \<le> k"
proof (induction n arbitrary: k rule: GetSizeOfVarInt.induct)
  case (1 n)
  show ?case
  proof (cases "n \<le> 0x7F")
    case True
    then show ?thesis using "1.prems" by (simp add: GetSizeOfVarInt.simps [of n])
  next
    case False
    note v = varint_step_less [OF False]
    obtain j where k: "k = Suc j" using "1.prems" by (cases k) auto
    have "0 < j" using "1.prems"(1) v unfolding k by (cases j) auto
    moreover have "128 * (uint n div 128) \<le> uint n" by simp
    then have "uint n div 128 < 128 ^ j" using "1.prems"(1) unfolding k power_Suc by linarith
    ultimately have "GetSizeOfVarInt (drop_bit 7 n - 1) \<le> j"
      using v by (intro "1.IH" [OF False]) simp_all
    then show ?thesis using False k by (simp add: GetSizeOfVarInt.simps [of n])
  qed
qed

lemma WriteVarInt_fits_buffer: "length (WriteVarInt n) \<le> (64 + 6) div 7"
  unfolding length_WriteVarInt
  using uint_u64_bound [of n] by (intro varint_size_bound) simp_all

section \<open>Properties\<close>

text \<open>The compact size reader accepts exactly the canonical encodings of the sizes up to
  \<open>MAX_SIZE\<close>: every other prefix of a stream is refused.\<close>

theorem compact_size_canonical:
  "ReadCompactSize bs = Inr (n, rest) \<longleftrightarrow> bs = WriteCompactSize n @ rest \<and> n \<le> MAX_SIZE"
  by (rule compact_size.dec_iff)

text \<open>Every 64-bit value survives the variable-length encoding, whose length is the size
  the serializer announces and fits its buffer.\<close>

theorem varint_roundtrip:
  "ReadVarInt (WriteVarInt n @ s) = Inr (n, s) \<and> length (WriteVarInt n) = GetSizeOfVarInt n \<and>
   length (WriteVarInt n) \<le> (64 + 6) div 7"
  using ReadVarInt_WriteVarInt length_WriteVarInt WriteVarInt_fits_buffer by blast

end
