(* ===== verification/Uint256.thy ===== *)
theory Uint256
  imports ArithUint256 Serialize
begin

text \<open>
  The opaque 256-bit blobs of \<open>uint256.h\<close> and \<open>uint256.cpp\<close>: byte order
  comparison, hexadecimal printing and parsing, the nibble access the hash selection uses, the
  salted hash, and the conversions to and from \<open>arith_uint256\<close> (arith_uint256.cpp).
  A blob is its \<open>data\<close> array, 32 bytes, least significant first.
\<close>

section \<open>The blob\<close>

definition blob_ok :: "uint256 \<Rightarrow> bool" where
  "blob_ok a \<longleftrightarrow> length a = 32"

definition blob_IsNull :: "uint256 \<Rightarrow> bool" where
  "blob_IsNull a \<longleftrightarrow> list_all (\<lambda>b. b = 0) a"

definition blob_null :: uint256 where
  "blob_null = replicate 32 0"

fun memcmp :: "bytes \<Rightarrow> bytes \<Rightarrow> int" where
  "memcmp (x # xs) (y # ys) = (if x = y then memcmp xs ys else uint x - uint y)"
| "memcmp _ _ = 0"

definition blob_less :: "uint256 \<Rightarrow> uint256 \<Rightarrow> bool" where
  "blob_less a b \<longleftrightarrow> memcmp a b < 0"

definition GetNibble :: "uint256 \<Rightarrow> int \<Rightarrow> u8" where
  "GetNibble a index0 =
     (let index = 63 - index0
      in if index mod 2 = 1 then drop_bit 4 (a ! nat (index div 2))
         else (a ! nat (index div 2)) AND 0x0F)"

definition GetUint64 :: "uint256 \<Rightarrow> nat \<Rightarrow> u64" where
  "GetUint64 a pos =
     (let p = drop (pos * 8) a
      in ucast (p ! 0) OR push_bit 8 (ucast (p ! 1)) OR push_bit 16 (ucast (p ! 2)) OR
         push_bit 24 (ucast (p ! 3)) OR push_bit 32 (ucast (p ! 4)) OR push_bit 40 (ucast (p ! 5)) OR
         push_bit 48 (ucast (p ! 6)) OR push_bit 56 (ucast (p ! 7)))"

definition GetCheapHash :: "uint256 \<Rightarrow> u64" where
  "GetCheapHash a = ReadLE64 a"

definition trim256 :: "bytes \<Rightarrow> uint256" where
  "trim256 a = take 32 a"

section \<open>Hexadecimal\<close>

definition HexDigit :: "char \<Rightarrow> int" where
  "HexDigit c =
     (let n = (of_char c :: int)
      in if 48 \<le> n \<and> n \<le> 57 then n - 48
         else if 65 \<le> n \<and> n \<le> 70 then n - 55
         else if 97 \<le> n \<and> n \<le> 102 then n - 87
         else - 1)"

definition hex_char :: "u8 \<Rightarrow> char" where
  "hex_char d = ''0123456789abcdef'' ! unat d"

definition hex_byte :: "u8 \<Rightarrow> string" where
  \<comment> \<open>\<open>sprintf\<close> with \<open>%02x\<close>\<close>
  "hex_byte b = [hex_char (drop_bit 4 b), hex_char (b AND 0x0F)]"

definition GetHex :: "bytes \<Rightarrow> string" where
  "GetHex a = concat (map hex_byte (rev a))"

definition isspace :: "char \<Rightarrow> bool" where
  "isspace c \<longleftrightarrow> (let n = (of_char c :: int) in n = 32 \<or> (9 \<le> n \<and> n \<le> 13))"

fun skip_0x :: "string \<Rightarrow> string" where
  "skip_0x (a # b # s) = (if a = CHR ''0'' \<and> (b = CHR ''x'' \<or> b = CHR ''X'') then s else a # b # s)"
| "skip_0x s = s"

fun sethex_loop :: "string \<Rightarrow> nat \<Rightarrow> bytes" where
  \<comment> \<open>the digits from the last one back, and the number of bytes left; the rest of \<open>data\<close>
    stays zero\<close>
  "sethex_loop _ 0 = []"
| "sethex_loop [] (Suc n) = replicate (Suc n) 0"
| "sethex_loop [c] (Suc n) = word_of_int (HexDigit c) # replicate n 0"
| "sethex_loop (c # d # cs) (Suc n) =
     (word_of_int (HexDigit c) OR push_bit 4 (word_of_int (HexDigit d))) # sethex_loop cs n"

definition SetHex :: "nat \<Rightarrow> string \<Rightarrow> bytes" where
  "SetHex width psz =
     (let digits = takeWhile (\<lambda>c. HexDigit c \<noteq> - 1) (skip_0x (dropWhile isspace psz))
      in sethex_loop (rev digits) width)"

definition uint256S :: "string \<Rightarrow> uint256" where
  "uint256S str = SetHex 32 str"

lemma nibble_bounds: "unat (drop_bit 4 (b :: u8)) < 16" "unat (b AND 0x0F :: u8) < 16"
proof -
  have "unat (drop_bit 4 b) = unat b div 16" by (simp add: drop_bit_eq_div unat_div_distrib)
  then show "unat (drop_bit 4 b) < 16" using unat_u8_bound [of b] by simp
  have "b AND 0x0F = take_bit 4 b" by (simp add: take_bit_eq_mask mask_numeral)
  then have "unat (b AND 0x0F) = unat b mod 16" by (simp add: take_bit_eq_mod unat_mod_distrib)
  then show "unat (b AND 0x0F :: u8) < 16" by simp
qed

lemma nibble_join: "(b AND 0x0F) OR push_bit 4 (drop_bit 4 b) = (b :: u8)"
proof -
  have "b AND 0x0F = take_bit 4 b" by (simp add: take_bit_eq_mask mask_numeral)
  then have "(b AND 0x0F) OR push_bit 4 (drop_bit 4 b) = take_bit 4 b OR push_bit 4 (drop_bit 4 b)"
    by (simp only:)
  also have "\<dots> = b"
  proof (rule bit_word_eqI)
    fix n
    assume "n < LENGTH(8)"
    then show "bit (take_bit 4 b OR push_bit 4 (drop_bit 4 b)) n \<longleftrightarrow> bit b n"
      by (cases "n < 4") (simp_all add: bit_simps)
  qed
  finally show ?thesis .
qed

lemma HexDigit_nth: "n < 16 \<Longrightarrow> HexDigit (''0123456789abcdef'' ! n) = int n"
proof -
  have "\<forall>n \<in> set [0..<16]. HexDigit (''0123456789abcdef'' ! n) = int n" by code_simp
  then show "n < 16 \<Longrightarrow> HexDigit (''0123456789abcdef'' ! n) = int n" by simp
qed

lemma HexDigit_hex_char: "unat d < 16 \<Longrightarrow> HexDigit (hex_char d) = uint d" for d :: u8
  by (simp add: hex_char_def HexDigit_nth)

lemma hex_char_not_space: "HexDigit c \<noteq> - 1 \<Longrightarrow> \<not> isspace c \<and> c \<noteq> CHR ''x'' \<and> c \<noteq> CHR ''X''"
  by (auto simp: HexDigit_def isspace_def Let_def split: if_splits)

lemma set_GetHex: "c \<in> set (GetHex a) \<Longrightarrow> HexDigit c \<noteq> - 1"
proof -
  have "HexDigit (hex_char d) \<noteq> - 1" if "unat d < 16" for d
    using that HexDigit_hex_char [of d] uint_ge_0 [of d] by linarith
  then show "c \<in> set (GetHex a) \<Longrightarrow> HexDigit c \<noteq> - 1"
    using nibble_bounds by (auto simp: GetHex_def hex_byte_def)
qed

lemma length_GetHex: "length (GetHex a) = 2 * length a"
  by (induction a) (simp_all add: GetHex_def hex_byte_def)

lemma rev_GetHex: "rev (GetHex a) = concat (map (\<lambda>b. [hex_char (b AND 0x0F), hex_char (drop_bit 4 b)]) a)"
  by (induction a) (simp_all add: GetHex_def hex_byte_def)

lemma sethex_loop_GetHex: "sethex_loop (rev (GetHex a)) (length a) = a"
proof (induction a)
  case Nil
  then show ?case by (simp add: GetHex_def)
next
  case (Cons b a)
  have "word_of_int (HexDigit (hex_char d)) = d" if "unat d < 16" for d :: u8
    using HexDigit_hex_char [OF that] by simp
  then show ?case using Cons nibble_bounds [of b] nibble_join [of b]
    by (simp add: rev_GetHex)
qed

text \<open>Printing and parsing are inverse: \<open>SetHex(GetHex(a))\<close> gives \<open>a\<close> back.\<close>

lemma SetHex_GetHex: "SetHex (length a) (GetHex a) = a"
proof -
  have ns: "dropWhile isspace (GetHex a) = GetHex a"
    using set_GetHex [of _ a] hex_char_not_space by (cases "GetHex a") auto
  have nx: "skip_0x (GetHex a) = GetHex a"
    using set_GetHex [of _ a] hex_char_not_space by (cases "GetHex a" rule: skip_0x.cases) auto
  have tw: "takeWhile (\<lambda>c. HexDigit c \<noteq> - 1) (GetHex a) = GetHex a"
    using set_GetHex [of _ a] by (simp add: takeWhile_eq_all_conv)
  show ?thesis by (simp add: SetHex_def ns nx tw sethex_loop_GetHex)
qed

text \<open>\<open>GetNibble\<close> numbers the nibbles as the hexadecimal string does: from the front.\<close>

lemma concat_pairs_nth:
  "i < length xs \<Longrightarrow> concat (map (\<lambda>b. [f b, g b]) xs) ! (2 * i) = f (xs ! i) \<and>
    concat (map (\<lambda>b. [f b, g b]) xs) ! (2 * i + 1) = g (xs ! i)"
proof (induction xs arbitrary: i)
  case (Cons x xs)
  then show ?case by (cases i) auto
qed simp

lemma GetNibble_GetHex:
  assumes a: "blob_ok a" and i: "i < 64"
  shows "unat (GetNibble a (int i)) < 16 \<and> hex_char (GetNibble a (int i)) = GetHex a ! i"
proof -
  have len: "length a = 32" using a by (simp add: blob_ok_def)
  define k where "k = i div 2"
  have k: "k < 32" "i = 2 * k \<or> i = 2 * k + 1" using i by (auto simp: k_def)
  have nth: "rev a ! k = a ! (31 - k)" using k len by (simp add: rev_nth)
  note cp = concat_pairs_nth [of k "rev a" "\<lambda>b. hex_char (drop_bit 4 b)" "\<lambda>b. hex_char (b AND 0x0F)"]
  from k(2) show ?thesis
  proof
    assume e: "i = 2 * k"
    have "GetNibble a (int i) = drop_bit 4 (a ! (31 - k))"
    proof -
      have "63 - int i = 2 * int (31 - k) + 1" using k e by simp
      moreover have "(2 * int (31 - k) + 1) mod 2 = 1 \<and> nat ((2 * int (31 - k) + 1) div 2) = 31 - k" by simp
      ultimately have "(63 - int i) mod 2 = 1 \<and> nat ((63 - int i) div 2) = 31 - k" by (simp only:)
      then show ?thesis by (simp add: GetNibble_def Let_def)
    qed
    then show ?thesis using cp k e len nth nibble_bounds
      by (simp add: GetHex_def hex_byte_def [abs_def])
  next
    assume e: "i = 2 * k + 1"
    have "GetNibble a (int i) = (a ! (31 - k)) AND 0x0F"
    proof -
      have "63 - int i = 2 * int (31 - k)" using k e by simp
      then have "(63 - int i) mod 2 = 0 \<and> nat ((63 - int i) div 2) = 31 - k" by simp
      then show ?thesis by (simp add: GetNibble_def Let_def)
    qed
    then show ?thesis using cp k e len nth nibble_bounds
      by (simp add: GetHex_def hex_byte_def [abs_def])
  qed
qed

section \<open>The salted hash\<close>

definition rotate :: "u32 \<Rightarrow> nat \<Rightarrow> u32" where
  "rotate x r = push_bit r x OR drop_bit (32 - r) x"

definition HashMix :: "u32 \<times> u32 \<times> u32 \<Rightarrow> u32 \<times> u32 \<times> u32" where
  "HashMix = (\<lambda>(a, b, c).
     let a = a - c; a = a XOR rotate c 4; c = c + b;
         b = b - a; b = b XOR rotate a 6; a = a + c;
         c = c - b; c = c XOR rotate b 8; b = b + a;
         a = a - c; a = a XOR rotate c 16; c = c + b;
         b = b - a; b = b XOR rotate a 19; a = a + c;
         c = c - b; c = c XOR rotate b 4; b = b + a
     in (a, b, c))"

definition HashFinal :: "u32 \<times> u32 \<times> u32 \<Rightarrow> u32 \<times> u32 \<times> u32" where
  "HashFinal = (\<lambda>(a, b, c).
     let c = c XOR b; c = c - rotate b 14;
         a = a XOR c; a = a - rotate c 11;
         b = b XOR a; b = b - rotate a 25;
         c = c XOR b; c = c - rotate b 16;
         a = a XOR c; a = a - rotate c 4;
         b = b XOR a; b = b - rotate a 14;
         c = c XOR b; c = c - rotate b 24
     in (a, b, c))"

definition blob_word :: "uint256 \<Rightarrow> nat \<Rightarrow> u32" where
  "blob_word a i = ReadLE32 (drop (4 * i) a)"

definition GetHash :: "uint256 \<Rightarrow> uint256 \<Rightarrow> u64" where
  "GetHash self salt =
     (let w = (\<lambda>i. blob_word self i XOR blob_word salt i);
          s0 = 0xdeadbeef + 32;
          (a, b, c) = HashMix (s0 + w 0, s0 + w 1, s0 + w 2);
          (a, b, c) = HashMix (a + w 3, b + w 4, c + w 5);
          (a, b, c) = HashFinal (a + w 6, b + w 7, c)
      in push_bit 32 (ucast b) OR ucast c)"

text \<open>The mixing step loses nothing: it can be undone, so two states never collide in it.\<close>

definition mix_step :: "nat \<Rightarrow> u32 \<times> u32 \<times> u32 \<Rightarrow> u32 \<times> u32 \<times> u32" where
  "mix_step r = (\<lambda>(a, b, c). (b, c + b, (a - c) XOR rotate c r))"

definition unmix_step :: "nat \<Rightarrow> u32 \<times> u32 \<times> u32 \<Rightarrow> u32 \<times> u32 \<times> u32" where
  "unmix_step r = (\<lambda>(b, c', a'). (let c = c' - b in ((a' XOR rotate c r) + c, b, c)))"

lemma unmix_mix [simp]: "unmix_step r (mix_step r s) = s"
  by (cases s) (simp add: mix_step_def unmix_step_def Let_def xor.assoc)

lemma HashMix_steps:
  "HashMix s = mix_step 4 (mix_step 19 (mix_step 16 (mix_step 8 (mix_step 6 (mix_step 4 s)))))"
  by (cases s) (simp only: HashMix_def mix_step_def Let_def prod.case)

lemma HashMix_inj: "inj HashMix"
  by (rule injI) (metis HashMix_steps unmix_mix)

section \<open>Conversion to and from the arithmetic type\<close>

definition ArithToUint256 :: "base_uint \<Rightarrow> uint256" where
  "ArithToUint256 a = concat (map WriteLE32 (pn a))"

definition UintToArith256 :: "uint256 \<Rightarrow> base_uint" where
  "UintToArith256 a = \<lparr>pn = map (\<lambda>x. ReadLE32 (drop (x * 4) a)) [0..<WIDTH]\<rparr>"

lemma bu_wf_UintToArith256 [simp, wf_intros]: "bu_wf (UintToArith256 a)"
  by (simp add: bu_wf_def UintToArith256_def)

lemma blob_ok_ArithToUint256: "bu_wf a \<Longrightarrow> blob_ok (ArithToUint256 a)"
  by (simp add: blob_ok_def ArithToUint256_def bu_wf_def WIDTH_def length_concat_chunk [of WriteLE32 4])

lemma UintToArith256_ArithToUint256: "bu_wf a \<Longrightarrow> UintToArith256 (ArithToUint256 a) = a"
proof -
  assume wf: "bu_wf a"
  then have len: "length (pn a) = WIDTH" by (simp add: bu_wf_def)
  have "ReadLE32 (drop (x * 4) (concat (map WriteLE32 (pn a)))) = pn a ! x" if "x < WIDTH" for x
  proof -
    have "take 4 (drop (x * 4) (concat (map WriteLE32 (pn a)))) = WriteLE32 (pn a ! x)"
      using that len by (intro concat_chunk_take) simp_all
    then show ?thesis using Read_Write_LE by (simp add: ReadLE32_def WriteLE32_def)
  qed
  then have "map (\<lambda>x. ReadLE32 (drop (x * 4) (concat (map WriteLE32 (pn a))))) [0..<WIDTH] = pn a"
    using len by (intro nth_equalityI) simp_all
  then show ?thesis by (cases a) (simp add: UintToArith256_def ArithToUint256_def)
qed

lemma ArithToUint256_UintToArith256: "blob_ok b \<Longrightarrow> ArithToUint256 (UintToArith256 b) = b"
proof -
  assume ok: "blob_ok b"
  have "WriteLE32 (ReadLE32 (drop (x * 4) b)) = take 4 (drop (x * 4) b)" if "x < WIDTH" for x
  proof -
    have "length (take 4 (drop (x * 4) b)) = 4" using that ok by (simp add: blob_ok_def WIDTH_def)
    then show ?thesis using Write_Read_LE by (simp add: ReadLE32_def)
  qed
  then have eq: "map (\<lambda>x. WriteLE32 (ReadLE32 (drop (x * 4) b))) [0..<WIDTH] =
      map (\<lambda>x. take 4 (drop (x * 4) b)) [0..<WIDTH]"
    by simp
  have "ArithToUint256 (UintToArith256 b) =
      concat (map (\<lambda>x. WriteLE32 (ReadLE32 (drop (x * 4) b))) [0..<WIDTH])"
    by (simp add: UintToArith256_def ArithToUint256_def o_def)
  also have "\<dots> = b"
    unfolding eq using ok by (intro concat_chunks) (simp add: blob_ok_def WIDTH_def)
  finally show ?thesis .
qed

section \<open>Properties\<close>

text \<open>A 256-bit blob is recovered from its hexadecimal form, and the nibble
  \<open>GetNibble\<close> returns for an index is the digit of the form at this index.\<close>

theorem uint256_hex_roundtrip:
  assumes "blob_ok a"
  shows "uint256S (GetHex a) = a \<and> length (GetHex a) = 64 \<and>
    (\<forall>i < 64. hex_char (GetNibble a (int i)) = GetHex a ! i)"
  using assms SetHex_GetHex [of a] length_GetHex [of a] GetNibble_GetHex [OF assms]
  by (simp add: uint256S_def blob_ok_def)

theorem uint256_hex_roundtrip_witness: "uint256S (GetHex (replicate 32 0xab)) = replicate 32 0xab"
proof -
  have "blob_ok (replicate 32 0xab)" by (simp add: blob_ok_def)
  from uint256_hex_roundtrip [OF this] show ?thesis by blast
qed

end
