(* ===== verification/Params.thy ===== *)
theory Params
  imports Uint256
begin

text \<open>
  The consensus parameters (consensus/params.h).  The values a network uses are arguments of the
  model: every property is stated for all parameters that meet the hypotheses it names.
\<close>

record BIP9Deployment =
  dep_bit :: int
  nStartTime :: int
  nTimeout :: int

datatype DeploymentPos = DEPLOYMENT_TESTDUMMY | DEPLOYMENT_CSV

record Consensus_Params =
  hashGenesisBlock :: uint256
  nSubsidyHalvingInterval :: int
  nFirstSubsidyReduceBlock :: int
  nPowNewTargetSpacing :: int
  nMasternodePaymentsStartBlock :: int
  nMasternodePaymentsIncreaseBlock :: int
  nMasternodePaymentsIncreasePeriod :: int
  nInstantSendKeepLock :: int
  nBudgetPaymentsStartBlock :: int
  nBudgetPaymentsCycleBlocks :: int
  nBudgetPaymentsWindowBlocks :: int
  nBudgetProposalEstablishingTime :: int
  nSuperblockStartBlock :: int
  nSuperblockCycle :: int
  nGovernanceMinQuorum :: int
  nGovernanceFilterElements :: int
  nMasternodeMinimumConfirmations :: int
  nMajorityEnforceBlockUpgrade :: int
  nMajorityRejectBlockOutdated :: int
  nMajorityWindow :: int
  BIP34Height :: int
  BIP34Hash :: uint256
  nTriHashAlgoChangeStart :: int
  nStoneForkBlock :: int
  nStoneHeight :: int
  nRuleChangeActivationThreshold :: u32
  nMinerConfirmationWindow :: u32
  vDeployments :: "DeploymentPos \<Rightarrow> BIP9Deployment"
  powLimit :: uint256
  fPowAllowMinDifficultyBlocks :: bool
  fPowNoRetargeting :: bool
  nPowTargetSpacing :: int
  nPowTargetTimespan :: int
  nMinimumChainWork :: uint256
  defaultAssumeValid :: uint256

text \<open>C++ division of signed integers truncates towards zero.\<close>

definition cdiv :: "int \<Rightarrow> int \<Rightarrow> int" where
  "cdiv a b = sgn a * sgn b * (\<bar>a\<bar> div \<bar>b\<bar>)"

definition cmod :: "int \<Rightarrow> int \<Rightarrow> int" where
  "cmod a b = a - cdiv a b * b"

lemma cdiv_nonneg [simp]: "0 \<le> a \<Longrightarrow> 0 < b \<Longrightarrow> cdiv a b = a div b"
  by (auto simp: cdiv_def sgn_if)

lemma cmod_nonneg [simp]: "0 \<le> a \<Longrightarrow> 0 < b \<Longrightarrow> cmod a b = a mod b"
  by (simp add: cmod_def minus_div_mult_eq_mod)

definition DifficultyAdjustmentInterval :: "Consensus_Params \<Rightarrow> int" where
  "DifficultyAdjustmentInterval P = cdiv (nPowTargetTimespan P) (nPowTargetSpacing P)"

section \<open>The networks\<close>

text \<open>
  The consensus part of the three constructors of chainparams.cpp.  The objects are static, so a
  member no constructor line sets is zero; the values are written as the constructors have them.
  The genesis hash of the main and test networks is the one the constructors assert; that of the
  regression test network is an argument.
\<close>

definition to_int32 :: "int \<Rightarrow> int" where
  \<comment> \<open>the conversion of a wider constant to \<open>int\<close>\<close>
  "to_int32 k = (let m = k mod 2 ^ 32 in if m \<ge> 2 ^ 31 then m - 2 ^ 32 else m)"

definition MainParams :: "Consensus_Params" where
  "MainParams =
     \<lparr>hashGenesisBlock = uint256S ''0x00000e8a8fcdc02729b7019097b5d85334698078899ef6d9c791f3995c0e474d'',
      nSubsidyHalvingInterval = 262800,
      nFirstSubsidyReduceBlock = 262800,
      nPowNewTargetSpacing = 2 * 60,
      nMasternodePaymentsStartBlock = 0,
      nMasternodePaymentsIncreaseBlock = 0,
      nMasternodePaymentsIncreasePeriod = 0,
      nInstantSendKeepLock = 0,
      nBudgetPaymentsStartBlock = 92000,
      nBudgetPaymentsCycleBlocks = 16616,
      nBudgetPaymentsWindowBlocks = 100,
      nBudgetProposalEstablishingTime = 60*60*24,
      nSuperblockStartBlock = 92000,
      nSuperblockCycle = 16616,
      nGovernanceMinQuorum = 10,
      nGovernanceFilterElements = 20000,
      nMasternodeMinimumConfirmations = 15,
      nMajorityEnforceBlockUpgrade = 750,
      nMajorityRejectBlockOutdated = 950,
      nMajorityWindow = 1000,
      BIP34Height = 92000,
      BIP34Hash = uint256S ''0x00000001d76d0aec1deaa4ec32405ed03e8a025307a0da9b60d18d3b0f7ef9db'',
      nTriHashAlgoChangeStart = to_int32 11531612800,
      nStoneForkBlock = 92000,
      nStoneHeight = 90000,
      nRuleChangeActivationThreshold = 1916,
      nMinerConfirmationWindow = 2016,
      vDeployments = (\<lambda>pos. case pos of DEPLOYMENT_TESTDUMMY \<Rightarrow> \<lparr>dep_bit = 28, nStartTime = 1199145601, nTimeout = 1230767999\<rparr>
        | DEPLOYMENT_CSV \<Rightarrow> \<lparr>dep_bit = 0, nStartTime = 1502280000, nTimeout = 1533816000\<rparr>),
      powLimit = uint256S ''00000fffff000000000000000000000000000000000000000000000000000000'',
      fPowAllowMinDifficultyBlocks = False,
      fPowNoRetargeting = False,
      nPowTargetSpacing = 2 * 60,
      nPowTargetTimespan = 30 * 60,
      nMinimumChainWork = uint256S ''0x000000000000000000000000000000000000000000000000003e1771746eb14f'',
      defaultAssumeValid = uint256S ''0x0000000009cc1f28c974798e6222442be48a61a8f23a1497d4cdada1c38a76c4''\<rparr>"

definition TestNetParams :: "Consensus_Params" where
  "TestNetParams =
     \<lparr>hashGenesisBlock = uint256S ''0x00000909ce102cdce8a41ef0947bcb4f66325632a45991336d0e7a17515167ec'',
      nSubsidyHalvingInterval = 2000,
      nFirstSubsidyReduceBlock = 2000,
      nPowNewTargetSpacing = 180,
      nMasternodePaymentsStartBlock = 100,
      nMasternodePaymentsIncreaseBlock = 158000,
      nMasternodePaymentsIncreasePeriod = 576 * 30,
      nInstantSendKeepLock = 6,
      nBudgetPaymentsStartBlock = 2100000000,
      nBudgetPaymentsCycleBlocks = 50,
      nBudgetPaymentsWindowBlocks = 10,
      nBudgetProposalEstablishingTime = 60*20,
      nSuperblockStartBlock = 2100000000,
      nSuperblockCycle = 24,
      nGovernanceMinQuorum = 1,
      nGovernanceFilterElements = 500,
      nMasternodeMinimumConfirmations = 1,
      nMajorityEnforceBlockUpgrade = 51,
      nMajorityRejectBlockOutdated = 75,
      nMajorityWindow = 100,
      BIP34Height = 21111,
      BIP34Hash = uint256S ''0x0000000023b3a96d3484e5abb3755c413e7d41500f8e2a5c3f0dd01299cd8ef8'',
      nTriHashAlgoChangeStart = 1531612800,
      nStoneForkBlock = 90000,
      nStoneHeight = 0,
      nRuleChangeActivationThreshold = 1512,
      nMinerConfirmationWindow = 2016,
      vDeployments = (\<lambda>pos. case pos of DEPLOYMENT_TESTDUMMY \<Rightarrow> \<lparr>dep_bit = 28, nStartTime = 1199145601, nTimeout = 1230767999\<rparr>
        | DEPLOYMENT_CSV \<Rightarrow> \<lparr>dep_bit = 0, nStartTime = 1502280000, nTimeout = 1533816000\<rparr>),
      powLimit = uint256S ''00000fffff000000000000000000000000000000000000000000000000000000'',
      fPowAllowMinDifficultyBlocks = True,
      fPowNoRetargeting = False,
      nPowTargetSpacing = 2 * 60,
      nPowTargetTimespan = 60 * 60,
      nMinimumChainWork = blob_null,
      defaultAssumeValid = blob_null\<rparr>"

definition RegTestParams :: "uint256 \<Rightarrow> Consensus_Params" where
  "RegTestParams genesis =
     \<lparr>hashGenesisBlock = genesis,
      nSubsidyHalvingInterval = 150,
      nFirstSubsidyReduceBlock = 0,
      nPowNewTargetSpacing = 0,
      nMasternodePaymentsStartBlock = 240,
      nMasternodePaymentsIncreaseBlock = 350,
      nMasternodePaymentsIncreasePeriod = 10,
      nInstantSendKeepLock = 6,
      nBudgetPaymentsStartBlock = 1000,
      nBudgetPaymentsCycleBlocks = 50,
      nBudgetPaymentsWindowBlocks = 10,
      nBudgetProposalEstablishingTime = 60*20,
      nSuperblockStartBlock = 1500,
      nSuperblockCycle = 10,
      nGovernanceMinQuorum = 1,
      nGovernanceFilterElements = 100,
      nMasternodeMinimumConfirmations = 1,
      nMajorityEnforceBlockUpgrade = 750,
      nMajorityRejectBlockOutdated = 950,
      nMajorityWindow = 1000,
      BIP34Height = -1,
      BIP34Hash = blob_null,
      nTriHashAlgoChangeStart = 0,
      nStoneForkBlock = 0,
      nStoneHeight = 0,
      nRuleChangeActivationThreshold = 108,
      nMinerConfirmationWindow = 144,
      vDeployments = (\<lambda>pos. case pos of DEPLOYMENT_TESTDUMMY \<Rightarrow> \<lparr>dep_bit = 28, nStartTime = 0, nTimeout = 999999999999\<rparr>
        | DEPLOYMENT_CSV \<Rightarrow> \<lparr>dep_bit = 0, nStartTime = 0, nTimeout = 999999999999\<rparr>),
      powLimit = uint256S ''7fffffffffffffffffffffffffffffffffffffffffffffffffffffffffffffff'',
      fPowAllowMinDifficultyBlocks = True,
      fPowNoRetargeting = True,
      nPowTargetSpacing = 2 * 60,
      nPowTargetTimespan = 60 * 60,
      nMinimumChainWork = blob_null,
      defaultAssumeValid = blob_null\<rparr>"

end
