(* ===== verification/Pow.thy ===== *)
theory Pow
  imports BlockIndex Params
begin

text \<open>
  Proof of work (pow.cpp): the difficulty of the next block (\<open>DarkGravityWave\<close> and the
  Bitcoin retarget), the check of a header's hash against its target, the work a block is
  counted with and the time a difference of work is worth.  A dereference of \<open>NULL\<close>, a
  failing \<open>assert\<close> and a thrown \<open>uint_error\<close> are the values of
  \<open>fault\<close>.  Times are \<open>int64_t\<close> built from at most 24 differences of
  32-bit times, so they do not overflow and are integers here; an argument narrowed to
  \<open>uint32_t\<close> by the call of \<open>operator*=\<close> is narrowed here too.
\<close>

section \<open>The code\<close>

definition of_uint :: "uint_error + base_uint \<Rightarrow> fault + base_uint" where
  "of_uint r = (case r of Inl e \<Rightarrow> Inl (Thrown e) | Inr a \<Rightarrow> Inr a)"

definition compact_of :: "base_uint \<Rightarrow> fault + u32" where
  "compact_of a = (case GetCompact a False of None \<Rightarrow> Inl AssertFailed | Some c \<Rightarrow> Inr c)"

record dgw_state =
  CountBlocks :: int
  PastDifficultyAverage :: base_uint
  PastDifficultyAveragePrev :: base_uint
  nActualTimespan :: int
  LastBlockTime :: int

definition PastBlocksMin :: int where "PastBlocksMin = 24"
definition PastBlocksMax :: nat where "PastBlocksMax = 24"

definition dgw_average :: "int \<Rightarrow> base_uint \<Rightarrow> u32 \<Rightarrow> fault + base_uint" where
  "dgw_average count prev bits =
     (if count = 1 then Inr (fst (SetCompact bits))
      else of_uint (bu_div (bu_add (bu_mul32 prev (word_of_int count)) (fst (SetCompact bits)))
                           (from_u64 (word_of_int (count + 1)))))"

definition dgw_body :: "dgw_state \<Rightarrow> CBlockIndex \<Rightarrow> fault + dgw_state" where
  "dgw_body s b =
     (let count = CountBlocks s + 1
      in sum_bind (if count \<le> PastBlocksMin
                   then dgw_average count (PastDifficultyAveragePrev s) (nBits b)
                   else Inr (PastDifficultyAverage s))
           (\<lambda>avg. Inr \<lparr>CountBlocks = count,
                      PastDifficultyAverage = avg,
                      PastDifficultyAveragePrev =
                        (if count \<le> PastBlocksMin then avg else PastDifficultyAveragePrev s),
                      nActualTimespan = nActualTimespan s +
                        (if LastBlockTime s > 0 then LastBlockTime s - GetBlockTime b else 0),
                      LastBlockTime = GetBlockTime b\<rparr>))"

fun dgw_loop :: "btree \<Rightarrow> nat \<Rightarrow> dgw_state \<Rightarrow> ptr \<Rightarrow> fault + dgw_state" where
  \<comment> \<open>the number counts the iterations up to \<open>PastBlocksMax\<close>\<close>
  "dgw_loop T 0 s p = Inr s"
| "dgw_loop T (Suc n) s p =
     (if nHeight (obj T p) > 0
      then sum_bind (dgw_body s (obj T p))
             (\<lambda>s'. case pprev (obj T p) of None \<Rightarrow> Inr s' | Some q \<Rightarrow> dgw_loop T n s' q)
      else Inr s)"

definition dgw_start :: dgw_state where
  "dgw_start = \<lparr>CountBlocks = 0, PastDifficultyAverage = bu_zero, PastDifficultyAveragePrev = bu_zero,
     nActualTimespan = 0, LastBlockTime = 0\<rparr>"

definition limit_target :: "base_uint \<Rightarrow> Consensus_Params \<Rightarrow> base_uint" where
  "limit_target bn P =
     (if bu_compare bn (UintToArith256 (powLimit P)) > 0 then UintToArith256 (powLimit P) else bn)"

definition clamp_span :: "int \<Rightarrow> int \<Rightarrow> int \<Rightarrow> int" where
  "clamp_span lo hi t = (let t1 = (if t < lo then lo else t) in if t1 > hi then hi else t1)"

definition DarkGravityWave :: "btree \<Rightarrow> ptr option \<Rightarrow> Consensus_Params \<Rightarrow> fault + u32" where
  "DarkGravityWave T pindexLast P =
     (case pindexLast of
        None \<Rightarrow> Inl NullDeref
      | Some p \<Rightarrow>
          (let b = obj T p;
               powTargetSpace = (if nHeight b > nStoneForkBlock P then nPowNewTargetSpacing P
                                 else nPowTargetSpacing P)
           in if nHeight b = 0 \<or> nHeight b < PastBlocksMin
              then compact_of (UintToArith256 (powLimit P))
              else sum_bind (dgw_loop T PastBlocksMax dgw_start p)
                (\<lambda>s. let target = CountBlocks s * powTargetSpace;
                         actual = clamp_span (cdiv target 3) (target * 3) (nActualTimespan s)
                     in sum_bind (of_uint (bu_div (bu_mul32 (PastDifficultyAverage s) (word_of_int actual))
                                                  (from_u64 (word_of_int target))))
                          (\<lambda>bnNew. compact_of (limit_target bnNew P)))))"

definition CalculateNextWorkRequired :: "btree \<Rightarrow> ptr \<Rightarrow> int \<Rightarrow> Consensus_Params \<Rightarrow> fault + u32" where
  "CalculateNextWorkRequired T p nFirstBlockTime P =
     (if fPowNoRetargeting P then Inr (nBits (obj T p))
      else let actual = clamp_span (cdiv (nPowTargetTimespan P) 4) (nPowTargetTimespan P * 4)
                          (GetBlockTime (obj T p) - nFirstBlockTime);
               bnNew = fst (SetCompact (nBits (obj T p)))
           in sum_bind (of_uint (bu_div (bu_mul32 bnNew (word_of_int actual))
                                        (from_u64 (word_of_int (nPowTargetTimespan P)))))
                (\<lambda>bn. compact_of (limit_target bn P)))"

fun last_non_special :: "btree \<Rightarrow> Consensus_Params \<Rightarrow> u32 \<Rightarrow> nat \<Rightarrow> ptr \<Rightarrow> u32" where
  \<comment> \<open>walk back over the min-difficulty blocks; the height bounds the iterations\<close>
  "last_non_special T P limit 0 p = nBits (obj T p)"
| "last_non_special T P limit (Suc n) p =
     (case pprev (obj T p) of
        None \<Rightarrow> nBits (obj T p)
      | Some q \<Rightarrow>
          (if cmod (nHeight (obj T p)) (DifficultyAdjustmentInterval P) \<noteq> 0 \<and> nBits (obj T p) = limit
           then last_non_special T P limit n q
           else nBits (obj T p)))"

definition btc_retarget :: "btree \<Rightarrow> ptr \<Rightarrow> int \<Rightarrow> Consensus_Params \<Rightarrow> fault + u32" where
  \<comment> \<open>the branch \<open>retarget == DIFF_BTC\<close> of \<open>GetNextWorkRequired\<close>, for the time of
    the block to be mined\<close>
  "btc_retarget T p blockTime P =
     sum_bind (compact_of (UintToArith256 (powLimit P)))
       (\<lambda>nProofOfWorkLimit.
          let b = obj T p; interval = DifficultyAdjustmentInterval P
          in if cmod (nHeight b + 1) interval \<noteq> 0
             then Inr (if fPowAllowMinDifficultyBlocks P
                       then (if blockTime > GetBlockTime b + nPowTargetSpacing P * 2
                             then nProofOfWorkLimit
                             else last_non_special T P nProofOfWorkLimit (nat (nHeight b) + 1) p)
                       else nBits b)
             else let nHeightFirst = nHeight b - (interval - 1)
                  in if nHeightFirst < 0 then Inl AssertFailed
                     else sum_bind (GetAncestor T p nHeightFirst)
                       (\<lambda>first. case first of
                                  None \<Rightarrow> Inl AssertFailed
                                | Some q \<Rightarrow> CalculateNextWorkRequired T p (GetBlockTime (obj T q)) P))"

definition GetNextWorkRequired ::
  "string \<Rightarrow> btree \<Rightarrow> ptr option \<Rightarrow> int \<Rightarrow> Consensus_Params \<Rightarrow> fault + u32" where
  "GetNextWorkRequired networkID T pindexLast blockTime P =
     (case pindexLast of
        None \<Rightarrow> Inl NullDeref
      | Some p \<Rightarrow>
          (let dgwHeight = (if networkID = ''main'' \<or> networkID = ''regtest'' then 500 else 3000)
           in if nHeight (obj T p) + 1 \<ge> dgwHeight then DarkGravityWave T pindexLast P
              else btc_retarget T p blockTime P))"

definition CheckProofOfWork :: "uint256 \<Rightarrow> u32 \<Rightarrow> Consensus_Params \<Rightarrow> bool" where
  "CheckProofOfWork hash bits P =
     (case SetCompact bits of (bnTarget, fNegative, fOverflow) \<Rightarrow>
        if fNegative \<or> bu_eq_u64 bnTarget 0 \<or> fOverflow \<or>
           bu_compare bnTarget (UintToArith256 (powLimit P)) > 0
        then False
        else if bu_compare (UintToArith256 hash) bnTarget > 0 then False
        else True)"

definition GetBlockProof :: "CBlockIndex \<Rightarrow> uint_error + base_uint" where
  "GetBlockProof b =
     (case SetCompact (nBits b) of (bnTarget, fNegative, fOverflow) \<Rightarrow>
        if fNegative \<or> fOverflow \<or> bu_eq_u64 bnTarget 0 then Inr (from_u64 0)
        else sum_bind (bu_div (bu_compl bnTarget) (bu_add bnTarget (from_u64 1)))
               (\<lambda>q. Inr (bu_add q (from_u64 1))))"

definition GetBlockProofEquivalentTime ::
  "CBlockIndex \<Rightarrow> CBlockIndex \<Rightarrow> CBlockIndex \<Rightarrow> Consensus_Params \<Rightarrow> uint_error + int" where
  "GetBlockProofEquivalentTime to frm tip P =
     (let (r, sign) = (if bu_compare (nChainWork to) (nChainWork frm) > 0
                      then (bu_sub (nChainWork to) (nChainWork frm), 1)
                      else (bu_sub (nChainWork frm) (nChainWork to), - 1));
          powTargetSpace = (if nHeight tip > nStoneForkBlock P then nPowNewTargetSpacing P
                            else nPowTargetSpacing P)
      in sum_bind (GetBlockProof tip)
           (\<lambda>proof. sum_bind (bu_div (bu_mul r (from_u64 (word_of_int powTargetSpace))) proof)
             (\<lambda>q. if bu_bits q > 63 then Inr (sign * (2 ^ 63 - 1))
                  else Inr (sign * uint (GetLow64 q)))))"

section \<open>Words from integers\<close>

lemma uint_word_of_int_u32: "0 \<le> k \<Longrightarrow> k < 2 ^ 32 \<Longrightarrow> uint (word_of_int k :: u32) = k"
  by (simp add: uint_word_of_int)

lemma uint_word_of_int_u64: "0 \<le> k \<Longrightarrow> k < 2 ^ 64 \<Longrightarrow> uint (word_of_int k :: u64) = k"
  by (simp add: uint_word_of_int)

lemma bu_eq_u64_zero: "bu_wf a \<Longrightarrow> bu_eq_u64 a 0 \<longleftrightarrow> bval a = 0"
proof -
  assume wf: "bu_wf a"
  then obtain x y xs where a: "pn a = x # y # xs"
    by (auto simp: bu_wf_def WIDTH_def length_Suc_conv eval_nat_numeral)
  have z: "(ucast w :: u64) = 0 \<longleftrightarrow> w = 0" for w :: u32
    by (metis uint_ucast_u32_u64 uint_0_iff)
  show ?thesis unfolding bval_def uval_eq_0_iff using a z
    by (auto simp: bu_eq_u64_def)
qed

lemma bu_div_Inr:
  assumes "bu_wf a" "bu_wf b" "bval b \<noteq> 0"
  obtains q where "bu_div a b = Inr q" "bu_wf q" "bval q = bval a div bval b"
  using bu_div_val [OF assms(1,2)] assms(3) by auto

lemma SetCompact_fst: "bu_wf (fst (SetCompact c)) \<and> bval (fst (SetCompact c)) = compact_value c mod 2 ^ 256"
  using SetCompact_sound by (metis fst_conv prod_cases3)

section \<open>The target\<close>

definition limit_val :: "Consensus_Params \<Rightarrow> int" where
  "limit_val P = bval (UintToArith256 (powLimit P))"

definition good_bits :: "Consensus_Params \<Rightarrow> u32 \<Rightarrow> bool" where
  \<comment> \<open>a target that is not negative, did not overflow and is not above the limit\<close>
  "good_bits P c \<longleftrightarrow>
     (case SetCompact c of (v, neg, ov) \<Rightarrow> \<not> neg \<and> \<not> ov \<and> bval v \<le> limit_val P)"

lemma limit_target_val:
  "bu_wf a \<Longrightarrow> bu_wf (limit_target a P) \<and> bval (limit_target a P) = min (bval a) (limit_val P)"
  by (simp add: limit_target_def limit_val_def)

lemma compact_of_good:
  assumes "bu_wf a" "bval a \<le> limit_val P"
  shows "\<exists>c. compact_of a = Inr c \<and> good_bits P c"
proof -
  obtain c v n where c: "GetCompact a False = Some c" "SetCompact c = (v, False, False)"
    "bval v = bval a - bval a mod 256 ^ (n - 3)"
    using SetCompact_GetCompact [OF assms(1)] by blast
  have "0 \<le> bval a mod 256 ^ (n - 3)" by simp
  then have "bval v \<le> limit_val P" using c(3) assms(2) by linarith
  then show ?thesis using c by (simp add: compact_of_def good_bits_def)
qed

lemma CheckProofOfWork_iff:
  "CheckProofOfWork hash c P \<longleftrightarrow>
     \<not> bit c 23 \<and> 0 < compact_value c \<and> compact_value c \<le> limit_val P \<and>
     bval (UintToArith256 hash) \<le> compact_value c"
proof -
  obtain v neg ov where s: "SetCompact c = (v, neg, ov)" by (cases "SetCompact c") auto
  note v = SetCompact_sound [OF s]
  have nn: "0 \<le> compact_value c"
    using compact_mant_bounds [of c] by (simp add: compact_value_def pos_imp_zdiv_nonneg_iff)
  have lim: "limit_val P < 2 ^ 256" using bval_bounds [of "UintToArith256 (powLimit P)"]
    by (simp add: limit_val_def)
  show ?thesis
  proof (cases ov)
    case True
    then show ?thesis using v lim by (simp add: CheckProofOfWork_def s)
  next
    case False
    then have "bval v = compact_value c" using v nn by simp
    then show ?thesis using v False nn
      by (auto simp: CheckProofOfWork_def s bu_eq_u64_zero limit_val_def not_less)
  qed
qed

lemma int_div_le_self: "0 \<le> a \<Longrightarrow> 0 < b \<Longrightarrow> a div b \<le> a" for a b :: int
  by (metis div_by_1 int_one_le_iff_zero_less zdiv_mono2 zero_less_one)

lemma div_minus_self: "0 < b \<Longrightarrow> (a - b) div b = a div b - 1" for a b :: int
  using div_add_self2 [of b "a - b"] by simp

lemma compact_value_not_max: "compact_value c + 1 \<noteq> 2 ^ 256"
proof (cases "compact_size c \<le> 3")
  case True
  have "compact_value c \<le> compact_mant c"
    using True compact_mant_bounds [of c] by (simp add: compact_value_def int_div_le_self)
  then show ?thesis using compact_mant_bounds [of c] by auto
next
  case False
  then obtain k where "compact_size c - 3 = Suc k" by (metis diff_is_0_eq not0_implies_Suc)
  then have "compact_value c = 256 * (compact_mant c * 256 ^ k)" using False by (simp add: compact_value_def)
  moreover have "256 * x + 1 \<noteq> 2 ^ 256" for x :: int
  proof
    assume "256 * x + 1 = 2 ^ 256"
    then have "(256 * x + 1) mod 256 = 2 ^ 256 mod 256" by simp
    then show False by simp
  qed
  ultimately show ?thesis by metis
qed

lemma GetBlockProof_val:
  "\<exists>w. GetBlockProof b = Inr w \<and> bu_wf w \<and>
     bval w = (if bit (nBits b) 23 \<or> compact_value (nBits b) = 0 \<or> 2 ^ 256 \<le> compact_value (nBits b) then 0
               else 2 ^ 256 div (compact_value (nBits b) + 1))"
proof -
  let ?t = "compact_value (nBits b)"
  obtain v neg ov where s: "SetCompact (nBits b) = (v, neg, ov)" by (cases "SetCompact (nBits b)") auto
  note v = SetCompact_sound [OF s]
  have nn: "0 \<le> ?t"
    using compact_mant_bounds [of "nBits b"] by (simp add: compact_value_def pos_imp_zdiv_nonneg_iff)
  show ?thesis
  proof (cases "bit (nBits b) 23 \<or> ?t = 0 \<or> 2 ^ 256 \<le> ?t")
    case True
    then have "neg \<or> ov \<or> bu_eq_u64 v 0" using v by (auto simp: bu_eq_u64_zero)
    then show ?thesis using True by (simp add: GetBlockProof_def s)
  next
    case False
    then have t: "0 < ?t" "?t < 2 ^ 256" "bval v = ?t" and nb: "\<not> neg" "\<not> ov" "\<not> bu_eq_u64 v 0"
      using v nn by (auto simp: bu_eq_u64_zero)
    have t1: "?t + 1 < 2 ^ 256" using compact_value_not_max [of "nBits b"] t(2) by linarith
    have wf1: "bu_wf (bu_add v (from_u64 1))" and wfc: "bu_wf (bu_compl v)" using v by simp_all
    have bv1: "bval (bu_add v (from_u64 1)) = ?t + 1"
      using v t t1 by (simp only: bval_add bu_wf_from_u64 bval_from_u64 t(3)) simp
    obtain q where q: "bu_div (bu_compl v) (bu_add v (from_u64 1)) = Inr q" "bu_wf q"
      "bval q = bval (bu_compl v) div (?t + 1)"
      using bu_div_Inr [OF wfc wf1] t(1) unfolding bv1 by auto
    have "bval (bu_compl v) = 2 ^ 256 - (?t + 1)" using v t by (simp add: bval_compl)
    also have "\<dots> div (?t + 1) = 2 ^ 256 div (?t + 1) - 1" using t(1) by (intro div_minus_self) simp
    finally have bq: "bval q = 2 ^ 256 div (?t + 1) - 1" using q(3) by simp
    have "2 ^ 256 div (?t + 1) < (2 ^ 256 :: int)" using t(1) by (intro int_div_less_self) simp_all
    moreover have "0 \<le> 2 ^ 256 div (?t + 1)" using t(1) by (simp add: pos_imp_zdiv_nonneg_iff)
    ultimately have "bval (bu_add q (from_u64 1)) = 2 ^ 256 div (?t + 1)"
      using q(2) by (simp only: bval_add bu_wf_from_u64 bval_from_u64 bq) simp
    then show ?thesis using False nb q(1,2) by (simp add: GetBlockProof_def s)
  qed
qed

section \<open>Dark Gravity Wave\<close>

definition dgw_wf :: "dgw_state \<Rightarrow> bool" where
  "dgw_wf s \<longleftrightarrow> bu_wf (PastDifficultyAverage s) \<and> bu_wf (PastDifficultyAveragePrev s) \<and>
     0 \<le> CountBlocks s \<and> CountBlocks s \<le> 24"

lemma bu_wf_zero [simp]: "bu_wf bu_zero"
  by (simp add: bu_wf_def bu_zero_def)

lemma bval_zero [simp]: "bval bu_zero = 0"
  by (simp add: bval_def bu_zero_def)

lemma dgw_wf_start: "dgw_wf dgw_start"
  by (simp add: dgw_wf_def dgw_start_def)

lemma dgw_average_Inr:
  assumes "1 \<le> k" "k \<le> 24" "bu_wf a"
  shows "\<exists>r. dgw_average k a c = Inr r \<and> bu_wf r \<and>
    bval r = (if k = 1 then compact_value c mod 2 ^ 256
              else ((bval a * k mod 2 ^ 256 + compact_value c mod 2 ^ 256) mod 2 ^ 256) div (k + 1))"
proof (cases "k = 1")
  case True
  then show ?thesis using SetCompact_fst [of c] by (simp add: dgw_average_def)
next
  case False
  have k: "uint (word_of_int k :: u32) = k" "uint (word_of_int (k + 1) :: u64) = k + 1"
    by (rule uint_word_of_int_u32; use assms in simp) (rule uint_word_of_int_u64; use assms in simp)
  let ?n = "bu_add (bu_mul32 a (word_of_int k)) (fst (SetCompact c))"
  have n: "bu_wf ?n" "bval ?n = (bval a * k mod 2 ^ 256 + compact_value c mod 2 ^ 256) mod 2 ^ 256"
    using assms(3) SetCompact_fst [of c] by (simp_all only: bval_add bval_mul32 bu_wf_add bu_wf_mul32 k)
  have d: "bval (from_u64 (word_of_int (k + 1))) = k + 1" by (simp only: bval_from_u64 k(2))
  then have nz: "bval (from_u64 (word_of_int (k + 1))) \<noteq> 0" using assms(1) by linarith
  obtain q where q: "bu_div ?n (from_u64 (word_of_int (k + 1))) = Inr q" "bu_wf q"
    "bval q = bval ?n div (k + 1)"
    using bu_div_Inr [OF n(1) bu_wf_from_u64 nz] unfolding d by blast
  have "dgw_average k a c = Inr q"
    unfolding dgw_average_def if_not_P [OF False] q(1) of_uint_def by simp
  then show ?thesis using q(2) q(3) [unfolded n(2)] by (intro exI [of _ q]) (simp only: False if_False simp_thms)
qed

lemma dgw_body_Inr:
  assumes "dgw_wf s" "CountBlocks s < 24"
  shows "\<exists>s'. dgw_body s b = Inr s' \<and> dgw_wf s' \<and> CountBlocks s' = CountBlocks s + 1 \<and>
    PastDifficultyAveragePrev s' = PastDifficultyAverage s' \<and>
    dgw_average (CountBlocks s + 1) (PastDifficultyAveragePrev s) (nBits b) = Inr (PastDifficultyAverage s') \<and>
    nActualTimespan s' = nActualTimespan s +
      (if LastBlockTime s > 0 then LastBlockTime s - GetBlockTime b else 0) \<and>
    LastBlockTime s' = GetBlockTime b"
proof -
  obtain r where "dgw_average (CountBlocks s + 1) (PastDifficultyAveragePrev s) (nBits b) = Inr r" "bu_wf r"
    using dgw_average_Inr [of "CountBlocks s + 1" "PastDifficultyAveragePrev s" "nBits b"] assms
    by (auto simp: dgw_wf_def)
  then show ?thesis using assms
    by (simp add: dgw_body_def Let_def PastBlocksMin_def dgw_wf_def)
qed

lemma dgw_loop_Inr:
  "dgw_wf s \<Longrightarrow> CountBlocks s + int n \<le> 24 \<Longrightarrow>
    \<exists>s'. dgw_loop T n s p = Inr s' \<and> dgw_wf s' \<and> CountBlocks s \<le> CountBlocks s' \<and>
      (0 < n \<longrightarrow> 0 < nHeight (obj T p) \<longrightarrow> CountBlocks s < CountBlocks s')"
proof (induction n arbitrary: s p)
  case 0
  then show ?case by simp
next
  case (Suc n)
  show ?case
  proof (cases "0 < nHeight (obj T p)")
    case False
    then show ?thesis using Suc.prems by simp
  next
    case True
    obtain s1 where s1: "dgw_body s (obj T p) = Inr s1" "dgw_wf s1" "CountBlocks s1 = CountBlocks s + 1"
      using dgw_body_Inr [of s "obj T p"] Suc.prems by auto
    show ?thesis
    proof (cases "pprev (obj T p)")
      case None
      then show ?thesis using True s1 by simp
    next
      case (Some q)
      obtain s2 where "dgw_loop T n s1 q = Inr s2" "dgw_wf s2" "CountBlocks s1 \<le> CountBlocks s2"
        using Suc.IH [of s1 q] s1 Suc.prems by auto
      then show ?thesis using True s1 Some by simp
    qed
  qed
qed

lemma DarkGravityWave_good:
  assumes sp: "0 < nPowTargetSpacing P" "nPowTargetSpacing P < 2 ^ 31"
    "0 < nPowNewTargetSpacing P" "nPowNewTargetSpacing P < 2 ^ 31"
  shows "\<exists>c. DarkGravityWave T (Some p) P = Inr c \<and> good_bits P c"
proof (cases "nHeight (obj T p) = 0 \<or> nHeight (obj T p) < PastBlocksMin")
  case True
  have "\<exists>c. compact_of (UintToArith256 (powLimit P)) = Inr c \<and> good_bits P c"
    by (rule compact_of_good) (simp_all add: limit_val_def)
  then show ?thesis using True by (simp add: DarkGravityWave_def Let_def)
next
  case False
  then have h: "0 < nHeight (obj T p)" by (simp add: PastBlocksMin_def)
  obtain s where s: "dgw_loop T PastBlocksMax dgw_start p = Inr s" "dgw_wf s" "0 < CountBlocks s"
    using dgw_loop_Inr [OF dgw_wf_start, of 24 T p] h by (auto simp: PastBlocksMax_def dgw_start_def)
  define space where "space = (if nHeight (obj T p) > nStoneForkBlock P then nPowNewTargetSpacing P
                            else nPowTargetSpacing P)"
  have space: "0 < space" "space < 2 ^ 31" using sp by (auto simp: space_def)
  define target where "target = CountBlocks s * space"
  have "CountBlocks s * space \<le> 24 * space" using s space by (intro mult_right_mono) (auto simp: dgw_wf_def)
  then have "CountBlocks s * space < 2 ^ 64" by (rule le_less_trans) (use space in simp)
  then have tb: "0 < target" "target < 2 ^ 64" using s space by (auto simp: target_def)
  define actual where "actual = clamp_span (cdiv target 3) (target * 3) (nActualTimespan s)"
  define num where "num = bu_mul32 (PastDifficultyAverage s) (word_of_int actual)"
  have wfn: "bu_wf num" using s by (simp add: num_def dgw_wf_def)
  have nz: "bval (from_u64 (word_of_int target)) \<noteq> 0"
    using tb uint_word_of_int_u64 [of target] by simp
  obtain q where q: "bu_div num (from_u64 (word_of_int target)) = Inr q" "bu_wf q"
    by (rule bu_div_Inr [OF wfn bu_wf_from_u64 nz])
  have "\<exists>c. compact_of (limit_target q P) = Inr c \<and> good_bits P c"
    using limit_target_val [OF q(2), of P] by (intro compact_of_good) auto
  moreover have "DarkGravityWave T (Some p) P = compact_of (limit_target q P)"
    unfolding DarkGravityWave_def option.case Let_def if_not_P [OF False] s(1) sum_bind.simps
      space_def [symmetric] target_def [symmetric] actual_def [symmetric] num_def [symmetric]
    by (simp add: q(1) of_uint_def)
  ultimately show ?thesis by simp
qed

subsection \<open>The exact difficulty\<close>

text \<open>
  The blocks the loop reads, from the tip back, and the two quantities it accumulates over them,
  computed in unbounded integers.
\<close>

fun last_blocks :: "btree \<Rightarrow> nat \<Rightarrow> ptr \<Rightarrow> CBlockIndex list" where
  "last_blocks T 0 p = []"
| "last_blocks T (Suc n) p =
     obj T p # (case pprev (obj T p) of None \<Rightarrow> [] | Some q \<Rightarrow> last_blocks T n q)"

fun mean_target :: "int \<Rightarrow> int \<Rightarrow> int list \<Rightarrow> int" where
  "mean_target k a [] = a"
| "mean_target k a (t # ts) = mean_target (k + 1) (if k = 0 then t else (a * (k + 1) + t) div (k + 2)) ts"

fun time_span :: "int \<Rightarrow> int list \<Rightarrow> int" where
  "time_span t0 [] = 0"
| "time_span t0 (t # ts) = (if t0 > 0 then t0 - t else 0) + time_span t ts"

lemma time_span_telescope: "0 < t \<Longrightarrow> list_all (\<lambda>x. 0 < x) ts \<Longrightarrow> time_span t ts = t - last (t # ts)"
  by (induction ts arbitrary: t) auto

lemma mean_step_bounds:
  fixes a k t L :: int
  assumes "0 \<le> a" "a \<le> L" "0 \<le> t" "t \<le> L" "0 \<le> k"
  shows "0 \<le> (a * k + t) div (k + 1)" "(a * k + t) div (k + 1) \<le> L"
    "0 \<le> a * k" "a * k \<le> L * k"
proof -
  show ak: "0 \<le> a * k" "a * k \<le> L * k" using assms by (auto intro: mult_right_mono)
  show "0 \<le> (a * k + t) div (k + 1)" using assms ak by (simp add: pos_imp_zdiv_nonneg_iff)
  have "a * k + t \<le> L * (k + 1)" using ak assms by (simp add: algebra_simps)
  then have "(a * k + t) div (k + 1) \<le> L * (k + 1) div (k + 1)" using assms by (intro zdiv_mono1) simp_all
  then show "(a * k + t) div (k + 1) \<le> L" using assms by simp
qed

lemma dgw_average_exact:
  assumes k: "1 \<le> k" "k \<le> 24" and a: "bu_wf a" "bval a \<le> L" and t: "compact_value c \<le> L"
    and L: "25 * L < 2 ^ 256"
  shows "\<exists>r. dgw_average k a c = Inr r \<and> bu_wf r \<and> 0 \<le> bval r \<and> bval r \<le> L \<and>
    bval r = (if k = 1 then compact_value c else (bval a * k + compact_value c) div (k + 1))"
proof -
  have nn: "0 \<le> compact_value c"
    using compact_mant_bounds [of c] by (simp add: compact_value_def pos_imp_zdiv_nonneg_iff)
  have ba: "0 \<le> bval a" using bval_bounds [OF a(1)] by simp
  note ms = mean_step_bounds [OF ba a(2) nn t, of k]
  have "L * k \<le> L * 24" using k nn t by (intro mult_left_mono) auto
  then have small: "bval a * k + compact_value c < 2 ^ 256" "compact_value c < 2 ^ 256" "bval a * k < 2 ^ 256"
    using ms(3,4) k nn t L by linarith+
  then have m: "(bval a * k mod 2 ^ 256 + compact_value c mod 2 ^ 256) mod 2 ^ 256 = bval a * k + compact_value c"
    "compact_value c mod 2 ^ 256 = compact_value c"
    using nn ms(3) k by simp_all
  obtain r where r: "dgw_average k a c = Inr r" "bu_wf r" "bval r = (if k = 1 then compact_value c mod 2 ^ 256
      else ((bval a * k mod 2 ^ 256 + compact_value c mod 2 ^ 256) mod 2 ^ 256) div (k + 1))"
    using dgw_average_Inr [OF k a(1), of c] by blast
  have "bval r = (if k = 1 then compact_value c else (bval a * k + compact_value c) div (k + 1))"
    using r(3) unfolding m(1) unfolding m(2) .
  then show ?thesis using r(1,2) ms(1,2) k(1) nn t by auto
qed

lemma dgw_loop_exact:
  assumes wf: "btree_wf T" and L: "25 * L < 2 ^ 256"
  shows "p \<in> known T \<Longrightarrow> int n \<le> nHeight (obj T p) \<Longrightarrow> dgw_wf s \<Longrightarrow> CountBlocks s + int n \<le> 24 \<Longrightarrow>
    PastDifficultyAveragePrev s = PastDifficultyAverage s \<Longrightarrow> bval (PastDifficultyAverage s) \<le> L \<Longrightarrow>
    \<forall>b \<in> set (last_blocks T n p). compact_value (nBits b) \<le> L \<Longrightarrow>
    \<exists>s'. dgw_loop T n s p = Inr s' \<and> dgw_wf s' \<and> CountBlocks s' = CountBlocks s + int n \<and>
      bval (PastDifficultyAverage s') =
        mean_target (CountBlocks s) (bval (PastDifficultyAverage s))
          (map (\<lambda>b. compact_value (nBits b)) (last_blocks T n p)) \<and>
      bval (PastDifficultyAverage s') \<le> L \<and>
      nActualTimespan s' = nActualTimespan s +
        time_span (LastBlockTime s) (map GetBlockTime (last_blocks T n p))"
proof (induction n arbitrary: s p)
  case 0
  then show ?case by simp
next
  case (Suc n)
  let ?b = "obj T p" and ?k = "CountBlocks s"
  have h: "0 < nHeight ?b" using Suc.prems(2) by simp
  obtain q where q: "pprev ?b = Some q" "q \<in> known T" "nHeight ?b = nHeight (obj T q) + 1"
    using wf Suc.prems(1) h by (force simp: btree_wf_def linked_def split: option.splits)
  have lb: "last_blocks T (Suc n) p = ?b # last_blocks T n q" using q(1) by simp
  have tb: "compact_value (nBits ?b) \<le> L" "\<forall>b \<in> set (last_blocks T n q). compact_value (nBits b) \<le> L"
    using Suc.prems(7) unfolding lb by auto
  have k: "0 \<le> ?k" "?k < 24" using Suc.prems(3,4) by (auto simp: dgw_wf_def)
  obtain s1 where s1: "dgw_body s ?b = Inr s1" "dgw_wf s1" "CountBlocks s1 = ?k + 1"
    "PastDifficultyAveragePrev s1 = PastDifficultyAverage s1"
    "dgw_average (?k + 1) (PastDifficultyAverage s) (nBits ?b) = Inr (PastDifficultyAverage s1)"
    "nActualTimespan s1 = nActualTimespan s +
      (if LastBlockTime s > 0 then LastBlockTime s - GetBlockTime ?b else 0)"
    "LastBlockTime s1 = GetBlockTime ?b"
    using dgw_body_Inr [OF Suc.prems(3) k(2), of ?b] Suc.prems(5) by metis
  have av: "bval (PastDifficultyAverage s1) \<le> L"
    "bval (PastDifficultyAverage s1) = (if ?k = 0 then compact_value (nBits ?b)
       else (bval (PastDifficultyAverage s) * (?k + 1) + compact_value (nBits ?b)) div (?k + 2))"
    using dgw_average_exact [of "?k + 1" "PastDifficultyAverage s" L "nBits ?b"] s1(5) k Suc.prems(3,6) tb(1) L
    by (auto simp: dgw_wf_def add.assoc)
  obtain s2 where s2: "dgw_loop T n s1 q = Inr s2" "dgw_wf s2" "CountBlocks s2 = CountBlocks s1 + int n"
    "bval (PastDifficultyAverage s2) = mean_target (CountBlocks s1) (bval (PastDifficultyAverage s1))
          (map (\<lambda>b. compact_value (nBits b)) (last_blocks T n q))"
    "bval (PastDifficultyAverage s2) \<le> L"
    "nActualTimespan s2 = nActualTimespan s1 +
        time_span (LastBlockTime s1) (map GetBlockTime (last_blocks T n q))"
    using Suc.IH [OF q(2) _ s1(2) _ s1(4) av(1) tb(2)] Suc.prems(2,4) q(3) s1(3) by auto
  have "dgw_loop T (Suc n) s p = Inr s2" using h s1(1) q(1) s2(1) by simp
  then show ?case using s2 s1(3,6,7) av(2) unfolding lb by simp
qed

lemma DarkGravityWave_exact:
  assumes wf: "btree_wf T" and p: "p \<in> known T" "24 \<le> nHeight (obj T p)"
    and space: "space = (if nHeight (obj T p) > nStoneForkBlock P then nPowNewTargetSpacing P
                         else nPowTargetSpacing P)" "0 < space" "space < 2 ^ 25"
    and L: "25 * limit_val P < 2 ^ 256" "limit_val P * (72 * space) < 2 ^ 256"
    and reads: "\<forall>b \<in> set (last_blocks T 24 p). compact_value (nBits b) \<le> limit_val P \<and> 0 < GetBlockTime b"
  defines "mean \<equiv> mean_target 0 0 (map (\<lambda>b. compact_value (nBits b)) (last_blocks T 24 p))"
    and "span \<equiv> GetBlockTime (obj T p) - GetBlockTime (last (last_blocks T 24 p))"
  shows "\<exists>t. bu_wf t \<and> DarkGravityWave T (Some p) P = compact_of t \<and>
    bval t = min (mean * max (8 * space) (min (72 * space) span) div (24 * space)) (limit_val P)"
proof -
  have lim0: "0 \<le> limit_val P" using bval_bounds [of "UintToArith256 (powLimit P)"] by (simp add: limit_val_def)
  have t0: "\<forall>b \<in> set (last_blocks T 24 p). compact_value (nBits b) \<le> limit_val P" using reads by blast
  obtain s where s: "dgw_loop T 24 dgw_start p = Inr s" "dgw_wf s" "CountBlocks s = 24"
    "bval (PastDifficultyAverage s) = mean" "bval (PastDifficultyAverage s) \<le> limit_val P"
    "nActualTimespan s = time_span 0 (map GetBlockTime (last_blocks T 24 p))"
    using dgw_loop_exact [OF wf L(1) p(1), of 24 dgw_start] p(2) dgw_wf_start lim0 t0
    unfolding mean_def by (auto simp: dgw_start_def simp del: last_blocks.simps)
  have mean0: "0 \<le> mean" using bval_bounds [of "PastDifficultyAverage s"] s(2,4) by (simp add: dgw_wf_def)
  obtain r where lb: "last_blocks T 24 p = obj T p # r"
    using last_blocks.simps(2) [of T 23 p] by simp
  have "list_all (\<lambda>x. 0 < x) (map GetBlockTime (last_blocks T 24 p))"
    using reads by (simp add: list_all_iff)
  then have sp: "nActualTimespan s = span"
    using time_span_telescope [of "GetBlockTime (obj T p)" "map GetBlockTime r"]
    unfolding s(6) span_def lb by (simp add: last_map)
  define actual where "actual = clamp_span (cdiv (24 * space) 3) (24 * space * 3) span"
  have act: "actual = max (8 * space) (min (72 * space) span)"
    using space(2) by (auto simp: actual_def clamp_span_def Let_def)
  have ab: "0 \<le> actual" "actual \<le> 72 * space" "actual < 2 ^ 32" using act space(2,3) by auto
  define num where "num = bu_mul32 (PastDifficultyAverage s) (word_of_int actual)"
  have wfn: "bu_wf num" using s(2) by (simp add: num_def dgw_wf_def)
  have "mean * actual \<le> limit_val P * (72 * space)"
    using ab(1,2) s(4,5) lim0 by (intro mult_mono) auto
  then have "mean * actual < 2 ^ 256" using L(2) by linarith
  then have nv: "bval num = mean * actual"
    using s(2,4) ab mean0 uint_word_of_int_u32 [of actual] by (simp add: num_def bval_mul32 dgw_wf_def)
  have dv: "bval (from_u64 (word_of_int (24 * space))) = 24 * space"
    using space(2,3) uint_word_of_int_u64 [of "24 * space"] by simp
  then have nz: "bval (from_u64 (word_of_int (24 * space))) \<noteq> 0" using space(2) by simp
  obtain q where q: "bu_div num (from_u64 (word_of_int (24 * space))) = Inr q" "bu_wf q"
    "bval q = mean * actual div (24 * space)"
    using bu_div_Inr [OF wfn bu_wf_from_u64 nz] unfolding nv dv by blast
  have "\<not> (nHeight (obj T p) = 0 \<or> nHeight (obj T p) < PastBlocksMin)"
    using p(2) by (simp add: PastBlocksMin_def)
  then have "DarkGravityWave T (Some p) P = compact_of (limit_target q P)"
    unfolding DarkGravityWave_def option.case Let_def PastBlocksMax_def
    by (simp only: if_False s(1) sum_bind.simps s(3) sp space(1) [symmetric] actual_def [symmetric]
        num_def [symmetric] q(1) of_uint_def sum.case)
  then show ?thesis using limit_target_val [OF q(2), of P] unfolding act q(3) by auto
qed

section \<open>The next block's bits\<close>

definition pow_params_ok :: "Consensus_Params \<Rightarrow> bool" where
  "pow_params_ok P \<longleftrightarrow> 0 < nPowTargetSpacing P \<and> nPowTargetSpacing P < 2 ^ 31 \<and>
     0 < nPowNewTargetSpacing P \<and> nPowNewTargetSpacing P < 2 ^ 31 \<and>
     nPowTargetSpacing P \<le> nPowTargetTimespan P \<and> nPowTargetTimespan P < 2 ^ 60"

lemma interval_pos: "pow_params_ok P \<Longrightarrow> 1 \<le> DifficultyAdjustmentInterval P"
  by (auto simp: pow_params_ok_def DifficultyAdjustmentInterval_def pos_imp_zdiv_pos_iff int_one_le_iff_zero_less)

lemma CalculateNextWorkRequired_good:
  assumes P: "pow_params_ok P" and g: "good_bits P (nBits (obj T p))"
  shows "\<exists>c. CalculateNextWorkRequired T p t P = Inr c \<and> good_bits P c"
proof (cases "fPowNoRetargeting P")
  case True
  then show ?thesis using g by (simp add: CalculateNextWorkRequired_def)
next
  case False
  let ?ts = "nPowTargetTimespan P"
  define actual where "actual = clamp_span (cdiv ?ts 4) (?ts * 4) (GetBlockTime (obj T p) - t)"
  define num where "num = bu_mul32 (fst (SetCompact (nBits (obj T p)))) (word_of_int actual)"
  have wfn: "bu_wf num" using SetCompact_fst by (simp add: num_def)
  have "bval (from_u64 (word_of_int ?ts)) = ?ts"
    using P uint_word_of_int_u64 [of ?ts] by (simp add: pow_params_ok_def)
  then have nz: "bval (from_u64 (word_of_int ?ts)) \<noteq> 0" using P by (simp add: pow_params_ok_def)
  obtain q where q: "bu_div num (from_u64 (word_of_int ?ts)) = Inr q" "bu_wf q"
    by (rule bu_div_Inr [OF wfn bu_wf_from_u64 nz])
  have "CalculateNextWorkRequired T p t P = compact_of (limit_target q P)"
    unfolding CalculateNextWorkRequired_def if_not_P [OF False] Let_def
    by (simp only: actual_def [symmetric] num_def [symmetric] q(1) of_uint_def sum.case sum_bind.simps)
  moreover have "\<exists>c. compact_of (limit_target q P) = Inr c \<and> good_bits P c"
    using limit_target_val [OF q(2), of P] by (intro compact_of_good) auto
  ultimately show ?thesis by simp
qed

lemma last_non_special_good:
  assumes wf: "btree_wf T" and g: "\<forall>b \<in> known T. good_bits P (nBits (obj T b))"
  shows "p \<in> known T \<Longrightarrow> good_bits P (last_non_special T P limit n p)"
proof (induction n arbitrary: p)
  case 0
  then show ?case using g by simp
next
  case (Suc n)
  have "pprev (obj T p) = Some q \<Longrightarrow> q \<in> known T" for q
    using wf Suc.prems by (auto simp: btree_wf_def linked_def)
  then show ?case using Suc g by (auto split: option.splits)
qed

lemma btc_retarget_good:
  assumes wf: "btree_wf T" and p: "p \<in> known T" and P: "pow_params_ok P"
    and g: "\<forall>b \<in> known T. good_bits P (nBits (obj T b))"
  shows "\<exists>c. btc_retarget T p t P = Inr c \<and> good_bits P c"
proof -
  obtain lim where lim: "compact_of (UintToArith256 (powLimit P)) = Inr lim" "good_bits P lim"
    using compact_of_good [of "UintToArith256 (powLimit P)" P] by (auto simp: limit_val_def)
  let ?b = "obj T p" and ?i = "DifficultyAdjustmentInterval P"
  show ?thesis
  proof (cases "cmod (nHeight ?b + 1) ?i = 0")
    case False
    then show ?thesis using lim g p last_non_special_good [OF wf g p]
      by (simp add: btc_retarget_def Let_def del: last_non_special.simps)
  next
    case True
    have i: "1 \<le> ?i" by (rule interval_pos [OF P])
    have h: "0 \<le> nHeight ?b" using wf p by (auto simp: btree_wf_def linked_def)
    then have "(nHeight ?b + 1) mod ?i = 0" using True i by simp
    then have "?i \<le> nHeight ?b + 1" using h i by (auto intro: zdvd_imp_le)
    then have f: "\<not> nHeight ?b - (?i - 1) < 0" "nHeight ?b - (?i - 1) \<le> nHeight ?b" using i by auto
    obtain q where q: "ancestor_at T p (nHeight ?b - (?i - 1)) = Some q"
      using ancestor_at_total [OF wf p _ f(2)] f(1) by auto
    have "btc_retarget T p t P = CalculateNextWorkRequired T p (GetBlockTime (obj T q)) P"
      using True f(1) GetAncestor_correct [OF wf p, of "nHeight ?b - (?i - 1)"] q
      by (simp add: btc_retarget_def lim(1) Let_def)
    then show ?thesis using CalculateNextWorkRequired_good [OF P] g p by simp
  qed
qed

lemma GetNextWorkRequired_good:
  assumes "btree_wf T" "p \<in> known T" "pow_params_ok P" "\<forall>b \<in> known T. good_bits P (nBits (obj T b))"
  shows "\<exists>c. GetNextWorkRequired net T (Some p) t P = Inr c \<and> good_bits P c"
  using btc_retarget_good [OF assms, of t] DarkGravityWave_good [of P T p] assms(3)
  by (auto simp: GetNextWorkRequired_def Let_def pow_params_ok_def)

section \<open>Equivalent time\<close>

lemma bu_bits_gt_63: "bu_wf a \<Longrightarrow> 63 < bu_bits a \<longleftrightarrow> 2 ^ 63 \<le> bval a"
proof -
  assume wf: "bu_wf a"
  note b = bu_bits_val [OF wf]
  show ?thesis
  proof (cases "bval a = 0")
    case True
    then show ?thesis using b by simp
  next
    case False
    then have v: "2 ^ (bu_bits a - 1) \<le> bval a" "bval a < 2 ^ bu_bits a" using b by auto
    show ?thesis
    proof
      assume "63 < bu_bits a"
      then have "(2 :: int) ^ 63 \<le> 2 ^ (bu_bits a - 1)" by (intro power_increasing) auto
      then show "2 ^ 63 \<le> bval a" using v(1) by linarith
    next
      assume "2 ^ 63 \<le> bval a"
      then have "(2 :: int) ^ 63 < 2 ^ bu_bits a" using v(2) by linarith
      then show "63 < bu_bits a" by (rule power_less_imp_less_exp [rotated]) simp
    qed
  qed
qed

lemma GetBlockProofEquivalentTime_val:
  assumes wf: "bu_wf (nChainWork to)" "bu_wf (nChainWork frm)"
    and space: "space = (if nHeight tip > nStoneForkBlock P then nPowNewTargetSpacing P
                         else nPowTargetSpacing P)" "0 < space" "space < 2 ^ 31"
    and small: "\<bar>bval (nChainWork to) - bval (nChainWork frm)\<bar> * space < 2 ^ 256"
    and pr: "GetBlockProof tip = Inr w" "0 < bval w"
  defines "secs \<equiv> \<bar>bval (nChainWork to) - bval (nChainWork frm)\<bar> * space div bval w"
  shows "GetBlockProofEquivalentTime to frm tip P =
    Inr ((if bval (nChainWork frm) < bval (nChainWork to) then 1 else - 1) * min secs (2 ^ 63 - 1))"
proof -
  let ?a = "nChainWork to" and ?b = "nChainWork frm"
  define up where "up \<longleftrightarrow> bval ?b < bval ?a"
  define r where "r = (if up then bu_sub ?a ?b else bu_sub ?b ?a)"
  define sign :: int where "sign = (if up then 1 else - 1)"
  have sel: "(if bu_compare ?a ?b > 0 then (bu_sub ?a ?b, 1) else (bu_sub ?b ?a, - 1)) = (r, sign)"
    using wf by (simp add: r_def sign_def up_def)
  have wr: "bu_wf r" using wf by (simp add: r_def)
  have "bval r = (if up then (bval ?a - bval ?b) mod 2 ^ 256 else (bval ?b - bval ?a) mod 2 ^ 256)"
    using wf by (simp only: r_def bval_sub split: if_split) blast
  also have "\<dots> = \<bar>bval ?a - bval ?b\<bar>"
    using bval_bounds [OF wf(1)] bval_bounds [OF wf(2)]
    by (cases up) (auto simp: up_def)
  finally have br: "bval r = \<bar>bval ?a - bval ?b\<bar>" .
  have sv: "bval (from_u64 (word_of_int space)) = space"
    using space(2,3) uint_word_of_int_u64 [of space] by (simp only: bval_from_u64) simp
  define m where "m = bu_mul r (from_u64 (word_of_int space))"
  have wm: "bu_wf m" by (simp add: m_def)
  have "0 \<le> \<bar>bval ?a - bval ?b\<bar> * space" using space(2) by simp
  then have bm: "bval m = \<bar>bval ?a - bval ?b\<bar> * space"
    using small wr unfolding m_def by (simp only: bval_mul bu_wf_from_u64 br sv) simp
  have ww: "bu_wf w" using GetBlockProof_val [of tip] pr(1) by auto
  have nz: "bval w \<noteq> 0" using pr(2) by simp
  obtain q where q: "bu_div m w = Inr q" "bu_wf q" "bval q = secs"
    using bu_div_Inr [OF wm ww nz] unfolding bm secs_def by blast
  have q0: "0 \<le> bval q" using bval_bounds [OF q(2)] by simp
  have low: "uint (GetLow64 q) = secs" if "secs < 2 ^ 63"
    using uint_GetLow64 [OF q(2)] that q0 q(3) by simp
  have "GetBlockProofEquivalentTime to frm tip P =
      (if bu_bits q > 63 then Inr (sign * (2 ^ 63 - 1)) else Inr (sign * uint (GetLow64 q)))"
    unfolding GetBlockProofEquivalentTime_def sel Let_def prod.case space(1) [symmetric] m_def [symmetric]
      pr(1) sum_bind.simps q(1) ..
  also have "\<dots> = Inr (sign * min secs (2 ^ 63 - 1))"
    using bu_bits_gt_63 [OF q(2)] low by (auto simp: q(3) min_def)
  finally show ?thesis by (simp add: sign_def up_def)
qed

section \<open>Overflow in the average\<close>

text \<open>
  The average is taken modulo \<open>2 ^ 256\<close>.  With the limit of the regression test network
  (\<open>2 ^ 255 - 1\<close>, compact \<open>0x207fffff\<close>) the intermediate
  sum does overflow: two equal targets average to a third of what they are.
\<close>

lemma compact_value_regtest: "compact_value 0x207fffff = 8388607 * 2 ^ 232"
  by (simp add: compact_value_def compact_size_def compact_mant_def)

text \<open>With the limit of the regression test network the average of two equal targets is
  less than a third of the target: the sum exceeds 256 bits.\<close>

theorem dgw_average_overflow:
  "\<exists>r. dgw_average 2 (fst (SetCompact 0x207fffff)) 0x207fffff = Inr r \<and>
     3 * bval r < bval (fst (SetCompact 0x207fffff))"
proof -
  let ?t = "fst (SetCompact 0x207fffff)"
  have t: "bu_wf ?t" "bval ?t = 8388607 * 2 ^ 232"
    using SetCompact_fst [of "0x207fffff"] by (simp_all add: compact_value_regtest)
  have "\<exists>r. dgw_average 2 ?t 0x207fffff = Inr r \<and> bu_wf r \<and>
    bval r = (if (2 :: int) = 1 then compact_value 0x207fffff mod 2 ^ 256
      else ((bval ?t * 2 mod 2 ^ 256 + compact_value 0x207fffff mod 2 ^ 256) mod 2 ^ 256) div (2 + 1))"
    by (rule dgw_average_Inr [OF _ _ t(1)]) simp_all
  then obtain r where r: "dgw_average 2 ?t 0x207fffff = Inr r"
    "bval r = (if (2 :: int) = 1 then compact_value 0x207fffff mod 2 ^ 256
      else ((bval ?t * 2 mod 2 ^ 256 + compact_value 0x207fffff mod 2 ^ 256) mod 2 ^ 256) div (2 + 1))"
    by blast
  have "3 * bval r < bval ?t" unfolding r(2) t(2) compact_value_regtest by simp
  then show ?thesis using r(1) by blast
qed

section \<open>The networks\<close>

lemma pow_params_ok_networks: "pow_params_ok MainParams" "pow_params_ok TestNetParams"
  by (simp_all add: pow_params_ok_def MainParams_def TestNetParams_def)

lemma limit_val_networks:
  "limit_val MainParams = 0xfffff * 2 ^ 216" "limit_val TestNetParams = 0xfffff * 2 ^ 216"
  "limit_val (RegTestParams g) = 2 ^ 255 - 1"
proof -
  have "bval (UintToArith256 (uint256S ''00000fffff000000000000000000000000000000000000000000000000000000'')) =
      0xfffff * 2 ^ 216"
    by code_simp
  then show "limit_val MainParams = 0xfffff * 2 ^ 216" "limit_val TestNetParams = 0xfffff * 2 ^ 216"
    by (simp_all add: limit_val_def MainParams_def TestNetParams_def)
  have "bval (UintToArith256 (uint256S ''7fffffffffffffffffffffffffffffffffffffffffffffffffffffffffffffff'')) =
      2 ^ 255 - 1"
    by code_simp
  then show "limit_val (RegTestParams g) = 2 ^ 255 - 1"
    by (simp add: limit_val_def RegTestParams_def)
qed

text \<open>
  \<open>CRegTestParams\<close> sets neither \<open>nStoneForkBlock\<close> nor
  \<open>nPowNewTargetSpacing\<close>, so above the genesis block the spacing is zero.
\<close>

lemma DarkGravityWave_no_spacing:
  assumes h: "24 \<le> nHeight (obj T p)"
    and z: "(if nHeight (obj T p) > nStoneForkBlock P then nPowNewTargetSpacing P else nPowTargetSpacing P) = 0"
  shows "DarkGravityWave T (Some p) P = Inl (Thrown DivisionByZero)"
proof -
  have f: "(nHeight (obj T p) = 0 \<or> nHeight (obj T p) < PastBlocksMin) = False"
    using h by (simp add: PastBlocksMin_def)
  obtain s where s: "dgw_loop T PastBlocksMax dgw_start p = Inr s" "dgw_wf s"
    using dgw_loop_Inr [OF dgw_wf_start, of 24 T p] by (auto simp: PastBlocksMax_def dgw_start_def)
  let ?n = "bu_mul32 (PastDifficultyAverage s) (word_of_int (clamp_span (cdiv 0 3) (0 * 3) (nActualTimespan s)))"
  have "bu_div ?n (from_u64 0) = Inl DivisionByZero"
    using bu_div_val [of ?n "from_u64 0"] s(2) by (auto simp: dgw_wf_def)
  then show ?thesis
    unfolding DarkGravityWave_def option.case Let_def f if_False s(1) sum_bind.simps z
    by (simp add: of_uint_def)
qed

section \<open>Properties\<close>

text \<open>C8: for a tip of height at least 24 whose last 24 blocks have targets within the limit,
  \<open>DarkGravityWave\<close> returns the compact form of the weighted mean of their targets
  scaled by the time they took over the time they should have taken, the ratio kept between a
  third and three, capped at the limit: no intermediate result overflows.\<close>

theorem DarkGravityWave_difficulty:
  assumes "btree_wf T" "p \<in> known T" "24 \<le> nHeight (obj T p)"
    and "space = (if nHeight (obj T p) > nStoneForkBlock P then nPowNewTargetSpacing P
                  else nPowTargetSpacing P)" "0 < space" "space < 2 ^ 25"
    and "25 * limit_val P < 2 ^ 256" "limit_val P * (72 * space) < 2 ^ 256"
    and "\<forall>b \<in> set (last_blocks T 24 p). compact_value (nBits b) \<le> limit_val P \<and> 0 < GetBlockTime b"
  shows "\<exists>t. bu_wf t \<and> DarkGravityWave T (Some p) P = compact_of t \<and>
    bval t = min (mean_target 0 0 (map (\<lambda>b. compact_value (nBits b)) (last_blocks T 24 p)) *
        max (8 * space) (min (72 * space)
          (GetBlockTime (obj T p) - GetBlockTime (last (last_blocks T 24 p)))) div (24 * space))
      (limit_val P)"
  by (rule DarkGravityWave_exact [OF assms])

lemma last_blocks_in: "b \<in> set (last_blocks T n p) \<Longrightarrow> \<exists>q. b = obj T q"
proof (induction n arbitrary: p)
  case (Suc n)
  then show ?case by (cases "pprev (obj T p)") auto
qed simp

theorem DarkGravityWave_difficulty_witness:
  defines "T \<equiv> line_tree 30 (\<lambda>p. CBlockIndex_null\<lparr>nBits := 0x1e0ffff0, nTime := 1600000000\<rparr>)"
  shows "\<exists>t. DarkGravityWave T (Some 24) MainParams = compact_of t \<and> bval t \<le> limit_val MainParams"
proof -
  have bits: "compact_value 0x1e0ffff0 \<le> limit_val MainParams"
    unfolding limit_val_networks by (simp add: compact_value_def compact_size_def compact_mant_def)
  have wf: "btree_wf T" "24 \<in> known T" "24 \<le> nHeight (obj T 24)" by (simp_all add: T_def line_tree_wf)
  have sp: "(120 :: int) = (if nHeight (obj T 24) > nStoneForkBlock MainParams then nPowNewTargetSpacing MainParams
      else nPowTargetSpacing MainParams)" by (simp add: MainParams_def)
  have lim: "25 * limit_val MainParams < 2 ^ 256" "limit_val MainParams * (72 * 120) < 2 ^ 256"
    unfolding limit_val_networks by simp_all
  have rd: "\<forall>b \<in> set (last_blocks T 24 24). compact_value (nBits b) \<le> limit_val MainParams \<and> 0 < GetBlockTime b"
    using bits by (auto simp: T_def GetBlockTime_def dest!: last_blocks_in)
  have pos: "(0 :: int) < 120" "(120 :: int) < 2 ^ 25" by simp_all
  from DarkGravityWave_difficulty [OF wf sp pos lim rd] show ?thesis by auto
qed

text \<open>\<open>GetNextWorkRequired\<close> succeeds for every tip of a well-formed tree, on every
  network, and the bits it returns decode to a target that is not negative, does not overflow
  and is within the limit.\<close>

theorem GetNextWorkRequired_within_limit:
  assumes "btree_wf T" "p \<in> known T" "pow_params_ok P" "\<forall>b \<in> known T. good_bits P (nBits (obj T b))"
  shows "\<exists>c. GetNextWorkRequired net T (Some p) t P = Inr c \<and> good_bits P c"
  by (rule GetNextWorkRequired_good [OF assms])

theorem GetNextWorkRequired_within_limit_witness:
  shows "\<exists>c. GetNextWorkRequired ''main'' (line_tree 3 (\<lambda>p. CBlockIndex_null\<lparr>nBits := 0x1e0ffff0\<rparr>)) (Some 2) 0 MainParams
    = Inr c \<and> good_bits MainParams c"
proof -
  let ?T = "line_tree 3 (\<lambda>p. CBlockIndex_null\<lparr>nBits := 0x1e0ffff0\<rparr>)"
  have k: "2 \<in> known ?T" by simp
  obtain v neg ov where s: "SetCompact 0x1e0ffff0 = (v, neg, ov)" by (cases "SetCompact 0x1e0ffff0") auto
  have "good_bits MainParams 0x1e0ffff0"
    using SetCompact_sound [OF s] unfolding good_bits_def s limit_val_networks
    by (simp add: compact_value_def compact_size_def compact_mant_def bit_numeral_rec)
  then have "\<forall>b \<in> known ?T. good_bits MainParams (nBits (obj ?T b))" by simp
  from GetNextWorkRequired_within_limit [OF line_tree_wf k pow_params_ok_networks(1) this] show ?thesis .
qed

text \<open>A header hash passes \<open>CheckProofOfWork\<close> exactly when its bits encode a
  positive target within the limit and the hash, as a number, does not exceed it.\<close>

theorem CheckProofOfWork_exact:
  "CheckProofOfWork hash c P \<longleftrightarrow>
     \<not> bit c 23 \<and> 0 < compact_value c \<and> compact_value c \<le> limit_val P \<and>
     bval (UintToArith256 hash) \<le> compact_value c"
  by (rule CheckProofOfWork_iff)

text \<open>\<open>GetBlockProof\<close> never throws and is the expected number of hashes,
  \<open>2 ^ 256\<close> over the target plus one rounded down, computed without a 257-bit number; it
  is zero for a target that is negative, zero or too large.\<close>

theorem GetBlockProof_expected_work:
  "\<exists>w. GetBlockProof b = Inr w \<and> bu_wf w \<and>
     bval w = (if bit (nBits b) 23 \<or> compact_value (nBits b) = 0 \<or> 2 ^ 256 \<le> compact_value (nBits b) then 0
               else 2 ^ 256 div (compact_value (nBits b) + 1))"
  by (rule GetBlockProof_val)

text \<open>\<open>GetBlockProofEquivalentTime\<close> is the work difference times the spacing over
  the tip's proof, with the sign of the difference, saturated at the largest \<open>int64_t\<close>.\<close>

theorem GetBlockProofEquivalentTime_exact:
  assumes "bu_wf (nChainWork to)" "bu_wf (nChainWork frm)"
    and "space = (if nHeight tip > nStoneForkBlock P then nPowNewTargetSpacing P
                  else nPowTargetSpacing P)" "0 < space" "space < 2 ^ 31"
    and "\<bar>bval (nChainWork to) - bval (nChainWork frm)\<bar> * space < 2 ^ 256"
    and "GetBlockProof tip = Inr w" "0 < bval w"
  shows "GetBlockProofEquivalentTime to frm tip P =
    Inr ((if bval (nChainWork frm) < bval (nChainWork to) then 1 else - 1) *
      min (\<bar>bval (nChainWork to) - bval (nChainWork frm)\<bar> * space div bval w) (2 ^ 63 - 1))"
  by (rule GetBlockProofEquivalentTime_val [OF assms])

theorem GetBlockProofEquivalentTime_exact_witness:
  defines "tip \<equiv> CBlockIndex_null\<lparr>nHeight := 5, nBits := 0x207fffff, nChainWork := from_u64 100\<rparr>"
  shows "GetBlockProofEquivalentTime tip (CBlockIndex_null\<lparr>nChainWork := from_u64 40\<rparr>) tip MainParams = Inr 3600"
proof -
  have bit: "\<not> bit (0x207fffff :: u32) 23" by (simp add: bit_numeral_rec)
  obtain w where w: "GetBlockProof tip = Inr w" "bval w = 2"
    using GetBlockProof_val [of tip] bit by (auto simp: tip_def compact_value_regtest)
  have sp: "(120 :: int) = (if nHeight tip > nStoneForkBlock MainParams then nPowNewTargetSpacing MainParams
      else nPowTargetSpacing MainParams)" by (simp add: MainParams_def tip_def)
  from GetBlockProofEquivalentTime_exact [OF _ _ sp _ _ _ w(1), of tip "CBlockIndex_null\<lparr>nChainWork := from_u64 40\<rparr>"] w(2)
  show ?thesis by (simp add: tip_def)
qed

text \<open>On the regression test network every tip of height 24 or more makes
  \<open>DarkGravityWave\<close> throw the division-by-zero error: the network's constructor does not
  set the block spacing the formula divides by.\<close>

theorem DarkGravityWave_regtest_throws:
  assumes "24 \<le> nHeight (obj T p)"
  shows "DarkGravityWave T (Some p) (RegTestParams g) = Inl (Thrown DivisionByZero)"
  using assms by (intro DarkGravityWave_no_spacing) (simp_all add: RegTestParams_def)

theorem DarkGravityWave_regtest_throws_witness:
  "DarkGravityWave (line_tree 30 (\<lambda>_. CBlockIndex_null)) (Some 24) (RegTestParams blob_null) = Inl (Thrown DivisionByZero)"
proof -
  have "24 \<le> nHeight (obj (line_tree 30 (\<lambda>_. CBlockIndex_null)) 24)" by simp
  then show ?thesis by (rule DarkGravityWave_regtest_throws)
qed

end
