(* ===== verification/VersionBits.thy ===== *)
theory VersionBits
  imports Pow
begin

text \<open>
  The BIP9 deployment state machine (versionbits.h, versionbits.cpp): the state of a deployment
  for a block, computed period by period with a cache.  The virtual functions of
  \<open>AbstractThresholdConditionChecker\<close> are the fields of \<open>checker\<close>; the
  checker of versionbits.cpp and the one of main.cpp for unknown bits are its instances.  The
  cache is the map from parents (or NULL) to states.
\<close>

section \<open>The checker\<close>

datatype ThresholdState =
  THRESHOLD_DEFINED | THRESHOLD_STARTED | THRESHOLD_LOCKED_IN | THRESHOLD_ACTIVE | THRESHOLD_FAILED

record checker =
  Condition :: "CBlockIndex \<Rightarrow> bool"
  BeginTime :: int
  EndTime :: int
  Period :: int
  Threshold :: int

type_synonym threshold_cache = "ptr option \<Rightarrow> ThresholdState option"

definition VERSIONBITS_TOP_BITS :: u32 where "VERSIONBITS_TOP_BITS = 0x20000000"
definition VERSIONBITS_TOP_MASK :: u32 where "VERSIONBITS_TOP_MASK = 0xE0000000"

definition VersionBitsMask :: "Consensus_Params \<Rightarrow> DeploymentPos \<Rightarrow> u32" where
  "VersionBitsMask P pos = push_bit (nat (dep_bit (vDeployments P pos))) 1"

definition VersionBitsConditionChecker :: "Consensus_Params \<Rightarrow> DeploymentPos \<Rightarrow> checker" where
  "VersionBitsConditionChecker P pos =
     \<lparr>Condition = (\<lambda>b. nVersion b AND VERSIONBITS_TOP_MASK = VERSIONBITS_TOP_BITS \<and>
                      nVersion b AND VersionBitsMask P pos \<noteq> 0),
      BeginTime = nStartTime (vDeployments P pos),
      EndTime = nTimeout (vDeployments P pos),
      Period = sint (nMinerConfirmationWindow P),
      Threshold = sint (nRuleChangeActivationThreshold P)\<rparr>"

section \<open>The state of a block\<close>

fun count_signals :: "btree \<Rightarrow> checker \<Rightarrow> nat \<Rightarrow> ptr option \<Rightarrow> fault + int" where
  "count_signals T chk 0 p = Inr 0"
| "count_signals T chk (Suc n) None = Inl NullDeref"
| "count_signals T chk (Suc n) (Some p) =
     sum_bind (count_signals T chk n (pprev (obj T p)))
       (\<lambda>count. Inr (if Condition chk (obj T p) then count + 1 else count))"

definition threshold_step :: "btree \<Rightarrow> checker \<Rightarrow> ThresholdState \<Rightarrow> ptr \<Rightarrow> fault + ThresholdState" where
  "threshold_step T chk state p =
     (case state of
        THRESHOLD_DEFINED \<Rightarrow>
          Inr (if GetMedianTimePast T p \<ge> EndTime chk then THRESHOLD_FAILED
               else if GetMedianTimePast T p \<ge> BeginTime chk then THRESHOLD_STARTED
               else THRESHOLD_DEFINED)
      | THRESHOLD_STARTED \<Rightarrow>
          (if GetMedianTimePast T p \<ge> EndTime chk then Inr THRESHOLD_FAILED
           else sum_bind (count_signals T chk (nat (Period chk)) (Some p))
                  (\<lambda>count. Inr (if count \<ge> Threshold chk then THRESHOLD_LOCKED_IN else THRESHOLD_STARTED)))
      | THRESHOLD_LOCKED_IN \<Rightarrow> Inr THRESHOLD_ACTIVE
      | THRESHOLD_FAILED \<Rightarrow> Inr THRESHOLD_FAILED
      | THRESHOLD_ACTIVE \<Rightarrow> Inr THRESHOLD_ACTIVE)"

fun walk_back :: "btree \<Rightarrow> checker \<Rightarrow> nat \<Rightarrow> ptr option \<Rightarrow> threshold_cache \<Rightarrow> ptr list \<Rightarrow>
    fault + threshold_cache \<times> ptr option \<times> ptr list" where
  \<comment> \<open>the loop over \<open>cache.count(pindexPrev) == 0\<close>; the number bounds its iterations\<close>
  "walk_back T chk 0 prev cache vToCompute = Inl AssertFailed"
| "walk_back T chk (Suc n) prev cache vToCompute =
     (if cache prev \<noteq> None then Inr (cache, prev, vToCompute)
      else case prev of
             None \<Rightarrow> Inr (cache(None \<mapsto> THRESHOLD_DEFINED), None, vToCompute)
           | Some p \<Rightarrow>
               if GetMedianTimePast T p < BeginTime chk
               then Inr (cache(prev \<mapsto> THRESHOLD_DEFINED), prev, vToCompute)
               else sum_bind (GetAncestor T p (nHeight (obj T p) - Period chk))
                      (\<lambda>a. walk_back T chk n a cache (p # vToCompute)))"

fun walk_forward :: "btree \<Rightarrow> checker \<Rightarrow> ThresholdState \<Rightarrow> threshold_cache \<Rightarrow> ptr list \<Rightarrow>
    fault + ThresholdState \<times> threshold_cache" where
  "walk_forward T chk state cache [] = Inr (state, cache)"
| "walk_forward T chk state cache (p # vToCompute) =
     sum_bind (threshold_step T chk state p)
       (\<lambda>stateNext. walk_forward T chk stateNext (cache(Some p \<mapsto> stateNext)) vToCompute)"

definition align_prev :: "btree \<Rightarrow> checker \<Rightarrow> ptr option \<Rightarrow> fault + ptr option" where
  "align_prev T chk pindexPrev =
     (case pindexPrev of
        None \<Rightarrow> Inr None
      | Some p \<Rightarrow> GetAncestor T p (nHeight (obj T p) - cmod (nHeight (obj T p) + 1) (Period chk)))"

definition GetStateFor :: "btree \<Rightarrow> checker \<Rightarrow> ptr option \<Rightarrow> threshold_cache \<Rightarrow>
    fault + ThresholdState \<times> threshold_cache" where
  "GetStateFor T chk pindexPrev cache =
     sum_bind (align_prev T chk pindexPrev)
       (\<lambda>prev. sum_bind (walk_back T chk (case prev of None \<Rightarrow> 1 | Some p \<Rightarrow> nat (nHeight (obj T p)) + 2) prev cache [])
         (\<lambda>(cache1, prev1, vToCompute).
            case cache1 prev1 of
              None \<Rightarrow> Inl AssertFailed
            | Some state \<Rightarrow> walk_forward T chk state cache1 vToCompute))"

definition VersionBitsState :: "btree \<Rightarrow> Consensus_Params \<Rightarrow> DeploymentPos \<Rightarrow> ptr option \<Rightarrow>
    (DeploymentPos \<Rightarrow> threshold_cache) \<Rightarrow> fault + ThresholdState \<times> (DeploymentPos \<Rightarrow> threshold_cache)" where
  "VersionBitsState T P pos pindexPrev caches =
     sum_bind (GetStateFor T (VersionBitsConditionChecker P pos) pindexPrev (caches pos))
       (\<lambda>(state, cache). Inr (state, caches(pos := cache)))"

definition ComputeBlockVersion :: "btree \<Rightarrow> Consensus_Params \<Rightarrow> ptr option \<Rightarrow>
    (DeploymentPos \<Rightarrow> threshold_cache) \<Rightarrow> fault + u32 \<times> (DeploymentPos \<Rightarrow> threshold_cache)" where
  \<comment> \<open>\<open>ComputeBlockVersion\<close> of main.cpp, with the global \<open>versionbitscache\<close>
    threaded\<close>
  "ComputeBlockVersion T P pindexPrev caches =
     foldl (\<lambda>acc pos. sum_bind acc (\<lambda>(v, cs).
              sum_bind (VersionBitsState T P pos pindexPrev cs) (\<lambda>(state, cs').
                Inr (if state = THRESHOLD_LOCKED_IN \<or> state = THRESHOLD_STARTED
                     then v OR VersionBitsMask P pos else v, cs'))))
       (Inr (VERSIONBITS_TOP_BITS, caches)) [DEPLOYMENT_TESTDUMMY, DEPLOYMENT_CSV]"

section \<open>Reference: BIP9 without a cache\<close>

definition bip9_step :: "btree \<Rightarrow> checker \<Rightarrow> ThresholdState \<Rightarrow> ptr \<Rightarrow> ThresholdState" where
  "bip9_step T chk state p =
     (case state of
        THRESHOLD_DEFINED \<Rightarrow>
          (if GetMedianTimePast T p \<ge> EndTime chk then THRESHOLD_FAILED
           else if GetMedianTimePast T p \<ge> BeginTime chk then THRESHOLD_STARTED else THRESHOLD_DEFINED)
      | THRESHOLD_STARTED \<Rightarrow>
          (if GetMedianTimePast T p \<ge> EndTime chk then THRESHOLD_FAILED
           else if int (length (filter (Condition chk) (last_blocks T (nat (Period chk)) p))) \<ge> Threshold chk
           then THRESHOLD_LOCKED_IN else THRESHOLD_STARTED)
      | THRESHOLD_LOCKED_IN \<Rightarrow> THRESHOLD_ACTIVE
      | THRESHOLD_ACTIVE \<Rightarrow> THRESHOLD_ACTIVE
      | THRESHOLD_FAILED \<Rightarrow> THRESHOLD_FAILED)"

definition prev_period :: "btree \<Rightarrow> checker \<Rightarrow> ptr \<Rightarrow> ptr option" where
  "prev_period T chk p = ancestor_at T p (nHeight (obj T p) - Period chk)"

fun period_state :: "btree \<Rightarrow> checker \<Rightarrow> nat \<Rightarrow> ptr option \<Rightarrow> ThresholdState" where
  "period_state T chk n None = THRESHOLD_DEFINED"
| "period_state T chk 0 (Some p) = THRESHOLD_DEFINED"
| "period_state T chk (Suc n) (Some p) =
     bip9_step T chk (period_state T chk n (prev_period T chk p)) p"

definition periods :: "btree \<Rightarrow> checker \<Rightarrow> ptr option \<Rightarrow> nat" where
  "periods T chk p = (case p of None \<Rightarrow> 0 | Some p \<Rightarrow> nat ((nHeight (obj T p) + 1) div Period chk))"

definition bip9_state :: "btree \<Rightarrow> checker \<Rightarrow> ptr option \<Rightarrow> ThresholdState" where
  "bip9_state T chk p = period_state T chk (periods T chk p) p"

definition boundary :: "btree \<Rightarrow> checker \<Rightarrow> ptr option \<Rightarrow> bool" where
  \<comment> \<open>the parent of the first block of a period: NULL or a block that ends one\<close>
  "boundary T chk p \<longleftrightarrow>
     (case p of None \<Rightarrow> True
      | Some p \<Rightarrow> p \<in> known T \<and> (nHeight (obj T p) + 1) mod Period chk = 0)"

definition period_start :: "btree \<Rightarrow> checker \<Rightarrow> ptr option \<Rightarrow> ptr option" where
  "period_start T chk prev =
     (case prev of
        None \<Rightarrow> None
      | Some p \<Rightarrow> ancestor_at T p (nHeight (obj T p) - (nHeight (obj T p) + 1) mod Period chk))"

definition mtp_mono :: "btree \<Rightarrow> bool" where
  \<comment> \<open>median times do not decrease along the chain, as the check of a header's time ensures\<close>
  "mtp_mono T \<longleftrightarrow> (\<forall>p \<in> known T. \<forall>q. pprev (obj T p) = Some q \<longrightarrow> GetMedianTimePast T q \<le> GetMedianTimePast T p)"

definition cache_ok :: "btree \<Rightarrow> checker \<Rightarrow> threshold_cache \<Rightarrow> bool" where
  "cache_ok T chk cache \<longleftrightarrow>
     (\<forall>key s. cache key = Some s \<longrightarrow> boundary T chk key \<and> s = bip9_state T chk key)"

lemma mtp_mono_walk:
  assumes wf: "btree_wf T" and mono: "mtp_mono T"
  shows "p \<in> known T \<Longrightarrow> walk T k p = Some q \<Longrightarrow> GetMedianTimePast T q \<le> GetMedianTimePast T p"
proof (induction k arbitrary: p)
  case 0
  then show ?case by simp
next
  case (Suc k)
  obtain r where r: "pprev (obj T p) = Some r" "walk T k r = Some q" using Suc.prems(2) by (auto split: option.splits)
  then have "r \<in> known T" using wf Suc.prems(1) by (auto simp: btree_wf_def linked_def)
  then have "GetMedianTimePast T q \<le> GetMedianTimePast T r" using Suc.IH r by simp
  also have "\<dots> \<le> GetMedianTimePast T p" using mono Suc.prems(1) r by (simp add: mtp_mono_def)
  finally show ?case .
qed

lemma mtp_mono_ancestor:
  "btree_wf T \<Longrightarrow> mtp_mono T \<Longrightarrow> p \<in> known T \<Longrightarrow> ancestor_at T p h = Some q \<Longrightarrow>
    GetMedianTimePast T q \<le> GetMedianTimePast T p"
  by (auto simp: ancestor_at_def split: if_splits intro: mtp_mono_walk)

fun period_path :: "btree \<Rightarrow> checker \<Rightarrow> ptr option \<Rightarrow> ptr list \<Rightarrow> ptr option \<Rightarrow> bool" where
  \<comment> \<open>the list holds the period ends from after \<open>a\<close> to \<open>b\<close>, oldest first\<close>
  "period_path T chk a [] b \<longleftrightarrow> a = b"
| "period_path T chk a (p # ps) b \<longleftrightarrow>
     boundary T chk (Some p) \<and> prev_period T chk p = a \<and> period_path T chk (Some p) ps b"

lemma count_signals_val:
  assumes wf: "btree_wf T"
  shows "p \<in> known T \<Longrightarrow> int n \<le> nHeight (obj T p) + 1 \<Longrightarrow>
    count_signals T chk n (Some p) = Inr (int (length (filter (Condition chk) (last_blocks T n p))))"
proof (induction n arbitrary: p)
  case 0
  then show ?case by simp
next
  case (Suc n)
  have l: "linked T p" using wf Suc.prems(1) by (simp add: btree_wf_def)
  show ?case
  proof (cases "pprev (obj T p)")
    case None
    then have "n = 0" using l Suc.prems(2) by (simp add: linked_def)
    then show ?thesis using None by simp
  next
    case (Some q)
    then have "q \<in> known T" "int n \<le> nHeight (obj T q) + 1" using l Suc.prems(2) by (auto simp: linked_def)
    then show ?thesis using Suc.IH [of q] Some by simp
  qed
qed

section \<open>The contract of a checker\<close>

locale bip9_checker =
  fixes chk :: checker
  assumes period_pos: "0 < Period chk"
    and begin_end: "BeginTime chk \<le> EndTime chk"
begin

lemma boundary_prev:
  assumes wf: "btree_wf T" and b: "boundary T chk (Some p)"
  shows "boundary T chk (prev_period T chk p)"
    and "periods T chk (Some p) = Suc (periods T chk (prev_period T chk p))"
    and "GetAncestor T p (nHeight (obj T p) - Period chk) = Inr (prev_period T chk p)"
proof -
  let ?h = "nHeight (obj T p)" and ?n = "Period chk"
  have p: "p \<in> known T" "(?h + 1) mod ?n = 0" using b by (auto simp: boundary_def)
  have h0: "0 \<le> ?h" using wf p by (auto simp: btree_wf_def linked_def)
  obtain k where k: "?h + 1 = ?n * k" using p(2) by auto
  then have "0 < ?n * k" using h0 by simp
  then have k1: "1 \<le> k" using period_pos by (simp add: zero_less_mult_iff)
  have idx: "periods T chk (Some p) = nat k" using k period_pos by (simp add: periods_def)
  show "GetAncestor T p (?h - ?n) = Inr (prev_period T chk p)"
    using GetAncestor_correct [OF wf p(1)] by (simp add: prev_period_def)
  show "boundary T chk (prev_period T chk p)"
    and "periods T chk (Some p) = Suc (periods T chk (prev_period T chk p))"
  proof -
    have *: "boundary T chk (prev_period T chk p) \<and> nat k = Suc (periods T chk (prev_period T chk p))"
    proof (cases "k = 1")
      case True
      then have "?h - ?n < 0" using k by simp
      then have "prev_period T chk p = None" by (simp add: prev_period_def ancestor_at_def)
      then show ?thesis using True by (simp add: boundary_def periods_def)
    next
      case False
      then have "?n * 2 \<le> ?n * k" using k1 period_pos by (intro mult_left_mono) auto
      then have "0 \<le> ?h - ?n" using k period_pos by linarith
      then obtain q where q: "ancestor_at T p (?h - ?n) = Some q" "q \<in> known T" "nHeight (obj T q) = ?h - ?n"
        using ancestor_at_total [OF wf p(1), of "?h - ?n"] period_pos by auto
      have e: "nHeight (obj T q) + 1 = ?n * (k - 1)" using q(3) k by (simp add: algebra_simps)
      then have "boundary T chk (Some q)" using q(2) by (simp add: boundary_def)
      moreover have "periods T chk (Some q) = nat (k - 1)" using e period_pos by (simp add: periods_def)
      ultimately show ?thesis using q(1) k1 False by (simp add: prev_period_def)
    qed
    then show "boundary T chk (prev_period T chk p)" by simp
    show "periods T chk (Some p) = Suc (periods T chk (prev_period T chk p))" using * idx by simp
  qed
qed

lemma boundary_start:
  assumes wf: "btree_wf T" and p: "\<And>q. prev = Some q \<Longrightarrow> q \<in> known T"
  shows "boundary T chk (period_start T chk prev) \<and> align_prev T chk prev = Inr (period_start T chk prev) \<and>
    periods T chk (period_start T chk prev) \<le> (case prev of None \<Rightarrow> 0 | Some q \<Rightarrow> nat (nHeight (obj T q)) + 1)"
proof (cases prev)
  case None
  then show ?thesis by (simp add: period_start_def boundary_def align_prev_def periods_def)
next
  case (Some q)
  let ?h = "nHeight (obj T q)" and ?n = "Period chk"
  have q: "q \<in> known T" using p Some by simp
  have h0: "0 \<le> ?h" using wf q by (auto simp: btree_wf_def linked_def)
  define t where "t = ?h - (?h + 1) mod ?n"
  have m: "0 \<le> (?h + 1) mod ?n" "(?h + 1) mod ?n \<le> ?h + 1"
    using period_pos h0 by (auto intro: zmod_le_nonneg_dividend)
  have "t + 1 = ?n * ((?h + 1) div ?n)" by (simp add: t_def minus_mod_eq_mult_div [symmetric])
  then have dv: "(t + 1) mod ?n = 0" by simp
  have al: "align_prev T chk prev = Inr (period_start T chk prev)"
    using GetAncestor_correct [OF wf q] period_pos h0 Some by (simp add: align_prev_def period_start_def)
  have ps: "period_start T chk prev = ancestor_at T q t" by (simp add: period_start_def Some t_def)
  show ?thesis
  proof (cases "t < 0")
    case True
    then have "period_start T chk prev = None" by (simp add: ps ancestor_at_def)
    then show ?thesis using al by (simp add: boundary_def periods_def)
  next
    case False
    then obtain r where r: "ancestor_at T q t = Some r" "r \<in> known T" "nHeight (obj T r) = t"
      using ancestor_at_total [OF wf q, of t] m by (auto simp: t_def)
    have "(t + 1) div ?n \<le> t + 1" using False period_pos by (intro int_div_le_self) simp_all
    then have "nat ((t + 1) div ?n) \<le> nat ?h + 1" using m(1) h0 by (simp add: t_def)
    then show ?thesis using al r dv ps Some by (simp add: boundary_def periods_def)
  qed
qed

lemma bip9_state_Some:
  "btree_wf T \<Longrightarrow> boundary T chk (Some p) \<Longrightarrow>
    bip9_state T chk (Some p) = bip9_step T chk (bip9_state T chk (prev_period T chk p)) p"
  using boundary_prev(2) [of T p] by (simp add: bip9_state_def)

lemma bip9_state_before:
  assumes wf: "btree_wf T" and mono: "mtp_mono T"
  shows "boundary T chk (Some p) \<Longrightarrow> GetMedianTimePast T p < BeginTime chk \<Longrightarrow>
    bip9_state T chk (Some p) = THRESHOLD_DEFINED"
proof (induction "periods T chk (Some p)" arbitrary: p rule: less_induct)
  case less
  have step: "bip9_state T chk (Some p) = bip9_step T chk (bip9_state T chk (prev_period T chk p)) p"
    using bip9_state_Some [OF wf less.prems(1)] .
  have "bip9_state T chk (prev_period T chk p) = THRESHOLD_DEFINED"
  proof (cases "prev_period T chk p")
    case None
    then show ?thesis by (simp add: bip9_state_def)
  next
    case (Some q)
    have "p \<in> known T" using less.prems(1) by (simp add: boundary_def)
    then have "GetMedianTimePast T q \<le> GetMedianTimePast T p"
      using mtp_mono_ancestor [OF wf mono] Some by (simp add: prev_period_def)
    then show ?thesis using less.hyps [of q] boundary_prev(1,2) [OF wf less.prems(1)] less.prems(2) Some by simp
  qed
  then show ?case using less.prems(2) begin_end by (simp add: step bip9_step_def)
qed

lemma threshold_step_bip9:
  assumes wf: "btree_wf T" and b: "boundary T chk (Some p)"
  shows "threshold_step T chk st p = Inr (bip9_step T chk st p)"
proof -
  have p: "p \<in> known T" "(nHeight (obj T p) + 1) mod Period chk = 0" using b by (auto simp: boundary_def)
  then have "0 < nHeight (obj T p) + 1" using wf by (auto simp: btree_wf_def linked_def)
  then have "Period chk \<le> nHeight (obj T p) + 1" using p(2) by (auto intro: zdvd_imp_le)
  then have "count_signals T chk (nat (Period chk)) (Some p) =
      Inr (int (length (filter (Condition chk) (last_blocks T (nat (Period chk)) p))))"
    using period_pos by (intro count_signals_val [OF wf p(1)]) simp
  then show ?thesis by (cases st) (simp_all add: threshold_step_def bip9_step_def)
qed

lemma cache_ok_upd:
  "cache_ok T chk cache \<Longrightarrow> boundary T chk key \<Longrightarrow> s = bip9_state T chk key \<Longrightarrow>
    cache_ok T chk (cache(key \<mapsto> s)) \<and> cache \<subseteq>\<^sub>m cache(key \<mapsto> s)"
  by (auto simp: cache_ok_def map_le_def dom_def)

lemma walk_forward_correct:
  assumes wf: "btree_wf T"
  shows "cache_ok T chk cache \<Longrightarrow> period_path T chk a ps b \<Longrightarrow> st = bip9_state T chk a \<Longrightarrow>
    \<exists>cache'. walk_forward T chk st cache ps = Inr (bip9_state T chk b, cache') \<and>
      cache_ok T chk cache' \<and> cache \<subseteq>\<^sub>m cache'"
proof (induction ps arbitrary: a st cache)
  case Nil
  then show ?case by simp
next
  case (Cons p ps)
  have b: "boundary T chk (Some p)" "prev_period T chk p = a" using Cons.prems(2) by auto
  have s: "bip9_step T chk st p = bip9_state T chk (Some p)"
    using bip9_state_Some [OF wf b(1)] b(2) Cons.prems(3) by simp
  let ?c = "cache(Some p \<mapsto> bip9_state T chk (Some p))"
  note c = cache_ok_upd [OF Cons.prems(1) b(1) refl]
  obtain c' where "walk_forward T chk (bip9_state T chk (Some p)) ?c ps = Inr (bip9_state T chk b, c')"
    "cache_ok T chk c'" "?c \<subseteq>\<^sub>m c'"
    using Cons.IH [OF conjunct1 [OF c] _ refl] Cons.prems(2) by (auto simp del: fun_upd_apply)
  then show ?case using threshold_step_bip9 [OF wf b(1), of st] s c
    by (auto intro: map_le_trans)
qed

lemma walk_back_correct:
  assumes wf: "btree_wf T" and mono: "mtp_mono T"
  shows "cache_ok T chk cache \<Longrightarrow> boundary T chk prev \<Longrightarrow> periods T chk prev < n \<Longrightarrow>
    period_path T chk prev ps b \<Longrightarrow>
    \<exists>cache' prev' ps'. walk_back T chk n prev cache ps = Inr (cache', prev', ps') \<and>
      cache_ok T chk cache' \<and> cache \<subseteq>\<^sub>m cache' \<and> cache' prev' = Some (bip9_state T chk prev') \<and>
      period_path T chk prev' ps' b"
proof (induction n arbitrary: prev ps)
  case 0
  then show ?case by simp
next
  case (Suc n)
  show ?case
  proof (cases "cache prev")
    case (Some s)
    then have "s = bip9_state T chk prev" using Suc.prems(1) by (simp add: cache_ok_def)
    then show ?thesis using Some Suc.prems by simp
  next
    case miss: None
    show ?thesis
    proof (cases prev)
      case None
      then show ?thesis using miss cache_ok_upd [OF Suc.prems(1,2), of THRESHOLD_DEFINED] Suc.prems(4)
        by (simp add: bip9_state_def)
    next
      case (Some p)
      then have bp: "boundary T chk (Some p)" using Suc.prems(2) by simp
      show ?thesis
      proof (cases "GetMedianTimePast T p < BeginTime chk")
        case True
        have "bip9_state T chk (Some p) = THRESHOLD_DEFINED" by (rule bip9_state_before [OF wf mono bp True])
        then show ?thesis using miss True Some Suc.prems(4) cache_ok_upd [OF Suc.prems(1) bp, of THRESHOLD_DEFINED]
          by simp
      next
        case False
        note b = boundary_prev [OF wf bp]
        have "period_path T chk (prev_period T chk p) (p # ps) b" using Suc.prems(4) bp Some by simp
        then show ?thesis
          using Suc.IH [OF Suc.prems(1) b(1), of "p # ps"] Suc.prems(3) b(2,3) miss Some False by simp
      qed
    qed
  qed
qed

lemma GetStateFor_correct:
  assumes wf: "btree_wf T" and mono: "mtp_mono T" and c: "cache_ok T chk cache"
    and p: "\<And>q. prev = Some q \<Longrightarrow> q \<in> known T"
  shows "\<exists>cache'. GetStateFor T chk prev cache = Inr (bip9_state T chk (period_start T chk prev), cache') \<and>
    cache_ok T chk cache' \<and> cache \<subseteq>\<^sub>m cache'"
proof -
  let ?s = "period_start T chk prev"
  let ?f = "case ?s of None \<Rightarrow> 1 | Some p \<Rightarrow> nat (nHeight (obj T p)) + 2"
  note st = boundary_start [OF wf p, of prev]
  have "periods T chk ?s < ?f"
  proof (cases ?s)
    case (Some q)
    then have h: "0 \<le> nHeight (obj T q)" using st wf by (auto simp: boundary_def btree_wf_def linked_def)
    have "(nHeight (obj T q) + 1) div Period chk \<le> nHeight (obj T q) + 1"
      using h period_pos by (intro int_div_le_self) simp_all
    then show ?thesis using Some h by (simp add: periods_def)
  qed (simp add: periods_def)
  then obtain c1 p1 ps where 1: "walk_back T chk ?f ?s cache [] = Inr (c1, p1, ps)" "cache_ok T chk c1"
    "cache \<subseteq>\<^sub>m c1" "c1 p1 = Some (bip9_state T chk p1)" "period_path T chk p1 ps ?s"
    using walk_back_correct [OF wf mono c, of ?s ?f "[]" ?s] st by auto
  obtain c2 where 2: "walk_forward T chk (bip9_state T chk p1) c1 ps = Inr (bip9_state T chk ?s, c2)"
    "cache_ok T chk c2" "c1 \<subseteq>\<^sub>m c2"
    using walk_forward_correct [OF wf 1(2,5) refl] by auto
  have "GetStateFor T chk prev cache = Inr (bip9_state T chk ?s, c2)"
    unfolding GetStateFor_def using st 1(1,4) 2(1) by simp
  then show ?thesis using 1(3) 2 by (auto intro: map_le_trans)
qed

end

section \<open>The checkers of the networks\<close>

interpretation csv_main: bip9_checker "VersionBitsConditionChecker MainParams DEPLOYMENT_CSV"
  by unfold_locales (simp_all add: VersionBitsConditionChecker_def MainParams_def)

interpretation dummy_main: bip9_checker "VersionBitsConditionChecker MainParams DEPLOYMENT_TESTDUMMY"
  by unfold_locales (simp_all add: VersionBitsConditionChecker_def MainParams_def)

section \<open>Median times\<close>

text \<open>
  The hypothesis on median times follows from the rule every accepted header obeys: its time is
  after the median time past of its parent.
\<close>

definition header_times_ok :: "btree \<Rightarrow> bool" where
  "header_times_ok T \<longleftrightarrow>
     (\<forall>p \<in> known T. \<forall>q. pprev (obj T p) = Some q \<longrightarrow> GetBlockTime (obj T p) > GetMedianTimePast T q)"

lemma sorted_nth_ge_iff:
  assumes "sorted xs" "k < length xs"
  shows "length (filter (\<lambda>t. t < m) xs) \<le> k \<longleftrightarrow> m \<le> xs ! k"
proof
  assume "m \<le> xs ! k"
  have "m \<le> xs ! (k + i)" if "i < length xs - k" for i
    using \<open>m \<le> xs ! k\<close> sorted_nth_mono [OF assms(1) le_add1, of k i] less_diff_conv [of i "length xs" k] that
    by (simp add: add.commute)
  then have e: "filter (\<lambda>t. t < m) (drop k xs) = []"
    by (auto simp: filter_empty_conv in_set_conv_nth not_less)
  have "length (filter (\<lambda>t. t < m) xs) = length (filter (\<lambda>t. t < m) (take k xs))"
    using e by (metis append_Nil2 append_take_drop_id filter_append)
  also have "\<dots> \<le> k" by (rule order_trans [OF length_filter_le]) simp
  finally show "length (filter (\<lambda>t. t < m) xs) \<le> k" .
next
  assume le: "length (filter (\<lambda>t. t < m) xs) \<le> k"
  show "m \<le> xs ! k"
  proof (rule ccontr)
    assume "\<not> m \<le> xs ! k"
    then have "xs ! i < m" if "i < Suc k" for i
      using sorted_nth_mono [OF assms(1), of i k] assms(2) that by simp
    then have "\<forall>x \<in> set (take (Suc k) xs). x < m" by (auto simp: in_set_conv_nth)
    then have "filter (\<lambda>t. t < m) (take (Suc k) xs) = take (Suc k) xs" by (simp add: filter_id_conv)
    then have "Suc k \<le> length (filter (\<lambda>t. t < m) xs)"
      using assms(2) by (metis append_take_drop_id filter_append length_append length_take
          le_add1 min.absorb2 Suc_leI)
    then show False using le by simp
  qed
qed

lemma median_times_take: "k \<le> n \<Longrightarrow> median_times T k p = take k (median_times T n p)"
proof (induction k arbitrary: n p)
  case (Suc k)
  then obtain m where "n = Suc m" "k \<le> m" by (cases n) auto
  then show ?case using Suc.IH by (cases p) auto
qed simp

lemma length_median_times: "length (median_times T n p) \<le> n"
  by (induction T n p rule: median_times.induct) auto

lemma GetMedianTimePast_step:
  assumes q: "pprev (obj T p) = Some q" and t: "GetMedianTimePast T q < GetBlockTime (obj T p)"
  shows "GetMedianTimePast T q \<le> GetMedianTimePast T p"
proof -
  define old where "old = median_times T 11 (Some q)"
  define m where "m = GetMedianTimePast T q"
  have new: "median_times T 11 (Some p) = GetBlockTime (obj T p) # take 10 old"
    using median_times.simps(2) [of T 10] median_times_take [of 10 11 T "Some q"] q
    by (simp add: old_def eval_nat_numeral)
  have m: "m = sort old ! (length old div 2)"
    by (simp add: m_def old_def GetMedianTimePast_def nMedianTimeSpan_def Let_def)
  have ne: "0 < length old" using median_times_nonempty [of T q] by (simp add: old_def nMedianTimeSpan_def)
  have le: "length old \<le> 11" using length_median_times [of T 11] by (simp add: old_def)
  have fl: "length (filter P (sort xs)) = length (filter P xs)" for P and xs :: "int list"
    by (metis filter_sort length_sort)
  have "length (filter (\<lambda>t. t < m) (sort old)) \<le> length old div 2"
    using sorted_nth_ge_iff [of "sort old" "length old div 2" m] ne m by simp
  then have "length (filter (\<lambda>t. t < m) old) \<le> length old div 2" by (simp add: fl)
  moreover have "length (filter (\<lambda>t. t < m) (take 10 old)) \<le> length (filter (\<lambda>t. t < m) old)"
    by (metis append_take_drop_id filter_append length_append le_add1)
  ultimately have c: "length (filter (\<lambda>t. t < m) (median_times T 11 (Some p))) \<le>
      length (median_times T 11 (Some p)) div 2"
    using t le by (auto simp: new m_def [symmetric])
  let ?n = "median_times T 11 (Some p)"
  have "0 < length ?n" by (simp add: new)
  then have "length ?n div 2 < length (sort ?n)" unfolding length_sort by (rule div_less_dividend [rotated]) simp
  then have "m \<le> sort ?n ! (length ?n div 2)"
    using sorted_nth_ge_iff [OF sorted_sort, of "length ?n div 2" ?n m] c unfolding fl by blast
  then show ?thesis by (simp add: m_def GetMedianTimePast_def nMedianTimeSpan_def Let_def)
qed

lemma mtp_mono_headers: "header_times_ok T \<Longrightarrow> mtp_mono T"
  by (auto simp: header_times_ok_def mtp_mono_def intro: GetMedianTimePast_step)

section \<open>Properties\<close>

text \<open>C7: on a well-formed tree whose headers obey the median-time rule, the cached computation
  of a deployment's state returns the state of the BIP9 machine run from the genesis block without
  a cache, for any cache holding correct entries; the cache it leaves holds correct entries and
  every entry it had.\<close>

theorem GetStateFor_is_BIP9:
  assumes "btree_wf T" "header_times_ok T" "0 < Period chk" "BeginTime chk \<le> EndTime chk"
    and "cache_ok T chk cache" "\<And>q. prev = Some q \<Longrightarrow> q \<in> known T"
  shows "\<exists>cache'. GetStateFor T chk prev cache = Inr (bip9_state T chk (period_start T chk prev), cache') \<and>
    cache_ok T chk cache' \<and> cache \<subseteq>\<^sub>m cache'"
  by (rule bip9_checker.GetStateFor_correct [OF bip9_checker.intro [OF assms(3,4)] assms(1)
        mtp_mono_headers [OF assms(2)] assms(5,6)])

theorem GetStateFor_is_BIP9_witness:
  defines "T \<equiv> line_tree 2 (\<lambda>p. CBlockIndex_null\<lparr>nTime := (if p = 0 then 5 else 9)\<rparr>)"
  shows "\<exists>s cache. GetStateFor T (VersionBitsConditionChecker MainParams DEPLOYMENT_CSV) (Some 1) (\<lambda>_. None) =
    Inr (s, cache)"
proof -
  let ?c = "VersionBitsConditionChecker MainParams DEPLOYMENT_CSV"
  have wf: "btree_wf T" by (simp add: T_def line_tree_wf)
  have mt: "median_times T (Suc n) (Some 0) = [5]" for n by (cases n) (simp_all add: T_def GetBlockTime_def)
  have "GetMedianTimePast T 0 = 5"
    using mt [of 10] by (simp add: GetMedianTimePast_def nMedianTimeSpan_def Let_def eval_nat_numeral)
  then have ht: "header_times_ok T"
    by (auto simp: header_times_ok_def T_def GetBlockTime_def less_2_cases_iff)
  have k: "Some 1 = Some q \<Longrightarrow> q \<in> known T" for q by (simp add: T_def)
  have ck: "cache_ok T ?c (\<lambda>_. None)" by (simp add: cache_ok_def)
  from GetStateFor_is_BIP9 [OF wf ht csv_main.period_pos csv_main.begin_end ck k] show ?thesis by blast
qed

text \<open>The rule that a header's time is after the median time past of its parent makes the
  median times of a chain non-decreasing.\<close>

theorem median_time_monotone:
  assumes "pprev (obj T p) = Some q" "GetMedianTimePast T q < GetBlockTime (obj T p)"
  shows "GetMedianTimePast T q \<le> GetMedianTimePast T p"
  by (rule GetMedianTimePast_step [OF assms])

theorem median_time_monotone_witness:
  defines "T \<equiv> line_tree 2 (\<lambda>p. CBlockIndex_null\<lparr>nTime := (if p = 0 then 5 else 9)\<rparr>)"
  shows "GetMedianTimePast T 0 \<le> GetMedianTimePast T 1"
proof -
  have mt: "median_times T (Suc n) (Some 0) = [5]" for n by (cases n) (simp_all add: T_def GetBlockTime_def)
  have "GetMedianTimePast T 0 = 5"
    using mt [of 10] by (simp add: GetMedianTimePast_def nMedianTimeSpan_def Let_def eval_nat_numeral)
  then have "GetMedianTimePast T 0 < GetBlockTime (obj T 1)" by (simp add: T_def GetBlockTime_def)
  moreover have "pprev (obj T 1) = Some 0" by (simp add: T_def)
  ultimately show ?thesis by (rule median_time_monotone [rotated])
qed

text \<open>The states \<open>ACTIVE\<close> and \<open>FAILED\<close> are final and
  \<open>LOCKED_IN\<close> lasts one period: the state at the end of a period follows from the one at
  the end of the period before.\<close>

theorem BIP9_final_states:
  assumes "btree_wf T" "boundary T chk (Some p)" "0 < Period chk" "BeginTime chk \<le> EndTime chk"
  shows "(bip9_state T chk (prev_period T chk p) \<in> {THRESHOLD_LOCKED_IN, THRESHOLD_ACTIVE} \<longrightarrow>
      bip9_state T chk (Some p) = THRESHOLD_ACTIVE) \<and>
    (bip9_state T chk (prev_period T chk p) = THRESHOLD_FAILED \<longrightarrow>
      bip9_state T chk (Some p) = THRESHOLD_FAILED)"
  using bip9_checker.bip9_state_Some [OF bip9_checker.intro [OF assms(3,4)] assms(1,2)]
  by (auto simp: bip9_step_def)

theorem BIP9_final_states_witness:
  defines "T \<equiv> line_tree 3 (\<lambda>p. CBlockIndex_null\<lparr>nTime := 5\<rparr>)"
    and "chk \<equiv> \<lparr>Condition = (\<lambda>_. True), BeginTime = 0, EndTime = 2 ^ 40, Period = 1, Threshold = 1\<rparr>"
  shows "bip9_state T chk (Some 2) = THRESHOLD_ACTIVE"
proof -
  have mt: "median_times T n (Some p) \<noteq> [] \<Longrightarrow> set (median_times T n (Some p)) = {5}" for n p
  proof (induction n arbitrary: p)
    case (Suc n)
    then show ?case by (cases n; cases p) (auto simp: T_def GetBlockTime_def)
  qed simp
  have m5: "GetMedianTimePast T p = 5" for p
    using GetMedianTimePast_median(1) [of T p] mt [OF median_times_nonempty] by simp
  have wf: "btree_wf T" by (simp add: T_def line_tree_wf)
  have b: "boundary T chk (Some 2)" by (simp add: boundary_def chk_def T_def)
  have pp: "prev_period T chk 2 = Some 1" "prev_period T chk 1 = Some 0" "prev_period T chk 0 = None"
    by (simp_all add: prev_period_def chk_def T_def ancestor_at_def)
  have n: "periods T chk (Some 1) = Suc (Suc 0)" by (simp add: periods_def chk_def T_def)
  have "period_state T chk (Suc (Suc 0)) (Some 1) = THRESHOLD_LOCKED_IN"
    by (simp add: pp pp(2) [unfolded One_nat_def] bip9_step_def m5) (simp add: chk_def)
  then have "bip9_state T chk (prev_period T chk 2) = THRESHOLD_LOCKED_IN"
    unfolding bip9_state_def pp(1) n .
  then show ?thesis
    using BIP9_final_states [OF wf b] by (simp add: chk_def)
qed

end
