(* ===== verification/BlockTree.thy ===== *)
theory BlockTree
  imports Pow
begin

text \<open>
  Block headers (primitives/block.h) and the block tree of main.cpp: the map from hashes to index
  objects, \<open>AddToBlockIndex\<close>, the best known header, and the order in which
  candidate tips are compared.  The hash of a header (\<open>CBlockHeader::GetHash\<close>, the
  vendored NeoScrypt and X16R) is a parameter.
\<close>

section \<open>Headers\<close>

record CBlockHeader =
  hdr_nVersion :: u32
  hashPrevBlock :: uint256
  hdr_hashMerkleRoot :: uint256
  hdr_nTime :: u32
  hdr_nBits :: u32
  hdr_nNonce :: u32

definition header_ok :: "CBlockHeader \<Rightarrow> bool" where
  "header_ok h \<longleftrightarrow> blob_ok (hashPrevBlock h) \<and> blob_ok (hdr_hashMerkleRoot h)"

definition SerializeHeader :: "CBlockHeader \<Rightarrow> bytes" where
  "SerializeHeader h =
     ser_writedata32 (hdr_nVersion h) @ hashPrevBlock h @ hdr_hashMerkleRoot h @
     ser_writedata32 (hdr_nTime h) @ ser_writedata32 (hdr_nBits h) @ ser_writedata32 (hdr_nNonce h)"

definition UnserializeHeader :: "CBlockHeader reader" where
  "UnserializeHeader =
     read_then ser_readdata32 (\<lambda>v. read_then (stream_read 32) (\<lambda>prev. read_then (stream_read 32) (\<lambda>root.
     read_then ser_readdata32 (\<lambda>t. read_then ser_readdata32 (\<lambda>b. read_then ser_readdata32 (\<lambda>n.
     read_return \<lparr>hdr_nVersion = v, hashPrevBlock = prev, hdr_hashMerkleRoot = root,
                  hdr_nTime = t, hdr_nBits = b, hdr_nNonce = n\<rparr>))))))"

interpretation header_codec: canonical_codec SerializeHeader UnserializeHeader header_ok
proof unfold_locales
  fix h rest
  assume "header_ok h"
  then show "UnserializeHeader (SerializeHeader h @ rest) = Inr (h, rest)"
    by (simp add: UnserializeHeader_def SerializeHeader_def header_ok_def blob_ok_def
        ser32.dec_enc read_return_def)
next
  fix bs h rest
  assume "UnserializeHeader bs = Inr (h, rest)"
  then show "bs = SerializeHeader h @ rest \<and> header_ok h"
    by (auto simp: UnserializeHeader_def SerializeHeader_def header_ok_def blob_ok_def
        ser32.dec_iff read_then_Inr_iff read_return_def dest!: stream_read_Inr)
qed

lemma length_SerializeHeader: "header_ok h \<Longrightarrow> length (SerializeHeader h) = 80"
  by (simp add: SerializeHeader_def header_ok_def blob_ok_def ser_writedata32_def)

section \<open>The block map\<close>

definition CBlockIndex_of :: "CBlockHeader \<Rightarrow> CBlockIndex" where
  \<comment> \<open>\<open>CBlockIndex(const CBlockHeader&)\<close>\<close>
  "CBlockIndex_of h =
     CBlockIndex_null\<lparr>nVersion := hdr_nVersion h, hashMerkleRoot := hdr_hashMerkleRoot h,
       nTime := hdr_nTime h, nBits := hdr_nBits h, nNonce := hdr_nNonce h\<rparr>"

record chain_state =
  mapBlockIndex :: "uint256 \<Rightarrow> ptr option"
  tree :: btree
  next_ptr :: ptr  \<comment> \<open>the address the next \<open>new CBlockIndex\<close> returns\<close>
  pindexBestHeader :: "ptr option"
  setDirtyBlockIndex :: "ptr set"

definition of_uint_res :: "uint_error + 'a \<Rightarrow> fault + 'a" where
  "of_uint_res r = (case r of Inl e \<Rightarrow> Inl (Thrown e) | Inr a \<Rightarrow> Inr a)"

definition put_obj :: "btree \<Rightarrow> ptr \<Rightarrow> CBlockIndex \<Rightarrow> btree" where
  "put_obj T p b = T\<lparr>obj := (obj T)(p := b), known := insert p (known T)\<rparr>"

definition AddToBlockIndex :: "(CBlockHeader \<Rightarrow> uint256) \<Rightarrow> chain_state \<Rightarrow> CBlockHeader \<Rightarrow>
    fault + chain_state \<times> ptr" where
  "AddToBlockIndex hashfn cs block =
     (let hash = hashfn block in
      case mapBlockIndex cs hash of
        Some p \<Rightarrow> Inr (cs, p)
      | None \<Rightarrow>
          (let p = next_ptr cs;
               new = (CBlockIndex_of block)\<lparr>nSequenceId := 0, phashBlock := hash\<rparr>;
               m = (mapBlockIndex cs)(hash \<mapsto> p);
               T0 = put_obj (tree cs) p new
           in sum_bind (case m (hashPrevBlock block) of
                          Some q \<Rightarrow> link_block T0 p new (Some q)
                        | None \<Rightarrow> Inr T0)
              (\<lambda>T1. sum_bind (of_uint_res (GetBlockProof (obj T1 p)))
              (\<lambda>proof.
                 let b = obj T1 p;
                     work = bu_add (case pprev b of None \<Rightarrow> bu_zero | Some q \<Rightarrow> nChainWork (obj T1 q)) proof
                 in sum_bind (RaiseValidity (b\<lparr>nChainWork := work\<rparr>) BLOCK_VALID_TREE)
                 (\<lambda>(b', _).
                    let T2 = put_obj T1 p b';
                        best = (case pindexBestHeader cs of
                                  None \<Rightarrow> Some p
                                | Some h \<Rightarrow> (if bu_compare (nChainWork (obj T2 h)) (nChainWork b') < 0
                                           then Some p else Some h))
                    in Inr (\<lparr>mapBlockIndex = m, tree = T2, next_ptr = Suc p, pindexBestHeader = best,
                             setDirtyBlockIndex = insert p (setDirtyBlockIndex cs)\<rparr>, p))))))"

section \<open>The order of candidate tips\<close>

definition work_less :: "btree \<Rightarrow> ptr \<Rightarrow> ptr \<Rightarrow> bool" where
  \<comment> \<open>\<open>CBlockIndexWorkComparator\<close>\<close>
  "work_less T pa pb =
     (let a = obj T pa; b = obj T pb
      in if bu_compare (nChainWork a) (nChainWork b) > 0 then False
         else if bu_compare (nChainWork a) (nChainWork b) < 0 then True
         else if nSequenceId a < nSequenceId b then False
         else if nSequenceId a > nSequenceId b then True
         else if pa < pb then False
         else if pa > pb then True
         else False)"

section \<open>The invariant of the block map\<close>

definition proof_val :: "u32 \<Rightarrow> int" where
  \<comment> \<open>the expected number of hashes for a block with these bits\<close>
  "proof_val c =
     (if bit c 23 \<or> compact_value c = 0 \<or> 2 ^ 256 \<le> compact_value c then 0
      else 2 ^ 256 div (compact_value c + 1))"

definition work :: "btree \<Rightarrow> ptr \<Rightarrow> int" where
  "work T p = bval (nChainWork (obj T p))"

definition work_ok :: "btree \<Rightarrow> ptr \<Rightarrow> bool" where
  "work_ok T p \<longleftrightarrow> bu_wf (nChainWork (obj T p)) \<and>
     work T p = ((case pprev (obj T p) of None \<Rightarrow> 0 | Some q \<Rightarrow> work T q) + proof_val (nBits (obj T p)))
                mod 2 ^ 256"

definition best_ok :: "btree \<Rightarrow> ptr option \<Rightarrow> bool" where
  "best_ok T best \<longleftrightarrow>
     (case best of None \<Rightarrow> known T = {} | Some h \<Rightarrow> h \<in> known T \<and> (\<forall>p \<in> known T. work T p \<le> work T h))"

definition map_ok :: "chain_state \<Rightarrow> bool" where
  "map_ok cs \<longleftrightarrow> (\<forall>h p. mapBlockIndex cs h = Some p \<longleftrightarrow>
     p \<in> known (tree cs) \<and> phashBlock (obj (tree cs) p) = h)"

definition cs_wf :: "chain_state \<Rightarrow> bool" where
  "cs_wf cs \<longleftrightarrow> btree_wf (tree cs) \<and> (\<forall>p \<in> known (tree cs). p < next_ptr cs \<and> work_ok (tree cs) p) \<and>
     map_ok cs \<and> best_ok (tree cs) (pindexBestHeader cs)"

lemma link_block_put:
  "prev \<noteq> Some p \<Longrightarrow> link_block (put_obj T p b) p b prev = link_block T p b prev"
  by (auto simp: link_block_def put_obj_def split: option.splits)

lemma link_block_fields:
  assumes "link_block T p b prev = Inr T'"
  shows "nBits (obj T' p) = nBits b \<and> phashBlock (obj T' p) = phashBlock b \<and> nStatus (obj T' p) = nStatus b"
  using assms by (auto simp: link_block_def BuildSkip_def split: option.splits sum.splits)

lemma btree_wf_same_links:
  assumes wf: "btree_wf T" and kn: "known T' = known T"
    and same: "\<And>p. p \<in> known T \<Longrightarrow> pprev (obj T' p) = pprev (obj T p) \<and> pskip (obj T' p) = pskip (obj T p) \<and>
      nHeight (obj T' p) = nHeight (obj T p)"
  shows "btree_wf T'"
proof -
  have ag: "agree_on (known T) T T'" using same by (simp add: agree_on_def)
  have "linked T' p \<and> skip_ok T' p" if "p \<in> known T" for p
    using that wf same [OF that] ancestor_at_agree [OF wf ag that] same kn
    by (auto simp: btree_wf_def linked_def skip_ok_def split: option.splits)
  then show ?thesis by (simp add: btree_wf_def kn)
qed

lemma proof_val_GetBlockProof: "\<exists>w. GetBlockProof b = Inr w \<and> bu_wf w \<and> bval w = proof_val (nBits b)"
  using GetBlockProof_val [of b] by (simp add: proof_val_def)

lemma best_ok_insert:
  assumes ok: "best_ok T best" and kn: "known T' = insert p (known T)"
    and old: "\<And>q. q \<in> known T \<Longrightarrow> work T' q = work T q"
  shows "best_ok T' (case best of None \<Rightarrow> Some p
     | Some h \<Rightarrow> if work T' h < work T' p then Some p else Some h)"
proof (cases best)
  case None
  then show ?thesis using ok kn by (simp add: best_ok_def)
next
  case (Some h)
  then have h: "h \<in> known T" "\<forall>q \<in> known T. work T q \<le> work T h" using ok by (auto simp: best_ok_def)
  have "work T' q \<le> work T' h" if "q \<in> known T" for q using that h old by simp
  then show ?thesis using Some h(1) kn by (fastforce simp: best_ok_def)
qed

lemma AddToBlockIndex_new:
  assumes wf: "cs_wf cs" and new: "mapBlockIndex cs (hashfn block) = None"
    and self: "hashfn block \<noteq> hashPrevBlock block"
  shows "\<exists>cs'. AddToBlockIndex hashfn cs block = Inr (cs', next_ptr cs) \<and> cs_wf cs' \<and>
    mapBlockIndex cs' = (mapBlockIndex cs)(hashfn block \<mapsto> next_ptr cs) \<and>
    (\<forall>q \<in> known (tree cs). obj (tree cs') q = obj (tree cs) q) \<and>
    pprev (obj (tree cs') (next_ptr cs)) = mapBlockIndex cs (hashPrevBlock block) \<and>
    nBits (obj (tree cs') (next_ptr cs)) = hdr_nBits block \<and> nStatus (obj (tree cs') (next_ptr cs)) = BLOCK_VALID_TREE"
proof -
  let ?T = "tree cs" and ?p = "next_ptr cs" and ?h = "hashfn block"
  let ?prev = "mapBlockIndex cs (hashPrevBlock block)"
  let ?m = "(mapBlockIndex cs)(?h \<mapsto> ?p)"
  define n where "n = (CBlockIndex_of block)\<lparr>nSequenceId := 0, phashBlock := ?h\<rparr>"
  have n: "nBits n = hdr_nBits block" "phashBlock n = ?h" "nStatus n = 0" "n\<lparr>pprev := None, pskip := None, nHeight := 0\<rparr> = n"
    by (simp_all add: n_def CBlockIndex_of_def CBlockIndex_null_def)
  have T: "btree_wf ?T" "map_ok cs" using wf by (auto simp: cs_wf_def)
  have fresh: "?p \<notin> known ?T" using wf by (auto simp: cs_wf_def)
  have pk: "q \<in> known ?T" if "?prev = Some q" for q using T(2) that by (simp add: map_ok_def)
  then have pp: "?prev \<noteq> Some ?p" using fresh by auto
  obtain T1 where T1: "link_block ?T ?p n ?prev = Inr T1" "btree_wf T1" "known T1 = insert ?p (known ?T)"
    "\<And>q. q \<noteq> ?p \<Longrightarrow> obj T1 q = obj ?T q" "pprev (obj T1 ?p) = ?prev"
    using link_block_wf [OF T(1) fresh pk, where b = n] by blast
  note f = link_block_fields [OF T1(1)]
  have link: "(case ?m (hashPrevBlock block) of Some q \<Rightarrow> link_block (put_obj ?T ?p n) ?p n (Some q)
      | None \<Rightarrow> Inr (put_obj ?T ?p n)) = Inr T1"
  proof (cases ?prev)
    case None
    then show ?thesis using T1(1) self n(4) by (simp add: link_block_def put_obj_def)
  next
    case (Some q)
    then have "(case ?m (hashPrevBlock block) of Some q \<Rightarrow> link_block (put_obj ?T ?p n) ?p n (Some q)
      | None \<Rightarrow> Inr (put_obj ?T ?p n)) = link_block (put_obj ?T ?p n) ?p n ?prev"
      using self by simp
    then show ?thesis using link_block_put [OF pp] T1(1) by simp
  qed
  obtain w where w: "GetBlockProof (obj T1 ?p) = Inr w" "bu_wf w" "bval w = proof_val (hdr_nBits block)"
    using proof_val_GetBlockProof [of "obj T1 ?p"] f n(1) by auto
  have old1: "obj T1 q = obj ?T q" if "q \<in> known ?T" for q using T1(4) [of q] that fresh by auto
  have wkwf: "bu_wf (nChainWork (obj ?T q))" if "q \<in> known ?T" for q
    using wf that by (simp add: cs_wf_def work_ok_def)
  let ?pw = "case ?prev of None \<Rightarrow> bu_zero | Some q \<Rightarrow> nChainWork (obj T1 q)"
  have pw: "bu_wf ?pw" "bval ?pw = (case ?prev of None \<Rightarrow> 0 | Some q \<Rightarrow> work ?T q)"
    using pk old1 wkwf by (auto simp: work_def split: option.splits)
  define wk where "wk = bu_add ?pw w"
  define b where "b = (obj T1 ?p)\<lparr>nChainWork := wk\<rparr>"
  have "nStatus b = 0" using f n(3) by (simp add: b_def)
  then have "RaiseValidity b BLOCK_VALID_TREE = Inr (b\<lparr>nStatus := 2\<rparr>, True)"
    by (simp add: RaiseValidity_def BLOCK_VALID_TREE_def BLOCK_VALID_MASK_def BLOCK_FAILED_MASK_def)
  then obtain b' where rv: "RaiseValidity b BLOCK_VALID_TREE = Inr (b', True)" and b': "b' = b\<lparr>nStatus := 2\<rparr>"
    by simp
  define T2 where "T2 = put_obj T1 ?p b'"
  have T2: "known T2 = insert ?p (known ?T)" "obj T2 ?p = b'" "\<And>q. q \<noteq> ?p \<Longrightarrow> obj T2 q = obj ?T q"
    using T1(3,4) by (auto simp: T2_def put_obj_def)
  have b'f: "pprev b' = ?prev" "nBits b' = hdr_nBits block" "nChainWork b' = wk" "phashBlock b' = ?h" "nStatus b' = BLOCK_VALID_TREE"
    using T1(5) f n by (simp_all add: b' b_def BLOCK_VALID_TREE_def)
  define best where "best = (case pindexBestHeader cs of None \<Rightarrow> Some ?p
      | Some h \<Rightarrow> (if bu_compare (nChainWork (obj T2 h)) (nChainWork b') < 0 then Some ?p else Some h))"
  define cs' where "cs' = \<lparr>mapBlockIndex = ?m, tree = T2, next_ptr = Suc ?p, pindexBestHeader = best,
                             setDirtyBlockIndex = insert ?p (setDirtyBlockIndex cs)\<rparr>"
  have run: "AddToBlockIndex hashfn cs block = Inr (cs', ?p)"
    unfolding AddToBlockIndex_def Let_def new option.case n_def [symmetric] link sum_bind.simps w(1)
      of_uint_res_def sum.case T1(5) wk_def [symmetric] b_def [symmetric] rv prod.case T2_def [symmetric]
      best_def [symmetric] cs'_def ..
  have wfT2: "btree_wf T2"
  proof (rule btree_wf_same_links [OF T1(2)])
    show "known T2 = known T1" using T2(1) T1(3) by simp
    show "pprev (obj T2 q) = pprev (obj T1 q) \<and> pskip (obj T2 q) = pskip (obj T1 q) \<and>
      nHeight (obj T2 q) = nHeight (obj T1 q)" for q
      by (cases "q = ?p") (simp_all add: T2(2,3) T1(4) b' b_def)
  qed
  have old2: "obj T2 q = obj ?T q" if "q \<in> known ?T" for q using T2(3) [of q] that fresh by auto
  have wold: "work T2 q = work ?T q" if "q \<in> known ?T" for q using old2 [OF that] by (simp add: work_def)
  have wwk: "bu_wf wk" using pw(1) w(2) by (simp add: wk_def)
  have wnew: "work_ok T2 ?p"
  proof -
    have "(case ?prev of None \<Rightarrow> 0 | Some q \<Rightarrow> work T2 q) = bval ?pw"
      using pk wold unfolding pw(2) by (auto split: option.splits)
    then show ?thesis using pw(1) w wwk
      unfolding work_ok_def work_def [of T2 ?p] T2(2) b'f by (simp only: wk_def bval_add)
  qed
  have wko: "work_ok T2 q" if q: "q \<in> known ?T" for q
  proof -
    have "q \<noteq> ?p" using q fresh by auto
    moreover have "pprev (obj ?T q) = Some r \<Longrightarrow> r \<in> known ?T" for r
      using T(1) q by (auto simp: btree_wf_def linked_def)
    moreover have "work_ok ?T q" using wf q by (simp add: cs_wf_def)
    ultimately show ?thesis using wold old2 [OF q] q by (auto simp: work_ok_def split: option.splits)
  qed
  have best: "best_ok T2 best"
  proof -
    have "best = (case pindexBestHeader cs of None \<Rightarrow> Some ?p
        | Some h \<Rightarrow> if work T2 h < work T2 ?p then Some ?p else Some h)"
    proof (cases "pindexBestHeader cs")
      case (Some h)
      then have hk: "h \<in> known ?T" using wf by (auto simp: cs_wf_def best_ok_def)
      then have "bu_wf (nChainWork (obj T2 h))" using wko by (simp add: work_ok_def)
      then have "bu_compare (nChainWork (obj T2 h)) wk < 0 \<longleftrightarrow> work T2 h < work T2 ?p"
        using wwk b'f T2(2) by (simp add: bu_compare_val work_def)
      then show ?thesis using Some b'f by (simp add: best_def)
    qed (simp add: best_def)
    then show ?thesis using best_ok_insert [OF _ T2(1) wold] wf by (simp add: cs_wf_def)
  qed
  have "map_ok cs'"
    unfolding map_ok_def
  proof (intro allI)
    fix h q
    have ph: "phashBlock (obj T2 q) = (if q = ?p then ?h else phashBlock (obj ?T q))"
      using T2 b'f by auto
    show "mapBlockIndex cs' h = Some q \<longleftrightarrow> q \<in> known (tree cs') \<and> phashBlock (obj (tree cs') q) = h"
      using T(2) [unfolded map_ok_def, rule_format, of h q] fresh new T2(1) ph by (auto simp: cs'_def)
  qed
  moreover have "p < Suc ?p" if "p \<in> known T2" for p using that wf T2(1) by (auto simp: cs_wf_def)
  ultimately have "cs_wf cs'"
    using wfT2 wnew wko best T2(1) by (auto simp: cs_wf_def cs'_def)
  moreover have "\<forall>q \<in> known ?T. obj (tree cs') q = obj ?T q" using old2 by (simp add: cs'_def)
  ultimately show ?thesis using run T2(2) b'f by (auto simp: cs'_def)
qed

text \<open>A header that is known already changes nothing.\<close>

lemma AddToBlockIndex_known:
  "mapBlockIndex cs (hashfn block) = Some p \<Longrightarrow> AddToBlockIndex hashfn cs block = Inr (cs, p)"
  by (simp add: AddToBlockIndex_def)

section \<open>Runs of headers\<close>

text \<open>Adding headers one after the other, from the empty block map.\<close>

definition cs_empty :: chain_state where
  "cs_empty = \<lparr>mapBlockIndex = (\<lambda>_. None), tree = \<lparr>obj = (\<lambda>_. CBlockIndex_null), known = {}\<rparr>,
     next_ptr = 0, pindexBestHeader = None, setDirtyBlockIndex = {}\<rparr>"

inductive reachable_cs :: "(CBlockHeader \<Rightarrow> uint256) \<Rightarrow> chain_state \<Rightarrow> bool" for hashfn where
  start: "reachable_cs hashfn cs_empty"
| add: "reachable_cs hashfn cs \<Longrightarrow> AddToBlockIndex hashfn cs block = Inr (cs', p) \<Longrightarrow>
    hashfn block \<noteq> hashPrevBlock block \<Longrightarrow> reachable_cs hashfn cs'"

lemma cs_wf_empty: "cs_wf cs_empty"
  by (simp add: cs_wf_def cs_empty_def btree_wf_def map_ok_def best_ok_def)

lemma AddToBlockIndex_wf:
  assumes "cs_wf cs" "hashfn block \<noteq> hashPrevBlock block"
  shows "\<exists>cs' p. AddToBlockIndex hashfn cs block = Inr (cs', p) \<and> cs_wf cs' \<and>
    mapBlockIndex cs' (hashfn block) = Some p"
proof (cases "mapBlockIndex cs (hashfn block)")
  case None
  then show ?thesis using AddToBlockIndex_new [of cs hashfn block] assms by auto
next
  case (Some p)
  then show ?thesis using assms AddToBlockIndex_known [of cs hashfn block p] by auto
qed

lemma reachable_cs_wf: "reachable_cs hashfn cs \<Longrightarrow> cs_wf cs"
proof (induction rule: reachable_cs.induct)
  case start
  show ?case by (rule cs_wf_empty)
next
  case (add cs block cs' p)
  then show ?case using AddToBlockIndex_wf [of cs hashfn block] by auto
qed

section \<open>The comparator is a strict total order\<close>

lemma work_less_iff:
  "bu_wf (nChainWork (obj T a)) \<Longrightarrow> bu_wf (nChainWork (obj T b)) \<Longrightarrow>
    work_less T a b \<longleftrightarrow> work T a < work T b \<or>
      (work T a = work T b \<and> (nSequenceId (obj T b) < nSequenceId (obj T a) \<or>
        (nSequenceId (obj T a) = nSequenceId (obj T b) \<and> b < a)))"
  unfolding work_less_def Let_def
  by (auto simp: bu_compare_val work_def sgn_if)

lemma work_less_order:
  assumes "\<And>p. p \<in> S \<Longrightarrow> bu_wf (nChainWork (obj T p))"
  shows "a \<in> S \<Longrightarrow> \<not> work_less T a a"
    "a \<in> S \<Longrightarrow> b \<in> S \<Longrightarrow> c \<in> S \<Longrightarrow> work_less T a b \<Longrightarrow> work_less T b c \<Longrightarrow> work_less T a c"
    "a \<in> S \<Longrightarrow> b \<in> S \<Longrightarrow> a \<noteq> b \<Longrightarrow> work_less T a b \<or> work_less T b a"
  using assms by (auto simp: work_less_iff)

section \<open>Properties\<close>

text \<open>C6: after any sequence of headers, the block map is consistent: the tree is well-formed,
  the map holds exactly the known blocks under their hashes, every block's chain work is its
  parent's plus its own proof, and the best header has the most work.\<close>

theorem headers_keep_block_map:
  assumes "reachable_cs hashfn cs"
  shows "cs_wf cs"
  by (rule reachable_cs_wf [OF assms])

definition demo_header :: CBlockHeader where
  "demo_header = \<lparr>hdr_nVersion = 1, hashPrevBlock = blob_null, hdr_hashMerkleRoot = blob_null,
     hdr_nTime = 1516563600, hdr_nBits = 0x1e0ffff0, hdr_nNonce = 147795\<rparr>"

theorem headers_keep_block_map_witness:
  "\<exists>cs p. AddToBlockIndex (\<lambda>_. replicate 32 1) cs_empty demo_header = Inr (cs, p) \<and> cs_wf cs"
proof -
  have ne: "replicate 32 1 \<noteq> hashPrevBlock demo_header"
    by (simp add: demo_header_def blob_null_def eval_nat_numeral)
  obtain cs p where r: "AddToBlockIndex (\<lambda>_. replicate 32 1) cs_empty demo_header = Inr (cs, p)"
    using AddToBlockIndex_wf [OF cs_wf_empty, of "\<lambda>_. replicate 32 1" demo_header] ne by auto
  have "reachable_cs (\<lambda>_. replicate 32 1) cs" by (rule reachable_cs.add [OF reachable_cs.start r ne])
  then show ?thesis using r headers_keep_block_map by blast
qed

text \<open>Adding a header that is not its own parent never fails, keeps the invariant and maps
  its hash to a block; a new block gets the parent its header names.\<close>

theorem AddToBlockIndex_total:
  assumes "cs_wf cs" "hashfn block \<noteq> hashPrevBlock block"
  shows "\<exists>cs' p. AddToBlockIndex hashfn cs block = Inr (cs', p) \<and> cs_wf cs' \<and>
    mapBlockIndex cs' (hashfn block) = Some p \<and>
    (mapBlockIndex cs (hashfn block) = None \<longrightarrow>
      pprev (obj (tree cs') p) = mapBlockIndex cs (hashPrevBlock block) \<and>
      nBits (obj (tree cs') p) = hdr_nBits block)"
proof (cases "mapBlockIndex cs (hashfn block)")
  case None
  then show ?thesis using AddToBlockIndex_new [of cs hashfn block] assms by auto
next
  case (Some p)
  then show ?thesis using assms AddToBlockIndex_known [of cs hashfn block p] by auto
qed

theorem AddToBlockIndex_total_witness:
  "\<exists>cs p. AddToBlockIndex (\<lambda>_. replicate 32 2) cs_empty demo_header = Inr (cs, p) \<and>
     pprev (obj (tree cs) p) = None"
proof -
  have "replicate 32 2 \<noteq> hashPrevBlock demo_header"
    by (simp add: demo_header_def blob_null_def eval_nat_numeral)
  from AddToBlockIndex_total [OF cs_wf_empty, of "\<lambda>_. replicate 32 2", OF this] show ?thesis
    by (auto simp: cs_empty_def)
qed

text \<open>A header's 80 bytes decode to it, and only the encoding of a header decodes.\<close>

theorem header_roundtrip:
  "UnserializeHeader bs = Inr (h, rest) \<longleftrightarrow> bs = SerializeHeader h @ rest \<and> header_ok h"
  by (rule header_codec.dec_iff)

end
