(* ===== verification/Amount.thy ===== *)
theory Amount
  imports Prelude
begin

text \<open>
  Amounts: \<open>amount.h\<close> and \<open>amount.cpp\<close>, the money range and fee rates.  An
  amount is the integer an \<open>int64_t\<close> holds; where the code mixes it with a
  \<open>size_t\<close>, so that the arithmetic is unsigned, the wrap-around is written out.
\<close>

section \<open>Constants and the money range\<close>

definition COIN :: CAmount where "COIN = 100000000"
definition CENT :: CAmount where "CENT = 1000000"
definition MAX_MONEY :: CAmount where "MAX_MONEY = 21000000 * COIN"
definition FOUNDER_START_BLOCK :: int where "FOUNDER_START_BLOCK = 9999000"
definition ONE_ADDRESS_HEIGHT :: int where "ONE_ADDRESS_HEIGHT = 9999500"

definition MoneyRange :: "CAmount \<Rightarrow> bool" where
  "MoneyRange nValue \<longleftrightarrow> nValue \<ge> 0 \<and> nValue \<le> MAX_MONEY"

definition to_int64 :: "int \<Rightarrow> int" where
  \<comment> \<open>conversion to \<open>int64_t\<close>\<close>
  "to_int64 k = (let m = k mod 2 ^ 64 in if m \<ge> 2 ^ 63 then m - 2 ^ 64 else m)"

record CFeeRate =
  nSatoshisPerK :: CAmount

definition CFeeRate_of :: "CAmount \<Rightarrow> nat \<Rightarrow> CFeeRate" where
  \<comment> \<open>the product is signed, the quotient by a \<open>size_t\<close> unsigned\<close>
  "CFeeRate_of nFeePaid nSize =
     \<lparr>nSatoshisPerK = (if nSize > 0 then to_int64 ((nFeePaid * 1000) mod 2 ^ 64 div int nSize) else 0)\<rparr>"

definition GetFee :: "CFeeRate \<Rightarrow> nat \<Rightarrow> CAmount" where
  "GetFee r nSize =
     (let nFee = to_int64 ((nSatoshisPerK r * int nSize) mod 2 ^ 64 div 1000)
      in if nFee = 0 \<and> nSatoshisPerK r > 0 then nSatoshisPerK r else nFee)"

definition GetFeePerK :: "CFeeRate \<Rightarrow> CAmount" where
  "GetFeePerK r = GetFee r 1000"

section \<open>Fee rates\<close>

lemma to_int64_id: "- (2 ^ 63) \<le> k \<Longrightarrow> k < 2 ^ 63 \<Longrightarrow> to_int64 k = k"
proof (cases "0 \<le> k")
  case False
  assume b: "- (2 ^ 63) \<le> k"
  have "k mod 2 ^ 64 = (k + 2 ^ 64) mod 2 ^ 64" by simp
  also have "\<dots> = k + 2 ^ 64" using False b by (intro mod_pos_pos_trivial) simp_all
  finally show ?thesis using b by (simp add: to_int64_def Let_def)
qed (simp add: to_int64_def Let_def)

lemma GetFee_nonneg:
  assumes "0 \<le> nSatoshisPerK r" "nSatoshisPerK r * int n < 2 ^ 63"
  shows "GetFee r n = (if nSatoshisPerK r * int n < 1000 then nSatoshisPerK r else nSatoshisPerK r * int n div 1000)"
proof -
  let ?p = "nSatoshisPerK r * int n"
  have p: "0 \<le> ?p" using assms(1) by simp
  have "?p div 1000 < 2 ^ 63" using p assms(2) by linarith
  moreover have "0 \<le> ?p div 1000" using p by simp
  ultimately have "to_int64 (?p mod 2 ^ 64 div 1000) = ?p div 1000"
    using p assms(2) by (simp add: to_int64_id)
  then show ?thesis using assms(1) p by (auto simp: GetFee_def Let_def)
qed

end
