(* ===== verification/Transaction.thy ===== *)
theory Transaction
  imports Amount Uint256 "HOL-Library.List_Lexorder"
begin

text \<open>
  Transactions: \<open>primitives/transaction.h\<close> and \<open>transaction.cpp\<close>, the
  validation state of \<open>consensus/validation.h\<close>, and the context-free checks of main.cpp
  (\<open>CheckTransaction\<close>, \<open>IsFinalTx\<close>).  A script is its bytes.  The cached
  hash of a \<open>CTransaction\<close> is a field that every constructor sets through the hash
  function, which is a parameter.
\<close>

section \<open>Outpoints\<close>

datatype COutPoint = COutPoint (op_hash: uint256) (op_n: u32)

definition outpoint_null :: COutPoint where
  \<comment> \<open>\<open>SetNull\<close>\<close>
  "outpoint_null = COutPoint blob_null (- 1)"

definition outpoint_IsNull :: "COutPoint \<Rightarrow> bool" where
  "outpoint_IsNull o' \<longleftrightarrow> blob_IsNull (op_hash o') \<and> op_n o' = - 1"

definition outpoint_less :: "COutPoint \<Rightarrow> COutPoint \<Rightarrow> bool" where
  \<comment> \<open>\<open>operator<\<close>, the order of \<open>set<COutPoint>\<close>\<close>
  "outpoint_less a b \<longleftrightarrow>
     blob_less (op_hash a) (op_hash b) \<or> (op_hash a = op_hash b \<and> op_n a < op_n b)"

definition ser_outpoint :: "COutPoint \<Rightarrow> bytes" where
  "ser_outpoint o' = op_hash o' @ ser_writedata32 (op_n o')"

definition unser_outpoint :: "COutPoint reader" where
  "unser_outpoint = read_then (stream_read 32) (\<lambda>h. read_then ser_readdata32 (\<lambda>n. read_return (COutPoint h n)))"

text \<open>The order is the lexicographic order on the bytes and then the index, so that the
  library's facts on linear orders apply to outpoints.\<close>

lemma memcmp_less: "length a = length b \<Longrightarrow> memcmp a b < 0 \<longleftrightarrow> a < b"
proof (induction a b rule: memcmp.induct)
  case (1 x xs y ys)
  then show ?case by (auto simp: word_less_def)
qed auto

lemma blob_less_lex: "blob_ok a \<Longrightarrow> blob_ok b \<Longrightarrow> blob_less a b \<longleftrightarrow> a < b"
  by (simp add: blob_less_def blob_ok_def memcmp_less)

instantiation COutPoint :: linorder
begin

definition less_COutPoint :: "COutPoint \<Rightarrow> COutPoint \<Rightarrow> bool" where
  "less_COutPoint a b \<longleftrightarrow> op_hash a < op_hash b \<or> (op_hash a = op_hash b \<and> op_n a < op_n b)"

definition less_eq_COutPoint :: "COutPoint \<Rightarrow> COutPoint \<Rightarrow> bool" where
  "less_eq_COutPoint a b \<longleftrightarrow> op_hash a < op_hash b \<or> (op_hash a = op_hash b \<and> op_n a \<le> op_n b)"

instance
  by standard (auto simp: less_COutPoint_def less_eq_COutPoint_def COutPoint.expand)

end

lemma outpoint_less_is_less:
  "blob_ok (op_hash a) \<Longrightarrow> blob_ok (op_hash b) \<Longrightarrow> outpoint_less a b \<longleftrightarrow> a < b"
  by (simp add: outpoint_less_def less_COutPoint_def blob_less_lex)

definition outpoint_ok :: "COutPoint \<Rightarrow> bool" where
  "outpoint_ok o' \<longleftrightarrow> blob_ok (op_hash o')"

interpretation outpoint_codec: canonical_codec ser_outpoint unser_outpoint outpoint_ok
proof unfold_locales
  fix o' rest
  assume "outpoint_ok o'"
  then show "unser_outpoint (ser_outpoint o' @ rest) = Inr (o', rest)"
    by (simp add: unser_outpoint_def ser_outpoint_def outpoint_ok_def blob_ok_def ser32.dec_enc read_return_def)
next
  fix bs o' rest
  assume "unser_outpoint bs = Inr (o', rest)"
  then show "bs = ser_outpoint o' @ rest \<and> outpoint_ok o'"
    by (auto simp: unser_outpoint_def ser_outpoint_def outpoint_ok_def blob_ok_def ser32.dec_iff
        read_then_Inr_iff read_return_def dest!: stream_read_Inr)
qed

section \<open>Inputs\<close>

record CTxIn =
  prevout :: COutPoint
  scriptSig :: bytes
  nSequence :: u32
  prevPubKey :: bytes  \<comment> \<open>not serialized\<close>

definition SEQUENCE_FINAL :: u32 where "SEQUENCE_FINAL = 0xffffffff"
definition SEQUENCE_LOCKTIME_DISABLE_FLAG :: u32 where "SEQUENCE_LOCKTIME_DISABLE_FLAG = push_bit 31 1"
definition SEQUENCE_LOCKTIME_TYPE_FLAG :: u32 where "SEQUENCE_LOCKTIME_TYPE_FLAG = push_bit 22 1"
definition SEQUENCE_LOCKTIME_MASK :: u32 where "SEQUENCE_LOCKTIME_MASK = 0x0000ffff"
definition SEQUENCE_LOCKTIME_GRANULARITY :: nat where "SEQUENCE_LOCKTIME_GRANULARITY = 9"

definition CTxIn_of :: "COutPoint \<Rightarrow> bytes \<Rightarrow> u32 \<Rightarrow> CTxIn" where
  "CTxIn_of prevoutIn scriptSigIn nSequenceIn =
     \<lparr>prevout = prevoutIn, scriptSig = scriptSigIn, nSequence = nSequenceIn, prevPubKey = []\<rparr>"

definition ser_txin :: "CTxIn \<Rightarrow> bytes" where
  "ser_txin t = ser_outpoint (prevout t) @ ser_bytes (scriptSig t) @ ser_writedata32 (nSequence t)"

definition unser_txin :: "CTxIn reader" where
  "unser_txin = read_then unser_outpoint (\<lambda>p. read_then unser_bytes (\<lambda>s. read_then ser_readdata32 (\<lambda>q.
     read_return (CTxIn_of p s q))))"

definition txin_ok :: "CTxIn \<Rightarrow> bool" where
  "txin_ok t \<longleftrightarrow> outpoint_ok (prevout t) \<and> vec_ok (scriptSig t) \<and> prevPubKey t = []"

interpretation txin_codec: canonical_codec ser_txin unser_txin txin_ok
proof unfold_locales
  fix t rest
  assume "txin_ok t"
  then show "unser_txin (ser_txin t @ rest) = Inr (t, rest)"
    by (simp add: unser_txin_def ser_txin_def txin_ok_def outpoint_codec.dec_enc byte_vector.dec_enc
        ser32.dec_enc read_return_def CTxIn_of_def)
next
  fix bs t rest
  assume "unser_txin bs = Inr (t, rest)"
  then show "bs = ser_txin t @ rest \<and> txin_ok t"
    by (auto simp: unser_txin_def ser_txin_def txin_ok_def outpoint_codec.dec_iff byte_vector.dec_iff
        ser32.dec_iff read_then_Inr_iff read_return_def CTxIn_of_def)
qed

section \<open>Outputs\<close>

record CTxOut =
  nValue :: CAmount
  scriptPubKey :: bytes
  nRounds :: int  \<comment> \<open>not serialized\<close>

definition CTxOut_of :: "CAmount \<Rightarrow> bytes \<Rightarrow> CTxOut" where
  "CTxOut_of v s = \<lparr>nValue = v, scriptPubKey = s, nRounds = - 10\<rparr>"

definition txout_null :: CTxOut where
  \<comment> \<open>\<open>SetNull\<close>\<close>
  "txout_null = \<lparr>nValue = - 1, scriptPubKey = [], nRounds = - 10\<rparr>"

definition txout_IsNull :: "CTxOut \<Rightarrow> bool" where
  "txout_IsNull out \<longleftrightarrow> nValue out = - 1"

definition txout_less :: "CTxOut \<Rightarrow> CTxOut \<Rightarrow> bool" where
  \<comment> \<open>\<open>operator<\<close>; scripts compare as vectors, lexicographically\<close>
  "txout_less a b \<longleftrightarrow> nValue a < nValue b \<or> (nValue a = nValue b \<and> scriptPubKey a < scriptPubKey b)"

definition ser_txout :: "CTxOut \<Rightarrow> bytes" where
  "ser_txout out = ser_writedata64 (word_of_int (nValue out)) @ ser_bytes (scriptPubKey out)"

definition unser_txout :: "CTxOut reader" where
  "unser_txout = read_then ser_readdata64 (\<lambda>v. read_then unser_bytes (\<lambda>s. read_return (CTxOut_of (sint v) s)))"

definition txout_ok :: "CTxOut \<Rightarrow> bool" where
  "txout_ok out \<longleftrightarrow> - (2 ^ 63) \<le> nValue out \<and> nValue out < 2 ^ 63 \<and> vec_ok (scriptPubKey out) \<and> nRounds out = - 10"

lemma sint64_of_int: "- (2 ^ 63) \<le> k \<Longrightarrow> k < 2 ^ 63 \<Longrightarrow> sint (word_of_int k :: u64) = k"
  by (simp add: sint_sbintrunc' signed_take_bit_int_eq_self)

lemma sint64_bounds: "- (2 ^ 63) \<le> sint (w :: u64) \<and> sint w < 2 ^ 63"
  using sint_greater_eq [of w] sint_lt [of w] by simp

interpretation txout_codec: canonical_codec ser_txout unser_txout txout_ok
proof unfold_locales
  fix t rest
  assume "txout_ok t"
  then show "unser_txout (ser_txout t @ rest) = Inr (t, rest)"
    by (simp add: unser_txout_def ser_txout_def txout_ok_def byte_vector.dec_enc ser64.dec_enc
        read_return_def CTxOut_of_def sint64_of_int)
next
  fix bs t rest
  assume "unser_txout bs = Inr (t, rest)"
  then show "bs = ser_txout t @ rest \<and> txout_ok t"
    using sint64_bounds
    by (auto simp: unser_txout_def ser_txout_def txout_ok_def byte_vector.dec_iff ser64.dec_iff
        read_then_Inr_iff read_return_def CTxOut_of_def)
qed

definition OP_RETURN_byte :: u8 where "OP_RETURN_byte = 0x6a"

definition IsUnspendable :: "bytes \<Rightarrow> bool" where
  "IsUnspendable s \<longleftrightarrow> length s > 0 \<and> s ! 0 = OP_RETURN_byte"

definition size_txout :: "CTxOut \<Rightarrow> nat" where
  \<comment> \<open>\<open>GetSerializeSize\<close>\<close>
  "size_txout out = 8 + size_bytes (scriptPubKey out)"

definition GetDustThreshold :: "CFeeRate \<Rightarrow> CTxOut \<Rightarrow> CAmount" where
  "GetDustThreshold minRelayTxFee out =
     (if IsUnspendable (scriptPubKey out) then 0 else 3 * GetFee minRelayTxFee (size_txout out + 148))"

definition IsDust :: "CFeeRate \<Rightarrow> CTxOut \<Rightarrow> bool" where
  "IsDust minRelayTxFee out \<longleftrightarrow> nValue out < GetDustThreshold minRelayTxFee out"

section \<open>Transactions\<close>

record CMutableTransaction =
  tx_nVersion :: u32  \<comment> \<open>\<open>int32_t\<close>\<close>
  vin :: "CTxIn list"
  vout :: "CTxOut list"
  nLockTime :: u32

record CTransaction = CMutableTransaction +
  tx_hash :: uint256

definition ser_tx :: "'a CMutableTransaction_scheme \<Rightarrow> bytes" where
  "ser_tx tx = ser_writedata32 (tx_nVersion tx) @ ser_vector ser_txin (vin tx) @
     ser_vector ser_txout (vout tx) @ ser_writedata32 (nLockTime tx)"

definition unser_mtx :: "CMutableTransaction reader" where
  "unser_mtx =
     read_then ser_readdata32 (\<lambda>v. read_then (unser_vector unser_txin) (\<lambda>ins.
     read_then (unser_vector unser_txout) (\<lambda>outs. read_then ser_readdata32 (\<lambda>l.
     read_return \<lparr>tx_nVersion = v, vin = ins, vout = outs, nLockTime = l\<rparr>))))"

definition CTransaction_of :: "(bytes \<Rightarrow> uint256) \<Rightarrow> CMutableTransaction \<Rightarrow> CTransaction" where
  \<comment> \<open>the converting constructor: \<open>UpdateHash\<close> hashes the serialization; \<open>H\<close> is
    the double SHA-256\<close>
  "CTransaction_of H m =
     \<lparr>tx_nVersion = tx_nVersion m, vin = vin m, vout = vout m, nLockTime = nLockTime m, tx_hash = H (ser_tx m)\<rparr>"

definition CMutableTransaction_of :: "CTransaction \<Rightarrow> CMutableTransaction" where
  "CMutableTransaction_of t =
     \<lparr>tx_nVersion = tx_nVersion t, vin = vin t, vout = vout t, nLockTime = nLockTime t\<rparr>"

definition unser_tx :: "(bytes \<Rightarrow> uint256) \<Rightarrow> CTransaction reader" where
  \<comment> \<open>a read of a \<open>CTransaction\<close> ends with \<open>UpdateHash\<close>\<close>
  "unser_tx H = read_then unser_mtx (\<lambda>m. read_return (CTransaction_of H m))"

definition tx_IsNull :: "'a CMutableTransaction_scheme \<Rightarrow> bool" where
  "tx_IsNull tx \<longleftrightarrow> vin tx = [] \<and> vout tx = []"

definition IsCoinBase :: "'a CMutableTransaction_scheme \<Rightarrow> bool" where
  "IsCoinBase tx \<longleftrightarrow> length (vin tx) = 1 \<and> outpoint_IsNull (prevout (vin tx ! 0))"

fun value_loop :: "CAmount \<Rightarrow> CTxOut list \<Rightarrow> unit + CAmount" where
  "value_loop nValueOut [] = Inr nValueOut"
| "value_loop nValueOut (it # rest) =
     (let nValueOut = nValueOut + nValue it
      in if \<not> MoneyRange (nValue it) \<or> \<not> MoneyRange nValueOut then Inl ()
         else value_loop nValueOut rest)"

definition GetValueOut :: "'a CMutableTransaction_scheme \<Rightarrow> unit + CAmount" where
  \<comment> \<open>\<open>Inl ()\<close> is the exception "value out of range"\<close>
  "GetValueOut tx = value_loop 0 (vout tx)"

definition size_txin :: "CTxIn \<Rightarrow> nat" where
  "size_txin t = 36 + size_bytes (scriptSig t) + 4"

definition size_tx :: "'a CMutableTransaction_scheme \<Rightarrow> nat" where
  \<comment> \<open>\<open>GetSerializeSize\<close>\<close>
  "size_tx tx = 4 + size_vector size_txin (vin tx) + size_vector size_txout (vout tx) + 4"

definition CalculateModifiedSize :: "'a CMutableTransaction_scheme \<Rightarrow> nat \<Rightarrow> nat" where
  "CalculateModifiedSize tx nTxSize =
     foldl (\<lambda>sz it. let offset = 41 + min 110 (length (scriptSig it))
                     in if sz > offset then sz - offset else sz)
       (if nTxSize = 0 then size_tx tx else nTxSize) (vin tx)"

lemma size_txout_length: "length (ser_txout out) = size_txout out"
  by (simp add: ser_txout_def size_txout_def length_ser_bytes ser_writedata64_def)

lemma size_tx_length:
  "list_all txin_ok (vin tx) \<Longrightarrow> length (ser_tx tx) = size_tx tx"
proof -
  assume ok: "list_all txin_ok (vin tx)"
  have "(\<Sum>x\<leftarrow>vin tx. length (ser_txin x)) = sum_list (map size_txin (vin tx))"
    using ok by (intro arg_cong [where f = sum_list] map_cong) (auto simp: list_all_iff ser_txin_def size_txin_def txin_ok_def outpoint_ok_def blob_ok_def
        ser_outpoint_def length_ser_bytes ser_writedata32_def)
  then show ?thesis
    by (simp add: ser_tx_def size_tx_def ser_writedata32_def size_vector_def ser_vector_def
        length_WriteCompactSize length_concat o_def size_txout_length)
qed

definition tx_ok :: "'a CMutableTransaction_scheme \<Rightarrow> bool" where
  "tx_ok tx \<longleftrightarrow> vec_ok (vin tx) \<and> list_all txin_ok (vin tx) \<and> vec_ok (vout tx) \<and> list_all txout_ok (vout tx)"

interpretation mtx_codec: canonical_codec ser_tx unser_mtx "tx_ok :: CMutableTransaction \<Rightarrow> bool"
proof unfold_locales
  fix t :: CMutableTransaction and rest
  assume "tx_ok t"
  then show "unser_mtx (ser_tx t @ rest) = Inr (t, rest)"
    by (simp add: unser_mtx_def ser_tx_def tx_ok_def ser32.dec_enc txin_codec.unser_vector_ser
        txout_codec.unser_vector_ser read_return_def)
next
  fix bs and t :: CMutableTransaction and rest
  assume "unser_mtx bs = Inr (t, rest)"
  then show "bs = ser_tx t @ rest \<and> tx_ok t"
    by (auto simp: unser_mtx_def ser_tx_def tx_ok_def ser32.dec_iff txin_codec.unser_vector_iff
        txout_codec.unser_vector_iff read_then_Inr_iff read_return_def)
qed


section \<open>The validation state\<close>

datatype mode_state = MODE_VALID | MODE_INVALID | MODE_ERROR

record CValidationState =
  vs_mode :: mode_state
  nDoS :: int
  strRejectReason :: string
  chRejectCode :: nat
  corruptionPossible :: bool
  strDebugMessage :: string

definition REJECT_INVALID :: nat where "REJECT_INVALID = 0x10"

definition vs_init :: CValidationState where
  "vs_init = \<lparr>vs_mode = MODE_VALID, nDoS = 0, strRejectReason = [], chRejectCode = 0,
     corruptionPossible = False, strDebugMessage = []\<rparr>"

definition DoS :: "int \<Rightarrow> bool \<Rightarrow> nat \<Rightarrow> string \<Rightarrow> bool \<Rightarrow> string \<Rightarrow> CValidationState \<Rightarrow> bool \<times> CValidationState" where
  "DoS level ret code reason corruptionIn debug st =
     (let st1 = st\<lparr>chRejectCode := code, strRejectReason := reason,
                   corruptionPossible := corruptionIn, strDebugMessage := debug\<rparr>
      in if vs_mode st1 = MODE_ERROR then (ret, st1)
         else (ret, st1\<lparr>nDoS := nDoS st1 + level, vs_mode := MODE_INVALID\<rparr>))"

definition Invalid :: "bool \<Rightarrow> nat \<Rightarrow> string \<Rightarrow> string \<Rightarrow> CValidationState \<Rightarrow> bool \<times> CValidationState" where
  "Invalid ret code reason debug st = DoS 0 ret code reason False debug st"

definition vs_Error :: "string \<Rightarrow> CValidationState \<Rightarrow> bool \<times> CValidationState" where
  "vs_Error reason st =
     (False, (if vs_mode st = MODE_VALID then st\<lparr>strRejectReason := reason\<rparr> else st)\<lparr>vs_mode := MODE_ERROR\<rparr>)"

definition vs_IsInvalid_DoS :: "CValidationState \<Rightarrow> int option" where
  \<comment> \<open>\<open>IsInvalid(int &nDoSOut)\<close>: \<open>Some\<close> the score when it is invalid\<close>
  "vs_IsInvalid_DoS st = (if vs_mode st = MODE_INVALID then Some (nDoS st) else None)"

lemma DoS_result [simp]: "fst (DoS l r c s d m st) = r"
  by (simp add: DoS_def Let_def)

section \<open>Context-free checks\<close>

definition MAX_BLOCK_SIZE :: nat where "MAX_BLOCK_SIZE = 1000000"
definition LOCKTIME_THRESHOLD :: int where "LOCKTIME_THRESHOLD = 500000000"

definition fail_DoS :: "int \<Rightarrow> string \<Rightarrow> CValidationState \<Rightarrow> bool \<times> CValidationState" where
  \<comment> \<open>\<open>state.DoS(level, false, REJECT_INVALID, reason)\<close>\<close>
  "fail_DoS level reason st = DoS level False REJECT_INVALID reason False [] st"

fun check_vout :: "CAmount \<Rightarrow> CTxOut list \<Rightarrow> (int \<times> string) option" where
  "check_vout nValueOut [] = None"
| "check_vout nValueOut (txout # rest) =
     (if nValue txout < 0 then Some (100, ''bad-txns-vout-negative'')
      else if nValue txout > MAX_MONEY then Some (100, ''bad-txns-vout-toolarge'')
      else let nValueOut = nValueOut + nValue txout
           in if \<not> MoneyRange nValueOut then Some (100, ''bad-txns-txouttotal-toolarge'')
              else check_vout nValueOut rest)"

fun check_dups :: "COutPoint set \<Rightarrow> CTxIn list \<Rightarrow> (int \<times> string) option" where
  "check_dups vInOutPoints [] = None"
| "check_dups vInOutPoints (txin # rest) =
     (if prevout txin \<in> vInOutPoints then Some (100, ''bad-txns-inputs-duplicate'')
      else check_dups (insert (prevout txin) vInOutPoints) rest)"

definition CheckTransaction :: "'a CMutableTransaction_scheme \<Rightarrow> CValidationState \<Rightarrow> bool \<times> CValidationState" where
  "CheckTransaction tx st =
     (if vin tx = [] then fail_DoS 10 ''bad-txns-vin-empty'' st
      else if vout tx = [] then fail_DoS 10 ''bad-txns-vout-empty'' st
      else if size_tx tx > MAX_BLOCK_SIZE then fail_DoS 100 ''bad-txns-oversize'' st
      else case check_vout 0 (vout tx) of
        Some (level, reason) \<Rightarrow> fail_DoS level reason st
      | None \<Rightarrow> (case check_dups {} (vin tx) of
          Some (level, reason) \<Rightarrow> fail_DoS level reason st
        | None \<Rightarrow>
            if IsCoinBase tx
            then (if length (scriptSig (vin tx ! 0)) < 2 \<or> length (scriptSig (vin tx ! 0)) > 100
                  then fail_DoS 100 ''bad-cb-length'' st else (True, st))
            else if list_ex (\<lambda>txin. outpoint_IsNull (prevout txin)) (vin tx)
            then fail_DoS 10 ''bad-txns-prevout-null'' st else (True, st)))"

definition IsFinalTx :: "'a CMutableTransaction_scheme \<Rightarrow> int \<Rightarrow> int \<Rightarrow> bool" where
  "IsFinalTx tx nBlockHeight nBlockTime =
     (if nLockTime tx = 0 then True
      else if uint (nLockTime tx) < (if uint (nLockTime tx) < LOCKTIME_THRESHOLD then nBlockHeight else nBlockTime)
      then True
      else list_all (\<lambda>txin. nSequence txin = SEQUENCE_FINAL) (vin tx))"

text \<open>What a transaction that passes the checks satisfies, stated without the loops.\<close>

definition tx_checked :: "'a CMutableTransaction_scheme \<Rightarrow> bool" where
  "tx_checked tx \<longleftrightarrow>
     vin tx \<noteq> [] \<and> vout tx \<noteq> [] \<and> size_tx tx \<le> MAX_BLOCK_SIZE \<and>
     (\<forall>out \<in> set (vout tx). 0 \<le> nValue out) \<and> sum_list (map nValue (vout tx)) \<le> MAX_MONEY \<and>
     distinct (map prevout (vin tx)) \<and>
     (if IsCoinBase tx then 2 \<le> length (scriptSig (vin tx ! 0)) \<and> length (scriptSig (vin tx ! 0)) \<le> 100
      else \<forall>txin \<in> set (vin tx). \<not> outpoint_IsNull (prevout txin))"

lemma sum_list_nonneg_map: "(\<forall>x \<in> set xs. 0 \<le> f x) \<Longrightarrow> 0 \<le> sum_list (map f xs)" for f :: "'a \<Rightarrow> int"
  by (induction xs) auto

lemma check_vout_None:
  "0 \<le> v \<Longrightarrow> v \<le> MAX_MONEY \<Longrightarrow> check_vout v outs = None \<longleftrightarrow>
    (\<forall>out \<in> set outs. 0 \<le> nValue out) \<and> v + sum_list (map nValue outs) \<le> MAX_MONEY"
proof (induction outs arbitrary: v)
  case (Cons out outs)
  show ?case
  proof (cases "0 \<le> nValue out \<and> v + nValue out \<le> MAX_MONEY")
    case True
    then show ?thesis using Cons.IH [of "v + nValue out"] Cons.prems
      by (auto simp: MoneyRange_def Let_def)
  next
    case False
    then show ?thesis using Cons.prems sum_list_nonneg_map [of outs nValue]
      by (auto simp: MoneyRange_def Let_def)
  qed
qed simp

lemma check_dups_None:
  "check_dups S ins = None \<longleftrightarrow> distinct (map prevout ins) \<and> S \<inter> set (map prevout ins) = {}"
  by (induction ins arbitrary: S) auto

lemma value_loop_Inr:
  "0 \<le> v \<Longrightarrow> value_loop v outs = Inr t \<longleftrightarrow>
    (\<forall>out \<in> set outs. 0 \<le> nValue out) \<and> t = v + sum_list (map nValue outs) \<and> (outs \<noteq> [] \<longrightarrow> t \<le> MAX_MONEY)"
proof (induction outs arbitrary: v)
  case (Cons out outs)
  show ?case
  proof (cases "0 \<le> nValue out \<and> v + nValue out \<le> MAX_MONEY")
    case True
    then show ?thesis using Cons.IH [of "v + nValue out"] Cons.prems
      by (auto simp: MoneyRange_def Let_def)
  next
    case False
    then show ?thesis using Cons.prems sum_list_nonneg_map [of outs nValue]
      by (auto simp: MoneyRange_def Let_def)
  qed
qed auto

lemma CheckTransaction_iff: "fst (CheckTransaction tx st) \<longleftrightarrow> tx_checked tx"
proof -
  have m: "(0 :: int) \<le> MAX_MONEY" by (simp add: MAX_MONEY_def COIN_def)
  have f: "\<not> fst (fail_DoS l r st)" for l r by (simp add: fail_DoS_def)
  have v: "check_vout 0 (vout tx) = None \<longleftrightarrow>
      (\<forall>out \<in> set (vout tx). 0 \<le> nValue out) \<and> sum_list (map nValue (vout tx)) \<le> MAX_MONEY"
    using check_vout_None [OF order_refl m, of "vout tx"] by simp
  have d: "check_dups {} (vin tx) = None \<longleftrightarrow> distinct (map prevout (vin tx))"
    by (simp add: check_dups_None)
  show ?thesis
  proof (cases "check_vout 0 (vout tx) = None \<and> check_dups {} (vin tx) = None")
    case True
    then show ?thesis using v d f by (simp add: CheckTransaction_def tx_checked_def list_ex_iff not_less)
  next
    case False
    then have "\<not> fst (CheckTransaction tx st)"
      using f by (cases "check_vout 0 (vout tx)"; cases "check_dups {} (vin tx)")
        (auto simp: CheckTransaction_def)
    then show ?thesis using False v d by (auto simp: tx_checked_def)
  qed
qed

text \<open>The reason to refuse an output, after the outputs before it: its value or the total so far is out of range.\<close>

definition output_reason :: "int \<Rightarrow> CTxOut list \<Rightarrow> nat \<Rightarrow> string option" where
  "output_reason before outs i =
     (if nValue (outs ! i) < 0 then Some ''bad-txns-vout-negative''
      else if MAX_MONEY < nValue (outs ! i) then Some ''bad-txns-vout-toolarge''
      else if MAX_MONEY < before + sum_list (map nValue (take (Suc i) outs)) then Some ''bad-txns-txouttotal-toolarge''
      else None)"

text \<open>The score and the reason of the first rule that a transaction breaks, in the order of the rules.\<close>

definition tx_fault :: "'a CMutableTransaction_scheme \<Rightarrow> int \<times> string" where
  "tx_fault tx =
     (if vin tx = [] then (10, ''bad-txns-vin-empty'')
      else if vout tx = [] then (10, ''bad-txns-vout-empty'')
      else if MAX_BLOCK_SIZE < size_tx tx then (100, ''bad-txns-oversize'')
      else case find (\<lambda>i. output_reason 0 (vout tx) i \<noteq> None) [0..<length (vout tx)] of
        Some i \<Rightarrow> (100, the (output_reason 0 (vout tx) i))
      | None \<Rightarrow>
          if \<not> distinct (map prevout (vin tx)) then (100, ''bad-txns-inputs-duplicate'')
          else if IsCoinBase tx then (100, ''bad-cb-length'')
          else (10, ''bad-txns-prevout-null''))"

lemma find_map_Suc: "find P (map Suc xs) = map_option Suc (find (P \<circ> Suc) xs)"
  by (induction xs) auto

lemma upt_Suc_Cons: "[0..<Suc n] = 0 # map Suc [0..<n]"
  by (simp add: map_Suc_upt upt_conv_Cons)

lemma check_vout_first:
  "0 \<le> v \<Longrightarrow> v \<le> MAX_MONEY \<Longrightarrow> check_vout v outs =
     map_option (\<lambda>i. (100, the (output_reason v outs i))) (find (\<lambda>i. output_reason v outs i \<noteq> None) [0..<length outs])"
proof (induction outs arbitrary: v)
  case (Cons out outs)
  show ?case
  proof (cases "0 \<le> nValue out \<and> v + nValue out \<le> MAX_MONEY")
    case True
    have s: "output_reason v (out # outs) (Suc i) = output_reason (v + nValue out) outs i" for i
      by (simp add: output_reason_def ac_simps)
    have "output_reason v (out # outs) 0 = None" using True Cons.prems by (simp add: output_reason_def)
    then show ?thesis using Cons.IH [of "v + nValue out"] Cons.prems True
      by (simp add: upt_Suc_Cons find_map_Suc s comp_def option.map_comp MoneyRange_def Let_def del: upt_Suc)
  next
    case False
    then show ?thesis using Cons.prems by (auto simp: upt_Suc_Cons output_reason_def MoneyRange_def Let_def simp del: upt_Suc)
  qed
qed simp

lemma check_dups_reason: "check_dups S ins = (if distinct (map prevout ins) \<and> S \<inter> set (map prevout ins) = {} then None
    else Some (100, ''bad-txns-inputs-duplicate''))"
  by (induction ins arbitrary: S) auto

lemma CheckTransaction_fault:
  assumes "\<not> tx_checked tx"
  shows "CheckTransaction tx st = (case tx_fault tx of (score, reason) \<Rightarrow> fail_DoS score reason st)"
proof -
  have m: "(0 :: int) \<le> MAX_MONEY" by (simp add: MAX_MONEY_def COIN_def)
  note v = check_vout_first [OF order_refl m, of "vout tx"]
  note f = assms CheckTransaction_iff [of tx st]
  show ?thesis
  proof (cases "find (\<lambda>i. output_reason 0 (vout tx) i \<noteq> None) [0..<length (vout tx)]")
    case None
    then show ?thesis using f by (auto simp: CheckTransaction_def tx_fault_def v check_dups_reason split: if_splits)
  next
    case (Some i)
    then show ?thesis by (simp add: CheckTransaction_def tx_fault_def v)
  qed
qed

lemma check_vout_DoS: "check_vout v outs = Some (l, s) \<Longrightarrow> l = 100"
  by (induction outs arbitrary: v) (auto simp: Let_def split: if_splits)

lemma check_dups_DoS: "check_dups S ins = Some (l, s) \<Longrightarrow> l = 100"
  by (induction ins arbitrary: S) (auto split: if_splits)

lemma CheckTransaction_state:
  "vs_mode st \<noteq> MODE_ERROR \<Longrightarrow>
   (case CheckTransaction tx st of (r, st') \<Rightarrow>
      if r then st' = st
      else vs_mode st' = MODE_INVALID \<and> chRejectCode st' = REJECT_INVALID \<and> nDoS st' - nDoS st \<in> {10, 100})"
  by (auto simp: CheckTransaction_def fail_DoS_def DoS_def Let_def split: option.splits
      dest: check_vout_DoS check_dups_DoS)

section \<open>Properties\<close>

text \<open>C22: a transaction's bytes decode to it, and only the serialization of a transaction
  within the size limits decodes; a decoded transaction caches the hash of exactly those bytes.\<close>

theorem transaction_roundtrip:
  "unser_tx H bs = Inr (t, rest) \<longleftrightarrow>
   bs = ser_tx t @ rest \<and> tx_ok t \<and> tx_hash t = H (ser_tx t)"
proof -
  have s: "ser_tx (CTransaction_of H m) = ser_tx m" "tx_ok (CTransaction_of H m) = tx_ok m"
    "tx_hash (CTransaction_of H m) = H (ser_tx m)" for m
    by (simp_all add: ser_tx_def tx_ok_def CTransaction_of_def)
  have "unser_tx H bs = Inr (t, rest) \<longleftrightarrow> (\<exists>m. bs = ser_tx m @ rest \<and> tx_ok m \<and> t = CTransaction_of H m)"
    by (auto simp: unser_tx_def read_then_Inr_iff mtx_codec.dec_iff read_return_def)
  also have "\<dots> \<longleftrightarrow> bs = ser_tx t @ rest \<and> tx_ok t \<and> tx_hash t = H (ser_tx t)"
  proof (intro iffI)
    assume "bs = ser_tx t @ rest \<and> tx_ok t \<and> tx_hash t = H (ser_tx t)"
    then have "bs = ser_tx (CMutableTransaction_of t) @ rest \<and> tx_ok (CMutableTransaction_of t) \<and>
        t = CTransaction_of H (CMutableTransaction_of t)"
      by (simp add: CMutableTransaction_of_def CTransaction_of_def ser_tx_def tx_ok_def)
    then show "\<exists>m. bs = ser_tx m @ rest \<and> tx_ok m \<and> t = CTransaction_of H m" by blast
  qed (auto simp: s)
  finally show ?thesis .
qed

text \<open>C20: \<open>CheckTransaction\<close> accepts exactly the transactions with inputs and outputs
  within the size limit, outputs in the money range with a total in it, distinct inputs, and a
  coinbase script of 2 to 100 bytes or no null input; then the state is unchanged and
  \<open>GetValueOut\<close> is the sum of the outputs.  Otherwise it records the first rule that is broken:
  the transaction is invalid, with \<open>REJECT_INVALID\<close>, the reason of that rule and its score: 10 for no
  inputs, no outputs or a null input, 100 for the size, an output or the running total out of range (the
  first such output tells the reason), duplicate inputs or the length of a coinbase script.\<close>

theorem CheckTransaction_exact:
  "if tx_checked tx
   then CheckTransaction tx vs_init = (True, vs_init) \<and> GetValueOut tx = Inr (sum_list (map nValue (vout tx)))
   else CheckTransaction tx vs_init =
     (False, \<lparr>vs_mode = MODE_INVALID, nDoS = fst (tx_fault tx), strRejectReason = snd (tx_fault tx), chRejectCode = REJECT_INVALID,
              corruptionPossible = False, strDebugMessage = []\<rparr>)"
proof (cases "tx_checked tx")
  case True
  have "GetValueOut tx = Inr (sum_list (map nValue (vout tx)))"
    using value_loop_Inr [of 0 "vout tx"] True by (simp add: GetValueOut_def tx_checked_def)
  moreover have "CheckTransaction tx vs_init = (True, vs_init)"
    using CheckTransaction_iff [of tx vs_init] CheckTransaction_state [of vs_init tx] True
    by (auto simp: vs_init_def split: prod.split_asm)
  ultimately show ?thesis using True by simp
next
  case False
  then show ?thesis
    using CheckTransaction_fault [OF False, of vs_init] by (simp add: fail_DoS_def DoS_def vs_init_def Let_def split: prod.split)
qed

end
