(* ===== verification/Money.thy ===== *)
theory Money
  imports Params Transaction
begin

text \<open>
  Rewards: the block subsidy and the masternode payment of main.cpp, the founder payment
  (FounderPayment.cpp) and the masternode levels (masternode-level.cpp).  An amount is the
  integer an \<open>int64_t\<close> holds; where the code mixes it with a \<open>size_t\<close>, so that
  the arithmetic is unsigned, the wrap-around is written out.  The models of the signed operations
  hold where the C++ ones are defined: products below \<open>2 ^ 63\<close>, heights below
  \<open>2 ^ 31\<close> less one interval, and block values below \<open>2 ^ 53\<close>, which a double
  represents exactly (\<open>MAX_MONEY\<close> is below \<open>2 ^ 51\<close>).
\<close>

section \<open>The block subsidy\<close>

definition POST_MINE_HEIGHT :: int where "POST_MINE_HEIGHT = 117870"
definition POST_MINE_VALUE :: int where "POST_MINE_VALUE = 500000"

partial_function (option) subsidy_loop :: "int \<Rightarrow> int \<Rightarrow> int \<Rightarrow> CAmount \<Rightarrow> CAmount option" where
  \<comment> \<open>the loop over \<open>i += nSubsidyHalvingInterval\<close>, which a zero interval never leaves\<close>
  "subsidy_loop interval nPrevHeight i nSubsidy =
     (if i \<le> nPrevHeight
      then subsidy_loop interval nPrevHeight (i + interval) (nSubsidy - cdiv nSubsidy 10)
      else Some nSubsidy)"

definition GetBlockSubsidy :: "u32 \<Rightarrow> int \<Rightarrow> Consensus_Params \<Rightarrow> bool \<Rightarrow> CAmount option" where
  "GetBlockSubsidy nPrevBits nPrevHeight P fSuperblockPartOnly =
     (if nPrevHeight = 0 then Some (500000 * COIN)
      else if nPrevHeight < 250 \<and> nPrevHeight + 1 \<noteq> POST_MINE_HEIGHT then Some COIN
      else if nPrevHeight + 1 = POST_MINE_HEIGHT \<and> nPrevHeight < 250
      then Some (COIN * POST_MINE_VALUE + COIN)
      else let ret = (if nPrevHeight + 1 = POST_MINE_HEIGHT then COIN * POST_MINE_VALUE else 0)
           in case (if nPrevHeight + 1 \<noteq> POST_MINE_HEIGHT \<and> nPrevHeight \<ge> 250
                    then subsidy_loop (nSubsidyHalvingInterval P) nPrevHeight (nSubsidyHalvingInterval P) (10 * COIN)
                    else Some (10 * COIN)) of
                None \<Rightarrow> None
              | Some nSubsidy \<Rightarrow> Some (ret + (if fSuperblockPartOnly then 0 else nSubsidy)))"

section \<open>Masternode and founder payments\<close>

text \<open>
  \<open>blockValue/1.1\<close> is computed in double precision: \<open>1.1\<close> is the double
  \<open>4953959590107546 / 2 ^ 52\<close>, the quotient is rounded to 53 significant bits, half to
  even, and the result truncated.
\<close>

definition round_half_even :: "int \<Rightarrow> int \<Rightarrow> int" where
  "round_half_even n d =
     (let q = n div d; r = n mod d
      in if 2 * r > d \<or> (2 * r = d \<and> odd q) then q + 1 else q)"

fun bit_length :: "nat \<Rightarrow> nat" where
  "bit_length n = (if n = 0 then 0 else Suc (bit_length (n div 2)))"

declare bit_length.simps [simp del]

definition double_quotient :: "int \<Rightarrow> int \<Rightarrow> int" where
  \<comment> \<open>the integer part of \<open>n/d\<close> rounded to a double, for \<open>0 \<le> n\<close>, \<open>0 < d\<close> and a
    quotient below \<open>2 ^ 53\<close>: with \<open>e\<close> bits before the point, \<open>53 - e\<close> bits are
    kept after it\<close>
  "double_quotient n d =
     (let k = 53 - bit_length (nat (n div d))
      in round_half_even (n * 2 ^ k) d div 2 ^ k)"

definition div_1_1 :: "CAmount \<Rightarrow> CAmount" where
  "div_1_1 blockValue = sgn blockValue * double_quotient (\<bar>blockValue\<bar> * 2 ^ 52) 4953959590107546"

definition GetMasternodePayment :: "int \<Rightarrow> int \<Rightarrow> CAmount \<Rightarrow> CAmount" where
  \<comment> \<open>the first argument is \<open>founderPayment.getFounderStartHeight()\<close>\<close>
  "GetMasternodePayment founderStart nHeight blockValue =
     (if nHeight = POST_MINE_HEIGHT then cdiv (blockValue - POST_MINE_VALUE * COIN) 10
      else let ret = cdiv blockValue 100;
               ret = (if nHeight > 2500 then cdiv (blockValue * 2) 5 else ret);
               ret = (if nHeight > 25000 then ret + cdiv blockValue 10 else ret);
               ret = (if nHeight > 50000 then ret + cdiv blockValue 10 else ret)
           in if nHeight \<ge> founderStart then div_1_1 blockValue else ret)"

record FounderPayment =
  founderAddresses :: "bytes list"  \<comment> \<open>the scripts of the founder addresses\<close>
  founderStartHeight :: int
  oneAddressHeight :: int

definition getFounderPaymentAmount :: "FounderPayment \<Rightarrow> int \<Rightarrow> CAmount \<Rightarrow> CAmount" where
  "getFounderPaymentAmount f blockHeight blockReward =
     (if blockHeight < founderStartHeight f then 0 else cdiv blockReward 11)"

definition getCurrentFounderAddress :: "FounderPayment \<Rightarrow> int \<Rightarrow> bytes" where
  "getCurrentFounderAddress f height =
     (if height > oneAddressHeight f then founderAddresses f ! 0
      else founderAddresses f ! nat ((height mod 2 ^ 64) mod int (length (founderAddresses f))))"

definition FillFounderPayment ::
  "FounderPayment \<Rightarrow> CMutableTransaction \<Rightarrow> int \<Rightarrow> CAmount \<Rightarrow> CMutableTransaction \<times> CTxOut option" where
  \<comment> \<open>the second result is \<open>txoutFounderRet\<close> when it is set\<close>
  "FillFounderPayment f txNew nBlockHeight blockReward =
     (let founderPayment = getFounderPaymentAmount f nBlockHeight blockReward
      in if founderPayment = 0 then (txNew, None)
         else let ret = CTxOut_of founderPayment (getCurrentFounderAddress f nBlockHeight);
                  out0 = vout txNew ! 0
              in (txNew\<lparr>vout := (vout txNew)[0 := out0\<lparr>nValue := nValue out0 - founderPayment\<rparr>] @ [ret]\<rparr>, Some ret))"

definition payeeMatchFounder :: "FounderPayment \<Rightarrow> bytes \<Rightarrow> bool" where
  "payeeMatchFounder f txScript \<longleftrightarrow> list_ex (\<lambda>payee. payee = txScript) (founderAddresses f)"

definition IsBlockPayeeValid_founder ::
  "FounderPayment \<Rightarrow> 'a CMutableTransaction_scheme \<Rightarrow> int \<Rightarrow> CAmount \<Rightarrow> bool" where
  "IsBlockPayeeValid_founder f txNew height blockReward \<longleftrightarrow>
     (let founderReward = getFounderPaymentAmount f height blockReward
      in list_ex (\<lambda>out. payeeMatchFounder f (scriptPubKey out) \<and> nValue out \<ge> founderReward) (vout txNew))"

section \<open>Masternode levels\<close>

datatype Level = LEVEL1 | LEVEL2 | LEVEL3 | LEVEL4 | NULL_LEVEL

definition COLLATERALS :: "(Level \<times> CAmount) list" where
  "COLLATERALS = [(LEVEL1, 1500 * COIN), (LEVEL2, 3000 * COIN), (LEVEL3, 4500 * COIN)]"

definition OLD_COLLATERAL_STOP_HEIGHT :: int where "OLD_COLLATERAL_STOP_HEIGHT = 9999999"
definition LEVEL_COLLATERAL_START_HEIGHT :: int where "LEVEL_COLLATERAL_START_HEIGHT = 9999999"

definition isValidMasternode :: "CAmount \<Rightarrow> int \<Rightarrow> bool" where
  "isValidMasternode value height =
     (if height < LEVEL_COLLATERAL_START_HEIGHT then value = snd (COLLATERALS ! 0)
      else list_ex (\<lambda>(level, collateral). collateral = value)
             (drop (if height \<ge> OLD_COLLATERAL_STOP_HEIGHT then 1 else 0) COLLATERALS))"

fun level_loop :: "CAmount \<Rightarrow> (Level \<times> CAmount) list \<Rightarrow> Level" where
  "level_loop value [] = NULL_LEVEL"
| "level_loop value ((level, collateral) # rest) =
     (if collateral = value then level else level_loop value rest)"

definition getMasternodeLevel :: "CAmount \<Rightarrow> int \<Rightarrow> Level" where
  "getMasternodeLevel value height =
     (if height < LEVEL_COLLATERAL_START_HEIGHT
      then (if value = snd (COLLATERALS ! 0) then fst (COLLATERALS ! 0) else NULL_LEVEL)
      else level_loop value (drop (if height \<ge> OLD_COLLATERAL_STOP_HEIGHT then 1 else 0) COLLATERALS))"

definition getMinimumCollateral :: "int \<Rightarrow> CAmount" where
  "getMinimumCollateral height =
     (if height < OLD_COLLATERAL_STOP_HEIGHT then snd (COLLATERALS ! 0) else snd (COLLATERALS ! 1))"

section \<open>The subsidy schedule\<close>

definition decline :: "CAmount \<Rightarrow> CAmount" where
  "decline s = s - s div 10"

lemma decline_bounds: "9 \<le> s \<Longrightarrow> 9 \<le> decline s \<and> decline s \<le> s"
  by (auto simp: decline_def pos_imp_zdiv_nonneg_iff)

lemma decline_pow_bounds: "9 \<le> s \<Longrightarrow> 9 \<le> (decline ^^ n) s \<and> (decline ^^ n) s \<le> s"
proof (induction n)
  case (Suc n)
  then show ?case using decline_bounds [of "(decline ^^ n) s"] by simp
qed simp

lemma decline_pow_antimono: "9 \<le> s \<Longrightarrow> m \<le> n \<Longrightarrow> (decline ^^ n) s \<le> (decline ^^ m) s"
proof (induction n)
  case (Suc n)
  then show ?case using decline_bounds [of "(decline ^^ n) s"] decline_pow_bounds [of s n]
    by (cases "m = Suc n") auto
qed simp

lemma subsidy_loop_terminates:
  assumes "0 < interval"
  shows "0 \<le> s \<Longrightarrow> subsidy_loop interval h i s =
    Some ((decline ^^ (if i \<le> h then nat ((h - i) div interval) + 1 else 0)) s)"
proof (induction "nat (h - i + 1)" arbitrary: i s rule: less_induct)
  case less
  show ?case
  proof (cases "i \<le> h")
    case False
    then show ?thesis by (subst subsidy_loop.simps) simp
  next
    case True
    have d: "s - cdiv s 10 = decline s" "0 \<le> decline s"
      using less.prems by (simp_all add: decline_def int_div_le_self)
    have IH: "subsidy_loop interval h (i + interval) (decline s) =
        Some ((decline ^^ (if i + interval \<le> h then nat ((h - (i + interval)) div interval) + 1 else 0)) (decline s))"
      using less.hyps [of "i + interval" "decline s"] d assms True by simp
    have e: "(h - i) div interval = (if i + interval \<le> h then (h - (i + interval)) div interval + 1 else 0)"
    proof (cases "i + interval \<le> h")
      case T: True
      then show ?thesis using div_add_self2 [of interval "h - (i + interval)"] assms by simp
    next
      case F: False
      then show ?thesis using True assms by (simp add: div_pos_pos_trivial)
    qed
    have n: "0 \<le> (h - (i + interval)) div interval" if "i + interval \<le> h"
      using that assms by (simp add: pos_imp_zdiv_nonneg_iff)
    have "subsidy_loop interval h i s = subsidy_loop interval h (i + interval) (decline s)"
      using True d by (subst subsidy_loop.simps) simp
    also have "\<dots> = Some ((decline ^^ (nat ((h - i) div interval) + 1)) s)"
      unfolding IH e using n by (auto simp: funpow_swap1 nat_add_distrib)
    finally show ?thesis using True by simp
  qed
qed

lemma subsidy_loop_schedule:
  assumes "0 < interval" "0 \<le> h" "0 \<le> s"
  shows "subsidy_loop interval h interval s = Some ((decline ^^ nat (h div interval)) s)"
proof (cases "interval \<le> h")
  case True
  have "h div interval = (h - interval) div interval + 1"
    using div_add_self2 [of interval "h - interval"] assms(1) by simp
  moreover have "0 \<le> (h - interval) div interval" using True assms by (simp add: pos_imp_zdiv_nonneg_iff)
  ultimately show ?thesis using subsidy_loop_terminates [OF assms(1,3), of h interval] True
    by (simp add: nat_add_distrib)
next
  case False
  then show ?thesis using subsidy_loop_terminates [OF assms(1,3), of h interval] assms
    by (simp add: div_pos_pos_trivial)
qed

definition subsidy :: "Consensus_Params \<Rightarrow> int \<Rightarrow> CAmount" where
  "subsidy P h =
     (if h = 0 then 500000 * COIN else if h < 250 then COIN
      else if h + 1 = POST_MINE_HEIGHT then (POST_MINE_VALUE + 10) * COIN
      else (decline ^^ nat (h div nSubsidyHalvingInterval P)) (10 * COIN))"

lemma GetBlockSubsidy_schedule:
  assumes "0 < nSubsidyHalvingInterval P" "0 \<le> h"
  shows "GetBlockSubsidy bits h P False = Some (subsidy P h)"
  using subsidy_loop_schedule [OF assms, of "10 * COIN"] assms(2)
  by (auto simp: GetBlockSubsidy_def subsidy_def POST_MINE_HEIGHT_def POST_MINE_VALUE_def COIN_def)

lemma subsidy_bounds:
  "250 \<le> h \<Longrightarrow> h + 1 \<noteq> POST_MINE_HEIGHT \<Longrightarrow> 9 \<le> subsidy P h \<and> subsidy P h \<le> 10 * COIN"
  using decline_pow_bounds [of "10 * COIN"] by (simp add: subsidy_def COIN_def)

lemma subsidy_antimono:
  assumes "0 < nSubsidyHalvingInterval P" "250 \<le> g" "g \<le> h" "g + 1 \<noteq> POST_MINE_HEIGHT" "h + 1 \<noteq> POST_MINE_HEIGHT"
  shows "subsidy P h \<le> subsidy P g"
proof -
  have "g div nSubsidyHalvingInterval P \<le> h div nSubsidyHalvingInterval P"
    using assms by (intro zdiv_mono1) auto
  then show ?thesis using assms decline_pow_antimono [of "10 * COIN"]
    by (simp add: subsidy_def COIN_def nat_mono)
qed

section \<open>Issuance\<close>

definition issued :: "Consensus_Params \<Rightarrow> nat \<Rightarrow> CAmount" where
  \<comment> \<open>what the blocks on top of the first \<open>n\<close> may create\<close>
  "issued P n = (\<Sum>h < n. subsidy P (int h))"

lemma subsidy_ge_decline:
  "250 \<le> h \<Longrightarrow> (decline ^^ nat (h div nSubsidyHalvingInterval P)) (10 * COIN) \<le> subsidy P h"
  using decline_pow_bounds [of "10 * COIN" "nat (h div nSubsidyHalvingInterval P)"]
  by (simp add: subsidy_def COIN_def POST_MINE_VALUE_def)

lemma subsidy_nonneg: "0 \<le> h \<Longrightarrow> 0 \<le> subsidy P h"
  using decline_pow_bounds [of "10 * COIN" "nat (h div nSubsidyHalvingInterval P)"]
  by (simp add: subsidy_def COIN_def POST_MINE_VALUE_def)

lemma issued_lower:
  assumes I: "nSubsidyHalvingInterval P = int I" "250 \<le> I"
  shows "(\<Sum>k < n. int I * (decline ^^ k) (10 * COIN)) - 250 * (10 * COIN) \<le> issued P (n * I)"
proof -
  let ?f = "\<lambda>h. (decline ^^ (h div I)) (10 * COIN)"
  have dv: "nat (int h div nSubsidyHalvingInterval P) = h div I" for h
    by (simp add: I zdiv_int [symmetric] flip: of_nat_div)
  have "(\<Sum>k < n. int I * (decline ^^ k) (10 * COIN)) = (\<Sum>k < n. \<Sum>h = k * I..<k * I + I. ?f h)"
  proof (rule sum.cong [OF refl])
    fix k
    have "?f h = (decline ^^ k) (10 * COIN)" if "h \<in> {k * I..<k * I + I}" for h
    proof -
      have "h div I = k" using that I(2) by (intro div_nat_eqI) (auto simp: mult.commute)
      then show ?thesis by simp
    qed
    then show "int I * (decline ^^ k) (10 * COIN) = (\<Sum>h = k * I..<k * I + I. ?f h)" by simp
  qed
  also have "\<dots> = (\<Sum>h < n * I. ?f h)" by (rule sum.nat_group)
  also have "\<dots> \<le> (\<Sum>h < n * I. subsidy P (int h) + (if h < 250 then 10 * COIN else 0))"
  proof (rule sum_mono)
    fix h
    show "?f h \<le> subsidy P (int h) + (if h < 250 then 10 * COIN else 0)"
    proof (cases "h < 250")
      case True
      then show ?thesis using decline_pow_bounds [of "10 * COIN" "h div I"] subsidy_nonneg [of "int h" P]
        by (simp add: COIN_def)
    next
      case False
      then show ?thesis using subsidy_ge_decline [of "int h" P] by (simp add: dv)
    qed
  qed
  also have "\<dots> = issued P (n * I) + (\<Sum>h < n * I. if h < 250 then 10 * COIN else 0)"
    by (simp add: issued_def sum.distrib)
  also have "(\<Sum>h < n * I. if h < 250 then 10 * COIN else 0) \<le> 250 * (10 * COIN)"
  proof -
    have "(\<Sum>h < n * I. if h < 250 then 10 * COIN else 0) = (\<Sum>h \<in> {..<n * I} \<inter> {h. h < 250}. 10 * COIN)"
      by (simp add: sum.If_cases)
    also have "\<dots> = int (card ({..<n * I} \<inter> {..<250})) * (10 * COIN)" by (simp add: lessThan_def)
    also have "\<dots> \<le> 250 * (10 * COIN)"
      using card_mono [of "{..<250 :: nat}" "{..<n * I} \<inter> {..<250}"] by (simp add: COIN_def)
    finally show ?thesis .
  qed
  finally show ?thesis by linarith
qed

lemma decline_values:
  "map (\<lambda>k. (decline ^^ k) (10 * COIN)) [0..<16] =
    [1000000000, 900000000, 810000000, 729000000, 656100000, 590490000, 531441000, 478296900,
     430467210, 387420489, 348678441, 313810597, 282429538, 254186585, 228767927, 205891135]"
  by (simp add: decline_def COIN_def upt_rec numeral_eq_Suc)

section \<open>Payments\<close>

lemma round_half_even_le: "0 < d \<Longrightarrow> round_half_even n d \<le> n div d + 1"
  by (simp add: round_half_even_def Let_def)

lemma div_1_1_bounds:
  assumes "0 \<le> v"
  shows "0 \<le> div_1_1 v \<and> div_1_1 v \<le> v"
proof (cases "v = 0")
  case True
  then show ?thesis by (simp add: div_1_1_def)
next
  case False
  define d :: int where "d = 4953959590107546"
  define K :: int where "K = 2 ^ (53 - bit_length (nat (v * 2 ^ 52 div d)))"
  have K: "0 < K" by (simp add: K_def)
  have d: "0 < d" "2 ^ 52 < d" by (simp_all add: d_def)
  have pos: "0 < v * K" using False assms K by simp
  have "v * 2 ^ 52 * K = v * K * 2 ^ 52" by simp
  also have "\<dots> < v * K * d" using pos d(2) by (rule mult_strict_left_mono [rotated])
  finally have lt: "v * 2 ^ 52 * K < v * K * d" .
  have "v * 2 ^ 52 * K div d < v * K"
  proof (rule ccontr)
    assume "\<not> v * 2 ^ 52 * K div d < v * K"
    then have "v * K * d \<le> v * 2 ^ 52 * K div d * d" using d(1) by (intro mult_right_mono) simp_all
    also have "\<dots> \<le> v * 2 ^ 52 * K" using pos_mod_sign [OF d(1), of "v * 2 ^ 52 * K"] by (simp only: minus_mod_eq_div_mult [symmetric])
    finally show False using lt by simp
  qed
  then have "round_half_even (v * 2 ^ 52 * K) d \<le> v * K"
    using round_half_even_le [OF d(1), of "v * 2 ^ 52 * K"] by linarith
  then have "round_half_even (v * 2 ^ 52 * K) d div K \<le> v * K div K" using K by (rule zdiv_mono1)
  moreover have "0 \<le> round_half_even (v * 2 ^ 52 * K) d"
    using assms K d by (simp add: round_half_even_def Let_def pos_imp_zdiv_nonneg_iff)
  ultimately have b: "0 \<le> round_half_even (v * 2 ^ 52 * K) d div K \<and> round_half_even (v * 2 ^ 52 * K) d div K \<le> v"
    using K by (simp only: pos_imp_zdiv_nonneg_iff nonzero_mult_div_cancel_right)
  have sg: "sgn v = 1" "\<bar>v\<bar> = v" using False assms by simp_all
  have "div_1_1 v = round_half_even (v * 2 ^ 52 * K) d div K"
    unfolding div_1_1_def double_quotient_def Let_def sg mult_1 K_def d_def ..
  with b show ?thesis by simp
qed

lemma GetMasternodePayment_bounds:
  assumes "0 \<le> v" "h \<noteq> POST_MINE_HEIGHT"
  shows "0 \<le> GetMasternodePayment fs h v \<and> GetMasternodePayment fs h v \<le> v"
proof -
  have "v div 100 \<le> v" "2 * (v div 10) + v * 2 div 5 \<le> v" "v * 2 div 5 + v div 10 \<le> v" "v * 2 div 5 \<le> v"
    "0 \<le> v div 100" "0 \<le> v div 10" "0 \<le> v * 2 div 5"
    using assms(1) by (auto simp: pos_imp_zdiv_nonneg_iff)
  then show ?thesis using assms div_1_1_bounds [OF assms(1)]
    by (simp add: GetMasternodePayment_def Let_def)
qed

lemma sum_list_update_int: "i < length xs \<Longrightarrow> sum_list (xs[i := v]) = sum_list xs + v - xs ! i" for v :: int
  by (induction xs arbitrary: i) (auto split: nat.splits)

lemma FillFounderPayment_conserves:
  assumes "vout tx \<noteq> []"
  shows "sum_list (map nValue (vout (fst (FillFounderPayment f tx h r)))) = sum_list (map nValue (vout tx))"
proof -
  have "0 < length (vout tx)" using assms by simp
  then show ?thesis
    by (simp add: FillFounderPayment_def Let_def CTxOut_of_def map_update sum_list_update_int)
qed

lemma FillFounderPayment_accepted:
  assumes "founderStartHeight f \<le> h" "11 \<le> r" "founderAddresses f \<noteq> []"
  shows "IsBlockPayeeValid_founder f (fst (FillFounderPayment f tx h r)) h r"
proof -
  have a: "getFounderPaymentAmount f h r = r div 11" "r div 11 \<noteq> 0"
    using assms by (auto simp: getFounderPaymentAmount_def)
  have "getCurrentFounderAddress f h \<in> set (founderAddresses f)"
  proof (cases "h > oneAddressHeight f")
    case False
    let ?n = "int (length (founderAddresses f))"
    have "0 \<le> h mod 2 ^ 64 mod ?n" "h mod 2 ^ 64 mod ?n < ?n" using assms(3) by simp_all
    then have "nat (h mod 2 ^ 64 mod ?n) < length (founderAddresses f)" by linarith
    then show ?thesis using False by (simp add: getCurrentFounderAddress_def)
  qed (use assms(3) in \<open>simp add: getCurrentFounderAddress_def\<close>)
  then show ?thesis using a
    by (auto simp: IsBlockPayeeValid_founder_def FillFounderPayment_def Let_def CTxOut_of_def
        payeeMatchFounder_def list_ex_iff)
qed

lemma isValidMasternode_level: "isValidMasternode v h \<longleftrightarrow> getMasternodeLevel v h \<noteq> NULL_LEVEL"
  by (simp add: isValidMasternode_def getMasternodeLevel_def COLLATERALS_def COIN_def
      LEVEL_COLLATERAL_START_HEIGHT_def OLD_COLLATERAL_STOP_HEIGHT_def)

lemma getMinimumCollateral_least:
  "isValidMasternode v h \<Longrightarrow> getMinimumCollateral h \<le> v \<and> isValidMasternode (getMinimumCollateral h) h"
  by (auto simp: isValidMasternode_def getMinimumCollateral_def COLLATERALS_def COIN_def
      LEVEL_COLLATERAL_START_HEIGHT_def OLD_COLLATERAL_STOP_HEIGHT_def split: if_splits)

section \<open>Properties\<close>

text \<open>C40: with a positive interval the subsidy loop ends, and the subsidy of a height is the
  schedule's: the two early amounts, the post-mine block, and otherwise 10 coins reduced by a tenth,
  rounded down, once per full interval; it never falls below 9 units nor rises with the height.\<close>

theorem subsidy_schedule:
  assumes "0 < nSubsidyHalvingInterval P" "0 \<le> h"
  shows "GetBlockSubsidy bits h P False = Some (subsidy P h) \<and>
    (250 \<le> h \<and> h + 1 \<noteq> POST_MINE_HEIGHT \<longrightarrow> 9 \<le> subsidy P h \<and> subsidy P h \<le> 10 * COIN \<and>
      (\<forall>g \<ge> h. g + 1 \<noteq> POST_MINE_HEIGHT \<longrightarrow> subsidy P g \<le> subsidy P h))"
  using GetBlockSubsidy_schedule [OF assms] subsidy_bounds [of h P] subsidy_antimono [OF assms(1)]
  by auto

theorem subsidy_schedule_witness:
  "GetBlockSubsidy 0 300000 MainParams False = Some 900000000"
proof -
  have "0 < nSubsidyHalvingInterval MainParams" "0 \<le> (300000 :: int)" by (simp_all add: MainParams_def)
  from subsidy_schedule [OF this, of 0] show ?thesis
    by (simp add: subsidy_def POST_MINE_HEIGHT_def MainParams_def decline_def COIN_def)
qed

text \<open>On the main network the blocks of the first sixteen intervals may create more than
  \<open>MAX_MONEY\<close>, so the money range is not an upper bound of the supply.\<close>

theorem issuance_exceeds_MAX_MONEY: "MAX_MONEY < issued MainParams (16 * 262800)"
proof -
  have "(\<Sum>k < 16. 262800 * (decline ^^ k) (10 * COIN)) - 250 * (10 * COIN) \<le> issued MainParams (16 * 262800)"
    using issued_lower [of MainParams 262800 16] by (simp add: MainParams_def)
  moreover have "(\<Sum>k < 16. 262800 * (decline ^^ k) (10 * COIN)) =
      262800 * sum_list (map (\<lambda>k. (decline ^^ k) (10 * COIN)) [0..<16])"
    by (simp add: sum_distrib_left [symmetric] interv_sum_list_conv_sum_set_nat lessThan_atLeast0)
  ultimately show ?thesis unfolding decline_values by (simp add: MAX_MONEY_def COIN_def)
qed

text \<open>Filling the founder payment moves value from the first output of the coinbase to a new
  one without changing the total, and the block then passes the founder payee check.\<close>

theorem founder_payment_sound:
  assumes "vout tx \<noteq> []" "founderStartHeight f \<le> h" "11 \<le> r" "founderAddresses f \<noteq> []"
  shows "sum_list (map nValue (vout (fst (FillFounderPayment f tx h r)))) = sum_list (map nValue (vout tx)) \<and>
    IsBlockPayeeValid_founder f (fst (FillFounderPayment f tx h r)) h r"
  using FillFounderPayment_conserves [OF assms(1)] FillFounderPayment_accepted [OF assms(2-4)] by blast

theorem founder_payment_sound_witness:
  "IsBlockPayeeValid_founder
     \<lparr>founderAddresses = [[1], [2]], founderStartHeight = FOUNDER_START_BLOCK, oneAddressHeight = ONE_ADDRESS_HEIGHT\<rparr>
     (fst (FillFounderPayment
       \<lparr>founderAddresses = [[1], [2]], founderStartHeight = FOUNDER_START_BLOCK, oneAddressHeight = ONE_ADDRESS_HEIGHT\<rparr>
       \<lparr>tx_nVersion = 1, vin = [], vout = [CTxOut_of 1000 [7]], nLockTime = 0\<rparr> 9999001 1000)) 9999001 1000"
  by (rule founder_payment_sound [THEN conjunct2]) (simp_all add: FOUNDER_START_BLOCK_def)

text \<open>Away from the post-mine block, the masternode payment of a non-negative block value is
  between zero and the value, at every height and also where it is computed in floating point.\<close>

theorem masternode_payment_bounds:
  assumes "0 \<le> v" "v < 2 ^ 53" "h \<noteq> POST_MINE_HEIGHT"
  shows "0 \<le> GetMasternodePayment fs h v \<and> GetMasternodePayment fs h v \<le> v"
  by (rule GetMasternodePayment_bounds [OF assms(1,3)])

theorem masternode_payment_bounds_witness:
  "0 \<le> GetMasternodePayment FOUNDER_START_BLOCK 10000000 1100 \<and>
   GetMasternodePayment FOUNDER_START_BLOCK 10000000 1100 \<le> 1100"
  by (rule masternode_payment_bounds) (simp_all add: POST_MINE_HEIGHT_def)

text \<open>A collateral is a valid masternode's exactly when it has a level, and the minimum
  collateral of a height is valid and the least valid one.\<close>

theorem masternode_levels_agree:
  "(isValidMasternode v h \<longleftrightarrow> getMasternodeLevel v h \<noteq> NULL_LEVEL) \<and>
   isValidMasternode (getMinimumCollateral h) h \<and>
   getMinimumCollateral h = (LEAST c. isValidMasternode c h)"
proof -
  have min: "isValidMasternode (getMinimumCollateral h) h"
    by (simp add: isValidMasternode_def getMinimumCollateral_def COLLATERALS_def COIN_def
      LEVEL_COLLATERAL_START_HEIGHT_def OLD_COLLATERAL_STOP_HEIGHT_def)
  then have "(LEAST c. isValidMasternode c h) = getMinimumCollateral h"
    using getMinimumCollateral_least by (intro Least_equality) blast+
  then show ?thesis using min isValidMasternode_level by simp
qed

end
