(* ===== verification/LockTime.thy ===== *)
theory LockTime
  imports BlockIndex Transaction
begin

text \<open>
  Relative lock times (BIP 68) as main.cpp computes them: \<open>CalculateSequenceLocks\<close>,
  \<open>EvaluateSequenceLocks\<close>, \<open>SequenceLocks\<close>, \<open>CheckSequenceLocks\<close>,
  and \<open>CheckFinalTx\<close>.  A block is an object of the block tree; a null dereference is a
  fault.  The rule per input (\<open>input_locked\<close>) is stated separately, and the loop with its
  two running maxima is proved to decide it for all inputs.
\<close>

section \<open>Sequence locks\<close>

definition LOCKTIME_VERIFY_SEQUENCE :: u32 where "LOCKTIME_VERIFY_SEQUENCE = push_bit 0 1"
definition LOCKTIME_MEDIAN_TIME_PAST :: u32 where "LOCKTIME_MEDIAN_TIME_PAST = push_bit 1 1"

definition relative_value :: "CTxIn \<Rightarrow> int" where
  "relative_value txin = uint (nSequence txin AND SEQUENCE_LOCKTIME_MASK)"

definition lock_seconds :: "CTxIn \<Rightarrow> int" where
  \<comment> \<open>the shift is of an unsigned int\<close>
  "lock_seconds txin = uint (push_bit SEQUENCE_LOCKTIME_GRANULARITY (nSequence txin AND SEQUENCE_LOCKTIME_MASK))"

fun seqlock_loop :: "btree \<Rightarrow> ptr \<Rightarrow> (CTxIn \<times> int) list \<Rightarrow> int \<Rightarrow> int \<Rightarrow> fault + (int \<times> int) \<times> int list" where
  \<comment> \<open>the inputs with \<open>prevHeights\<close>; the new heights come back with the pair\<close>
  "seqlock_loop T block [] nMinHeight nMinTime = Inr ((nMinHeight, nMinTime), [])"
| "seqlock_loop T block ((txin, nCoinHeight) # rest) nMinHeight nMinTime =
     (if nSequence txin AND SEQUENCE_LOCKTIME_DISABLE_FLAG \<noteq> 0
      then sum_bind (seqlock_loop T block rest nMinHeight nMinTime) (\<lambda>(r, hs). Inr (r, 0 # hs))
      else if nSequence txin AND SEQUENCE_LOCKTIME_TYPE_FLAG \<noteq> 0
      then (case GetAncestor T block (max (nCoinHeight - 1) 0) of
              Inl e \<Rightarrow> Inl e
            | Inr None \<Rightarrow> Inl NullDeref
            | Inr (Some q) \<Rightarrow>
                sum_bind (seqlock_loop T block rest nMinHeight
                  (max nMinTime (GetMedianTimePast T q + lock_seconds txin - 1)))
                  (\<lambda>(r, hs). Inr (r, nCoinHeight # hs)))
      else sum_bind (seqlock_loop T block rest (max nMinHeight (nCoinHeight + relative_value txin - 1)) nMinTime)
             (\<lambda>(r, hs). Inr (r, nCoinHeight # hs)))"

definition CalculateSequenceLocks ::
  "btree \<Rightarrow> 'a CMutableTransaction_scheme \<Rightarrow> u32 \<Rightarrow> int list \<Rightarrow> ptr \<Rightarrow> fault + (int \<times> int) \<times> int list" where
  "CalculateSequenceLocks T tx flags prevHeights block =
     (if length prevHeights \<noteq> length (vin tx) then Inl AssertFailed
      else if \<not> (tx_nVersion tx \<ge> 2 \<and> flags AND LOCKTIME_VERIFY_SEQUENCE \<noteq> 0)
      then Inr ((- 1, - 1), prevHeights)
      else seqlock_loop T block (zip (vin tx) prevHeights) (- 1) (- 1))"

definition EvaluateSequenceLocks :: "btree \<Rightarrow> ptr \<Rightarrow> int \<times> int \<Rightarrow> fault + bool" where
  "EvaluateSequenceLocks T block lockPair =
     (case pprev (obj T block) of
        None \<Rightarrow> Inl AssertFailed
      | Some q \<Rightarrow>
          Inr (if fst lockPair \<ge> nHeight (obj T block) \<or> snd lockPair \<ge> GetMedianTimePast T q then False else True))"

definition SequenceLocks ::
  "btree \<Rightarrow> 'a CMutableTransaction_scheme \<Rightarrow> u32 \<Rightarrow> int list \<Rightarrow> ptr \<Rightarrow> fault + bool" where
  "SequenceLocks T tx flags prevHeights block =
     sum_bind (CalculateSequenceLocks T tx flags prevHeights block)
       (\<lambda>(lockPair, hs). EvaluateSequenceLocks T block lockPair)"

section \<open>Checks against the next block\<close>

definition CheckFinalTx ::
  "btree \<Rightarrow> CChain \<Rightarrow> int \<Rightarrow> 'a CMutableTransaction_scheme \<Rightarrow> int \<Rightarrow> fault + bool" where
  \<comment> \<open>the third argument is \<open>GetAdjustedTime()\<close>\<close>
  "CheckFinalTx T chainActive adjustedTime tx flags0 =
     (let flags = word_of_int (max flags0 0) :: u32;
          nBlockHeight = chain_Height chainActive + 1
      in if flags AND LOCKTIME_MEDIAN_TIME_PAST \<noteq> 0
         then (case chain_Tip chainActive of
                 None \<Rightarrow> Inl NullDeref
               | Some tip \<Rightarrow> Inr (IsFinalTx tx nBlockHeight (GetMedianTimePast T tip)))
         else Inr (IsFinalTx tx nBlockHeight adjustedTime))"

record LockPoints =
  lp_height :: int
  lp_time :: int
  maxInputBlock :: "ptr option"

definition TestLockPointValidity :: "btree \<Rightarrow> CChain \<Rightarrow> LockPoints option \<Rightarrow> fault + bool" where
  "TestLockPointValidity T chainActive lp0 =
     (case lp0 of
        None \<Rightarrow> Inl AssertFailed
      | Some lp \<Rightarrow> (case maxInputBlock lp of
            None \<Rightarrow> Inr True
          | Some b \<Rightarrow> Inr (chain_Contains T chainActive b)))"

definition MEMPOOL_HEIGHT :: int where "MEMPOOL_HEIGHT = 0x7FFFFFFF"

fun prev_heights :: "(uint256 \<Rightarrow> int option) \<Rightarrow> int \<Rightarrow> CTxIn list \<Rightarrow> int list option" where
  \<comment> \<open>\<open>None\<close> is "Missing input"\<close>
  "prev_heights coins_height tipHeight [] = Some []"
| "prev_heights coins_height tipHeight (txin # rest) =
     (case coins_height (op_hash (prevout txin)) of
        None \<Rightarrow> None
      | Some h \<Rightarrow> map_option (\<lambda>hs. (if h = MEMPOOL_HEIGHT then tipHeight + 1 else h) # hs)
          (prev_heights coins_height tipHeight rest))"

definition next_index :: "btree \<Rightarrow> ptr \<Rightarrow> ptr \<Rightarrow> btree" where
  \<comment> \<open>the local object \<open>index\<close>, at an address of its own\<close>
  "next_index T fresh tip =
     T\<lparr>obj := (obj T)(fresh := CBlockIndex_null\<lparr>pprev := Some tip, nHeight := nHeight (obj T tip) + 1\<rparr>),
        known := insert fresh (known T)\<rparr>"

definition CheckSequenceLocks ::
  "btree \<Rightarrow> CChain \<Rightarrow> ptr \<Rightarrow> (uint256 \<Rightarrow> int option) \<Rightarrow> 'a CMutableTransaction_scheme \<Rightarrow> u32 \<Rightarrow>
   LockPoints option \<Rightarrow> bool \<Rightarrow> fault + bool \<times> LockPoints option" where
  \<comment> \<open>the fourth argument is the height of the coins of a transaction in \<open>viewMemPool\<close>\<close>
  "CheckSequenceLocks T chainActive fresh coins_height tx flags lp useExistingLockPoints =
     (case chain_Tip chainActive of
        None \<Rightarrow> Inl NullDeref
      | Some tip \<Rightarrow>
         (let T1 = next_index T fresh tip
          in if useExistingLockPoints
             then (case lp of
                     None \<Rightarrow> Inl AssertFailed
                   | Some l \<Rightarrow> sum_bind (EvaluateSequenceLocks T1 fresh (lp_height l, lp_time l)) (\<lambda>r. Inr (r, lp)))
             else (case prev_heights coins_height (nHeight (obj T tip)) (vin tx) of
                     None \<Rightarrow> Inr (False, lp)
                   | Some prevheights \<Rightarrow>
                      sum_bind (CalculateSequenceLocks T1 tx flags prevheights fresh) (\<lambda>(lockPair, hs).
                        (case lp of
                           None \<Rightarrow> sum_bind (EvaluateSequenceLocks T1 fresh lockPair) (\<lambda>r. Inr (r, None))
                         | Some l \<Rightarrow>
                             (let maxInputHeight = foldl (\<lambda>m h. if h \<noteq> nHeight (obj T tip) + 1 then max m h else m) 0 hs
                              in sum_bind (GetAncestor T1 tip maxInputHeight) (\<lambda>a.
                                 sum_bind (EvaluateSequenceLocks T1 fresh lockPair) (\<lambda>r.
                                   Inr (r, Some \<lparr>lp_height = fst lockPair, lp_time = snd lockPair, maxInputBlock = a\<rparr>))))))))) "

section \<open>The rule per input\<close>

definition height_locked :: "CTxIn \<Rightarrow> bool" where
  "height_locked txin \<longleftrightarrow> nSequence txin AND SEQUENCE_LOCKTIME_DISABLE_FLAG = 0 \<and>
     nSequence txin AND SEQUENCE_LOCKTIME_TYPE_FLAG = 0"

definition time_locked :: "CTxIn \<Rightarrow> bool" where
  "time_locked txin \<longleftrightarrow> nSequence txin AND SEQUENCE_LOCKTIME_DISABLE_FLAG = 0 \<and>
     nSequence txin AND SEQUENCE_LOCKTIME_TYPE_FLAG \<noteq> 0"

definition coin_time :: "btree \<Rightarrow> ptr \<Rightarrow> int \<Rightarrow> int" where
  \<comment> \<open>the median time past of the block before the coin's\<close>
  "coin_time T block h = GetMedianTimePast T (the (ancestor_at T block (max (h - 1) 0)))"

definition input_satisfied :: "btree \<Rightarrow> ptr \<Rightarrow> CTxIn \<times> int \<Rightarrow> bool" where
  \<comment> \<open>BIP 68: the block is at least the relative number of blocks above the coin, or its
    parent's median time at least that many units of 512 seconds after the coin's\<close>
  "input_satisfied T block ih =
     ((height_locked (fst ih) \<longrightarrow> snd ih + relative_value (fst ih) \<le> nHeight (obj T block)) \<and>
      (time_locked (fst ih) \<longrightarrow>
         coin_time T block (snd ih) + 512 * relative_value (fst ih)
           \<le> GetMedianTimePast T (the (pprev (obj T block)))))"

lemma relative_value_bounds: "0 \<le> relative_value txin \<and> relative_value txin < 65536"
proof -
  have "uint (nSequence txin AND SEQUENCE_LOCKTIME_MASK) \<le> 0xffff"
    using AND_upper2 [of "0xffff" "uint (nSequence txin)"]
    by (simp add: SEQUENCE_LOCKTIME_MASK_def unsigned_and_eq)
  then show ?thesis by (simp add: relative_value_def)
qed

lemma lock_seconds_eq: "lock_seconds txin = 512 * relative_value txin"
proof -
  let ?v = "nSequence txin AND SEQUENCE_LOCKTIME_MASK"
  have v: "uint ?v * 512 < 2 ^ 32" using relative_value_bounds [of txin] by (simp add: relative_value_def)
  have "uint (push_bit 9 ?v) = (uint ?v * 512) mod 2 ^ 32"
    by (simp add: push_bit_eq_mult uint_word_ariths)
  also have "\<dots> = uint ?v * 512" using v by (intro mod_pos_pos_trivial) simp_all
  finally show ?thesis by (simp add: lock_seconds_def relative_value_def SEQUENCE_LOCKTIME_GRANULARITY_def)
qed

lemma seqlock_loop_correct:
  assumes wf: "btree_wf T" "p \<in> known T"
  shows "(\<forall>(t, h) \<in> set ins. max (h - 1) 0 \<le> nHeight (obj T p)) \<Longrightarrow>
    \<exists>H M hs. seqlock_loop T p ins mh mt = Inr ((H, M), hs) \<and>
      (\<forall>b. H < b \<longleftrightarrow> mh < b \<and> (\<forall>(t, h) \<in> set ins. height_locked t \<longrightarrow> h + relative_value t - 1 < b)) \<and>
      (\<forall>b. M < b \<longleftrightarrow> mt < b \<and> (\<forall>(t, h) \<in> set ins. time_locked t \<longrightarrow> coin_time T p h + 512 * relative_value t - 1 < b))"
proof (induction ins arbitrary: mh mt)
  case (Cons ih ins)
  obtain t h where ih: "ih = (t, h)" by (cases ih)
  have pre: "\<forall>(t, h) \<in> set ins. max (h - 1) 0 \<le> nHeight (obj T p)" "max (h - 1) 0 \<le> nHeight (obj T p)"
    using Cons.prems ih by auto
  obtain q where q: "GetAncestor T p (max (h - 1) 0) = Inr (Some q)" "ancestor_at T p (max (h - 1) 0) = Some q"
    using ancestor_at_total [OF wf, of "max (h - 1) 0"] pre(2) GetAncestor_correct [OF wf, of "max (h - 1) 0"] by auto
  consider (off) "nSequence t AND SEQUENCE_LOCKTIME_DISABLE_FLAG \<noteq> 0"
    | (time) "time_locked t" | (height) "height_locked t"
    by (auto simp: time_locked_def height_locked_def)
  then show ?case
  proof cases
    case off
    then have "\<not> time_locked t" "\<not> height_locked t" by (auto simp: time_locked_def height_locked_def)
    then show ?thesis using Cons.IH [OF pre(1), of mh mt] off ih by auto
  next
    case time
    then have n: "\<not> height_locked t" by (auto simp: time_locked_def height_locked_def)
    show ?thesis
      using Cons.IH [OF pre(1), of mh "max mt (GetMedianTimePast T q + lock_seconds t - 1)"] time n ih q
      by (auto simp: time_locked_def coin_time_def lock_seconds_eq)
  next
    case height
    then have n: "\<not> time_locked t" by (auto simp: time_locked_def height_locked_def)
    show ?thesis
      using Cons.IH [OF pre(1), of "max mh (h + relative_value t - 1)" mt] height n ih
      by (auto simp: height_locked_def)
  qed
qed simp

lemma GetMedianTimePast_nonneg: "0 \<le> GetMedianTimePast T p"
proof -
  have "t \<ge> 0" if "t \<in> set (median_times T i po)" for t i po
    using that by (induction T i po rule: median_times.induct) (auto simp: GetBlockTime_def)
  then show ?thesis using GetMedianTimePast_median(1) by blast
qed

lemma SequenceLocks_correct:
  assumes wf: "btree_wf T" "p \<in> known T" "pprev (obj T p) = Some q"
    and len: "length hs = length (vin tx)" and hs: "\<forall>h \<in> set hs. h \<le> nHeight (obj T p)"
    and on: "tx_nVersion tx \<ge> 2" "flags AND LOCKTIME_VERIFY_SEQUENCE \<noteq> 0"
  shows "SequenceLocks T tx flags hs p = Inr (\<forall>ih \<in> set (zip (vin tx) hs). input_satisfied T p ih)"
proof -
  have lp: "linked T p" using wf(1,2) by (simp add: btree_wf_def)
  then have "q \<in> known T" using wf(3) by (simp add: linked_def)
  then have "linked T q" using wf(1) by (simp add: btree_wf_def)
  then have h0: "0 < nHeight (obj T p)" using lp wf(3) by (simp add: linked_def)
  have "\<forall>(t, h) \<in> set (zip (vin tx) hs). max (h - 1) 0 \<le> nHeight (obj T p)"
  proof -
    have "h \<le> nHeight (obj T p)" if "(t, h) \<in> set (zip (vin tx) hs)" for t h
      using hs set_zip_rightD [OF that] by blast
    then show ?thesis using h0 by force
  qed
  from seqlock_loop_correct [OF wf(1,2) this, of "- 1" "- 1"] obtain H M ks where
    l: "seqlock_loop T p (zip (vin tx) hs) (- 1) (- 1) = Inr ((H, M), ks)" and
    H: "\<And>b. H < b \<longleftrightarrow> - 1 < b \<and> (\<forall>(t, h) \<in> set (zip (vin tx) hs). height_locked t \<longrightarrow> h + relative_value t - 1 < b)" and
    M: "\<And>b. M < b \<longleftrightarrow> - 1 < b \<and> (\<forall>(t, h) \<in> set (zip (vin tx) hs). time_locked t \<longrightarrow> coin_time T p h + 512 * relative_value t - 1 < b)"
    by blast
  have "SequenceLocks T tx flags hs p = Inr (H < nHeight (obj T p) \<and> M < GetMedianTimePast T q)"
    using l len on wf(3) by (auto simp: SequenceLocks_def CalculateSequenceLocks_def EvaluateSequenceLocks_def)
  also have "H < nHeight (obj T p) \<and> M < GetMedianTimePast T q \<longleftrightarrow>
      (\<forall>ih \<in> set (zip (vin tx) hs). input_satisfied T p ih)"
    unfolding H M input_satisfied_def using h0 wf(3) GetMedianTimePast_nonneg [of T q]
    by (auto simp: case_prod_beta zle_diff1_eq)
  finally show ?thesis .
qed

lemma IsFinalTx_monotone:
  "IsFinalTx tx h t \<Longrightarrow> h \<le> h' \<Longrightarrow> t \<le> t' \<Longrightarrow> IsFinalTx tx h' t'"
  by (auto simp: IsFinalTx_def split: if_splits)

section \<open>Properties\<close>

text \<open>C21: for a transaction of version 2 or more and with the rule enforced,
  \<open>SequenceLocks\<close> accepts exactly when every input satisfies its relative lock time
  (BIP 68), and no assertion fails and no null block is read.\<close>

theorem SequenceLocks_is_BIP68:
  assumes "btree_wf T" "p \<in> known T" "pprev (obj T p) = Some q"
    and "length hs = length (vin tx)" "\<forall>h \<in> set hs. h \<le> nHeight (obj T p)"
    and "tx_nVersion tx \<ge> 2" "flags AND LOCKTIME_VERIFY_SEQUENCE \<noteq> 0"
  shows "SequenceLocks T tx flags hs p = Inr (\<forall>ih \<in> set (zip (vin tx) hs). input_satisfied T p ih)"
  by (rule SequenceLocks_correct [OF assms])

definition two_blocks :: btree where
  \<comment> \<open>a genesis block at address 0 and its child at address 1\<close>
  "two_blocks =
     \<lparr>obj = (\<lambda>_. CBlockIndex_null)(1 := CBlockIndex_null\<lparr>pprev := Some 0, nHeight := 1, nTime := 600\<rparr>),
      known = {0, 1}\<rparr>"

lemma two_blocks_wf: "btree_wf two_blocks"
  by (simp add: btree_wf_def two_blocks_def linked_def skip_ok_def CBlockIndex_null_def)

theorem SequenceLocks_is_BIP68_witness:
  "SequenceLocks two_blocks
     \<lparr>tx_nVersion = 2, vin = [CTxIn_of outpoint_null [] 2], vout = [], nLockTime = 0\<rparr> 1 [0] 1 = Inr False"
proof -
  let ?tx = "\<lparr>tx_nVersion = 2, vin = [CTxIn_of outpoint_null [] 2], vout = [], nLockTime = 0\<rparr> :: CMutableTransaction"
  have "SequenceLocks two_blocks ?tx 1 [0] 1 =
      Inr (\<forall>ih \<in> set (zip (vin ?tx) [0]). input_satisfied two_blocks 1 ih)"
    by (rule SequenceLocks_is_BIP68 [OF two_blocks_wf])
      (simp_all add: two_blocks_def LOCKTIME_VERIFY_SEQUENCE_def CBlockIndex_null_def)
  also have "(\<forall>ih \<in> set (zip (vin ?tx) [0]). input_satisfied two_blocks 1 ih) = False"
    by (simp add: input_satisfied_def height_locked_def CTxIn_of_def relative_value_def two_blocks_def
        SEQUENCE_LOCKTIME_DISABLE_FLAG_def SEQUENCE_LOCKTIME_TYPE_FLAG_def SEQUENCE_LOCKTIME_MASK_def)
  finally show ?thesis by simp
qed

end
