(* ===== verification/Coins.thy ===== *)
theory Coins
  imports Transaction "HOL-Library.AList"
begin

text \<open>
  The set of unspent outputs: \<open>coins.h\<close>, \<open>coins.cpp\<close> and the database view
  of txdb.cpp.  A \<open>CCoinsMap\<close> is the association list of its entries in iteration order.
  A view is whatever meets the locale \<open>coins_view\<close>: it stands for a map from a
  transaction to its unspent coins, reads agree with the map and a batch write changes it as its
  dirty entries say.  A cache on any such view is again one, so the results hold for the stack of
  caches the node uses.  \<open>None\<close> is a failed assertion of the code.
\<close>

section \<open>The coins of a transaction\<close>

record CCoins =
  fCoinBase :: bool
  c_vout :: "CTxOut list"
  c_nHeight :: int
  c_nVersion :: u32

definition coins_empty :: CCoins where
  \<comment> \<open>the empty constructor and \<open>Clear\<close>\<close>
  "coins_empty = \<lparr>fCoinBase = False, c_vout = [], c_nHeight = 0, c_nVersion = 0\<rparr>"

function cleanup_vout :: "CTxOut list \<Rightarrow> CTxOut list" where
  "cleanup_vout v = (if length v > 0 \<and> txout_IsNull (v ! (length v - 1)) then cleanup_vout (butlast v) else v)"
  by pat_completeness auto
termination by (relation "measure length") auto

declare cleanup_vout.simps [simp del]

definition Cleanup :: "CCoins \<Rightarrow> CCoins" where
  "Cleanup c = c\<lparr>c_vout := cleanup_vout (c_vout c)\<rparr>"

definition ClearUnspendable :: "CCoins \<Rightarrow> CCoins" where
  "ClearUnspendable c =
     Cleanup (c\<lparr>c_vout := map (\<lambda>out. if IsUnspendable (scriptPubKey out) then txout_null else out) (c_vout c)\<rparr>)"

definition FromTx :: "CTransaction \<Rightarrow> int \<Rightarrow> CCoins" where
  \<comment> \<open>every field is assigned, so the old object does not matter\<close>
  "FromTx tx nHeightIn =
     ClearUnspendable \<lparr>fCoinBase = IsCoinBase tx, c_vout = vout tx, c_nHeight = nHeightIn, c_nVersion = tx_nVersion tx\<rparr>"

definition IsAvailable :: "CCoins \<Rightarrow> nat \<Rightarrow> bool" where
  "IsAvailable c nPos \<longleftrightarrow> nPos < length (c_vout c) \<and> \<not> txout_IsNull (c_vout c ! nPos)"

definition IsPruned :: "CCoins \<Rightarrow> bool" where
  "IsPruned c \<longleftrightarrow> list_all txout_IsNull (c_vout c)"

definition coins_eq :: "CCoins \<Rightarrow> CCoins \<Rightarrow> bool" where
  \<comment> \<open>\<open>operator==\<close>\<close>
  "coins_eq a b \<longleftrightarrow> (IsPruned a \<and> IsPruned b) \<or>
     (fCoinBase a = fCoinBase b \<and> c_nHeight a = c_nHeight b \<and> c_nVersion a = c_nVersion b \<and> c_vout a = c_vout b)"

definition Spend :: "CCoins \<Rightarrow> nat \<Rightarrow> bool \<times> CCoins" where
  "Spend c nPos =
     (if nPos \<ge> length (c_vout c) \<or> txout_IsNull (c_vout c ! nPos) then (False, c)
      else (True, Cleanup (c\<lparr>c_vout := (c_vout c)[nPos := txout_null]\<rparr>)))"

definition mask_byte :: "CTxOut list \<Rightarrow> nat \<Rightarrow> bool" where
  \<comment> \<open>whether byte \<open>b\<close> of the bitmask is not zero\<close>
  "mask_byte v b \<longleftrightarrow> list_ex (\<lambda>i. 2 + b * 8 + i < length v \<and> \<not> txout_IsNull (v ! (2 + b * 8 + i))) [0..<8]"

function mask_loop :: "CTxOut list \<Rightarrow> nat \<Rightarrow> nat \<Rightarrow> nat \<Rightarrow> nat \<times> nat" where
  "mask_loop v b nLastUsedByte nNonzeroBytes =
     (if 2 + b * 8 < length v
      then if mask_byte v b then mask_loop v (b + 1) (b + 1) (nNonzeroBytes + 1)
           else mask_loop v (b + 1) nLastUsedByte nNonzeroBytes
      else (nLastUsedByte, nNonzeroBytes))"
  by pat_completeness auto
termination by (relation "measure (\<lambda>(v, b, _). length v - b)") auto

declare mask_loop.simps [simp del]

definition CalcMaskSize :: "CCoins \<Rightarrow> nat \<times> nat" where
  "CalcMaskSize c = mask_loop (c_vout c) 0 0 0"

section \<open>Cache entries\<close>

record CCoinsCacheEntry =
  coins :: CCoins
  flags :: u8

definition DIRTY :: u8 where "DIRTY = push_bit 0 1"
definition FRESH :: u8 where "FRESH = push_bit 1 1"

definition is_dirty :: "CCoinsCacheEntry \<Rightarrow> bool" where
  "is_dirty e \<longleftrightarrow> flags e AND DIRTY \<noteq> 0"

definition is_fresh :: "CCoinsCacheEntry \<Rightarrow> bool" where
  "is_fresh e \<longleftrightarrow> flags e AND FRESH \<noteq> 0"

type_synonym CCoinsMap = "(uint256 \<times> CCoinsCacheEntry) list"

text \<open>The interface of a view: its content is a map from a transaction to its coins, where
  coins without an unspent output count as absent.\<close>

definition abs_coins :: "CCoins \<Rightarrow> CCoins option" where
  "abs_coins c = (if IsPruned c then None else Some c)"

definition overlay :: "CCoinsMap \<Rightarrow> (uint256 \<Rightarrow> CCoins option) \<Rightarrow> uint256 \<Rightarrow> CCoins option" where
  "overlay m D k =
     (case map_of m k of None \<Rightarrow> D k | Some e \<Rightarrow> if is_dirty e then abs_coins (coins e) else D k)"

definition batch_ok :: "(uint256 \<Rightarrow> CCoins option) \<Rightarrow> CCoinsMap \<Rightarrow> bool" where
  \<comment> \<open>what a child may write: one entry per key, fresh only where the parent has nothing\<close>
  "batch_ok D m \<longleftrightarrow> distinct (map fst m) \<and> (\<forall>(k, e) \<in> set m. is_fresh e \<longrightarrow> D k = None)"

locale coins_view =
  fixes GetC :: "'v \<Rightarrow> uint256 \<Rightarrow> CCoins option \<times> 'v"
    and Batch :: "'v \<Rightarrow> CCoinsMap \<Rightarrow> uint256 \<Rightarrow> (bool \<times> 'v) option"
    and vinv :: "'v \<Rightarrow> bool"
    and contents :: "'v \<Rightarrow> uint256 \<Rightarrow> CCoins option"
  assumes GetC_spec: "vinv v \<Longrightarrow> GetC v k = (r, v') \<Longrightarrow>
      vinv v' \<and> contents v' = contents v \<and> Option.bind r abs_coins = contents v k"
    and Batch_spec: "vinv v \<Longrightarrow> batch_ok (contents v) m \<Longrightarrow>
      \<exists>v'. Batch v m h = Some (True, v') \<and> vinv v' \<and> contents v' = overlay m (contents v)"

section \<open>The database\<close>

record CCoinsViewDB =
  db_coins :: "uint256 \<Rightarrow> CCoins option"
  db_best :: "uint256 option"

definition db_GetCoins :: "CCoinsViewDB \<Rightarrow> uint256 \<Rightarrow> CCoins option \<times> CCoinsViewDB" where
  "db_GetCoins db txid = (db_coins db txid, db)"

definition db_GetBestBlock :: "CCoinsViewDB \<Rightarrow> uint256" where
  "db_GetBestBlock db = (case db_best db of None \<Rightarrow> blob_null | Some h \<Rightarrow> h)"

definition db_write :: "(uint256 \<Rightarrow> CCoins option) \<Rightarrow> uint256 \<times> CCoinsCacheEntry \<Rightarrow> uint256 \<Rightarrow> CCoins option" where
  "db_write D ke =
     (if is_dirty (snd ke)
      then if IsPruned (coins (snd ke)) then D(fst ke := None) else D(fst ke := Some (coins (snd ke)))
      else D)"

definition db_BatchWrite :: "CCoinsViewDB \<Rightarrow> CCoinsMap \<Rightarrow> uint256 \<Rightarrow> (bool \<times> CCoinsViewDB) option" where
  \<comment> \<open>the batch is applied at once; the store accepts it\<close>
  "db_BatchWrite db mapCoins hash =
     Some (True, db\<lparr>db_coins := foldl db_write (db_coins db) mapCoins,
                    db_best := (if blob_IsNull hash then db_best db else Some hash)\<rparr>)"

definition db_contents :: "CCoinsViewDB \<Rightarrow> uint256 \<Rightarrow> CCoins option" where
  "db_contents db k = Option.bind (db_coins db k) abs_coins"

lemma foldl_db_write:
  "distinct (map fst m) \<Longrightarrow>
    foldl db_write D m k = (case map_of m k of None \<Rightarrow> D k | Some e \<Rightarrow> if is_dirty e then abs_coins (coins e) else D k)"
proof (induction m arbitrary: D)
  case (Cons ke m)
  obtain j e where ke: "ke = (j, e)" by (cases ke)
  have "map_of m j = None" using Cons.prems ke by (simp add: map_of_eq_None_iff image_image)
  then show ?case using Cons ke by (auto simp: db_write_def abs_coins_def split: option.split)
qed simp

interpretation db: coins_view db_GetCoins db_BatchWrite "\<lambda>_. True" db_contents
proof unfold_locales
  fix v m h
  assume "batch_ok (db_contents v) m"
  then have d: "distinct (map fst m)" by (simp add: batch_ok_def)
  have "db_contents (v\<lparr>db_coins := foldl db_write (db_coins v) m, db_best := b\<rparr>) = overlay m (db_contents v)" for b
    by (rule ext) (auto simp: db_contents_def overlay_def foldl_db_write [OF d] abs_coins_def split: option.splits)
  then show "\<exists>v'. db_BatchWrite v m h = Some (True, v') \<and> True \<and> db_contents v' = overlay m (db_contents v)"
    by (simp add: db_BatchWrite_def)
qed (auto simp: db_GetCoins_def db_contents_def)

section \<open>The cache\<close>

text \<open>
  \<open>usage\<close> is \<open>CCoins::DynamicMemoryUsage\<close>, which depends on the allocator.  A
  \<open>CCoinsModifier\<close> is the key of the entry it refers to and the memory usage it remembers.
\<close>

record 'v CCoinsViewCache =
  base :: 'v
  hasModifier :: bool
  hashBlock :: uint256
  cacheCoins :: CCoinsMap
  cachedCoinsUsage :: int

record CCoinsModifier =
  m_key :: uint256
  m_usage :: int

type_synonym 'v get_coins = "'v \<Rightarrow> uint256 \<Rightarrow> CCoins option \<times> 'v"

definition cache_on :: "'v \<Rightarrow> 'v CCoinsViewCache" where
  \<comment> \<open>the constructor\<close>
  "cache_on v = \<lparr>base = v, hasModifier = False, hashBlock = blob_null, cacheCoins = [], cachedCoinsUsage = 0\<rparr>"

definition FetchCoins ::
  "'v get_coins \<Rightarrow> (CCoins \<Rightarrow> int) \<Rightarrow> 'v CCoinsViewCache \<Rightarrow> uint256 \<Rightarrow> CCoinsCacheEntry option \<times> 'v CCoinsViewCache" where
  "FetchCoins GetC usage c txid =
     (case map_of (cacheCoins c) txid of
        Some e \<Rightarrow> (Some e, c)
      | None \<Rightarrow> (case GetC (base c) txid of
            (None, b) \<Rightarrow> (None, c\<lparr>base := b\<rparr>)
          | (Some tmp, b) \<Rightarrow>
              let e = \<lparr>coins = tmp, flags = (if IsPruned tmp then FRESH else 0)\<rparr>
              in (Some e, c\<lparr>base := b, cacheCoins := AList.update txid e (cacheCoins c),
                            cachedCoinsUsage := cachedCoinsUsage c + usage tmp\<rparr>)))"

definition cache_GetCoins :: "'v get_coins \<Rightarrow> (CCoins \<Rightarrow> int) \<Rightarrow> 'v CCoinsViewCache get_coins" where
  "cache_GetCoins GetC usage c txid =
     (case FetchCoins GetC usage c txid of (r, c') \<Rightarrow> (map_option coins r, c'))"

definition HaveCoins :: "'v get_coins \<Rightarrow> (CCoins \<Rightarrow> int) \<Rightarrow> 'v CCoinsViewCache \<Rightarrow> uint256 \<Rightarrow> bool \<times> 'v CCoinsViewCache" where
  "HaveCoins GetC usage c txid =
     (case FetchCoins GetC usage c txid of
        (None, c') \<Rightarrow> (False, c') | (Some e, c') \<Rightarrow> (c_vout (coins e) \<noteq> [], c'))"

definition HaveCoinsInCache :: "'v CCoinsViewCache \<Rightarrow> uint256 \<Rightarrow> bool" where
  "HaveCoinsInCache c txid \<longleftrightarrow> map_of (cacheCoins c) txid \<noteq> None"

definition ModifyCoins ::
  "'v get_coins \<Rightarrow> (CCoins \<Rightarrow> int) \<Rightarrow> 'v CCoinsViewCache \<Rightarrow> uint256 \<Rightarrow> (CCoinsModifier \<times> 'v CCoinsViewCache) option" where
  "ModifyCoins GetC usage c txid =
     (if hasModifier c then None
      else case map_of (cacheCoins c) txid of
        None \<Rightarrow>
          (case GetC (base c) txid of (r, b) \<Rightarrow>
             let e = (case r of
                        None \<Rightarrow> \<lparr>coins = coins_empty, flags = FRESH\<rparr>
                      | Some t \<Rightarrow> \<lparr>coins = t, flags = (if IsPruned t then FRESH else 0)\<rparr>)
             in Some (\<lparr>m_key = txid, m_usage = 0\<rparr>,
                  c\<lparr>base := b, hasModifier := True,
                    cacheCoins := AList.update txid (e\<lparr>flags := flags e OR DIRTY\<rparr>) (cacheCoins c)\<rparr>))
      | Some e \<Rightarrow>
          Some (\<lparr>m_key = txid, m_usage = usage (coins e)\<rparr>,
                c\<lparr>hasModifier := True,
                  cacheCoins := AList.update txid (e\<lparr>flags := flags e OR DIRTY\<rparr>) (cacheCoins c)\<rparr>))"

definition ModifyNewCoins :: "'v CCoinsViewCache \<Rightarrow> uint256 \<Rightarrow> (CCoinsModifier \<times> 'v CCoinsViewCache) option" where
  "ModifyNewCoins c txid =
     (if hasModifier c then None
      else Some (\<lparr>m_key = txid, m_usage = 0\<rparr>,
             c\<lparr>hasModifier := True,
               cacheCoins := AList.update txid \<lparr>coins = coins_empty, flags = FRESH OR DIRTY\<rparr> (cacheCoins c)\<rparr>))"

definition modifier_store :: "CCoins \<Rightarrow> CCoinsModifier \<Rightarrow> 'v CCoinsViewCache \<Rightarrow> 'v CCoinsViewCache" where
  \<comment> \<open>the entry after the caller has changed it through \<open>operator->\<close>\<close>
  "modifier_store t m c =
     (case map_of (cacheCoins c) (m_key m) of
        None \<Rightarrow> c
      | Some e \<Rightarrow> c\<lparr>cacheCoins := AList.update (m_key m) (e\<lparr>coins := t\<rparr>) (cacheCoins c)\<rparr>)"

definition modifier_destroy ::
  "(CCoins \<Rightarrow> int) \<Rightarrow> CCoinsModifier \<Rightarrow> 'v CCoinsViewCache \<Rightarrow> 'v CCoinsViewCache option" where
  \<comment> \<open>the destructor of \<open>CCoinsModifier\<close>\<close>
  "modifier_destroy usage m c =
     (if \<not> hasModifier c then None
      else case map_of (cacheCoins c) (m_key m) of
        None \<Rightarrow> None
      | Some e \<Rightarrow>
          let e = e\<lparr>coins := Cleanup (coins e)\<rparr>;
              c = c\<lparr>hasModifier := False, cachedCoinsUsage := cachedCoinsUsage c - m_usage m\<rparr>
          in if is_fresh e \<and> IsPruned (coins e)
             then Some (c\<lparr>cacheCoins := AList.delete (m_key m) (cacheCoins c)\<rparr>)
             else Some (c\<lparr>cacheCoins := AList.update (m_key m) e (cacheCoins c),
                          cachedCoinsUsage := cachedCoinsUsage c + usage (coins e)\<rparr>))"

definition with_coins ::
  "'v get_coins \<Rightarrow> (CCoins \<Rightarrow> int) \<Rightarrow> uint256 \<Rightarrow> (CCoins \<Rightarrow> ('r \<times> CCoins) option) \<Rightarrow> 'v CCoinsViewCache \<Rightarrow>
   ('r \<times> 'v CCoinsViewCache) option" where
  \<comment> \<open>a modifier's life: \<open>CCoinsModifier coins = ModifyCoins(txid); \<dots>\<close> and its destruction;
    \<open>f\<close> is what happens in between, with a result, and may fail an assertion\<close>
  "with_coins GetC usage txid f c =
     Option.bind (ModifyCoins GetC usage c txid) (\<lambda>(m, c1).
       Option.bind (map_of (cacheCoins c1) (m_key m)) (\<lambda>e.
         Option.bind (f (coins e)) (\<lambda>(r, t).
           map_option (Pair r) (modifier_destroy usage m (modifier_store t m c1)))))"

definition with_new_coins ::
  "(CCoins \<Rightarrow> int) \<Rightarrow> uint256 \<Rightarrow> (CCoins \<Rightarrow> CCoins) \<Rightarrow> 'v CCoinsViewCache \<Rightarrow> 'v CCoinsViewCache option" where
  "with_new_coins usage txid f c =
     Option.bind (ModifyNewCoins c txid) (\<lambda>(m, c1).
       Option.bind (map_of (cacheCoins c1) (m_key m)) (\<lambda>e.
         modifier_destroy usage m (modifier_store (f (coins e)) m c1)))"

definition cache_GetBestBlock :: "('v \<Rightarrow> uint256) \<Rightarrow> 'v CCoinsViewCache \<Rightarrow> uint256 \<times> 'v CCoinsViewCache" where
  "cache_GetBestBlock best c =
     (let c = (if blob_IsNull (hashBlock c) then c\<lparr>hashBlock := best (base c)\<rparr> else c) in (hashBlock c, c))"

definition SetBestBlock :: "uint256 \<Rightarrow> 'v CCoinsViewCache \<Rightarrow> 'v CCoinsViewCache" where
  "SetBestBlock h c = c\<lparr>hashBlock := h\<rparr>"

definition batch_entry ::
  "(CCoins \<Rightarrow> int) \<Rightarrow> 'v CCoinsViewCache \<Rightarrow> uint256 \<times> CCoinsCacheEntry \<Rightarrow> 'v CCoinsViewCache" where
  "batch_entry usage c ke =
     (case ke of (k, e) \<Rightarrow>
        if is_dirty e
        then (case map_of (cacheCoins c) k of
                None \<Rightarrow>
                  if \<not> (is_fresh e \<and> IsPruned (coins e))
                  then c\<lparr>cacheCoins := AList.update k
                           \<lparr>coins = coins e, flags = (if is_fresh e then DIRTY OR FRESH else DIRTY)\<rparr> (cacheCoins c),
                         cachedCoinsUsage := cachedCoinsUsage c + usage (coins e)\<rparr>
                  else c
              | Some us \<Rightarrow>
                  if is_fresh us \<and> IsPruned (coins e)
                  then c\<lparr>cacheCoins := AList.delete k (cacheCoins c),
                         cachedCoinsUsage := cachedCoinsUsage c - usage (coins us)\<rparr>
                  else c\<lparr>cacheCoins := AList.update k \<lparr>coins = coins e, flags = flags us OR DIRTY\<rparr> (cacheCoins c),
                         cachedCoinsUsage := cachedCoinsUsage c - usage (coins us) + usage (coins e)\<rparr>)
        else c)"

definition cache_BatchWrite ::
  "(CCoins \<Rightarrow> int) \<Rightarrow> 'v CCoinsViewCache \<Rightarrow> CCoinsMap \<Rightarrow> uint256 \<Rightarrow> (bool \<times> 'v CCoinsViewCache) option" where
  "cache_BatchWrite usage c mapCoins hashBlockIn =
     (if hasModifier c then None
      else Some (True, (foldl (batch_entry usage) c mapCoins)\<lparr>hashBlock := hashBlockIn\<rparr>))"

definition Flush ::
  "('v \<Rightarrow> CCoinsMap \<Rightarrow> uint256 \<Rightarrow> (bool \<times> 'v) option) \<Rightarrow> 'v CCoinsViewCache \<Rightarrow> (bool \<times> 'v CCoinsViewCache) option" where
  "Flush Batch c =
     map_option (\<lambda>(fOk, b). (fOk, c\<lparr>base := b, cacheCoins := [], cachedCoinsUsage := 0\<rparr>))
       (Batch (base c) (cacheCoins c) (hashBlock c))"

definition Uncache :: "(CCoins \<Rightarrow> int) \<Rightarrow> uint256 \<Rightarrow> 'v CCoinsViewCache \<Rightarrow> 'v CCoinsViewCache" where
  "Uncache usage h c =
     (case map_of (cacheCoins c) h of
        None \<Rightarrow> c
      | Some e \<Rightarrow>
          if flags e = 0
          then c\<lparr>cacheCoins := AList.delete h (cacheCoins c),
                 cachedCoinsUsage := cachedCoinsUsage c - usage (coins e)\<rparr>
          else c)"

section \<open>A cache refines the map of its view\<close>

definition cache_contents ::
  "('v \<Rightarrow> uint256 \<Rightarrow> CCoins option) \<Rightarrow> 'v CCoinsViewCache \<Rightarrow> uint256 \<Rightarrow> CCoins option" where
  "cache_contents contents c k =
     (case map_of (cacheCoins c) k of None \<Rightarrow> contents (base c) k | Some e \<Rightarrow> abs_coins (coins e))"

definition entry_ok :: "CCoins option \<Rightarrow> CCoinsCacheEntry \<Rightarrow> bool" where
  \<comment> \<open>against what the view below has for the key\<close>
  "entry_ok below e \<longleftrightarrow> (is_fresh e \<longrightarrow> below = None) \<and> (\<not> is_dirty e \<longrightarrow> abs_coins (coins e) = below)"

definition cache_ok ::
  "('v \<Rightarrow> bool) \<Rightarrow> ('v \<Rightarrow> uint256 \<Rightarrow> CCoins option) \<Rightarrow> 'v CCoinsViewCache \<Rightarrow> bool" where
  "cache_ok vinv contents c \<longleftrightarrow>
     vinv (base c) \<and> \<not> hasModifier c \<and> distinct (map fst (cacheCoins c)) \<and>
     (\<forall>k e. map_of (cacheCoins c) k = Some e \<longrightarrow> entry_ok (contents (base c) k) e)"

lemma flag_bits [simp]:
  "(f OR DIRTY) AND DIRTY \<noteq> 0" "(f OR DIRTY) AND FRESH = f AND FRESH"
  "FRESH AND FRESH \<noteq> 0" "FRESH AND DIRTY = 0" "DIRTY AND FRESH = 0" "DIRTY AND DIRTY \<noteq> 0"
  "(FRESH OR DIRTY) AND FRESH \<noteq> 0" "(DIRTY OR FRESH) AND FRESH \<noteq> 0" "(DIRTY OR FRESH) AND DIRTY \<noteq> 0"
proof -
  have o: "bit (DIRTY :: u8) n \<longleftrightarrow> n = 0" "bit (FRESH :: u8) n \<longleftrightarrow> n = 1" for n
    by (auto simp: DIRTY_def FRESH_def bit_simps)
  show "(f OR DIRTY) AND FRESH = f AND FRESH" by (rule bit_eqI) (auto simp: bit_simps o)
  have "bit ((f OR DIRTY) AND DIRTY) 0" by (simp add: bit_simps o)
  then show "(f OR DIRTY) AND DIRTY \<noteq> 0" by auto
qed (simp_all add: DIRTY_def FRESH_def)

lemma flags_nonzero [simp]: "DIRTY \<noteq> 0" "FRESH \<noteq> 0"
  by (simp_all add: DIRTY_def FRESH_def)

lemma map_of_delete_if: "map_of (AList.delete k m) k' = (if k' = k then None else map_of m k')"
  by (simp add: AList.delete_conv')

lemma map_of_update_if: "map_of (AList.update k e m) k' = (if k' = k then Some e else map_of m k')"
  by (simp add: AList.update_conv')

lemmas cache_simps = map_of_delete_if map_of_update_if AList.distinct_update
  AList.distinct_delete

declare map_of_eq_Some_iff [simp del] Some_eq_map_of_iff [simp del]

lemma abs_coins_Cleanup_None: "abs_coins c = None \<longleftrightarrow> IsPruned c"
  by (simp add: abs_coins_def)

lemma abs_coins_empty [simp]: "abs_coins coins_empty = None"
  by (simp add: abs_coins_def IsPruned_def coins_empty_def)

context coins_view
begin

lemma FetchCoins_spec:
  assumes ok: "cache_ok vinv contents c" and f: "FetchCoins GetC usage c k = (r, c')"
  shows "cache_ok vinv contents c' \<and> cache_contents contents c' = cache_contents contents c \<and>
    Option.bind r (\<lambda>e. abs_coins (coins e)) = cache_contents contents c k \<and> map_of (cacheCoins c') k = r \<and>
    contents (base c') = contents (base c) \<and> hashBlock c' = hashBlock c"
proof (cases "map_of (cacheCoins c) k")
  case (Some e)
  then show ?thesis using ok f by (auto simp: FetchCoins_def cache_contents_def split: option.split)
next
  case None
  obtain t b where g: "GetC (base c) k = (t, b)" by (cases "GetC (base c) k")
  have s: "vinv b" "contents b = contents (base c)" "Option.bind t abs_coins = contents (base c) k"
    using GetC_spec [of "base c" k t b] g ok by (auto simp: cache_ok_def)
  show ?thesis
  proof (cases t)
    case N: None
    then have "r = None" "c' = c\<lparr>base := b\<rparr>" using f None g by (auto simp: FetchCoins_def)
    then show ?thesis using ok None s N by (auto simp: cache_ok_def cache_contents_def fun_eq_iff split: option.split)
  next
    case T: (Some tmp)
    let ?e = "\<lparr>coins = tmp, flags = (if IsPruned tmp then FRESH else 0)\<rparr>"
    have r: "r = Some ?e" and c': "c' = c\<lparr>base := b, cacheCoins := AList.update k ?e (cacheCoins c),
        cachedCoinsUsage := cachedCoinsUsage c + usage tmp\<rparr>"
      using f None g T by (auto simp: FetchCoins_def Let_def)
    have e: "entry_ok (contents b k) ?e"
      using s T by (auto simp: entry_ok_def is_fresh_def is_dirty_def abs_coins_def)
    have d: "distinct (map fst (cacheCoins c))" using ok by (simp add: cache_ok_def)
    have "cache_ok vinv contents c'"
      using ok e s c' None by (auto simp: cache_ok_def cache_simps)
    moreover have "cache_contents contents c' = cache_contents contents c"
      using s T None c' by (auto simp: cache_contents_def cache_simps fun_eq_iff split: option.split)
    ultimately show ?thesis using r c' s T None by (simp add: cache_contents_def cache_simps)
  qed
qed

lemma cache_GetCoins_spec:
  assumes "cache_ok vinv contents c" "cache_GetCoins GetC usage c k = (r, c')"
  shows "cache_ok vinv contents c' \<and> cache_contents contents c' = cache_contents contents c \<and>
    Option.bind r abs_coins = cache_contents contents c k"
proof -
  obtain r0 where "FetchCoins GetC usage c k = (r0, c')" "r = map_option coins r0"
    using assms(2) by (auto simp: cache_GetCoins_def split: prod.splits)
  then show ?thesis using FetchCoins_spec [OF assms(1)] by (auto simp: bind_map_option o_def)
qed

lemma modifier_spec:
  \<comment> \<open>the effect of a modifier once its entry is in place\<close>
  assumes v: "vinv (base c)" and h: "hasModifier c" and d: "distinct (map fst (cacheCoins c))"
    and oth: "\<forall>j e. j \<noteq> k \<longrightarrow> map_of (cacheCoins c) j = Some e \<longrightarrow> entry_ok (contents (base c) j) e"
    and e: "map_of (cacheCoins c) k = Some e" "is_dirty e" "is_fresh e \<longrightarrow> contents (base c) k = None"
    and m: "m_key m = k"
  shows "\<exists>c'. modifier_destroy usage m (modifier_store t m c) = Some c' \<and> cache_ok vinv contents c' \<and>
    cache_contents contents c' = (cache_contents contents c)(k := abs_coins (Cleanup t)) \<and>
    contents (base c') = contents (base c) \<and> hashBlock c' = hashBlock c"
proof -
  let ?t = "Cleanup t"
  let ?c1 = "c\<lparr>cacheCoins := AList.update k (e\<lparr>coins := t\<rparr>) (cacheCoins c)\<rparr>"
  have a: "modifier_store t m c = ?c1" using e m by (simp add: modifier_store_def)
  have fr: "is_fresh (e\<lparr>coins := x\<rparr>) = is_fresh e" "is_dirty (e\<lparr>coins := x\<rparr>) = is_dirty e" for x
    by (simp_all add: is_fresh_def is_dirty_def)
  show ?thesis
  proof (cases "is_fresh e \<and> IsPruned ?t")
    case True
    let ?c' = "c\<lparr>hasModifier := False, cachedCoinsUsage := cachedCoinsUsage c - m_usage m,
        cacheCoins := AList.delete k (AList.update k (e\<lparr>coins := t\<rparr>) (cacheCoins c))\<rparr>"
    have "modifier_destroy usage m ?c1 = Some ?c'"
      using True h m fr by (simp add: modifier_destroy_def cache_simps Let_def)
    moreover have "cache_ok vinv contents ?c'"
      using v d oth e by (auto simp: cache_ok_def cache_simps split: if_splits)
    moreover have "cache_contents contents ?c' = (cache_contents contents c)(k := abs_coins ?t)"
      using True e by (auto simp: cache_contents_def cache_simps fun_eq_iff abs_coins_def split: option.split)
    ultimately show ?thesis unfolding a by auto
  next
    case False
    let ?c' = "c\<lparr>hasModifier := False, cachedCoinsUsage := cachedCoinsUsage c - m_usage m + usage ?t,
        cacheCoins := AList.update k (e\<lparr>coins := ?t\<rparr>) (AList.update k (e\<lparr>coins := t\<rparr>) (cacheCoins c))\<rparr>"
    have "modifier_destroy usage m ?c1 = Some ?c'"
      using False h m fr by (auto simp: modifier_destroy_def cache_simps Let_def)
    moreover have "cache_ok vinv contents ?c'"
      using v d oth e fr by (auto simp: cache_ok_def cache_simps entry_ok_def split: if_splits)
    moreover have "cache_contents contents ?c' = (cache_contents contents c)(k := abs_coins ?t)"
      by (auto simp: cache_contents_def cache_simps fun_eq_iff split: option.split)
    ultimately show ?thesis unfolding a by auto
  qed
qed

lemma ModifyCoins_spec:
  assumes ok: "cache_ok vinv contents c"
  shows "\<exists>m c1 e. ModifyCoins GetC usage c k = Some (m, c1) \<and> m_key m = k \<and> hasModifier c1 \<and>
    vinv (base c1) \<and> contents (base c1) = contents (base c) \<and> hashBlock c1 = hashBlock c \<and>
    distinct (map fst (cacheCoins c1)) \<and>
    (\<forall>j e. j \<noteq> k \<longrightarrow> map_of (cacheCoins c1) j = Some e \<longrightarrow> entry_ok (contents (base c1) j) e) \<and>
    map_of (cacheCoins c1) k = Some e \<and> is_dirty e \<and> (is_fresh e \<longrightarrow> contents (base c1) k = None) \<and>
    abs_coins (coins e) = cache_contents contents c k \<and>
    cache_contents contents c1 = cache_contents contents c"
proof (cases "map_of (cacheCoins c) k")
  case (Some e)
  let ?e = "e\<lparr>flags := flags e OR DIRTY\<rparr>"
  let ?c = "c\<lparr>hasModifier := True, cacheCoins := AList.update k ?e (cacheCoins c)\<rparr>"
  have "ModifyCoins GetC usage c k = Some (\<lparr>m_key = k, m_usage = usage (coins e)\<rparr>, ?c)"
    using ok Some by (simp add: ModifyCoins_def cache_ok_def)
  moreover have "cache_contents contents ?c = cache_contents contents c" "abs_coins (coins e) = cache_contents contents c k"
    using Some by (auto simp: cache_contents_def cache_simps fun_eq_iff split: option.split)
  moreover have "entry_ok (contents (base c) k) e" using ok Some by (simp add: cache_ok_def)
  ultimately show ?thesis using ok
    by (auto simp: cache_ok_def cache_simps entry_ok_def is_dirty_def is_fresh_def)
next
  case None
  obtain r b where g: "GetC (base c) k = (r, b)" by (cases "GetC (base c) k")
  have s: "vinv b" "contents b = contents (base c)" "Option.bind r abs_coins = contents (base c) k"
    using GetC_spec [of "base c" k r b] g ok by (auto simp: cache_ok_def)
  define e where "e = (case r of None \<Rightarrow> \<lparr>coins = coins_empty, flags = FRESH\<rparr>
    | Some t \<Rightarrow> \<lparr>coins = t, flags = (if IsPruned t then FRESH else 0)\<rparr>)"
  have a: "abs_coins (coins e) = contents (base c) k" "is_fresh e \<longrightarrow> contents (base c) k = None"
    using s(3) by (auto simp: e_def abs_coins_def is_fresh_def IsPruned_def coins_empty_def split: option.splits)
  let ?e = "e\<lparr>flags := flags e OR DIRTY\<rparr>"
  let ?c = "c\<lparr>base := b, hasModifier := True, cacheCoins := AList.update k ?e (cacheCoins c)\<rparr>"
  have "ModifyCoins GetC usage c k = Some (\<lparr>m_key = k, m_usage = 0\<rparr>, ?c)"
    using ok None g by (simp add: ModifyCoins_def cache_ok_def e_def Let_def)
  moreover have "cache_contents contents ?c = cache_contents contents c" "abs_coins (coins e) = cache_contents contents c k"
    using None s a by (auto simp: cache_contents_def cache_simps fun_eq_iff split: option.split)
  ultimately show ?thesis using ok s a
    by (auto simp: cache_ok_def cache_simps entry_ok_def is_dirty_def is_fresh_def)
qed

text \<open>What a modifier does to the map the cache stands for: \<open>t\<close> are the coins it finds.\<close>

lemma with_coins_spec:
  assumes ok: "cache_ok vinv contents c"
  shows "\<exists>t. abs_coins t = cache_contents contents c k \<and>
    (case f t of
       None \<Rightarrow> with_coins GetC usage k f c = None
     | Some (r, x) \<Rightarrow> \<exists>c'. with_coins GetC usage k f c = Some (r, c') \<and> cache_ok vinv contents c' \<and>
         cache_contents contents c' = (cache_contents contents c)(k := abs_coins (Cleanup x)) \<and>
         contents (base c') = contents (base c) \<and> hashBlock c' = hashBlock c)"
proof -
  obtain m c1 e where M: "ModifyCoins GetC usage c k = Some (m, c1)" "m_key m = k" "hasModifier c1"
    "vinv (base c1)" "contents (base c1) = contents (base c)" "hashBlock c1 = hashBlock c"
    "distinct (map fst (cacheCoins c1))"
    "\<forall>j e. j \<noteq> k \<longrightarrow> map_of (cacheCoins c1) j = Some e \<longrightarrow> entry_ok (contents (base c1) j) e"
    "map_of (cacheCoins c1) k = Some e" "is_dirty e" "is_fresh e \<longrightarrow> contents (base c1) k = None"
    "abs_coins (coins e) = cache_contents contents c k" "cache_contents contents c1 = cache_contents contents c"
    using ModifyCoins_spec [OF ok, of usage k] by blast
  show ?thesis
  proof (cases "f (coins e)")
    case None
    then show ?thesis using M by (intro exI [of _ "coins e"]) (simp add: with_coins_def)
  next
    case (Some rx)
    obtain r x where rx: "rx = (r, x)" by (cases rx)
    from modifier_spec [OF M(4,3,7,8,9,10,11,2), of usage x] obtain c' where
      "modifier_destroy usage m (modifier_store x m c1) = Some c'" "cache_ok vinv contents c'"
      "cache_contents contents c' = (cache_contents contents c1)(k := abs_coins (Cleanup x))"
      "contents (base c') = contents (base c1)" "hashBlock c' = hashBlock c1"
      by blast
    then show ?thesis using M Some rx by (intro exI [of _ "coins e"]) (simp add: with_coins_def)
  qed
qed

lemma with_new_coins_spec:
  assumes ok: "cache_ok vinv contents c" and new: "contents (base c) k = None"
  shows "\<exists>c'. with_new_coins usage k f c = Some c' \<and> cache_ok vinv contents c' \<and>
    cache_contents contents c' = (cache_contents contents c)(k := abs_coins (Cleanup (f coins_empty))) \<and>
    contents (base c') = contents (base c) \<and> hashBlock c' = hashBlock c"
proof -
  let ?e = "\<lparr>coins = coins_empty, flags = FRESH OR DIRTY\<rparr>"
  let ?m = "\<lparr>m_key = k, m_usage = 0\<rparr>"
  let ?c = "c\<lparr>hasModifier := True, cacheCoins := AList.update k ?e (cacheCoins c)\<rparr>"
  have "ModifyNewCoins c k = Some (?m, ?c)"
    using ok by (simp add: ModifyNewCoins_def cache_ok_def)
  moreover have "\<exists>c'. modifier_destroy usage ?m (modifier_store (f coins_empty) ?m ?c) = Some c' \<and> cache_ok vinv contents c' \<and>
      cache_contents contents c' = (cache_contents contents ?c)(k := abs_coins (Cleanup (f coins_empty))) \<and>
      contents (base c') = contents (base ?c) \<and> hashBlock c' = hashBlock ?c"
    using ok new by (intro modifier_spec)
      (auto simp: cache_ok_def cache_simps is_dirty_def is_fresh_def split: option.splits)
  moreover have "(cache_contents contents ?c)(k := x) = (cache_contents contents c)(k := x)" for x
    by (auto simp: cache_contents_def cache_simps fun_eq_iff split: option.split)
  ultimately show ?thesis by (auto simp: with_new_coins_def cache_simps)
qed

lemma batch_entry_spec:
  assumes ok: "cache_ok vinv contents c" and fr: "is_fresh e \<longrightarrow> cache_contents contents c k = None"
  shows "cache_ok vinv contents (batch_entry usage c (k, e)) \<and>
    cache_contents contents (batch_entry usage c (k, e)) =
      (if is_dirty e then (cache_contents contents c)(k := abs_coins (coins e)) else cache_contents contents c)"
proof (cases "is_dirty e")
  case False
  then show ?thesis using ok by (simp add: batch_entry_def)
next
  case True
  show ?thesis
  proof (cases "map_of (cacheCoins c) k")
    case None
    then show ?thesis using ok fr True
      by (auto simp: batch_entry_def cache_ok_def cache_contents_def cache_simps entry_ok_def fun_eq_iff
          abs_coins_def is_fresh_def is_dirty_def split: option.split)
  next
    case (Some us)
    then have us: "entry_ok (contents (base c) k) us" using ok by (simp add: cache_ok_def)
    then show ?thesis using ok fr True Some
      by (auto simp: batch_entry_def cache_ok_def cache_contents_def cache_simps entry_ok_def fun_eq_iff
          abs_coins_def is_fresh_def is_dirty_def split: option.split)
  qed
qed

lemma batch_loop_spec:
  "cache_ok vinv contents c \<Longrightarrow> batch_ok (cache_contents contents c) m \<Longrightarrow>
    cache_ok vinv contents (foldl (batch_entry usage) c m) \<and>
    cache_contents contents (foldl (batch_entry usage) c m) = overlay m (cache_contents contents c)"
proof (induction m arbitrary: c)
  case Nil
  then show ?case by (auto simp: overlay_def fun_eq_iff split: option.split)
next
  case (Cons ke m)
  obtain k e where ke: "ke = (k, e)" by (cases ke)
  let ?c = "batch_entry usage c (k, e)"
  have s: "cache_ok vinv contents ?c"
    "cache_contents contents ?c = (if is_dirty e then (cache_contents contents c)(k := abs_coins (coins e)) else cache_contents contents c)"
    using batch_entry_spec [OF Cons.prems(1), of e k] Cons.prems(2) ke by (auto simp: batch_ok_def)
  have k: "k \<notin> fst ` set m" "map_of m k = None" using Cons.prems(2) ke by (auto simp: batch_ok_def map_of_eq_None_iff)
  have "batch_ok (cache_contents contents ?c) m"
    using Cons.prems(2) ke k(1) unfolding s(2) by (force simp: batch_ok_def)
  then show ?case using Cons.IH [OF s(1)] ke k(2) unfolding s(2)
    by (auto simp: overlay_def fun_eq_iff split: option.splits)
qed

text \<open>A cache on a view is a view.\<close>

lemma cache_is_view:
  "coins_view (cache_GetCoins GetC usage) (cache_BatchWrite usage) (cache_ok vinv contents) (cache_contents contents)"
proof unfold_locales
  fix c k r c'
  assume "cache_ok vinv contents c" "cache_GetCoins GetC usage c k = (r, c')"
  then show "cache_ok vinv contents c' \<and> cache_contents contents c' = cache_contents contents c \<and>
      Option.bind r abs_coins = cache_contents contents c k"
    by (rule cache_GetCoins_spec)
next
  fix c m h
  assume "cache_ok vinv contents c" "batch_ok (cache_contents contents c) m"
  moreover have "cache_ok vinv contents (x\<lparr>hashBlock := h\<rparr>) = cache_ok vinv contents x"
    "cache_contents contents (x\<lparr>hashBlock := h\<rparr>) = cache_contents contents x" for x
    by (auto simp: cache_ok_def cache_contents_def fun_eq_iff split: option.split)
  moreover note batch_loop_spec [OF calculation(1,2)]
  ultimately
  show "\<exists>v'. cache_BatchWrite usage c m h = Some (True, v') \<and> cache_ok vinv contents v' \<and>
      cache_contents contents v' = overlay m (cache_contents contents c)"
    by (simp add: cache_BatchWrite_def) (simp add: cache_ok_def)
qed

lemma Flush_spec:
  assumes ok: "cache_ok vinv contents c"
  shows "\<exists>c'. Flush Batch c = Some (True, c') \<and> cache_ok vinv contents c' \<and>
    cache_contents contents c' = cache_contents contents c \<and> contents (base c') = cache_contents contents c \<and>
    cacheCoins c' = []"
proof -
  have b: "batch_ok (contents (base c)) (cacheCoins c)"
    using ok by (auto simp: batch_ok_def cache_ok_def entry_ok_def)
  then obtain v where v: "Batch (base c) (cacheCoins c) (hashBlock c) = Some (True, v)" "vinv v"
    "contents v = overlay (cacheCoins c) (contents (base c))"
    using Batch_spec [of "base c" "cacheCoins c" "hashBlock c"] ok by (auto simp: cache_ok_def)
  have "overlay (cacheCoins c) (contents (base c)) = cache_contents contents c"
    using ok by (auto simp: overlay_def cache_contents_def cache_ok_def entry_ok_def fun_eq_iff split: option.splits)
  then show ?thesis using v ok by (auto simp: Flush_def cache_ok_def cache_contents_def fun_eq_iff split: option.split)
qed

lemma Uncache_spec:
  assumes ok: "cache_ok vinv contents c"
  shows "cache_ok vinv contents (Uncache usage k c) \<and>
    cache_contents contents (Uncache usage k c) = cache_contents contents c"
proof (cases "map_of (cacheCoins c) k")
  case (Some e)
  then have "entry_ok (contents (base c) k) e" using ok by (simp add: cache_ok_def)
  then show ?thesis using ok Some
    by (auto simp: Uncache_def cache_ok_def cache_contents_def cache_simps fun_eq_iff entry_ok_def is_dirty_def split: option.split)
qed (use ok in \<open>simp add: Uncache_def\<close>)

end

end
