(* ===== verification/Utxo.thy ===== *)
theory Utxo
  imports Coins
begin

text \<open>
  What blocks do to the unspent outputs: the input checks and the value functions of
  \<open>CCoinsViewCache\<close> (coins.cpp), \<open>UpdateCoins\<close>,
  \<open>ApplyTxInUndo\<close> and the coin part of \<open>DisconnectBlock\<close> (main.cpp) with the
  undo records of undo.h.  Everything is stated for a cache on any view; the main result is that
  disconnecting the transactions of a block restores the map of unspent coins that connecting them
  started from.
\<close>

section \<open>Reading inputs\<close>

definition GetOutputFor ::
  "'v get_coins \<Rightarrow> (CCoins \<Rightarrow> int) \<Rightarrow> 'v CCoinsViewCache \<Rightarrow> CTxIn \<Rightarrow> (CTxOut \<times> 'v CCoinsViewCache) option" where
  "GetOutputFor GetC usage c input =
     (case FetchCoins GetC usage c (op_hash (prevout input)) of
        (None, c') \<Rightarrow> None
      | (Some e, c') \<Rightarrow>
          if IsAvailable (coins e) (unat (op_n (prevout input)))
          then Some (c_vout (coins e) ! unat (op_n (prevout input)), c') else None)"

fun value_in_loop ::
  "'v get_coins \<Rightarrow> (CCoins \<Rightarrow> int) \<Rightarrow> 'v CCoinsViewCache \<Rightarrow> CTxIn list \<Rightarrow> CAmount \<Rightarrow> (CAmount \<times> 'v CCoinsViewCache) option" where
  "value_in_loop GetC usage c [] nResult = Some (nResult, c)"
| "value_in_loop GetC usage c (txin # rest) nResult =
     Option.bind (GetOutputFor GetC usage c txin) (\<lambda>(out, c').
       value_in_loop GetC usage c' rest (nResult + nValue out))"

definition GetValueIn ::
  "'v get_coins \<Rightarrow> (CCoins \<Rightarrow> int) \<Rightarrow> 'v CCoinsViewCache \<Rightarrow> CTransaction \<Rightarrow> (CAmount \<times> 'v CCoinsViewCache) option" where
  "GetValueIn GetC usage c tx = (if IsCoinBase tx then Some (0, c) else value_in_loop GetC usage c (vin tx) 0)"

fun have_inputs_loop ::
  "'v get_coins \<Rightarrow> (CCoins \<Rightarrow> int) \<Rightarrow> 'v CCoinsViewCache \<Rightarrow> CTxIn list \<Rightarrow> bool \<times> 'v CCoinsViewCache" where
  "have_inputs_loop GetC usage c [] = (True, c)"
| "have_inputs_loop GetC usage c (txin # rest) =
     (case FetchCoins GetC usage c (op_hash (prevout txin)) of
        (None, c') \<Rightarrow> (False, c')
      | (Some e, c') \<Rightarrow>
          if \<not> IsAvailable (coins e) (unat (op_n (prevout txin))) then (False, c')
          else have_inputs_loop GetC usage c' rest)"

definition HaveInputs ::
  "'v get_coins \<Rightarrow> (CCoins \<Rightarrow> int) \<Rightarrow> 'v CCoinsViewCache \<Rightarrow> CTransaction \<Rightarrow> bool \<times> 'v CCoinsViewCache" where
  "HaveInputs GetC usage c tx = (if IsCoinBase tx then (True, c) else have_inputs_loop GetC usage c (vin tx))"

section \<open>Spending and undoing\<close>

record CTxInUndo =
  u_txout :: CTxOut
  u_fCoinBase :: bool
  u_nHeight :: u32
  u_nVersion :: u32

definition spend_input :: "nat \<Rightarrow> CCoins \<Rightarrow> (CTxInUndo \<times> CCoins) option" where
  \<comment> \<open>the body of the input loop of \<open>UpdateCoins\<close>, on the coins the modifier gives\<close>
  "spend_input nPos c =
     (if nPos \<ge> length (c_vout c) \<or> txout_IsNull (c_vout c ! nPos) then None
      else let undo = \<lparr>u_txout = c_vout c ! nPos, u_fCoinBase = False, u_nHeight = 0, u_nVersion = 0\<rparr>;
               c' = snd (Spend c nPos)
           in Some (if length (c_vout c') = 0
                    then undo\<lparr>u_nHeight := word_of_int (c_nHeight c'), u_fCoinBase := fCoinBase c', u_nVersion := c_nVersion c'\<rparr>
                    else undo, c'))"

fun spend_inputs ::
  "'v get_coins \<Rightarrow> (CCoins \<Rightarrow> int) \<Rightarrow> 'v CCoinsViewCache \<Rightarrow> CTxIn list \<Rightarrow> (CTxInUndo list \<times> 'v CCoinsViewCache) option" where
  "spend_inputs GetC usage c [] = Some ([], c)"
| "spend_inputs GetC usage c (txin # rest) =
     Option.bind (with_coins GetC usage (op_hash (prevout txin)) (spend_input (unat (op_n (prevout txin)))) c) (\<lambda>(u, c1).
       Option.bind (spend_inputs GetC usage c1 rest) (\<lambda>(us, c2). Some (u # us, c2)))"

definition UpdateCoins ::
  "'v get_coins \<Rightarrow> (CCoins \<Rightarrow> int) \<Rightarrow> CTransaction \<Rightarrow> 'v CCoinsViewCache \<Rightarrow> int \<Rightarrow> (CTxInUndo list \<times> 'v CCoinsViewCache) option" where
  \<comment> \<open>the undo records are \<open>txundo.vprevout\<close>\<close>
  "UpdateCoins GetC usage tx inputs nHeight =
     (if \<not> IsCoinBase tx
      then Option.bind (spend_inputs GetC usage inputs (vin tx)) (\<lambda>(us, c1).
             map_option (Pair us) (with_new_coins usage (tx_hash tx) (\<lambda>_. FromTx tx nHeight) c1))
      else map_option (\<lambda>(_, c1). ([], c1))
             (with_coins GetC usage (tx_hash tx) (\<lambda>_. Some ((), FromTx tx nHeight)) inputs))"

definition undo_input :: "CTxInUndo \<Rightarrow> nat \<Rightarrow> CCoins \<Rightarrow> bool \<times> CCoins" where
  \<comment> \<open>the body of \<open>ApplyTxInUndo\<close> on the coins the modifier gives, with \<open>fClean\<close>\<close>
  "undo_input undo n c =
     (let (fClean, c) =
            (if u_nHeight undo \<noteq> 0
             then (IsPruned c, \<lparr>fCoinBase = u_fCoinBase undo, c_vout = [], c_nHeight = sint (u_nHeight undo),
                                c_nVersion = u_nVersion undo\<rparr>)
             else (\<not> IsPruned c, c));
          fClean = (fClean \<and> \<not> IsAvailable c n);
          c = (if length (c_vout c) < (n + 1) mod 2 ^ 32
               then c\<lparr>c_vout := c_vout c @ replicate ((n + 1) mod 2 ^ 32 - length (c_vout c)) txout_null\<rparr> else c)
      in (fClean, c\<lparr>c_vout := (c_vout c)[n := u_txout undo]\<rparr>))"

definition ApplyTxInUndo ::
  "'v get_coins \<Rightarrow> (CCoins \<Rightarrow> int) \<Rightarrow> CTxInUndo \<Rightarrow> 'v CCoinsViewCache \<Rightarrow> COutPoint \<Rightarrow> (bool \<times> 'v CCoinsViewCache) option" where
  "ApplyTxInUndo GetC usage undo view out =
     with_coins GetC usage (op_hash out) (\<lambda>c. Some (undo_input undo (unat (op_n out)) c)) view"

fun undo_inputs ::
  "'v get_coins \<Rightarrow> (CCoins \<Rightarrow> int) \<Rightarrow> (CTxIn \<times> CTxInUndo) list \<Rightarrow> bool \<times> 'v CCoinsViewCache \<Rightarrow> (bool \<times> 'v CCoinsViewCache) option" where
  \<comment> \<open>the inputs in the order of the loop, last first\<close>
  "undo_inputs GetC usage [] s = Some s"
| "undo_inputs GetC usage ((txin, undo) # rest) (fClean, view) =
     Option.bind (ApplyTxInUndo GetC usage undo view (prevout txin)) (\<lambda>(ok, view').
       undo_inputs GetC usage rest (fClean \<and> ok, view'))"

definition check_outputs :: "CTransaction \<Rightarrow> int \<Rightarrow> CCoins \<Rightarrow> bool \<times> CCoins" where
  \<comment> \<open>the outputs must be the block's own; then they are removed\<close>
  "check_outputs tx nHeight outs =
     (let outs = ClearUnspendable outs;
          outsBlock = FromTx tx nHeight;
          outs = (if sint (c_nVersion outsBlock) < 0 then outs\<lparr>c_nVersion := c_nVersion outsBlock\<rparr> else outs)
      in (coins_eq outs outsBlock, coins_empty))"

datatype disconnect_error = AssertionFailed | BlockUndoInconsistent | TxUndoInconsistent

definition disconnect_tx ::
  "'v get_coins \<Rightarrow> (CCoins \<Rightarrow> int) \<Rightarrow> int \<Rightarrow> CTransaction \<Rightarrow> CTxInUndo list option \<Rightarrow> bool \<times> 'v CCoinsViewCache \<Rightarrow>
   disconnect_error + bool \<times> 'v CCoinsViewCache" where
  \<comment> \<open>the body of the loop; the undo records are \<open>None\<close> for the first transaction\<close>
  "disconnect_tx GetC usage nHeight tx txundo s =
     (case with_coins GetC usage (tx_hash tx) (\<lambda>c. Some (check_outputs tx nHeight c)) (snd s) of
        None \<Rightarrow> Inl AssertionFailed
      | Some (ok, view) \<Rightarrow>
          (case txundo of
             None \<Rightarrow> Inr (fst s \<and> ok, view)
           | Some us \<Rightarrow>
               if length us \<noteq> length (vin tx) then Inl TxUndoInconsistent
               else (case undo_inputs GetC usage (rev (zip (vin tx) us)) (fst s \<and> ok, view) of
                       None \<Rightarrow> Inl AssertionFailed | Some s' \<Rightarrow> Inr s')))"

fun disconnect_loop ::
  "'v get_coins \<Rightarrow> (CCoins \<Rightarrow> int) \<Rightarrow> int \<Rightarrow> (CTransaction \<times> CTxInUndo list option) list \<Rightarrow> bool \<times> 'v CCoinsViewCache \<Rightarrow>
   disconnect_error + bool \<times> 'v CCoinsViewCache" where
  "disconnect_loop GetC usage nHeight [] s = Inr s"
| "disconnect_loop GetC usage nHeight ((tx, u) # rest) s =
     sum_bind (disconnect_tx GetC usage nHeight tx u s) (disconnect_loop GetC usage nHeight rest)"

definition DisconnectBlock ::
  "'v get_coins \<Rightarrow> (CCoins \<Rightarrow> int) \<Rightarrow> CTransaction list \<Rightarrow> CTxInUndo list list \<Rightarrow> int \<Rightarrow> uint256 \<Rightarrow> 'v CCoinsViewCache \<Rightarrow>
   disconnect_error + bool \<times> 'v CCoinsViewCache" where
  \<comment> \<open>given \<open>blockUndo.vtxundo\<close> as read from disk and the hash of the previous block; the
    result is \<open>fClean\<close> and the view\<close>
  "DisconnectBlock GetC usage vtx vtxundo nHeight hashPrev view =
     (if length vtxundo + 1 \<noteq> length vtx then Inl BlockUndoInconsistent
      else sum_bind (disconnect_loop GetC usage nHeight (rev (zip vtx (None # map Some vtxundo))) (True, view))
             (\<lambda>(fClean, v). Inr (fClean, SetBestBlock hashPrev v)))"

fun connect_loop ::
  "'v get_coins \<Rightarrow> (CCoins \<Rightarrow> int) \<Rightarrow> int \<Rightarrow> CTransaction list \<Rightarrow> 'v CCoinsViewCache \<Rightarrow> (CTxInUndo list list \<times> 'v CCoinsViewCache) option" where
  \<comment> \<open>the calls of \<open>UpdateCoins\<close> in \<open>ConnectBlock\<close>; the first record is \<open>undoDummy\<close>\<close>
  "connect_loop GetC usage nHeight [] view = Some ([], view)"
| "connect_loop GetC usage nHeight (tx # rest) view =
     Option.bind (UpdateCoins GetC usage tx view nHeight) (\<lambda>(us, v1).
       Option.bind (connect_loop GetC usage nHeight rest v1) (\<lambda>(uss, v2). Some (us # uss, v2)))"

section \<open>The coins of one transaction\<close>

lemma cleanup_vout_spec:
  "(n < length (cleanup_vout v) \<longrightarrow> cleanup_vout v ! n = v ! n) \<and>
   (length (cleanup_vout v) \<le> n \<and> n < length v \<longrightarrow> txout_IsNull (v ! n)) \<and> length (cleanup_vout v) \<le> length v"
proof (induction v rule: cleanup_vout.induct)
  case (1 v)
  show ?case
  proof (cases "length v > 0 \<and> txout_IsNull (v ! (length v - 1))")
    case True
    have e: "cleanup_vout v = cleanup_vout (butlast v)" using True by (subst cleanup_vout.simps) simp
    have l: "length (cleanup_vout (butlast v)) \<le> length v - 1" using "1.IH" [OF True] by simp
    show ?thesis unfolding e
    proof (intro conjI impI)
      assume a: "n < length (cleanup_vout (butlast v))"
      then have "n < length (butlast v)" using l by simp
      then show "cleanup_vout (butlast v) ! n = v ! n" using "1.IH" [OF True] a by (simp add: nth_butlast)
    next
      assume a: "length (cleanup_vout (butlast v)) \<le> n \<and> n < length v"
      show "txout_IsNull (v ! n)"
      proof (cases "n = length v - 1")
        case False
        then have "n < length (butlast v)" using a unfolding length_butlast by linarith
        then show ?thesis using "1.IH" [OF True] a by (simp add: nth_butlast)
      qed (use True in simp)
    qed (use l in simp)
  next
    case False
    then show ?thesis by (subst (1 2 3 4) cleanup_vout.simps) auto
  qed
qed

lemma cleanup_vout_nth: "n < length (cleanup_vout v) \<Longrightarrow> cleanup_vout v ! n = v ! n"
  and cleanup_vout_dropped: "length (cleanup_vout v) \<le> n \<Longrightarrow> n < length v \<Longrightarrow> txout_IsNull (v ! n)"
  and cleanup_vout_length: "length (cleanup_vout v) \<le> length v"
  using cleanup_vout_spec [of n v] by auto

lemma cleanup_vout_last:
  "cleanup_vout v \<noteq> [] \<Longrightarrow> \<not> txout_IsNull (cleanup_vout v ! (length (cleanup_vout v) - 1))"
proof (induction v rule: cleanup_vout.induct)
  case (1 v)
  show ?case
  proof (cases "length v > 0 \<and> txout_IsNull (v ! (length v - 1))")
    case True
    then have "cleanup_vout v = cleanup_vout (butlast v)" by (subst cleanup_vout.simps) simp
    then show ?thesis using 1 True by simp
  next
    case False
    then have "cleanup_vout v = v" by (subst cleanup_vout.simps) auto
    then show ?thesis using 1 False by auto
  qed
qed

lemma cleanup_vout_id: "(v \<noteq> [] \<Longrightarrow> \<not> txout_IsNull (v ! (length v - 1))) \<Longrightarrow> cleanup_vout v = v"
  by (subst cleanup_vout.simps) auto

lemma IsPruned_nth: "IsPruned c \<longleftrightarrow> (\<forall>n < length (c_vout c). txout_IsNull (c_vout c ! n))"
  by (simp add: IsPruned_def list_all_length)

lemma Cleanup_fields [simp]:
  "c_vout (Cleanup c) = cleanup_vout (c_vout c)" "fCoinBase (Cleanup c) = fCoinBase c"
  "c_nHeight (Cleanup c) = c_nHeight c" "c_nVersion (Cleanup c) = c_nVersion c"
  by (simp_all add: Cleanup_def)

lemma cleanup_available:
  "(n < length (cleanup_vout v) \<and> \<not> txout_IsNull (cleanup_vout v ! n)) \<longleftrightarrow> (n < length v \<and> \<not> txout_IsNull (v ! n))"
  using cleanup_vout_nth [of n v] cleanup_vout_dropped [of v n] cleanup_vout_length [of v]
  by (metis le_less_linear less_le_trans)

lemma IsAvailable_Cleanup [simp]: "IsAvailable (Cleanup c) n = IsAvailable c n"
  by (simp add: IsAvailable_def cleanup_available)

lemma IsPruned_iff: "IsPruned c \<longleftrightarrow> (\<forall>n. \<not> IsAvailable c n)"
  by (auto simp: IsPruned_nth IsAvailable_def)

lemma IsPruned_Cleanup [simp]: "IsPruned (Cleanup c) = IsPruned c"
  by (simp add: IsPruned_iff)

lemma pruned_cleanup_empty: "IsPruned c \<longleftrightarrow> cleanup_vout (c_vout c) = []"
proof
  assume p: "IsPruned c"
  show "cleanup_vout (c_vout c) = []"
  proof (rule ccontr)
    assume ne: "cleanup_vout (c_vout c) \<noteq> []"
    let ?n = "length (cleanup_vout (c_vout c)) - 1"
    have "?n < length (cleanup_vout (c_vout c))" using ne by simp
    then have "IsAvailable (Cleanup c) ?n" using cleanup_vout_last [OF ne] by (simp add: IsAvailable_def del: IsAvailable_Cleanup)
    then show False using p IsPruned_iff by auto
  qed
next
  assume "cleanup_vout (c_vout c) = []"
  then have "IsPruned (Cleanup c)" by (simp add: IsPruned_def del: IsPruned_Cleanup)
  then show "IsPruned c" by simp
qed

definition coins_wf :: "CCoins \<Rightarrow> bool" where
  \<comment> \<open>spent outputs are null objects, and there is none at the end; the height fits the undo record\<close>
  "coins_wf c \<longleftrightarrow> (\<forall>n < length (c_vout c). txout_IsNull (c_vout c ! n) \<longrightarrow> c_vout c ! n = txout_null) \<and>
     (c_vout c \<noteq> [] \<longrightarrow> \<not> txout_IsNull (c_vout c ! (length (c_vout c) - 1))) \<and>
     length (c_vout c) < 2 ^ 32 \<and> 0 < c_nHeight c \<and> c_nHeight c < 2 ^ 31"

lemma coins_wf_Cleanup:
  assumes "\<forall>n < length (c_vout c). txout_IsNull (c_vout c ! n) \<longrightarrow> c_vout c ! n = txout_null" "length (c_vout c) < 2 ^ 32"
    "0 < c_nHeight c" "c_nHeight c < 2 ^ 31"
  shows "coins_wf (Cleanup c)"
  using assms le_less_trans [OF cleanup_vout_length assms(2)] cleanup_vout_nth [where v = "c_vout c"] cleanup_vout_length [of "c_vout c"] cleanup_vout_last [of "c_vout c"]
  by (auto simp: coins_wf_def)

lemma coins_wf_clean: "coins_wf c \<Longrightarrow> Cleanup c = c"
  using cleanup_vout_id [of "c_vout c"] by (simp add: coins_wf_def Cleanup_def)

lemma txout_IsNull_null [simp]: "txout_IsNull txout_null"
  by (simp add: txout_IsNull_def txout_null_def)

text \<open>Spending an output makes exactly it unavailable, and the undo record brings it back.\<close>

lemma spend_input_Some:
  "spend_input n c = Some (u, c') \<longleftrightarrow> IsAvailable c n \<and> c' = Cleanup (c\<lparr>c_vout := (c_vout c)[n := txout_null]\<rparr>) \<and>
    u_txout u = c_vout c ! n \<and>
    (if c_vout c' = [] then u_nHeight u = word_of_int (c_nHeight c) \<and> u_fCoinBase u = fCoinBase c \<and> u_nVersion u = c_nVersion c
     else u_nHeight u = 0 \<and> u_fCoinBase u = False \<and> u_nVersion u = 0)"
  by (cases u) (auto simp: spend_input_def Spend_def IsAvailable_def Let_def)

lemma spend_wf:
  assumes "coins_wf c" "spend_input n c = Some (u, c')"
  shows "coins_wf c'"
proof -
  have "c' = Cleanup (c\<lparr>c_vout := (c_vout c)[n := txout_null]\<rparr>)" using assms(2) by (simp add: spend_input_Some)
  moreover have "coins_wf (Cleanup (c\<lparr>c_vout := (c_vout c)[n := txout_null]\<rparr>))"
    using assms by (intro coins_wf_Cleanup) (auto simp: coins_wf_def nth_list_update spend_input_Some IsAvailable_def)
  ultimately show ?thesis by simp
qed

lemma undo_spend:
  assumes wf: "coins_wf c" and sp: "spend_input n c = Some (u, c')"
    and t: "if IsPruned c' then IsPruned t else t = c'"
  shows "undo_input u n t = (True, c)"
proof -
  let ?v = "(c_vout c)[n := txout_null]"
  have av: "n < length (c_vout c)" "\<not> txout_IsNull (c_vout c ! n)" and c': "c' = Cleanup (c\<lparr>c_vout := ?v\<rparr>)"
    using sp by (auto simp: spend_input_Some IsAvailable_def)
  have small: "(n + 1) mod 2 ^ 32 = n + 1" using av wf by (intro mod_less) (auto simp: coins_wf_def)
  have nulls: "m < length (c_vout c) \<Longrightarrow> txout_IsNull (c_vout c ! m) \<Longrightarrow> c_vout c ! m = txout_null" for m
    using wf by (simp add: coins_wf_def)
  have last: "\<not> txout_IsNull (c_vout c ! (length (c_vout c) - 1))" using wf av by (auto simp: coins_wf_def)
  have restore: "(w @ replicate (n + 1 - length w) txout_null)[n := c_vout c ! n] = c_vout c"
    if w: "w = cleanup_vout ?v" for w
  proof (rule nth_equalityI)
    have lw: "length w \<le> length (c_vout c)" using cleanup_vout_length [of ?v] w by simp
    have short: "n + 1 = length (c_vout c)" if "length w < length (c_vout c)"
    proof (rule ccontr)
      assume "n + 1 \<noteq> length (c_vout c)"
      then have "n \<noteq> length (c_vout c) - 1" using av by linarith
      moreover have "txout_IsNull (?v ! (length (c_vout c) - 1))"
        using cleanup_vout_dropped [of ?v "length (c_vout c) - 1"] that w av by simp
      ultimately show False using last av by simp
    qed
    then show len: "length ((w @ replicate (n + 1 - length w) txout_null)[n := c_vout c ! n]) = length (c_vout c)"
      using lw av by (cases "length w < length (c_vout c)") auto
    fix m
    assume m: "m < length ((w @ replicate (n + 1 - length w) txout_null)[n := c_vout c ! n])"
    then have mc: "m < length (c_vout c)" using len by simp
    show "(w @ replicate (n + 1 - length w) txout_null)[n := c_vout c ! n] ! m = c_vout c ! m"
    proof (cases "m = n")
      case True
      then show ?thesis using m by simp
    next
      case False
      then have vm: "?v ! m = c_vout c ! m" by simp
      show ?thesis
      proof (cases "m < length w")
        case True
        then show ?thesis using cleanup_vout_nth [of m ?v] w vm False by (simp add: nth_append)
      next
        case F: False
        then have "txout_IsNull (?v ! m)" using cleanup_vout_dropped [of ?v m] w mc by simp
        then show ?thesis using nulls [OF mc] vm False F m by (simp add: nth_append)
      qed
    qed
  qed
  have h: "0 < c_nHeight c" "c_nHeight c < 2 ^ 31" using wf by (auto simp: coins_wf_def)
  show ?thesis
  proof (cases "IsPruned c'")
    case True
    then have e: "c_vout c' = []" "cleanup_vout ?v = []" using pruned_cleanup_empty [of "c\<lparr>c_vout := ?v\<rparr>"] c' by auto
    have u: "u_nHeight u = word_of_int (c_nHeight c)" "u_fCoinBase u = fCoinBase c" "u_nVersion u = c_nVersion c" "u_txout u = c_vout c ! n"
      using sp e by (auto simp: spend_input_Some)
    have si: "sint (word_of_int (c_nHeight c) :: u32) = c_nHeight c" using h
      by (simp add: sint_sbintrunc' signed_take_bit_int_eq_self)
    then have "u_nHeight u \<noteq> 0" using u(1) h(1) by auto
    then show ?thesis using restore [of "[]"] True t e u si
      unfolding undo_input_def Let_def small by (simp add: IsAvailable_def)
  next
    case False
    then have e: "c_vout c' \<noteq> []" using pruned_cleanup_empty [of "c\<lparr>c_vout := ?v\<rparr>"] c' by auto
    have u: "u_nHeight u = 0" "u_txout u = c_vout c ! n" using sp e by (auto simp: spend_input_Some)
    have "\<not> IsAvailable c' n" using av c' by (simp add: IsAvailable_def cleanup_available)
    moreover have "t = c'" using t False by simp
    moreover have "c_vout c' = cleanup_vout ?v" "c'\<lparr>c_vout := c_vout c\<rparr> = c" by (simp_all add: c' Cleanup_def)
    ultimately show ?thesis using restore [of "c_vout c'"] False u unfolding undo_input_def Let_def small by auto
  qed
qed

lemma FromTx_wf:
  assumes "\<forall>out \<in> set (vout tx). nValue out \<noteq> - 1" "length (vout tx) < 2 ^ 32" "0 < h" "h < 2 ^ 31"
  shows "coins_wf (FromTx tx h)"
  unfolding FromTx_def ClearUnspendable_def using assms
  by (intro coins_wf_Cleanup) (auto simp: txout_IsNull_def)

lemma ClearUnspendable_FromTx: "coins_wf (FromTx tx h) \<Longrightarrow> ClearUnspendable (FromTx tx h) = FromTx tx h"
proof -
  assume wf: "coins_wf (FromTx tx h)"
  have "\<not> IsUnspendable (scriptPubKey (c_vout (FromTx tx h) ! n))" if "n < length (c_vout (FromTx tx h))" for n
  proof -
    let ?v = "map (\<lambda>out. if IsUnspendable (scriptPubKey out) then txout_null else out) (vout tx)"
    have f: "c_vout (FromTx tx h) = cleanup_vout ?v" by (simp add: FromTx_def ClearUnspendable_def)
    then have "c_vout (FromTx tx h) ! n = ?v ! n" "n < length (vout tx)"
      using that cleanup_vout_nth [of _ ?v] cleanup_vout_length [of ?v] by (auto intro: less_le_trans)
    then show ?thesis by (simp add: IsUnspendable_def txout_null_def)
  qed
  then have "map (\<lambda>out. if IsUnspendable (scriptPubKey out) then txout_null else out) (c_vout (FromTx tx h)) = c_vout (FromTx tx h)"
    by (auto simp: in_set_conv_nth intro!: map_idI)
  then show ?thesis using coins_wf_clean [OF wf] by (simp add: ClearUnspendable_def)
qed

lemma IsPruned_ClearUnspendable: "IsPruned c \<Longrightarrow> IsPruned (ClearUnspendable c)"
  by (auto simp: ClearUnspendable_def IsPruned_nth [of "CCoins.c_vout_update _ _"] IsPruned_nth [of c])

section \<open>Connecting and disconnecting\<close>

definition contents_wf :: "(uint256 \<Rightarrow> CCoins option) \<Rightarrow> bool" where
  "contents_wf D \<longleftrightarrow> (\<forall>k c. D k = Some c \<longrightarrow> coins_wf c \<and> \<not> IsPruned c)"

lemma contents_wf_upd: "contents_wf D \<Longrightarrow> coins_wf c \<Longrightarrow> contents_wf (D(k := abs_coins c))"
  by (auto simp: contents_wf_def abs_coins_def)

lemma abs_coins_Some: "abs_coins t = Some c \<longleftrightarrow> t = c \<and> \<not> IsPruned c"
  by (auto simp: abs_coins_def)

lemma abs_coins_None: "abs_coins t = None \<longleftrightarrow> IsPruned t"
  by (simp add: abs_coins_def)

lemma undo_inputs_append:
  "undo_inputs GetC usage (xs @ ys) s = Option.bind (undo_inputs GetC usage xs s) (undo_inputs GetC usage ys)"
proof (induction xs arbitrary: s)
  case (Cons x xs)
  then show ?case by (cases x; cases s) (auto split: Option.bind_split)
qed simp

lemma disconnect_loop_append:
  "disconnect_loop GetC usage h (xs @ ys) s = sum_bind (disconnect_loop GetC usage h xs s) (disconnect_loop GetC usage h ys)"
proof (induction xs arbitrary: s)
  case (Cons x xs)
  have e: "disconnect_loop GetC usage h (xs @ ys) =
      (\<lambda>s. sum_bind (disconnect_loop GetC usage h xs s) (disconnect_loop GetC usage h ys))"
    using Cons.IH by (rule ext)
  show ?case by (cases x) (simp add: e sum_bind_assoc)
qed simp

definition undo_of :: "CTransaction \<Rightarrow> CTxInUndo list \<Rightarrow> CTxInUndo list option" where
  "undo_of tx us = (if IsCoinBase tx then None else Some us)"

lemma cleanup_vout_Nil [simp]: "cleanup_vout [] = []"
  by (subst cleanup_vout.simps) simp

context coins_view
begin

text \<open>One input: spending succeeds only on unspent coins and its undo gives the map back.\<close>

lemma spend_step:
  assumes ok: "cache_ok vinv contents c" and wf: "contents_wf (cache_contents contents c)"
    and s: "with_coins GetC usage k (spend_input n) c = Some (u, c')"
  shows "\<exists>t x. cache_contents contents c k = Some t \<and> spend_input n t = Some (u, x) \<and> coins_wf t \<and> coins_wf x \<and>
    cache_ok vinv contents c' \<and> cache_contents contents c' = (cache_contents contents c)(k := abs_coins x) \<and>
    contents (base c') = contents (base c)"
proof -
  obtain t where t: "abs_coins t = cache_contents contents c k" and r:
    "case spend_input n t of None \<Rightarrow> with_coins GetC usage k (spend_input n) c = None
     | Some (r, x) \<Rightarrow> \<exists>c'. with_coins GetC usage k (spend_input n) c = Some (r, c') \<and> cache_ok vinv contents c' \<and>
         cache_contents contents c' = (cache_contents contents c)(k := abs_coins (Cleanup x)) \<and>
         contents (base c') = contents (base c) \<and> hashBlock c' = hashBlock c"
    using with_coins_spec [OF ok, where k = k and f = "spend_input n" and usage = usage] by blast
  obtain x where x: "spend_input n t = Some (u, x)" using r s by (auto split: option.splits)
  then have np: "\<not> IsPruned t" by (auto simp: spend_input_Some IsPruned_iff)
  then have D: "cache_contents contents c k = Some t" using t by (simp add: abs_coins_def split: if_splits)
  then have tw: "coins_wf t" using wf by (simp add: contents_wf_def)
  then have xw: "coins_wf x" using spend_wf x by blast
  show ?thesis using r s x D tw xw coins_wf_clean [OF xw] by auto
qed

lemma undo_step:
  assumes ok: "cache_ok vinv contents v" and tw: "coins_wf t" and x: "spend_input n t = Some (u, x)"
    and D: "cache_contents contents v k = abs_coins x" and n: "n = unat (op_n out)" "k = op_hash out"
  shows "\<exists>v'. ApplyTxInUndo GetC usage u v out = Some (True, v') \<and> cache_ok vinv contents v' \<and>
    cache_contents contents v' = (cache_contents contents v)(k := Some t)"
proof -
  let ?f = "\<lambda>c. Some (undo_input u n c)"
  obtain y where y: "abs_coins y = cache_contents contents v k" and r:
    "case ?f y of None \<Rightarrow> with_coins GetC usage k ?f v = None
     | Some (r, z) \<Rightarrow> \<exists>c'. with_coins GetC usage k ?f v = Some (r, c') \<and> cache_ok vinv contents c' \<and>
         cache_contents contents c' = (cache_contents contents v)(k := abs_coins (Cleanup z)) \<and>
         contents (base c') = contents (base v) \<and> hashBlock c' = hashBlock v"
    using with_coins_spec [OF ok, where k = k and f = ?f and usage = usage] by blast
  have "if IsPruned x then IsPruned y else y = x" using y D by (auto simp: abs_coins_def split: if_splits)
  from undo_spend [OF tw x this] have "undo_input u n y = (True, t)" .
  moreover have "\<not> IsPruned t" using x by (auto simp: spend_input_Some IsPruned_iff)
  ultimately show ?thesis using r n coins_wf_clean [OF tw] by (auto simp: ApplyTxInUndo_def abs_coins_def)
qed

lemma spend_inputs_undo:
  "cache_ok vinv contents c \<Longrightarrow> contents_wf (cache_contents contents c) \<Longrightarrow>
   spend_inputs GetC usage c ins = Some (us, c') \<Longrightarrow>
   cache_ok vinv contents c' \<and> contents_wf (cache_contents contents c') \<and>
   contents (base c') = contents (base c) \<and> length us = length ins \<and>
   (\<forall>j. cache_contents contents c j = None \<longrightarrow> cache_contents contents c' j = None) \<and>
   (\<forall>v. cache_ok vinv contents v \<longrightarrow> cache_contents contents v = cache_contents contents c' \<longrightarrow>
      (\<exists>v'. undo_inputs GetC usage (rev (zip ins us)) (b, v) = Some (b, v') \<and> cache_ok vinv contents v' \<and>
        cache_contents contents v' = cache_contents contents c))"
proof (induction ins arbitrary: c us)
  case (Cons i ins)
  let ?k = "op_hash (prevout i)" and ?n = "unat (op_n (prevout i))"
  from Cons.prems(3) obtain u c1 us1 where
    s: "with_coins GetC usage ?k (spend_input ?n) c = Some (u, c1)" and
    r: "spend_inputs GetC usage c1 ins = Some (us1, c')" and us: "us = u # us1"
    by (auto split: Option.bind_splits)
  obtain t x where t: "cache_contents contents c ?k = Some t" "spend_input ?n t = Some (u, x)" "coins_wf t" "coins_wf x"
    "cache_ok vinv contents c1" "cache_contents contents c1 = (cache_contents contents c)(?k := abs_coins x)"
    "contents (base c1) = contents (base c)"
    using spend_step [OF Cons.prems(1,2) s] by blast
  have wf1: "contents_wf (cache_contents contents c1)" using contents_wf_upd [OF Cons.prems(2) t(4)] t(6) by simp
  note IH = Cons.IH [OF t(5) wf1 r]
  have "\<exists>v'. undo_inputs GetC usage (rev (zip (i # ins) us)) (b, v) = Some (b, v') \<and> cache_ok vinv contents v' \<and>
        cache_contents contents v' = cache_contents contents c"
    if v: "cache_ok vinv contents v" "cache_contents contents v = cache_contents contents c'" for v
  proof -
    obtain v1 where v1: "undo_inputs GetC usage (rev (zip ins us1)) (b, v) = Some (b, v1)" "cache_ok vinv contents v1"
      "cache_contents contents v1 = cache_contents contents c1"
      using IH v by blast
    have D: "cache_contents contents v1 ?k = abs_coins x" using v1(3) t(6) by simp
    obtain v2 where "ApplyTxInUndo GetC usage u v1 (prevout i) = Some (True, v2)" "cache_ok vinv contents v2"
      "cache_contents contents v2 = (cache_contents contents v1)(?k := Some t)"
      using undo_step [OF v1(2) t(3,2) D refl refl] by blast
    then show ?thesis using v1 t(1,6) us by (auto simp: undo_inputs_append fun_eq_iff)
  qed
  moreover have "cache_contents contents c' j = None" if "cache_contents contents c j = None" for j
    using that IH t(1,6) by (metis fun_upd_other option.distinct(1))
  ultimately show ?case using IH t us by auto
qed auto

text \<open>One transaction.  \<open>txundo\<close> is absent for the first transaction of a block.\<close>

lemma tx_undo:
  assumes ok: "cache_ok vinv contents c" and wf: "contents_wf (cache_contents contents c)"
    and up: "UpdateCoins GetC usage tx c h = Some (us, c')" and fw: "coins_wf (FromTx tx h)"
    and new: "cache_contents contents c (tx_hash tx) = None" "contents (base c) (tx_hash tx) = None"
  shows "cache_ok vinv contents c' \<and> contents_wf (cache_contents contents c') \<and> contents (base c') = contents (base c) \<and>
    (\<forall>j. j \<noteq> tx_hash tx \<longrightarrow> cache_contents contents c j = None \<longrightarrow> cache_contents contents c' j = None) \<and>
    (\<forall>v. cache_ok vinv contents v \<longrightarrow> cache_contents contents v = cache_contents contents c' \<longrightarrow>
      (\<exists>v'. disconnect_tx GetC usage h tx (if IsCoinBase tx then None else Some us) (True, v) = Inr (True, v') \<and>
         cache_ok vinv contents v' \<and> cache_contents contents v' = cache_contents contents c))"
proof -
  let ?k = "tx_hash tx"
  obtain c1 where c1: "cache_ok vinv contents c1" "contents_wf (cache_contents contents c1)" "contents (base c1) = contents (base c)"
    "\<forall>j. cache_contents contents c j = None \<longrightarrow> cache_contents contents c1 j = None"
    "cache_ok vinv contents c'" "contents (base c') = contents (base c)"
    "cache_contents contents c' = (cache_contents contents c1)(?k := abs_coins (FromTx tx h))"
    "\<forall>v. cache_ok vinv contents v \<longrightarrow> cache_contents contents v = cache_contents contents c1 \<longrightarrow>
      (\<exists>v'. (if IsCoinBase tx then v' = v
             else length us = length (vin tx) \<and> undo_inputs GetC usage (rev (zip (vin tx) us)) (True, v) = Some (True, v')) \<and>
        cache_ok vinv contents v' \<and> cache_contents contents v' = cache_contents contents c)"
  proof (cases "IsCoinBase tx")
    case True
    then obtain c'' where w: "with_coins GetC usage ?k (\<lambda>_. Some ((), FromTx tx h)) c = Some ((), c'')" "c' = c''"
      using up by (auto simp: UpdateCoins_def)
    obtain t where "case Some ((), FromTx tx h) of None \<Rightarrow> with_coins GetC usage ?k (\<lambda>_. Some ((), FromTx tx h)) c = None
     | Some (r, x) \<Rightarrow> \<exists>c'. with_coins GetC usage ?k (\<lambda>_. Some ((), FromTx tx h)) c = Some (r, c') \<and> cache_ok vinv contents c' \<and>
         cache_contents contents c' = (cache_contents contents c)(?k := abs_coins (Cleanup x)) \<and>
         contents (base c') = contents (base c) \<and> hashBlock c' = hashBlock c"
      using with_coins_spec [OF ok, where k = ?k and f = "\<lambda>_. Some ((), FromTx tx h)" and usage = usage] by blast
    then show ?thesis using w True ok wf coins_wf_clean [OF fw] by (intro that [of c]) auto
  next
    case False
    then obtain us' c1 where w: "spend_inputs GetC usage c (vin tx) = Some (us, c1)"
      "with_new_coins usage ?k (\<lambda>_. FromTx tx h) c1 = Some c'"
      using up by (auto simp: UpdateCoins_def split: Option.bind_splits)
    note s = spend_inputs_undo [OF ok wf w(1)]
    have "\<exists>c''. with_new_coins usage ?k (\<lambda>_. FromTx tx h) c1 = Some c'' \<and> cache_ok vinv contents c'' \<and>
      cache_contents contents c'' = (cache_contents contents c1)(?k := abs_coins (Cleanup (FromTx tx h))) \<and>
      contents (base c'') = contents (base c1) \<and> hashBlock c'' = hashBlock c1"
      using with_new_coins_spec [where c = c1 and k = ?k and f = "\<lambda>_. FromTx tx h" and usage = usage] s new by auto
    then show ?thesis using w s False coins_wf_clean [OF fw] by (intro that [of c1]) auto
  qed
  have "\<exists>v'. disconnect_tx GetC usage h tx (if IsCoinBase tx then None else Some us) (True, v) = Inr (True, v') \<and>
         cache_ok vinv contents v' \<and> cache_contents contents v' = cache_contents contents c"
    if v: "cache_ok vinv contents v" "cache_contents contents v = cache_contents contents c'" for v
  proof -
    let ?f = "\<lambda>x. Some (check_outputs tx h x)"
    obtain t where t: "abs_coins t = cache_contents contents v ?k" and r:
      "case ?f t of None \<Rightarrow> with_coins GetC usage ?k ?f v = None
       | Some (r, x) \<Rightarrow> \<exists>c'. with_coins GetC usage ?k ?f v = Some (r, c') \<and> cache_ok vinv contents c' \<and>
           cache_contents contents c' = (cache_contents contents v)(?k := abs_coins (Cleanup x)) \<and>
           contents (base c') = contents (base v) \<and> hashBlock c' = hashBlock v"
      using with_coins_spec [OF v(1), where k = ?k and f = ?f and usage = usage] by blast
    have eq: "abs_coins t = abs_coins (FromTx tx h)" using t v c1(7) by simp
    have "check_outputs tx h t = (True, coins_empty)"
    proof (cases "IsPruned t")
      case True
      then have "IsPruned (FromTx tx h)" using eq by (simp add: abs_coins_def split: if_splits)
      then show ?thesis using IsPruned_ClearUnspendable [OF True]
        by (simp add: check_outputs_def Let_def coins_eq_def IsPruned_def)
    next
      case False
      then have "t = FromTx tx h" using eq by (simp add: abs_coins_def split: if_splits)
      then show ?thesis using ClearUnspendable_FromTx [OF fw] by (simp add: check_outputs_def Let_def coins_eq_def)
    qed
    moreover have "abs_coins (Cleanup coins_empty) = None"
      by (simp add: abs_coins_None IsPruned_def coins_empty_def)
    ultimately obtain v1 where v1: "with_coins GetC usage ?k ?f v = Some (True, v1)" "cache_ok vinv contents v1"
      "cache_contents contents v1 = (cache_contents contents v)(?k := None)" using r by auto
    have "cache_contents contents c1 ?k = None" using c1(4) new by simp
    then have "cache_contents contents v1 = cache_contents contents c1" using v1(3) v(2) c1(7) by (auto simp: fun_eq_iff)
    then obtain v' where "if IsCoinBase tx then v' = v1
             else length us = length (vin tx) \<and> undo_inputs GetC usage (rev (zip (vin tx) us)) (True, v1) = Some (True, v')"
        "cache_ok vinv contents v'" "cache_contents contents v' = cache_contents contents c"
      using c1(8) v1(2) by blast
    then show ?thesis using v1(1) by (auto simp: disconnect_tx_def split: if_splits)
  qed
  then show ?thesis using c1 contents_wf_upd [OF c1(2) fw] by simp
qed

lemma connect_undo:
  "cache_ok vinv contents c \<Longrightarrow> contents_wf (cache_contents contents c) \<Longrightarrow>
   connect_loop GetC usage h txs c = Some (uss, c') \<Longrightarrow> (\<forall>tx \<in> set txs. coins_wf (FromTx tx h)) \<Longrightarrow>
   distinct (map tx_hash txs) \<Longrightarrow>
   (\<forall>tx \<in> set txs. cache_contents contents c (tx_hash tx) = None \<and> contents (base c) (tx_hash tx) = None) \<Longrightarrow>
   length uss = length txs \<and>
   cache_ok vinv contents c' \<and> contents_wf (cache_contents contents c') \<and> contents (base c') = contents (base c) \<and>
   (\<forall>v. cache_ok vinv contents v \<longrightarrow> cache_contents contents v = cache_contents contents c' \<longrightarrow>
      (\<exists>v'. disconnect_loop GetC usage h (rev (zip txs (map2 undo_of txs uss))) (True, v) = Inr (True, v') \<and>
         cache_ok vinv contents v' \<and> cache_contents contents v' = cache_contents contents c))"
proof (induction txs arbitrary: c uss)
  case (Cons tx txs)
  from Cons.prems(3) obtain us c1 uss1 where up: "UpdateCoins GetC usage tx c h = Some (us, c1)" and
    r: "connect_loop GetC usage h txs c1 = Some (uss1, c')" and uss: "uss = us # uss1"
    by (auto split: Option.bind_splits)
  have hyp: "coins_wf (FromTx tx h)" "cache_contents contents c (tx_hash tx) = None" "contents (base c) (tx_hash tx) = None"
    using Cons.prems(4,6) by simp_all
  note step = tx_undo [OF Cons.prems(1,2) up hyp, folded undo_of_def]
  have t: "cache_ok vinv contents c1" "contents_wf (cache_contents contents c1)" "contents (base c1) = contents (base c)"
    "\<forall>j. j \<noteq> tx_hash tx \<longrightarrow> cache_contents contents c j = None \<longrightarrow> cache_contents contents c1 j = None"
    "\<And>v. cache_ok vinv contents v \<Longrightarrow> cache_contents contents v = cache_contents contents c1 \<Longrightarrow>
      (\<exists>v'. disconnect_tx GetC usage h tx (undo_of tx us) (True, v) = Inr (True, v') \<and>
         cache_ok vinv contents v' \<and> cache_contents contents v' = cache_contents contents c)"
    using step by - blast+
  have "\<forall>x \<in> set txs. cache_contents contents c1 (tx_hash x) = None \<and> contents (base c1) (tx_hash x) = None"
  proof
    fix x
    assume x: "x \<in> set txs"
    then have "tx_hash x \<noteq> tx_hash tx" using Cons.prems(5) by (metis distinct.simps(2) imageI list.set_map list.simps(9))
    moreover have "cache_contents contents c (tx_hash x) = None" "contents (base c) (tx_hash x) = None"
      using Cons.prems(6) x by simp_all
    ultimately show "cache_contents contents c1 (tx_hash x) = None \<and> contents (base c1) (tx_hash x) = None"
      using t(3,4) by simp
  qed
  note new1 = this
  have hyps: "\<forall>tx \<in> set txs. coins_wf (FromTx tx h)" "distinct (map tx_hash txs)" using Cons.prems(4,5) by simp_all
  note step = Cons.IH [OF t(1,2) r hyps new1]
  have IH: "length uss1 = length txs" "cache_ok vinv contents c'"
    "contents_wf (cache_contents contents c')" "contents (base c') = contents (base c1)"
    "\<And>v. cache_ok vinv contents v \<Longrightarrow> cache_contents contents v = cache_contents contents c' \<Longrightarrow>
      (\<exists>v'. disconnect_loop GetC usage h (rev (zip txs (map2 undo_of txs uss1))) (True, v) = Inr (True, v') \<and>
         cache_ok vinv contents v' \<and> cache_contents contents v' = cache_contents contents c1)"
    using step by - blast+
  have "\<exists>v'. disconnect_loop GetC usage h (rev (zip (tx # txs) (map2 undo_of (tx # txs) uss))) (True, v) = Inr (True, v') \<and>
         cache_ok vinv contents v' \<and> cache_contents contents v' = cache_contents contents c"
    if v: "cache_ok vinv contents v" "cache_contents contents v = cache_contents contents c'" for v
  proof -
    obtain v1 where v1: "disconnect_loop GetC usage h (rev (zip txs (map2 undo_of txs uss1))) (True, v) = Inr (True, v1)"
      "cache_ok vinv contents v1" "cache_contents contents v1 = cache_contents contents c1"
      using IH(5) [OF v] by blast
    obtain v2 where "disconnect_tx GetC usage h tx (undo_of tx us) (True, v1) = Inr (True, v2)"
      "cache_ok vinv contents v2" "cache_contents contents v2 = cache_contents contents c"
      using t(5) [OF v1(2,3)] by blast
    then show ?thesis using v1(1) uss by (intro exI [of _ v2]) (simp add: disconnect_loop_append)
  qed
  moreover have "length uss = length (tx # txs)" using IH(1) uss by simp
  ultimately show ?case using IH(2-4) t(3) by metis
qed (simp; blast)

end

section \<open>On the tip of the chain\<close>

text \<open>
  The node keeps the cache \<open>pcoinsTip\<close> over the database and works on a block in a cache
  \<open>view(pcoinsTip)\<close> over it, flushed when the block is accepted.
\<close>

abbreviation tip_GetCoins :: "(CCoins \<Rightarrow> int) \<Rightarrow> CCoinsViewDB CCoinsViewCache get_coins" where
  "tip_GetCoins usage \<equiv> cache_GetCoins db_GetCoins usage"

abbreviation tip_ok :: "CCoinsViewDB CCoinsViewCache \<Rightarrow> bool" where
  "tip_ok \<equiv> cache_ok (\<lambda>_. True) db_contents"

abbreviation tip_contents :: "CCoinsViewDB CCoinsViewCache \<Rightarrow> uint256 \<Rightarrow> CCoins option" where
  "tip_contents \<equiv> cache_contents db_contents"

interpretation tip: coins_view "cache_GetCoins db_GetCoins usage" "cache_BatchWrite usage"
    "cache_ok (\<lambda>_. True) db_contents" "cache_contents db_contents" for usage :: "CCoins \<Rightarrow> int"
  by (rule db.cache_is_view)

lemma new_cache_ok: "vinv b \<Longrightarrow> cache_ok vinv contents (cache_on b)"
  by (simp add: cache_on_def cache_ok_def)

lemma new_cache_contents [simp]: "cache_contents contents (cache_on b) = contents b"
  by (simp add: cache_on_def cache_contents_def fun_eq_iff)

lemma new_cache_base [simp]: "base (cache_on b) = b"
  by (simp add: cache_on_def)

lemma SetBestBlock_ok [simp]:
  "cache_ok vinv contents (SetBestBlock h c) = cache_ok vinv contents c"
  "cache_contents contents (SetBestBlock h c) = cache_contents contents c"
  by (auto simp: SetBestBlock_def cache_ok_def cache_contents_def fun_eq_iff split: option.split)

lemma cache_ok_base: "cache_ok vinv contents c \<Longrightarrow> vinv (base c)"
  by (simp add: cache_ok_def)

lemma tip_Flush:
  assumes "cache_ok tip_ok tip_contents view"
  shows "\<exists>w. Flush (cache_BatchWrite usage) (SetBestBlock h view) = Some (True, w) \<and> tip_ok (base w) \<and>
    tip_contents (base w) = cache_contents tip_contents view"
  using tip.Flush_spec [of "SetBestBlock h view" usage] assms SetBestBlock_ok cache_ok_base by metis

lemma undo_of_block:
  assumes "IsCoinBase cb" "\<forall>tx \<in> set txs. \<not> IsCoinBase tx" "length uss = length (cb # txs)"
  shows "map2 undo_of (cb # txs) uss = None # map Some (tl uss)"
proof -
  have "map2 undo_of txs us = map Some us" if "length us = length txs" "\<forall>tx \<in> set txs. \<not> IsCoinBase tx" for us
    using that by (induction us txs rule: list_induct2) (auto simp: undo_of_def)
  then show ?thesis using assms by (cases uss) (auto simp: undo_of_def)
qed

text \<open>C13: flushing the cache a block was worked on writes it all to the cache of the chain's tip and
  loses nothing: the call succeeds, the tip (and through it the view) then stands for the map of
  unspent coins that the flushed cache stood for, the flushed cache is empty and its invariant
  (fresh entries unknown below, clean entries equal to what is below) holds again, also for the tip.
\<close>

theorem Flush_refines:
  assumes "cache_ok tip_ok tip_contents view"
  shows "\<exists>view'. Flush (cache_BatchWrite usage) view = Some (True, view') \<and> cache_ok tip_ok tip_contents view' \<and>
    tip_ok (base view') \<and> tip_contents (base view') = cache_contents tip_contents view \<and>
    cache_contents tip_contents view' = cache_contents tip_contents view \<and> cacheCoins view' = []"
  using tip.Flush_spec [OF assms, of usage] cache_ok_base by metis

text \<open>C5: a block can be disconnected.  When the transactions of a block (a coinbase first) have been
  applied to a cache on the chain's tip and flushed, \<open>DisconnectBlock\<close> with the undo records they
  gave succeeds on a new cache, finds nothing unclean, and flushing it gives the tip exactly the map
  of unspent coins it had before, with the best block set to the previous one.  The transactions'
  ids must be new to the tip and distinct, and no output may have the value -1 that marks a spent
  one; a transaction has fewer than 2^32 outputs.
\<close>

theorem disconnect_undoes_connect:
  assumes ok: "tip_ok tip" and wf: "contents_wf (tip_contents tip)"
    and cb: "IsCoinBase cb" "\<forall>tx \<in> set txs. \<not> IsCoinBase tx"
    and outs: "\<forall>tx \<in> set (cb # txs). \<forall>out \<in> set (vout tx). nValue out \<noteq> - 1"
      "\<forall>tx \<in> set (cb # txs). length (vout tx) < 2 ^ 32" "0 < h" "h < 2 ^ 31"
    and ids: "distinct (map tx_hash (cb # txs))" "\<forall>tx \<in> set (cb # txs). tip_contents tip (tx_hash tx) = None"
    and connect: "connect_loop (tip_GetCoins usage) usage h (cb # txs) (cache_on tip) = Some (uss, view)"
    and flush: "Flush (cache_BatchWrite usage) (SetBestBlock hashBlk view) = Some (True, view')"
  shows "\<exists>v v'. DisconnectBlock (tip_GetCoins usage) usage (cb # txs) (tl uss) h hashPrev (cache_on (base view'))
       = Inr (True, v) \<and> hashBlock v = hashPrev \<and> Flush (cache_BatchWrite usage) v = Some (True, v') \<and>
     tip_ok (base v') \<and> tip_contents (base v') = tip_contents tip"
proof -
  have fw: "\<forall>tx \<in> set (cb # txs). coins_wf (FromTx tx h)" using outs FromTx_wf by blast
  have new: "\<forall>tx \<in> set (cb # txs). cache_contents tip_contents (cache_on tip) (tx_hash tx) = None \<and>
      tip_contents (base (cache_on tip)) (tx_hash tx) = None" using ids(2) by simp
  note c = tip.connect_undo [OF new_cache_ok [where vinv = tip_ok and contents = tip_contents, OF ok] _ connect fw ids(1) new,
      unfolded new_cache_contents, OF wf]
  from c have len: "length uss = length (cb # txs)" and vok: "cache_ok tip_ok tip_contents view" by blast+
  obtain w where w: "Flush (cache_BatchWrite usage) (SetBestBlock hashBlk view) = Some (True, w)" "tip_ok (base w)"
    "tip_contents (base w) = cache_contents tip_contents view"
    using tip_Flush [OF vok] by blast
  let ?v = "cache_on (base view')"
  have v: "cache_ok tip_ok tip_contents ?v" "cache_contents tip_contents ?v = cache_contents tip_contents view"
    using w flush by (auto intro: new_cache_ok [where vinv = tip_ok])
  with c obtain v' where v': "disconnect_loop (tip_GetCoins usage) usage h (rev (zip (cb # txs) (map2 undo_of (cb # txs) uss))) (True, ?v) = Inr (True, v')"
    "cache_ok tip_ok tip_contents v'" "cache_contents tip_contents v' = tip_contents tip" by blast
  have "length (tl uss) + 1 = length (cb # txs)" using len by simp
  then have D: "DisconnectBlock (tip_GetCoins usage) usage (cb # txs) (tl uss) h hashPrev ?v = Inr (True, SetBestBlock hashPrev v')"
    unfolding DisconnectBlock_def using v'(1) undo_of_block [OF cb len] by simp
  obtain x where "Flush (cache_BatchWrite usage) (SetBestBlock hashPrev v') = Some (True, x)" "tip_ok (base x)"
    "tip_contents (base x) = cache_contents tip_contents v'"
    using tip_Flush [OF v'(2)] by blast
  moreover have "hashBlock (SetBestBlock hashPrev v') = hashPrev" by (simp add: SetBestBlock_def)
  ultimately show ?thesis using D v'(3) by metis
qed

definition sample_out :: "CAmount \<Rightarrow> CTxOut" where
  "sample_out v = \<lparr>nValue = v, scriptPubKey = [0x51], nRounds = 0\<rparr>"

definition sample_id :: "u8 \<Rightarrow> uint256" where
  "sample_id i = i # replicate 31 0"

definition sample_tx :: "u8 \<Rightarrow> COutPoint \<Rightarrow> CAmount list \<Rightarrow> CTransaction" where
  "sample_tx i p outs = \<lparr>tx_nVersion = 1,
     vin = [\<lparr>prevout = p, scriptSig = [], nSequence = SEQUENCE_FINAL, prevPubKey = []\<rparr>],
     vout = map sample_out outs, nLockTime = 0, tx_hash = sample_id i\<rparr>"

definition sample_coins :: CCoins where
  "sample_coins = \<lparr>fCoinBase = True, c_vout = [sample_out 50], c_nHeight = 1, c_nVersion = 1\<rparr>"

definition sample_tip :: "CCoinsViewDB CCoinsViewCache" where
  \<comment> \<open>one coinbase of height 1 with one output, in the database\<close>
  "sample_tip = cache_on \<lparr>db_coins = (\<lambda>k. if k = sample_id 1 then Some sample_coins else None), db_best = Some (sample_id 7)\<rparr>"

definition sample_cb :: CTransaction where
  "sample_cb = sample_tx 10 outpoint_null [50]"

definition sample_txs :: "CTransaction list" where
  "sample_txs = [sample_tx 11 (COutPoint (sample_id 1) 0) [20, 30], sample_tx 12 (COutPoint (sample_id 11) 1) [30]]"

lemma sample_tip_contents: "tip_contents sample_tip k = (if k = sample_id 1 then Some sample_coins else None)"
  by (simp add: sample_tip_def cache_on_def cache_contents_def db_contents_def abs_coins_def IsPruned_def
      sample_coins_def sample_out_def txout_IsNull_def)

lemma sample_tip_ok: "tip_ok sample_tip" "contents_wf (tip_contents sample_tip)"
  by (simp add: sample_tip_def cache_on_def cache_ok_def)
    (auto simp: contents_wf_def sample_tip_contents coins_wf_def IsPruned_def
      sample_coins_def sample_out_def txout_IsNull_def)

lemma sample_connects:
  "connect_loop (tip_GetCoins (\<lambda>_. 0)) (\<lambda>_. 0) 2 (sample_cb # sample_txs) (cache_on sample_tip) \<noteq> None"
proof -
  have "(case connect_loop (tip_GetCoins (\<lambda>_. 0)) (\<lambda>_. 0) 2 (sample_cb # sample_txs) (cache_on sample_tip) of
    None \<Rightarrow> False | Some _ \<Rightarrow> True)" by code_simp
  then show ?thesis by (auto split: option.splits)
qed

definition sample_view :: "CCoinsViewDB CCoinsViewCache CCoinsViewCache" where
  \<comment> \<open>a new entry, not yet known to the tip\<close>
  "sample_view = (cache_on sample_tip)\<lparr>cacheCoins := [(sample_id 10, \<lparr>coins = sample_coins, flags = DIRTY OR FRESH\<rparr>)]\<rparr>"

lemma sample_view_ok: "cache_ok tip_ok tip_contents sample_view"
  using sample_tip_ok(1)
  by (simp add: sample_view_def cache_ok_def cache_on_def entry_ok_def is_dirty_def sample_tip_contents sample_id_def)

lemma Flush_refines_witness:
  "\<exists>view'. Flush (cache_BatchWrite (\<lambda>_. 0)) sample_view = Some (True, view') \<and>
     tip_contents (base view') (sample_id 10) = Some sample_coins \<and>
     tip_contents (base view') (sample_id 1) = Some sample_coins"
proof -
  have "sample_id 1 \<noteq> sample_id 10" "abs_coins sample_coins = Some sample_coins" by code_simp+
  then have "cache_contents tip_contents sample_view (sample_id 10) = Some sample_coins"
    "cache_contents tip_contents sample_view (sample_id 1) = Some sample_coins"
    unfolding cache_contents_def [of tip_contents]
    by (simp_all add: sample_view_def cache_on_def sample_tip_contents)
  then show ?thesis using Flush_refines [OF sample_view_ok, of "\<lambda>_. 0"] by force
qed

lemma disconnect_undoes_connect_witness:
  "\<exists>uss view view' v v'. connect_loop (tip_GetCoins (\<lambda>_. 0)) (\<lambda>_. 0) 2 (sample_cb # sample_txs) (cache_on sample_tip) = Some (uss, view) \<and>
     Flush (cache_BatchWrite (\<lambda>_. 0)) (SetBestBlock (sample_id 8) view) = Some (True, view') \<and>
     DisconnectBlock (tip_GetCoins (\<lambda>_. 0)) (\<lambda>_. 0) (sample_cb # sample_txs) (tl uss) 2 (sample_id 7) (cache_on (base view')) = Inr (True, v) \<and>
     Flush (cache_BatchWrite (\<lambda>_. 0)) v = Some (True, v') \<and> tip_contents (base v') = tip_contents sample_tip"
proof -
  have cb: "IsCoinBase sample_cb" "\<forall>tx \<in> set sample_txs. \<not> IsCoinBase tx" by code_simp+
  have outs: "\<forall>tx \<in> set (sample_cb # sample_txs). \<forall>out \<in> set (vout tx). nValue out \<noteq> - 1" by code_simp
  have few: "\<forall>tx \<in> set (sample_cb # sample_txs). length (vout tx) < 2 ^ 32"
    by (simp add: sample_cb_def sample_txs_def sample_tx_def)
  have ids: "distinct (map tx_hash (sample_cb # sample_txs))" by code_simp
  have new: "\<forall>tx \<in> set (sample_cb # sample_txs). tip_contents sample_tip (tx_hash tx) = None"
    by (simp add: sample_tip_contents sample_cb_def sample_txs_def sample_tx_def sample_id_def)
  obtain uss view where c: "connect_loop (tip_GetCoins (\<lambda>_. 0)) (\<lambda>_. 0) 2 (sample_cb # sample_txs) (cache_on sample_tip) = Some (uss, view)"
    using sample_connects by auto
  have "cache_ok tip_ok tip_contents view"
    using tip.connect_undo [OF new_cache_ok [where vinv = tip_ok and contents = tip_contents, OF sample_tip_ok(1)] _ c _ ids,
        unfolded new_cache_contents, OF sample_tip_ok(2)] new outs few FromTx_wf [of _ 2] by simp
  then obtain view' where f: "Flush (cache_BatchWrite (\<lambda>_. 0)) (SetBestBlock (sample_id 8) view) = Some (True, view')"
    using tip_Flush by blast
  have h: "(0::int) < 2" "(2::int) < 2 ^ 31" by simp_all
  show ?thesis
    using disconnect_undoes_connect [OF sample_tip_ok cb outs few h ids new c f, of "sample_id 7"] c f by blast
qed

end
