(* ===== verification/ScriptNum.thy ===== *)
theory ScriptNum
  imports Serialize
begin

text \<open>
  The numbers of scripts, \<open>CScriptNum\<close> of script/script.h: little-endian sign-magnitude byte
  vectors read into an \<open>int64_t\<close>.  A number is an \<open>int\<close>; the assertions of the operators are
  options, and the exception of the constructor is \<open>None\<close>.
\<close>

section \<open>Reading and writing\<close>

type_synonym CScriptNum = int

definition nDefaultMaxNumSize :: nat where "nDefaultMaxNumSize = 4"

definition set_vch_loop :: "bytes \<Rightarrow> u64" where
  "set_vch_loop vch = foldl (\<lambda>result i. result OR push_bit (8 * i) (ucast (vch ! i))) 0 [0..<length vch]"

definition set_vch :: "bytes \<Rightarrow> int" where
  "set_vch vch =
     (if vch = [] then 0
      else let result = set_vch_loop vch
           in if last vch AND 0x80 \<noteq> 0
              then - sint (result AND NOT (push_bit (8 * (length vch - 1)) 0x80))
              else sint result)"

definition minimally_encoded :: "bytes \<Rightarrow> bool" where
  \<comment> \<open>the test of the constructor on a non-empty vector\<close>
  "minimally_encoded vch \<longleftrightarrow>
     \<not> (last vch AND 0x7f = 0 \<and> (length vch \<le> 1 \<or> vch ! (length vch - 2) AND 0x80 = 0))"

definition CScriptNum_of :: "bytes \<Rightarrow> bool \<Rightarrow> nat \<Rightarrow> CScriptNum option" where
  "CScriptNum_of vch fRequireMinimal nMaxNumSize =
     (if length vch > nMaxNumSize then None
      else if fRequireMinimal \<and> length vch > 0 \<and> \<not> minimally_encoded vch then None
      else Some (set_vch vch))"

function ser_abs :: "u64 \<Rightarrow> bytes" where
  "ser_abs absvalue = (if absvalue = 0 then [] else ucast (absvalue AND 0xff) # ser_abs (drop_bit 8 absvalue))"
  by pat_completeness auto
termination
proof (relation "measure unat")
  fix x :: u64
  assume "x \<noteq> 0"
  then have "unat x div 2 ^ 8 < unat x" by (intro div_less_dividend) (auto simp: unat_gt_0)
  moreover have "unat (drop_bit 8 x) = unat x div 2 ^ 8" unfolding unat_drop_bit_eq by (rule drop_bit_eq_div)
  ultimately show "(drop_bit 8 x, x) \<in> measure unat" by (simp only: in_measure)
qed simp

declare ser_abs.simps [simp del]

definition scriptnum_serialize :: "CScriptNum \<Rightarrow> bytes" where
  "scriptnum_serialize v =
     (if v = 0 then []
      else let neg = v < 0;
               absvalue = word_of_int (if neg then - v else v);
               result = ser_abs absvalue
           in if last result AND 0x80 \<noteq> 0 then result @ [if neg then 0x80 else 0]
              else if neg then butlast result @ [last result OR 0x80] else result)"

definition getint :: "CScriptNum \<Rightarrow> int" where
  "getint m = (if m > 2 ^ 31 - 1 then 2 ^ 31 - 1 else if m < - (2 ^ 31) then - (2 ^ 31) else m)"

section \<open>Operators\<close>

definition num_neg :: "CScriptNum \<Rightarrow> CScriptNum option" where
  "num_neg m = (if m = - (2 ^ 63) then None else Some (- m))"

definition num_plus_assign :: "CScriptNum \<Rightarrow> int \<Rightarrow> CScriptNum option" where
  "num_plus_assign m rhs =
     (if rhs = 0 \<or> (rhs > 0 \<and> m \<le> 2 ^ 63 - 1 - rhs) \<or> (rhs < 0 \<and> m \<ge> - (2 ^ 63) - rhs)
      then Some (m + rhs) else None)"

definition num_minus_assign :: "CScriptNum \<Rightarrow> int \<Rightarrow> CScriptNum option" where
  "num_minus_assign m rhs =
     (if rhs = 0 \<or> (rhs > 0 \<and> m \<ge> - (2 ^ 63) + rhs) \<or> (rhs < 0 \<and> m \<le> 2 ^ 63 - 1 + rhs)
      then Some (m - rhs) else None)"

definition num_and :: "CScriptNum \<Rightarrow> int \<Rightarrow> CScriptNum" where
  "num_and m rhs = m AND rhs"

section \<open>Bits of a little-endian number\<close>

declare bit_numeral_word_iff [simp del]

lemma bit_0xff: "bit (0xff :: u64) n \<longleftrightarrow> n < 8"
  using bit_mask_iff [where 'a = u64, of 8 n] by (auto simp: mask_eq_exp_minus_1)

lemma bit_le_read:
  "bit (le_read bs :: 'a::len word) i \<longleftrightarrow> i < LENGTH('a) \<and> i < 8 * length bs \<and> bit (bs ! (i div 8)) (i mod 8)"
proof (induction bs arbitrary: i)
  case (Cons b bs)
  show ?case
  proof (cases "i < 8")
    case True
    then show ?thesis by (auto simp: bit_simps dest: bit_imp_le_length)
  next
    case False
    then obtain j where j: "i = j + 8" using le_Suc_ex [of 8 i] by (auto simp: add.commute)
    have "\<not> bit b (j + 8)" using bit_imp_le_length [of b "j + 8"] by auto
    moreover have d: "(j + 8) div 8 = Suc (j div 8)" by simp
    moreover have "(b # bs) ! ((j + 8) div 8) = bs ! (j div 8)" "(j + 8) mod 8 = j mod 8" unfolding d by simp_all
    moreover have "bit (ucast b OR push_bit 8 (le_read bs) :: 'a word) (j + 8) \<longleftrightarrow>
        j + 8 < LENGTH('a) \<and> bit (le_read bs :: 'a word) j" using calculation(1) by (auto simp: bit_simps)
    ultimately show ?thesis using Cons.IH [of j] unfolding j by auto
  qed
qed simp

lemma foldl_or_bit:
  "bit (foldl (\<lambda>r i. r OR f i) a xs) k \<longleftrightarrow> bit a k \<or> (\<exists>i \<in> set xs. bit (f i) k)" for a :: "'a::len word"
  by (induction xs arbitrary: a) (auto simp only: foldl.simps bit_or_iff list.set)

lemma byte_bit_index:
  fixes b :: u8
  assumes "8 * j \<le> i" "bit b (i - 8 * j)"
  shows "j = i div 8 \<and> i - 8 * j = i mod 8"
proof -
  have "i - 8 * j < 8" using bit_imp_le_length [OF assms(2)] by simp
  then have "i div 8 = j" using assms(1) by (intro div_nat_eqI) simp_all
  then show ?thesis by (metis minus_mult_div_eq_mod)
qed

lemma set_vch_loop_le_read: "set_vch_loop vch = le_read vch"
proof (rule bit_word_eqI)
  fix i
  assume i: "i < LENGTH(64)"
  have b: "bit (push_bit (8 * j) (ucast (vch ! j)) :: u64) i \<longleftrightarrow> 8 * j \<le> i \<and> bit (vch ! j) (i - 8 * j)" for j
    using i by (simp add: bit_push_bit_iff bit_ucast_iff) linarith
  have "bit (set_vch_loop vch) i \<longleftrightarrow> (\<exists>j < length vch. 8 * j \<le> i \<and> bit (vch ! j) (i - 8 * j))"
    unfolding set_vch_loop_def foldl_or_bit b by auto
  also have "\<dots> \<longleftrightarrow> i div 8 < length vch \<and> bit (vch ! (i div 8)) (i mod 8)"
    using byte_bit_index [of _ i] by (metis minus_mod_eq_mult_div [symmetric] minus_mult_div_eq_mod times_div_less_eq_dividend)
  also have "i div 8 < length vch \<longleftrightarrow> i < 8 * length vch" by (simp add: less_mult_imp_div_less mult.commute div_less_iff_less_mult)
  finally show "bit (set_vch_loop vch) i = bit (le_read vch :: u64) i" using i by (simp add: bit_le_read)
qed

lemma le_read_ser_abs: "le_read (ser_abs x) = x"
proof (induction x rule: ser_abs.induct)
  case (1 x)
  show ?case
  proof (cases "x = 0")
    case True
    then show ?thesis by (subst ser_abs.simps) simp
  next
    case False
    have "(ucast (ucast (x AND 0xff) :: u8) :: u64) OR push_bit 8 (drop_bit 8 x) = x"
    proof (rule bit_word_eqI)
      fix n
      assume "n < LENGTH(64)"
      then show "bit ((ucast (ucast (x AND 0xff) :: u8) :: u64) OR push_bit 8 (drop_bit 8 x)) n = bit x n"
        by (cases "8 \<le> n") (auto simp: bit_simps bit_0xff)
    qed
    then show ?thesis using 1 False by (subst ser_abs.simps) simp
  qed
qed

lemma ser_abs_last: "x \<noteq> 0 \<Longrightarrow> ser_abs x \<noteq> [] \<and> last (ser_abs x) \<noteq> 0"
proof (induction x rule: ser_abs.induct)
  case (1 x)
  show ?case
  proof (cases "drop_bit 8 x = 0")
    case True
    have "x AND 0xff = x"
    proof (rule bit_word_eqI)
      fix n
      assume "n < LENGTH(64)"
            have "bit x n \<Longrightarrow> n < 8"
        using arg_cong [OF True, of "\<lambda>y. bit y (n - 8)"] by (cases "8 \<le> n") (auto simp: bit_simps)
      then show "bit (x AND 0xff) n = bit x n" by (auto simp: bit_simps bit_0xff)
    qed
    moreover have "ucast x \<noteq> (0 :: u8)"
    proof
      assume "ucast x = (0 :: u8)"
      then have "\<not> bit (ucast x :: u8) n" for n by simp
      then have "bit x n = False" if "n < 8" for n using that by (simp add: bit_ucast_iff)
      moreover have "bit x n = False" if "\<not> n < 8" for n
        using arg_cong [OF True, of "\<lambda>y. bit y (n - 8)"] that by (auto simp: bit_simps)
      ultimately have "x = 0" by (intro bit_word_eqI) auto
      then show False using 1 by simp
    qed
    ultimately show ?thesis using 1 True by (subst (1 2) ser_abs.simps) (simp add: ser_abs.simps [of 0])
  next
    case False
    then show ?thesis using 1 by (subst (1 2) ser_abs.simps) simp
  qed
qed

lemma ser_abs_le_read:
  "length bs \<le> 8 \<Longrightarrow> (bs \<noteq> [] \<Longrightarrow> last bs \<noteq> 0) \<Longrightarrow> ser_abs (le_read bs) = bs"
proof (induction bs)
  case (Cons b bs)
  have w: "le_write (Suc (length bs)) (le_read (b # bs) :: u64) = b # bs"
    using le_write_le_read [of "b # bs", where 'a = 64] Cons.prems(1) by simp
  then have hd: "ucast (le_read (b # bs) :: u64) = b" and
    tl: "le_write (length bs) (drop_bit 8 (le_read (b # bs)) :: u64) = bs" by (simp_all add: le_write_Suc)
  have lt: "bit (le_read bs :: u64) i \<Longrightarrow> i < 8 * length bs" for i by (simp add: bit_le_read)
  have d: "drop_bit 8 (le_read (b # bs)) = (le_read bs :: u64)"
  proof (rule bit_word_eqI)
    fix i
    have "i + 8 < 64" if "bit (le_read bs :: u64) i" using lt [OF that] Cons.prems(1) by simp
    moreover have e: "(i + 8) div 8 = Suc (i div 8)" by simp
    moreover have "(b # bs) ! ((i + 8) div 8) = bs ! (i div 8)" unfolding e by simp
    moreover have "(i + 8) mod 8 = i mod 8" by simp
    ultimately show "bit (drop_bit 8 (le_read (b # bs)) :: u64) i = bit (le_read bs :: u64) i"
      by (auto simp: bit_drop_bit_eq bit_le_read add.commute simp del: le_read.simps)
  qed
  have "le_read (b # bs) \<noteq> (0 :: u64)"
  proof
    assume "le_read (b # bs) = (0 :: u64)"
    then have "b # bs = le_write (Suc (length bs)) (0 :: u64)" using w by simp
    then have "last (b # bs) = 0" by (simp add: le_write_def last_map)
    then show False using Cons.prems(2) by simp
  qed
  moreover have "ser_abs (le_read bs) = bs" using Cons.IH Cons.prems by (cases bs) auto
  moreover have "ucast (le_read (b # bs) AND 0xff :: u64) = b"
  proof -
        have "ucast (le_read (b # bs) AND 0xff :: u64) = (ucast (le_read (b # bs) :: u64) :: u8)"
      by (intro bit_word_eqI) (simp add: bit_ucast_iff bit_and_iff bit_0xff del: le_read.simps)
    then show ?thesis using hd by simp
  qed
  ultimately show ?case using d by (subst ser_abs.simps) (simp del: le_read.simps)
qed (simp add: ser_abs.simps)

section \<open>Sign and magnitude\<close>

lemma byte_and_80: "b AND 0x80 \<noteq> 0 \<longleftrightarrow> bit b 7" for b :: u8
  using bit_iff_and_push_bit_not_eq_0 [of b 7] by simp

lemma bit_0x80: "bit (0x80 :: u8) n \<longleftrightarrow> n = 7"
  using bit_push_bit_iff [where 'a = u8, of 7 1 n] by (auto simp: bit_1_iff)

lemma bit_0x7f: "bit (0x7f :: u8) n \<longleftrightarrow> n < 7"
  using bit_mask_iff [where 'a = u8, of 7 n] by (auto simp: mask_eq_exp_minus_1)

lemma byte_split:
  fixes b :: u8
  shows "bit b 7 \<Longrightarrow> (b AND 0x7f) OR 0x80 = b" "\<not> bit b 7 \<Longrightarrow> b AND 0x7f = b"
    "b AND 0x7f = 0 \<Longrightarrow> b = (if bit b 7 then 0x80 else 0)"
proof -
  have n: "bit b i \<Longrightarrow> i < 7 \<or> i = 7" for i by (drule bit_imp_le_length) auto
  have "bit ((b AND 0x7f) OR 0x80) i = bit b i" if "bit b 7" for i
    using n [of i] that by (auto simp: bit_and_iff bit_or_iff bit_0x80 bit_0x7f)
  then show "bit b 7 \<Longrightarrow> (b AND 0x7f) OR 0x80 = b" by (intro bit_eqI) blast
  have "bit (b AND 0x7f) i = bit b i" if "\<not> bit b 7" for i
    using n [of i] that by (auto simp: bit_and_iff bit_or_iff bit_0x80 bit_0x7f)
  then show "\<not> bit b 7 \<Longrightarrow> b AND 0x7f = b" by (intro bit_eqI) blast
  assume a: "b AND 0x7f = 0"
  have "\<not> bit b i" if "i < 7" for i using that arg_cong [OF a, of "\<lambda>x. bit x i"] by (simp add: bit_and_iff bit_0x7f)
  then have "bit b i \<longleftrightarrow> i = 7 \<and> bit b 7" for i using n [of i] by blast
  then have "bit b i = bit (if bit b 7 then 0x80 else 0 :: u8) i" for i by (cases "bit b 7") (simp_all add: bit_0x80)
  then show "b = (if bit b 7 then 0x80 else 0)" by (intro bit_eqI) blast
qed

lemma le_read_snoc_bit:
  "length bs < 8 \<Longrightarrow> bit (le_read (bs @ [b]) :: u64) i \<longleftrightarrow>
    (if i < 8 * length bs then bit (le_read bs :: u64) i else bit b (i - 8 * length bs))"
proof -
  assume l: "length bs < 8"
  have u: "i - 8 * length bs < 8" if "bit b (i - 8 * length bs)" using bit_imp_le_length [OF that] by simp
  show ?thesis
  proof (cases "i < 8 * length bs")
    case True
    then have "i div 8 < length bs" by (simp add: less_mult_imp_div_less mult.commute)
    then show ?thesis using True l by (auto simp: bit_le_read nth_append)
  next
    case False
    show ?thesis
    proof (cases "i < 8 * Suc (length bs)")
      case True
      then have d: "i div 8 = length bs" using False by (intro div_nat_eqI) simp_all
      then have "i mod 8 = i - 8 * length bs" by (metis minus_mult_div_eq_mod)
      then show ?thesis using False True l d by (auto simp: bit_le_read nth_append)
    next
      case F: False
      then show ?thesis using False u by (auto simp: bit_le_read)
    qed
  qed
qed

lemma uint_less_exp: "(\<And>i. n \<le> i \<Longrightarrow> \<not> bit (x :: u64) i) \<Longrightarrow> uint x < 2 ^ n"
proof -
  assume a: "\<And>i. n \<le> i \<Longrightarrow> \<not> bit x i"
  then have "take_bit n x = x" by (intro bit_eqI) (metis bit_take_bit_iff not_le)
  then have "take_bit n (uint x) = uint x" by (metis unsigned_take_bit_eq)
  then show ?thesis by (metis take_bit_int_less_exp)
qed

lemma exp_le_uint: "bit (x :: u64) n \<Longrightarrow> 2 ^ n \<le> uint x"
proof (rule ccontr)
  assume b: "bit x n" "\<not> 2 ^ n \<le> uint x"
  then have "take_bit n (uint x) = uint x" by (intro take_bit_int_eq_self) auto
  then have "\<not> bit (uint x) n" by (metis bit_take_bit_iff less_irrefl)
  then show False using b(1) bit_imp_le_length [OF b(1)] by (simp add: bit_uint_iff)
qed

lemma le_read_bound: "uint (le_read bs :: u64) < 2 ^ (8 * length bs)"
  by (rule uint_less_exp) (simp add: bit_le_read)

lemma set_vch_snoc:
  assumes l: "length bs < 8"
  shows "set_vch (bs @ [b]) = (if bit b 7 then - 1 else 1) * uint (le_read (bs @ [b AND 0x7f]) :: u64) \<and>
    uint (le_read (bs @ [b AND 0x7f]) :: u64) < 2 ^ (8 * length bs + 7)"
proof -
  let ?m = "le_read (bs @ [b AND 0x7f]) :: u64"
  have bm: "uint ?m < 2 ^ (8 * length bs + 7)"
  proof (rule uint_less_exp)
    fix i
    assume "8 * length bs + 7 \<le> i"
    then have "\<not> i < 8 * length bs" "\<not> i - 8 * length bs < 7" by linarith+
    then show "\<not> bit ?m i" using l by (simp add: le_read_snoc_bit bit_and_iff bit_0x7f)
  qed
  also have "(2 :: int) ^ (8 * length bs + 7) \<le> 2 ^ 63" using l by (intro power_increasing) simp_all
  finally have "uint ?m < 2 ^ 63" .
  then have s: "sint ?m = uint ?m" unfolding sint_uint by (intro signed_take_bit_int_eq_self) (auto intro: order_trans [OF _ uint_ge_0])
  show ?thesis
  proof (cases "bit b 7")
    case True
    have "le_read (bs @ [b]) AND NOT (push_bit (8 * length bs) 0x80) = ?m"
    proof (rule bit_word_eqI)
      fix i
      assume i: "i < LENGTH(64)"
      have "bit (0x80 :: u64) j \<longleftrightarrow> j = 7" for j
        using bit_push_bit_iff [where 'a = u64, of 7 1 j] by (auto simp: bit_1_iff)
      then have p: "bit (push_bit (8 * length bs) (0x80 :: u64)) i \<longleftrightarrow> 8 * length bs \<le> i \<and> i - 8 * length bs = 7"
        using i by (simp add: bit_push_bit_iff)
      have "j < 7 \<or> j = 7" if "bit b j" for j using bit_imp_le_length [OF that] by auto
      then show "bit (le_read (bs @ [b]) AND NOT (push_bit (8 * length bs) 0x80) :: u64) i = bit ?m i"
        using l i p by (auto simp: le_read_snoc_bit bit_and_iff bit_not_iff bit_0x7f)
    qed
    then show ?thesis using True bm s by (simp add: set_vch_def set_vch_loop_le_read byte_and_80)
  next
    case False
    then show ?thesis using bm s by (simp add: set_vch_def set_vch_loop_le_read byte_and_80 byte_split(2))
  qed
qed

lemma ser_abs_length: "uint x < 2 ^ (8 * n) \<Longrightarrow> length (ser_abs x) \<le> n"
proof (induction n arbitrary: x)
  case 0
  then have "uint x < 1" by simp
  then have "uint x = 0" using uint_ge_0 [of x] by linarith
  then have "x = 0" by (simp add: word_uint_eq_iff)
  then show ?case by (simp add: ser_abs.simps)
next
  case (Suc n)
  have "uint (drop_bit 8 x) = uint x div 2 ^ 8" by (simp add: drop_bit_eq_div uint_div_distrib)
  moreover have "(2 :: int) ^ (8 * Suc n) = 2 ^ (8 * n) * 2 ^ 8" by (simp add: power_add)
  then have "uint x < 2 ^ (8 * n) * 2 ^ 8" using Suc.prems by (simp only:)
  then have "uint x div 2 ^ 8 < 2 ^ (8 * n)" by (simp add: div_less_iff_less_mult)
  ultimately have "length (ser_abs (drop_bit 8 x)) \<le> n" using Suc.IH by simp
  then show ?case by (subst ser_abs.simps) simp
qed

section \<open>The encoding of a number\<close>

definition signed_num :: "bool \<Rightarrow> u64 \<Rightarrow> int" where
  "signed_num neg m = (if neg then - uint m else uint m)"

lemma set_vch_signed: "length bs < 8 \<Longrightarrow> set_vch (bs @ [b]) = signed_num (bit b 7) (le_read (bs @ [b AND 0x7f]))"
  using set_vch_snoc [of bs b] by (simp add: signed_num_def)

lemma serialize_signed:
  assumes "m \<noteq> 0" "\<not> bit m 63"
  shows "scriptnum_serialize (signed_num neg m) =
     (let r = ser_abs m in
      if bit (last r) 7 then r @ [if neg then 0x80 else 0]
      else if neg then butlast r @ [last r OR 0x80] else r)"
proof -
  have "uint m \<noteq> 0" using assms(1) by (simp add: word_uint_eq_iff)
  then have "uint m > 0" using uint_ge_0 [of m] by linarith
  then show ?thesis by (auto simp: scriptnum_serialize_def signed_num_def byte_and_80 Let_def)
qed

lemma minimal_serialize:
  \<comment> \<open>a minimal vector is the encoding of its number\<close>
  assumes l: "length bs < 8" and mn: "minimally_encoded (bs @ [b])"
  defines "m \<equiv> le_read (bs @ [b AND 0x7f]) :: u64"
  shows "m \<noteq> 0 \<and> scriptnum_serialize (set_vch (bs @ [b])) = bs @ [b]"
proof -
  have m63: "\<not> bit m 63" using l by (auto simp: m_def le_read_snoc_bit bit_and_iff bit_0x7f dest: bit_imp_le_length)
  show ?thesis
  proof (cases "b AND 0x7f = 0")
    case True
    then have ne: "bs \<noteq> []" and top: "bit (last bs) 7" using mn
      by (auto simp: minimally_encoded_def byte_and_80 nth_append last_conv_nth Suc_le_eq not_less)
    then have nz: "last bs \<noteq> 0" by auto
    have "m = le_read bs"
      using l True by (intro bit_word_eqI) (auto simp: m_def le_read_snoc_bit bit_le_read [of bs])
    then have r: "ser_abs m = bs" using ser_abs_le_read [of bs] l nz by simp
    then have "m \<noteq> 0" using ne by (auto simp: ser_abs.simps)
    then show ?thesis using serialize_signed [OF _ m63] r top byte_split(3) [OF True] set_vch_signed [OF l]
      by (simp add: Let_def m_def)
  next
    case False
    then have r: "ser_abs m = bs @ [b AND 0x7f]" unfolding m_def using l by (intro ser_abs_le_read) simp_all
    then have "m \<noteq> 0" by (auto simp: ser_abs.simps)
    moreover have "\<not> bit (b AND 0x7f) 7" by (simp add: bit_and_iff bit_0x7f)
    ultimately show ?thesis using serialize_signed [OF _ m63] r byte_split [of b] set_vch_signed [OF l]
      by (auto simp add: Let_def m_def)
  qed
qed

lemma serialize_form:
  \<comment> \<open>the encoding of a non-zero number is minimal and decodes to it\<close>
  assumes m: "m \<noteq> 0" "uint m < 2 ^ (8 * k - 1)" and k: "1 \<le> k" "k \<le> 8"
  shows "\<exists>bs b. scriptnum_serialize (signed_num neg m) = bs @ [b] \<and> length bs < k \<and>
    minimally_encoded (bs @ [b]) \<and> set_vch (bs @ [b]) = signed_num neg m"
proof -
  have m63: "\<not> bit m 63"
  proof
    assume "bit m 63"
    then have "2 ^ 63 \<le> uint m" by (rule exp_le_uint)
    moreover have "(2 :: int) ^ (8 * k - 1) \<le> 2 ^ 63" using k by (intro power_increasing) simp_all
    ultimately show False using m(2) by linarith
  qed
  let ?r = "ser_abs m"
  have r: "?r \<noteq> []" "last ?r \<noteq> 0" "le_read ?r = m" using ser_abs_last [OF m(1)] le_read_ser_abs by auto
  have "(2 :: int) ^ (8 * k - 1) \<le> 2 ^ (8 * k)" by (intro power_increasing) simp_all
  then have len: "length ?r \<le> k" using m(2) by (intro ser_abs_length) linarith
  show ?thesis
  proof (cases "bit (last ?r) 7")
    case True
    let ?b = "if neg then 0x80 else 0 :: u8"
    have top: "bit m (8 * length ?r - 1)"
    proof -
      have "(8 * length ?r - 1) div 8 = length ?r - 1" "(8 * length ?r - 1) mod 8 = 7"
        using r(1) by (cases "?r"; simp; presburger)+
      then have "bit (le_read ?r :: u64) (8 * length ?r - 1)" using True r(1) len k
        by (simp add: bit_le_read last_conv_nth)
      then show ?thesis using r(3) by simp
    qed
    have "length ?r < k"
    proof (rule ccontr)
      assume "\<not> length ?r < k"
      then have "length ?r = k" using len by simp
      then show False using exp_le_uint [OF top] m(2) by simp
    qed
    moreover have "minimally_encoded (?r @ [?b])"
      using True r(1) by (auto simp: minimally_encoded_def byte_and_80 nth_append last_conv_nth)
    moreover have "set_vch (?r @ [?b]) = signed_num neg m"
    proof -
      have "bit m i \<Longrightarrow> i < 8 * length ?r" for i using r(3) by (metis bit_le_read)
      then have "le_read (?r @ [0]) = m"
        using calculation(1) k r(3) by (intro bit_word_eqI) (auto simp: le_read_snoc_bit)
      moreover have "?b AND 0x7f = 0" by simp
      moreover have "bit ?b 7 = neg" by (simp add: bit_0x80)
      ultimately show ?thesis using set_vch_signed [of ?r ?b] \<open>length ?r < k\<close> k by simp
    qed
    ultimately show ?thesis using serialize_signed [OF m(1) m63] True by (simp add: Let_def)
  next
    case False
    let ?b = "if neg then last ?r OR 0x80 else last ?r"
    have s: "scriptnum_serialize (signed_num neg m) = butlast ?r @ [?b]"
      using serialize_signed [OF m(1) m63, of neg] False r(1) by (simp add: Let_def)
    have b: "?b AND 0x7f = last ?r" "bit ?b 7 = neg"
    proof -
      have "bit (?b AND 0x7f) i = bit (last ?r) i" for i
        using False bit_imp_le_length [of "last ?r" i] by (cases "i = 7") (auto simp: bit_and_iff bit_or_iff bit_0x80 bit_0x7f)
      then show "?b AND 0x7f = last ?r" by (intro bit_eqI) blast
      show "bit ?b 7 = neg" using False by (simp add: bit_or_iff bit_0x80)
    qed
    have l: "length (butlast ?r) < k" using len r(1) by (cases ?r) auto
    moreover have "minimally_encoded (butlast ?r @ [?b])" using b(1) r(2) by (simp add: minimally_encoded_def)
    moreover have "set_vch (butlast ?r @ [?b]) = signed_num neg m"
      using set_vch_signed [of "butlast ?r" ?b] l k b r by simp
    ultimately show ?thesis using s by metis
  qed
qed

lemma CScriptNum_of_minimal_iff:
  assumes k: "1 \<le> k" "k \<le> 8"
  shows "CScriptNum_of vch True k = Some v \<longleftrightarrow>
    vch = scriptnum_serialize v \<and> - (2 ^ (8 * k - 1)) < v \<and> v < 2 ^ (8 * k - 1)"
proof (cases "v = 0")
  case True
  have "set_vch (bs @ [b]) \<noteq> 0" if "length bs < 8" "minimally_encoded (bs @ [b])" for bs b
    using minimal_serialize [OF that] that(1) by (auto simp: set_vch_signed signed_num_def word_uint_eq_iff)
  then have "set_vch vch \<noteq> 0" if "vch \<noteq> []" "length vch \<le> 8" "minimally_encoded vch"
    using that by (cases vch rule: rev_cases) auto
  then show ?thesis using True k by (auto simp: CScriptNum_of_def scriptnum_serialize_def set_vch_def)
next
  case v: False
  show ?thesis
  proof
    assume c: "CScriptNum_of vch True k = Some v"
    then have vch: "vch \<noteq> []" "length vch \<le> k" "minimally_encoded vch" "v = set_vch vch"
      using v by (auto simp: CScriptNum_of_def set_vch_def split: if_splits)
    then obtain bs b where e: "vch = bs @ [b]" by (cases vch rule: rev_cases) auto
    have l: "length bs < 8" using vch k e by simp
    have "uint (le_read (bs @ [b AND 0x7f]) :: u64) < 2 ^ (8 * length bs + 7)" using set_vch_snoc [OF l] by blast
    also have "(2 :: int) ^ (8 * length bs + 7) \<le> 2 ^ (8 * k - 1)" using vch e k by (intro power_increasing) auto
    finally have "\<bar>signed_num (bit b 7) (le_read (bs @ [b AND 0x7f]))\<bar> < 2 ^ (8 * k - 1)"
      by (simp add: signed_num_def)
    then have "- (2 ^ (8 * k - 1)) < v \<and> v < 2 ^ (8 * k - 1)"
      using vch(4) e set_vch_signed [OF l, of b] by (simp only: abs_less_iff minus_less_iff conj_commute)
    then show "vch = scriptnum_serialize v \<and> - (2 ^ (8 * k - 1)) < v \<and> v < 2 ^ (8 * k - 1)"
      using minimal_serialize [OF l, of b] vch(3,4) e by simp
  next
    assume a: "vch = scriptnum_serialize v \<and> - (2 ^ (8 * k - 1)) < v \<and> v < 2 ^ (8 * k - 1)"
    have "(2 :: int) ^ (8 * k - 1) \<le> 2 ^ 63" using k by (intro power_increasing) simp_all
    then have "\<bar>v\<bar> < 2 ^ 64" using a by auto
    then have um: "uint (word_of_int \<bar>v\<bar> :: u64) = \<bar>v\<bar>" by (simp add: uint_word_of_int_eq take_bit_int_eq_self)
    then have sv: "v = signed_num (v < 0) (word_of_int \<bar>v\<bar>)" unfolding signed_num_def um by simp
    have "word_of_int \<bar>v\<bar> \<noteq> (0 :: u64)" using um v by auto
    moreover have "uint (word_of_int \<bar>v\<bar> :: u64) < 2 ^ (8 * k - 1)" using um a by auto
    ultimately obtain bs b where "scriptnum_serialize v = bs @ [b]" "length bs < k" "minimally_encoded (bs @ [b])"
      "set_vch (bs @ [b]) = v"
      using serialize_form [OF _ _ k, of "word_of_int \<bar>v\<bar>" "v < 0"] sv by metis
    then show "CScriptNum_of vch True k = Some v" using a by (simp add: CScriptNum_of_def)
  qed
qed

text \<open>C23: the minimal encodings of script numbers.  With at most \<open>k\<close> bytes (the code uses 4 and 5),
  the constructor that demands a minimal encoding accepts exactly the vectors \<open>serialize\<close> gives for
  the numbers of magnitude below \<open>2^(8k-1)\<close>, and returns that number: every number has one
  encoding, it is read back, and nothing else is accepted.\<close>

theorem script_number_codec:
  assumes "1 \<le> k" "k \<le> 8"
  shows "CScriptNum_of vch True k = Some v \<longleftrightarrow>
    vch = scriptnum_serialize v \<and> - (2 ^ (8 * k - 1)) < v \<and> v < 2 ^ (8 * k - 1)"
  by (rule CScriptNum_of_minimal_iff [OF assms])

lemma script_number_codec_witness:
  "CScriptNum_of [0xff, 0x80] True 4 = Some (- 255) \<and> CScriptNum_of [0xff, 0] True 4 = Some 255 \<and>
   CScriptNum_of [0x80] True 4 = None \<and> CScriptNum_of [1, 0] True 4 \<noteq> Some 1"
proof -
  have "scriptnum_serialize (- 255) = [0xff, 0x80]" "scriptnum_serialize 255 = [0xff, 0]" "scriptnum_serialize 1 = [1]"
    "CScriptNum_of [0x80] True 4 = None" by code_simp+
  then show ?thesis
    using script_number_codec [of 4 "[0xff, 0x80]" "- 255"] script_number_codec [of 4 "[0xff, 0]" 255]
      script_number_codec [of 4 "[1, 0]" 1] by simp
qed

end
