(* ===== verification/Script.thy ===== *)
theory Script
  imports Opcodes ScriptNum Transaction
begin

text \<open>
  Scripts as byte vectors (\<open>CScript\<close> of script/script.h and script.cpp): building them with
  \<open>operator<<\<close>, reading instructions with \<open>GetOp2\<close>, deleting byte patterns, counting signature
  operations and recognising the standard forms.  An iterator into a script is the suffix of the
  script it points at.
\<close>

section \<open>Building\<close>

definition push_opcode :: "bytes \<Rightarrow> u8 \<Rightarrow> bytes" where
  "push_opcode script opcode = script @ [opcode]"

definition push_data :: "bytes \<Rightarrow> bytes \<Rightarrow> bytes" where
  "push_data script b =
     (let script =
        (if length b < unat OP_PUSHDATA1 then script @ [word_of_nat (length b)]
         else if length b \<le> 0xff then script @ [OP_PUSHDATA1] @ [word_of_nat (length b)]
         else if length b \<le> 0xffff then script @ [OP_PUSHDATA2] @ WriteLE16 (word_of_nat (length b))
         else script @ [OP_PUSHDATA4] @ WriteLE32 (word_of_nat (length b)))
      in script @ b)"

definition push_int64 :: "bytes \<Rightarrow> int \<Rightarrow> bytes" where
  "push_int64 script n =
     (if n = - 1 \<or> (n \<ge> 1 \<and> n \<le> 16) then script @ [word_of_int (n + (uint OP_1 - 1))]
      else if n = 0 then script @ [OP_0]
      else push_data script (scriptnum_serialize n))"

definition push_num :: "bytes \<Rightarrow> CScriptNum \<Rightarrow> bytes" where
  "push_num script b = push_data script (scriptnum_serialize b)"

section \<open>Reading\<close>

definition push_size :: "u8 \<Rightarrow> bytes \<Rightarrow> (nat option) \<times> bytes" where
  \<comment> \<open>the size of the immediate operand; \<open>None\<close> when the length bytes are cut off\<close>
  "push_size opcode pc =
     (if opcode < OP_PUSHDATA1 then (Some (unat opcode), pc)
      else if opcode = OP_PUSHDATA1 then (if length pc < 1 then (None, pc) else (Some (unat (hd pc)), tl pc))
      else if opcode = OP_PUSHDATA2 then (if length pc < 2 then (None, pc) else (Some (unat (ReadLE16 pc)), drop 2 pc))
      else (if length pc < 4 then (None, pc) else (Some (unat (ReadLE32 pc)), drop 4 pc)))"

definition GetOp2 :: "bytes \<Rightarrow> bool \<times> u8 \<times> bytes \<times> bytes" where
  \<comment> \<open>the result, \<open>opcodeRet\<close>, \<open>*pvchRet\<close> and the iterator after the call, which moves also when
    the call fails\<close>
  "GetOp2 pc =
     (case pc of
        [] \<Rightarrow> (False, OP_INVALIDOPCODE, [], [])
      | opcode # pc1 \<Rightarrow>
          if opcode \<le> OP_PUSHDATA4
          then (case push_size opcode pc1 of
                  (None, pc2) \<Rightarrow> (False, OP_INVALIDOPCODE, [], pc2)
                | (Some nSize, pc2) \<Rightarrow>
                    if length pc2 < nSize then (False, OP_INVALIDOPCODE, [], pc2)
                    else (True, opcode, take nSize pc2, drop nSize pc2))
          else (True, opcode, [], pc1))"

lemma push_size_length: "push_size opcode pc = (r, pc') \<Longrightarrow> length pc' \<le> length pc"
  by (auto simp: push_size_def split: if_splits)

lemma GetOp2_Nil [simp]: "GetOp2 [] = (False, OP_INVALIDOPCODE, [], [])"
  by (simp add: GetOp2_def)

lemma GetOp2_progress: "GetOp2 pc = (r, opcode, vch, pc') \<Longrightarrow> pc \<noteq> [] \<Longrightarrow> length pc' < length pc"
  by (auto simp: GetOp2_def split: list.splits if_splits prod.splits option.splits dest: push_size_length)

lemma GetOp2_True: "GetOp2 pc = (True, opcode, vch, pc') \<Longrightarrow> length pc' < length pc"
  using GetOp2_progress [of pc True opcode vch pc'] by (cases pc) (auto simp: GetOp2_def)

lemma GetOp2_fst: "fst (GetOp2 pc) \<Longrightarrow> length (snd (snd (snd (GetOp2 pc)))) < length pc"
  using GetOp2_True [of pc "fst (snd (GetOp2 pc))" "fst (snd (snd (GetOp2 pc)))"] by (cases "GetOp2 pc") auto

lemma GetOp2_snd: "pc \<noteq> [] \<Longrightarrow> length (snd (snd (snd (GetOp2 pc)))) < length pc"
  using GetOp2_progress [of pc] by (cases "GetOp2 pc") auto

definition DecodeOP_N :: "u8 \<Rightarrow> int option" where
  "DecodeOP_N opcode =
     (if opcode = OP_0 then Some 0
      else if opcode \<ge> OP_1 \<and> opcode \<le> OP_16 then Some (uint opcode - (uint OP_1 - 1)) else None)"

definition EncodeOP_N :: "int \<Rightarrow> u8 option" where
  "EncodeOP_N n =
     (if \<not> (n \<ge> 0 \<and> n \<le> 16) then None
      else if n = 0 then Some OP_0 else Some (word_of_int (uint OP_1 + n - 1)))"

section \<open>Deleting and finding\<close>

function skip_matches :: "bytes \<Rightarrow> bytes \<Rightarrow> nat \<Rightarrow> bytes \<times> nat" where
  \<comment> \<open>the inner \<open>while\<close> of \<open>FindAndDelete\<close>; \<open>b\<close> is not empty\<close>
  "skip_matches b pc nFound =
     (if b \<noteq> [] \<and> length pc \<ge> length b \<and> take (length b) pc = b
      then skip_matches b (drop (length b) pc) (nFound + 1) else (pc, nFound))"
  by pat_completeness auto
termination by (relation "measure (\<lambda>(b, pc, n). length pc)") (auto simp flip: length_greater_0_conv)

declare skip_matches.simps [simp del]

lemma skip_matches_length: "length (fst (skip_matches b pc n)) \<le> length pc"
proof (induction b pc n rule: skip_matches.induct)
  case (1 b pc n)
  then show ?case by (subst skip_matches.simps) force
qed

function fad_loop :: "bytes \<Rightarrow> bytes \<Rightarrow> bytes \<Rightarrow> bytes \<Rightarrow> nat \<Rightarrow> bytes \<times> bytes \<times> nat" where
  \<comment> \<open>the \<open>do \<dots> while (GetOp(pc, opcode))\<close> loop; returns \<open>result\<close>, \<open>pc2\<close> and \<open>nFound\<close>\<close>
  "fad_loop b pc pc2 result nFound =
     (let result = result @ take (length pc2 - length pc) pc2;
          s = skip_matches b pc nFound; pc = fst s; nFound = snd s; g = GetOp2 pc
      in if fst g then fad_loop b (snd (snd (snd g))) pc result nFound else (result, pc, nFound))"
  by pat_completeness auto
termination
proof (relation "measure (\<lambda>(b, pc, pc2, result, n). length pc)")
  fix b pc pc2 result and n :: nat and r s pc' n' g
  assume "s = skip_matches b pc n" "pc' = fst s" "g = GetOp2 pc'" "fst g"
  then show "((b, snd (snd (snd g)), pc', r, n'), (b, pc, pc2, result, n)) \<in> measure (\<lambda>(b, pc, pc2, result, n). length pc)"
    using skip_matches_length [of b pc n] GetOp2_fst [of pc'] by simp
qed simp

declare fad_loop.simps [simp del]

definition FindAndDelete :: "bytes \<Rightarrow> bytes \<Rightarrow> bytes \<times> nat" where
  \<comment> \<open>the script afterwards and \<open>nFound\<close>\<close>
  "FindAndDelete script b =
     (if b = [] then (script, 0)
      else case fad_loop b script script [] 0 of (result, pc2, nFound) \<Rightarrow>
        if nFound > 0 then (result @ pc2, nFound) else (script, nFound))"

function find_loop :: "u8 \<Rightarrow> bytes \<Rightarrow> nat \<Rightarrow> nat" where
  "find_loop op pc nFound =
     (let g = GetOp2 pc in
      if pc \<noteq> [] \<and> fst g then find_loop op (snd (snd (snd g))) (if fst (snd g) = op then nFound + 1 else nFound) else nFound)"
  by pat_completeness auto
termination
  by (relation "measure (\<lambda>(op, pc, n). length pc)") (auto simp: GetOp2_fst)

declare find_loop.simps [simp del]

definition Find :: "bytes \<Rightarrow> u8 \<Rightarrow> nat" where
  "Find script op = find_loop op script 0"

section \<open>Signature operations and standard forms\<close>

function sigop_loop :: "bool \<Rightarrow> bytes \<Rightarrow> u8 \<Rightarrow> nat \<Rightarrow> nat" where
  "sigop_loop fAccurate pc lastOpcode n =
     (let g = GetOp2 pc; opcode = fst (snd g) in
      if pc = [] \<or> \<not> fst g then n
      else sigop_loop fAccurate (snd (snd (snd g))) opcode
        (if opcode = OP_CHECKSIG \<or> opcode = OP_CHECKSIGVERIFY then n + 1
         else if opcode = OP_CHECKMULTISIG \<or> opcode = OP_CHECKMULTISIGVERIFY
         then (if fAccurate \<and> lastOpcode \<ge> OP_1 \<and> lastOpcode \<le> OP_16
               then n + nat (the (DecodeOP_N lastOpcode)) else n + nat MAX_PUBKEYS_PER_MULTISIG)
         else n))"
  by pat_completeness auto
termination by (relation "measure (\<lambda>(a, pc, l, n). length pc)") (auto simp: GetOp2_fst)

declare sigop_loop.simps [simp del]

definition GetSigOpCount :: "bytes \<Rightarrow> bool \<Rightarrow> nat" where
  "GetSigOpCount script fAccurate = sigop_loop fAccurate script OP_INVALIDOPCODE 0"

definition IsPayToScriptHash :: "bytes \<Rightarrow> bool" where
  "IsPayToScriptHash script \<longleftrightarrow>
     length script = 23 \<and> script ! 0 = OP_HASH160 \<and> script ! 1 = 0x14 \<and> script ! 22 = OP_EQUAL"

definition IsPayToPublicKeyHash :: "bytes \<Rightarrow> bool" where
  "IsPayToPublicKeyHash script \<longleftrightarrow>
     length script = 25 \<and> script ! 0 = OP_DUP \<and> script ! 1 = OP_HASH160 \<and> script ! 2 = 0x14 \<and>
     script ! 23 = OP_EQUALVERIFY \<and> script ! 24 = OP_CHECKSIG"

function push_only_loop :: "bytes \<Rightarrow> bool" where
  "push_only_loop pc =
     (let g = GetOp2 pc in
      if pc = [] then True
      else if \<not> fst g then False
      else if fst (snd g) > OP_16 then False
      else push_only_loop (snd (snd (snd g))))"
  by pat_completeness auto
termination by (relation "measure length") (auto simp: GetOp2_fst)

declare push_only_loop.simps [simp del]

definition IsPushOnly :: "bytes \<Rightarrow> bool" where
  "IsPushOnly script = push_only_loop script"

function last_push_loop :: "bytes \<Rightarrow> bytes \<Rightarrow> bytes option" where
  \<comment> \<open>the loop over \<open>scriptSig\<close> in \<open>GetSigOpCount(scriptSig)\<close>; \<open>None\<close> is \<open>return 0\<close>\<close>
  "last_push_loop pc data =
     (let g = GetOp2 pc in
      if pc = [] then Some data
      else if \<not> fst g then None
      else if fst (snd g) > OP_16 then None
      else last_push_loop (snd (snd (snd g))) (fst (snd (snd g))))"
  by pat_completeness auto
termination by (relation "measure (\<lambda>(pc, d). length pc)") (auto simp: GetOp2_fst)

declare last_push_loop.simps [simp del]

definition GetSigOpCount_P2SH :: "bytes \<Rightarrow> bytes \<Rightarrow> nat" where
  "GetSigOpCount_P2SH script script_sig =
     (if \<not> IsPayToScriptHash script then GetSigOpCount script True
      else case last_push_loop script_sig [] of
        None \<Rightarrow> 0 | Some subscript \<Rightarrow> GetSigOpCount subscript True)"

function normal_loop :: "bytes \<Rightarrow> nat \<Rightarrow> bool" where
  "normal_loop pc i =
     (if pc = [] then True
      else let g = GetOp2 pc; opcode = fst (snd g) in
        if i = 0 \<and> opcode \<noteq> OP_DUP then False
        else if i = 1 \<and> opcode \<noteq> OP_HASH160 then False
        else if i = 3 \<and> opcode \<noteq> OP_EQUALVERIFY then False
        else if i = 4 \<and> opcode \<noteq> OP_CHECKSIG then False
        else if i = 5 then False
        else normal_loop (snd (snd (snd g))) (i + 1))"
  by pat_completeness auto
termination by (relation "measure (\<lambda>(pc, i). length pc)") (auto simp: GetOp2_snd)

declare normal_loop.simps [simp del]

definition IsNormalPaymentScript :: "bytes \<Rightarrow> bool" where
  "IsNormalPaymentScript script \<longleftrightarrow> (if length script \<noteq> 25 then False else normal_loop script 0)"

section \<open>Instructions\<close>

definition op_ok :: "u8 \<times> bytes \<Rightarrow> bool" where
  \<comment> \<open>an opcode with an operand it can carry\<close>
  "op_ok x \<longleftrightarrow> (case x of (opcode, d) \<Rightarrow>
     if opcode < OP_PUSHDATA1 then length d = unat opcode
     else if opcode = OP_PUSHDATA1 then length d < 2 ^ 8
     else if opcode = OP_PUSHDATA2 then length d < 2 ^ 16
     else if opcode = OP_PUSHDATA4 then length d < 2 ^ 32
     else d = [])"

definition enc_op :: "u8 \<times> bytes \<Rightarrow> bytes" where
  "enc_op x = (case x of (opcode, d) \<Rightarrow>
     opcode # (if opcode = OP_PUSHDATA1 then [word_of_nat (length d)]
       else if opcode = OP_PUSHDATA2 then WriteLE16 (word_of_nat (length d))
       else if opcode = OP_PUSHDATA4 then WriteLE32 (word_of_nat (length d)) else []) @ d)"

definition dec_op :: "(u8 \<times> bytes) reader" where
  "dec_op pc = (case GetOp2 pc of (r, opcode, d, pc') \<Rightarrow> if r then Inr ((opcode, d), pc') else Inl EndOfData)"

lemma length_WriteLE [simp]: "length (WriteLE16 a) = 2" "length (WriteLE32 b) = 4"
  by (simp_all add: WriteLE16_def WriteLE32_def)

lemma ReadLE_append: "length p = 2 \<Longrightarrow> ReadLE16 (p @ r) = ReadLE16 p" "length q = 4 \<Longrightarrow> ReadLE32 (q @ r) = ReadLE32 q"
  by (simp_all add: ReadLE16_def ReadLE32_def)

lemma ReadLE_take: "length pc \<ge> 2 \<Longrightarrow> WriteLE16 (ReadLE16 pc) = take 2 pc"
  "length pc \<ge> 4 \<Longrightarrow> WriteLE32 (ReadLE32 pc) = take 4 pc"
  using le_write_le_read [of "take 2 pc", where 'a = 16] le_write_le_read [of "take 4 pc", where 'a = 32]
  by (simp_all add: ReadLE16_def ReadLE32_def WriteLE16_def WriteLE32_def)

lemma small_byte: "n < 2 ^ 8 \<Longrightarrow> unat (word_of_nat n :: u8) = n" "m < 2 ^ 16 \<Longrightarrow> unat (word_of_nat m :: u16) = m"
  "k < 2 ^ 32 \<Longrightarrow> unat (word_of_nat k :: u32) = k"
  by (simp_all add: unat_of_nat)

lemma op_push_cases:
  fixes opcode :: u8
  obtains "opcode < OP_PUSHDATA1" | "opcode = OP_PUSHDATA1" | "opcode = OP_PUSHDATA2" | "opcode = OP_PUSHDATA4"
    | "opcode > OP_PUSHDATA4"
proof -
  have "unat opcode < 76 \<or> unat opcode = 76 \<or> unat opcode = 77 \<or> unat opcode = 78 \<or> unat opcode > 78" by linarith
  then have "opcode < OP_PUSHDATA1 \<or> opcode = OP_PUSHDATA1 \<or> opcode = OP_PUSHDATA2 \<or> opcode = OP_PUSHDATA4 \<or> opcode > OP_PUSHDATA4"
    by (simp add: word_less_nat_alt word_unat_eq_iff)
  then show thesis using that by blast
qed

lemma op_push_not:
  fixes opcode :: u8
  shows "opcode < OP_PUSHDATA1 \<Longrightarrow> opcode \<le> OP_PUSHDATA4 \<and> opcode \<noteq> OP_PUSHDATA1 \<and> opcode \<noteq> OP_PUSHDATA2 \<and> opcode \<noteq> OP_PUSHDATA4"
    "opcode > OP_PUSHDATA4 \<Longrightarrow> \<not> opcode \<le> OP_PUSHDATA4 \<and> \<not> opcode < OP_PUSHDATA1 \<and> opcode \<noteq> OP_PUSHDATA1 \<and> opcode \<noteq> OP_PUSHDATA2 \<and> opcode \<noteq> OP_PUSHDATA4"
  by (auto simp: word_less_nat_alt word_le_nat_alt)

lemma GetOp2_enc_op:
  assumes "op_ok (opcode, d)"
  shows "GetOp2 (enc_op (opcode, d) @ rest) = (True, opcode, d, rest)"
proof (cases opcode rule: op_push_cases)
  case 1
  then show ?thesis using assms op_push_not(1) [OF 1] by (simp add: op_ok_def enc_op_def GetOp2_def push_size_def)
next
  case 5
  then show ?thesis using assms op_push_not(2) [OF 5] by (simp add: op_ok_def enc_op_def GetOp2_def)
qed (use assms in \<open>simp_all add: op_ok_def enc_op_def GetOp2_def push_size_def ReadLE_append small_byte\<close>)

lemma GetOp2_True_enc:
  assumes "GetOp2 pc = (True, opcode, d, rest)"
  shows "pc = enc_op (opcode, d) @ rest \<and> op_ok (opcode, d)"
proof -
  obtain pc1 where pc: "pc = opcode # pc1"
    using assms by (auto simp: GetOp2_def split: list.splits if_splits prod.splits option.splits)
  show ?thesis
  proof (cases opcode rule: op_push_cases)
    case 1
    then show ?thesis using assms op_push_not(1) [OF 1]
      by (auto simp: pc op_ok_def enc_op_def GetOp2_def push_size_def split: if_splits)
  next
    case 2
    then show ?thesis using assms unat_u8_bound [of "hd pc1"]
      by (auto simp: pc op_ok_def enc_op_def GetOp2_def push_size_def Suc_le_eq split: if_splits)
  next
    case 3
    then have l: "\<not> length pc1 < 2" and d: "d = take (unat (ReadLE16 pc1)) (drop 2 pc1)" "rest = drop (unat (ReadLE16 pc1)) (drop 2 pc1)"
      "unat (ReadLE16 pc1) \<le> length (drop 2 pc1)"
      using assms by (auto simp: pc GetOp2_def push_size_def split: if_splits)
    then have "length d = unat (ReadLE16 pc1)" "pc1 = WriteLE16 (ReadLE16 pc1) @ d @ rest"
      using ReadLE_take(1) [of pc1] by (simp_all del: drop_drop)
    then show ?thesis using 3 unsigned_less [of "ReadLE16 pc1", where 'a = nat] by (simp add: pc op_ok_def enc_op_def)
  next
    case 4
    then have l: "\<not> length pc1 < 4" and d: "d = take (unat (ReadLE32 pc1)) (drop 4 pc1)" "rest = drop (unat (ReadLE32 pc1)) (drop 4 pc1)"
      "unat (ReadLE32 pc1) \<le> length (drop 4 pc1)"
      using assms by (auto simp: pc GetOp2_def push_size_def split: if_splits)
    then have "length d = unat (ReadLE32 pc1)" "pc1 = WriteLE32 (ReadLE32 pc1) @ d @ rest"
      using ReadLE_take(2) [of pc1] by (simp_all del: drop_drop)
    then show ?thesis using 4 unsigned_less [of "ReadLE32 pc1", where 'a = nat] by (simp add: pc op_ok_def enc_op_def)
  next
    case 5
    then show ?thesis using assms op_push_not(2) [OF 5]
      by (auto simp: pc op_ok_def enc_op_def GetOp2_def split: if_splits)
  qed
qed

interpretation op_codec: canonical_codec enc_op dec_op op_ok
proof unfold_locales
  fix x rest
  assume "op_ok x"
  then show "dec_op (enc_op x @ rest) = Inr (x, rest)" by (cases x) (simp add: dec_op_def GetOp2_enc_op)
next
  fix bs x rest
  assume "dec_op bs = Inr (x, rest)"
  then show "bs = enc_op x @ rest \<and> op_ok x"
    using GetOp2_True_enc [of bs] by (cases "GetOp2 bs") (auto simp: dec_op_def split: if_splits)
qed

section \<open>A script as its instructions\<close>

function parse_script :: "bytes \<Rightarrow> (u8 \<times> bytes) list option" where
  \<comment> \<open>the instructions of a script that reads to its end\<close>
  "parse_script pc =
     (let g = GetOp2 pc in
      if pc = [] then Some []
      else if fst g then map_option (Cons (fst (snd g), fst (snd (snd g)))) (parse_script (snd (snd (snd g))))
      else None)"
  by pat_completeness auto
termination by (relation "measure length") (auto simp: GetOp2_fst)

declare parse_script.simps [simp del]

abbreviation enc_ops :: "(u8 \<times> bytes) list \<Rightarrow> bytes" where
  "enc_ops ops \<equiv> concat (map enc_op ops)"

lemma parse_Nil [simp]: "parse_script [] = Some []"
  by (simp add: parse_script.simps)

lemma enc_op_not_Nil [simp]: "enc_op x \<noteq> []" "enc_op x @ r \<noteq> []"
  by (cases x; simp add: enc_op_def)+

lemma GetOp2_enc [simp]: "op_ok x \<Longrightarrow> GetOp2 (enc_op x @ rest) = (True, fst x, snd x, rest)"
  using GetOp2_enc_op [of "fst x" "snd x"] by simp

lemma parse_enc [simp]: "op_ok x \<Longrightarrow> parse_script (enc_op x @ rest) = map_option (Cons x) (parse_script rest)"
  by (subst parse_script.simps) simp

lemma parse_enc_ops_append: "(\<And>x. x \<in> set ops \<Longrightarrow> op_ok x) \<Longrightarrow>
    parse_script (enc_ops ops @ s) = map_option (append ops) (parse_script s)"
  by (induction ops) (simp_all add: option.map_comp o_def option.map_ident cong: option.map_cong)

lemma parse_enc_ops: "(\<And>x. x \<in> set ops \<Longrightarrow> op_ok x) \<Longrightarrow> parse_script (enc_ops ops) = Some ops"
  using parse_enc_ops_append [of ops "[]"] by simp

lemma parse_script_Some: "parse_script s = Some ops \<Longrightarrow> s = enc_ops ops \<and> (\<forall>x \<in> set ops. op_ok x)"
proof (induction s arbitrary: ops rule: parse_script.induct)
  case (1 pc)
  obtain r opcode d pc' where g: "GetOp2 pc = (r, opcode, d, pc')" by (cases "GetOp2 pc")
  show ?case
  proof (cases "pc = []")
    case True
    then show ?thesis using "1.prems" by simp
  next
    case False
    then obtain ops' where r and o: "parse_script pc' = Some ops'" "ops = (opcode, d) # ops'"
      using "1.prems" g by (auto simp: parse_script.simps [of pc] Let_def split: if_splits)
    then show ?thesis using "1.IH" [of "GetOp2 pc" ops'] GetOp2_True_enc [of pc opcode d pc'] False g by auto
  qed
qed

lemma parse_script_iff: "parse_script s = Some ops \<longleftrightarrow> s = enc_ops ops \<and> (\<forall>x \<in> set ops. op_ok x)"
  using parse_script_Some parse_enc_ops by blast

section \<open>Building and reading back\<close>

definition push_op :: "bytes \<Rightarrow> u8" where
  \<comment> \<open>the opcode \<open>operator<<\<close> chooses for data\<close>
  "push_op b = (if length b < 76 then word_of_nat (length b) else if length b \<le> 0xff then OP_PUSHDATA1
     else if length b \<le> 0xffff then OP_PUSHDATA2 else OP_PUSHDATA4)"

lemma push_data_enc:
  assumes "length b < 2 ^ 32"
  shows "push_data s b = s @ enc_op (push_op b, b) \<and> op_ok (push_op b, b)"
proof (cases "length b < 76")
  case True
  then have "(word_of_nat (length b) :: u8) < OP_PUSHDATA1" "unat (word_of_nat (length b) :: u8) = length b"
    by (simp_all add: word_less_nat_alt small_byte)
  then show ?thesis using True op_push_not(1) [of "word_of_nat (length b)"]
    by (auto simp: push_data_def push_op_def op_ok_def enc_op_def Let_def)
next
  case False
  then show ?thesis using assms by (auto simp: push_data_def push_op_def op_ok_def enc_op_def Let_def)
qed

datatype script_item = Opcode u8 | Data bytes | Int64 int

fun build_script :: "bytes \<Rightarrow> script_item list \<Rightarrow> bytes" where
  \<comment> \<open>\<open>CScript() << x << y << \<dots>\<close>\<close>
  "build_script script [] = script"
| "build_script script (Opcode x # items) = build_script (push_opcode script x) items"
| "build_script script (Data b # items) = build_script (push_data script b) items"
| "build_script script (Int64 n # items) = build_script (push_int64 script n) items"

fun item_ok :: "script_item \<Rightarrow> bool" where
  "item_ok (Opcode x) = (x = OP_0 \<or> x > OP_PUSHDATA4)"
| "item_ok (Data b) = (length b < 2 ^ 32)"
| "item_ok (Int64 n) = (- (2 ^ 63) < n \<and> n < 2 ^ 63)"

fun item_op :: "script_item \<Rightarrow> u8 \<times> bytes" where
  "item_op (Opcode x) = (x, [])"
| "item_op (Data b) = (push_op b, b)"
| "item_op (Int64 n) =
     (if n = - 1 then (OP_1NEGATE, []) else if 1 \<le> n \<and> n \<le> 16 then (word_of_int (80 + n), [])
      else (push_op (scriptnum_serialize n), scriptnum_serialize n))"

lemma opcode_enc: "x = OP_0 \<or> x > OP_PUSHDATA4 \<Longrightarrow> enc_op (x, []) = [x] \<and> op_ok (x, [])"
  using op_push_not(2) [of x] by (auto simp: enc_op_def op_ok_def)

lemma length_serialize: "- (2 ^ 63) < n \<Longrightarrow> n < 2 ^ 63 \<Longrightarrow> length (scriptnum_serialize n) \<le> 8"
  using CScriptNum_of_minimal_iff [of 8 "scriptnum_serialize n" n] by (simp add: CScriptNum_of_def split: if_splits)

lemma item_enc:
  assumes "item_ok i"
  shows "build_script s [i] = s @ enc_op (item_op i) \<and> op_ok (item_op i)"
proof (cases i)
  case (Opcode x)
  then show ?thesis using assms opcode_enc by (simp add: push_opcode_def)
next
  case (Data b)
  then show ?thesis using assms push_data_enc by simp
next
  case (Int64 n)
  have l: "length (scriptnum_serialize n) < 2 ^ 32" using assms length_serialize [of n] Int64 by simp
  consider "n = - 1" | "1 \<le> n" "n \<le> 16" | "n = 0" | "n \<noteq> - 1" "\<not> (1 \<le> n \<and> n \<le> 16)" "n \<noteq> 0" by blast
  then show ?thesis
  proof cases
    case 1
    then show ?thesis using Int64 opcode_enc [of OP_1NEGATE] by (simp add: push_int64_def)
  next
    case 2
    then have "uint (word_of_int (80 + n) :: u8) = 80 + n"
      unfolding uint_word_of_int_eq by (intro take_bit_int_eq_self) simp_all
    then have "(word_of_int (80 + n) :: u8) > OP_PUSHDATA4" using 2 unfolding word_less_def by simp
    then have "enc_op (word_of_int (80 + n), []) = [word_of_int (80 + n)] \<and> op_ok (word_of_int (80 + n), [])"
      using opcode_enc by blast
    moreover have "item_op i = (word_of_int (80 + n), [])" using 2 Int64 by simp
    moreover have "n + (uint OP_1 - 1) = 80 + n" by simp
    then have "build_script s [i] = s @ [word_of_int (80 + n)]" using 2 Int64 by (simp only: push_int64_def build_script.simps) simp
    ultimately show ?thesis by simp
  next
    case 3
    then show ?thesis using Int64 opcode_enc [of OP_0]
      by (simp add: push_int64_def scriptnum_serialize_def push_op_def)
  next
    case 4
    then have "item_op i = (push_op (scriptnum_serialize n), scriptnum_serialize n)" "build_script s [i] = push_data s (scriptnum_serialize n)"
      using Int64 by (simp_all only: push_int64_def build_script.simps item_op.simps if_False simp_thms)
    then show ?thesis using push_data_enc [OF l] by simp
  qed
qed

lemma build_script_enc:
  "(\<And>i. i \<in> set items \<Longrightarrow> item_ok i) \<Longrightarrow> build_script s items = s @ enc_ops (map item_op items)"
proof (induction items arbitrary: s)
  case (Cons i items)
  then have "build_script s [i] = s @ enc_op (item_op i)" using item_enc by simp
  moreover have "build_script s (i # items) = build_script (build_script s [i]) items" by (cases i) simp_all
  ultimately show ?case using Cons by simp
qed simp

lemma script_items:
  assumes "\<And>i. i \<in> set items \<Longrightarrow> item_ok i"
  shows "parse_script (build_script [] items) = Some (map item_op items)"
proof -
  have "op_ok x" if "x \<in> set (map item_op items)" for x using that assms item_enc by auto
  then show ?thesis using assms build_script_enc [of items "[]"] parse_enc_ops [of "map item_op items"] by simp
qed

text \<open>A script built with \<open>operator<<\<close> from opcodes, data and integers reads back, instruction
  by instruction, as exactly what was put in: every data push carries its bytes under the shortest
  push opcode of the format, small integers become their own opcodes.\<close>

theorem script_build_roundtrip:
  assumes "\<And>i. i \<in> set items \<Longrightarrow> item_ok i"
  shows "parse_script (build_script [] items) = Some (map item_op items)"
  by (rule script_items [OF assms])

lemma script_build_roundtrip_witness:
  "parse_script (build_script [] [Opcode OP_DUP, Data (replicate 80 7), Int64 (- 255), Int64 16, Int64 0]) =
     Some [(OP_DUP, []), (OP_PUSHDATA1, replicate 80 7), (2, [0xff, 0x80]), (OP_16, []), (OP_0, [])]"
proof -
  have "scriptnum_serialize (- 255) = [0xff, 0x80]" "scriptnum_serialize 0 = []" by code_simp+
  moreover have "item_ok i" if "i \<in> set [Opcode OP_DUP, Data (replicate 80 7), Int64 (- 255), Int64 16, Int64 0]" for i
    using that by auto
  ultimately show ?thesis using script_build_roundtrip [of "[Opcode OP_DUP, Data (replicate 80 7), Int64 (- 255), Int64 16, Int64 0]"]
    by (simp add: push_op_def del: build_script.simps)
qed

section \<open>Deleting an instruction\<close>

lemma starts_with_op:
  assumes "op_ok x" "op_ok y"
  shows "(length (enc_op x) \<le> length (enc_op y @ r) \<and> take (length (enc_op x)) (enc_op y @ r) = enc_op x) \<longleftrightarrow> x = y"
proof
  assume "length (enc_op x) \<le> length (enc_op y @ r) \<and> take (length (enc_op x)) (enc_op y @ r) = enc_op x"
  then have "enc_op y @ r = enc_op x @ drop (length (enc_op x)) (enc_op y @ r)" by (metis append_take_drop_id)
  then show "x = y" using op_codec.enc_prefix_free [OF assms(2,1)] by blast
qed simp

lemma skip_matches_ops:
  assumes "op_ok x"
  shows "\<forall>y \<in> set ops. op_ok y \<Longrightarrow> skip_matches (enc_op x) (enc_ops ops) n =
    (enc_ops (dropWhile ((=) x) ops), n + length (takeWhile ((=) x) ops))"
proof (induction ops arbitrary: n)
  case Nil
  then show ?case by (subst skip_matches.simps) simp
next
  case (Cons y ops)
  then have y: "op_ok y" by simp
  show ?case
  proof (cases "x = y")
    case True
    then have "skip_matches (enc_op x) (enc_ops (y # ops)) n = skip_matches (enc_op x) (enc_ops ops) (n + 1)"
      by (subst skip_matches.simps) simp
    then show ?thesis using Cons True by simp
  next
    case False
    then have "skip_matches (enc_op x) (enc_ops (y # ops)) n = (enc_ops (y # ops), n)"
      using starts_with_op [OF assms y, of "enc_ops ops"] by (subst skip_matches.simps) auto
    then show ?thesis using False by simp
  qed
qed

lemma filter_dropWhile_eq: "filter (\<lambda>y. y \<noteq> x) ops = filter (\<lambda>y. y \<noteq> x) (dropWhile ((=) x) ops)"
  by (induction ops) auto

lemma count_dropWhile_eq: "count_list ops x = length (takeWhile ((=) x) ops) + count_list (dropWhile ((=) x) ops) x"
  by (induction ops) auto

lemma fad_loop_ops:
  assumes x: "op_ok x"
  shows "\<forall>y \<in> set ops. op_ok y \<Longrightarrow>
    \<exists>res pc2. fad_loop (enc_op x) (enc_ops ops) (p @ enc_ops ops) result n = (res, pc2, n + count_list ops x) \<and>
      res @ pc2 = result @ p @ enc_ops (filter (\<lambda>y. y \<noteq> x) ops)"
proof (induction "length ops" arbitrary: ops p result n rule: less_induct)
  case less
  let ?ops = "dropWhile ((=) x) ops" and ?n = "n + length (takeWhile ((=) x) ops)"
  note sk = skip_matches_ops [OF x less.prems, of n]
  show ?case
  proof (cases ?ops)
    case Nil
    then have "skip_matches (enc_op x) (enc_ops ops) n = ([], ?n)" using sk by (simp only: list.map concat.simps)
    then have "fad_loop (enc_op x) (enc_ops ops) (p @ enc_ops ops) result n = (result @ p, [], ?n)"
      by (subst fad_loop.simps) (simp add: Let_def)
    moreover have "filter (\<lambda>y. y \<noteq> x) ops = []" using filter_dropWhile_eq [of x ops] Nil by (metis filter.simps(1))
    moreover have "count_list ops x = length (takeWhile ((=) x) ops)"
      using count_dropWhile_eq [of ops x] Nil by (metis add_0_right count_list.simps(1))
    ultimately show ?thesis by simp
  next
    case (Cons y ys)
    have y: "y \<noteq> x" using Cons hd_dropWhile [of "(=) x" ops] by auto
    have ok: "\<forall>z \<in> set (y # ys). op_ok z" using less.prems set_dropWhileD [of _ "(=) x" ops] Cons by metis
    have len: "length ys < length ops" using length_dropWhile_le [of "(=) x" ops] Cons by simp
    have "fad_loop (enc_op x) (enc_ops ops) (p @ enc_ops ops) result n =
        fad_loop (enc_op x) (enc_ops ys) (enc_op y @ enc_ops ys) (result @ p) ?n"
      using sk Cons ok by (subst fad_loop.simps) (simp add: Let_def)
    moreover obtain res pc2 where "fad_loop (enc_op x) (enc_ops ys) (enc_op y @ enc_ops ys) (result @ p) ?n =
        (res, pc2, ?n + count_list ys x)" "res @ pc2 = (result @ p) @ enc_op y @ enc_ops (filter (\<lambda>y. y \<noteq> x) ys)"
      using less.hyps [OF len] ok by (metis list.set_intros(2))
    ultimately show ?thesis using Cons y filter_dropWhile_eq [of x ops] count_dropWhile_eq [of ops x] by simp
  qed
qed

lemma filter_none: "count_list ops x = 0 \<Longrightarrow> filter (\<lambda>y. y \<noteq> x) ops = ops"
  by (induction ops) (auto split: if_splits)

lemma FindAndDelete_ops:
  assumes s: "parse_script s = Some ops" and x: "op_ok x"
  shows "FindAndDelete s (enc_op x) = (enc_ops (filter (\<lambda>y. y \<noteq> x) ops), count_list ops x) \<and>
    parse_script (fst (FindAndDelete s (enc_op x))) = Some (filter (\<lambda>y. y \<noteq> x) ops)"
proof -
  have e: "s = enc_ops ops" "\<forall>y \<in> set ops. op_ok y" using s by (simp_all add: parse_script_iff)
  obtain res pc2 where "fad_loop (enc_op x) s s [] 0 = (res, pc2, count_list ops x)"
    "res @ pc2 = enc_ops (filter (\<lambda>y. y \<noteq> x) ops)"
    using fad_loop_ops [OF x e(2), of "[]" "[]" 0] e(1) by auto
  then have "FindAndDelete s (enc_op x) = (enc_ops (filter (\<lambda>y. y \<noteq> x) ops), count_list ops x)"
    using e(1) filter_none [of ops x] by (auto simp: FindAndDelete_def)
  moreover have "parse_script (enc_ops (filter (\<lambda>y. y \<noteq> x) ops)) = Some (filter (\<lambda>y. y \<noteq> x) ops)"
    using e(2) by (intro parse_enc_ops) simp
  ultimately show ?thesis by simp
qed

text \<open>Deleting one instruction, as \<open>OP_CHECKSIG\<close> does with the signature it checks, removes
  exactly that instruction's occurrences from a script that reads to its end and reports their
  number: no byte of another instruction is touched, even when the pattern also occurs inside
  pushed data.\<close>

theorem FindAndDelete_instruction:
  assumes s: "parse_script s = Some ops" and x: "op_ok x"
  shows "FindAndDelete s (enc_op x) = (enc_ops (filter (\<lambda>y. y \<noteq> x) ops), count_list ops x) \<and>
    parse_script (fst (FindAndDelete s (enc_op x))) = Some (filter (\<lambda>y. y \<noteq> x) ops)"
  by (rule FindAndDelete_ops [OF assms])

lemma FindAndDelete_instruction_witness:
  "FindAndDelete [2, 9, 9, 1, 2, 2, 9, 9, OP_CHECKSIG] [2, 9, 9] = ([1, 2, OP_CHECKSIG], 2)"
proof -
  have e: "enc_op (2, [9, 9]) = [2, 9, 9]" "enc_op (1, [2]) = [1, 2]" "enc_op (OP_CHECKSIG, []) = [OP_CHECKSIG]"
    by (simp_all add: enc_op_def)
  have "parse_script [2, 9, 9, 1, 2, 2, 9, 9, OP_CHECKSIG] = Some [(2, [9, 9]), (1, [2]), (2, [9, 9]), (OP_CHECKSIG, [])]"
    unfolding parse_script_iff by (simp add: e op_ok_def)
  from FindAndDelete_instruction [OF this, of "(2, [9, 9])"] show ?thesis by (simp add: e op_ok_def)
qed

section \<open>Signature operation counts\<close>

lemma DecodeOP_N_le: "OP_1 \<le> l \<Longrightarrow> l \<le> OP_16 \<Longrightarrow> nat (the (DecodeOP_N l)) \<le> 20"
  by (auto simp: DecodeOP_N_def word_le_def nat_le_iff)

lemma sigop_loop_mono: "n \<le> m \<Longrightarrow> sigop_loop True pc l n \<le> sigop_loop False pc l m"
proof (induction True pc l n arbitrary: m rule: sigop_loop.induct)
  case (1 pc l n)
  show ?case
  proof (cases "pc = [] \<or> \<not> fst (GetOp2 pc)")
    case True
    then show ?thesis using "1.prems" by (subst (1 2) sigop_loop.simps) (simp add: Let_def)
  next
    case False
    have "nat (the (DecodeOP_N l)) \<le> nat MAX_PUBKEYS_PER_MULTISIG" if "OP_1 \<le> l" "l \<le> OP_16"
      using DecodeOP_N_le [OF that] by (simp add: MAX_PUBKEYS_PER_MULTISIG_def)
    then show ?thesis using "1.prems" False "1.hyps" [OF refl refl]
      by (subst (1 2) sigop_loop.simps) (auto simp: Let_def intro: add_mono)
  qed
qed

lemma sigop_loop_bound: "sigop_loop a pc l n \<le> n + 20 * length pc"
proof (induction a pc l n rule: sigop_loop.induct)
  case (1 a pc l n)
  show ?case
  proof (cases "pc = [] \<or> \<not> fst (GetOp2 pc)")
    case True
    then show ?thesis by (subst sigop_loop.simps) (simp add: Let_def)
  next
    case False
    note d = DecodeOP_N_le [of l]
    let ?g = "GetOp2 pc"
    let ?n = "if fst (snd ?g) = OP_CHECKSIG \<or> fst (snd ?g) = OP_CHECKSIGVERIFY then n + 1
         else if fst (snd ?g) = OP_CHECKMULTISIG \<or> fst (snd ?g) = OP_CHECKMULTISIGVERIFY
         then (if a \<and> l \<ge> OP_1 \<and> l \<le> OP_16
               then n + nat (the (DecodeOP_N l)) else n + nat MAX_PUBKEYS_PER_MULTISIG)
         else n"
    have "sigop_loop a pc l n = sigop_loop a (snd (snd (snd ?g))) (fst (snd ?g)) ?n"
      using False by (subst sigop_loop.simps) (simp add: Let_def)
    moreover have "\<dots> \<le> ?n + 20 * length (snd (snd (snd ?g)))" using "1.IH" [OF refl refl] False by simp
    moreover have "?n \<le> n + 20" using d by (simp add: MAX_PUBKEYS_PER_MULTISIG_def)
    moreover have "length (snd (snd (snd ?g))) + 1 \<le> length pc" using GetOp2_fst [of pc] False by simp
    ultimately show ?thesis by linarith
  qed
qed

lemma GetSigOpCount_bounds: "GetSigOpCount s True \<le> GetSigOpCount s False" "GetSigOpCount s a \<le> 20 * length s"
  using sigop_loop_mono [of 0 0 s OP_INVALIDOPCODE] sigop_loop_bound [of a s OP_INVALIDOPCODE 0]
  by (simp_all add: GetSigOpCount_def)

end
