(* ===== verification/Interpreter.thy ===== *)
theory Interpreter
  imports Script
begin

text \<open>
  The stack machine of script/interpreter.cpp: the encodings of signatures and keys and
  \<open>EvalScript\<close>, one definition per group of cases of its \<open>switch\<close>.  A stack is a list with the
  top first.  A run stops with an error code (\<open>Err\<close>; the exceptions the function catches are
  \<open>SCRIPT_ERR_UNKNOWN_ERROR\<close>) or with a failed assertion.  The hash functions, the low-S test
  and the signature checker are parameters.
\<close>

section \<open>Parameters and results\<close>

record hash_functions =
  CRIPEMD160 :: "bytes \<Rightarrow> bytes"
  CSHA1 :: "bytes \<Rightarrow> bytes"
  CSHA256 :: "bytes \<Rightarrow> bytes"
  CheckLowS :: "bytes \<Rightarrow> bool"  \<comment> \<open>\<open>CPubKey::CheckLowS\<close>\<close>

definition CHash160 :: "hash_functions \<Rightarrow> bytes \<Rightarrow> bytes" where
  "CHash160 H v = CRIPEMD160 H (CSHA256 H v)"

definition CHash256 :: "hash_functions \<Rightarrow> bytes \<Rightarrow> bytes" where
  "CHash256 H v = CSHA256 H (CSHA256 H v)"

record BaseSignatureChecker =
  CheckSig :: "bytes \<Rightarrow> bytes \<Rightarrow> bytes \<Rightarrow> bool"
  CheckLockTime :: "CScriptNum \<Rightarrow> bool"
  CheckSequence :: "CScriptNum \<Rightarrow> bool"

datatype script_stop = Err ScriptError | AssertFailed

section \<open>Values and encodings\<close>

fun cast_loop :: "bytes \<Rightarrow> bool" where
  \<comment> \<open>a non-zero byte is true, except a last one of \<open>0x80\<close>\<close>
  "cast_loop [] = False"
| "cast_loop (b # rest) = (if b \<noteq> 0 then \<not> (rest = [] \<and> b = 0x80) else cast_loop rest)"

definition CastToBool :: "bytes \<Rightarrow> bool" where
  "CastToBool vch = cast_loop vch"

definition IsCompressedOrUncompressedPubKey :: "bytes \<Rightarrow> bool" where
  "IsCompressedOrUncompressedPubKey vchPubKey =
     (if length vchPubKey < 33 then False
      else if vchPubKey ! 0 = 0x04 then length vchPubKey = 65
      else if vchPubKey ! 0 = 0x02 \<or> vchPubKey ! 0 = 0x03 then length vchPubKey = 33
      else False)"

definition IsValidSignatureEncoding :: "bytes \<Rightarrow> bool" where
  "IsValidSignatureEncoding sig =
     (if length sig < 9 then False
      else if length sig > 73 then False
      else if sig ! 0 \<noteq> 0x30 then False
      else if unat (sig ! 1) \<noteq> length sig - 3 then False
      else let lenR = unat (sig ! 3) in
        if 5 + lenR \<ge> length sig then False
        else let lenS = unat (sig ! (5 + lenR)) in
          if lenR + lenS + 7 \<noteq> length sig then False
          else if sig ! 2 \<noteq> 0x02 then False
          else if lenR = 0 then False
          else if sig ! 4 AND 0x80 \<noteq> 0 then False
          else if lenR > 1 \<and> sig ! 4 = 0x00 \<and> sig ! 5 AND 0x80 = 0 then False
          else if sig ! (lenR + 4) \<noteq> 0x02 then False
          else if lenS = 0 then False
          else if sig ! (lenR + 6) AND 0x80 \<noteq> 0 then False
          else if lenS > 1 \<and> sig ! (lenR + 6) = 0x00 \<and> sig ! (lenR + 7) AND 0x80 = 0 then False
          else True)"

definition IsLowDERSignature :: "hash_functions \<Rightarrow> bytes \<Rightarrow> ScriptError option" where
  \<comment> \<open>\<open>None\<close> is \<open>true\<close>\<close>
  "IsLowDERSignature H vchSig =
     (if \<not> IsValidSignatureEncoding vchSig then Some SCRIPT_ERR_SIG_DER
      else if \<not> CheckLowS H (take (length vchSig - 1) vchSig) then Some SCRIPT_ERR_SIG_HIGH_S
      else None)"

definition IsDefinedHashtypeSignature :: "bytes \<Rightarrow> bool" where
  "IsDefinedHashtypeSignature vchSig =
     (if length vchSig = 0 then False
      else let nHashType = vchSig ! (length vchSig - 1) AND NOT (ucast SIGHASH_ANYONECANPAY)
           in \<not> (nHashType < ucast SIGHASH_ALL \<or> nHashType > ucast SIGHASH_SINGLE))"

definition CheckSignatureEncoding :: "hash_functions \<Rightarrow> bytes \<Rightarrow> u32 \<Rightarrow> ScriptError option" where
  "CheckSignatureEncoding H vchSig flags =
     (if length vchSig = 0 then None
      else if has_flag flags (SCRIPT_VERIFY_DERSIG OR SCRIPT_VERIFY_LOW_S OR SCRIPT_VERIFY_STRICTENC) \<and>
              \<not> IsValidSignatureEncoding vchSig then Some SCRIPT_ERR_SIG_DER
      else if has_flag flags SCRIPT_VERIFY_LOW_S \<and> IsLowDERSignature H vchSig \<noteq> None then IsLowDERSignature H vchSig
      else if has_flag flags SCRIPT_VERIFY_STRICTENC \<and> \<not> IsDefinedHashtypeSignature vchSig then Some SCRIPT_ERR_SIG_HASHTYPE
      else None)"

definition CheckPubKeyEncoding :: "bytes \<Rightarrow> u32 \<Rightarrow> ScriptError option" where
  "CheckPubKeyEncoding vchPubKey flags =
     (if has_flag flags SCRIPT_VERIFY_STRICTENC \<and> \<not> IsCompressedOrUncompressedPubKey vchPubKey
      then Some SCRIPT_ERR_PUBKEYTYPE else None)"

definition CheckMinimalPush :: "bytes \<Rightarrow> u8 \<Rightarrow> bool" where
  "CheckMinimalPush data opcode =
     (if length data = 0 then opcode = OP_0
      else if length data = 1 \<and> data ! 0 \<ge> 1 \<and> data ! 0 \<le> 16 then opcode = OP_1 + (data ! 0 - 1)
      else if length data = 1 \<and> data ! 0 = 0x81 then opcode = OP_1NEGATE
      else if length data \<le> 75 then unat opcode = length data
      else if length data \<le> 255 then opcode = OP_PUSHDATA1
      else if length data \<le> 65535 then opcode = OP_PUSHDATA2
      else True)"

section \<open>The state\<close>

record eval_state =
  stk :: "bytes list"
  altstk :: "bytes list"
  vfExec :: "bool list"  \<comment> \<open>innermost first\<close>
  pbegincodehash :: bytes
  nOpCount :: int

type_synonym eval_result = "script_stop + eval_state"

abbreviation err :: "ScriptError \<Rightarrow> script_stop + 'a" where
  "err e \<equiv> Inl (Err e)"

definition vchTrue :: bytes where "vchTrue = [1]"
definition vchFalse :: bytes where "vchFalse = []"

definition vch_bool :: "bool \<Rightarrow> bytes" where
  "vch_bool b = (if b then vchTrue else vchFalse)"

definition num_bool :: "bool \<Rightarrow> CScriptNum" where
  "num_bool b = (if b then 1 else 0)"

definition read_num :: "u32 \<Rightarrow> bytes \<Rightarrow> script_stop + CScriptNum" where
  \<comment> \<open>\<open>CScriptNum(v, fRequireMinimal)\<close>; its exception ends the run\<close>
  "read_num flags v =
     (case CScriptNum_of v (has_flag flags SCRIPT_VERIFY_MINIMALDATA) nDefaultMaxNumSize of
        None \<Rightarrow> err SCRIPT_ERR_UNKNOWN_ERROR | Some n \<Rightarrow> Inr n)"

definition read_num5 :: "u32 \<Rightarrow> bytes \<Rightarrow> script_stop + CScriptNum" where
  "read_num5 flags v =
     (case CScriptNum_of v (has_flag flags SCRIPT_VERIFY_MINIMALDATA) 5 of
        None \<Rightarrow> err SCRIPT_ERR_UNKNOWN_ERROR | Some n \<Rightarrow> Inr n)"

definition asserted :: "'a option \<Rightarrow> script_stop + 'a" where
  "asserted r = (case r of None \<Rightarrow> Inl AssertFailed | Some x \<Rightarrow> Inr x)"

section \<open>Control\<close>

definition op_push_number :: "u8 \<Rightarrow> eval_state \<Rightarrow> eval_result" where
  "op_push_number opcode s = Inr (s\<lparr>stk := scriptnum_serialize (uint opcode - (uint OP_1 - 1)) # stk s\<rparr>)"

definition op_discouraged_nop :: "u32 \<Rightarrow> eval_state \<Rightarrow> eval_result" where
  "op_discouraged_nop flags s =
     (if has_flag flags SCRIPT_VERIFY_DISCOURAGE_UPGRADABLE_NOPS then err SCRIPT_ERR_DISCOURAGE_UPGRADABLE_NOPS else Inr s)"

definition op_checklocktimeverify :: "u32 \<Rightarrow> BaseSignatureChecker \<Rightarrow> eval_state \<Rightarrow> eval_result" where
  "op_checklocktimeverify flags ck s =
     (if \<not> has_flag flags SCRIPT_VERIFY_CHECKLOCKTIMEVERIFY then op_discouraged_nop flags s
      else case stk s of
        [] \<Rightarrow> err SCRIPT_ERR_INVALID_STACK_OPERATION
      | v # _ \<Rightarrow> sum_bind (read_num5 flags v) (\<lambda>nLockTime.
          if nLockTime < 0 then err SCRIPT_ERR_NEGATIVE_LOCKTIME
          else if \<not> CheckLockTime ck nLockTime then err SCRIPT_ERR_UNSATISFIED_LOCKTIME else Inr s))"

definition op_checksequenceverify :: "u32 \<Rightarrow> BaseSignatureChecker \<Rightarrow> eval_state \<Rightarrow> eval_result" where
  "op_checksequenceverify flags ck s =
     (if \<not> has_flag flags SCRIPT_VERIFY_CHECKSEQUENCEVERIFY then op_discouraged_nop flags s
      else case stk s of
        [] \<Rightarrow> err SCRIPT_ERR_INVALID_STACK_OPERATION
      | v # _ \<Rightarrow> sum_bind (read_num5 flags v) (\<lambda>nSequence.
          if nSequence < 0 then err SCRIPT_ERR_NEGATIVE_LOCKTIME
          else if num_and nSequence (uint SEQUENCE_LOCKTIME_DISABLE_FLAG) \<noteq> 0 then Inr s
          else if \<not> CheckSequence ck nSequence then err SCRIPT_ERR_UNSATISFIED_LOCKTIME else Inr s))"

definition op_if :: "bool \<Rightarrow> u8 \<Rightarrow> eval_state \<Rightarrow> eval_result" where
  "op_if fExec opcode s =
     (if fExec
      then case stk s of
          [] \<Rightarrow> err SCRIPT_ERR_UNBALANCED_CONDITIONAL
        | vch # rest \<Rightarrow>
            let fValue = CastToBool vch; fValue = (if opcode = OP_NOTIF then \<not> fValue else fValue)
            in Inr (s\<lparr>stk := rest, vfExec := fValue # vfExec s\<rparr>)
      else Inr (s\<lparr>vfExec := False # vfExec s\<rparr>))"

definition op_else :: "eval_state \<Rightarrow> eval_result" where
  "op_else s = (case vfExec s of [] \<Rightarrow> err SCRIPT_ERR_UNBALANCED_CONDITIONAL | b # bs \<Rightarrow> Inr (s\<lparr>vfExec := (\<not> b) # bs\<rparr>))"

definition op_endif :: "eval_state \<Rightarrow> eval_result" where
  "op_endif s = (case vfExec s of [] \<Rightarrow> err SCRIPT_ERR_UNBALANCED_CONDITIONAL | b # bs \<Rightarrow> Inr (s\<lparr>vfExec := bs\<rparr>))"

definition op_verify :: "eval_state \<Rightarrow> eval_result" where
  "op_verify s =
     (case stk s of
        [] \<Rightarrow> err SCRIPT_ERR_INVALID_STACK_OPERATION
      | v # rest \<Rightarrow> if CastToBool v then Inr (s\<lparr>stk := rest\<rparr>) else err SCRIPT_ERR_VERIFY)"

section \<open>Stack\<close>

definition op_pick_roll :: "u32 \<Rightarrow> u8 \<Rightarrow> bytes list \<Rightarrow> script_stop + bytes list" where
  "op_pick_roll flags opcode st =
     (if length st < 2 then err SCRIPT_ERR_INVALID_STACK_OPERATION
      else sum_bind (read_num flags (hd st)) (\<lambda>num.
        let n = getint num; st = tl st in
        if n < 0 \<or> n \<ge> int (length st) then err SCRIPT_ERR_INVALID_STACK_OPERATION
        else let vch = st ! nat n;
                 st = (if opcode = OP_ROLL then take (nat n) st @ drop (nat n + 1) st else st)
             in Inr (vch # st)))"

definition shuffle :: "u8 \<Rightarrow> bytes list \<Rightarrow> bytes list option" where
  \<comment> \<open>the stack operations without another effect; \<open>None\<close> when the stack is too small\<close>
  "shuffle opcode st =
     (if opcode = OP_2DROP then (case st of x2 # x1 # r \<Rightarrow> Some r | _ \<Rightarrow> None)
      else if opcode = OP_2DUP then (case st of x2 # x1 # r \<Rightarrow> Some (x2 # x1 # x2 # x1 # r) | _ \<Rightarrow> None)
      else if opcode = OP_3DUP then (case st of x3 # x2 # x1 # r \<Rightarrow> Some (x3 # x2 # x1 # x3 # x2 # x1 # r) | _ \<Rightarrow> None)
      else if opcode = OP_2OVER then (case st of x4 # x3 # x2 # x1 # r \<Rightarrow> Some (x2 # x1 # x4 # x3 # x2 # x1 # r) | _ \<Rightarrow> None)
      else if opcode = OP_2ROT then (case st of x6 # x5 # x4 # x3 # x2 # x1 # r \<Rightarrow> Some (x2 # x1 # x6 # x5 # x4 # x3 # r) | _ \<Rightarrow> None)
      else if opcode = OP_2SWAP then (case st of x4 # x3 # x2 # x1 # r \<Rightarrow> Some (x2 # x1 # x4 # x3 # r) | _ \<Rightarrow> None)
      else if opcode = OP_IFDUP then (case st of x # r \<Rightarrow> Some (if CastToBool x then x # x # r else x # r) | _ \<Rightarrow> None)
      else if opcode = OP_DEPTH then Some (scriptnum_serialize (int (length st)) # st)
      else if opcode = OP_DROP then (case st of x # r \<Rightarrow> Some r | _ \<Rightarrow> None)
      else if opcode = OP_DUP then (case st of x # r \<Rightarrow> Some (x # x # r) | _ \<Rightarrow> None)
      else if opcode = OP_NIP then (case st of x2 # x1 # r \<Rightarrow> Some (x2 # r) | _ \<Rightarrow> None)
      else if opcode = OP_OVER then (case st of x2 # x1 # r \<Rightarrow> Some (x1 # x2 # x1 # r) | _ \<Rightarrow> None)
      else if opcode = OP_ROT then (case st of x3 # x2 # x1 # r \<Rightarrow> Some (x1 # x3 # x2 # r) | _ \<Rightarrow> None)
      else if opcode = OP_SWAP then (case st of x2 # x1 # r \<Rightarrow> Some (x1 # x2 # r) | _ \<Rightarrow> None)
      else if opcode = OP_TUCK then (case st of x2 # x1 # r \<Rightarrow> Some (x2 # x1 # x2 # r) | _ \<Rightarrow> None)
      else (case st of x # r \<Rightarrow> Some (scriptnum_serialize (int (length x)) # x # r) | _ \<Rightarrow> None))"  \<comment> \<open>\<open>OP_SIZE\<close>\<close>

definition op_stack :: "u8 \<Rightarrow> eval_state \<Rightarrow> eval_result" where
  "op_stack opcode s =
     (case shuffle opcode (stk s) of
        None \<Rightarrow> err SCRIPT_ERR_INVALID_STACK_OPERATION | Some st \<Rightarrow> Inr (s\<lparr>stk := st\<rparr>))"

definition op_toaltstack :: "eval_state \<Rightarrow> eval_result" where
  "op_toaltstack s =
     (case stk s of
        [] \<Rightarrow> err SCRIPT_ERR_INVALID_STACK_OPERATION
      | v # r \<Rightarrow> Inr (s\<lparr>stk := r, altstk := v # altstk s\<rparr>))"

definition op_fromaltstack :: "eval_state \<Rightarrow> eval_result" where
  "op_fromaltstack s =
     (case altstk s of
        [] \<Rightarrow> err SCRIPT_ERR_INVALID_ALTSTACK_OPERATION
      | v # r \<Rightarrow> Inr (s\<lparr>stk := v # stk s, altstk := r\<rparr>))"

section \<open>Comparison and arithmetic\<close>

definition with_verify :: "u8 \<Rightarrow> u8 \<Rightarrow> ScriptError \<Rightarrow> bool \<Rightarrow> bytes list \<Rightarrow> script_stop + bytes list" where
  \<comment> \<open>the \<open>\<dots>VERIFY\<close> form of an operation pops the result it has pushed, or fails\<close>
  "with_verify opcode verify e fSuccess st =
     (if opcode = verify then (if fSuccess then Inr (tl st) else err e) else Inr st)"

definition op_equal :: "u8 \<Rightarrow> bytes list \<Rightarrow> script_stop + bytes list" where
  "op_equal opcode st =
     (case st of
        vch2 # vch1 # r \<Rightarrow>
          let fEqual = (vch1 = vch2) in
          with_verify opcode OP_EQUALVERIFY SCRIPT_ERR_EQUALVERIFY fEqual (vch_bool fEqual # r)
      | _ \<Rightarrow> err SCRIPT_ERR_INVALID_STACK_OPERATION)"

definition num_unary :: "u8 \<Rightarrow> CScriptNum \<Rightarrow> CScriptNum option" where
  \<comment> \<open>the inner \<open>switch\<close>; \<open>None\<close> is a failed assertion of \<open>CScriptNum\<close>\<close>
  "num_unary opcode bn =
     (if opcode = OP_1ADD then num_plus_assign bn 1
      else if opcode = OP_1SUB then num_minus_assign bn 1
      else if opcode = OP_NEGATE then num_neg bn
      else if opcode = OP_ABS then (if bn < 0 then num_neg bn else Some bn)
      else if opcode = OP_NOT then Some (num_bool (bn = 0))
      else if opcode = OP_0NOTEQUAL then Some (num_bool (bn \<noteq> 0))
      else None)"

definition op_unary :: "u32 \<Rightarrow> u8 \<Rightarrow> bytes list \<Rightarrow> script_stop + bytes list" where
  "op_unary flags opcode st =
     (case st of
        [] \<Rightarrow> err SCRIPT_ERR_INVALID_STACK_OPERATION
      | v # r \<Rightarrow>
          sum_bind (read_num flags v) (\<lambda>bn.
            sum_bind (asserted (num_unary opcode bn)) (\<lambda>bn. Inr (scriptnum_serialize bn # r))))"

definition num_binary :: "u8 \<Rightarrow> CScriptNum \<Rightarrow> CScriptNum \<Rightarrow> CScriptNum option" where
  "num_binary opcode bn1 bn2 =
     (if opcode = OP_ADD then Some (bn1 + bn2)
      else if opcode = OP_SUB then Some (bn1 - bn2)
      else if opcode = OP_BOOLAND then Some (num_bool (bn1 \<noteq> 0 \<and> bn2 \<noteq> 0))
      else if opcode = OP_BOOLOR then Some (num_bool (bn1 \<noteq> 0 \<or> bn2 \<noteq> 0))
      else if opcode = OP_NUMEQUAL then Some (num_bool (bn1 = bn2))
      else if opcode = OP_NUMEQUALVERIFY then Some (num_bool (bn1 = bn2))
      else if opcode = OP_NUMNOTEQUAL then Some (num_bool (bn1 \<noteq> bn2))
      else if opcode = OP_LESSTHAN then Some (num_bool (bn1 < bn2))
      else if opcode = OP_GREATERTHAN then Some (num_bool (bn1 > bn2))
      else if opcode = OP_LESSTHANOREQUAL then Some (num_bool (bn1 \<le> bn2))
      else if opcode = OP_GREATERTHANOREQUAL then Some (num_bool (bn1 \<ge> bn2))
      else if opcode = OP_MIN then Some (if bn1 < bn2 then bn1 else bn2)
      else if opcode = OP_MAX then Some (if bn1 > bn2 then bn1 else bn2)
      else None)"

definition op_binary :: "u32 \<Rightarrow> u8 \<Rightarrow> bytes list \<Rightarrow> script_stop + bytes list" where
  "op_binary flags opcode st =
     (case st of
        v2 # v1 # r \<Rightarrow>
          sum_bind (read_num flags v1) (\<lambda>bn1. sum_bind (read_num flags v2) (\<lambda>bn2.
            sum_bind (asserted (num_binary opcode bn1 bn2)) (\<lambda>bn.
              let st = scriptnum_serialize bn # r in
              with_verify opcode OP_NUMEQUALVERIFY SCRIPT_ERR_NUMEQUALVERIFY (CastToBool (hd st)) st)))
      | _ \<Rightarrow> err SCRIPT_ERR_INVALID_STACK_OPERATION)"

definition op_within :: "u32 \<Rightarrow> bytes list \<Rightarrow> script_stop + bytes list" where
  "op_within flags st =
     (case st of
        v3 # v2 # v1 # r \<Rightarrow>
          sum_bind (read_num flags v1) (\<lambda>bn1. sum_bind (read_num flags v2) (\<lambda>bn2. sum_bind (read_num flags v3) (\<lambda>bn3.
            Inr (vch_bool (bn2 \<le> bn1 \<and> bn1 < bn3) # r))))
      | _ \<Rightarrow> err SCRIPT_ERR_INVALID_STACK_OPERATION)"

section \<open>Hashes and signatures\<close>

definition op_hash :: "hash_functions \<Rightarrow> u8 \<Rightarrow> bytes list \<Rightarrow> script_stop + bytes list" where
  "op_hash H opcode st =
     (case st of
        [] \<Rightarrow> err SCRIPT_ERR_INVALID_STACK_OPERATION
      | vch # r \<Rightarrow>
          Inr ((if opcode = OP_RIPEMD160 then CRIPEMD160 H vch
                else if opcode = OP_SHA1 then CSHA1 H vch
                else if opcode = OP_SHA256 then CSHA256 H vch
                else if opcode = OP_HASH160 then CHash160 H vch
                else CHash256 H vch) # r))"

definition check_encodings :: "hash_functions \<Rightarrow> u32 \<Rightarrow> bytes \<Rightarrow> bytes \<Rightarrow> ScriptError option" where
  \<comment> \<open>\<open>!CheckSignatureEncoding || !CheckPubKeyEncoding\<close>, with the error set\<close>
  "check_encodings H flags vchSig vchPubKey =
     (case CheckSignatureEncoding H vchSig flags of Some e \<Rightarrow> Some e | None \<Rightarrow> CheckPubKeyEncoding vchPubKey flags)"

definition op_checksig ::
  "hash_functions \<Rightarrow> u32 \<Rightarrow> BaseSignatureChecker \<Rightarrow> u8 \<Rightarrow> eval_state \<Rightarrow> eval_result" where
  "op_checksig H flags ck opcode s =
     (case stk s of
        vchPubKey # vchSig # r \<Rightarrow>
          let scriptCode = fst (FindAndDelete (pbegincodehash s) (push_data [] vchSig)) in
          (case check_encodings H flags vchSig vchPubKey of
             Some e \<Rightarrow> err e
           | None \<Rightarrow>
               let fSuccess = CheckSig ck vchSig vchPubKey scriptCode in
               sum_bind (with_verify opcode OP_CHECKSIGVERIFY SCRIPT_ERR_CHECKSIGVERIFY fSuccess (vch_bool fSuccess # r))
                 (\<lambda>st. Inr (s\<lparr>stk := st\<rparr>)))
      | _ \<Rightarrow> err SCRIPT_ERR_INVALID_STACK_OPERATION)"

function multisig_loop ::
  "hash_functions \<Rightarrow> u32 \<Rightarrow> BaseSignatureChecker \<Rightarrow> bytes \<Rightarrow> bytes list \<Rightarrow> nat \<Rightarrow> nat \<Rightarrow> nat \<Rightarrow> nat \<Rightarrow> script_stop + bool" where
  \<comment> \<open>\<open>while (fSuccess && nSigsCount > 0)\<close>; the positions count from the top, from 1\<close>
  "multisig_loop H flags ck scriptCode st isig ikey nSigsCount nKeysCount =
     (if nSigsCount = 0 then Inr True
      else let vchSig = st ! (isig - 1); vchPubKey = st ! (ikey - 1) in
        (case check_encodings H flags vchSig vchPubKey of
           Some e \<Rightarrow> err e
         | None \<Rightarrow>
             let fOk = CheckSig ck vchSig vchPubKey scriptCode;
                 isig' = (if fOk then isig + 1 else isig);
                 nSigs' = (if fOk then nSigsCount - 1 else nSigsCount);
                 nKeys' = nKeysCount - 1
             in if nSigs' > nKeys' then Inr False
                else multisig_loop H flags ck scriptCode st isig' (ikey + 1) nSigs' nKeys'))"
  by pat_completeness auto
termination
  by (relation "measure (\<lambda>(H, flags, ck, code, st, isig, ikey, nSigs, nKeys). nSigs + nKeys)") (auto split: if_splits)

declare multisig_loop.simps [simp del]

definition delete_signatures :: "bytes \<Rightarrow> bytes list \<Rightarrow> bytes" where
  \<comment> \<open>the loop of \<open>FindAndDelete\<close> over the signatures\<close>
  "delete_signatures scriptCode sigs = foldl (\<lambda>code vchSig. fst (FindAndDelete code (push_data [] vchSig))) scriptCode sigs"

definition multisig_finish :: "u32 \<Rightarrow> u8 \<Rightarrow> bool \<Rightarrow> bytes list \<Rightarrow> script_stop + bytes list" where
  \<comment> \<open>from the popped arguments to the end of the case\<close>
  "multisig_finish flags opcode fSuccess st =
     (case st of
        [] \<Rightarrow> err SCRIPT_ERR_INVALID_STACK_OPERATION
      | dummy # r \<Rightarrow>
          if has_flag flags SCRIPT_VERIFY_NULLDUMMY \<and> length dummy \<noteq> 0 then err SCRIPT_ERR_SIG_NULLDUMMY
          else with_verify opcode OP_CHECKMULTISIGVERIFY SCRIPT_ERR_CHECKMULTISIGVERIFY fSuccess (vch_bool fSuccess # r))"

definition op_checkmultisig ::
  "hash_functions \<Rightarrow> u32 \<Rightarrow> BaseSignatureChecker \<Rightarrow> u8 \<Rightarrow> eval_state \<Rightarrow> eval_result" where
  "op_checkmultisig H flags ck opcode s =
     (let st = stk s in
      if length st < 1 then err SCRIPT_ERR_INVALID_STACK_OPERATION
      else sum_bind (read_num flags (st ! 0)) (\<lambda>num.
        let nKeysCount = getint num in
        if nKeysCount < 0 \<or> nKeysCount > MAX_PUBKEYS_PER_MULTISIG then err SCRIPT_ERR_PUBKEY_COUNT
        else let s = s\<lparr>nOpCount := nOpCount s + nKeysCount\<rparr> in
        if nOpCount s > MAX_OPS_PER_SCRIPT then err SCRIPT_ERR_OP_COUNT
        else let nKeys = nat nKeysCount; ikey = 2; i = ikey + nKeys in
        if length st < i then err SCRIPT_ERR_INVALID_STACK_OPERATION
        else sum_bind (read_num flags (st ! (i - 1))) (\<lambda>num.
          let nSigsCount = getint num in
          if nSigsCount < 0 \<or> nSigsCount > nKeysCount then err SCRIPT_ERR_SIG_COUNT
          else let nSigs = nat nSigsCount; isig = i + 1; i = isig + nSigs in
          if length st < i then err SCRIPT_ERR_INVALID_STACK_OPERATION
          else let scriptCode = delete_signatures (pbegincodehash s) (map (\<lambda>k. st ! (isig + k - 1)) [0..<nSigs]) in
          sum_bind (multisig_loop H flags ck scriptCode st isig ikey nSigs nKeys) (\<lambda>fSuccess.
            sum_bind (multisig_finish flags opcode fSuccess (drop (i - 1) st)) (\<lambda>st. Inr (s\<lparr>stk := st\<rparr>))))))"

section \<open>One instruction and the loop\<close>

definition disabled_opcodes :: "u8 list" where
  "disabled_opcodes = [OP_CAT, OP_SUBSTR, OP_LEFT, OP_RIGHT, OP_INVERT, OP_AND, OP_OR, OP_XOR, OP_2MUL, OP_2DIV,
     OP_MUL, OP_DIV, OP_MOD, OP_LSHIFT, OP_RSHIFT]"

definition on_stack :: "(bytes list \<Rightarrow> script_stop + bytes list) \<Rightarrow> eval_state \<Rightarrow> eval_result" where
  "on_stack f s = sum_bind (f (stk s)) (\<lambda>st. Inr (s\<lparr>stk := st\<rparr>))"

definition exec_switch ::
  "hash_functions \<Rightarrow> u32 \<Rightarrow> BaseSignatureChecker \<Rightarrow> bytes \<Rightarrow> bool \<Rightarrow> u8 \<Rightarrow> eval_state \<Rightarrow> eval_result" where
  \<comment> \<open>the \<open>switch\<close>; \<open>pc\<close> is the iterator after the instruction\<close>
  "exec_switch H flags ck pc fExec opcode s =
     (if opcode = OP_1NEGATE \<or> OP_1 \<le> opcode \<and> opcode \<le> OP_16 then op_push_number opcode s
      else if opcode = OP_NOP then Inr s
      else if opcode = OP_CHECKLOCKTIMEVERIFY then op_checklocktimeverify flags ck s
      else if opcode = OP_CHECKSEQUENCEVERIFY then op_checksequenceverify flags ck s
      else if opcode = OP_NOP1 \<or> OP_NOP4 \<le> opcode \<and> opcode \<le> OP_NOP10 then op_discouraged_nop flags s
      else if opcode = OP_IF \<or> opcode = OP_NOTIF then op_if fExec opcode s
      else if opcode = OP_ELSE then op_else s
      else if opcode = OP_ENDIF then op_endif s
      else if opcode = OP_VERIFY then op_verify s
      else if opcode = OP_RETURN then err SCRIPT_ERR_OP_RETURN
      else if opcode = OP_TOALTSTACK then op_toaltstack s
      else if opcode = OP_FROMALTSTACK then op_fromaltstack s
      else if opcode = OP_PICK \<or> opcode = OP_ROLL then on_stack (op_pick_roll flags opcode) s
      else if OP_2DROP \<le> opcode \<and> opcode \<le> OP_TUCK \<or> opcode = OP_SIZE then op_stack opcode s
      else if opcode = OP_EQUAL \<or> opcode = OP_EQUALVERIFY then on_stack (op_equal opcode) s
      else if opcode \<in> set [OP_1ADD, OP_1SUB, OP_NEGATE, OP_ABS, OP_NOT, OP_0NOTEQUAL] then on_stack (op_unary flags opcode) s
      else if opcode = OP_ADD \<or> opcode = OP_SUB \<or> OP_BOOLAND \<le> opcode \<and> opcode \<le> OP_MAX then on_stack (op_binary flags opcode) s
      else if opcode = OP_WITHIN then on_stack (op_within flags) s
      else if OP_RIPEMD160 \<le> opcode \<and> opcode \<le> OP_HASH256 then on_stack (op_hash H opcode) s
      else if opcode = OP_CODESEPARATOR then Inr (s\<lparr>pbegincodehash := pc\<rparr>)
      else if opcode = OP_CHECKSIG \<or> opcode = OP_CHECKSIGVERIFY then op_checksig H flags ck opcode s
      else if opcode = OP_CHECKMULTISIG \<or> opcode = OP_CHECKMULTISIGVERIFY then op_checkmultisig H flags ck opcode s
      else err SCRIPT_ERR_BAD_OPCODE)"

definition count_op :: "u8 \<Rightarrow> eval_state \<Rightarrow> eval_result" where
  \<comment> \<open>\<open>opcode > OP_16 && ++nOpCount > MAX_OPS_PER_SCRIPT\<close>\<close>
  "count_op opcode s =
     (if opcode > OP_16
      then let s = s\<lparr>nOpCount := nOpCount s + 1\<rparr> in
           if nOpCount s > MAX_OPS_PER_SCRIPT then err SCRIPT_ERR_OP_COUNT else Inr s
      else Inr s)"

definition exec_value :: "u32 \<Rightarrow> u8 \<Rightarrow> bytes \<Rightarrow> eval_state \<Rightarrow> eval_result" where
  "exec_value flags opcode vchPushValue s =
     (if has_flag flags SCRIPT_VERIFY_MINIMALDATA \<and> \<not> CheckMinimalPush vchPushValue opcode
      then err SCRIPT_ERR_MINIMALDATA else Inr (s\<lparr>stk := vchPushValue # stk s\<rparr>))"

definition check_stack_size :: "eval_state \<Rightarrow> eval_result" where
  "check_stack_size s = (if length (stk s) + length (altstk s) > 1000 then err SCRIPT_ERR_STACK_SIZE else Inr s)"

definition eval_op ::
  "hash_functions \<Rightarrow> u32 \<Rightarrow> BaseSignatureChecker \<Rightarrow> bytes \<Rightarrow> u8 \<Rightarrow> bytes \<Rightarrow> eval_state \<Rightarrow> eval_result" where
  \<comment> \<open>the body of the loop after \<open>GetOp\<close>\<close>
  "eval_op H flags ck pc opcode vchPushValue s =
     (let fExec = (\<not> list_ex Not (vfExec s)) in
      if length vchPushValue > MAX_SCRIPT_ELEMENT_SIZE then err SCRIPT_ERR_PUSH_SIZE
      else sum_bind (count_op opcode s) (\<lambda>s.
        if opcode \<in> set disabled_opcodes then err SCRIPT_ERR_DISABLED_OPCODE
        else sum_bind
          (if fExec \<and> opcode \<le> OP_PUSHDATA4 then exec_value flags opcode vchPushValue s
           else if fExec \<or> OP_IF \<le> opcode \<and> opcode \<le> OP_ENDIF then exec_switch H flags ck pc fExec opcode s
           else Inr s)
          check_stack_size))"

function eval_loop ::
  "hash_functions \<Rightarrow> u32 \<Rightarrow> BaseSignatureChecker \<Rightarrow> bytes \<Rightarrow> eval_state \<Rightarrow> eval_result" where
  "eval_loop H flags ck pc s =
     (if pc = [] then Inr s
      else let g = GetOp2 pc in
        if \<not> fst g then err SCRIPT_ERR_BAD_OPCODE
        else (case eval_op H flags ck (snd (snd (snd g))) (fst (snd g)) (fst (snd (snd g))) s of
                Inl e \<Rightarrow> Inl e
              | Inr s' \<Rightarrow> eval_loop H flags ck (snd (snd (snd g))) s'))"
  by pat_completeness auto
termination
  by (relation "measure (\<lambda>(H, flags, ck, pc, s). length pc)") (auto simp: GetOp2_fst)

declare eval_loop.simps [simp del]

definition EvalScript ::
  "hash_functions \<Rightarrow> bytes list \<Rightarrow> bytes \<Rightarrow> u32 \<Rightarrow> BaseSignatureChecker \<Rightarrow> script_stop + bytes list" where
  \<comment> \<open>the stack on success; on an error the caller does not look at the stack\<close>
  "EvalScript H stack0 script flags ck =
     (if length script > 10000 then err SCRIPT_ERR_SCRIPT_SIZE
      else sum_bind (eval_loop H flags ck script
               \<lparr>stk = stack0, altstk = [], vfExec = [], pbegincodehash = script, nOpCount = 0\<rparr>)
             (\<lambda>s. if vfExec s \<noteq> [] then err SCRIPT_ERR_UNBALANCED_CONDITIONAL else Inr (stk s)))"

section \<open>Verification of an input\<close>

definition final_check :: "bytes list \<Rightarrow> script_stop + unit" where
  \<comment> \<open>\<open>stack.empty()\<close> and \<open>CastToBool(stack.back())\<close>\<close>
  "final_check st =
     (case st of [] \<Rightarrow> err SCRIPT_ERR_EVAL_FALSE | v # r \<Rightarrow> if \<not> CastToBool v then err SCRIPT_ERR_EVAL_FALSE else Inr ())"

definition verify_p2sh ::
  "hash_functions \<Rightarrow> bytes \<Rightarrow> u32 \<Rightarrow> BaseSignatureChecker \<Rightarrow> bytes list \<Rightarrow> script_stop + bytes list" where
  "verify_p2sh H script_sig flags ck stackCopy =
     (if \<not> IsPushOnly script_sig then err SCRIPT_ERR_SIG_PUSHONLY
      else case stackCopy of
        [] \<Rightarrow> Inl AssertFailed
      | pubKey2 # rest \<Rightarrow>
          sum_bind (EvalScript H rest pubKey2 flags ck) (\<lambda>st. sum_bind (final_check st) (\<lambda>_. Inr st)))"

definition VerifyScript ::
  "hash_functions \<Rightarrow> bytes \<Rightarrow> bytes \<Rightarrow> u32 \<Rightarrow> BaseSignatureChecker \<Rightarrow> script_stop + unit" where
  "VerifyScript H script_sig script_pubkey flags ck =
     (if has_flag flags SCRIPT_VERIFY_SIGPUSHONLY \<and> \<not> IsPushOnly script_sig then err SCRIPT_ERR_SIG_PUSHONLY
      else sum_bind (EvalScript H [] script_sig flags ck) (\<lambda>stack1.
        sum_bind (EvalScript H stack1 script_pubkey flags ck) (\<lambda>stack2.
          sum_bind (final_check stack2) (\<lambda>_.
            sum_bind (if has_flag flags SCRIPT_VERIFY_P2SH \<and> IsPayToScriptHash script_pubkey
                      then verify_p2sh H script_sig flags ck stack1 else Inr stack2) (\<lambda>stack3.
              if has_flag flags SCRIPT_VERIFY_CLEANSTACK
              then (if \<not> has_flag flags SCRIPT_VERIFY_P2SH then Inl AssertFailed
                    else if length stack3 \<noteq> 1 then err SCRIPT_ERR_CLEANSTACK else Inr ())
              else Inr ())))))"

end
