(* ===== verification/EvalSafety.thy ===== *)
theory EvalSafety
  imports Interpreter
begin

text \<open>
  What every run of \<open>EvalScript\<close> keeps: the limits on the stacks, elements and operations, the
  absence of failed assertions, and the shape of the scripts it can accept.
\<close>

section \<open>Numbers on the stack\<close>

lemma sum_bind_Inl_iff: "sum_bind m f = Inl e \<longleftrightarrow> m = Inl e \<or> (\<exists>x. m = Inr x \<and> f x = Inl e)"
  by (cases m) auto

lemma set_vch_bound:
  assumes "length v \<le> k" "1 \<le> k" "k \<le> 8"
  shows "\<bar>set_vch v\<bar> < 2 ^ (8 * k - 1)"
proof (cases v rule: rev_cases)
  case Nil
  then show ?thesis by (simp add: set_vch_def)
next
  case (snoc bs b)
  then have l: "length bs < 8" using assms by simp
  have "\<bar>set_vch v\<bar> = uint (le_read (bs @ [b AND 0x7f]) :: u64)" using set_vch_snoc [OF l, of b] snoc by simp
  also have "\<dots> < 2 ^ (8 * length bs + 7)" using set_vch_snoc [OF l, of b] by blast
  also have "\<dots> \<le> (2 :: int) ^ (8 * k - 1)" using assms snoc by (intro power_increasing) auto
  finally show ?thesis .
qed

lemma read_num_bound: "read_num flags v = Inr n \<Longrightarrow> \<bar>n\<bar> < 2 ^ 31"
  using set_vch_bound [of v 4]
  by (auto simp: read_num_def CScriptNum_of_def nDefaultMaxNumSize_def split: if_splits)

lemma length_serialize_small: "\<bar>n\<bar> < 2 ^ 33 \<Longrightarrow> length (scriptnum_serialize n) \<le> 8"
  using length_serialize [of n] by auto

lemma num_unary_bound: "num_unary opcode n = Some m \<Longrightarrow> \<bar>n\<bar> < 2 ^ 31 \<Longrightarrow> \<bar>m\<bar> < 2 ^ 33"
  by (auto simp: num_unary_def num_plus_assign_def num_minus_assign_def num_neg_def num_bool_def split: if_splits)

lemma num_binary_bound:
  "num_binary opcode a b = Some m \<Longrightarrow> \<bar>a\<bar> < 2 ^ 31 \<Longrightarrow> \<bar>b\<bar> < 2 ^ 31 \<Longrightarrow> \<bar>m\<bar> < 2 ^ 33"
  by (auto simp: num_binary_def num_bool_def split: if_splits)

section \<open>Element sizes\<close>

definition elems_ok :: "bytes list \<Rightarrow> bool" where
  "elems_ok st \<longleftrightarrow> (\<forall>v \<in> set st. length v \<le> MAX_SCRIPT_ELEMENT_SIZE)"

lemma elems_ok_simps [simp]: "elems_ok []" "elems_ok (v # st) \<longleftrightarrow> length v \<le> MAX_SCRIPT_ELEMENT_SIZE \<and> elems_ok st"
  by (simp_all add: elems_ok_def)

lemma elems_ok_subset: "set st' \<subseteq> set st \<Longrightarrow> elems_ok st \<Longrightarrow> elems_ok st'"
  by (auto simp: elems_ok_def)

lemma small_elems [simp]: "length (vch_bool b) \<le> MAX_SCRIPT_ELEMENT_SIZE"
  "\<bar>n\<bar> < 2 ^ 33 \<Longrightarrow> length (scriptnum_serialize n) \<le> MAX_SCRIPT_ELEMENT_SIZE"
  using length_serialize_small [of n] by (simp_all add: vch_bool_def vchTrue_def vchFalse_def MAX_SCRIPT_ELEMENT_SIZE_def)

lemma serialize_length_elem:
  "length (x :: bytes) \<le> MAX_SCRIPT_ELEMENT_SIZE \<Longrightarrow> length (scriptnum_serialize (int (length x))) \<le> MAX_SCRIPT_ELEMENT_SIZE"
  "length (st :: bytes list) < 2 ^ 33 \<Longrightarrow> length (scriptnum_serialize (int (length st))) \<le> MAX_SCRIPT_ELEMENT_SIZE"
  by (rule small_elems(2), simp add: MAX_SCRIPT_ELEMENT_SIZE_def)+

definition hash_sizes_ok :: "hash_functions \<Rightarrow> bool" where
  "hash_sizes_ok H \<longleftrightarrow> (\<forall>v. length (CRIPEMD160 H v) = 20 \<and> length (CSHA1 H v) = 20 \<and> length (CSHA256 H v) = 32)"

lemma shuffle_elems:
  "shuffle opcode st = Some st' \<Longrightarrow> elems_ok st \<Longrightarrow> length st < 2 ^ 33 \<Longrightarrow> elems_ok st'"
  unfolding shuffle_def by (auto split: if_splits list.splits intro!: serialize_length_elem)

section \<open>Postconditions\<close>

definition good :: "('a \<Rightarrow> bool) \<Rightarrow> script_stop + 'a \<Rightarrow> bool" where
  \<comment> \<open>no assertion fails, and a result satisfies the predicate\<close>
  "good Q r \<longleftrightarrow> (case r of Inl e \<Rightarrow> e \<noteq> AssertFailed | Inr x \<Rightarrow> Q x)"

named_theorems good_rules "rules that reduce a postcondition to the parts of a program"

lemma good_err [good_rules]: "good Q (err e)"
  by (simp add: good_def)

lemma good_Inr [good_rules]: "Q x \<Longrightarrow> good Q (Inr x)"
  by (simp add: good_def)

lemma good_if [good_rules]: "(b \<Longrightarrow> good Q x) \<Longrightarrow> (\<not> b \<Longrightarrow> good Q y) \<Longrightarrow> good Q (if b then x else y)"
  by simp

lemma good_bind [good_rules]: "good (\<lambda>x. good Q (f x)) m \<Longrightarrow> good Q (sum_bind m f)"
  by (cases m) (simp_all add: good_def)

lemma good_list [good_rules]:
  "(xs = [] \<Longrightarrow> good Q a) \<Longrightarrow> (\<And>y ys. xs = y # ys \<Longrightarrow> good Q (f y ys)) \<Longrightarrow> good Q (case xs of [] \<Rightarrow> a | y # ys \<Rightarrow> f y ys)"
  by (cases xs) simp_all

lemma good_option [good_rules]:
  "(r = None \<Longrightarrow> good Q a) \<Longrightarrow> (\<And>y. r = Some y \<Longrightarrow> good Q (f y)) \<Longrightarrow> good Q (case r of None \<Rightarrow> a | Some y \<Rightarrow> f y)"
  by (cases r) simp_all

lemma good_let [good_rules]: "good Q (f x) \<Longrightarrow> good Q (let y = x in f y)"
  by simp

lemma good_mono: "good P r \<Longrightarrow> (\<And>x. P x \<Longrightarrow> Q x) \<Longrightarrow> good Q r"
  by (auto simp: good_def split: sum.splits)

lemma goodD: "good Q r \<Longrightarrow> r = Inr x \<Longrightarrow> Q x"
  by (simp add: good_def)

lemma good_no_assert: "good Q r \<Longrightarrow> r \<noteq> Inl AssertFailed"
  by (auto simp: good_def)

lemma good_read_num: "(\<And>n. \<bar>n\<bar> < 2 ^ 31 \<Longrightarrow> Q n) \<Longrightarrow> good Q (read_num flags v)"
  using read_num_bound [of flags v] by (auto simp: good_def read_num_def split: option.splits)

lemma good_read_num5: "(\<And>n. Q n) \<Longrightarrow> good Q (read_num5 flags v)"
  by (auto simp: good_def read_num5_def split: option.splits)

lemma good_asserted: "r \<noteq> None \<Longrightarrow> (\<And>x. r = Some x \<Longrightarrow> Q x) \<Longrightarrow> good Q (asserted r)"
  by (auto simp: good_def asserted_def)

section \<open>Instructions\<close>

lemma good_with_verify:
  "length x \<le> MAX_SCRIPT_ELEMENT_SIZE \<Longrightarrow> elems_ok st \<Longrightarrow> good elems_ok (with_verify opcode v e b (x # st))"
  unfolding with_verify_def by (intro good_rules) simp_all

lemma good_op_equal: "elems_ok st \<Longrightarrow> good elems_ok (op_equal opcode st)"
  unfolding op_equal_def by (intro good_rules good_with_verify) auto

lemma num_unary_Some:
  "opcode \<in> set [OP_1ADD, OP_1SUB, OP_NEGATE, OP_ABS, OP_NOT, OP_0NOTEQUAL] \<Longrightarrow> \<bar>n\<bar> < 2 ^ 31 \<Longrightarrow> num_unary opcode n \<noteq> None"
  by (auto simp: num_unary_def num_plus_assign_def num_minus_assign_def num_neg_def)

lemma num_binary_Some:
  assumes "opcode = OP_ADD \<or> opcode = OP_SUB \<or> OP_BOOLAND \<le> opcode \<and> opcode \<le> OP_MAX"
  shows "num_binary opcode a b \<noteq> None"
proof -
  have "num_binary opcode a b \<noteq> None" if "unat opcode = 154 + k" "k < 11" for k
  proof -
    have "k = 0 \<or> k = 1 \<or> k = 2 \<or> k = 3 \<or> k = 4 \<or> k = 5 \<or> k = 6 \<or> k = 7 \<or> k = 8 \<or> k = 9 \<or> k = 10"
      using that(2) by presburger
    then show ?thesis using that(1) by (elim disjE) (simp_all add: num_binary_def word_unat_eq_iff)
  qed
  note range = this [of "unat opcode - 154"]
  show ?thesis
  proof (cases "OP_BOOLAND \<le> opcode \<and> opcode \<le> OP_MAX")
    case True
    then show ?thesis by (intro range) (auto simp: word_le_nat_alt)
  next
    case False
    then show ?thesis using assms by (auto simp: num_binary_def)
  qed
qed

lemma good_op_unary:
  "opcode \<in> set [OP_1ADD, OP_1SUB, OP_NEGATE, OP_ABS, OP_NOT, OP_0NOTEQUAL] \<Longrightarrow> elems_ok st \<Longrightarrow> good elems_ok (op_unary flags opcode st)"
  unfolding op_unary_def
  by (intro good_rules good_read_num good_asserted num_unary_Some) (auto intro!: small_elems(2) dest: num_unary_bound)

lemma good_op_binary:
  "opcode = OP_ADD \<or> opcode = OP_SUB \<or> OP_BOOLAND \<le> opcode \<and> opcode \<le> OP_MAX \<Longrightarrow> elems_ok st \<Longrightarrow>
   good elems_ok (op_binary flags opcode st)"
  unfolding op_binary_def
  by (intro good_rules good_read_num good_asserted num_binary_Some good_with_verify) (auto intro!: small_elems(2) dest: num_binary_bound)

lemma good_op_within: "elems_ok st \<Longrightarrow> good elems_ok (op_within flags st)"
  unfolding op_within_def by (intro good_rules good_read_num) auto

lemma good_op_hash: "hash_sizes_ok H \<Longrightarrow> elems_ok st \<Longrightarrow> good elems_ok (op_hash H opcode st)"
  unfolding op_hash_def
  by (intro good_rules) (auto simp: hash_sizes_ok_def CHash160_def CHash256_def MAX_SCRIPT_ELEMENT_SIZE_def)

lemma good_op_pick_roll: "elems_ok st \<Longrightarrow> good elems_ok (op_pick_roll flags opcode st)"
proof -
  assume ok: "elems_ok st"
  have t: "elems_ok (tl st)" using ok by (cases st) simp_all
  have d: "elems_ok (take n (tl st) @ drop m (tl st))" for n m
    using t by (rule elems_ok_subset [rotated]) (auto dest: in_set_takeD in_set_dropD)
  have e: "length (tl st ! n) \<le> MAX_SCRIPT_ELEMENT_SIZE" if "n < length (tl st)" for n
    using t nth_mem [OF that] unfolding elems_ok_def by blast
  show ?thesis unfolding op_pick_roll_def
    by (intro good_rules good_read_num) (use t d e in auto)
qed

section \<open>The state\<close>

definition eval_ok :: "eval_state \<Rightarrow> bool" where
  "eval_ok s \<longleftrightarrow> elems_ok (stk s) \<and> elems_ok (altstk s) \<and> nOpCount s \<le> MAX_OPS_PER_SCRIPT"

definition keeps :: "eval_state \<Rightarrow> eval_state \<Rightarrow> bool" where
  \<comment> \<open>the invariant holds, the conditionals and the count of the instruction are as before\<close>
  "keeps s s' \<longleftrightarrow> eval_ok s' \<and> vfExec s' = vfExec s \<and> nOpCount s \<le> nOpCount s'"

lemma keeps_refl: "eval_ok s \<Longrightarrow> keeps s s"
  by (simp add: keeps_def)

lemma keeps_stk: "eval_ok s \<Longrightarrow> elems_ok st \<Longrightarrow> keeps s (s\<lparr>stk := st\<rparr>)"
  by (simp add: keeps_def eval_ok_def)

lemma eval_okD: "eval_ok s \<Longrightarrow> elems_ok (stk s)" "eval_ok s \<Longrightarrow> elems_ok (altstk s)"
  by (simp_all add: eval_ok_def)

lemma good_on_stack: "eval_ok s \<Longrightarrow> good elems_ok (f (stk s)) \<Longrightarrow> good (keeps s) (on_stack f s)"
  unfolding on_stack_def by (intro good_rules) (auto elim!: good_mono intro: good_Inr keeps_stk)

lemma good_op_stack: "eval_ok s \<Longrightarrow> length (stk s) < 2 ^ 33 \<Longrightarrow> good (keeps s) (op_stack opcode s)"
  unfolding op_stack_def by (intro good_rules keeps_stk) (auto dest: shuffle_elems eval_okD)

lemma good_op_discouraged_nop: "eval_ok s \<Longrightarrow> good (keeps s) (op_discouraged_nop flags s)"
  unfolding op_discouraged_nop_def by (intro good_rules keeps_refl)

lemma good_op_checklocktimeverify: "eval_ok s \<Longrightarrow> good (keeps s) (op_checklocktimeverify flags ck s)"
  unfolding op_checklocktimeverify_def by (intro good_rules good_read_num5 keeps_refl good_op_discouraged_nop)

lemma good_op_checksequenceverify: "eval_ok s \<Longrightarrow> good (keeps s) (op_checksequenceverify flags ck s)"
  unfolding op_checksequenceverify_def by (intro good_rules good_read_num5 keeps_refl good_op_discouraged_nop)

lemma good_op_verify: "eval_ok s \<Longrightarrow> good (keeps s) (op_verify s)"
  unfolding op_verify_def by (intro good_rules keeps_stk) (auto dest: eval_okD)

lemma good_op_altstack:
  "eval_ok s \<Longrightarrow> good (keeps s) (op_toaltstack s)" "eval_ok s \<Longrightarrow> good (keeps s) (op_fromaltstack s)"
  unfolding op_toaltstack_def op_fromaltstack_def by (intro good_rules; auto simp: keeps_def eval_ok_def)+

lemma good_op_push_number: "eval_ok s \<Longrightarrow> good (keeps s) (op_push_number opcode s)"
proof -
  have "\<bar>uint opcode - 80\<bar> < 256" using uint_u8_bound [of opcode] uint_ge_0 [of opcode] by (simp only: abs_less_iff) linarith
  then have "\<bar>uint opcode - 80\<bar> < 2 ^ 33" by simp
  then show "eval_ok s \<Longrightarrow> ?thesis" unfolding op_push_number_def
    using small_elems(2) [of "uint opcode - 80"] by (intro good_rules keeps_stk) (auto dest: eval_okD)
qed

lemma good_op_checksig: "eval_ok s \<Longrightarrow> good (keeps s) (op_checksig H flags ck opcode s)"
  unfolding op_checksig_def
  by (intro good_rules good_mono [OF good_with_verify] keeps_stk) (auto dest: eval_okD)

lemma good_multisig_finish: "elems_ok st \<Longrightarrow> good elems_ok (multisig_finish flags opcode b st)"
  unfolding multisig_finish_def by (intro good_rules good_with_verify) auto

lemma good_multisig_loop: "good (\<lambda>_. True) (multisig_loop H flags ck code st isig ikey nSigs nKeys)"
proof (induction H flags ck code st isig ikey nSigs nKeys rule: multisig_loop.induct)
  case (1 H flags ck code st isig ikey nSigs nKeys)
  then show ?case by (subst multisig_loop.simps) (intro good_rules; simp)
qed

lemma good_op_checkmultisig: "eval_ok s \<Longrightarrow> good (keeps s) (op_checkmultisig H flags ck opcode s)"
proof -
  assume ok: "eval_ok s"
  have d: "elems_ok (drop i (stk s))" for i
    using eval_okD(1) [OF ok] by (rule elems_ok_subset [rotated]) (rule set_drop_subset)
  show ?thesis unfolding op_checkmultisig_def
    by (intro good_rules good_read_num good_mono [OF good_multisig_loop] good_mono [OF good_multisig_finish [OF d]])
      (use ok in \<open>auto simp: keeps_def eval_ok_def\<close>)
qed

section \<open>The switch and the loop\<close>

definition depth_step :: "u8 \<Rightarrow> nat \<Rightarrow> nat option" where
  \<comment> \<open>the number of open conditionals\<close>
  "depth_step opcode d =
     (if opcode = OP_IF \<or> opcode = OP_NOTIF then Some (d + 1)
      else if opcode = OP_ELSE then (if d = 0 then None else Some d)
      else if opcode = OP_ENDIF then (if d = 0 then None else Some (d - 1))
      else Some d)"

definition executed :: "u8 \<Rightarrow> eval_state \<Rightarrow> eval_state \<Rightarrow> bool" where
  "executed opcode s s' \<longleftrightarrow> eval_ok s' \<and> nOpCount s \<le> nOpCount s' \<and> opcode \<noteq> OP_VERIF \<and> opcode \<noteq> OP_VERNOTIF \<and>
     depth_step opcode (length (vfExec s)) = Some (length (vfExec s'))"

lemma keeps_executed:
  "opcode \<notin> set [OP_IF, OP_NOTIF, OP_ELSE, OP_ENDIF, OP_VERIF, OP_VERNOTIF] \<Longrightarrow> keeps s s' \<Longrightarrow> executed opcode s s'"
  by (simp add: keeps_def executed_def depth_step_def)

lemma good_executed:
  "opcode \<notin> set [OP_IF, OP_NOTIF, OP_ELSE, OP_ENDIF, OP_VERIF, OP_VERNOTIF] \<Longrightarrow> good (keeps s) r \<Longrightarrow> good (executed opcode s) r"
  by (erule good_mono) (rule keeps_executed)

lemma good_conditionals:
  "eval_ok s \<Longrightarrow> opcode = OP_IF \<or> opcode = OP_NOTIF \<Longrightarrow> good (executed opcode s) (op_if fExec opcode s)"
  "eval_ok s \<Longrightarrow> opcode = OP_ELSE \<Longrightarrow> good (executed opcode s) (op_else s)"
  "eval_ok s \<Longrightarrow> opcode = OP_ENDIF \<Longrightarrow> good (executed opcode s) (op_endif s)"
  unfolding op_if_def op_else_def op_endif_def
  by (intro good_rules; auto simp: executed_def depth_step_def eval_ok_def)+

lemma byte_in_ranges:
  fixes x :: u8
  assumes "x \<in> set [OP_IF, OP_NOTIF, OP_ELSE, OP_ENDIF, OP_VERIF, OP_VERNOTIF]"
  shows "\<not> (OP_1 \<le> x \<and> x \<le> OP_16)" "\<not> (OP_NOP4 \<le> x \<and> x \<le> OP_NOP10)" "\<not> (OP_2DROP \<le> x \<and> x \<le> OP_TUCK)"
    "\<not> (OP_BOOLAND \<le> x \<and> x \<le> OP_MAX)" "\<not> (OP_RIPEMD160 \<le> x \<and> x \<le> OP_HASH256)" "\<not> x \<le> OP_PUSHDATA4"
    "OP_IF \<le> x \<and> x \<le> OP_ENDIF"
  using assms by auto

lemma good_exec_conditional:
  assumes "eval_ok s" "opcode \<in> set [OP_IF, OP_NOTIF, OP_ELSE, OP_ENDIF, OP_VERIF, OP_VERNOTIF]"
  shows "good (executed opcode s) (exec_switch H flags ck pc fExec opcode s)"
  using good_conditionals [OF assms(1)] assms(2) unfolding exec_switch_def list.set insert_iff empty_iff
  by (elim disjE) (simp_all add: good_err)

lemma good_exec_other:
  assumes "hash_sizes_ok H" "eval_ok s" "length (stk s) < 2 ^ 33"
    and n: "opcode \<notin> set [OP_IF, OP_NOTIF, OP_ELSE, OP_ENDIF, OP_VERIF, OP_VERNOTIF]"
  shows "good (keeps s) (exec_switch H flags ck pc fExec opcode s)"
proof -
  note ok = assms(2) eval_okD [OF assms(2)]
  have sep: "keeps s (s\<lparr>pbegincodehash := pc\<rparr>)" using assms(2) by (simp add: keeps_def eval_ok_def)
  show ?thesis unfolding exec_switch_def
    apply (intro good_rules good_on_stack good_op_push_number keeps_refl good_op_checklocktimeverify good_op_checksequenceverify
      good_op_discouraged_nop good_op_verify good_op_altstack good_op_pick_roll good_op_stack good_op_equal good_op_unary good_op_binary
      good_op_within good_op_hash good_op_checksig good_op_checkmultisig ok assms sep)
    using n by simp_all
qed

lemma good_exec_switch:
  assumes "hash_sizes_ok H" "eval_ok s" "length (stk s) < 2 ^ 33"
  shows "good (executed opcode s) (exec_switch H flags ck pc fExec opcode s)"
  using good_exec_conditional [OF assms(2)] good_executed [OF _ good_exec_other [OF assms]] by metis

definition limits_ok :: "eval_state \<Rightarrow> bool" where
  "limits_ok s \<longleftrightarrow> eval_ok s \<and> length (stk s) + length (altstk s) \<le> 1000"

definition accepted_op :: "u8 \<Rightarrow> bytes \<Rightarrow> bool" where
  \<comment> \<open>an instruction that can occur in a script that succeeds\<close>
  "accepted_op opcode d \<longleftrightarrow>
     length d \<le> MAX_SCRIPT_ELEMENT_SIZE \<and> opcode \<notin> set disabled_opcodes \<and> opcode \<noteq> OP_VERIF \<and> opcode \<noteq> OP_VERNOTIF"

definition counted :: "u8 \<Rightarrow> int" where
  "counted opcode = (if opcode > OP_16 then 1 else 0)"

lemma depth_step_other: "\<not> (OP_IF \<le> opcode \<and> opcode \<le> OP_ENDIF) \<Longrightarrow> depth_step opcode d = Some d"
  by (auto simp: depth_step_def)

lemma not_cond_range: "\<not> (OP_IF \<le> opcode \<and> opcode \<le> OP_ENDIF) \<Longrightarrow> opcode \<noteq> OP_VERIF \<and> opcode \<noteq> OP_VERNOTIF"
  by auto

lemma push_not_cond: "opcode \<le> OP_PUSHDATA4 \<Longrightarrow> \<not> (OP_IF \<le> opcode \<and> opcode \<le> OP_ENDIF)" for opcode :: u8
  by (auto simp: word_le_nat_alt)

lemma good_eval_op:
  assumes H: "hash_sizes_ok H" and s: "limits_ok s"
  shows "good (\<lambda>s'. limits_ok s' \<and> accepted_op opcode vch \<and> nOpCount s + counted opcode \<le> nOpCount s' \<and>
     depth_step opcode (length (vfExec s)) = Some (length (vfExec s')))
   (eval_op H flags ck pc opcode vch s)"
proof -
  let ?Q = "\<lambda>s'. limits_ok s' \<and> accepted_op opcode vch \<and> nOpCount s + counted opcode \<le> nOpCount s' \<and>
     depth_step opcode (length (vfExec s)) = Some (length (vfExec s'))"
  have fin: "good ?Q (check_stack_size s')"
    if "eval_ok s'" "accepted_op opcode vch" "nOpCount s + counted opcode \<le> nOpCount s'"
      "depth_step opcode (length (vfExec s)) = Some (length (vfExec s'))" for s'
    using that unfolding check_stack_size_def by (intro good_rules) (auto simp: limits_ok_def)
  have cnt: "good (\<lambda>s1. eval_ok s1 \<and> stk s1 = stk s \<and> vfExec s1 = vfExec s \<and> nOpCount s1 = nOpCount s + counted opcode) (count_op opcode s)"
    using s unfolding count_op_def Let_def
    by (intro good_rules) (auto simp: limits_ok_def eval_ok_def counted_def)
  have body: "good (\<lambda>s'. good ?Q (check_stack_size s'))
      (if \<not> list_ex Not (vfExec s) \<and> opcode \<le> OP_PUSHDATA4 then exec_value flags opcode vch s1
       else if \<not> list_ex Not (vfExec s) \<or> OP_IF \<le> opcode \<and> opcode \<le> OP_ENDIF
       then exec_switch H flags ck pc (\<not> list_ex Not (vfExec s)) opcode s1 else Inr s1)"
    if l: "\<not> length vch > MAX_SCRIPT_ELEMENT_SIZE" and d: "opcode \<notin> set disabled_opcodes" and
      s1: "eval_ok s1 \<and> stk s1 = stk s \<and> vfExec s1 = vfExec s \<and> nOpCount s1 = nOpCount s + counted opcode" for s1
  proof -
    have small: "length (stk s1) < 2 ^ 33" using s s1 by (simp add: limits_ok_def)
    have acc: "accepted_op opcode vch" if "opcode \<noteq> OP_VERIF" "opcode \<noteq> OP_VERNOTIF" using that l d by (simp add: accepted_op_def)
    have push: "good (\<lambda>s'. good ?Q (check_stack_size s')) (exec_value flags opcode vch s1)" if p: "opcode \<le> OP_PUSHDATA4"
    proof -
      note r = push_not_cond [OF p]
      have "eval_ok (s1\<lparr>stk := vch # stk s1\<rparr>)" using s1 l by (auto simp: eval_ok_def)
      then have "good ?Q (check_stack_size (s1\<lparr>stk := vch # stk s1\<rparr>))"
        by (rule fin) (use acc not_cond_range [OF r] depth_step_other [OF r] s1 in simp_all)
      then show ?thesis unfolding exec_value_def by (intro good_rules)
    qed
    have sw: "good (\<lambda>s'. good ?Q (check_stack_size s')) (exec_switch H flags ck pc fExec opcode s1)" for fExec
      by (rule good_mono [OF good_exec_switch [OF H conjunct1 [OF s1] small]], rule fin)
        (use s1 acc in \<open>auto simp: executed_def\<close>)
    have skip: "good (\<lambda>s'. good ?Q (check_stack_size s')) (Inr s1)" if r: "\<not> (OP_IF \<le> opcode \<and> opcode \<le> OP_ENDIF)"
      using s1 acc not_cond_range [OF r] depth_step_other [OF r] by (intro good_Inr fin) simp_all
    show ?thesis using push sw skip by (intro good_if) blast+
  qed
  have "good (\<lambda>s1. good ?Q (if opcode \<in> set disabled_opcodes then err SCRIPT_ERR_DISABLED_OPCODE
        else sum_bind
          (if \<not> list_ex Not (vfExec s) \<and> opcode \<le> OP_PUSHDATA4 then exec_value flags opcode vch s1
           else if \<not> list_ex Not (vfExec s) \<or> OP_IF \<le> opcode \<and> opcode \<le> OP_ENDIF
           then exec_switch H flags ck pc (\<not> list_ex Not (vfExec s)) opcode s1 else Inr s1)
          check_stack_size)) (count_op opcode s)" if "\<not> length vch > MAX_SCRIPT_ELEMENT_SIZE"
    by (rule good_mono [OF cnt]) (intro good_if good_err good_bind body that)
  then show ?thesis unfolding eval_op_def Let_def by (intro good_if good_err good_bind)
qed

fun depth_run :: "u8 list \<Rightarrow> nat \<Rightarrow> nat option" where
  "depth_run [] d = Some d"
| "depth_run (opcode # rest) d = Option.bind (depth_step opcode d) (depth_run rest)"

lemma good_eval_loop:
  "hash_sizes_ok H \<Longrightarrow> limits_ok s \<Longrightarrow> good (\<lambda>s'. limits_ok s' \<and> (\<exists>ops. parse_script pc = Some ops \<and>
     (\<forall>(opcode, d) \<in> set ops. accepted_op opcode d) \<and>
     nOpCount s + (\<Sum>x \<leftarrow> ops. counted (fst x)) \<le> nOpCount s' \<and>
     depth_run (map fst ops) (length (vfExec s)) = Some (length (vfExec s'))))
   (eval_loop H flags ck pc s)"
proof (induction H flags ck pc s rule: eval_loop.induct)
  case (1 H flags ck pc s)
  show ?case
  proof (cases "pc = []")
    case True
    then show ?thesis using 1 by (subst eval_loop.simps) (simp add: good_def)
  next
    case ne: False
    obtain r opcode d pc' where g: "GetOp2 pc = (r, opcode, d, pc')" by (cases "GetOp2 pc")
    show ?thesis
    proof (cases r)
      case False
      then show ?thesis using ne g by (subst eval_loop.simps) (simp add: good_err)
    next
      case True
      let ?P = "\<lambda>s1. limits_ok s1 \<and> accepted_op opcode d \<and> nOpCount s + counted opcode \<le> nOpCount s1 \<and>
        depth_step opcode (length (vfExec s)) = Some (length (vfExec s1))"
      have step: "good ?P (eval_op H flags ck pc' opcode d s)" by (rule good_eval_op [OF 1(2,3)])
      have e: "eval_loop H flags ck pc s = sum_bind (eval_op H flags ck pc' opcode d s) (eval_loop H flags ck pc')"
        using ne g True by (subst eval_loop.simps) (auto split: sum.split)
      have p: "parse_script pc = map_option (Cons (opcode, d)) (parse_script pc')"
        using ne g True by (subst parse_script.simps) simp
      show ?thesis
      proof (cases "eval_op H flags ck pc' opcode d s")
        case (Inl x)
        then show ?thesis using step by (simp add: e good_def)
      next
        case (Inr s1)
        then have P: "?P s1" using goodD [OF step] by blast
        have "good (\<lambda>s'. limits_ok s' \<and> (\<exists>ops. parse_script pc' = Some ops \<and>
           (\<forall>(opcode, d) \<in> set ops. accepted_op opcode d) \<and>
           nOpCount s1 + (\<Sum>x \<leftarrow> ops. counted (fst x)) \<le> nOpCount s' \<and>
           depth_run (map fst ops) (length (vfExec s1)) = Some (length (vfExec s')))) (eval_loop H flags ck pc' s1)"
          using "1.IH" [OF ne refl, of s1] True g Inr "1.prems" P by simp
        moreover have "eval_loop H flags ck pc s = eval_loop H flags ck pc' s1" using e Inr by simp
        ultimately show ?thesis using P p by (auto elim!: good_mono)
      qed
    qed
  qed
qed

lemma EvalScript_within_limits:
  assumes H: "hash_sizes_ok H" and st: "elems_ok stack0" "length stack0 \<le> 1000"
  shows "EvalScript H stack0 script flags ck \<noteq> Inl AssertFailed \<and>
    (\<forall>st. EvalScript H stack0 script flags ck = Inr st \<longrightarrow>
       elems_ok st \<and> length st \<le> 1000 \<and> length script \<le> 10000 \<and>
       (\<exists>ops. parse_script script = Some ops \<and> (\<forall>(opcode, d) \<in> set ops. accepted_op opcode d) \<and>
          (\<Sum>x \<leftarrow> ops. counted (fst x)) \<le> MAX_OPS_PER_SCRIPT \<and> depth_run (map fst ops) 0 = Some 0))"
proof -
  let ?s = "\<lparr>stk = stack0, altstk = [], vfExec = [], pbegincodehash = script, nOpCount = 0\<rparr>"
  have "limits_ok ?s" using st by (simp add: limits_ok_def eval_ok_def MAX_OPS_PER_SCRIPT_def)
  note l = good_eval_loop [OF H this, of script flags ck]
  have "good (\<lambda>st. elems_ok st \<and> length st \<le> 1000 \<and> length script \<le> 10000 \<and>
       (\<exists>ops. parse_script script = Some ops \<and> (\<forall>(opcode, d) \<in> set ops. accepted_op opcode d) \<and>
          (\<Sum>x \<leftarrow> ops. counted (fst x)) \<le> MAX_OPS_PER_SCRIPT \<and> depth_run (map fst ops) 0 = Some 0))
     (EvalScript H stack0 script flags ck)"
    unfolding EvalScript_def
  proof (intro good_rules, rule good_mono [OF l], intro good_if good_err good_Inr)
    fix s'
    assume len: "\<not> 10000 < length script" and v: "\<not> vfExec s' \<noteq> []" and s': "limits_ok s' \<and> (\<exists>ops. parse_script script = Some ops \<and>
       (\<forall>(opcode, d) \<in> set ops. accepted_op opcode d) \<and>
       nOpCount ?s + (\<Sum>x \<leftarrow> ops. counted (fst x)) \<le> nOpCount s' \<and>
       depth_run (map fst ops) (length (vfExec ?s)) = Some (length (vfExec s')))"
    then show "elems_ok (stk s') \<and> length (stk s') \<le> 1000 \<and> length script \<le> 10000 \<and>
       (\<exists>ops. parse_script script = Some ops \<and> (\<forall>(opcode, d) \<in> set ops. accepted_op opcode d) \<and>
          (\<Sum>x \<leftarrow> ops. counted (fst x)) \<le> MAX_OPS_PER_SCRIPT \<and> depth_run (map fst ops) 0 = Some 0)"
      by (fastforce simp: limits_ok_def eval_ok_def)
  qed
  then show ?thesis using good_no_assert goodD by fastforce
qed

text \<open>C9: \<open>EvalScript\<close> stays within its limits and never fails an assertion.  From a stack of at
  most 1000 elements of at most 520 bytes it returns an error, or succeeds with such a stack; and
  it succeeds only on scripts of at most 10000 bytes that read to their end, contain no disabled
  opcode and no \<open>OP_VERIF\<close> or \<open>OP_VERNOTIF\<close> (not even in a branch that is not taken), push
  at most 520 bytes at once, have at most 201 counted operations, and whose conditionals are
  balanced.\<close>

theorem EvalScript_limits:
  assumes H: "hash_sizes_ok H" and st: "elems_ok stack0" "length stack0 \<le> 1000"
  shows "EvalScript H stack0 script flags ck \<noteq> Inl AssertFailed \<and>
    (\<forall>st. EvalScript H stack0 script flags ck = Inr st \<longrightarrow>
       elems_ok st \<and> length st \<le> 1000 \<and> length script \<le> 10000 \<and>
       (\<exists>ops. parse_script script = Some ops \<and> (\<forall>(opcode, d) \<in> set ops. accepted_op opcode d) \<and>
          (\<Sum>x \<leftarrow> ops. counted (fst x)) \<le> MAX_OPS_PER_SCRIPT \<and> depth_run (map fst ops) 0 = Some 0))"
  by (rule EvalScript_within_limits [OF assms])

definition sample_hashes :: hash_functions where
  "sample_hashes = \<lparr>CRIPEMD160 = (\<lambda>v. replicate 20 (foldr (+) v 1)), CSHA1 = (\<lambda>v. replicate 20 (foldr (+) v 2)),
     CSHA256 = (\<lambda>v. replicate 32 (foldr (+) v 3)), CheckLowS = (\<lambda>_. True)\<rparr>"

definition sample_checker :: BaseSignatureChecker where
  "sample_checker = \<lparr>CheckSig = (\<lambda>sig pk code. take 1 sig = take 1 pk), CheckLockTime = (\<lambda>_. False), CheckSequence = (\<lambda>_. False)\<rparr>"

lemma sample_hashes_ok: "hash_sizes_ok sample_hashes"
  by (simp add: hash_sizes_ok_def sample_hashes_def)

lemma EvalScript_limits_witness:
  "EvalScript sample_hashes [[1]] [OP_IF, 3, 1, 2, 3, OP_ELSE, OP_RETURN, OP_ENDIF, OP_DUP, OP_EQUALVERIFY, OP_HASH160] 0 sample_checker \<noteq> Inl AssertFailed \<and>
   (\<exists>st. EvalScript sample_hashes [[1], [7]] [OP_IF, OP_SIZE, OP_ELSE, OP_RETURN, OP_ENDIF, OP_HASH160] 0 sample_checker = Inr st \<and>
     elems_ok st \<and> length st \<le> 1000)"
proof -
  let ?s = "[OP_IF, OP_SIZE, OP_ELSE, OP_RETURN, OP_ENDIF, OP_HASH160]"
  have "(case EvalScript sample_hashes [[1], [7]] ?s 0 sample_checker of Inl _ \<Rightarrow> False | Inr _ \<Rightarrow> True)" by code_simp
  then obtain st where st: "EvalScript sample_hashes [[1], [7]] ?s 0 sample_checker = Inr st" by (auto split: sum.splits)
  have "elems_ok [[1], [7]]" "length [[1 :: u8], [7]] \<le> 1000" "elems_ok [[1]]" "length [[1 :: u8]] \<le> 1000"
    by (simp_all add: MAX_SCRIPT_ELEMENT_SIZE_def)
  then show ?thesis using EvalScript_limits [OF sample_hashes_ok] st by blast
qed

section \<open>Verification of an input never aborts\<close>

lemma p2sh_needs_input:
  assumes "IsPayToScriptHash script"
  shows "\<exists>e. EvalScript H [] script flags ck = Inl (Err e)"
proof -
  have l: "length script = 23" "script ! 0 = OP_HASH160" using assms by (auto simp: IsPayToScriptHash_def)
  then obtain r where s: "script = OP_HASH160 # r" by (cases script) auto
  have "eval_loop H flags ck script \<lparr>stk = [], altstk = [], vfExec = [], pbegincodehash = script, nOpCount = 0\<rparr> =
      err SCRIPT_ERR_INVALID_STACK_OPERATION"
    by (subst eval_loop.simps)
      (simp add: s GetOp2_def eval_op_def count_op_def exec_switch_def on_stack_def op_hash_def Let_def disabled_opcodes_def
        MAX_OPS_PER_SCRIPT_def)
  then show ?thesis using l by (simp add: EvalScript_def)
qed

text \<open>C24: verifying an input never reaches a failed assertion, provided \<open>CLEANSTACK\<close> is only asked
  for together with \<open>P2SH\<close>: the two assertions of \<open>VerifyScript\<close> (the copied stack of a
  pay-to-script-hash spend is not empty, the flags are consistent) and those of the number
  operators hold for every pair of scripts.\<close>

theorem VerifyScript_no_abort:
  assumes H: "hash_sizes_ok H"
    and flags: "has_flag flags SCRIPT_VERIFY_CLEANSTACK \<Longrightarrow> has_flag flags SCRIPT_VERIFY_P2SH"
  shows "VerifyScript H script_sig script_pubkey flags ck \<noteq> Inl AssertFailed"
proof -
  have ev: "good (\<lambda>st'. EvalScript H st script fl ck = Inr st' \<and> elems_ok st' \<and> length st' \<le> 1000) (EvalScript H st script fl ck)"
    if "elems_ok st" "length st \<le> 1000" for st script fl
    using EvalScript_within_limits [OF H that, of script fl ck] by (auto simp: good_def split: sum.splits)
  have fin: "good (\<lambda>_. True) (final_check st)" for st unfolding final_check_def by (intro good_rules) simp
  have p2sh: "good (\<lambda>_. True) (verify_p2sh H script_sig flags ck st)"
    if "elems_ok st" "length st \<le> 1000" "st \<noteq> []" for st
    unfolding verify_p2sh_def
    by (intro good_rules good_mono [OF ev] good_mono [OF fin]) (use that in \<open>auto simp: elems_ok_def\<close>)
  have "good (\<lambda>_. True) (VerifyScript H script_sig script_pubkey flags ck)"
    unfolding VerifyScript_def
  proof (intro good_if good_err good_bind, rule good_mono [OF ev], simp, simp, intro good_bind)
    fix stack1
    assume s1: "EvalScript H [] script_sig flags ck = Inr stack1 \<and> elems_ok stack1 \<and> length stack1 \<le> 1000"
    let ?rest = "\<lambda>stack2. sum_bind (final_check stack2) (\<lambda>_.
            sum_bind (if has_flag flags SCRIPT_VERIFY_P2SH \<and> IsPayToScriptHash script_pubkey
                      then verify_p2sh H script_sig flags ck stack1 else Inr stack2) (\<lambda>stack3.
              if has_flag flags SCRIPT_VERIFY_CLEANSTACK
              then (if \<not> has_flag flags SCRIPT_VERIFY_P2SH then Inl AssertFailed
                    else if length stack3 \<noteq> 1 then err SCRIPT_ERR_CLEANSTACK else Inr ())
              else Inr ()))"
    have "good (\<lambda>_. True) (?rest stack2)" if "EvalScript H stack1 script_pubkey flags ck = Inr stack2" for stack2
    proof -
      have "stack1 \<noteq> []" if "IsPayToScriptHash script_pubkey"
        using p2sh_needs_input [OF that, of H flags ck] \<open>EvalScript H stack1 script_pubkey flags ck = Inr stack2\<close> by auto
      then show ?thesis
        by (intro good_rules good_mono [OF fin] good_mono [OF p2sh]) (use s1 flags in auto)
    qed
    then show "good (\<lambda>stack2. good (\<lambda>_. True) (?rest stack2)) (EvalScript H stack1 script_pubkey flags ck)"
      using s1 by (intro good_mono [OF ev]) auto
  qed
  then show ?thesis by (rule good_no_assert)
qed

lemma VerifyScript_no_abort_witness:
  "VerifyScript sample_hashes [OP_1] [OP_1] (SCRIPT_VERIFY_P2SH OR SCRIPT_VERIFY_CLEANSTACK) sample_checker \<noteq> Inl AssertFailed \<and>
   VerifyScript sample_hashes [OP_1] [OP_1] SCRIPT_VERIFY_CLEANSTACK sample_checker = Inl AssertFailed"
proof -
  have "has_flag (SCRIPT_VERIFY_P2SH OR SCRIPT_VERIFY_CLEANSTACK) SCRIPT_VERIFY_P2SH" by code_simp
  moreover have "VerifyScript sample_hashes [OP_1] [OP_1] SCRIPT_VERIFY_CLEANSTACK sample_checker = Inl AssertFailed" by code_simp
  ultimately show ?thesis using VerifyScript_no_abort [OF sample_hashes_ok] by blast
qed

end
