(* ===== verification/StandardScripts.thy ===== *)
theory StandardScripts
  imports EvalSafety "HOL-Library.Sublist"
begin

text \<open>
  What the common scripts mean: the exact outcome of spending a pay-to-public-key-hash output
  (\<open>VerifyScript\<close>, script/interpreter.cpp), and \<open>OP_CHECKMULTISIG\<close> as the existence of
  an order-preserving assignment of keys to signatures.
\<close>

section \<open>Running a script instruction by instruction\<close>

lemma eval_loop_Nil [simp]: "eval_loop H flags ck [] s = Inr s"
  by (subst eval_loop.simps) simp

lemma eval_loop_op:
  "op_ok (opcode, d) \<Longrightarrow> eval_loop H flags ck (enc_op (opcode, d) @ rest) s =
     sum_bind (eval_op H flags ck rest opcode d s) (eval_loop H flags ck rest)"
  by (subst eval_loop.simps) (simp split: sum.split)

lemma eval_loop_byte:
  assumes "opcode > OP_PUSHDATA4"
  shows "eval_loop H flags ck (opcode # rest) s = sum_bind (eval_op H flags ck rest opcode [] s) (eval_loop H flags ck rest)"
  using eval_loop_op [of opcode "[]" H flags ck rest s] opcode_enc [of opcode] assms by simp

definition plain_push :: "bytes \<Rightarrow> bool" where
  \<comment> \<open>data that a single push instruction of the format carries under every flag\<close>
  "plain_push d \<longleftrightarrow> 2 \<le> length d \<and> length d \<le> MAX_SCRIPT_ELEMENT_SIZE"

lemma plain_push_minimal: "plain_push d \<Longrightarrow> CheckMinimalPush d (push_op d)"
  by (auto simp: plain_push_def CheckMinimalPush_def push_op_def MAX_SCRIPT_ELEMENT_SIZE_def small_byte)

lemma push_op_le: "plain_push d \<Longrightarrow> push_op d \<le> OP_PUSHDATA4"
  by (auto simp: plain_push_def push_op_def MAX_SCRIPT_ELEMENT_SIZE_def word_le_nat_alt small_byte)

lemma push_op_not_disabled: "plain_push d \<Longrightarrow> push_op d \<notin> set disabled_opcodes"
  using push_op_le [of d] by (auto simp: disabled_opcodes_def)

lemma eval_op_push:
  assumes d: "plain_push d" and v: "list_all id (vfExec s)" and sz: "length (stk s) + length (altstk s) < 1000"
  shows "eval_op H flags ck rest (push_op d) d s = Inr (s\<lparr>stk := d # stk s\<rparr>)"
proof -
  have "\<not> push_op d > OP_16" using push_op_le [OF d] by (simp add: word_less_nat_alt word_le_nat_alt)
  moreover have "\<not> list_ex Not (vfExec s)" using v by (simp add: list_ex_iff list_all_iff)
  ultimately show ?thesis
    using d push_op_le [OF d] push_op_not_disabled [OF d] plain_push_minimal [OF d] sz
    by (simp add: eval_op_def count_op_def exec_value_def check_stack_size_def plain_push_def Let_def)
qed

lemma eval_loop_push:
  assumes "plain_push d" "list_all id (vfExec s)" "length (stk s) + length (altstk s) < 1000"
  shows "eval_loop H flags ck (push_data [] d @ rest) s = eval_loop H flags ck rest (s\<lparr>stk := d # stk s\<rparr>)"
proof -
  have "length d < 2 ^ 32" using assms(1) by (simp add: plain_push_def MAX_SCRIPT_ELEMENT_SIZE_def)
  from push_data_enc [OF this, of "[]"] show ?thesis using eval_op_push [OF assms] by (simp add: eval_loop_op)
qed

section \<open>Pay to public key hash\<close>

definition p2pkh_script :: "bytes \<Rightarrow> bytes" where
  "p2pkh_script h = build_script [] [Opcode OP_DUP, Opcode OP_HASH160, Data h, Opcode OP_EQUALVERIFY, Opcode OP_CHECKSIG]"

definition p2pkh_input :: "bytes \<Rightarrow> bytes \<Rightarrow> bytes" where
  "p2pkh_input sig pk = build_script [] [Data sig, Data pk]"

lemma push_data_app: "push_data s b = s @ push_data [] b"
  by (simp add: push_data_def Let_def)

lemma p2pkh_script_eq: "p2pkh_script h = OP_DUP # OP_HASH160 # push_data [] h @ [OP_EQUALVERIFY, OP_CHECKSIG]"
  by (simp add: p2pkh_script_def push_opcode_def push_data_app [of "[OP_DUP, OP_HASH160]"])

lemma p2pkh_input_eq: "p2pkh_input sig pk = push_data [] sig @ push_data [] pk"
  by (simp add: p2pkh_input_def push_data_app [of "push_data [] sig"])

lemma p2pkh_not_p2sh: "length h = 20 \<Longrightarrow> IsPayToPublicKeyHash (p2pkh_script h) \<and> \<not> IsPayToScriptHash (p2pkh_script h)"
  by (auto simp: p2pkh_script_eq IsPayToPublicKeyHash_def IsPayToScriptHash_def push_data_def nth_append)

lemma p2pkh_ops:
  assumes "length h = 20"
  shows "parse_script (p2pkh_script h) = Some [(OP_DUP, []), (OP_HASH160, []), (20, h), (OP_EQUALVERIFY, []), (OP_CHECKSIG, [])]"
proof -
  have "item_ok i" if "i \<in> set [Opcode OP_DUP, Opcode OP_HASH160, Data h, Opcode OP_EQUALVERIFY, Opcode OP_CHECKSIG]" for i
    using that assms by auto
  then have "parse_script (p2pkh_script h) =
      Some (map item_op [Opcode OP_DUP, Opcode OP_HASH160, Data h, Opcode OP_EQUALVERIFY, Opcode OP_CHECKSIG])"
    unfolding p2pkh_script_def by (intro script_items) blast
  then show ?thesis using assms by (simp add: push_op_def)
qed

lemma p2pkh_code:
  \<comment> \<open>the signature is not part of the script, so nothing is deleted\<close>
  assumes "length h = 20" "plain_push sig" "sig \<noteq> h"
  shows "fst (FindAndDelete (p2pkh_script h) (push_data [] sig)) = p2pkh_script h"
proof -
  let ?ops = "[(OP_DUP, []), (OP_HASH160, []), (20, h), (OP_EQUALVERIFY, []), (OP_CHECKSIG, [])]"
  have l: "length sig < 2 ^ 32" "sig \<noteq> []" using assms(2) by (auto simp: plain_push_def MAX_SCRIPT_ELEMENT_SIZE_def)
  have e: "push_data [] sig = enc_op (push_op sig, sig)" "op_ok (push_op sig, sig)" using push_data_enc [OF l(1), of "[]"] by simp_all
  have p: "p2pkh_script h = enc_ops ?ops" using p2pkh_ops [OF assms(1)] parse_script_iff by blast
  have "fst (FindAndDelete (p2pkh_script h) (enc_op (push_op sig, sig))) = enc_ops (filter (\<lambda>y. y \<noteq> (push_op sig, sig)) ?ops)"
    using FindAndDelete_ops [OF p2pkh_ops [OF assms(1)] e(2)] by simp
  also have "filter (\<lambda>y. y \<noteq> (push_op sig, sig)) ?ops = ?ops" using assms(3) l(2) by auto
  finally show ?thesis using e p by simp
qed

lemma length_push_data: "plain_push d \<Longrightarrow> length (push_data [] d) \<le> 523"
  by (auto simp: push_data_def plain_push_def MAX_SCRIPT_ELEMENT_SIZE_def Let_def)

lemma eval_op_plain:
  \<comment> \<open>an executed instruction that is not a push\<close>
  assumes "opcode > OP_16" "opcode \<notin> set disabled_opcodes" "vfExec s = []" "nOpCount s < MAX_OPS_PER_SCRIPT"
  shows "eval_op H flags ck rest opcode [] s =
    sum_bind (exec_switch H flags ck rest True opcode (s\<lparr>nOpCount := nOpCount s + 1\<rparr>)) check_stack_size"
proof -
  have "\<not> opcode \<le> OP_PUSHDATA4" using assms(1) by (simp add: word_less_nat_alt word_le_nat_alt)
  then show ?thesis using assms by (simp add: eval_op_def count_op_def Let_def)
qed

definition checksig_outcome ::
  "hash_functions \<Rightarrow> u32 \<Rightarrow> BaseSignatureChecker \<Rightarrow> bytes \<Rightarrow> bytes \<Rightarrow> bytes \<Rightarrow> script_stop + bytes list" where
  "checksig_outcome H flags ck sig pk h =
     (if CHash160 H pk \<noteq> h then err SCRIPT_ERR_EQUALVERIFY
      else case check_encodings H flags sig pk of
          Some e \<Rightarrow> err e
        | None \<Rightarrow> Inr [vch_bool (CheckSig ck sig pk (p2pkh_script h))])"

lemma eval_p2pkh:
  assumes h: "length h = 20" and sig: "plain_push sig" "sig \<noteq> h" and pk: "plain_push pk"
  shows "EvalScript H [] (p2pkh_input sig pk) flags ck = Inr [pk, sig] \<and>
    EvalScript H [pk, sig] (p2pkh_script h) flags ck = checksig_outcome H flags ck sig pk h"
proof
  show "EvalScript H [] (p2pkh_input sig pk) flags ck = Inr [pk, sig]"
    using length_push_data [OF sig(1)] length_push_data [OF pk] eval_loop_push [OF pk, where rest = "[]"]
    by (simp add: EvalScript_def p2pkh_input_eq eval_loop_push [OF sig(1)])
next
  have hp: "plain_push h" using h by (simp add: plain_push_def MAX_SCRIPT_ELEMENT_SIZE_def)
  note steps = eval_loop_byte eval_op_plain exec_switch_def check_stack_size_def on_stack_def MAX_OPS_PER_SCRIPT_def
    disabled_opcodes_def
  let ?spk = "p2pkh_script h"
  have len: "\<not> length ?spk > 10000" using length_push_data [OF hp] by (simp add: p2pkh_script_eq)
  let ?s = "\<lambda>st n. \<lparr>stk = st, altstk = [], vfExec = [], pbegincodehash = ?spk, nOpCount = n\<rparr>"
  have 1: "eval_loop H flags ck ?spk (?s [pk, sig] 0) =
     eval_loop H flags ck [OP_EQUALVERIFY, OP_CHECKSIG] (?s [h, CHash160 H pk, pk, sig] 2)"
    unfolding p2pkh_script_eq [of h]
    by (simp add: steps op_stack_def shuffle_def op_hash_def eval_loop_push [OF hp])
  have 2: "eval_loop H flags ck [OP_EQUALVERIFY, OP_CHECKSIG] (?s [h, CHash160 H pk, pk, sig] 2) =
     (if CHash160 H pk \<noteq> h then err SCRIPT_ERR_EQUALVERIFY
      else eval_loop H flags ck [OP_CHECKSIG] (?s [pk, sig] 3))"
    by (simp add: steps op_equal_def with_verify_def)
  have 3: "eval_loop H flags ck [OP_CHECKSIG] (?s [pk, sig] 3) =
      (case check_encodings H flags sig pk of Some e \<Rightarrow> err e
       | None \<Rightarrow> Inr (?s [vch_bool (CheckSig ck sig pk ?spk)] 4))"
    by (simp add: steps op_checksig_def with_verify_def p2pkh_code [OF h sig] split: option.split)
  show "EvalScript H [pk, sig] ?spk flags ck = checksig_outcome H flags ck sig pk h"
    using len unfolding EvalScript_def 1 2 3 checksig_outcome_def by (simp split: option.split)
qed

lemma push_only_push: "plain_push d \<Longrightarrow> push_only_loop (push_data [] d @ rest) = push_only_loop rest"
proof -
  assume d: "plain_push d"
  have l: "length d < 2 ^ 32" using d by (simp add: plain_push_def MAX_SCRIPT_ELEMENT_SIZE_def)
  have "\<not> push_op d > OP_16" using push_op_le [OF d] by (simp add: word_less_nat_alt word_le_nat_alt)
  then show ?thesis using push_data_enc [OF l, of "[]"] by (subst push_only_loop.simps) simp
qed

text \<open>C25: spending a pay-to-public-key-hash output.  For a 20-byte hash and a signature and key
  pushed by the input (of 2 to 520 bytes, the signature not itself the hash), \<open>VerifyScript\<close>
  succeeds exactly if the key hashes to the script's hash, both pass the encoding checks of the
  flags and the checker accepts the signature over the output script; otherwise its error says
  which of these failed first.\<close>

theorem p2pkh_spend:
  assumes h: "length h = 20" and sig: "plain_push sig" "sig \<noteq> h" and pk: "plain_push pk"
    and flags: "has_flag flags SCRIPT_VERIFY_CLEANSTACK \<Longrightarrow> has_flag flags SCRIPT_VERIFY_P2SH"
  shows "VerifyScript H (p2pkh_input sig pk) (p2pkh_script h) flags ck =
    (if CHash160 H pk \<noteq> h then err SCRIPT_ERR_EQUALVERIFY
     else case check_encodings H flags sig pk of
        Some e \<Rightarrow> err e
      | None \<Rightarrow> if CheckSig ck sig pk (p2pkh_script h) then Inr () else err SCRIPT_ERR_EVAL_FALSE)"
proof -
  have push: "IsPushOnly (p2pkh_input sig pk)"
    using push_only_push [OF sig(1)] push_only_push [OF pk, of "[]"]
    by (simp add: IsPushOnly_def p2pkh_input_eq push_only_loop.simps [of "[]"])
  show ?thesis
    using eval_p2pkh [OF h sig pk, of H flags ck] p2pkh_not_p2sh [OF h] push flags
    by (auto simp: VerifyScript_def checksig_outcome_def final_check_def vch_bool_def vchTrue_def vchFalse_def CastToBool_def
        split: option.split)
qed

lemma p2pkh_spend_witness:
  "VerifyScript sample_hashes (p2pkh_input (replicate 9 7) (replicate 33 7)) (p2pkh_script (CHash160 sample_hashes (replicate 33 7))) 0 sample_checker = Inr () \<and>
   VerifyScript sample_hashes (p2pkh_input (replicate 9 8) (replicate 33 7)) (p2pkh_script (CHash160 sample_hashes (replicate 33 7))) 0 sample_checker =
     err SCRIPT_ERR_EVAL_FALSE"
proof -
  let ?h = "CHash160 sample_hashes (replicate 33 7)"
  have h: "length ?h = 20" "?h \<noteq> replicate 9 7" "?h \<noteq> replicate 9 8" using sample_hashes_ok
    by (auto simp: hash_sizes_ok_def CHash160_def dest: arg_cong [of _ _ length])
  have p: "plain_push (replicate 9 7)" "plain_push (replicate 9 8)" "plain_push (replicate 33 7)"
    by (simp_all add: plain_push_def MAX_SCRIPT_ELEMENT_SIZE_def)
  have f: "\<not> has_flag 0 f" for f by (simp add: has_flag_def)
  have e: "check_encodings H 0 sig pk = None" for H sig pk
    by (simp add: check_encodings_def CheckSignatureEncoding_def CheckPubKeyEncoding_def f)
  have ck: "CheckSig sample_checker (replicate 9 7) (replicate 33 7) c" "\<not> CheckSig sample_checker (replicate 9 8) (replicate 33 7) c" for c
    by (simp_all add: sample_checker_def)
  show ?thesis
    using p2pkh_spend [OF h(1) p(1) h(2) [symmetric] p(3), of 0 sample_hashes sample_checker]
      p2pkh_spend [OF h(1) p(2) h(3) [symmetric] p(3), of 0 sample_hashes sample_checker] f
    by (simp add: e ck)
qed

section \<open>Multiple signatures\<close>

fun greedy_match :: "('s \<Rightarrow> 'k \<Rightarrow> bool) \<Rightarrow> 's list \<Rightarrow> 'k list \<Rightarrow> bool" where
  "greedy_match ok [] keys = True"
| "greedy_match ok (s # sigs) [] = False"
| "greedy_match ok (s # sigs) (k # keys) = (if ok s k then greedy_match ok sigs keys else greedy_match ok (s # sigs) keys)"

lemma greedy_match_iff: "greedy_match ok sigs keys \<longleftrightarrow> (\<exists>ks. subseq ks keys \<and> list_all2 ok sigs ks)"
proof (induction ok sigs keys rule: greedy_match.induct)
  case (1 ok keys)
  then show ?case by auto
next
  case (2 ok s sigs)
  then show ?case by (auto simp: list_all2_Cons1)
next
  case (3 ok s sigs k keys)
  show ?case
  proof (cases "ok s k")
    case True
    have "(\<exists>ks. subseq ks (k # keys) \<and> list_all2 ok (s # sigs) ks) \<longleftrightarrow> (\<exists>ks. subseq ks keys \<and> list_all2 ok sigs ks)"
    proof
      assume "\<exists>ks. subseq ks (k # keys) \<and> list_all2 ok (s # sigs) ks"
      then obtain x ks where "subseq (x # ks) (k # keys)" "list_all2 ok sigs ks" by (auto simp: list_all2_Cons1)
      then show "\<exists>ks. subseq ks keys \<and> list_all2 ok sigs ks" by (cases "x = k") (auto dest: subseq_Cons')
    next
      assume "\<exists>ks. subseq ks keys \<and> list_all2 ok sigs ks"
      then obtain ks where "subseq ks keys" "list_all2 ok sigs ks" by blast
      then have "subseq (k # ks) (k # keys) \<and> list_all2 ok (s # sigs) (k # ks)" using True by simp
      then show "\<exists>ks. subseq ks (k # keys) \<and> list_all2 ok (s # sigs) ks" by blast
    qed
    then show ?thesis using 3 True by simp
  next
    case False
    have "(subseq ks (k # keys) \<and> list_all2 ok (s # sigs) ks) \<longleftrightarrow> (subseq ks keys \<and> list_all2 ok (s # sigs) ks)" for ks
      using False by (cases ks) auto
    then show ?thesis using 3 False by simp
  qed
qed

lemma greedy_match_too_few: "length keys < length sigs \<Longrightarrow> \<not> greedy_match ok sigs keys"
  by (induction ok sigs keys rule: greedy_match.induct) auto

lemma take_drop_nth: "i < length xs \<Longrightarrow> take (Suc n) (drop i xs) = xs ! i # take n (drop (Suc i) xs)"
  by (simp add: Cons_nth_drop_Suc [symmetric])

lemma multisig_loop_step:
  assumes "nSigs \<noteq> 0" "check_encodings H flags (st ! (isig - 1)) (st ! (ikey - 1)) = None"
  shows "multisig_loop H flags ck code st isig ikey nSigs nKeys =
    (if CheckSig ck (st ! (isig - 1)) (st ! (ikey - 1)) code
     then if nSigs - 1 > nKeys - 1 then Inr False else multisig_loop H flags ck code st (isig + 1) (ikey + 1) (nSigs - 1) (nKeys - 1)
     else if nSigs > nKeys - 1 then Inr False else multisig_loop H flags ck code st isig (ikey + 1) nSigs (nKeys - 1))"
  using assms by (subst multisig_loop.simps) (simp add: Let_def)

text \<open>Either some pair it tries has an invalid encoding, or the pass is the greedy matching.\<close>

lemma multisig_loop_outcome:
  "nSigs \<le> nKeys \<Longrightarrow> i + nSigs \<le> length st \<Longrightarrow> k + nKeys \<le> length st \<Longrightarrow>
    multisig_loop H flags ck code st (Suc i) (Suc k) nSigs nKeys =
      Inr (greedy_match (\<lambda>sig key. CheckSig ck sig key code) (take nSigs (drop i st)) (take nKeys (drop k st))) \<or>
    (\<exists>sig \<in> set (take nSigs (drop i st)). \<exists>key \<in> set (take nKeys (drop k st)). \<exists>e.
       check_encodings H flags sig key = Some e \<and> multisig_loop H flags ck code st (Suc i) (Suc k) nSigs nKeys = err e)"
proof (induction nKeys arbitrary: i k nSigs)
  case 0
  then show ?case by (subst (1) multisig_loop.simps) simp
next
  case (Suc m)
  show ?case
  proof (cases nSigs)
    case 0
    then show ?thesis by (subst (1) multisig_loop.simps) simp
  next
    case n: (Suc n)
    then have ik: "i < length st" "k < length st" using Suc.prems by simp_all
    note t = take_drop_nth [OF ik(1), of n] take_drop_nth [OF ik(2), of m]
    show ?thesis
    proof (cases "check_encodings H flags (st ! i) (st ! k)")
      case (Some e)
      have "multisig_loop H flags ck code st (Suc i) (Suc k) nSigs (Suc m) = err e"
        using Some n by (subst multisig_loop.simps) (simp add: Let_def)
      then show ?thesis using Some n t by auto
    next
      case None
      then have "check_encodings H flags (st ! (Suc i - 1)) (st ! (Suc k - 1)) = None" by simp
      note step = multisig_loop_step [OF _ this, of nSigs ck code "Suc m", unfolded n, simplified]
      show ?thesis
      proof (cases "CheckSig ck (st ! i) (st ! k) code")
        case True
        then show ?thesis using step Suc.IH [of n "Suc i" "Suc k"] Suc.prems n t by (simp add: Bex_def) blast
      next
        case False
        show ?thesis
        proof (cases "n < m")
          case True
          then show ?thesis using step False Suc.IH [of "Suc n" i "Suc k"] Suc.prems n t by (simp add: Bex_def) blast
        next
          case few: False
          then have "\<not> greedy_match (\<lambda>sig key. CheckSig ck sig key code) (take (Suc n) (drop i st)) (take m (drop (Suc k) st))"
            using Suc.prems n by (intro greedy_match_too_few) simp
          then show ?thesis using step False few n t by simp
        qed
      qed
    qed
  qed
qed

lemma op_checkmultisig_arguments:
  assumes st: "stk s = nkeys # keys @ nsigs # sigs @ rest" "rest \<noteq> []"
    and k: "read_num flags nkeys = Inr a" "getint a = int (length keys)" "int (length keys) \<le> MAX_PUBKEYS_PER_MULTISIG"
      "nOpCount s + int (length keys) \<le> MAX_OPS_PER_SCRIPT"
    and m: "read_num flags nsigs = Inr b" "getint b = int (length sigs)" "length sigs \<le> length keys"
  shows "op_checkmultisig H flags ck opcode s =
    sum_bind (multisig_loop H flags ck (delete_signatures (pbegincodehash s) sigs) (stk s) (length keys + 3) 2 (length sigs) (length keys))
      (\<lambda>fSuccess. sum_bind (multisig_finish flags opcode fSuccess rest) (\<lambda>st. Inr (s\<lparr>nOpCount := nOpCount s + int (length keys), stk := st\<rparr>)))"
proof -
  let ?st = "nkeys # keys @ nsigs # sigs @ rest" and ?K = "length keys" and ?M = "length sigs"
  have n: "?st ! Suc ?K = nsigs" "(keys @ nsigs # sigs @ rest) ! ?K = nsigs" by (simp_all add: nth_append)
  have sg: "map (\<lambda>j. (keys @ nsigs # sigs @ rest) ! Suc (?K + j)) [0..<?M] = sigs"
    by (rule nth_equalityI) (simp_all add: nth_append)
  have d: "drop (Suc (Suc (?K + ?M))) ?st = rest" by simp
  show ?thesis
    using k m st(2) unfolding op_checkmultisig_def Let_def st(1)
    by (simp add: n sg d eval_nat_numeral)
qed

definition multi_key :: "u8 \<Rightarrow> bytes" where
  \<comment> \<open>a compressed key\<close>
  "multi_key k = 2 # k # replicate 31 0"

definition multi_sig :: "u8 \<Rightarrow> bytes" where
  \<comment> \<open>DER: R is one byte, S is 1; \<open>SIGHASH_ALL\<close>\<close>
  "multi_sig k = [0x30, 6, 2, 1, k, 2, 1, 1, 1]"

definition multi_checker :: BaseSignatureChecker where
  "multi_checker = sample_checker\<lparr>CheckSig := (\<lambda>sig pk code. sig ! 4 = pk ! 1)\<rparr>"

definition strict_flags :: u32 where
  "strict_flags = SCRIPT_VERIFY_STRICTENC OR SCRIPT_VERIFY_DERSIG OR SCRIPT_VERIFY_LOW_S OR SCRIPT_VERIFY_NULLDUMMY OR SCRIPT_VERIFY_MINIMALDATA"

lemma multi_strict:
  "list_all (\<lambda>sig. list_all (\<lambda>key. check_encodings sample_hashes strict_flags sig key = None) [multi_key 3, multi_key 2, multi_key 1])
     [multi_sig 3, multi_sig 1]"
  by code_simp

lemma multi_nums:
  "\<exists>a. read_num strict_flags [3] = Inr a \<and> getint a = 3" "\<exists>b. read_num strict_flags [2] = Inr b \<and> getint b = 2"
proof -
  have "case read_num strict_flags [3] of Inl _ \<Rightarrow> False | Inr a \<Rightarrow> getint a = 3"
    "case read_num strict_flags [2] of Inl _ \<Rightarrow> False | Inr a \<Rightarrow> getint a = 2"
    by code_simp+
  then show "\<exists>a. read_num strict_flags [3] = Inr a \<and> getint a = 3" "\<exists>b. read_num strict_flags [2] = Inr b \<and> getint b = 2"
    by (auto split: sum.split_asm)
qed

text \<open>C26: \<open>OP_CHECKMULTISIG\<close> needs signatures in the order of their keys.  With the arguments on the
  stack (counts that decode to the numbers of keys and signatures, within the limits on keys and operations, and
  the extra element), it ends in one of two ways.  Either a signature or a key that it looks at has an encoding that the
  flags refuse, and it fails with that error; when the flags accept all of them, this cannot happen.  Or its
  single pass over the keys, with the early exit when fewer keys than signatures are left, finds a match
  exactly if some selection of the keys, in order, verifies the signatures one by one, for the script code without
  the signatures: trying each key only once loses no valid assignment.  The match is pushed on the rest of the
  stack, or required by \<open>OP_CHECKMULTISIGVERIFY\<close>, unless the extra element breaks \<open>NULLDUMMY\<close>.\<close>

theorem multisig_ordered_matching:
  assumes "stk s = nkeys # keys @ nsigs # sigs @ dummy # rest"
    and "read_num flags nkeys = Inr a" "getint a = int (length keys)" "int (length keys) \<le> MAX_PUBKEYS_PER_MULTISIG"
      "nOpCount s + int (length keys) \<le> MAX_OPS_PER_SCRIPT"
    and "read_num flags nsigs = Inr b" "getint b = int (length sigs)" "length sigs \<le> length keys"
    and valid: "valid = (\<lambda>sig key. CheckSig ck sig key (delete_signatures (pbegincodehash s) sigs))"
  shows "op_checkmultisig H flags ck opcode s =
      (let matched = (\<exists>ks. subseq ks keys \<and> list_all2 valid sigs ks)
       in if has_flag flags SCRIPT_VERIFY_NULLDUMMY \<and> dummy \<noteq> [] then err SCRIPT_ERR_SIG_NULLDUMMY
          else if opcode = OP_CHECKMULTISIGVERIFY \<and> \<not> matched then err SCRIPT_ERR_CHECKMULTISIGVERIFY
          else Inr (s\<lparr>nOpCount := nOpCount s + int (length keys),
                      stk := (if opcode = OP_CHECKMULTISIGVERIFY then rest else vch_bool matched # rest)\<rparr>)) \<or>
    (\<exists>sig \<in> set sigs. \<exists>key \<in> set keys. \<exists>e. check_encodings H flags sig key = Some e \<and> op_checkmultisig H flags ck opcode s = err e)"
proof -
  let ?loop = "multisig_loop H flags ck (delete_signatures (pbegincodehash s) sigs) (stk s) (length keys + 3) 2 (length sigs) (length keys)"
  note run = op_checkmultisig_arguments [OF assms(1) _ assms(2-8), simplified, of H ck opcode]
  have args: "take (length sigs) (drop (length keys + 2) (stk s)) = sigs" "take (length keys) (drop 1 (stk s)) = keys"
    by (simp_all add: assms(1))
  have "?loop = Inr (greedy_match valid sigs keys) \<or> (\<exists>sig \<in> set sigs. \<exists>key \<in> set keys. \<exists>e. check_encodings H flags sig key = Some e \<and> ?loop = err e)"
    using multisig_loop_outcome [of "length sigs" "length keys" "length keys + 2" "stk s" 1 H flags ck "delete_signatures (pbegincodehash s) sigs"]
      assms(8) unfolding args valid by (simp add: assms(1) eval_nat_numeral)
  then show ?thesis
  proof
    assume "?loop = Inr (greedy_match valid sigs keys)"
    then show ?thesis unfolding run by (simp add: greedy_match_iff multisig_finish_def with_verify_def Let_def)
  next
    assume "\<exists>sig \<in> set sigs. \<exists>key \<in> set keys. \<exists>e. check_encodings H flags sig key = Some e \<and> ?loop = err e"
    then show ?thesis unfolding run by auto
  qed
qed


lemma multisig_ordered_matching_witness:
  "\<exists>s. stk s = [3] # map multi_key [3, 2, 1] @ [2] # map multi_sig [3, 1] @ [] # [[5]] \<and>
     op_checkmultisig sample_hashes strict_flags multi_checker OP_CHECKMULTISIG s = Inr (s\<lparr>nOpCount := 3, stk := [[1], [5]]\<rparr>)"
proof -
  let ?keys = "[multi_key 3, multi_key 2, multi_key 1]" and ?sigs = "[multi_sig 3, multi_sig 1]"
  let ?s = "\<lparr>stk = [3] # ?keys @ [2] # ?sigs @ [] # [[5]], altstk = [], vfExec = [], pbegincodehash = [], nOpCount = 0\<rparr>"
  obtain a b where n: "read_num strict_flags [3] = Inr a" "getint a = 3" "read_num strict_flags [2] = Inr b" "getint b = 2"
    using multi_nums by blast
  have "list_all2 (\<lambda>sig key. CheckSig multi_checker sig key code) ?sigs [multi_key 3, multi_key 1]" for code
    by (simp add: multi_checker_def multi_sig_def multi_key_def)
  moreover have "subseq [multi_key 3, multi_key 1] ?keys" by simp
  ultimately have m: "\<exists>ks. subseq ks ?keys \<and> list_all2 (\<lambda>sig key. CheckSig multi_checker sig key code) ?sigs ks" for code by blast
  have e: "check_encodings sample_hashes strict_flags sig key = None" if "sig \<in> set ?sigs" "key \<in> set ?keys" for sig key
    using multi_strict that by (auto simp: list_all_iff)
  have o: "OP_CHECKMULTISIG \<noteq> OP_CHECKMULTISIGVERIFY" by code_simp
  have "op_checkmultisig sample_hashes strict_flags multi_checker OP_CHECKMULTISIG ?s = Inr (?s\<lparr>nOpCount := 3, stk := [[1], [5]]\<rparr>)"
    using multisig_ordered_matching [of ?s "[3]" ?keys "[2]" ?sigs "[]" "[[5]]" strict_flags a b _ multi_checker sample_hashes OP_CHECKMULTISIG,
        OF _ n(1) _ _ _ n(3) _ _ refl] n(2,4) m o
    by (simp add: Let_def e MAX_PUBKEYS_PER_MULTISIG_def MAX_OPS_PER_SCRIPT_def vch_bool_def vchTrue_def)
  then show ?thesis by (intro exI [of _ ?s]) simp
qed

end
