(* ===== verification/SigHash.thy ===== *)
theory SigHash
  imports Interpreter Transaction
begin

text \<open>
  Signature hashes of script/interpreter.cpp: \<open>CTransactionSignatureSerializer\<close>, which
  serializes a transaction as it is signed, and \<open>SignatureHash\<close>.  The original algorithm, kept
  in test/sighash_tests.cpp as \<open>SignatureHashOld\<close>, edits a copy of the transaction and serializes
  that; the two are proved equal on scripts that read to their end.  \<open>nHashType\<close> is an
  \<open>int\<close>; its bits are a 32-bit word.
\<close>

section \<open>The serializer\<close>

definition fAnyoneCanPay :: "u32 \<Rightarrow> bool" where
  "fAnyoneCanPay nHashType \<longleftrightarrow> nHashType AND SIGHASH_ANYONECANPAY \<noteq> 0"

definition fHashSingle :: "u32 \<Rightarrow> bool" where
  "fHashSingle nHashType \<longleftrightarrow> nHashType AND 0x1f = SIGHASH_SINGLE"

definition fHashNone :: "u32 \<Rightarrow> bool" where
  "fHashNone nHashType \<longleftrightarrow> nHashType AND 0x1f = SIGHASH_NONE"

function separators_loop :: "bytes \<Rightarrow> nat \<Rightarrow> nat" where
  "separators_loop it nCodeSeparators =
     (let g = GetOp2 it in
      if fst g
      then separators_loop (snd (snd (snd g))) (if fst (snd g) = OP_CODESEPARATOR then nCodeSeparators + 1 else nCodeSeparators)
      else nCodeSeparators)"
  by pat_completeness auto
termination by (relation "measure (\<lambda>(it, n). length it)") (auto simp: GetOp2_fst)

declare separators_loop.simps [simp del]

function copy_loop :: "bytes \<Rightarrow> bytes \<Rightarrow> bytes \<Rightarrow> bytes \<times> bytes \<times> bytes" where
  \<comment> \<open>\<open>it\<close> and \<open>itBegin\<close> are the bytes from these iterators to the end; the third argument
    is what has been written\<close>
  "copy_loop it itBegin s =
     (let g = GetOp2 it; it' = snd (snd (snd g)) in
      if fst g
      then (if fst (snd g) = OP_CODESEPARATOR
            then copy_loop it' it' (s @ take (length itBegin - length it' - 1) itBegin)
            else copy_loop it' itBegin s)
      else (it', itBegin, s))"
  by pat_completeness auto
termination by (relation "measure (\<lambda>(it, b, s). length it)") (auto simp: GetOp2_fst)

declare copy_loop.simps [simp del]

definition SerializeScriptCode :: "bytes \<Rightarrow> bytes" where
  "SerializeScriptCode scriptCode =
     (case copy_loop scriptCode scriptCode (WriteCompactSize (word_of_nat (length scriptCode - separators_loop scriptCode 0))) of
        (it, itBegin, s) \<Rightarrow> if itBegin \<noteq> [] then s @ take (length itBegin - length it) itBegin else s)"

definition SerializeInput :: "CTransaction \<Rightarrow> bytes \<Rightarrow> u32 \<Rightarrow> u32 \<Rightarrow> u32 \<Rightarrow> bytes" where
  "SerializeInput txTo scriptCode nIn nHashType nInput0 =
     (let nInput = (if fAnyoneCanPay nHashType then nIn else nInput0);
          txin = vin txTo ! unat nInput
      in ser_outpoint (prevout txin) @
         (if nInput \<noteq> nIn then ser_bytes [] else SerializeScriptCode scriptCode) @
         (if nInput \<noteq> nIn \<and> (fHashSingle nHashType \<or> fHashNone nHashType) then ser_writedata32 0
          else ser_writedata32 (nSequence txin)))"

definition SerializeOutput :: "CTransaction \<Rightarrow> u32 \<Rightarrow> u32 \<Rightarrow> u32 \<Rightarrow> bytes" where
  "SerializeOutput txTo nIn nHashType nOutput =
     (if fHashSingle nHashType \<and> nOutput \<noteq> nIn then ser_txout txout_null else ser_txout (vout txTo ! unat nOutput))"

definition SerializeForSignature :: "CTransaction \<Rightarrow> bytes \<Rightarrow> u32 \<Rightarrow> u32 \<Rightarrow> bytes" where
  \<comment> \<open>\<open>CTransactionSignatureSerializer::Serialize\<close>\<close>
  "SerializeForSignature txTo scriptCode nIn nHashType =
     (let nInputs = (if fAnyoneCanPay nHashType then 1 else word_of_nat (length (vin txTo))) :: u32;
          nOutputs = (if fHashNone nHashType then 0
                      else if fHashSingle nHashType then nIn + 1 else word_of_nat (length (vout txTo))) :: u32
      in ser_writedata32 (tx_nVersion txTo) @
         WriteCompactSize (ucast nInputs) @
         concat (map (\<lambda>i. SerializeInput txTo scriptCode nIn nHashType (word_of_nat i)) [0..<unat nInputs]) @
         WriteCompactSize (ucast nOutputs) @
         concat (map (\<lambda>i. SerializeOutput txTo nIn nHashType (word_of_nat i)) [0..<unat nOutputs]) @
         ser_writedata32 (nLockTime txTo))"

definition uint256_one :: uint256 where
  "uint256_one = uint256S ''0000000000000000000000000000000000000000000000000000000000000001''"

definition SignatureHash :: "hash_functions \<Rightarrow> bytes \<Rightarrow> CTransaction \<Rightarrow> u32 \<Rightarrow> u32 \<Rightarrow> uint256" where
  "SignatureHash H scriptCode txTo nIn nHashType =
     (if unat nIn \<ge> length (vin txTo) then uint256_one
      else if nHashType AND 0x1f = SIGHASH_SINGLE \<and> unat nIn \<ge> length (vout txTo) then uint256_one
      else CHash256 H (SerializeForSignature txTo scriptCode nIn nHashType @ ser_writedata32 nHashType))"

section \<open>The original algorithm\<close>

fun update_at :: "('a \<Rightarrow> 'a) \<Rightarrow> nat list \<Rightarrow> 'a list \<Rightarrow> 'a list" where
  \<comment> \<open>a loop that assigns to the elements at these indices\<close>
  "update_at f [] xs = xs"
| "update_at f (i # is) xs = update_at f is (xs[i := f (xs ! i)])"

definition blank_sequences :: "nat \<Rightarrow> CTxIn list \<Rightarrow> CTxIn list" where
  "blank_sequences nIn ins = update_at (\<lambda>t. t\<lparr>nSequence := 0\<rparr>) (filter (\<lambda>i. i \<noteq> nIn) [0..<length ins]) ins"

definition resize_outputs :: "nat \<Rightarrow> CTxOut list \<Rightarrow> CTxOut list" where
  "resize_outputs n outs = (if n \<le> length outs then take n outs else outs @ replicate (n - length outs) txout_null)"

definition SignatureTx_old :: "bytes \<Rightarrow> CTransaction \<Rightarrow> u32 \<Rightarrow> u32 \<Rightarrow> CMutableTransaction option" where
  \<comment> \<open>\<open>txTmp\<close> as it is when it is hashed, \<open>None\<close> for \<open>return one\<close>\<close>
  "SignatureTx_old scriptCode0 txTo nIn nHashType =
     (let n = unat nIn in
      if n \<ge> length (vin txTo) then None
      else let txTmp = CMutableTransaction_of txTo;
               scriptCode = fst (FindAndDelete scriptCode0 [OP_CODESEPARATOR]);
               txTmp = txTmp\<lparr>vin := update_at (\<lambda>t. t\<lparr>scriptSig := []\<rparr>) [0..<length (vin txTmp)] (vin txTmp)\<rparr>;
               txTmp = txTmp\<lparr>vin := (vin txTmp)[n := (vin txTmp ! n)\<lparr>scriptSig := scriptCode\<rparr>]\<rparr>
           in
           if nHashType AND 0x1f = SIGHASH_SINGLE \<and> n \<ge> length (vout txTmp) then None
           else
             let txTmp =
                   (if nHashType AND 0x1f = SIGHASH_NONE
                    then txTmp\<lparr>vout := [], vin := blank_sequences n (vin txTmp)\<rparr>
                    else if nHashType AND 0x1f = SIGHASH_SINGLE
                    then let outs = resize_outputs (n + 1) (vout txTmp)
                         in txTmp\<lparr>vout := update_at (\<lambda>_. txout_null) [0..<n] outs, vin := blank_sequences n (vin txTmp)\<rparr>
                    else txTmp);
                 txTmp =
                   (if nHashType AND SIGHASH_ANYONECANPAY \<noteq> 0
                    then txTmp\<lparr>vin := take 1 ((vin txTmp)[0 := vin txTmp ! n])\<rparr> else txTmp)
             in Some txTmp)"

definition SignatureHashOld :: "hash_functions \<Rightarrow> bytes \<Rightarrow> CTransaction \<Rightarrow> u32 \<Rightarrow> u32 \<Rightarrow> uint256" where
  "SignatureHashOld H scriptCode txTo nIn nHashType =
     (case SignatureTx_old scriptCode txTo nIn nHashType of
        None \<Rightarrow> uint256_one
      | Some txTmp \<Rightarrow> CHash256 H (ser_tx txTmp @ ser_writedata32 nHashType))"

section \<open>The script code\<close>

abbreviation no_separator :: "(u8 \<times> bytes) list \<Rightarrow> (u8 \<times> bytes) list" where
  "no_separator ops \<equiv> filter (\<lambda>y. y \<noteq> (OP_CODESEPARATOR, [])) ops"

lemma separator_op [simp]: "enc_op (OP_CODESEPARATOR, []) = [OP_CODESEPARATOR]" "op_ok (OP_CODESEPARATOR, [])"
  by (simp_all add: enc_op_def op_ok_def)

lemma GetOp2_separator [simp]: "GetOp2 (OP_CODESEPARATOR # rest) = (True, OP_CODESEPARATOR, [], rest)"
  using GetOp2_enc_op [of OP_CODESEPARATOR "[]" rest] by simp

lemma op_ok_separator: "op_ok (OP_CODESEPARATOR, d) \<longleftrightarrow> d = []"
  by (simp add: op_ok_def)

lemma separators_loop_ops:
  assumes "\<forall>x \<in> set ops. op_ok x"
  shows "separators_loop (enc_ops ops) n = n + count_list ops (OP_CODESEPARATOR, [])"
  using assms
proof (induction ops arbitrary: n)
  case Nil
  then show ?case by (subst separators_loop.simps) (simp add: Let_def)
next
  case (Cons x ops)
  then show ?case by (subst separators_loop.simps) (cases x, auto simp: Let_def op_ok_separator)
qed

lemma copy_loop_ops:
  assumes "\<forall>x \<in> set ops. op_ok x"
  shows "\<exists>b s'. copy_loop (enc_ops ops) (p @ enc_ops ops) s = ([], b, s') \<and> s' @ b = s @ p @ enc_ops (no_separator ops)"
  using assms
proof (induction ops arbitrary: p s)
  case Nil
  then show ?case by (subst copy_loop.simps) (simp add: Let_def)
next
  case (Cons x ops)
  obtain opcode d where x: "x = (opcode, d)" by (cases x)
  show ?case
  proof (cases "opcode = OP_CODESEPARATOR")
    case True
    then have d: "d = []" using Cons.prems x by (simp add: op_ok_separator)
    show ?thesis
      using Cons.IH [of "[]" "s @ p"] Cons.prems True d
      by (subst copy_loop.simps) (simp add: x Let_def)
  next
    case False
    then show ?thesis using Cons.IH [of "p @ enc_op x" s] Cons.prems
      by (subst copy_loop.simps) (simp add: x Let_def)
  qed
qed

lemma length_no_separator:
  "length (enc_ops ops) = length (enc_ops (no_separator ops)) + count_list ops (OP_CODESEPARATOR, [])"
  by (induction ops) auto

lemma SerializeScriptCode_ops:
  assumes "parse_script scriptCode = Some ops"
  shows "SerializeScriptCode scriptCode = ser_bytes (enc_ops (no_separator ops))"
proof -
  have e: "scriptCode = enc_ops ops" and ok: "\<forall>x \<in> set ops. op_ok x" using assms by (simp_all add: parse_script_iff)
  let ?w = "WriteCompactSize (word_of_nat (length scriptCode - separators_loop scriptCode 0))"
  obtain b s' where c: "copy_loop scriptCode scriptCode ?w = ([], b, s')" "s' @ b = ?w @ enc_ops (no_separator ops)"
    using copy_loop_ops [OF ok, of "[]" ?w] e by auto
  have "length scriptCode - separators_loop scriptCode 0 = length (enc_ops (no_separator ops))"
    using length_no_separator [of ops] separators_loop_ops [OF ok, of 0] e by simp
  then show ?thesis using c by (auto simp: SerializeScriptCode_def ser_bytes_def split: if_splits)
qed

section \<open>What is signed\<close>

definition signed_inputs :: "CTransaction \<Rightarrow> bytes \<Rightarrow> nat \<Rightarrow> u32 \<Rightarrow> CTxIn list" where
  \<comment> \<open>the other inputs without their scripts, and without their sequence numbers unless all outputs are signed\<close>
  "signed_inputs txTo code n nHashType =
     (let free = (fHashSingle nHashType \<or> fHashNone nHashType);
          masked = (\<lambda>i. let t = vin txTo ! i in
             if i = n then t\<lparr>scriptSig := code\<rparr>
             else if free then t\<lparr>scriptSig := [], nSequence := 0\<rparr> else t\<lparr>scriptSig := []\<rparr>)
      in if fAnyoneCanPay nHashType then [masked n] else map masked [0..<length (vin txTo)])"

definition signed_outputs :: "CTransaction \<Rightarrow> nat \<Rightarrow> u32 \<Rightarrow> CTxOut list" where
  "signed_outputs txTo n nHashType =
     (if fHashNone nHashType then []
      else if fHashSingle nHashType then replicate n txout_null @ [vout txTo ! n] else vout txTo)"

definition signed_view :: "CTransaction \<Rightarrow> bytes \<Rightarrow> nat \<Rightarrow> u32 \<Rightarrow> CMutableTransaction" where
  "signed_view txTo code n nHashType =
     \<lparr>tx_nVersion = tx_nVersion txTo, vin = signed_inputs txTo code n nHashType,
      vout = signed_outputs txTo n nHashType, nLockTime = nLockTime txTo\<rparr>"

lemma length_update_at [simp]: "length (update_at f is xs) = length xs"
  by (induction f "is" xs rule: update_at.induct) auto

lemma nth_update_at:
  "distinct is \<Longrightarrow> i < length xs \<Longrightarrow> update_at f is xs ! i = (if i \<in> set is then f (xs ! i) else xs ! i)"
proof (induction f "is" xs rule: update_at.induct)
  case (2 f j js xs)
  then show ?case by (cases "i = j") (auto simp: nth_list_update)
qed simp

lemma none_not_single: "fHashNone h \<Longrightarrow> \<not> fHashSingle h"
  by (simp add: fHashNone_def fHashSingle_def SIGHASH_NONE_def SIGHASH_SINGLE_def)

lemma SignatureTx_old_view:
  assumes ops: "parse_script scriptCode = Some ops" and n: "unat nIn < length (vin txTo)"
    and single: "fHashSingle nHashType \<Longrightarrow> unat nIn < length (vout txTo)"
  shows "SignatureTx_old scriptCode txTo nIn nHashType =
    Some (signed_view txTo (enc_ops (no_separator ops)) (unat nIn) nHashType)"
proof -
  let ?code = "enc_ops (no_separator ops)" and ?n = "unat nIn"
  have code: "fst (FindAndDelete scriptCode [OP_CODESEPARATOR]) = ?code"
    using FindAndDelete_ops [OF ops separator_op(2)] by simp
  define ins where "ins = (let v = update_at (\<lambda>t. t\<lparr>scriptSig := []\<rparr>) [0..<length (vin txTo)] (vin txTo)
    in v[?n := (v ! ?n)\<lparr>scriptSig := ?code\<rparr>])"
  have len: "length ins = length (vin txTo)" by (simp add: ins_def Let_def)
  have nth: "ins ! i = (vin txTo ! i)\<lparr>scriptSig := if i = ?n then ?code else []\<rparr>" if "i < length (vin txTo)" for i
    using that n by (simp add: ins_def Let_def nth_list_update nth_update_at)
  have lb: "length (blank_sequences ?n ins) = length (vin txTo)" by (simp add: blank_sequences_def len)
  have blank: "blank_sequences ?n ins ! i = (if i = ?n then ins ! i else (ins ! i)\<lparr>nSequence := 0\<rparr>)"
    if "i < length (vin txTo)" for i
    using that by (simp add: blank_sequences_def nth_update_at len)
  have free: "blank_sequences ?n ins = map (\<lambda>i. let t = vin txTo ! i in
      if i = ?n then t\<lparr>scriptSig := ?code\<rparr> else t\<lparr>scriptSig := [], nSequence := 0\<rparr>) [0..<length (vin txTo)]"
    by (rule nth_equalityI) (simp_all add: lb blank nth Let_def)
  have all: "ins = map (\<lambda>i. let t = vin txTo ! i in
      if i = ?n then t\<lparr>scriptSig := ?code\<rparr> else t\<lparr>scriptSig := []\<rparr>) [0..<length (vin txTo)]"
    by (rule nth_equalityI) (simp_all add: len nth)
  have one: "take 1 (xs[0 := xs ! ?n]) = [xs ! ?n]" if "length xs = length (vin txTo)" for xs :: "CTxIn list"
    using that n by (cases xs) auto
  have outs: "update_at (\<lambda>_. txout_null) [0..<?n] (resize_outputs (?n + 1) (vout txTo)) = replicate ?n txout_null @ [vout txTo ! ?n]"
    if "?n < length (vout txTo)"
    by (rule nth_equalityI) (use that in \<open>auto simp: resize_outputs_def nth_update_at nth_append less_Suc_eq\<close>)
  define ins' where "ins' = (if fHashSingle nHashType \<or> fHashNone nHashType then blank_sequences ?n ins else ins)"
  have len': "length ins' = length (vin txTo)" by (simp add: ins'_def len lb)
  have single': "nHashType AND 31 = SIGHASH_SINGLE \<longrightarrow> \<not> length (vout txTo) \<le> ?n \<and>
      update_at (\<lambda>_. txout_null) [0..<?n] (resize_outputs (Suc ?n) (vout txTo)) = replicate ?n txout_null @ [vout txTo ! ?n]"
    using single outs by (auto simp: fHashSingle_def)
  have "SignatureTx_old scriptCode txTo nIn nHashType =
      Some \<lparr>tx_nVersion = tx_nVersion txTo, vin = (if fAnyoneCanPay nHashType then take 1 (ins'[0 := ins' ! ?n]) else ins'),
        vout = signed_outputs txTo ?n nHashType, nLockTime = nLockTime txTo\<rparr>"
    using n single' none_not_single [of nHashType]
    by (simp add: SignatureTx_old_def code Let_def CMutableTransaction_of_def ins_def [unfolded Let_def, symmetric] ins'_def
        signed_outputs_def fHashSingle_def fHashNone_def fAnyoneCanPay_def)
  moreover have "(if fAnyoneCanPay nHashType then take 1 (ins'[0 := ins' ! ?n]) else ins') = signed_inputs txTo ?code ?n nHashType"
  proof (cases "fAnyoneCanPay nHashType")
    case True
    then show ?thesis using one [OF len'] n blank [OF n] nth [OF n] by (simp add: signed_inputs_def Let_def ins'_def)
  next
    case False
    then show ?thesis using free all by (simp add: signed_inputs_def Let_def ins'_def)
  qed
  ultimately show ?thesis by (simp add: signed_view_def)
qed

lemma ucast_of_unat: "(ucast (w :: u32) :: u64) = word_of_nat (unat w)"
  by simp

lemma concat_map_cong: "(\<And>x. x \<in> set xs \<Longrightarrow> f x = g x) \<Longrightarrow> concat (map f xs) = concat (map g xs)"
  by (simp cong: map_cong)

lemma SerializeForSignature_view:
  assumes ops: "parse_script scriptCode = Some ops" and n: "unat nIn < length (vin txTo)"
    and single: "fHashSingle nHashType \<Longrightarrow> unat nIn < length (vout txTo)"
    and size: "length (vin txTo) < 2 ^ 32" "length (vout txTo) < 2 ^ 32"
  shows "SerializeForSignature txTo scriptCode nIn nHashType =
    ser_tx (signed_view txTo (enc_ops (no_separator ops)) (unat nIn) nHashType)"
proof -
  let ?code = "enc_ops (no_separator ops)" and ?n = "unat nIn"
  note sc = SerializeScriptCode_ops [OF ops]
  have eq: "(word_of_nat i = nIn) = (i = ?n)" and un: "unat (word_of_nat i :: u32) = i" if "i < 2 ^ 32" for i :: nat
    using that by (auto simp: unat_of_nat word_unat_eq_iff)
  have inp: "SerializeInput txTo scriptCode nIn nHashType (word_of_nat i) =
      ser_txin (let t = vin txTo ! i in if i = ?n then t\<lparr>scriptSig := ?code\<rparr>
         else if fHashSingle nHashType \<or> fHashNone nHashType then t\<lparr>scriptSig := [], nSequence := 0\<rparr> else t\<lparr>scriptSig := []\<rparr>)"
    if "i < length (vin txTo)" "\<not> fAnyoneCanPay nHashType" for i
    using that size eq [of i] un [of i] by (simp add: SerializeInput_def ser_txin_def sc Let_def)
  have any: "SerializeInput txTo scriptCode nIn nHashType i = ser_txin ((vin txTo ! ?n)\<lparr>scriptSig := ?code\<rparr>)"
    if "fAnyoneCanPay nHashType" for i
    using that by (simp add: SerializeInput_def ser_txin_def sc Let_def)
  have ins: "WriteCompactSize (ucast nInputs) @
      concat (map (\<lambda>i. SerializeInput txTo scriptCode nIn nHashType (word_of_nat i)) [0..<unat nInputs]) =
      ser_vector ser_txin (signed_inputs txTo ?code ?n nHashType)"
    if "nInputs = (if fAnyoneCanPay nHashType then 1 else word_of_nat (length (vin txTo)))" for nInputs :: u32
  proof (cases "fAnyoneCanPay nHashType")
    case True
    then show ?thesis using that any by (simp add: ser_vector_def signed_inputs_def Let_def)
  next
    case False
    have u: "unat nInputs = length (vin txTo)" using that False size un by simp
    then have "(ucast nInputs :: u64) = word_of_nat (length (vin txTo))" by (simp add: ucast_of_unat)
    moreover have "concat (map (\<lambda>i. SerializeInput txTo scriptCode nIn nHashType (word_of_nat i)) [0..<length (vin txTo)]) =
        concat (map ser_txin (signed_inputs txTo ?code ?n nHashType))"
      unfolding signed_inputs_def Let_def using False
      by (simp add: o_def, intro concat_map_cong) (simp add: inp [OF _ False] Let_def)
    ultimately show ?thesis using u False by (simp add: ser_vector_def signed_inputs_def Let_def)
  qed
  have outs: "WriteCompactSize (ucast nOutputs) @
      concat (map (\<lambda>i. SerializeOutput txTo nIn nHashType (word_of_nat i)) [0..<unat nOutputs]) =
      ser_vector ser_txout (signed_outputs txTo ?n nHashType)"
    if "nOutputs = (if fHashNone nHashType then 0
                      else if fHashSingle nHashType then nIn + 1 else word_of_nat (length (vout txTo)))" for nOutputs :: u32
  proof -
    have out: "SerializeOutput txTo nIn nHashType (word_of_nat i) = ser_txout (signed_outputs txTo ?n nHashType ! i)"
      if "i < length (signed_outputs txTo ?n nHashType)" for i
      using that size single eq [of i] un [of i]
      by (auto simp: SerializeOutput_def signed_outputs_def nth_append split: if_splits)
    have "unat nIn + 1 < 2 ^ 32" if "fHashSingle nHashType" using single [OF that] size by simp
    then have u: "unat nOutputs = length (signed_outputs txTo ?n nHashType)"
      using that size un [of "length (vout txTo)"] by (auto simp: signed_outputs_def unat_plus_if_size word_size)
    then have "(ucast nOutputs :: u64) = word_of_nat (length (signed_outputs txTo ?n nHashType))" by (simp add: ucast_of_unat)
    moreover have "concat (map (\<lambda>i. SerializeOutput txTo nIn nHashType (word_of_nat i)) [0..<length (signed_outputs txTo ?n nHashType)]) =
        concat (map ser_txout (map (nth (signed_outputs txTo ?n nHashType)) [0..<length (signed_outputs txTo ?n nHashType)]))"
      by (simp only: map_map, rule concat_map_cong) (simp add: out)
    ultimately show ?thesis using u by (simp add: ser_vector_def map_nth)
  qed
  show ?thesis
    unfolding SerializeForSignature_def Let_def ser_tx_def signed_view_def
    using ins [OF refl] outs [OF refl] by simp
qed

lemma hash_single: "nHashType AND 0x1f = SIGHASH_SINGLE \<longleftrightarrow> fHashSingle nHashType"
  by (simp add: fHashSingle_def)

text \<open>C10: \<open>SignatureHash\<close>, which serializes the masked transaction in place, is the original
  algorithm that edits a copy of it: the two return the same hash for every transaction, input index
  and hash type, for every script that reads to its end (and as long as inputs and outputs can be
  counted in an \<open>unsigned int\<close>).\<close>

theorem SignatureHash_is_original:
  assumes "parse_script scriptCode = Some ops" "length (vin txTo) < 2 ^ 32" "length (vout txTo) < 2 ^ 32"
  shows "SignatureHash H scriptCode txTo nIn nHashType = SignatureHashOld H scriptCode txTo nIn nHashType"
proof (cases "unat nIn < length (vin txTo) \<and> (fHashSingle nHashType \<longrightarrow> unat nIn < length (vout txTo))")
  case True
  then show ?thesis
    using SignatureTx_old_view [OF assms(1)] SerializeForSignature_view [OF assms(1) _ _ assms(2,3)]
    by (auto simp: SignatureHash_def SignatureHashOld_def hash_single)
next
  case False
  then show ?thesis
    by (auto simp: SignatureHash_def SignatureHashOld_def hash_single SignatureTx_old_def Let_def CMutableTransaction_of_def)
qed

lemma SignatureHash_is_original_witness:
  "SignatureHash \<lparr>CRIPEMD160 = id, CSHA1 = id, CSHA256 = rev, CheckLowS = (\<lambda>_. True)\<rparr> [OP_DUP, OP_CODESEPARATOR, 1, 5, OP_CHECKSIG]
     \<lparr>tx_nVersion = 1, vin = [CTxIn_of outpoint_null [] 7, CTxIn_of outpoint_null [] 9],
        vout = [CTxOut_of 10 [], CTxOut_of 20 [OP_DUP]], nLockTime = 0, tx_hash = blob_null\<rparr> 1 0x83 =
   SignatureHashOld \<lparr>CRIPEMD160 = id, CSHA1 = id, CSHA256 = rev, CheckLowS = (\<lambda>_. True)\<rparr> [OP_DUP, OP_CODESEPARATOR, 1, 5, OP_CHECKSIG]
     \<lparr>tx_nVersion = 1, vin = [CTxIn_of outpoint_null [] 7, CTxIn_of outpoint_null [] 9],
        vout = [CTxOut_of 10 [], CTxOut_of 20 [OP_DUP]], nLockTime = 0, tx_hash = blob_null\<rparr> 1 0x83"
proof (rule SignatureHash_is_original)
  show "parse_script [OP_DUP, OP_CODESEPARATOR, 1, 5, OP_CHECKSIG] =
      Some [(OP_DUP, []), (OP_CODESEPARATOR, []), (1, [5]), (OP_CHECKSIG, [])]"
    unfolding parse_script_iff by (simp add: enc_op_def op_ok_def)
qed simp_all

section \<open>What a signature commits to\<close>

lemma signed_view_ok:
  assumes "tx_ok txTo" "vec_ok code" "n < length (vin txTo)" "fHashSingle nHashType \<Longrightarrow> n < length (vout txTo)"
  shows "tx_ok (signed_view txTo code n nHashType)"
  using assms
  by (auto simp: tx_ok_def signed_view_def signed_inputs_def signed_outputs_def Let_def vec_ok_def list_all_iff txin_ok_def
      txout_ok_def txout_null_def)

lemma ser_tx_append_inj:
  fixes t t' :: CMutableTransaction
  assumes "tx_ok t" "tx_ok t'"
  shows "ser_tx t @ ser_writedata32 h = ser_tx t' @ ser_writedata32 h' \<longleftrightarrow> t = t' \<and> h = h'"
proof
  assume eq: "ser_tx t @ ser_writedata32 h = ser_tx t' @ ser_writedata32 h'"
  have "Inr (t, ser_writedata32 h) = unser_mtx (ser_tx t @ ser_writedata32 h)"
    by (rule mtx_codec.dec_enc [OF assms(1), symmetric])
  also have "\<dots> = unser_mtx (ser_tx t' @ ser_writedata32 h')" by (rule arg_cong [OF eq])
  also have "\<dots> = Inr (t', ser_writedata32 h')" by (rule mtx_codec.dec_enc [OF assms(2)])
  finally have r: "t = t'" "ser_writedata32 h @ [] = ser_writedata32 h' @ []" by simp_all
  have "(Inr (h, []) :: ser_error + u32 \<times> bytes) = Inr (h', [])"
    using arg_cong [OF r(2), of ser_readdata32] unfolding ser32.dec_enc [OF TrueI] .
  then show "t = t' \<and> h = h'" using r(1) by simp
qed simp

lemma map_upt_eq_iff: "map f [0..<n] = map g [0..<m] \<longleftrightarrow> n = m \<and> (\<forall>i < n. f i = g i)"
  by (auto simp: list_eq_iff_nth_eq)

lemma map_nth_eq_iff: "map f xs = map f ys \<longleftrightarrow> length xs = length ys \<and> (\<forall>i < length xs. f (xs ! i) = f (ys ! i))"
  by (auto simp: list_eq_iff_nth_eq)

lemma signed_inputs_eq_iff:
  assumes "n < length (vin tx)" "n < length (vin tx')" "list_all txin_ok (vin tx)" "list_all txin_ok (vin tx')"
  shows "signed_inputs tx code n h = signed_inputs tx' code' n h \<longleftrightarrow>
    code = code' \<and> prevout (vin tx ! n) = prevout (vin tx' ! n) \<and> nSequence (vin tx ! n) = nSequence (vin tx' ! n) \<and>
    (\<not> fAnyoneCanPay h \<longrightarrow> map prevout (vin tx) = map prevout (vin tx') \<and>
       (\<not> fHashSingle h \<and> \<not> fHashNone h \<longrightarrow> map nSequence (vin tx) = map nSequence (vin tx')))"
proof -
  have [simp]: "prevPubKey (vin tx ! i) = []" if "i < length (vin tx)" for i
    using that assms(3) by (simp add: list_all_length txin_ok_def)
  have [simp]: "prevPubKey (vin tx' ! i) = []" if "i < length (vin tx')" for i
    using that assms(4) by (simp add: list_all_length txin_ok_def)
  have rec: "t = t' \<longleftrightarrow> prevout t = prevout t' \<and> scriptSig t = scriptSig t' \<and> nSequence t = nSequence t' \<and> prevPubKey t = prevPubKey t'"
    for t t' :: CTxIn by (cases t; cases t') simp
  let ?m = "\<lambda>tx code i. let t = vin tx ! i in if i = n then t\<lparr>scriptSig := code\<rparr>
     else if fHashSingle h \<or> fHashNone h then t\<lparr>scriptSig := [], nSequence := 0\<rparr> else t\<lparr>scriptSig := []\<rparr>"
  have m: "?m tx code i = ?m tx' code' i \<longleftrightarrow> prevout (vin tx ! i) = prevout (vin tx' ! i) \<and>
      (i = n \<longrightarrow> code = code') \<and>
      (i = n \<or> (\<not> fHashSingle h \<and> \<not> fHashNone h) \<longrightarrow> nSequence (vin tx ! i) = nSequence (vin tx' ! i))"
    if "i < length (vin tx)" "i < length (vin tx')" for i
    using that by (cases "i = n"; cases "fHashSingle h \<or> fHashNone h") (simp_all add: rec Let_def, auto)
  have prev: "map prevout (vin tx) = map prevout (vin tx') \<Longrightarrow> prevout (vin tx ! n) = prevout (vin tx' ! n)"
    using assms(1,2) nth_map [of n "vin tx" prevout] nth_map [of n "vin tx'" prevout] by simp
  show ?thesis
  proof (cases "fAnyoneCanPay h")
    case True
    then show ?thesis using m [OF assms(1,2)] by (auto simp: signed_inputs_def Let_def)
  next
    case False
    have "signed_inputs tx code n h = signed_inputs tx' code' n h \<longleftrightarrow>
        length (vin tx) = length (vin tx') \<and> (\<forall>i < length (vin tx). ?m tx code i = ?m tx' code' i)"
      unfolding signed_inputs_def Let_def [of "_ \<or> _"] using False by (simp only: if_False map_upt_eq_iff Let_def)
    also have "\<dots> \<longleftrightarrow> length (vin tx) = length (vin tx') \<and> (\<forall>i < length (vin tx). prevout (vin tx ! i) = prevout (vin tx' ! i) \<and>
      (i = n \<longrightarrow> code = code') \<and>
      (i = n \<or> (\<not> fHashSingle h \<and> \<not> fHashNone h) \<longrightarrow> nSequence (vin tx ! i) = nSequence (vin tx' ! i)))"
      using m by auto
    also have "\<dots> \<longleftrightarrow> code = code' \<and> nSequence (vin tx ! n) = nSequence (vin tx' ! n) \<and>
        map prevout (vin tx) = map prevout (vin tx') \<and>
        (\<not> fHashSingle h \<and> \<not> fHashNone h \<longrightarrow> map nSequence (vin tx) = map nSequence (vin tx'))"
      unfolding map_nth_eq_iff using assms(1) by (cases "fHashSingle h \<or> fHashNone h") blast+
    also have "\<dots> \<longleftrightarrow> code = code' \<and> prevout (vin tx ! n) = prevout (vin tx' ! n) \<and> nSequence (vin tx ! n) = nSequence (vin tx' ! n) \<and>
        map prevout (vin tx) = map prevout (vin tx') \<and>
        (\<not> fHashSingle h \<and> \<not> fHashNone h \<longrightarrow> map nSequence (vin tx) = map nSequence (vin tx'))"
      using prev by blast
    finally show ?thesis using False by simp
  qed
qed

lemma signed_outputs_eq_iff:
  assumes "fHashSingle h \<Longrightarrow> n < length (vout tx)" "fHashSingle h \<Longrightarrow> n < length (vout tx')"
  shows "signed_outputs tx n h = signed_outputs tx' n h \<longleftrightarrow>
    (fHashSingle h \<longrightarrow> vout tx ! n = vout tx' ! n) \<and> (\<not> fHashSingle h \<and> \<not> fHashNone h \<longrightarrow> vout tx = vout tx')"
  using none_not_single [of h] by (auto simp: signed_outputs_def)

definition signature_message :: "CTransaction \<Rightarrow> bytes \<Rightarrow> u32 \<Rightarrow> u32 \<Rightarrow> bytes" where
  \<comment> \<open>what \<open>SignatureHash\<close> hashes\<close>
  "signature_message txTo scriptCode nIn nHashType =
     SerializeForSignature txTo scriptCode nIn nHashType @ ser_writedata32 nHashType"

text \<open>C27: exactly what a signature commits to.  Two transactions give the same message to hash for
  input \<open>nIn\<close> if and only if they agree on the hash type, the version, the lock time, the script
  code without its code separators and the outpoint and sequence number of the signed input; without
  \<open>ANYONECANPAY\<close> also on all outpoints; with \<open>SINGLE\<close> also on the output at the input's index;
  and unless \<open>NONE\<close> or \<open>SINGLE\<close>, also on all outputs and (without \<open>ANYONECANPAY\<close>) all
  sequence numbers.  Nothing else is signed and none of this is left open.\<close>

theorem signature_commits_exactly:
  assumes tx: "tx_ok tx" "unat nIn < length (vin tx)" "parse_script code = Some ops" "length code \<le> 10000"
    and tx': "tx_ok tx'" "unat nIn < length (vin tx')" "parse_script code' = Some ops'" "length code' \<le> 10000"
    and single: "fHashSingle h \<Longrightarrow> unat nIn < length (vout tx)" "fHashSingle h' \<Longrightarrow> unat nIn < length (vout tx')"
  shows "signature_message tx code nIn h = signature_message tx' code' nIn h' \<longleftrightarrow>
    h = h' \<and> tx_nVersion tx = tx_nVersion tx' \<and> nLockTime tx = nLockTime tx' \<and>
    fst (FindAndDelete code [OP_CODESEPARATOR]) = fst (FindAndDelete code' [OP_CODESEPARATOR]) \<and>
    prevout (vin tx ! unat nIn) = prevout (vin tx' ! unat nIn) \<and>
    nSequence (vin tx ! unat nIn) = nSequence (vin tx' ! unat nIn) \<and>
    (\<not> fAnyoneCanPay h \<longrightarrow> map prevout (vin tx) = map prevout (vin tx')) \<and>
    (fHashSingle h \<longrightarrow> vout tx ! unat nIn = vout tx' ! unat nIn) \<and>
    (\<not> fHashSingle h \<and> \<not> fHashNone h \<longrightarrow> vout tx = vout tx' \<and>
       (\<not> fAnyoneCanPay h \<longrightarrow> map nSequence (vin tx) = map nSequence (vin tx')))"
proof -
  let ?c = "enc_ops (no_separator ops)" and ?c' = "enc_ops (no_separator ops')"
  have code: "fst (FindAndDelete code [OP_CODESEPARATOR]) = ?c" "fst (FindAndDelete code' [OP_CODESEPARATOR]) = ?c'"
    using FindAndDelete_ops [OF tx(3) separator_op(2)] FindAndDelete_ops [OF tx'(3) separator_op(2)] by simp_all
  have "vec_ok ?c" "vec_ok ?c'"
    using tx(3,4) tx'(3,4) length_no_separator [of ops] length_no_separator [of ops'] by (simp_all add: vec_ok_def parse_script_iff)
  then have ok: "tx_ok (signed_view tx ?c (unat nIn) h)" "tx_ok (signed_view tx' ?c' (unat nIn) h')"
    using signed_view_ok [OF tx(1) _ tx(2) single(1)] signed_view_ok [OF tx'(1) _ tx'(2) single(2)] by simp_all
  have small: "length (vin t) < 2 ^ 32" "length (vout t) < 2 ^ 32" if "tx_ok t" for t :: CTransaction
    using that by (simp_all add: tx_ok_def vec_ok_def)
  have v: "SerializeForSignature tx code nIn h = ser_tx (signed_view tx ?c (unat nIn) h)"
    by (rule SerializeForSignature_view [OF tx(3,2) _ small [OF tx(1)]]) (rule single(1))
  have v': "SerializeForSignature tx' code' nIn h' = ser_tx (signed_view tx' ?c' (unat nIn) h')"
    by (rule SerializeForSignature_view [OF tx'(3,2) _ small [OF tx'(1)]]) (rule single(2))
  have "signature_message tx code nIn h = signature_message tx' code' nIn h' \<longleftrightarrow>
      signed_view tx ?c (unat nIn) h = signed_view tx' ?c' (unat nIn) h' \<and> h = h'"
    unfolding signature_message_def v v' by (rule ser_tx_append_inj [OF ok])
  also have "\<dots> \<longleftrightarrow> h = h' \<and> tx_nVersion tx = tx_nVersion tx' \<and> nLockTime tx = nLockTime tx' \<and>
      signed_inputs tx ?c (unat nIn) h = signed_inputs tx' ?c' (unat nIn) h \<and>
      signed_outputs tx (unat nIn) h = signed_outputs tx' (unat nIn) h"
    by (auto simp: signed_view_def)
  also have "\<dots> \<longleftrightarrow> h = h' \<and> tx_nVersion tx = tx_nVersion tx' \<and> nLockTime tx = nLockTime tx' \<and>
      signed_inputs tx ?c (unat nIn) h = signed_inputs tx' ?c' (unat nIn) h \<and>
      (fHashSingle h \<longrightarrow> vout tx ! unat nIn = vout tx' ! unat nIn) \<and> (\<not> fHashSingle h \<and> \<not> fHashNone h \<longrightarrow> vout tx = vout tx')"
    using signed_outputs_eq_iff [of h "unat nIn" tx tx'] single by auto
  finally show ?thesis
    using signed_inputs_eq_iff [OF tx(2) tx'(2), of ?c h ?c'] tx(1) tx'(1) unfolding code by (auto simp: tx_ok_def)
qed

definition sample_spend :: "CTxOut list \<Rightarrow> CTransaction" where
  "sample_spend outs =
     \<lparr>tx_nVersion = 1, vin = [CTxIn_of (COutPoint blob_null 3) [] 7], vout = outs, nLockTime = 0, tx_hash = blob_null\<rparr>"

lemma signature_commits_exactly_witness:
  "signature_message (sample_spend [CTxOut_of 10 []]) [OP_CHECKSIG] 0 2 =
     signature_message (sample_spend [CTxOut_of 9 [OP_DUP], CTxOut_of 1 []]) [OP_CODESEPARATOR, OP_CHECKSIG] 0 2 \<and>
   signature_message (sample_spend [CTxOut_of 10 []]) [OP_CHECKSIG] 0 1 \<noteq>
     signature_message (sample_spend [CTxOut_of 9 []]) [OP_CHECKSIG] 0 1"
proof -
  have p: "parse_script [OP_CHECKSIG] = Some [(OP_CHECKSIG, [])]"
    "parse_script [OP_CODESEPARATOR, OP_CHECKSIG] = Some [(OP_CODESEPARATOR, []), (OP_CHECKSIG, [])]"
    unfolding parse_script_iff by (simp_all add: enc_op_def op_ok_def)
  have ok: "tx_ok (sample_spend [CTxOut_of 10 []])" "tx_ok (sample_spend [CTxOut_of 9 []])"
    "tx_ok (sample_spend [CTxOut_of 9 [OP_DUP], CTxOut_of 1 []])"
    by (simp_all add: sample_spend_def tx_ok_def vec_ok_def txin_ok_def txout_ok_def CTxIn_of_def CTxOut_of_def outpoint_ok_def
        blob_ok_def blob_null_def)
  have f: "fst (FindAndDelete [OP_CHECKSIG] [OP_CODESEPARATOR]) = [OP_CHECKSIG]"
    "fst (FindAndDelete [OP_CODESEPARATOR, OP_CHECKSIG] [OP_CODESEPARATOR]) = [OP_CHECKSIG]"
    using FindAndDelete_ops [OF p(1) separator_op(2)] FindAndDelete_ops [OF p(2) separator_op(2)] by (simp_all add: enc_op_def)
  have h: "\<not> fHashSingle 1" "\<not> fHashSingle 2" "fHashNone 2" "\<not> fHashNone 1" "\<not> fAnyoneCanPay 1" "\<not> fAnyoneCanPay 2"
    by (simp_all add: fHashSingle_def fHashNone_def fAnyoneCanPay_def SIGHASH_SINGLE_def SIGHASH_NONE_def SIGHASH_ANYONECANPAY_def)
  have n: "unat (0 :: u32) < length (vin (sample_spend outs))" for outs by (simp add: sample_spend_def)
  show ?thesis
    using signature_commits_exactly [OF ok(1) n p(1) _ ok(3) n p(2), of 2 2]
      signature_commits_exactly [OF ok(1) n p(1) _ ok(2) n p(1), of 1 1]
    by (simp add: h f) (simp add: sample_spend_def CTxOut_of_def)
qed

end
