(* ===== verification/PubKey.thy ===== *)
theory PubKey
  imports Interpreter
begin

text \<open>
  Public keys: \<open>CPubKey\<close> of pubkey.h, a 65-byte array whose first byte gives the length, and
  the tolerant signature parser \<open>ecdsa_signature_parse_der_lax\<close> and \<open>Verify\<close> of
  pubkey.cpp.  The curve arithmetic of libsecp256k1 is a parameter.  Every read of the parser is
  checked (\<open>OutOfBounds\<close>), and no run of it is.
\<close>

section \<open>The key\<close>

type_synonym CPubKey = bytes  \<comment> \<open>\<open>vch\<close>\<close>

definition GetLen :: "u8 \<Rightarrow> nat" where
  "GetLen chHeader =
     (if chHeader = 2 \<or> chHeader = 3 then 33
      else if chHeader = 4 \<or> chHeader = 6 \<or> chHeader = 7 then 65 else 0)"

definition pubkey_Invalidate :: "CPubKey \<Rightarrow> CPubKey" where
  "pubkey_Invalidate vch = vch[0 := 0xFF]"

definition pubkey_Set :: "CPubKey \<Rightarrow> bytes \<Rightarrow> CPubKey" where
  \<comment> \<open>the first argument is the array before: a constructor leaves it uninitialised\<close>
  "pubkey_Set vch pbegin =
     (let len = (if pbegin = [] then 0 else GetLen (pbegin ! 0))
      in if len \<noteq> 0 \<and> len = length pbegin then pbegin @ drop len vch else pubkey_Invalidate vch)"

definition pubkey_size :: "CPubKey \<Rightarrow> nat" where
  "pubkey_size vch = GetLen (vch ! 0)"

definition pubkey_bytes :: "CPubKey \<Rightarrow> bytes" where
  \<comment> \<open>from \<open>begin()\<close> to \<open>end()\<close>\<close>
  "pubkey_bytes vch = take (pubkey_size vch) vch"

definition pubkey_eq :: "CPubKey \<Rightarrow> CPubKey \<Rightarrow> bool" where
  "pubkey_eq a b \<longleftrightarrow> a ! 0 = b ! 0 \<and> take (pubkey_size a) a = take (pubkey_size a) b"

definition pubkey_less :: "CPubKey \<Rightarrow> CPubKey \<Rightarrow> bool" where
  "pubkey_less a b \<longleftrightarrow> a ! 0 < b ! 0 \<or> (a ! 0 = b ! 0 \<and> take (pubkey_size a) a < take (pubkey_size a) b)"

definition pubkey_GetSerializeSize :: "CPubKey \<Rightarrow> nat" where
  "pubkey_GetSerializeSize vch = pubkey_size vch + 1"

definition pubkey_Serialize :: "CPubKey \<Rightarrow> bytes" where
  "pubkey_Serialize vch = WriteCompactSize (of_nat (pubkey_size vch)) @ take (pubkey_size vch) vch"

definition pubkey_Unserialize :: "CPubKey \<Rightarrow> CPubKey reader" where
  "pubkey_Unserialize vch =
     read_then ReadCompactSize (\<lambda>n.
       let len = unat n in
       if len \<le> 65 then read_then (stream_read len) (\<lambda>d. read_return (d @ drop len vch))
       else read_then (stream_read len) (\<lambda>_. read_return (pubkey_Invalidate vch)))"

definition pubkey_IsValid :: "CPubKey \<Rightarrow> bool" where
  "pubkey_IsValid vch \<longleftrightarrow> pubkey_size vch > 0"

definition pubkey_IsCompressed :: "CPubKey \<Rightarrow> bool" where
  "pubkey_IsCompressed vch \<longleftrightarrow> pubkey_size vch = 33"

definition pubkey_GetID :: "hash_functions \<Rightarrow> CPubKey \<Rightarrow> bytes" where
  "pubkey_GetID H vch = CHash160 H (pubkey_bytes vch)"

section \<open>The tolerant DER parser\<close>

datatype der_stop = OutOfBounds | Reject

fun skip_zeros :: "bytes \<Rightarrow> nat \<Rightarrow> nat \<Rightarrow> der_stop + nat \<times> nat" where
  \<comment> \<open>\<open>while (n > 0 && input[pos] == 0) { pos++; n--; }\<close>\<close>
  "skip_zeros input pos 0 = Inr (pos, 0)"
| "skip_zeros input pos (Suc n) =
     (if pos \<ge> length input then Inl OutOfBounds
      else if input ! pos = 0 then skip_zeros input (pos + 1) n else Inr (pos, Suc n))"

fun read_length :: "bytes \<Rightarrow> nat \<Rightarrow> nat \<Rightarrow> nat \<Rightarrow> der_stop + nat \<times> nat" where
  \<comment> \<open>\<open>while (lenbyte > 0)\<close>; at most seven bytes, so the \<open>size_t\<close> does not overflow\<close>
  "read_length input pos 0 rlen = Inr (pos, rlen)"
| "read_length input pos (Suc n) rlen =
     (if pos \<ge> length input then Inl OutOfBounds
      else read_length input (pos + 1) n (rlen * 2 ^ 8 + unat (input ! pos)))"

definition parse_integer :: "bytes \<Rightarrow> nat \<Rightarrow> der_stop + nat \<times> nat" where
  \<comment> \<open>the tag and length of R or S, from \<open>pos\<close>; the position of its bytes and their number\<close>
  "parse_integer input pos =
     (if pos = length input then Inl Reject
      else if pos \<ge> length input then Inl OutOfBounds
      else if input ! pos \<noteq> 0x02 then Inl Reject
      else if pos + 1 = length input then Inl Reject
      else let lenbyte = unat (input ! (pos + 1)); pos = pos + 2 in
        sum_bind
          (if lenbyte AND 0x80 \<noteq> 0
           then let lenbyte = lenbyte - 0x80 in
             if pos + lenbyte > length input then Inl Reject
             else sum_bind (skip_zeros input pos lenbyte) (\<lambda>(pos, lenbyte).
               if lenbyte \<ge> 8 then Inl Reject else read_length input pos lenbyte 0)
           else Inr (pos, lenbyte))
          (\<lambda>(pos, rlen). if rlen > length input - pos then Inl Reject else Inr (pos, rlen)))"

definition parse_header :: "bytes \<Rightarrow> der_stop + nat" where
  \<comment> \<open>the sequence tag and length\<close>
  "parse_header input =
     (if length input = 0 \<or> input ! 0 \<noteq> 0x30 then Inl Reject
      else if length input = 1 then Inl Reject
      else let lenbyte = unat (input ! 1) in
        if lenbyte AND 0x80 \<noteq> 0
        then (if 2 + (lenbyte - 0x80) > length input then Inl Reject else Inr (2 + (lenbyte - 0x80)))
        else Inr 2)"

record ('pk, 'sig) secp256k1 =
  ec_pubkey_parse :: "bytes \<Rightarrow> 'pk option"
  signature_parse_compact :: "bytes \<Rightarrow> bool \<times> 'sig"
  signature_normalize :: "'sig \<Rightarrow> 'sig"
  ecdsa_verify :: "'sig \<Rightarrow> uint256 \<Rightarrow> 'pk \<Rightarrow> bool"

definition compact_of :: "bytes \<Rightarrow> nat \<times> nat \<Rightarrow> nat \<times> nat \<Rightarrow> bytes option" where
  \<comment> \<open>\<open>tmpsig\<close>; \<open>None\<close> is \<open>overflow\<close>\<close>
  "compact_of input r s =
     (if snd r > 32 \<or> snd s > 32 then None
      else Some (replicate (32 - snd r) 0 @ take (snd r) (drop (fst r) input) @
                 replicate (32 - snd s) 0 @ take (snd s) (drop (fst s) input)))"

definition ecdsa_signature_parse_der_lax :: "('pk, 'sig) secp256k1 \<Rightarrow> bytes \<Rightarrow> der_stop + 'sig" where
  "ecdsa_signature_parse_der_lax C input =
     sum_bind (parse_header input) (\<lambda>pos.
     sum_bind (parse_integer input pos) (\<lambda>(rpos, rlen).
     sum_bind (parse_integer input (rpos + rlen)) (\<lambda>(spos, slen).
     sum_bind (skip_zeros input rpos rlen) (\<lambda>r.
     sum_bind (skip_zeros input spos slen) (\<lambda>s.
       Inr (case compact_of input r s of
              Some tmpsig \<Rightarrow> if fst (signature_parse_compact C tmpsig) then snd (signature_parse_compact C tmpsig)
                             else snd (signature_parse_compact C (replicate 64 0))
            | None \<Rightarrow> snd (signature_parse_compact C (replicate 64 0))))))))"

definition pubkey_Verify :: "('pk, 'sig) secp256k1 \<Rightarrow> CPubKey \<Rightarrow> uint256 \<Rightarrow> bytes \<Rightarrow> bool" where
  "pubkey_Verify C vch hash vchSig =
     (if \<not> pubkey_IsValid vch then False
      else case ec_pubkey_parse C (take (pubkey_size vch) vch) of
        None \<Rightarrow> False
      | Some pubkey \<Rightarrow>
          if length vchSig = 0 then False
          else (case ecdsa_signature_parse_der_lax C vchSig of
                  Inl _ \<Rightarrow> False
                | Inr sig \<Rightarrow> ecdsa_verify C (signature_normalize C sig) hash pubkey))"

section \<open>Keys\<close>

definition pubkey_ok :: "CPubKey \<Rightarrow> bool" where
  "pubkey_ok vch \<longleftrightarrow> length vch = 65"

lemma GetLen_le: "GetLen b \<le> 65"
  by (simp add: GetLen_def)

lemma pubkey_Set_ok: "pubkey_ok vch \<Longrightarrow> pubkey_ok (pubkey_Set vch pbegin)"
  using GetLen_le [of "pbegin ! 0"] by (auto simp: pubkey_ok_def pubkey_Set_def pubkey_Invalidate_def Let_def)

lemma GetLen_ff [simp]: "GetLen 0xFF = 0"
  by (simp add: GetLen_def)

lemma pubkey_Set_valid:
  assumes "pubkey_ok vch"
  shows "pubkey_IsValid (pubkey_Set vch pbegin) \<longleftrightarrow> pbegin \<noteq> [] \<and> length pbegin = GetLen (hd pbegin)"
    and "pubkey_IsValid (pubkey_Set vch pbegin) \<Longrightarrow> pubkey_bytes (pubkey_Set vch pbegin) = pbegin"
  using assms
  by (cases pbegin; auto simp: pubkey_IsValid_def pubkey_size_def pubkey_bytes_def pubkey_Set_def pubkey_Invalidate_def pubkey_ok_def
      Let_def nth_append split: if_splits)+

section \<open>The parser\<close>

lemma skip_zeros_run:
  "pos + n \<le> length input \<Longrightarrow> \<exists>pos' n'. skip_zeros input pos n = Inr (pos', n') \<and> pos' + n' = pos + n \<and>
     take n' (drop pos' input) = dropWhile (\<lambda>b. b = 0) (take n (drop pos input))"
proof (induction input pos n rule: skip_zeros.induct)
  case (2 input pos n)
  then have d: "drop pos input = input ! pos # drop (Suc pos) input" by (simp add: Cons_nth_drop_Suc)
  show ?case using 2 by (cases "input ! pos = 0") (auto simp: d)
qed simp

lemma read_length_run: "pos + n \<le> length input \<Longrightarrow> \<exists>r. read_length input pos n acc = Inr (pos + n, r)"
  by (induction input pos n acc rule: read_length.induct) auto

lemma parse_header_run:
  "parse_header input \<noteq> Inl OutOfBounds \<and> (\<forall>pos. parse_header input = Inr pos \<longrightarrow> pos \<le> length input)"
  by (cases input rule: remdups_adj.cases) (auto simp: parse_header_def Let_def)

lemma parse_integer_run:
  assumes "pos \<le> length input"
  shows "parse_integer input pos \<noteq> Inl OutOfBounds \<and>
    (\<forall>p n. parse_integer input pos = Inr (p, n) \<longrightarrow> p + n \<le> length input)"
proof (cases "pos = length input \<or> input ! pos \<noteq> 2 \<or> pos + 1 = length input")
  case True
  then show ?thesis using assms by (auto simp: parse_integer_def)
next
  case False
  let ?b = "unat (input ! (pos + 1))"
  consider "?b AND 0x80 = 0" | "?b AND 0x80 \<noteq> 0" "pos + 2 + (?b - 0x80) > length input" | "?b AND 0x80 \<noteq> 0" "pos + 2 + (?b - 0x80) \<le> length input"
    by linarith
  then show ?thesis
  proof cases
    case 3
    obtain p n where s: "skip_zeros input (pos + 2) (?b - 0x80) = Inr (p, n)" "p + n = pos + 2 + (?b - 0x80)"
      using skip_zeros_run [OF 3(2)] by blast
    moreover obtain r where "read_length input p n 0 = Inr (p + n, r)" using read_length_run [of p n input 0] s 3 by auto
    ultimately show ?thesis using False 3 assms by (auto simp: parse_integer_def Let_def)
  qed (use False assms in \<open>auto simp: parse_integer_def Let_def\<close>)
qed

lemma der_lax_in_bounds: "ecdsa_signature_parse_der_lax C input \<noteq> Inl OutOfBounds"
proof (cases "parse_header input")
  case (Inr pos)
  then have pos: "pos \<le> length input" using parse_header_run by blast
  show ?thesis
  proof (cases "parse_integer input pos")
    case r: (Inr r)
    obtain rpos rlen where rr: "r = (rpos, rlen)" by (cases r)
    then have rb: "rpos + rlen \<le> length input" using parse_integer_run [OF pos] r by blast
    show ?thesis
    proof (cases "parse_integer input (rpos + rlen)")
      case s: (Inr s)
      obtain spos slen where ss: "s = (spos, slen)" by (cases s)
      then have sb: "spos + slen \<le> length input" using parse_integer_run [OF rb] s by blast
      show ?thesis using skip_zeros_run [OF rb] skip_zeros_run [OF sb]
        by (auto simp: ecdsa_signature_parse_der_lax_def Inr r rr s ss)
    next
      case (Inl e)
      then show ?thesis using parse_integer_run [OF rb] r rr by (auto simp: ecdsa_signature_parse_der_lax_def \<open>parse_header input = _\<close>)
    qed
  next
    case (Inl e)
    then show ?thesis using parse_integer_run [OF pos] by (auto simp: ecdsa_signature_parse_der_lax_def \<open>parse_header input = _\<close>)
  qed
next
  case (Inl e)
  then show ?thesis using parse_header_run [of input] by (auto simp: ecdsa_signature_parse_der_lax_def)
qed

definition padded :: "bytes \<Rightarrow> bytes" where
  "padded v = replicate (32 - length v) 0 @ v"

definition der_value :: "('pk, 'sig) secp256k1 \<Rightarrow> bytes \<Rightarrow> bytes \<Rightarrow> 'sig" where
  \<comment> \<open>the signature of two big-endian integers, or the invalid signature of two zeros\<close>
  "der_value C R S =
     (let r = dropWhile (\<lambda>b. b = 0) R; s = dropWhile (\<lambda>b. b = 0) S;
          zero = snd (signature_parse_compact C (replicate 64 0))
      in if length r > 32 \<or> length s > 32 then zero
         else if fst (signature_parse_compact C (padded r @ padded s)) then snd (signature_parse_compact C (padded r @ padded s))
         else zero)"

lemma der_lax_value:
  assumes "parse_header input = Inr pos" "parse_integer input pos = Inr (rpos, rlen)"
    "parse_integer input (rpos + rlen) = Inr (spos, slen)"
  shows "ecdsa_signature_parse_der_lax C input =
    Inr (der_value C (take rlen (drop rpos input)) (take slen (drop spos input)))"
proof -
  have pos: "pos \<le> length input" using assms(1) parse_header_run by blast
  have rb: "rpos + rlen \<le> length input" using parse_integer_run [OF pos] assms(2) by blast
  have sb: "spos + slen \<le> length input" using parse_integer_run [OF rb] assms(3) by blast
  obtain rp rn where r: "skip_zeros input rpos rlen = Inr (rp, rn)" "rp + rn = rpos + rlen"
    "take rn (drop rp input) = dropWhile (\<lambda>b. b = 0) (take rlen (drop rpos input))"
    using skip_zeros_run [OF rb] by blast
  obtain sp sn where s: "skip_zeros input spos slen = Inr (sp, sn)" "sp + sn = spos + slen"
    "take sn (drop sp input) = dropWhile (\<lambda>b. b = 0) (take slen (drop spos input))"
    using skip_zeros_run [OF sb] by blast
  have l: "length (take rn (drop rp input)) = rn" "length (take sn (drop sp input)) = sn" using r(2) s(2) rb sb by auto
  show ?thesis
    using l unfolding r(3) s(3)
    by (simp add: ecdsa_signature_parse_der_lax_def assms r s compact_of_def der_value_def Let_def padded_def)
qed

lemma small_length_byte: "n < 128 \<Longrightarrow> n AND 0x80 = (0::nat)"
proof -
  assume "n < 128"
  then have "take_bit 7 n = n" by (simp add: take_bit_nat_eq_self)
  then have "n AND 0x80 = (n AND mask 7) AND 0x80" by (simp add: take_bit_eq_mask)
  also have "\<dots> = 0" by (simp add: mask_eq_exp_minus_1 ac_simps flip: and.assoc)
  finally show ?thesis .
qed

lemma parse_integer_short:
  assumes "pos + 2 + n \<le> length input" "input ! pos = 2" "unat (input ! (pos + 1)) = n" "n < 128"
  shows "parse_integer input pos = Inr (pos + 2, n)"
  using assms small_length_byte [OF assms(4)] by (simp add: parse_integer_def Let_def)

text \<open>The tolerant signature parser reads no byte outside its input, whatever the input is, and
  on a signature in the strict encoding of \<open>IsValidSignatureEncoding\<close> (less its hash type byte) it
  succeeds with exactly the two integers encoded there, without their leading zeros and padded to 32
  bytes; an integer of more than 32 bytes gives the invalid signature of two zeros.\<close>

theorem der_lax_reads_strict:
  shows "ecdsa_signature_parse_der_lax C input \<noteq> Inl OutOfBounds \<and>
    (IsValidSignatureEncoding sig \<longrightarrow>
       ecdsa_signature_parse_der_lax C (butlast sig) =
         Inr (der_value C (take (unat (sig ! 3)) (drop 4 sig))
                (take (unat (sig ! (5 + unat (sig ! 3)))) (drop (6 + unat (sig ! 3)) sig))))"
proof (intro conjI impI)
  show "ecdsa_signature_parse_der_lax C input \<noteq> Inl OutOfBounds" by (rule der_lax_in_bounds)
next
  assume v: "IsValidSignatureEncoding sig"
  let ?R = "unat (sig ! 3)"
  let ?S = "unat (sig ! (5 + ?R))"
  have l: "length sig \<le> 73" "?R + ?S + 7 = length sig" and b: "sig ! 0 = 0x30" "unat (sig ! 1) = length sig - 3"
      "sig ! 2 = 2" "sig ! (?R + 4) = 2"
    using v by (auto simp: IsValidSignatureEncoding_def Let_def split: if_splits)
  let ?i = "butlast sig"
  have len: "length ?i = ?R + ?S + 6" using l by simp
  have nth: "?i ! k = sig ! k" if "k < ?R + ?S + 6" for k using that len by (simp add: nth_butlast)
  have seg: "take n (drop m ?i) = take n (drop m sig)" if "m + n \<le> ?R + ?S + 6" for m n
    using that l by (simp add: butlast_conv_take take_drop min_def add.commute)
  have "parse_header ?i = Inr 2"
    using b(1,2) nth [of 0] nth [of 1] len l small_length_byte [of "length sig - 3"] by (simp add: parse_header_def Let_def)
  moreover have "parse_integer ?i 2 = Inr (4, ?R)"
    using parse_integer_short [of 2 ?R ?i] b(3) nth [of 2] nth [of 3] len l by simp
  moreover have "parse_integer ?i (4 + ?R) = Inr (6 + ?R, ?S)"
    using parse_integer_short [of "4 + ?R" ?S ?i] b(4) nth [of "4 + ?R"] nth [of "5 + ?R"] len l by (simp add: add.commute)
  ultimately show "ecdsa_signature_parse_der_lax C ?i =
      Inr (der_value C (take ?R (drop 4 sig)) (take ?S (drop (6 + ?R) sig)))"
    using der_lax_value [of ?i 2 4 ?R "6 + ?R" ?S C] seg [of 4 ?R] seg [of "6 + ?R" ?S] by simp
qed

definition sample_curve :: "(bytes, bytes) secp256k1" where
  "sample_curve = \<lparr>ec_pubkey_parse = Some, signature_parse_compact = (\<lambda>b. (True, b)), signature_normalize = id,
     ecdsa_verify = (\<lambda>sig hash pk. take 32 sig = hash)\<rparr>"

lemma der_lax_reads_strict_witness:
  "ecdsa_signature_parse_der_lax sample_curve [0x30, 7, 2, 2, 0, 0x90, 2, 1, 5] =
     Inr (replicate 31 0 @ [0x90] @ replicate 31 0 @ [5])"
proof -
  have "IsValidSignatureEncoding [0x30, 7, 2, 2, 0, 0x90, 2, 1, 5, 1]"
    by (simp add: IsValidSignatureEncoding_def)
  then show ?thesis
    using der_lax_reads_strict [where C = sample_curve and sig = "[0x30, 7, 2, 2, 0, 0x90, 2, 1, 5, 1]"]
    by (simp add: der_value_def padded_def sample_curve_def)
qed

section \<open>Serialized keys\<close>

lemma pubkey_Serialize_valid:
  assumes "pubkey_ok vch" "pubkey_ok vch'"
  shows "pubkey_Unserialize vch' (pubkey_Serialize vch @ rest) = Inr (pubkey_bytes vch @ drop (pubkey_size vch) vch', rest)"
proof -
  have s: "pubkey_size vch \<le> 65" by (simp add: pubkey_size_def GetLen_le)
  then have c: "ReadCompactSize (WriteCompactSize (of_nat (pubkey_size vch)) @ r) = Inr (of_nat (pubkey_size vch), r)" for r
    by (intro compact_size.dec_enc) (simp add: MAX_SIZE_def word_le_nat_alt unat_of_nat take_bit_nat_eq_self)
  have u: "unat (of_nat (pubkey_size vch) :: u64) = pubkey_size vch" using s by (simp add: unat_of_nat take_bit_nat_eq_self)
  show ?thesis
    using s assms by (simp add: pubkey_Unserialize_def pubkey_Serialize_def pubkey_bytes_def read_then_def c u stream_read_def
        read_return_def pubkey_ok_def Let_def)
qed

text \<open>A key that is read from its serialization equals it and is as valid, provided the object it
  is read into does not hold a valid key while the serialized one is invalid: an invalid key is
  written as zero bytes, and reading those changes nothing.\<close>

lemma pubkey_roundtrip:
  assumes "pubkey_ok vch" "pubkey_ok vch'" "pubkey_IsValid vch \<or> \<not> pubkey_IsValid vch'"
  shows "\<exists>k. pubkey_Unserialize vch' (pubkey_Serialize vch @ rest) = Inr (k, rest) \<and>
    pubkey_IsValid k = pubkey_IsValid vch \<and> (pubkey_IsValid vch \<longrightarrow> pubkey_eq vch k \<and> pubkey_bytes k = pubkey_bytes vch)"
proof -
  let ?k = "pubkey_bytes vch @ drop (pubkey_size vch) vch'"
  have s: "pubkey_size vch \<le> 65" by (simp add: pubkey_size_def GetLen_le)
  have "?k ! 0 = vch ! 0 \<and> take (pubkey_size vch) ?k = take (pubkey_size vch) vch" if "pubkey_IsValid vch"
    using that s assms(1) by (simp add: pubkey_IsValid_def pubkey_bytes_def nth_append pubkey_ok_def)
  moreover have "?k = vch'" if "\<not> pubkey_IsValid vch" using that by (simp add: pubkey_IsValid_def pubkey_bytes_def)
  ultimately have "pubkey_IsValid ?k = pubkey_IsValid vch" "pubkey_IsValid vch \<longrightarrow> pubkey_eq vch ?k \<and> pubkey_bytes ?k = pubkey_bytes vch"
    using assms(3) by (cases "pubkey_IsValid vch"; simp add: pubkey_IsValid_def pubkey_size_def pubkey_eq_def pubkey_bytes_def)+
  then show ?thesis using pubkey_Serialize_valid [OF assms(1,2)] by blast
qed

lemma pubkey_read_into_valid:
  assumes "pubkey_ok vch'" "pubkey_IsValid vch'"
  shows "pubkey_Unserialize vch' (pubkey_Serialize (pubkey_Invalidate vch') @ rest) = Inr (vch', rest)"
proof -
  have "pubkey_ok (pubkey_Invalidate vch')" "pubkey_size (pubkey_Invalidate vch') = 0"
    using assms(1) by (auto simp: pubkey_ok_def pubkey_Invalidate_def pubkey_size_def)
  then show ?thesis using pubkey_Serialize_valid [of "pubkey_Invalidate vch'" vch' rest] assms(1) by (simp add: pubkey_bytes_def)
qed

end
