(* ===== verification/SigChecker.thy ===== *)
theory SigChecker
  imports SigHash PubKey LockTime EvalSafety
begin

text \<open>
  \<open>TransactionSignatureChecker\<close> of script/interpreter.cpp: how the script operations that look at
  the spending transaction decide.  The lock-time operations are connected with the rules for the
  block that includes the transaction (\<open>IsFinalTx\<close> and BIP 68).
\<close>

section \<open>The checker\<close>

definition tx_CheckSig ::
  "('pk, 'sig) secp256k1 \<Rightarrow> hash_functions \<Rightarrow> CPubKey \<Rightarrow> CTransaction \<Rightarrow> u32 \<Rightarrow> bytes \<Rightarrow> bytes \<Rightarrow> bytes \<Rightarrow> bool" where
  \<comment> \<open>the third argument is the uninitialised array of the local \<open>CPubKey\<close>\<close>
  "tx_CheckSig C H mem txTo nIn vchSigIn vchPubKey scriptCode =
     (let pubkey = pubkey_Set mem vchPubKey in
      if \<not> pubkey_IsValid pubkey then False
      else if vchSigIn = [] then False
      else let nHashType = ucast (last vchSigIn) :: u32;
               vchSig = butlast vchSigIn;
               sighash = SignatureHash H scriptCode txTo nIn nHashType
           in pubkey_Verify C pubkey sighash vchSig)"

definition tx_CheckLockTime :: "CTransaction \<Rightarrow> u32 \<Rightarrow> CScriptNum \<Rightarrow> bool" where
  "tx_CheckLockTime txTo nIn n =
     (if \<not> (uint (nLockTime txTo) < LOCKTIME_THRESHOLD \<and> n < LOCKTIME_THRESHOLD \<or>
            uint (nLockTime txTo) \<ge> LOCKTIME_THRESHOLD \<and> n \<ge> LOCKTIME_THRESHOLD) then False
      else if n > uint (nLockTime txTo) then False
      else if SEQUENCE_FINAL = nSequence (vin txTo ! unat nIn) then False
      else True)"

definition tx_CheckSequence :: "CTransaction \<Rightarrow> u32 \<Rightarrow> CScriptNum \<Rightarrow> bool" where
  "tx_CheckSequence txTo nIn n =
     (let txToSequence = uint (nSequence (vin txTo ! unat nIn)) in
      if tx_nVersion txTo < 2 then False
      else if txToSequence AND uint SEQUENCE_LOCKTIME_DISABLE_FLAG \<noteq> 0 then False
      else let nLockTimeMask = uint (SEQUENCE_LOCKTIME_TYPE_FLAG OR SEQUENCE_LOCKTIME_MASK);
               txToSequenceMasked = txToSequence AND nLockTimeMask;
               nSequenceMasked = num_and n nLockTimeMask
           in if \<not> (txToSequenceMasked < uint SEQUENCE_LOCKTIME_TYPE_FLAG \<and> nSequenceMasked < uint SEQUENCE_LOCKTIME_TYPE_FLAG \<or>
                    txToSequenceMasked \<ge> uint SEQUENCE_LOCKTIME_TYPE_FLAG \<and> nSequenceMasked \<ge> uint SEQUENCE_LOCKTIME_TYPE_FLAG)
              then False
              else if nSequenceMasked > txToSequenceMasked then False
              else True)"

definition TransactionSignatureChecker ::
  "('pk, 'sig) secp256k1 \<Rightarrow> hash_functions \<Rightarrow> CPubKey \<Rightarrow> CTransaction \<Rightarrow> u32 \<Rightarrow> BaseSignatureChecker" where
  "TransactionSignatureChecker C H mem txTo nIn =
     \<lparr>CheckSig = tx_CheckSig C H mem txTo nIn, CheckLockTime = tx_CheckLockTime txTo nIn,
      CheckSequence = tx_CheckSequence txTo nIn\<rparr>"

section \<open>Absolute lock times\<close>

lemma tx_CheckLockTime_final:
  assumes "tx_CheckLockTime txTo nIn n" "unat nIn < length (vin txTo)" "IsFinalTx txTo h t" "0 < h"
  shows "if n < LOCKTIME_THRESHOLD then n < h else n < t"
proof -
  have "\<not> list_all (\<lambda>txin. nSequence txin = SEQUENCE_FINAL) (vin txTo)"
    using assms(1,2) by (auto simp: tx_CheckLockTime_def list_all_length split: if_splits)
  then show ?thesis using assms by (auto simp: tx_CheckLockTime_def IsFinalTx_def LOCKTIME_THRESHOLD_def split: if_splits)
qed

text \<open>C28: a script with \<open>n CHECKLOCKTIMEVERIFY\<close> can only be satisfied in a block after the lock
  time \<open>n\<close>: when the operation passes and the transaction is final in a block of height
  \<open>h\<close> and (median) time \<open>t\<close>, then \<open>n\<close> is not negative and \<open>n < h\<close> for a height, \<open>n < t\<close> for
  a time.  The sequence number of the input cannot be used to get around it.\<close>

theorem CHECKLOCKTIMEVERIFY_enforces:
  assumes "op_checklocktimeverify flags (TransactionSignatureChecker C H mem txTo nIn) s = Inr s'"
    and "has_flag flags SCRIPT_VERIFY_CHECKLOCKTIMEVERIFY"
    and "unat nIn < length (vin txTo)" "IsFinalTx txTo h t" "0 < h"
  shows "\<exists>v rest n. stk s = v # rest \<and> CScriptNum_of v (has_flag flags SCRIPT_VERIFY_MINIMALDATA) 5 = Some n \<and>
    0 \<le> n \<and> (if n < LOCKTIME_THRESHOLD then n < h else n < t)"
proof -
  obtain v rest n where "stk s = v # rest" "CScriptNum_of v (has_flag flags SCRIPT_VERIFY_MINIMALDATA) 5 = Some n"
    "0 \<le> n" "tx_CheckLockTime txTo nIn n"
    using assms(1,2) by (auto simp: op_checklocktimeverify_def read_num5_def TransactionSignatureChecker_def
        split: list.splits option.splits if_splits)
  then show ?thesis using tx_CheckLockTime_final [OF _ assms(3-5)] by blast
qed

section \<open>Relative lock times\<close>

definition lock_mask :: int where "lock_mask = 0x40ffff"

lemma lock_masks:
  "uint (SEQUENCE_LOCKTIME_TYPE_FLAG OR SEQUENCE_LOCKTIME_MASK) = lock_mask"
  "uint SEQUENCE_LOCKTIME_TYPE_FLAG = 2 ^ 22" "uint SEQUENCE_LOCKTIME_DISABLE_FLAG = 2 ^ 31" "uint SEQUENCE_LOCKTIME_MASK = 0xffff"
  by (simp_all add: SEQUENCE_LOCKTIME_TYPE_FLAG_def SEQUENCE_LOCKTIME_MASK_def SEQUENCE_LOCKTIME_DISABLE_FLAG_def lock_mask_def)

lemma and_power: "(x :: int) AND 2 ^ k = (if bit x k then 2 ^ k else 0)"
  by (rule bit_eqI) (auto simp: bit_simps)

lemma and_bit31: "(x :: int) AND 2147483648 = 0 \<longleftrightarrow> \<not> bit x 31"
  using and_power [of x 31] by simp

lemma and_power_or_mask:
  fixes x :: int
  assumes "m \<le> k"
  shows "x AND (2 ^ k OR mask m) = (if bit x k then 2 ^ k else 0) + take_bit m x"
proof -
  have "x AND (2 ^ k OR mask m) = (x AND 2 ^ k) OR take_bit m x" by (rule bit_eqI) (auto simp: bit_simps)
  also have "\<dots> = (x AND 2 ^ k) + take_bit m x"
    by (rule disjunctive_add_eq_or [symmetric]) (rule bit_eqI, use assms in \<open>auto simp: bit_simps\<close>)
  finally show ?thesis by (simp add: and_power)
qed

lemma and_lock_mask: "x AND lock_mask = (if bit x 22 then 2 ^ 22 else 0) + take_bit 16 x"
  using and_power_or_mask [of 16 22 x] by (simp add: lock_mask_def mask_eq_exp_minus_1)

lemma lock_mask_parts:
  "x AND lock_mask < 2 ^ 22 \<longleftrightarrow> \<not> bit x 22"
  "bit x 22 = bit y 22 \<Longrightarrow> x AND lock_mask \<le> y AND lock_mask \<longleftrightarrow> take_bit 16 x \<le> take_bit 16 y"
  for x y :: int
proof -
  have "0 \<le> take_bit 16 x" "take_bit 16 x < 2 ^ 16" by (simp, rule take_bit_int_less_exp)
  then show "x AND lock_mask < 2 ^ 22 \<longleftrightarrow> \<not> bit x 22" by (simp add: and_lock_mask)
  show "bit x 22 = bit y 22 \<Longrightarrow> x AND lock_mask \<le> y AND lock_mask \<longleftrightarrow> take_bit 16 x \<le> take_bit 16 y"
    by (simp add: and_lock_mask)
qed

lemma sequence_bits:
  fixes q :: u32
  shows "q AND SEQUENCE_LOCKTIME_DISABLE_FLAG = 0 \<longleftrightarrow> \<not> bit (uint q) 31"
    and "q AND SEQUENCE_LOCKTIME_TYPE_FLAG = 0 \<longleftrightarrow> \<not> bit (uint q) 22"
    and "uint (q AND SEQUENCE_LOCKTIME_MASK) = take_bit 16 (uint q)"
proof -
  show "q AND SEQUENCE_LOCKTIME_DISABLE_FLAG = 0 \<longleftrightarrow> \<not> bit (uint q) 31"
    unfolding SEQUENCE_LOCKTIME_DISABLE_FLAG_def
    by (simp only: push_bit_of_1 and_exp_eq_0_iff_not_bit bit_uint_iff) simp
  show "q AND SEQUENCE_LOCKTIME_TYPE_FLAG = 0 \<longleftrightarrow> \<not> bit (uint q) 22"
    unfolding SEQUENCE_LOCKTIME_TYPE_FLAG_def
    by (simp only: push_bit_of_1 and_exp_eq_0_iff_not_bit bit_uint_iff) simp
  have "uint (q AND SEQUENCE_LOCKTIME_MASK) = uint q AND mask 16"
    by (simp add: SEQUENCE_LOCKTIME_MASK_def unsigned_and_eq mask_eq_exp_minus_1)
  then show "uint (q AND SEQUENCE_LOCKTIME_MASK) = take_bit 16 (uint q)" by (simp add: take_bit_eq_mask)
qed

lemma tx_CheckSequence_iff:
  "tx_CheckSequence txTo nIn n \<longleftrightarrow>
     tx_nVersion txTo \<ge> 2 \<and>
     (let q = uint (nSequence (vin txTo ! unat nIn)) in \<not> bit q 31 \<and> bit q 22 = bit n 22 \<and> take_bit 16 n \<le> take_bit 16 q)"
proof -
  define q where "q = uint (nSequence (vin txTo ! unat nIn))"
  have "tx_CheckSequence txTo nIn n \<longleftrightarrow> tx_nVersion txTo \<ge> 2 \<and> \<not> bit q 31 \<and> bit q 22 = bit n 22 \<and> n AND lock_mask \<le> q AND lock_mask"
    using lock_mask_parts(1) [of q] lock_mask_parts(1) [of n]
    by (simp add: tx_CheckSequence_def num_and_def Let_def lock_masks and_bit31 not_le flip: q_def) (auto simp: not_less)
  then show ?thesis using lock_mask_parts(2) [of n q] by (auto simp: Let_def q_def)
qed

text \<open>C29: a script with \<open>n CHECKSEQUENCEVERIFY\<close> enforces the relative lock time \<open>n\<close>: when the
  operation passes, \<open>n\<close> does not have the disable flag, and the transaction satisfies
  \<open>SequenceLocks\<close> in a block, then the block is at least \<open>n mod 2^16\<close> blocks above the coin the
  input spends, or (type flag set) its parent's median time is at least \<open>n mod 2^16\<close> units of 512
  seconds after the coin's.\<close>

theorem CHECKSEQUENCEVERIFY_enforces:
  assumes "op_checksequenceverify sflags (TransactionSignatureChecker C H mem txTo nIn) s = Inr s'"
    and "has_flag sflags SCRIPT_VERIFY_CHECKSEQUENCEVERIFY" "unat nIn < length (vin txTo)"
    and T: "btree_wf T" "p \<in> known T" "pprev (obj T p) = Some q"
    and hs: "length hs = length (vin txTo)" "\<forall>h \<in> set hs. h \<le> nHeight (obj T p)"
    and lock: "flags AND LOCKTIME_VERIFY_SEQUENCE \<noteq> 0" "SequenceLocks T txTo flags hs p = Inr True"
  shows "\<exists>v rest n. stk s = v # rest \<and> CScriptNum_of v (has_flag sflags SCRIPT_VERIFY_MINIMALDATA) 5 = Some n \<and>
    0 \<le> n \<and>
    (\<not> bit n 31 \<longrightarrow>
       (if bit n 22
        then coin_time T p (hs ! unat nIn) + 512 * (n mod 2 ^ 16) \<le> GetMedianTimePast T q
        else hs ! unat nIn + n mod 2 ^ 16 \<le> nHeight (obj T p)))"
proof -
  let ?in = "vin txTo ! unat nIn" and ?h = "hs ! unat nIn"
  obtain v rest n where n: "stk s = v # rest" "CScriptNum_of v (has_flag sflags SCRIPT_VERIFY_MINIMALDATA) 5 = Some n" "0 \<le> n"
    "bit n 31 \<or> tx_CheckSequence txTo nIn n"
    using assms(1,2) by (auto simp: op_checksequenceverify_def read_num5_def TransactionSignatureChecker_def num_and_def lock_masks and_bit31
        split: list.splits option.splits if_splits)
  have "if bit n 22 then coin_time T p ?h + 512 * (n mod 2 ^ 16) \<le> GetMedianTimePast T q
        else ?h + n mod 2 ^ 16 \<le> nHeight (obj T p)" if "\<not> bit n 31"
  proof -
    have c: "tx_nVersion txTo \<ge> 2" "\<not> bit (uint (nSequence ?in)) 31" "bit (uint (nSequence ?in)) 22 = bit n 22"
      "take_bit 16 n \<le> relative_value ?in"
      using n(4) that by (simp_all add: tx_CheckSequence_iff Let_def relative_value_def sequence_bits)
    have "(?in, ?h) \<in> set (zip (vin txTo) hs)" using assms(3) hs(1) by (auto simp: set_zip)
    then have "input_satisfied T p (?in, ?h)"
      using SequenceLocks_correct [OF T hs c(1) lock(1)] lock(2) by simp
    then show ?thesis using c(2-4) T(3)
      by (auto simp: input_satisfied_def height_locked_def time_locked_def sequence_bits take_bit_eq_mod split: if_splits)
  qed
  then show ?thesis using n by blast
qed

definition locked_spend :: "u32 \<Rightarrow> u32 \<Rightarrow> CTransaction" where
  "locked_spend lock seq =
     \<lparr>tx_nVersion = 2, vin = [CTxIn_of (COutPoint blob_null 3) [] seq], vout = [CTxOut_of 10 []], nLockTime = lock, tx_hash = blob_null\<rparr>"

definition sample_state :: "bytes \<Rightarrow> eval_state" where
  "sample_state v = \<lparr>stk = [v], altstk = [], vfExec = [], pbegincodehash = [], nOpCount = 1\<rparr>"

lemma CHECKLOCKTIMEVERIFY_enforces_witness:
  "op_checklocktimeverify SCRIPT_VERIFY_CHECKLOCKTIMEVERIFY
     (TransactionSignatureChecker sample_curve sample_hashes (replicate 65 0) (locked_spend 100 0) 0) (sample_state [90]) =
     Inr (sample_state [90]) \<and>
   IsFinalTx (locked_spend 100 0) 101 0 \<and>
   (\<exists>v rest n. stk (sample_state [90]) = v # rest \<and>
      CScriptNum_of v (has_flag SCRIPT_VERIFY_CHECKLOCKTIMEVERIFY SCRIPT_VERIFY_MINIMALDATA) 5 = Some n \<and>
      0 \<le> n \<and> (if n < LOCKTIME_THRESHOLD then n < 101 else n < 0))"
proof -
  have f: "has_flag SCRIPT_VERIFY_CHECKLOCKTIMEVERIFY SCRIPT_VERIFY_CHECKLOCKTIMEVERIFY" by code_simp
  have op: "op_checklocktimeverify SCRIPT_VERIFY_CHECKLOCKTIMEVERIFY
     (TransactionSignatureChecker sample_curve sample_hashes (replicate 65 0) (locked_spend 100 0) 0) (sample_state [90]) =
     Inr (sample_state [90])"
    by code_simp
  have fin: "IsFinalTx (locked_spend 100 0) 101 0" by code_simp
  show ?thesis using op fin CHECKLOCKTIMEVERIFY_enforces [OF op f _ fin] by (simp add: locked_spend_def)
qed

lemma CHECKSEQUENCEVERIFY_enforces_witness:
  "\<exists>v rest n. stk (sample_state [1]) = v # rest \<and>
      CScriptNum_of v (has_flag SCRIPT_VERIFY_CHECKSEQUENCEVERIFY SCRIPT_VERIFY_MINIMALDATA) 5 = Some n \<and> 0 \<le> n \<and>
      (\<not> bit n 31 \<longrightarrow>
        (if bit n 22 then coin_time two_blocks 1 ([0] ! unat (0 :: u32)) + 512 * (n mod 2 ^ 16) \<le> GetMedianTimePast two_blocks 0
         else [0] ! unat (0 :: u32) + n mod 2 ^ 16 \<le> nHeight (obj two_blocks 1)))"
proof -
  have op: "op_checksequenceverify SCRIPT_VERIFY_CHECKSEQUENCEVERIFY
     (TransactionSignatureChecker sample_curve sample_hashes (replicate 65 0) (locked_spend 0 1) 0) (sample_state [1]) =
     Inr (sample_state [1])"
    by code_simp
  have f: "has_flag SCRIPT_VERIFY_CHECKSEQUENCEVERIFY SCRIPT_VERIFY_CHECKSEQUENCEVERIFY" by code_simp
  have lock: "SequenceLocks two_blocks (locked_spend 0 1) 1 [0] 1 = Inr True"
  proof -
    have "SequenceLocks two_blocks (locked_spend 0 1) 1 [0] 1 =
        Inr (\<forall>ih \<in> set (zip (vin (locked_spend 0 1)) [0]). input_satisfied two_blocks 1 ih)"
      by (rule SequenceLocks_correct [OF two_blocks_wf])
        (simp_all add: two_blocks_def LOCKTIME_VERIFY_SEQUENCE_def CBlockIndex_null_def locked_spend_def)
    then show ?thesis
      by (simp add: input_satisfied_def height_locked_def time_locked_def CTxIn_of_def relative_value_def two_blocks_def locked_spend_def
        SEQUENCE_LOCKTIME_DISABLE_FLAG_def SEQUENCE_LOCKTIME_TYPE_FLAG_def SEQUENCE_LOCKTIME_MASK_def)
  qed
  show ?thesis
    by (rule CHECKSEQUENCEVERIFY_enforces [OF op f _ two_blocks_wf, where flags = 1])
      (use lock in \<open>simp_all add: two_blocks_def LOCKTIME_VERIFY_SEQUENCE_def CBlockIndex_null_def locked_spend_def\<close>)
qed

end
