(* ===== verification/Standard.thy ===== *)
theory Standard
  imports PubKey
begin

text \<open>
  Standard scripts: script/standard.cpp.  \<open>Solver\<close> matches an output script against the templates
  \<open>TX_PUBKEY\<close>, \<open>TX_PUBKEYHASH\<close> and \<open>TX_MULTISIG\<close>; \<open>ExtractDestination\<close> and
  \<open>ExtractDestinations\<close> read addresses out of it, and \<open>GetScriptForDestination\<close>,
  \<open>GetScriptForRawPubKey\<close> and \<open>GetScriptForMultisig\<close> build the scripts.  The iterators of the
  matching loop are the bytes from them to the end.
\<close>

section \<open>Matching\<close>

datatype txnouttype = TX_NONSTANDARD | TX_PUBKEY | TX_PUBKEYHASH | TX_SCRIPTHASH | TX_MULTISIG | TX_NULL_DATA

definition GetTxnOutputType :: "txnouttype \<Rightarrow> string" where
  "GetTxnOutputType t =
     (case t of
        TX_NONSTANDARD \<Rightarrow> ''nonstandard'' | TX_PUBKEY \<Rightarrow> ''pubkey'' | TX_PUBKEYHASH \<Rightarrow> ''pubkeyhash''
      | TX_SCRIPTHASH \<Rightarrow> ''scripthash'' | TX_MULTISIG \<Rightarrow> ''multisig'' | TX_NULL_DATA \<Rightarrow> ''nulldata'')"

function collect_pubkeys :: "bytes \<Rightarrow> u8 \<Rightarrow> bytes \<Rightarrow> bytes list \<Rightarrow> bytes \<times> u8 \<times> bytes \<times> bytes list" where
  \<comment> \<open>\<open>while (vch1.size() >= 33 && vch1.size() <= 65)\<close>; returns \<open>pc1\<close>, \<open>opcode1\<close>, \<open>vch1\<close> and the solutions\<close>
  "collect_pubkeys pc1 opcode1 vch1 sols =
     (if length vch1 \<ge> 33 \<and> length vch1 \<le> 65
      then let sols = sols @ [vch1]; g = GetOp2 pc1 in
        if \<not> fst g then (snd (snd (snd g)), fst (snd g), fst (snd (snd g)), sols)
        else collect_pubkeys (snd (snd (snd g))) (fst (snd g)) (fst (snd (snd g))) sols
      else (pc1, opcode1, vch1, sols))"
  by pat_completeness auto
termination by (relation "measure (\<lambda>(pc1, op, v, s). length pc1)") (auto simp: GetOp2_fst)

declare collect_pubkeys.simps [simp del]

lemma GetOp2_length: "length (snd (snd (snd (GetOp2 pc)))) \<le> length pc"
  using GetOp2_snd [of pc] by (cases "pc = []") (auto intro: less_imp_le)

lemma collect_pubkeys_length: "length (fst (collect_pubkeys pc op v s)) \<le> length pc"
proof (induction pc op v s rule: collect_pubkeys.induct)
  case (1 pc op v s)
  show ?case
  proof (cases "length v \<ge> 33 \<and> length v \<le> 65 \<and> fst (GetOp2 pc)")
    case True
    then have "length (fst (collect_pubkeys (snd (snd (snd (GetOp2 pc)))) (fst (snd (GetOp2 pc))) (fst (snd (snd (GetOp2 pc)))) (s @ [v])))
        \<le> length (snd (snd (snd (GetOp2 pc))))"
      using 1 by simp
    then show ?thesis using True GetOp2_length [of pc] by (subst collect_pubkeys.simps) (simp add: Let_def)
  next
    case False
    then show ?thesis using GetOp2_length [of pc] by (subst collect_pubkeys.simps) (auto simp: Let_def)
  qed
qed

definition match_op :: "u8 \<Rightarrow> u8 \<Rightarrow> bytes \<Rightarrow> bytes \<Rightarrow> bytes list \<Rightarrow> bytes list option" where
  \<comment> \<open>the \<open>if\<close>/\<open>else if\<close> chain on \<open>opcode2\<close>; \<open>None\<close> is \<open>break\<close>\<close>
  "match_op opcode2 opcode1 vch1 vch2 sols =
     (if opcode2 = OP_PUBKEY then (if length vch1 < 33 \<or> length vch1 > 65 then None else Some (sols @ [vch1]))
      else if opcode2 = OP_PUBKEYHASH then (if length vch1 \<noteq> 20 then None else Some (sols @ [vch1]))
      else if opcode2 = OP_SMALLINTEGER
      then (if opcode1 = OP_0 \<or> opcode1 \<ge> OP_1 \<and> opcode1 \<le> OP_16
            then Some (sols @ [[word_of_int (the (DecodeOP_N opcode1))]]) else None)
      else if opcode1 \<noteq> opcode2 \<or> vch1 \<noteq> vch2 then None else Some sols)"

function match_loop :: "bytes \<Rightarrow> bytes \<Rightarrow> bytes list \<Rightarrow> bytes list option" where
  \<comment> \<open>the \<open>while (true)\<close> loop over one template; \<open>None\<close> is \<open>break\<close>\<close>
  "match_loop pc1 pc2 sols =
     (if pc1 = [] \<and> pc2 = [] then Some sols
      else let g1 = GetOp2 pc1 in if \<not> fst g1 then None
      else let g2 = GetOp2 pc2 in if \<not> fst g2 then None
      else if fst (snd g2) = OP_PUBKEYS
      then let c = collect_pubkeys (snd (snd (snd g1))) (fst (snd g1)) (fst (snd (snd g1))) sols;
               g3 = GetOp2 (snd (snd (snd g2)))
           in if \<not> fst g3 then None
           else (case match_op (fst (snd g3)) (fst (snd c)) (fst (snd (snd c))) (fst (snd (snd g3))) (snd (snd (snd c))) of
                   None \<Rightarrow> None | Some s \<Rightarrow> match_loop (fst c) (snd (snd (snd g3))) s)
      else (case match_op (fst (snd g2)) (fst (snd g1)) (fst (snd (snd g1))) (fst (snd (snd g2))) sols of
              None \<Rightarrow> None | Some s \<Rightarrow> match_loop (snd (snd (snd g1))) (snd (snd (snd g2))) s))"
  by pat_completeness auto
termination
proof (relation "measure (\<lambda>(pc1, pc2, s). length pc1)")
  fix pc1 pc2 :: bytes and sols g1 g2 c g3 s
  assume "g1 = GetOp2 pc1" "\<not> \<not> fst g1" "c = collect_pubkeys (snd (snd (snd g1))) (fst (snd g1)) (fst (snd (snd g1))) sols"
  then show "((fst c, snd (snd (snd g3)), s), (pc1, pc2, sols)) \<in> measure (\<lambda>(pc1, pc2, s). length pc1)"
    using collect_pubkeys_length [of "snd (snd (snd g1))" "fst (snd g1)" "fst (snd (snd g1))" sols] GetOp2_fst [of pc1]
    by simp
qed (auto simp: GetOp2_fst)

declare match_loop.simps [simp del]

definition mTemplates :: "(txnouttype \<times> bytes) list" where
  \<comment> \<open>in the order of the \<open>multimap\<close>\<close>
  "mTemplates =
     [(TX_PUBKEY, [OP_PUBKEY, OP_CHECKSIG]),
      (TX_PUBKEYHASH, [OP_DUP, OP_HASH160, OP_PUBKEYHASH, OP_EQUALVERIFY, OP_CHECKSIG]),
      (TX_MULTISIG, [OP_SMALLINTEGER, OP_PUBKEYS, OP_SMALLINTEGER, OP_CHECKMULTISIG])]"

fun scan_templates :: "bytes \<Rightarrow> (txnouttype \<times> bytes) list \<Rightarrow> bool \<times> txnouttype \<times> bytes list" where
  "scan_templates script1 [] = (False, TX_NONSTANDARD, [])"
| "scan_templates script1 ((ty, script2) # rest) =
     (case match_loop script1 script2 [] of
        None \<Rightarrow> scan_templates script1 rest
      | Some sols \<Rightarrow>
          if ty = TX_MULTISIG
          then let m = hd (hd sols); n = hd (last sols) in
            if m < 1 \<or> n < 1 \<or> m > n \<or> length sols - 2 \<noteq> unat n then (False, ty, sols) else (True, ty, sols)
          else (True, ty, sols))"

definition Solver :: "bytes \<Rightarrow> bool \<times> txnouttype \<times> bytes list" where
  \<comment> \<open>the result, \<open>typeRet\<close> and \<open>vSolutionsRet\<close>\<close>
  "Solver script =
     (if IsPayToScriptHash script then (True, TX_SCRIPTHASH, [take 20 (drop 2 script)])
      else if length script \<ge> 1 \<and> script ! 0 = OP_RETURN \<and> push_only_loop (drop 1 script) then (True, TX_NULL_DATA, [])
      else scan_templates script mTemplates)"

section \<open>Destinations\<close>

datatype CTxDestination = CNoDestination | CKeyID bytes | CScriptID bytes

definition ExtractDestination :: "hash_functions \<Rightarrow> CPubKey \<Rightarrow> bytes \<Rightarrow> CTxDestination option" where
  \<comment> \<open>\<open>None\<close> is \<open>false\<close>; the second argument is the uninitialised array of the local \<open>CPubKey\<close>\<close>
  "ExtractDestination H mem script =
     (case Solver script of (ok, whichType, vSolutions) \<Rightarrow>
        if \<not> ok then None
        else if whichType = TX_PUBKEY
        then let pubKey = pubkey_Set mem (vSolutions ! 0) in
          if \<not> pubkey_IsValid pubKey then None else Some (CKeyID (pubkey_GetID H pubKey))
        else if whichType = TX_PUBKEYHASH then Some (CKeyID (vSolutions ! 0))
        else if whichType = TX_SCRIPTHASH then Some (CScriptID (vSolutions ! 0))
        else None)"

definition ExtractDestinations ::
  "hash_functions \<Rightarrow> CPubKey \<Rightarrow> bytes \<Rightarrow> bool \<times> txnouttype \<times> CTxDestination list \<times> int option" where
  \<comment> \<open>the result, \<open>typeRet\<close>, \<open>addressRet\<close> and \<open>nRequiredRet\<close> (\<open>None\<close>: not assigned)\<close>
  "ExtractDestinations H mem script =
     (case Solver script of (ok, ty, vSolutions) \<Rightarrow>
        if \<not> ok then (False, ty, [], None)
        else if ty = TX_NULL_DATA then (False, ty, [], None)
        else if ty = TX_MULTISIG
        then let keys = map (pubkey_Set mem) (take (length vSolutions - 2) (drop 1 vSolutions));
                 addressRet = map (\<lambda>k. CKeyID (pubkey_GetID H k)) (filter pubkey_IsValid keys);
                 nRequiredRet = Some (uint (hd (hd vSolutions)))
             in (addressRet \<noteq> [], ty, addressRet, nRequiredRet)
        else (case ExtractDestination H mem script of
                None \<Rightarrow> (False, ty, [], Some 1)
              | Some address \<Rightarrow> (True, ty, [address], Some 1)))"

definition GetScriptForDestination :: "CTxDestination \<Rightarrow> bytes" where
  \<comment> \<open>\<open>CScriptVisitor\<close>\<close>
  "GetScriptForDestination dest =
     (case dest of
        CNoDestination \<Rightarrow> []
      | CKeyID keyID \<Rightarrow>
          push_opcode (push_opcode (push_data (push_opcode (push_opcode [] OP_DUP) OP_HASH160) keyID) OP_EQUALVERIFY) OP_CHECKSIG
      | CScriptID scriptID \<Rightarrow> push_opcode (push_data (push_opcode [] OP_HASH160) scriptID) OP_EQUAL)"

definition GetScriptForRawPubKey :: "CPubKey \<Rightarrow> bytes" where
  "GetScriptForRawPubKey pubKey = push_opcode (push_data [] (pubkey_bytes pubKey)) OP_CHECKSIG"

definition GetScriptForMultisig :: "int \<Rightarrow> CPubKey list \<Rightarrow> bytes option" where
  \<comment> \<open>\<open>None\<close> is a failed assertion of \<open>EncodeOP_N\<close>\<close>
  "GetScriptForMultisig nRequired keys =
     Option.bind (EncodeOP_N nRequired) (\<lambda>m.
     Option.bind (EncodeOP_N (int (length keys))) (\<lambda>n.
       let script = push_opcode [] m;
           script = foldl (\<lambda>s key. push_data s (pubkey_bytes key)) script keys
       in Some (push_opcode (push_opcode script n) OP_CHECKMULTISIG)))"

section \<open>The templates\<close>

definition op_step :: "bytes \<Rightarrow> u8 \<Rightarrow> bytes \<Rightarrow> bytes \<Rightarrow> bool" where
  \<comment> \<open>the first instruction of \<open>pc\<close>\<close>
  "op_step pc opcode d r \<longleftrightarrow> pc = enc_op (opcode, d) @ r \<and> op_ok (opcode, d)"

lemma op_step_iff: "GetOp2 pc = (True, opcode, d, r) \<longleftrightarrow> op_step pc opcode d r"
  using GetOp2_True_enc GetOp2_enc_op by (auto simp: op_step_def)

lemma fst_GetOp2: "fst (GetOp2 pc) \<longleftrightarrow> (\<exists>opcode d r. op_step pc opcode d r)"
proof -
  have "fst (GetOp2 pc) \<longleftrightarrow> (\<exists>opcode d r. GetOp2 pc = (True, opcode, d, r))" by (cases "GetOp2 pc") auto
  then show ?thesis by (simp only: op_step_iff)
qed

lemma GetOp2_opcode:
  "opcode > OP_PUSHDATA4 \<Longrightarrow> GetOp2 (opcode # r) = (True, opcode, [], r)"
  by (simp add: GetOp2_def flip: not_less)

lemma match_Nil: "match_loop pc1 [] sols = Some s \<longleftrightarrow> pc1 = [] \<and> s = sols"
  by (subst match_loop.simps) (auto simp: Let_def)

lemma match_single:
  assumes "opcode2 > OP_PUSHDATA4" "opcode2 \<noteq> OP_PUBKEYS"
  shows "match_loop pc1 (opcode2 # pc2) sols = Some s \<longleftrightarrow>
    (\<exists>opcode1 d r sols'. op_step pc1 opcode1 d r \<and> match_op opcode2 opcode1 d [] sols = Some sols' \<and> match_loop r pc2 sols' = Some s)"
proof (cases "GetOp2 pc1")
  case (fields ok opcode1 d r)
  show ?thesis
  proof (cases ok)
    case True
    then have "op_step pc1 o1 d1 r1 \<longleftrightarrow> o1 = opcode1 \<and> d1 = d \<and> r1 = r" for o1 d1 r1
      using fields by (auto simp flip: op_step_iff)
    then show ?thesis using fields True assms
      by (subst match_loop.simps) (auto simp: GetOp2_opcode Let_def split: option.splits)
  next
    case False
    then have "\<not> op_step pc1 o1 d1 r1" for o1 d1 r1 using fields by (simp flip: op_step_iff)
    then show ?thesis using fields False by (subst match_loop.simps) (simp add: Let_def)
  qed
qed

lemma match_plain:
  assumes "opcode2 > OP_PUSHDATA4" "opcode2 \<notin> {OP_PUBKEYS, OP_PUBKEY, OP_PUBKEYHASH, OP_SMALLINTEGER}"
  shows "match_loop pc1 (opcode2 # pc2) sols = Some s \<longleftrightarrow> (\<exists>r. op_step pc1 opcode2 [] r \<and> match_loop r pc2 sols = Some s)"
  using assms by (auto simp: match_single match_op_def)

definition small_int :: "u8 \<Rightarrow> bool" where
  "small_int opcode \<longleftrightarrow> opcode = OP_0 \<or> opcode \<ge> OP_1 \<and> opcode \<le> OP_16"

definition small_value :: "u8 \<Rightarrow> u8" where
  "small_value opcode = word_of_int (the (DecodeOP_N opcode))"

lemma match_op_Some:
  "match_op OP_PUBKEY o1 d v sols = Some s \<longleftrightarrow> 33 \<le> length d \<and> length d \<le> 65 \<and> s = sols @ [d]"
  "match_op OP_PUBKEYHASH o1 d v sols = Some s \<longleftrightarrow> length d = 20 \<and> s = sols @ [d]"
  "match_op OP_SMALLINTEGER o1 d v sols = Some s \<longleftrightarrow> small_int o1 \<and> s = sols @ [[small_value o1]]"
  by (auto simp: match_op_def small_int_def small_value_def)

lemma match_PUBKEY:
  "match_loop pc1 (OP_PUBKEY # pc2) sols = Some s \<longleftrightarrow>
     (\<exists>opcode k r. op_step pc1 opcode k r \<and> 33 \<le> length k \<and> length k \<le> 65 \<and> match_loop r pc2 (sols @ [k]) = Some s)"
  by (simp add: match_single match_op_Some)

lemma match_PUBKEYHASH:
  "match_loop pc1 (OP_PUBKEYHASH # pc2) sols = Some s \<longleftrightarrow>
     (\<exists>opcode k r. op_step pc1 opcode k r \<and> length k = 20 \<and> match_loop r pc2 (sols @ [k]) = Some s)"
  by (simp add: match_single match_op_Some)

lemma match_SMALLINTEGER:
  "match_loop pc1 (OP_SMALLINTEGER # pc2) sols = Some s \<longleftrightarrow>
     (\<exists>opcode d r. op_step pc1 opcode d r \<and> small_int opcode \<and> match_loop r pc2 (sols @ [[small_value opcode]]) = Some s)"
  by (simp add: match_single match_op_Some)

lemma op_step_parse: "op_step s opcode d r \<Longrightarrow> parse_script s = map_option (Cons (opcode, d)) (parse_script r)"
  by (simp add: op_step_def)

lemma parse_Cons_iff:
  "parse_script s = Some (x # ops) \<longleftrightarrow> (\<exists>r. op_step s (fst x) (snd x) r \<and> parse_script r = Some ops)"
proof
  assume "parse_script s = Some (x # ops)"
  then have "s = enc_op x @ enc_ops ops" "op_ok x" "\<forall>y \<in> set ops. op_ok y" by (simp_all add: parse_script_iff)
  then show "\<exists>r. op_step s (fst x) (snd x) r \<and> parse_script r = Some ops"
    by (intro exI [of _ "enc_ops ops"]) (simp add: op_step_def parse_enc_ops)
qed (auto simp: op_step_parse)

lemma parse_Nil_iff: "parse_script s = Some [] \<longleftrightarrow> s = []"
  by (simp add: parse_script_iff)

lemma match_pubkey_iff:
  "match_loop s [OP_PUBKEY, OP_CHECKSIG] [] = Some sols \<longleftrightarrow>
     (\<exists>opcode k. parse_script s = Some [(opcode, k), (OP_CHECKSIG, [])] \<and> 33 \<le> length k \<and> length k \<le> 65 \<and> sols = [k])"
  by (simp add: match_PUBKEY match_plain match_Nil parse_Cons_iff parse_Nil_iff) blast

lemma match_pubkeyhash_iff:
  "match_loop s [OP_DUP, OP_HASH160, OP_PUBKEYHASH, OP_EQUALVERIFY, OP_CHECKSIG] [] = Some sols \<longleftrightarrow>
     (\<exists>opcode h. parse_script s = Some [(OP_DUP, []), (OP_HASH160, []), (opcode, h), (OP_EQUALVERIFY, []), (OP_CHECKSIG, [])] \<and>
        length h = 20 \<and> sols = [h])"
  by (simp add: match_PUBKEYHASH match_plain match_Nil parse_Cons_iff parse_Nil_iff) blast

section \<open>The multisig template\<close>

abbreviation key_sized :: "bytes \<Rightarrow> bool" where
  "key_sized k \<equiv> 33 \<le> length k \<and> length k \<le> 65"

lemma collect_pubkeys_run:
  assumes "op_step pc1 opcode k pc"
  shows "\<exists>keys opcode' k' pc'. collect_pubkeys pc opcode k sols = (pc', opcode', k', sols @ map snd keys) \<and>
    (\<forall>x \<in> set keys. op_ok x \<and> key_sized (snd x)) \<and>
    (opcode' = OP_INVALIDOPCODE \<and> k' = [] \<or>
     pc1 = enc_ops keys @ enc_op (opcode', k') @ pc' \<and> op_ok (opcode', k') \<and> \<not> key_sized k')"
  using assms
proof (induction pc opcode k sols arbitrary: pc1 rule: collect_pubkeys.induct)
  case (1 pc opcode k sols)
  show ?case
  proof (cases "key_sized k")
    case False
    then show ?thesis using 1(2)
      by (intro exI [of _ "[]"]) (subst collect_pubkeys.simps, auto simp: op_step_def)
  next
    case True
    show ?thesis
    proof (cases "fst (GetOp2 pc)")
      case False
      have "fst (snd (GetOp2 pc)) = OP_INVALIDOPCODE \<and> fst (snd (snd (GetOp2 pc))) = []"
        using False by (auto simp: GetOp2_def split: list.splits if_splits option.splits prod.splits)
      then show ?thesis using True False 1(2)
        by (intro exI [of _ "[(opcode, k)]"]) (subst collect_pubkeys.simps, auto simp: Let_def op_step_def)
    next
      case ok: True
      obtain op2 k2 pc2 where g: "GetOp2 pc = (True, op2, k2, pc2)" using ok by (cases "GetOp2 pc") auto
      then have st: "op_step pc op2 k2 pc2" by (simp add: op_step_iff)
      obtain keys o' k' p' where r: "collect_pubkeys pc2 op2 k2 (sols @ [k]) = (p', o', k', (sols @ [k]) @ map snd keys)"
        "\<forall>x \<in> set keys. op_ok x \<and> key_sized (snd x)"
        "o' = OP_INVALIDOPCODE \<and> k' = [] \<or> pc = enc_ops keys @ enc_op (o', k') @ p' \<and> op_ok (o', k') \<and> \<not> key_sized k'"
        using 1(1) [OF _ refl refl, of pc] True g st by auto
      then show ?thesis using True g 1(2)
        by (intro exI [of _ "(opcode, k) # keys"] exI [of _ o'] exI [of _ k'] exI [of _ p'])
          (subst collect_pubkeys.simps, auto simp: Let_def op_step_def)
    qed
  qed
qed

lemma collect_pubkeys_keys:
  assumes "\<forall>x \<in> set keys. op_ok x \<and> key_sized (snd x)" "op_ok (opcode', k')" "\<not> key_sized k'"
    "op_step (enc_ops keys @ enc_op (opcode', k') @ pc') opcode k pc"
  shows "collect_pubkeys pc opcode k sols = (pc', opcode', k', sols @ map snd keys)"
  using assms
proof (induction keys arbitrary: opcode k pc sols)
  case Nil
  then have "opcode = opcode' \<and> k = k' \<and> pc = pc'"
    using GetOp2_enc_op [of opcode k pc] GetOp2_enc_op [of opcode' k' pc'] by (auto simp: op_step_def)
  then show ?case using Nil by (subst collect_pubkeys.simps) auto
next
  case (Cons x keys)
  let ?rest = "enc_ops keys @ enc_op (opcode', k') @ pc'"
  have e: "opcode = fst x \<and> k = snd x \<and> pc = ?rest"
    using Cons.prems GetOp2_enc_op [of opcode k pc] GetOp2_enc [of x ?rest] by (auto simp: op_step_def)
  obtain op2 k2 pc2 where g: "op_step ?rest op2 k2 pc2"
  proof (cases keys)
    case Nil
    then show ?thesis using that [of opcode' k' pc'] Cons.prems(2) by (simp add: op_step_def)
  next
    case (Cons y ys)
    then show ?thesis using that [of "fst y" "snd y" "enc_ops ys @ enc_op (opcode', k') @ pc'"] Cons.prems(1) by (simp add: op_step_def)
  qed
  then have "GetOp2 pc = (True, op2, k2, pc2)" using e by (simp add: op_step_iff)
  then show ?case using Cons.IH [OF _ Cons.prems(2,3) g, of "sols @ [k]"] Cons.prems(1) e
    by (subst collect_pubkeys.simps) (simp add: Let_def)
qed

lemma small_int_ok: "small_int n \<Longrightarrow> op_ok (n, d) \<longleftrightarrow> d = []" and small_int_enc: "small_int n \<Longrightarrow> enc_op (n, []) = [n]"
  by (auto simp: small_int_def op_ok_def enc_op_def word_le_nat_alt word_less_nat_alt)

lemma INVALIDOPCODE_not_small: "\<not> small_int OP_INVALIDOPCODE"
  by (simp add: small_int_def word_le_nat_alt)

lemma match_PUBKEYS:
  "match_loop pc1 (OP_PUBKEYS # OP_SMALLINTEGER # pc2) sols = Some s \<longleftrightarrow>
     (\<exists>keys n r. pc1 = enc_ops keys @ n # r \<and> (\<forall>x \<in> set keys. op_ok x \<and> key_sized (snd x)) \<and> small_int n \<and>
        match_loop r pc2 (sols @ map snd keys @ [[small_value n]]) = Some s)"
proof -
  have unf: "match_loop pc1 (OP_PUBKEYS # OP_SMALLINTEGER # pc2) sols = Some s \<longleftrightarrow>
      (case collect_pubkeys r opcode k sols of (pc', o', k', sols') \<Rightarrow>
         small_int o' \<and> match_loop pc' pc2 (sols' @ [[small_value o']]) = Some s)"
    if "op_step pc1 opcode k r" for opcode k r
  proof -
    have g: "GetOp2 pc1 = (True, opcode, k, r)" using that by (simp add: op_step_iff)
    show ?thesis
      by (subst match_loop.simps) (auto simp: g GetOp2_opcode Let_def match_op_def small_int_def small_value_def split: prod.splits option.splits)
  qed
  show ?thesis
  proof
    assume m: "match_loop pc1 (OP_PUBKEYS # OP_SMALLINTEGER # pc2) sols = Some s"
    then have "fst (GetOp2 pc1)" by (subst (asm) match_loop.simps) (simp add: Let_def split: if_splits)
    then obtain opcode k r where st: "op_step pc1 opcode k r" using fst_GetOp2 by blast
    obtain keys o' k' pc' where c: "collect_pubkeys r opcode k sols = (pc', o', k', sols @ map snd keys)"
      "\<forall>x \<in> set keys. op_ok x \<and> key_sized (snd x)"
      "o' = OP_INVALIDOPCODE \<and> k' = [] \<or> pc1 = enc_ops keys @ enc_op (o', k') @ pc' \<and> op_ok (o', k') \<and> \<not> key_sized k'"
      using collect_pubkeys_run [OF st, of sols] by blast
    have s: "small_int o'" "match_loop pc' pc2 ((sols @ map snd keys) @ [[small_value o']]) = Some s"
      using m unfolding unf [OF st] c(1) by simp_all
    then have "pc1 = enc_ops keys @ o' # pc'" using c(3) INVALIDOPCODE_not_small by (auto simp: small_int_ok small_int_enc)
    then show "\<exists>keys n r. pc1 = enc_ops keys @ n # r \<and> (\<forall>x \<in> set keys. op_ok x \<and> key_sized (snd x)) \<and> small_int n \<and>
        match_loop r pc2 (sols @ map snd keys @ [[small_value n]]) = Some s"
      using c(2) s by (metis append_assoc)
  next
    assume "\<exists>keys n r. pc1 = enc_ops keys @ n # r \<and> (\<forall>x \<in> set keys. op_ok x \<and> key_sized (snd x)) \<and> small_int n \<and>
        match_loop r pc2 (sols @ map snd keys @ [[small_value n]]) = Some s"
    then obtain keys n r where d: "pc1 = enc_ops keys @ enc_op (n, []) @ r" "\<forall>x \<in> set keys. op_ok x \<and> key_sized (snd x)" "small_int n"
      "match_loop r pc2 (sols @ map snd keys @ [[small_value n]]) = Some s" by (auto simp: small_int_enc)
    have n: "op_ok (n, [])" using d(3) by (simp add: small_int_ok)
    obtain opcode k r' where st: "op_step pc1 opcode k r'"
    proof (cases keys)
      case Nil
      then show ?thesis using that [of n "[]" r] d(1) n by (simp add: op_step_def)
    next
      case (Cons y ys)
      then show ?thesis using that [of "fst y" "snd y" "enc_ops ys @ enc_op (n, []) @ r"] d(1,2) by (simp add: op_step_def)
    qed
    have "collect_pubkeys r' opcode k sols = (r, n, [], sols @ map snd keys)"
      by (rule collect_pubkeys_keys [OF d(2) n _ st [unfolded d(1)]]) simp
    then show "match_loop pc1 (OP_PUBKEYS # OP_SMALLINTEGER # pc2) sols = Some s" unfolding unf [OF st] using d(3,4) by simp
  qed
qed

lemma parse_append_iff:
  "parse_script s = Some (ops @ ops') \<longleftrightarrow> (\<exists>r. s = enc_ops ops @ r \<and> (\<forall>x \<in> set ops. op_ok x) \<and> parse_script r = Some ops')"
proof -
  have "parse_script s = Some (ops @ ops') \<longleftrightarrow> s = enc_ops ops @ enc_ops ops' \<and> (\<forall>x \<in> set ops. op_ok x) \<and> (\<forall>x \<in> set ops'. op_ok x)"
    by (auto simp: parse_script_iff)
  then show ?thesis by (auto simp: parse_script_iff)
qed

lemma match_multisig_iff:
  "match_loop s [OP_SMALLINTEGER, OP_PUBKEYS, OP_SMALLINTEGER, OP_CHECKMULTISIG] [] = Some sols \<longleftrightarrow>
     (\<exists>m keys n. parse_script s = Some ((m, []) # keys @ [(n, []), (OP_CHECKMULTISIG, [])]) \<and> small_int m \<and> small_int n \<and>
        (\<forall>x \<in> set keys. key_sized (snd x)) \<and> sols = [small_value m] # map snd keys @ [[small_value n]])"
    (is "?l = ?r")
proof
  assume ?l
  then obtain m d r keys n r' where s: "op_step s m d r" "small_int m" "r = enc_ops keys @ n # r'"
      "\<forall>x \<in> set keys. op_ok x \<and> key_sized (snd x)" "small_int n" "op_step r' OP_CHECKMULTISIG [] []"
      "sols = [small_value m] # map snd keys @ [[small_value n]]"
    by (auto simp: match_SMALLINTEGER match_PUBKEYS match_plain match_Nil)
  have "d = []" using s(1,2) by (auto simp: op_step_def small_int_ok)
  moreover have "parse_script (n # r') = Some [(n, []), (OP_CHECKMULTISIG, [])]"
  proof -
    have ok: "op_ok x" if "x \<in> set [(n, []), (OP_CHECKMULTISIG, [])]" for x
      using that s(5,6) by (auto simp: small_int_ok op_step_def)
    have "r' = enc_op (OP_CHECKMULTISIG, [])" using s(6) by (simp add: op_step_def)
    then show ?thesis using parse_enc_ops [of "[(n, []), (OP_CHECKMULTISIG, [])]", OF ok] by (simp add: small_int_enc [OF s(5)])
  qed
  ultimately have "parse_script s = Some ((m, []) # keys @ [(n, []), (OP_CHECKMULTISIG, [])])"
    using s(1,3,4) by (auto simp: parse_Cons_iff [of s] parse_append_iff)
  then show ?r using s by blast
next
  assume ?r
  then obtain m keys n where p: "parse_script s = Some ((m, []) # keys @ [(n, []), (OP_CHECKMULTISIG, [])])" "small_int m" "small_int n"
    "\<forall>x \<in> set keys. key_sized (snd x)" "sols = [small_value m] # map snd keys @ [[small_value n]]" by blast
  obtain r where r: "op_step s m [] r" "parse_script r = Some (keys @ [(n, []), (OP_CHECKMULTISIG, [])])"
    using p(1) by (auto simp: parse_Cons_iff)
  obtain r1 where r1: "r = enc_ops keys @ r1" "\<forall>x \<in> set keys. op_ok x" "parse_script r1 = Some [(n, []), (OP_CHECKMULTISIG, [])]"
    using r(2) by (auto simp: parse_append_iff)
  obtain r2 where r2: "r1 = n # r2" "op_step r2 OP_CHECKMULTISIG [] []"
    using r1(3) p(3) by (auto simp: parse_Cons_iff parse_Nil_iff op_step_def small_int_enc)
  have "match_loop r [OP_PUBKEYS, OP_SMALLINTEGER, OP_CHECKMULTISIG] [[small_value m]] = Some sols"
    unfolding match_PUBKEYS
    using r1 r2 p by (intro exI [of _ keys] exI [of _ n] exI [of _ r2]) (auto simp: match_plain match_Nil)
  then show ?l using r(1) p(2) by (auto simp: match_SMALLINTEGER)
qed

section \<open>What Solver recognises\<close>

lemma hash_first_not_template:
  assumes "parse_script s = Some (x # ops)" "fst x \<noteq> OP_HASH160" "fst x \<noteq> OP_RETURN"
  shows "Solver s = scan_templates s mTemplates"
proof -
  obtain r where "s = enc_op x @ r" using assms(1) by (auto simp: parse_Cons_iff op_step_def)
  then have "s ! 0 = fst x" by (cases x) (simp add: enc_op_def)
  then show ?thesis using assms(2,3) by (simp add: Solver_def IsPayToScriptHash_def)
qed

lemma scan_iff:
  "scan_templates s mTemplates =
     (case match_loop s [OP_PUBKEY, OP_CHECKSIG] [] of
        Some sols \<Rightarrow> (True, TX_PUBKEY, sols)
      | None \<Rightarrow>
     (case match_loop s [OP_DUP, OP_HASH160, OP_PUBKEYHASH, OP_EQUALVERIFY, OP_CHECKSIG] [] of
        Some sols \<Rightarrow> (True, TX_PUBKEYHASH, sols)
      | None \<Rightarrow>
     (case match_loop s [OP_SMALLINTEGER, OP_PUBKEYS, OP_SMALLINTEGER, OP_CHECKMULTISIG] [] of
        Some sols \<Rightarrow>
          let m = hd (hd sols); n = hd (last sols) in
          if m < 1 \<or> n < 1 \<or> m > n \<or> length sols - 2 \<noteq> unat n then (False, TX_MULTISIG, sols) else (True, TX_MULTISIG, sols)
      | None \<Rightarrow> (False, TX_NONSTANDARD, []))))"
  by (simp add: mTemplates_def Let_def split: option.split)

lemma Solver_type:
  assumes "Solver s = (ok, ty, sols)" "ty \<noteq> TX_SCRIPTHASH" "ty \<noteq> TX_NULL_DATA"
  shows "scan_templates s mTemplates = (ok, ty, sols)"
  using assms by (auto simp: Solver_def split: if_splits)

lemma last_CHECKSIG:
  assumes "parse_script s = Some ops" "last ops \<noteq> (OP_CHECKSIG, [])"
  shows "match_loop s [OP_PUBKEY, OP_CHECKSIG] [] = None"
    "match_loop s [OP_DUP, OP_HASH160, OP_PUBKEYHASH, OP_EQUALVERIFY, OP_CHECKSIG] [] = None"
  using assms by (auto simp: match_pubkey_iff match_pubkeyhash_iff simp flip: not_Some_eq)

lemma op_ok_push: "op_ok (opcode, d) \<Longrightarrow> d \<noteq> [] \<Longrightarrow> opcode \<le> OP_PUSHDATA4"
  by (cases opcode rule: op_push_cases) (auto simp: op_ok_def dest: op_push_not)

lemma Solver_pubkey:
  "Solver s = (True, TX_PUBKEY, sols) \<longleftrightarrow>
     (\<exists>opcode k. parse_script s = Some [(opcode, k), (OP_CHECKSIG, [])] \<and> 33 \<le> length k \<and> length k \<le> 65 \<and> sols = [k])"
proof
  assume "Solver s = (True, TX_PUBKEY, sols)"
  then have "scan_templates s mTemplates = (True, TX_PUBKEY, sols)" by (rule Solver_type) simp_all
  then have "match_loop s [OP_PUBKEY, OP_CHECKSIG] [] = Some sols" by (auto simp: scan_iff Let_def split: option.splits if_splits)
  then show "\<exists>opcode k. parse_script s = Some [(opcode, k), (OP_CHECKSIG, [])] \<and> 33 \<le> length k \<and> length k \<le> 65 \<and> sols = [k]"
    by (simp add: match_pubkey_iff)
next
  assume r: "\<exists>opcode k. parse_script s = Some [(opcode, k), (OP_CHECKSIG, [])] \<and> 33 \<le> length k \<and> length k \<le> 65 \<and> sols = [k]"
  then obtain opcode k where k: "parse_script s = Some [(opcode, k), (OP_CHECKSIG, [])]" "33 \<le> length k" by blast
  have "k \<noteq> []" using k(2) by auto
  then have "opcode \<le> OP_PUSHDATA4" using parse_script_Some [OF k(1)] op_ok_push [of opcode k] by auto
  then have "Solver s = scan_templates s mTemplates" by (intro hash_first_not_template [OF k(1)]) auto
  moreover have "match_loop s [OP_PUBKEY, OP_CHECKSIG] [] = Some sols" using r by (simp add: match_pubkey_iff)
  ultimately show "Solver s = (True, TX_PUBKEY, sols)" by (simp add: scan_iff)
qed

lemma Solver_pubkeyhash:
  "Solver s = (True, TX_PUBKEYHASH, sols) \<longleftrightarrow>
     (\<exists>opcode h. parse_script s = Some [(OP_DUP, []), (OP_HASH160, []), (opcode, h), (OP_EQUALVERIFY, []), (OP_CHECKSIG, [])] \<and>
        length h = 20 \<and> sols = [h])"
proof
  assume "Solver s = (True, TX_PUBKEYHASH, sols)"
  then have "scan_templates s mTemplates = (True, TX_PUBKEYHASH, sols)" by (rule Solver_type) simp_all
  then have "match_loop s [OP_DUP, OP_HASH160, OP_PUBKEYHASH, OP_EQUALVERIFY, OP_CHECKSIG] [] = Some sols"
    by (auto simp: scan_iff Let_def split: option.splits if_splits)
  then show "\<exists>opcode h. parse_script s = Some [(OP_DUP, []), (OP_HASH160, []), (opcode, h), (OP_EQUALVERIFY, []), (OP_CHECKSIG, [])] \<and>
        length h = 20 \<and> sols = [h]"
    by (simp add: match_pubkeyhash_iff)
next
  assume r: "\<exists>opcode h. parse_script s = Some [(OP_DUP, []), (OP_HASH160, []), (opcode, h), (OP_EQUALVERIFY, []), (OP_CHECKSIG, [])] \<and>
        length h = 20 \<and> sols = [h]"
  then obtain opcode h where h: "parse_script s = Some [(OP_DUP, []), (OP_HASH160, []), (opcode, h), (OP_EQUALVERIFY, []), (OP_CHECKSIG, [])]"
    by blast
  have "Solver s = scan_templates s mTemplates" by (intro hash_first_not_template [OF h]) auto
  moreover have "match_loop s [OP_DUP, OP_HASH160, OP_PUBKEYHASH, OP_EQUALVERIFY, OP_CHECKSIG] [] = Some sols"
    using r by (simp add: match_pubkeyhash_iff)
  moreover have "match_loop s [OP_PUBKEY, OP_CHECKSIG] [] = None" using h by (auto simp: match_pubkey_iff simp flip: not_Some_eq)
  ultimately show "Solver s = (True, TX_PUBKEYHASH, sols)" by (simp add: scan_iff)
qed

lemma one_le_u8: "1 \<le> (w :: u8) \<longleftrightarrow> w \<noteq> 0"
  by (metis word_less_1 not_less)

lemma Solver_multisig:
  "Solver s = (True, TX_MULTISIG, sols) \<longleftrightarrow>
     (\<exists>m keys n. parse_script s = Some ((m, []) # keys @ [(n, []), (OP_CHECKMULTISIG, [])]) \<and> small_int m \<and> small_int n \<and>
        (\<forall>x \<in> set keys. key_sized (snd x)) \<and>
        1 \<le> small_value m \<and> small_value m \<le> small_value n \<and> unat (small_value n) = length keys \<and>
        sols = [small_value m] # map snd keys @ [[small_value n]])"
    (is "?l = ?r")
proof
  assume ?l
  then have sc: "scan_templates s mTemplates = (True, TX_MULTISIG, sols)" by (rule Solver_type) simp_all
  then have "match_loop s [OP_SMALLINTEGER, OP_PUBKEYS, OP_SMALLINTEGER, OP_CHECKMULTISIG] [] = Some sols"
    by (auto simp: scan_iff Let_def split: option.splits if_splits)
  then obtain m keys n where p: "parse_script s = Some ((m, []) # keys @ [(n, []), (OP_CHECKMULTISIG, [])])" "small_int m" "small_int n"
      "\<forall>x \<in> set keys. key_sized (snd x)" "sols = [small_value m] # map snd keys @ [[small_value n]]"
    by (auto simp: match_multisig_iff)
  have "\<not> (let m = hd (hd sols); n = hd (last sols) in m < 1 \<or> n < 1 \<or> m > n \<or> length sols - 2 \<noteq> unat n)"
    using sc by (auto simp: scan_iff Let_def split: option.splits if_splits)
  then have "1 \<le> small_value m \<and> small_value m \<le> small_value n \<and> unat (small_value n) = length keys"
    using p(5) one_le_u8 [of "small_value m"] by (auto simp: Let_def not_less)
  then show ?r using p by blast
next
  assume ?r
  then obtain m keys n where p: "parse_script s = Some ((m, []) # keys @ [(n, []), (OP_CHECKMULTISIG, [])])" "small_int m" "small_int n"
      "\<forall>x \<in> set keys. key_sized (snd x)" "sols = [small_value m] # map snd keys @ [[small_value n]]"
      "1 \<le> small_value m \<and> small_value m \<le> small_value n \<and> unat (small_value n) = length keys" by blast
  have "Solver s = scan_templates s mTemplates"
    by (rule hash_first_not_template [OF p(1)]) (use p(2) in \<open>auto simp: small_int_def word_le_nat_alt\<close>)
  moreover have "match_loop s [OP_SMALLINTEGER, OP_PUBKEYS, OP_SMALLINTEGER, OP_CHECKMULTISIG] [] = Some sols"
    using p by (auto simp: match_multisig_iff)
  moreover have "\<not> (let m = hd (hd sols); n = hd (last sols) in m < 1 \<or> n < 1 \<or> m > n \<or> length sols - 2 \<noteq> unat n)"
    using p(5,6) one_le_u8 [of "small_value m"] one_le_u8 [of "small_value n"] by (auto simp: Let_def not_less)
  ultimately show ?l using last_CHECKSIG [OF p(1)] by (simp add: scan_iff Let_def)
qed

text \<open>\<open>Solver\<close> recognises exactly the standard forms.  It reports a public key, a public key hash
  or a multisig script if and only if the script reads as the instructions of that form (a key is a
  push of 33 to 65 bytes, a hash one of 20 bytes, by whatever push instruction), with the pushed data
  as solutions; for a multisig script the number of keys is the second small integer, and the first
  is between one and it.\<close>

theorem Solver_recognises:
  "(Solver s = (True, TX_PUBKEY, sols) \<longleftrightarrow>
     (\<exists>opcode k. parse_script s = Some [(opcode, k), (OP_CHECKSIG, [])] \<and> 33 \<le> length k \<and> length k \<le> 65 \<and> sols = [k])) \<and>
   (Solver s = (True, TX_PUBKEYHASH, sols) \<longleftrightarrow>
     (\<exists>opcode h. parse_script s = Some [(OP_DUP, []), (OP_HASH160, []), (opcode, h), (OP_EQUALVERIFY, []), (OP_CHECKSIG, [])] \<and>
        length h = 20 \<and> sols = [h])) \<and>
   (Solver s = (True, TX_MULTISIG, sols) \<longleftrightarrow>
     (\<exists>m keys n. parse_script s = Some ((m, []) # keys @ [(n, []), (OP_CHECKMULTISIG, [])]) \<and> small_int m \<and> small_int n \<and>
        list_all (\<lambda>x. 33 \<le> length (snd x) \<and> length (snd x) \<le> 65) keys \<and>
        1 \<le> small_value m \<and> small_value m \<le> small_value n \<and> unat (small_value n) = length keys \<and>
        sols = [small_value m] # map snd keys @ [[small_value n]]))"
  unfolding list_all_iff by (intro conjI Solver_pubkey Solver_pubkeyhash Solver_multisig)

section \<open>Destinations and scripts\<close>

lemma destination_ops:
  assumes "length h = 20"
  shows "parse_script (GetScriptForDestination (CKeyID h)) =
    Some [(OP_DUP, []), (OP_HASH160, []), (0x14, h), (OP_EQUALVERIFY, []), (OP_CHECKSIG, [])]"
    and "IsPayToScriptHash (GetScriptForDestination (CScriptID h))"
    and "take 20 (drop 2 (GetScriptForDestination (CScriptID h))) = h"
proof -
  have e: "push_data s h = s @ 0x14 # h" for s using assms by (simp add: push_data_def)
  show "parse_script (GetScriptForDestination (CKeyID h)) =
    Some [(OP_DUP, []), (OP_HASH160, []), (0x14, h), (OP_EQUALVERIFY, []), (OP_CHECKSIG, [])]"
    unfolding parse_script_iff using assms by (simp add: GetScriptForDestination_def e push_opcode_def enc_op_def op_ok_def)
  show "IsPayToScriptHash (GetScriptForDestination (CScriptID h))" "take 20 (drop 2 (GetScriptForDestination (CScriptID h))) = h"
    using assms by (simp_all add: GetScriptForDestination_def e push_opcode_def IsPayToScriptHash_def nth_append)
qed

definition dest_ok :: "CTxDestination \<Rightarrow> bool" where
  "dest_ok d \<longleftrightarrow> (case d of CNoDestination \<Rightarrow> False | CKeyID h \<Rightarrow> length h = 20 | CScriptID h \<Rightarrow> length h = 20)"

lemma destination_roundtrip:
  "dest_ok d \<Longrightarrow> ExtractDestination H mem (GetScriptForDestination d) = Some d"
proof (cases d)
  case (CKeyID h)
  moreover assume "dest_ok d"
  ultimately have "Solver (GetScriptForDestination d) = (True, TX_PUBKEYHASH, [h])"
    using destination_ops(1) [of h] by (auto simp: Solver_pubkeyhash dest_ok_def)
  then show ?thesis using CKeyID by (simp add: ExtractDestination_def)
next
  case (CScriptID h)
  moreover assume "dest_ok d"
  ultimately show ?thesis using destination_ops(2,3) [of h] by (simp add: ExtractDestination_def Solver_def dest_ok_def)
qed (simp add: dest_ok_def)

lemma EncodeOP_N_small:
  assumes "1 \<le> n" "n \<le> 16"
  shows "\<exists>w. EncodeOP_N n = Some w \<and> small_int w \<and> uint (small_value w) = n"
proof -
  have "n \<in> set [1 .. 16]" using assms by simp
  also have "[1 .. 16] = [1, 2, 3, 4, 5, 6, 7, 8, 9, 10, 11, 12, 13, 14, 15, 16 :: int]" by (simp add: upto_rec1)
  finally show ?thesis
    by (simp only: set_simps insert_iff empty_iff, elim disjE)
      (simp_all add: EncodeOP_N_def small_int_def small_value_def DecodeOP_N_def word_le_nat_alt)
qed

definition valid_key :: "CPubKey \<Rightarrow> bool" where
  "valid_key k \<longleftrightarrow> pubkey_ok k \<and> pubkey_IsValid k"

lemma valid_key_bytes:
  assumes "valid_key k" "pubkey_ok mem"
  shows "key_sized (pubkey_bytes k)" "pubkey_IsValid (pubkey_Set mem (pubkey_bytes k))"
    "pubkey_bytes (pubkey_Set mem (pubkey_bytes k)) = pubkey_bytes k"
proof -
  have l: "length (pubkey_bytes k) = pubkey_size k" using assms(1) GetLen_le [of "k ! 0"]
    by (simp add: valid_key_def pubkey_ok_def pubkey_bytes_def pubkey_size_def)
  have z: "pubkey_size k = 33 \<or> pubkey_size k = 65" using assms(1)
    by (simp add: valid_key_def pubkey_IsValid_def pubkey_size_def GetLen_def split: if_splits)
  then show "key_sized (pubkey_bytes k)" using l by auto
  have "pubkey_bytes k \<noteq> []" "hd (pubkey_bytes k) = k ! 0"
    using l z assms(1) by (cases k, auto simp: pubkey_bytes_def valid_key_def pubkey_ok_def)+
  then show v: "pubkey_IsValid (pubkey_Set mem (pubkey_bytes k))"
    using pubkey_Set_valid(1) [OF assms(2), of "pubkey_bytes k"] l by (simp add: pubkey_size_def)
  show "pubkey_bytes (pubkey_Set mem (pubkey_bytes k)) = pubkey_bytes k" by (rule pubkey_Set_valid(2) [OF assms(2) v])
qed

lemma foldl_push_data:
  "\<forall>k \<in> set keys. length (f k) < 2 ^ 32 \<Longrightarrow>
   foldl (\<lambda>s k. push_data s (f k)) s keys = s @ enc_ops (map (\<lambda>k. (push_op (f k), f k)) keys)"
proof (induction keys arbitrary: s)
  case (Cons k keys)
  then show ?case using push_data_enc [of "f k" s] by simp
qed simp

lemma multisig_script:
  assumes m: "1 \<le> m" "m \<le> int (length keys)" "length keys \<le> 16" and keys: "\<forall>k \<in> set keys. valid_key k"
  shows "\<exists>s w v. GetScriptForMultisig m keys = Some s \<and>
    Solver s = (True, TX_MULTISIG, [w] # map pubkey_bytes keys @ [[v]]) \<and> uint w = m"
proof -
  obtain wm wn where w: "EncodeOP_N m = Some wm" "small_int wm" "uint (small_value wm) = m"
    "EncodeOP_N (int (length keys)) = Some wn" "small_int wn" "uint (small_value wn) = int (length keys)"
    using EncodeOP_N_small [of m] EncodeOP_N_small [of "int (length keys)"] m by auto
  let ?k = "map (\<lambda>k. (push_op (pubkey_bytes k), pubkey_bytes k)) keys"
  have sz: "key_sized (pubkey_bytes k)" if "k \<in> set keys" for k
    using that keys valid_key_bytes(1) [of k "replicate 65 0"] by (simp add: pubkey_ok_def)
  have small: "\<forall>k \<in> set keys. length (pubkey_bytes k) < 2 ^ 32" 
  proof
    fix k
    assume "k \<in> set keys"
    then have "length (pubkey_bytes k) \<le> 65" using sz by blast
    then show "length (pubkey_bytes k) < 2 ^ 32" by simp
  qed
  have ok: "op_ok (push_op (pubkey_bytes k), pubkey_bytes k)" if "k \<in> set keys" for k
    using push_data_enc [of "pubkey_bytes k" "[]"] small that by simp
  let ?s = "wm # enc_ops ?k @ [wn, OP_CHECKMULTISIG]"
  have s: "GetScriptForMultisig m keys = Some ?s"
    by (simp add: GetScriptForMultisig_def w foldl_push_data [OF small] push_opcode_def)
  have "parse_script ?s = Some ((wm, []) # ?k @ [(wn, []), (OP_CHECKMULTISIG, [])])"
    unfolding parse_script_iff using w(2,5) ok by (auto simp: small_int_enc small_int_ok enc_op_def [of "(OP_CHECKMULTISIG, [])"] op_ok_def [of "(OP_CHECKMULTISIG, [])"])
  moreover have "1 \<le> small_value wm" "small_value wm \<le> small_value wn" "unat (small_value wn) = length ?k"
    using w(3,6) m by (simp_all add: word_le_def unat_eq_nat_uint)
  ultimately have "Solver ?s = (True, TX_MULTISIG, [small_value wm] # map snd ?k @ [[small_value wn]])"
    unfolding Solver_multisig using w(2,5) sz
    by (intro exI [of _ wm] exI [of _ ?k] exI [of _ wn]) auto
  then show ?thesis using s w(3) by (intro exI [of _ ?s] exI [of _ "small_value wm"] exI [of _ "small_value wn"]) (simp add: o_def)
qed

text \<open>C34: addresses survive the way through a script.  The script built for a key hash or a script hash
  gives that destination back, and the multisig script of up to sixteen valid keys, of which
  \<open>m \<ge> 1\<close> must sign, gives back the key ids in order and \<open>m\<close>.\<close>

theorem destinations_roundtrip:
  "(dest_ok d \<longrightarrow> ExtractDestination H mem (GetScriptForDestination d) = Some d) \<and>
   (1 \<le> m \<and> m \<le> int (length keys) \<and> length keys \<le> 16 \<and> list_all valid_key keys \<and> pubkey_ok mem \<longrightarrow>
     (\<exists>s. GetScriptForMultisig m keys = Some s \<and>
        ExtractDestinations H mem s = (True, TX_MULTISIG, map (\<lambda>k. CKeyID (pubkey_GetID H k)) keys, Some m)))"
proof (intro conjI impI)
  assume "dest_ok d"
  then show "ExtractDestination H mem (GetScriptForDestination d) = Some d" by (rule destination_roundtrip)
next
  assume m: "1 \<le> m \<and> m \<le> int (length keys) \<and> length keys \<le> 16 \<and> list_all valid_key keys \<and> pubkey_ok mem"
  then obtain s w v where s: "GetScriptForMultisig m keys = Some s" "Solver s = (True, TX_MULTISIG, [w] # map pubkey_bytes keys @ [[v]])" "uint w = m"
    using multisig_script [of m keys] by (auto simp: list_all_iff)
  have k: "pubkey_IsValid (pubkey_Set mem (pubkey_bytes k)) \<and> pubkey_GetID H (pubkey_Set mem (pubkey_bytes k)) = pubkey_GetID H k"
    if "k \<in> set keys" for k
    using that m valid_key_bytes [of k mem] by (simp add: list_all_iff pubkey_GetID_def)
  have "filter pubkey_IsValid (map (pubkey_Set mem) (map pubkey_bytes keys)) = map (pubkey_Set mem) (map pubkey_bytes keys)"
    using k by (auto simp: filter_id_conv)
  moreover have "map (\<lambda>k. CKeyID (pubkey_GetID H k)) (map (pubkey_Set mem) (map pubkey_bytes keys)) = map (\<lambda>k. CKeyID (pubkey_GetID H k)) keys"
    using k by simp
  moreover have "keys \<noteq> []" using m by auto
  ultimately show "\<exists>s. GetScriptForMultisig m keys = Some s \<and>
        ExtractDestinations H mem s = (True, TX_MULTISIG, map (\<lambda>k. CKeyID (pubkey_GetID H k)) keys, Some m)"
    using s by (simp add: ExtractDestinations_def Let_def)
qed

lemma destinations_roundtrip_witness:
  "ExtractDestination \<lparr>CRIPEMD160 = id, CSHA1 = id, CSHA256 = rev, CheckLowS = (\<lambda>_. True)\<rparr> []
     (GetScriptForDestination (CScriptID (replicate 20 7))) = Some (CScriptID (replicate 20 7)) \<and>
   (\<exists>s. GetScriptForMultisig 1 [2 # replicate 64 9, 3 # replicate 64 8] = Some s \<and>
      ExtractDestinations \<lparr>CRIPEMD160 = id, CSHA1 = id, CSHA256 = rev, CheckLowS = (\<lambda>_. True)\<rparr> (replicate 65 0) s =
        (True, TX_MULTISIG, map (\<lambda>k. CKeyID (pubkey_GetID \<lparr>CRIPEMD160 = id, CSHA1 = id, CSHA256 = rev, CheckLowS = (\<lambda>_. True)\<rparr> k))
           [2 # replicate 64 9, 3 # replicate 64 8], Some 1))"
  using destinations_roundtrip [of "CScriptID (replicate 20 7)" "\<lparr>CRIPEMD160 = id, CSHA1 = id, CSHA256 = rev, CheckLowS = (\<lambda>_. True)\<rparr>" "[]"]
    destinations_roundtrip [where m = 1 and keys = "[2 # replicate 64 9, 3 # replicate 64 8]" and mem = "replicate 65 0"
      and H = "\<lparr>CRIPEMD160 = id, CSHA1 = id, CSHA256 = rev, CheckLowS = (\<lambda>_. True)\<rparr>"]
  by (simp add: dest_ok_def valid_key_def pubkey_ok_def pubkey_IsValid_def pubkey_size_def GetLen_def)

end
