(* ===== verification/Merkle.thy ===== *)
theory Merkle
  imports Interpreter Transaction
begin

text \<open>
  Merkle trees: consensus/merkle.cpp.  \<open>MerkleComputation\<close> computes the root, the \<open>mutated\<close> flag
  and a branch in one pass over the leaves with an array of subtree hashes; the reference is the
  construction level by level of test/merkle_tests.cpp.  \<open>count\<close> is a 32-bit word; the results
  hold up to 2^31 leaves.
\<close>

section \<open>The computation\<close>

definition merkle_hash :: "hash_functions \<Rightarrow> uint256 \<Rightarrow> uint256 \<Rightarrow> uint256" where
  "merkle_hash H a b = CHash256 H (a @ b)"

record merkle_state =
  m_inner :: "uint256 list"
  m_mutated :: bool
  m_matchlevel :: int
  m_branch :: "uint256 list"

definition branch_step :: "bool \<Rightarrow> nat \<Rightarrow> uint256 \<Rightarrow> bool \<Rightarrow> merkle_state \<Rightarrow> bool \<times> uint256 list" where
  \<comment> \<open>\<open>matchh\<close> and \<open>*pbranch\<close> after the \<open>if (pbranch)\<close> of the loops; \<open>want\<close>: \<open>pbranch\<close> is not null\<close>
  "branch_step want level h matchh st =
     (if want
      then (if matchh then (matchh, m_branch st @ [m_inner st ! level])
            else if m_matchlevel st = int level then (True, m_branch st @ [h])
            else (matchh, m_branch st))
      else (matchh, m_branch st))"

function up_loop ::
  "hash_functions \<Rightarrow> bool \<Rightarrow> bool \<Rightarrow> u32 \<Rightarrow> nat \<Rightarrow> uint256 \<Rightarrow> bool \<Rightarrow> merkle_state \<Rightarrow> nat \<times> uint256 \<times> bool \<times> merkle_state" where
  \<comment> \<open>\<open>while (!(count & (1 << level)))\<close>; only the loop over the leaves (\<open>first\<close>) records mutations\<close>
  "up_loop H want first count level h matchh st =
     (if level \<ge> 32 \<or> bit count level then (level, h, matchh, st)
      else let b = branch_step want level h matchh st
           in up_loop H want first count (level + 1) (merkle_hash H (m_inner st ! level) h) (fst b)
                (st\<lparr>m_branch := snd b, m_mutated := m_mutated st \<or> first \<and> m_inner st ! level = h\<rparr>))"
  by pat_completeness auto
termination by (relation "measure (\<lambda>(H, w, f, c, level, h, m, st). 32 - level)") auto

declare up_loop.simps [simp del]

fun leaves_loop ::
  "hash_functions \<Rightarrow> bool \<Rightarrow> u32 \<Rightarrow> uint256 list \<Rightarrow> u32 \<Rightarrow> merkle_state \<Rightarrow> u32 \<times> merkle_state" where
  \<comment> \<open>\<open>while (count < leaves.size())\<close> on the leaves from \<open>count\<close>\<close>
  "leaves_loop H want branchpos [] count st = (count, st)"
| "leaves_loop H want branchpos (leaf # rest) count st =
     (case up_loop H want True (count + 1) 0 leaf (count = branchpos) st of (level, h, matchh, st) \<Rightarrow>
        leaves_loop H want branchpos rest (count + 1)
          (st\<lparr>m_inner := (m_inner st)[level := h], m_matchlevel := if matchh then int level else m_matchlevel st\<rparr>))"

function lowest_level :: "u32 \<Rightarrow> nat \<Rightarrow> nat" where
  "lowest_level count level = (if level \<ge> 32 \<or> bit count level then level else lowest_level count (level + 1))"
  by pat_completeness auto
termination by (relation "measure (\<lambda>(c, level). 32 - level)") auto

declare lowest_level.simps [simp del]

lemma up_loop_level: "level \<le> fst (up_loop H want first count level h matchh st)"
proof (induction H want first count level h matchh st rule: up_loop.induct)
  case (1 H want first count level h matchh st)
  show ?case
  proof (cases "level \<ge> 32 \<or> bit count level")
    case True
    then show ?thesis by (subst up_loop.simps) simp
  next
    case False
    then show ?thesis using 1 [OF False refl] by (subst up_loop.simps) (simp add: Let_def)
  qed
qed

function sweep_loop ::
  "hash_functions \<Rightarrow> bool \<Rightarrow> u32 \<Rightarrow> nat \<Rightarrow> uint256 \<Rightarrow> bool \<Rightarrow> merkle_state \<Rightarrow> uint256 \<times> merkle_state" where
  \<comment> \<open>\<open>while (count != (1 << level))\<close>\<close>
  "sweep_loop H want count level h matchh st =
     (if level \<ge> 32 \<or> count = push_bit level 1 then (h, st)
      else let st = (if want \<and> matchh then st\<lparr>m_branch := m_branch st @ [h]\<rparr> else st);
               count = count + push_bit level 1;
               u = up_loop H want False count (level + 1) (merkle_hash H h h) matchh st
           in sweep_loop H want count (fst u) (fst (snd u)) (fst (snd (snd u))) (snd (snd (snd u))))"
  by pat_completeness auto
termination
proof (relation "measure (\<lambda>(H, w, c, level, h, m, st). 32 - level)")
  fix H want and count :: u32 and level h matchh st x xa u
  assume l: "\<not> (32 \<le> level \<or> count = push_bit level 1)" and
    u: "u = up_loop H want False xa (level + 1) (merkle_hash H h h) matchh (x :: merkle_state)"
  have "level + 1 \<le> fst u" using up_loop_level [of "level + 1"] unfolding u by blast
  then show "((H, want, xa, fst u, fst (snd u), fst (snd (snd u)), snd (snd (snd u))), (H, want, count, level, h, matchh, st))
      \<in> measure (\<lambda>(H, w, c, level, h, m, st). 32 - level)"
    using l by (cases u) (simp, linarith)
qed simp

declare sweep_loop.simps [simp del]

definition MerkleComputation ::
  "hash_functions \<Rightarrow> uint256 list \<Rightarrow> u32 \<Rightarrow> bool \<Rightarrow> uint256 \<times> bool \<times> uint256 list" where
  \<comment> \<open>\<open>*proot\<close>, \<open>*pmutated\<close> and \<open>*pbranch\<close>\<close>
  "MerkleComputation H leaves branchpos want =
     (if leaves = [] then (blob_null, False, [])
      else let st = \<lparr>m_inner = replicate 32 blob_null, m_mutated = False, m_matchlevel = - 1, m_branch = []\<rparr>;
               r = leaves_loop H want branchpos leaves 0 st;
               count = fst r; st = snd r;
               level = lowest_level count 0;
               h = m_inner st ! level;
               s = sweep_loop H want count level h (m_matchlevel st = int level) st
           in (fst s, m_mutated (snd s), m_branch (snd s)))"

definition ComputeMerkleRoot :: "hash_functions \<Rightarrow> uint256 list \<Rightarrow> uint256 \<times> bool" where
  "ComputeMerkleRoot H leaves =
     (fst (MerkleComputation H leaves (- 1) False), fst (snd (MerkleComputation H leaves (- 1) False)))"

definition ComputeMerkleBranch :: "hash_functions \<Rightarrow> uint256 list \<Rightarrow> u32 \<Rightarrow> uint256 list" where
  "ComputeMerkleBranch H leaves position = snd (snd (MerkleComputation H leaves position True))"

fun root_from_branch :: "hash_functions \<Rightarrow> uint256 \<Rightarrow> uint256 list \<Rightarrow> u32 \<Rightarrow> uint256" where
  "root_from_branch H hash [] nIndex = hash"
| "root_from_branch H hash (it # rest) nIndex =
     root_from_branch H (if nIndex AND 1 \<noteq> 0 then merkle_hash H it hash else merkle_hash H hash it) rest (drop_bit 1 nIndex)"

definition ComputeMerkleRootFromBranch :: "hash_functions \<Rightarrow> uint256 \<Rightarrow> uint256 list \<Rightarrow> u32 \<Rightarrow> uint256" where
  "ComputeMerkleRootFromBranch H leaf vMerkleBranch nIndex = root_from_branch H leaf vMerkleBranch nIndex"

definition BlockMerkleRoot :: "hash_functions \<Rightarrow> CTransaction list \<Rightarrow> uint256 \<times> bool" where
  "BlockMerkleRoot H vtx = ComputeMerkleRoot H (map tx_hash vtx)"

definition BlockMerkleBranch :: "hash_functions \<Rightarrow> CTransaction list \<Rightarrow> u32 \<Rightarrow> uint256 list" where
  "BlockMerkleBranch H vtx position = ComputeMerkleBranch H (map tx_hash vtx) position"

section \<open>The construction level by level\<close>

definition level_up :: "hash_functions \<Rightarrow> uint256 list \<Rightarrow> uint256 list" where
  \<comment> \<open>\<open>for (int i = 0; i < nSize; i += 2)\<close>\<close>
  "level_up H v = map (\<lambda>k. merkle_hash H (v ! (2 * k)) (v ! min (2 * k + 1) (length v - 1))) [0..<(length v + 1) div 2]"

function build_loop :: "hash_functions \<Rightarrow> uint256 list \<Rightarrow> nat \<Rightarrow> nat \<Rightarrow> bool \<Rightarrow> uint256 list \<times> bool" where
  \<comment> \<open>\<open>for (int nSize = ...; nSize > 1; nSize = (nSize + 1) / 2)\<close>; the level is the part from \<open>j\<close>\<close>
  "build_loop H vMerkleTree j nSize mutated =
     (if nSize > 1
      then build_loop H (vMerkleTree @ level_up H (take nSize (drop j vMerkleTree))) (j + nSize) ((nSize + 1) div 2)
             (mutated \<or> (even nSize \<and> vMerkleTree ! (j + nSize - 2) = vMerkleTree ! (j + nSize - 1)))
      else (vMerkleTree, mutated))"
  by pat_completeness auto
termination by (relation "measure (\<lambda>(H, t, j, n, m). n)") auto

declare build_loop.simps [simp del]

definition BlockBuildMerkleTree :: "hash_functions \<Rightarrow> uint256 list \<Rightarrow> uint256 \<times> bool \<times> uint256 list" where
  \<comment> \<open>the root, \<open>*fMutated\<close> and \<open>vMerkleTree\<close>\<close>
  "BlockBuildMerkleTree H txids =
     (case build_loop H txids 0 (length txids) False of (tree, mutated) \<Rightarrow>
        (if tree = [] then blob_null else last tree, mutated, tree))"

function old_branch_loop :: "uint256 list \<Rightarrow> nat \<Rightarrow> nat \<Rightarrow> nat \<Rightarrow> uint256 list" where
  "old_branch_loop vMerkleTree j nSize nIndex =
     (if nSize > 1
      then vMerkleTree ! (j + min (nIndex XOR 1) (nSize - 1)) #
             old_branch_loop vMerkleTree (j + nSize) ((nSize + 1) div 2) (nIndex div 2)
      else [])"
  by pat_completeness auto
termination by (relation "measure (\<lambda>(t, j, n, i). n)") auto

declare old_branch_loop.simps [simp del]

definition BlockGetMerkleBranch :: "uint256 list \<Rightarrow> uint256 list \<Rightarrow> nat \<Rightarrow> uint256 list" where
  "BlockGetMerkleBranch txids vMerkleTree nIndex = old_branch_loop vMerkleTree 0 (length txids) nIndex"

section \<open>Levels of a tree\<close>

fun lev :: "hash_functions \<Rightarrow> uint256 list \<Rightarrow> nat \<Rightarrow> uint256 list" where
  "lev H xs 0 = xs"
| "lev H xs (Suc i) = level_up H (lev H xs i)"

lemma length_level_up [simp]: "length (level_up H v) = (length v + 1) div 2"
  by (simp add: level_up_def)

lemma level_up_nth:
  "k < (length v + 1) div 2 \<Longrightarrow> level_up H v ! k = merkle_hash H (v ! (2 * k)) (v ! min (2 * k + 1) (length v - 1))"
  by (simp add: level_up_def)

lemma lev_level_up: "lev H (level_up H xs) i = lev H xs (Suc i)"
  by (induction i) simp_all

lemma length_lev: "length (lev H xs i) = (length xs + 2 ^ i - 1) div 2 ^ i"
proof (induction i)
  case (Suc i)
  have "((length xs + 2 ^ i - 1) div 2 ^ i + 1) div 2 = (length xs + 2 ^ i - 1 + 2 ^ i) div 2 ^ i div 2"
    using div_add_self2 [of "2 ^ i" "length xs + 2 ^ i - 1"] by simp
  also have "length xs + 2 ^ i - 1 + 2 ^ i = length xs + 2 ^ Suc i - 1" using one_le_power [of "2::nat" i] by simp
  also have "(length xs + 2 ^ Suc i - 1) div 2 ^ i div 2 = (length xs + 2 ^ Suc i - 1) div 2 ^ Suc i"
    by (simp add: div_mult2_eq [symmetric] mult.commute)
  finally show ?case using Suc by simp
qed simp

lemma lev_Nil_iff: "lev H xs i = [] \<longleftrightarrow> xs = []"
proof
  assume "lev H xs i = []"
  then have "(length xs + 2 ^ i - 1) div 2 ^ i = 0" using length_lev [of H xs i] by simp
  then have "length xs + 2 ^ i - 1 < 2 ^ i" by (simp add: div_eq_0_iff)
  then show "xs = []" by (cases xs) simp_all
next
  assume "xs = []"
  then show "lev H xs i = []" using length_lev [of H xs i] by simp
qed

lemma lev_full: "C \<le> length xs \<Longrightarrow> C div 2 ^ i \<le> length (lev H xs i)"
  unfolding length_lev using one_le_power [of "2::nat" i] by (intro div_le_mono) linarith

lemma lev_pair:
  assumes "2 * q \<le> length (lev H xs i)" "0 < q"
  shows "lev H xs (Suc i) ! (q - 1) = merkle_hash H (lev H xs i ! (2 * q - 2)) (lev H xs i ! (2 * q - 1))"
proof -
  have "q - 1 < (length (lev H xs i) + 1) div 2" using assms by simp
  moreover have "min (2 * (q - 1) + 1) (length (lev H xs i) - 1) = 2 * q - 1" "2 * (q - 1) = 2 * q - 2" using assms by auto
  ultimately show ?thesis by (simp add: level_up_nth)
qed

definition sib :: "hash_functions \<Rightarrow> uint256 list \<Rightarrow> nat \<Rightarrow> nat \<Rightarrow> uint256" where
  \<comment> \<open>the sibling, at level \<open>i\<close>, of the node above leaf \<open>p\<close>\<close>
  "sib H xs p i = lev H xs i ! min ((p div 2 ^ i) XOR 1) (length (lev H xs i) - 1)"

lemma xor_1: "(q :: nat) XOR 1 = (if even q then q + 1 else q - 1)"
  by (simp add: xor_Suc_0_eq)

section \<open>The inner loop\<close>

lemma bit_nat_div: "bit (n :: nat) i \<longleftrightarrow> odd (n div 2 ^ i)"
  by (simp add: bit_iff_odd)

lemma bit_u32: "C < 2 ^ 32 \<Longrightarrow> bit (word_of_nat C :: u32) i \<longleftrightarrow> bit C i"
proof -
  assume C: "C < 2 ^ 32"
  have "\<not> bit C i" if "32 \<le> i"
  proof -
    have "C < 2 ^ i" using C power_increasing [OF that, of "2::nat"] by linarith
    then show ?thesis by (simp add: bit_nat_div)
  qed
  then show ?thesis by (cases "i < 32") (auto simp: bit_simps)
qed

lemma dvd_Suc_level: "2 ^ l dvd (C :: nat) \<Longrightarrow> 2 ^ Suc l dvd C \<longleftrightarrow> even (C div 2 ^ l)"
  by (auto simp: dvd_div_iff_mult mult.commute elim!: dvdE)

lemma sib_cases:
  assumes "2 ^ Suc i dvd C" "C div 2 ^ i \<le> length (lev H xs i)" "0 < C"
  shows "p div 2 ^ i = C div 2 ^ i - 1 \<Longrightarrow> sib H xs p i = lev H xs i ! (C div 2 ^ i - 2)"
    and "p div 2 ^ i = C div 2 ^ i - 2 \<Longrightarrow> sib H xs p i = lev H xs i ! (C div 2 ^ i - 1)"
proof -
  obtain q where q: "C = 2 ^ Suc i * q" using assms(1) by blast
  then have d: "C div 2 ^ i = 2 * q" "0 < q" using assms(3) by (auto simp: mult.assoc)
  have odd: "odd (2 * q - 1)" "even (2 * q - 2)" "Suc (2 * q - 2) = 2 * q - 1" using d(2) by auto
  show "p div 2 ^ i = C div 2 ^ i - 1 \<Longrightarrow> sib H xs p i = lev H xs i ! (C div 2 ^ i - 2)"
    using assms(2) odd d by (simp add: sib_def xor_Suc_0_eq min_def numeral_2_eq_2)
  show "p div 2 ^ i = C div 2 ^ i - 2 \<Longrightarrow> sib H xs p i = lev H xs i ! (C div 2 ^ i - 1)"
    using assms(2) odd d by (simp add: sib_def xor_Suc_0_eq min_def)
qed

definition branch_ok :: "hash_functions \<Rightarrow> uint256 list \<Rightarrow> nat \<Rightarrow> nat \<Rightarrow> nat \<Rightarrow> bool \<Rightarrow> uint256 list \<Rightarrow> merkle_state \<Rightarrow> bool" where
  \<comment> \<open>the state of the branch of leaf \<open>p\<close> at level \<open>l\<close> of the loop with count \<open>C\<close>; \<open>B\<close> is the branch up
    to the level of the match\<close>
  "branch_ok H xs p C l matchh B st \<longleftrightarrow>
     (matchh \<longleftrightarrow> p div 2 ^ l = C div 2 ^ l - 1) \<and>
     m_branch st = (if matchh then map (sib H xs p) [0..<l] else B) \<and>
     (\<not> matchh \<longrightarrow> (\<forall>i \<ge> l. 2 ^ Suc i dvd C \<longrightarrow>
        (m_matchlevel st = int i \<longleftrightarrow> p div 2 ^ i = C div 2 ^ i - 2) \<and>
        (m_matchlevel st = int i \<longrightarrow> B = map (sib H xs p) [0..<i])))"

lemma branch_step_ok:
  assumes dv: "2 ^ Suc l dvd C" and C: "0 < C" and le: "C div 2 ^ l \<le> length (lev H xs l)"
    and inner: "m_inner st ! l = lev H xs l ! (C div 2 ^ l - 2)" and h: "h = lev H xs l ! (C div 2 ^ l - 1)"
    and ok: "branch_ok H xs p C l matchh B st"
  shows "branch_ok H xs p C (Suc l) (fst (branch_step True l h matchh st)) B
    (st\<lparr>m_branch := snd (branch_step True l h matchh st), m_mutated := x\<rparr>)"
proof -
  obtain q where q: "C div 2 ^ l = 2 * q" "0 < q" "C div 2 ^ Suc l = q"
  proof -
    obtain k where "C = 2 ^ Suc l * k" using dv by blast
    then show ?thesis using C that [of k] by (auto simp: mult.assoc)
  qed
  have p2: "p div 2 ^ Suc l = p div 2 ^ l div 2" by (simp add: div_mult2_eq [symmetric] mult.commute)
  have up: "p div 2 ^ Suc l = C div 2 ^ Suc l - 1 \<longleftrightarrow> p div 2 ^ l = C div 2 ^ l - 1 \<or> p div 2 ^ l = C div 2 ^ l - 2"
  proof -
    have "a div 2 = q - 1 \<longleftrightarrow> a = 2 * q - 1 \<or> a = 2 * q - 2" for a :: nat
      using q(2) by linarith
    then show ?thesis unfolding p2 q(1,3) .
  qed
  have sib: "p div 2 ^ l = C div 2 ^ l - 1 \<Longrightarrow> sib H xs p l = m_inner st ! l"
    "p div 2 ^ l = C div 2 ^ l - 2 \<Longrightarrow> sib H xs p l = h"
    using sib_cases [OF dv le C, of p] inner h by simp_all
  have m: "matchh \<longleftrightarrow> p div 2 ^ l = C div 2 ^ l - 1" and b: "m_branch st = (if matchh then map (sib H xs p) [0..<l] else B)"
    and ml: "\<not> matchh \<Longrightarrow> l \<le> i \<Longrightarrow> 2 ^ Suc i dvd C \<Longrightarrow> m_matchlevel st = int i \<longleftrightarrow> p div 2 ^ i = C div 2 ^ i - 2"
    and mb: "\<not> matchh \<Longrightarrow> l \<le> i \<Longrightarrow> 2 ^ Suc i dvd C \<Longrightarrow> m_matchlevel st = int i \<Longrightarrow> B = map (sib H xs p) [0..<i]" for i
    using ok unfolding branch_ok_def by (simp_all del: power_Suc)
  consider (on) "matchh" | (match) "\<not> matchh" "m_matchlevel st = int l" | (off) "\<not> matchh" "m_matchlevel st \<noteq> int l" by blast
  then show ?thesis
  proof cases
    case on
    then have "p div 2 ^ Suc l = C div 2 ^ Suc l - 1" "sib H xs p l = m_inner st ! l" using m up sib(1) by blast+
    then show ?thesis using on b by (simp add: branch_ok_def branch_step_def)
  next
    case match
    then have "p div 2 ^ l = C div 2 ^ l - 2" "B = map (sib H xs p) [0..<l]" using ml [OF match(1) order_refl dv] mb [OF match(1) order_refl dv] by blast+
    then have "p div 2 ^ Suc l = C div 2 ^ Suc l - 1" "B @ [h] = map (sib H xs p) [0..<Suc l]" using up sib(2) by simp_all
    then show ?thesis using match b by (simp add: branch_ok_def branch_step_def)
  next
    case off
    then have "p div 2 ^ l \<noteq> C div 2 ^ l - 2" using ml [OF off(1) order_refl dv] by blast
    then have "p div 2 ^ Suc l \<noteq> C div 2 ^ Suc l - 1" using up m off(1) by blast
    moreover have "branch_step True l h matchh st = (matchh, m_branch st)" using off by (simp add: branch_step_def)
    moreover have "(m_matchlevel st = int i \<longleftrightarrow> p div 2 ^ i = C div 2 ^ i - 2) \<and> (m_matchlevel st = int i \<longrightarrow> B = map (sib H xs p) [0..<i])"
      if "Suc l \<le> i" "2 ^ Suc i dvd C" for i
      using ml [OF off(1) Suc_leD [OF that(1)] that(2)] mb [OF off(1) Suc_leD [OF that(1)] that(2)] by blast
    ultimately show ?thesis using off(1) b unfolding branch_ok_def by simp
  qed
qed

lemma up_loop_run:
  assumes C: "0 < C" "C < 2 ^ 32" "c = word_of_nat C" and l: "2 ^ l dvd C" "l \<le> 32"
    and h: "h = lev H xs l ! (C div 2 ^ l - 1)"
    and len: "\<forall>i \<ge> l. 2 ^ i dvd C \<longrightarrow> C div 2 ^ i \<le> length (lev H xs i)"
    and inner: "\<forall>i \<ge> l. 2 ^ Suc i dvd C \<longrightarrow> m_inner st ! i = lev H xs i ! (C div 2 ^ i - 2)"
    and br: "want \<longrightarrow> branch_ok H xs p C l matchh B st"
  shows "\<exists>l' matchh' st'. up_loop H want first c l h matchh st = (l', lev H xs l' ! (C div 2 ^ l' - 1), matchh', st') \<and>
    l \<le> l' \<and> l' < 32 \<and> 2 ^ l' dvd C \<and> \<not> 2 ^ Suc l' dvd C \<and>
    m_inner st' = m_inner st \<and> m_matchlevel st' = m_matchlevel st \<and> (want \<longrightarrow> branch_ok H xs p C l' matchh' B st') \<and>
    m_mutated st' = (m_mutated st \<or> first \<and> (\<exists>i. l \<le> i \<and> i < l' \<and> lev H xs i ! (C div 2 ^ i - 2) = lev H xs i ! (C div 2 ^ i - 1)))"
  using l h len inner br
proof (induction "32 - l" arbitrary: l h matchh st)
  case 0
  then have "2 ^ 32 dvd C" by simp
  then show ?case using C(1,2) by (auto dest: dvd_imp_le)
next
  case (Suc d)
  have l32: "l < 32" using Suc.hyps(2) by simp
  have bit: "bit c l \<longleftrightarrow> \<not> 2 ^ Suc l dvd C"
    using C(2,3) dvd_Suc_level [OF Suc.prems(1)] by (simp add: bit_u32 bit_nat_div)
  show ?case
  proof (cases "bit c l")
    case True
    then show ?thesis using Suc.prems l32 bit
      by (subst up_loop.simps) auto
  next
    case False
    then have dv: "2 ^ Suc l dvd C" using bit by simp
    let ?q = "C div 2 ^ l"
    have le: "?q \<le> length (lev H xs l)" using Suc.prems(1,4) by simp
    have in1: "m_inner st ! l = lev H xs l ! (?q - 2)" using Suc.prems(5) dv by simp
    obtain q where q: "?q = 2 * q" "0 < q" "C div 2 ^ Suc l = q"
    proof -
      obtain k where "C = 2 ^ Suc l * k" using dv by blast
      then show ?thesis using C(1) that [of k] by (auto simp: mult.assoc)
    qed
    let ?b = "branch_step want l h matchh st"
    let ?mut = "m_mutated st \<or> first \<and> m_inner st ! l = h"
    let ?st = "st\<lparr>m_branch := snd ?b, m_mutated := ?mut\<rparr>"
    have up: "up_loop H want first c l h matchh st = up_loop H want first c (Suc l) (merkle_hash H (m_inner st ! l) h) (fst ?b) ?st"
      using False l32 by (subst up_loop.simps) (simp add: Let_def)
    have h': "merkle_hash H (m_inner st ! l) h = lev H xs (Suc l) ! (C div 2 ^ Suc l - 1)"
      using lev_pair [of q H xs l] le q in1 Suc.prems(3) by simp
    have br': "want \<longrightarrow> branch_ok H xs p C (Suc l) (fst ?b) B ?st"
      using branch_step_ok [OF dv C(1) le in1 Suc.prems(3)] Suc.prems(6) by auto
    obtain l' matchh' st' where r: "up_loop H want first c (Suc l) (merkle_hash H (m_inner st ! l) h) (fst ?b) ?st =
        (l', lev H xs l' ! (C div 2 ^ l' - 1), matchh', st')"
      "Suc l \<le> l'" "l' < 32" "2 ^ l' dvd C" "\<not> 2 ^ Suc l' dvd C"
      "m_inner st' = m_inner ?st" "m_matchlevel st' = m_matchlevel ?st" "want \<longrightarrow> branch_ok H xs p C l' matchh' B st'"
      "m_mutated st' = (m_mutated ?st \<or> first \<and> (\<exists>i. Suc l \<le> i \<and> i < l' \<and> lev H xs i ! (C div 2 ^ i - 2) = lev H xs i ! (C div 2 ^ i - 1)))"
    proof -
      have d: "d = 32 - Suc l" using Suc.hyps(2) by simp
      have len': "\<forall>i \<ge> Suc l. 2 ^ i dvd C \<longrightarrow> C div 2 ^ i \<le> length (lev H xs i)" using Suc.prems(4) by auto
      have inner': "\<forall>i \<ge> Suc l. 2 ^ Suc i dvd C \<longrightarrow> m_inner ?st ! i = lev H xs i ! (C div 2 ^ i - 2)" using Suc.prems(5) by auto
      have l': "Suc l \<le> 32" using l32 by simp
      show ?thesis using that Suc.hyps(1) [OF d dv l' h' len' inner' br'] by blast
    qed
    have "m_mutated st' = (m_mutated st \<or> first \<and> (\<exists>i. l \<le> i \<and> i < l' \<and> lev H xs i ! (C div 2 ^ i - 2) = lev H xs i ! (C div 2 ^ i - 1)))"
    proof -
      have "(\<exists>i. l \<le> i \<and> i < l' \<and> Q i) \<longleftrightarrow> Q l \<or> (\<exists>i. Suc l \<le> i \<and> i < l' \<and> Q i)" for Q
        using r(2) by (metis Suc_le_eq le_eq_less_or_eq)
      then show ?thesis using r(9) in1 Suc.prems(3) by auto
    qed
    then show ?thesis using r up by (intro exI [of _ l'] exI [of _ matchh'] exI [of _ st']) simp
  qed
qed

section \<open>The loop over the leaves\<close>

lemma div_before:
  assumes "2 ^ l dvd (C :: nat)" "0 < C" "l \<le> i"
  shows "(C - 2 ^ l) div 2 ^ i = (if 2 ^ i dvd C then C div 2 ^ i - 1 else C div 2 ^ i)"
proof -
  obtain a where a: "C = 2 ^ l * a" using assms(1) by blast
  have i: "(2 :: nat) ^ i = 2 ^ l * 2 ^ (i - l)" using assms(3) by (simp add: power_add [symmetric])
  have "0 < a" using assms(2) a by simp
  then obtain b where b: "a = Suc b" using gr0_implies_Suc by blast
  have "(C - 2 ^ l) div 2 ^ i = b div 2 ^ (i - l)"
  proof -
    have "C - 2 ^ l = 2 ^ l * b" using a b by simp
    then show ?thesis using i by simp
  qed
  moreover have "C div 2 ^ i = Suc b div 2 ^ (i - l)" unfolding a b i by (rule div_mult_mult1) simp
  moreover have "2 ^ i dvd C \<longleftrightarrow> 2 ^ (i - l) dvd Suc b" unfolding a b i by (rule dvd_times_left_cancel_iff) simp
  ultimately show ?thesis by (simp add: div_Suc dvd_eq_mod_eq_0)
qed

lemma bit_before:
  assumes "2 ^ l dvd (C :: nat)" "0 < C" "l \<le> i" "2 ^ Suc i dvd C"
  shows "bit (C - 2 ^ l) i" "(C - 2 ^ l) div 2 ^ i = C div 2 ^ i - 1" "2 \<le> C div 2 ^ i"
proof -
  obtain k where k: "C = 2 ^ Suc i * k" using assms(4) by blast
  then have "2 ^ i dvd C" "C div 2 ^ i = 2 * k" "0 < k" using assms(2) by (auto simp: mult.assoc)
  then show "(C - 2 ^ l) div 2 ^ i = C div 2 ^ i - 1" "bit (C - 2 ^ l) i" "2 \<le> C div 2 ^ i"
    using div_before [OF assms(1-3)] by (simp_all add: bit_nat_div)
qed

lemma segment_unique_less:
  assumes "bit k i" "bit k m" "p div 2 ^ i = k div 2 ^ i - 1" "p div 2 ^ m = k div 2 ^ m - (1 :: nat)" "i < m"
  shows False
proof -
  have m: "(2 :: nat) ^ m = 2 ^ i * 2 ^ (m - i)" using assms(5) by (simp add: power_add [symmetric])
  let ?a = "k div 2 ^ i"
  have odd: "odd ?a" using assms(1) by (simp add: bit_nat_div)
  then have pos: "0 < ?a" using odd_pos by blast
  have "\<not> 2 ^ (m - i) dvd ?a" using odd assms(5) by (metis dvd_power dvd_trans zero_less_diff)
  then have "(?a - 1) div 2 ^ (m - i) = ?a div 2 ^ (m - i)" using div_before [of 0 ?a "m - i"] pos by simp
  then have "p div 2 ^ m = k div 2 ^ m" using assms(3) by (simp add: m div_mult2_eq)
  moreover have "0 < k div 2 ^ m" using assms(2) by (metis bit_nat_div dvd_0_right neq0_conv)
  ultimately show False using assms(4) by linarith
qed

lemma segment_unique:
  assumes "bit k i" "bit k m" "p div 2 ^ i = k div 2 ^ i - 1" "p div 2 ^ m = k div 2 ^ m - (1 :: nat)"
  shows "i = m"
  using segment_unique_less [of k i m p] segment_unique_less [of k m i p] assms by (metis linorder_neqE_nat)

definition in_segment :: "hash_functions \<Rightarrow> uint256 list \<Rightarrow> nat \<Rightarrow> nat \<Rightarrow> nat \<Rightarrow> merkle_state \<Rightarrow> bool" where
  \<comment> \<open>leaf \<open>p\<close> is below the stored node of level \<open>m\<close>, and the branch is known up to that level\<close>
  "in_segment H xs p k m st \<longleftrightarrow> bit k m \<and> p div 2 ^ m = k div 2 ^ m - 1 \<and> m_matchlevel st = int m \<and> m_branch st = map (sib H xs p) [0..<m]"

lemma branch_ok_start:
  assumes l: "2 ^ l dvd C" "0 < C" and old: "in_segment H xs p (C - 2 ^ l) m st"
    and i: "l \<le> i" "2 ^ Suc i dvd C"
  shows "m_matchlevel st = int i \<longleftrightarrow> p div 2 ^ i = C div 2 ^ i - 2"
    "m_matchlevel st = int i \<Longrightarrow> m_branch st = map (sib H xs p) [0..<i]"
proof -
  note b = bit_before [OF l i]
  show "m_matchlevel st = int i \<longleftrightarrow> p div 2 ^ i = C div 2 ^ i - 2"
  proof
    assume "p div 2 ^ i = C div 2 ^ i - 2"
    then have "p div 2 ^ i = (C - 2 ^ l) div 2 ^ i - 1" using b(2) by simp
    then show "m_matchlevel st = int i" using segment_unique [OF b(1) _ _] old unfolding in_segment_def by blast
  next
    assume "m_matchlevel st = int i"
    then have "p div 2 ^ i = (C - 2 ^ l) div 2 ^ i - 1" using old by (simp add: in_segment_def)
    then show "p div 2 ^ i = C div 2 ^ i - 2" using b(2) by simp
  qed
  show "m_matchlevel st = int i \<Longrightarrow> m_branch st = map (sib H xs p) [0..<i]" using old by (simp add: in_segment_def)
qed

lemma last_segment:
  assumes "2 ^ l dvd (C :: nat)" "C - 2 ^ l \<le> p" "p < C"
  shows "p div 2 ^ l = C div 2 ^ l - 1"
proof -
  obtain a where a: "C = 2 ^ l * a" using assms(1) by blast
  then have "0 < a" using assms(3) by (cases a) simp_all
  then obtain b where b: "a = Suc b" using gr0_implies_Suc by blast
  have "2 ^ l * b \<le> p" "p < 2 ^ l * b + 2 ^ l" using assms a b by (simp_all add: add.commute)
  then have "p div 2 ^ l = b" by (intro div_nat_eqI) (simp_all add: mult.commute)
  then show ?thesis using a b by simp
qed

lemma segment_after:
  assumes l: "2 ^ l dvd C" "0 < C" "l \<le> l'" "2 ^ l' dvd C" "\<not> 2 ^ Suc l' dvd C" "p < C"
    and ok: "branch_ok H xs p C l' matchh (m_branch st) st'" and ml: "m_matchlevel st' = m_matchlevel st"
    and old: "C - 2 ^ l' \<le> p \<or> in_segment H xs p (C - 2 ^ l) m st"
  shows "if matchh then p div 2 ^ l' = C div 2 ^ l' - 1 \<and> m_branch st' = map (sib H xs p) [0..<l']
    else l' < m \<and> in_segment H xs p C m st'"
proof (cases matchh)
  case True
  then show ?thesis using ok unfolding branch_ok_def by simp
next
  case False
  then have n: "p div 2 ^ l' \<noteq> C div 2 ^ l' - 1" and b: "m_branch st' = m_branch st" using ok unfolding branch_ok_def by simp_all
  then have "\<not> C - 2 ^ l' \<le> p" using last_segment [OF l(4) _ l(6)] by blast
  then have o: "bit (C - 2 ^ l) m" "p div 2 ^ m = (C - 2 ^ l) div 2 ^ m - 1" "m_matchlevel st = int m" "m_branch st = map (sib H xs p) [0..<m]"
    using old unfolding in_segment_def by blast+
  have "l' < m"
  proof (rule ccontr)
    assume "\<not> l' < m"
    then have m: "m \<le> l'" by simp
    have odd: "odd ((C - 2 ^ l) div 2 ^ m)" using o(1) by (simp add: bit_nat_div)
    have lm: "l \<le> m"
    proof (rule ccontr)
      assume "\<not> l \<le> m"
      then have "2 ^ Suc m dvd (2 :: nat) ^ l" by (intro le_imp_power_dvd) simp
      then have "2 ^ Suc m dvd C - 2 ^ l" using l(1) by (meson dvd_diff_nat dvd_trans)
      then show False using odd by (metis dvd_Suc_level dvd_trans le_imp_power_dvd lessI less_imp_le)
    qed
    show False
    proof (cases "m = l'")
      case True
      then have "(C - 2 ^ l) div 2 ^ l' = C div 2 ^ l' - 1" using div_before [OF l(1-3)] l(4) by simp
      moreover have "odd (C div 2 ^ l')" using dvd_Suc_level [OF l(4)] l(5) by blast
      ultimately show False using odd True by simp
    next
      case False
      then have sm: "Suc m \<le> l'" using m by simp
      then have dv: "2 ^ Suc m dvd C" using l(4) by (meson dvd_trans le_imp_power_dvd)
      then obtain k where k: "C = 2 ^ Suc m * k" by blast
      have "p div 2 ^ m = 2 * k - 2" using o(2) bit_before [OF l(1,2) lm dv] k by (simp add: mult.assoc)
      then have "2 ^ m * (2 * k - 2) \<le> p" by (metis times_div_less_eq_dividend)
      then have "C - 2 ^ Suc m \<le> p" using k by (simp add: algebra_simps)
      moreover have "(2 :: nat) ^ Suc m \<le> 2 ^ l'" using sm by (intro power_increasing) simp_all
      ultimately show False using \<open>\<not> C - 2 ^ l' \<le> p\<close> by linarith
    qed
  qed
  then have "\<not> 2 ^ m dvd C" using l(5) by (meson Suc_leI dvd_trans le_imp_power_dvd)
  then have "(C - 2 ^ l) div 2 ^ m = C div 2 ^ m" using div_before [OF l(1,2), of m] l(3) \<open>l' < m\<close> by simp
  then show ?thesis using False o b ml \<open>l' < m\<close> by (simp add: in_segment_def bit_nat_div)
qed

definition equal_pair :: "hash_functions \<Rightarrow> uint256 list \<Rightarrow> nat \<Rightarrow> bool" where
  \<comment> \<open>two full sibling subtrees of the first \<open>k\<close> leaves have the same hash\<close>
  "equal_pair H xs k \<longleftrightarrow> (\<exists>i j. (2 * j + 2) * 2 ^ i \<le> k \<and> lev H xs i ! (2 * j) = lev H xs i ! (2 * j + 1))"

lemma equal_pair_Suc:
  assumes l: "2 ^ l dvd Suc k" "\<not> 2 ^ Suc l dvd Suc k"
  shows "equal_pair H xs (Suc k) \<longleftrightarrow>
    equal_pair H xs k \<or> (\<exists>i<l. lev H xs i ! (Suc k div 2 ^ i - 2) = lev H xs i ! (Suc k div 2 ^ i - 1))"
proof
  assume "equal_pair H xs (Suc k)"
  then obtain i j where e: "(2 * j + 2) * 2 ^ i \<le> Suc k" "lev H xs i ! (2 * j) = lev H xs i ! (2 * j + 1)"
    unfolding equal_pair_def by blast
  show "equal_pair H xs k \<or> (\<exists>i<l. lev H xs i ! (Suc k div 2 ^ i - 2) = lev H xs i ! (Suc k div 2 ^ i - 1))"
  proof (cases "(2 * j + 2) * 2 ^ i = Suc k")
    case True
    then have C: "Suc k = 2 ^ Suc i * (j + 1)" by (simp add: algebra_simps)
    have "i < l"
    proof (rule ccontr)
      assume "\<not> i < l"
      then have "2 ^ Suc l dvd (2 :: nat) ^ Suc i" by (intro le_imp_power_dvd) simp
      then have "2 ^ Suc l dvd Suc k" unfolding C by (rule dvd_trans) (rule dvd_triv_left)
      then show False using l(2) by simp
    qed
    moreover have "Suc k div 2 ^ i = 2 * j + 2" using True by (metis div_mult_self_is_m zero_less_numeral zero_less_power)
    ultimately show ?thesis using e(2) by auto
  next
    case False
    then show ?thesis using e unfolding equal_pair_def by (metis le_SucE)
  qed
next
  assume r: "equal_pair H xs k \<or> (\<exists>i<l. lev H xs i ! (Suc k div 2 ^ i - 2) = lev H xs i ! (Suc k div 2 ^ i - 1))"
  show "equal_pair H xs (Suc k)"
  proof (cases "equal_pair H xs k")
    case True
    then show ?thesis unfolding equal_pair_def by (meson le_SucI)
  next
    case False
    then obtain i where i: "i < l" "lev H xs i ! (Suc k div 2 ^ i - 2) = lev H xs i ! (Suc k div 2 ^ i - 1)" using r by blast
    have "2 ^ Suc i dvd Suc k" using l(1) i(1) by (meson Suc_leI dvd_trans le_imp_power_dvd)
    then obtain c where "Suc k = 2 ^ Suc i * c" by blast
    then obtain j where c: "Suc k = 2 ^ Suc i * Suc j" by (cases c) simp_all
    then have "Suc k div 2 ^ i = 2 * j + 2" "(2 * j + 2) * 2 ^ i = Suc k" by (simp_all add: mult.assoc algebra_simps)
    then have "(2 * j + 2) * 2 ^ i \<le> Suc k" "lev H xs i ! (2 * j) = lev H xs i ! (2 * j + 1)" using i(2) by simp_all
    then show ?thesis unfolding equal_pair_def by blast
  qed
qed

definition leaves_inv :: "hash_functions \<Rightarrow> uint256 list \<Rightarrow> nat \<Rightarrow> bool \<Rightarrow> nat \<Rightarrow> merkle_state \<Rightarrow> bool" where
  "leaves_inv H xs p want k st \<longleftrightarrow>
     length (m_inner st) = 32 \<and>
     (\<forall>i. bit k i \<longrightarrow> m_inner st ! i = lev H xs i ! (k div 2 ^ i - 1)) \<and>
     m_mutated st = equal_pair H xs k \<and>
     (want \<longrightarrow> (if p < k then \<exists>m. in_segment H xs p k m st else m_matchlevel st = - 1 \<and> m_branch st = []))"

lemma stored_after:
  assumes l: "2 ^ l dvd Suc k" "\<not> 2 ^ Suc l dvd Suc k" "l < length inner"
    and inner: "\<forall>i. bit k i \<longrightarrow> inner ! i = lev H xs i ! (k div 2 ^ i - 1)"
    and i: "bit (Suc k) i"
  shows "inner[l := lev H xs l ! (Suc k div 2 ^ l - 1)] ! i = lev H xs i ! (Suc k div 2 ^ i - 1)"
proof (cases "i = l")
  case True
  then show ?thesis using l(3) by simp
next
  case False
  have ndv: "\<not> 2 ^ Suc i dvd Suc k" using i by (metis bit_nat_div dvd_Suc_level power_Suc dvd_mult_right mult.commute)
  have "\<not> i < l" using ndv l(1) by (meson Suc_leI dvd_trans le_imp_power_dvd)
  then have "\<not> 2 ^ i dvd Suc k" using False l(2) by (meson Suc_leI dvd_trans le_imp_power_dvd linorder_neqE_nat)
  then have d: "k div 2 ^ i = Suc k div 2 ^ i" using div_before [of 0 "Suc k" i] by simp
  then have "bit k i" using i by (simp add: bit_nat_div)
  then show ?thesis using inner d False by simp
qed

lemma leaves_step:
  assumes inv: "leaves_inv H xs p want k st" and k: "k < length xs" "length xs < 2 ^ 32"
  shows "\<exists>l h matchh st'. up_loop H want True (word_of_nat (Suc k)) 0 (xs ! k) (k = p) st = (l, h, matchh, st') \<and>
    leaves_inv H xs p want (Suc k) (st'\<lparr>m_inner := (m_inner st')[l := h], m_matchlevel := if matchh then int l else m_matchlevel st'\<rparr>)"
proof -
  have inner: "\<forall>i. bit k i \<longrightarrow> m_inner st ! i = lev H xs i ! (k div 2 ^ i - 1)" and len: "length (m_inner st) = 32"
    and mut: "m_mutated st = equal_pair H xs k"
    and br: "want \<longrightarrow> (if p < k then \<exists>m. in_segment H xs p k m st else m_matchlevel st = - 1 \<and> m_branch st = [])"
    using inv unfolding leaves_inv_def by simp_all
  have C: "0 < Suc k" "Suc k < 2 ^ 32 " using k by simp_all
  have h: "xs ! k = lev H xs 0 ! (Suc k div 2 ^ 0 - 1)" and one_dvd_pow: "2 ^ 0 dvd Suc k" and le32: "0 \<le> (32 :: nat)" by simp_all
  have le: "\<forall>i \<ge> 0. 2 ^ i dvd Suc k \<longrightarrow> Suc k div 2 ^ i \<le> length (lev H xs i)" using lev_full [of "Suc k" xs] k(1) by simp
  have inn: "\<forall>i \<ge> 0. 2 ^ Suc i dvd Suc k \<longrightarrow> m_inner st ! i = lev H xs i ! (Suc k div 2 ^ i - 2)"
  proof (intro allI impI)
    fix i assume "2 ^ Suc i dvd Suc k"
    then show "m_inner st ! i = lev H xs i ! (Suc k div 2 ^ i - 2)"
      using bit_before [of 0 "Suc k" i] inner by (simp add: numeral_2_eq_2 del: power_Suc)
  qed
  have b0: "want \<longrightarrow> branch_ok H xs p (Suc k) 0 (k = p) (m_branch st) st"
  proof
    assume w: want
    show "branch_ok H xs p (Suc k) 0 (k = p) (m_branch st) st"
    proof (cases "p < k")
      case True
      then obtain m where "in_segment H xs p k m st" using br w by auto
      then have "(m_matchlevel st = int i \<longleftrightarrow> p div 2 ^ i = Suc k div 2 ^ i - 2) \<and> (m_matchlevel st = int i \<longrightarrow> m_branch st = map (sib H xs p) [0..<i])"
        if "2 ^ Suc i dvd Suc k" for i
        using branch_ok_start [of 0 "Suc k" H xs p m st i] that by simp
      then show ?thesis using True by (simp add: branch_ok_def)
    next
      case False
      then have "m_matchlevel st = - 1" "m_branch st = []" using br w by auto
      moreover have "p div 2 ^ i \<noteq> Suc k div 2 ^ i - 2" if "2 ^ Suc i dvd Suc k" for i
      proof -
        have "k div 2 ^ i \<le> p div 2 ^ i" using False by (intro div_le_mono) simp
        then show ?thesis using bit_before [of 0 "Suc k" i] that by (simp del: power_Suc)
      qed
      ultimately show ?thesis unfolding branch_ok_def by auto
    qed
  qed
  obtain l matchh st' where r: "up_loop H want True (word_of_nat (Suc k)) 0 (xs ! k) (k = p) st = (l, lev H xs l ! (Suc k div 2 ^ l - 1), matchh, st')"
    "l < 32" "2 ^ l dvd Suc k" "\<not> 2 ^ Suc l dvd Suc k" "m_inner st' = m_inner st" "m_matchlevel st' = m_matchlevel st"
    "want \<longrightarrow> branch_ok H xs p (Suc k) l matchh (m_branch st) st'"
    "m_mutated st' = (m_mutated st \<or> True \<and> (\<exists>i. 0 \<le> i \<and> i < l \<and> lev H xs i ! (Suc k div 2 ^ i - 2) = lev H xs i ! (Suc k div 2 ^ i - 1)))"
    using up_loop_run [where first = True, OF C refl one_dvd_pow le32 h le inn b0] by blast
  let ?st = "st'\<lparr>m_inner := (m_inner st')[l := lev H xs l ! (Suc k div 2 ^ l - 1)], m_matchlevel := if matchh then int l else m_matchlevel st'\<rparr>"
  have "leaves_inv H xs p want (Suc k) ?st"
    unfolding leaves_inv_def
  proof (intro conjI allI impI)
    show "length (m_inner ?st) = 32" using len r(5) by simp
    show "m_mutated ?st = equal_pair H xs (Suc k)" using r(8) mut equal_pair_Suc [OF r(3,4)] by simp
    fix i assume i: "bit (Suc k) i"
    show "m_inner ?st ! i = lev H xs i ! (Suc k div 2 ^ i - 1)"
      using stored_after [OF r(3,4) _ inner i] r(2,5) len by simp
  next
    assume w: want
    show "if p < Suc k then \<exists>m. in_segment H xs p (Suc k) m ?st else m_matchlevel ?st = - 1 \<and> m_branch ?st = []"
    proof (cases "p < Suc k")
      case True
      have "Suc k - 2 ^ l \<le> p \<or> in_segment H xs p (Suc k - 2 ^ 0) m st" if "p < k \<Longrightarrow> in_segment H xs p k m st" for m
      proof (cases "p = k")
        case True
        moreover have "Suc k - 2 ^ l \<le> k" using one_le_power [of "2 :: nat" l] by linarith
        ultimately show ?thesis by simp
      next
        case False
        then show ?thesis using that True by simp
      qed
      moreover have "\<exists>m. p < k \<longrightarrow> in_segment H xs p k m st" using br w by auto
      ultimately obtain m where o: "Suc k - 2 ^ l \<le> p \<or> in_segment H xs p (Suc k - 2 ^ 0) m st" by blast
      have s: "if matchh then p div 2 ^ l = Suc k div 2 ^ l - 1 \<and> m_branch st' = map (sib H xs p) [0..<l]
        else l < m \<and> in_segment H xs p (Suc k) m st'"
        using segment_after [of 0 "Suc k" l p H xs matchh st st' m] r(3,4,6,7) w True o by simp
      have bl: "bit (Suc k) l" using r(3,4) dvd_Suc_level by (simp add: bit_nat_div del: power_Suc)
      have "in_segment H xs p (Suc k) (if matchh then l else m) ?st"
        using s bl by (simp add: in_segment_def split: if_splits)
      then show ?thesis using True by auto
    next
      case False
      then have "m_matchlevel st = - 1" "m_branch st = []" using br w by auto
      moreover have "\<not> matchh"
      proof -
        have "Suc k div 2 ^ l \<le> p div 2 ^ l" using False by (intro div_le_mono) simp
        moreover have "0 < Suc k div 2 ^ l" using r(3) by (simp add: div_greater_zero_iff dvd_imp_le)
        ultimately have "p div 2 ^ l \<noteq> Suc k div 2 ^ l - 1" by linarith
        then show ?thesis using r(7) w unfolding branch_ok_def by simp
      qed
      ultimately show ?thesis using False r(6,7) w by (simp add: branch_ok_def)
    qed
  qed
  then show ?thesis using r(1) by blast
qed

lemma leaves_run:
  assumes "leaves_inv H xs p want k st" "k \<le> length xs" "length xs < 2 ^ 32" "p < 2 ^ 32"
  shows "\<exists>st'. leaves_loop H want (word_of_nat p) (drop k xs) (word_of_nat k) st = (word_of_nat (length xs), st') \<and>
    leaves_inv H xs p want (length xs) st'"
  using assms(1,2)
proof (induction "length xs - k" arbitrary: k st)
  case 0
  then show ?case by simp
next
  case (Suc d)
  then have k: "k < length xs" by simp
  have w: "word_of_nat k + (1 :: u32) = word_of_nat (Suc k)" by simp
  have "unat (word_of_nat k :: u32) = k" "unat (word_of_nat p :: u32) = p"
    using k assms(3,4) by (simp_all add: unat_of_nat take_bit_nat_eq_self)
  then have kp: "(word_of_nat k :: u32) = word_of_nat p \<longleftrightarrow> k = p" by metis
  obtain l h matchh st' where u: "up_loop H want True (word_of_nat (Suc k)) 0 (xs ! k) (k = p) st = (l, h, matchh, st')"
    and inv: "leaves_inv H xs p want (Suc k) (st'\<lparr>m_inner := (m_inner st')[l := h], m_matchlevel := if matchh then int l else m_matchlevel st'\<rparr>)"
    using leaves_step [OF Suc.prems(1) k assms(3)] by blast
  have d: "d = length xs - Suc k" using Suc.hyps(2) by simp
  obtain st'' where "leaves_loop H want (word_of_nat p) (drop (Suc k) xs) (word_of_nat (Suc k))
      (st'\<lparr>m_inner := (m_inner st')[l := h], m_matchlevel := if matchh then int l else m_matchlevel st'\<rparr>) = (word_of_nat (length xs), st'')"
    "leaves_inv H xs p want (length xs) st''"
    using Suc.hyps(1) [OF d inv] k by auto
  moreover have "drop k xs = xs ! k # drop (Suc k) xs" using k by (simp add: Cons_nth_drop_Suc)
  ultimately show ?case using u by (simp only: leaves_loop.simps w kp prod.case) simp
qed

section \<open>The final sweep\<close>

lemma lowest_level_run:
  assumes "2 ^ l dvd C" "0 < C" "C < 2 ^ 32" "l \<le> 32"
  shows "\<exists>l'. lowest_level (word_of_nat C) l = l' \<and> l \<le> l' \<and> l' < 32 \<and> 2 ^ l' dvd C \<and> \<not> 2 ^ Suc l' dvd C"
  using assms(1,4)
proof (induction "32 - l" arbitrary: l)
  case 0
  then show ?case using assms(2,3) by (auto dest: dvd_imp_le)
next
  case (Suc d)
  have bit: "bit (word_of_nat C :: u32) l \<longleftrightarrow> \<not> 2 ^ Suc l dvd C"
    using assms(3) dvd_Suc_level [OF Suc.prems(1)] by (simp add: bit_u32 bit_nat_div)
  have l32: "l < 32" using Suc.hyps(2) by simp
  show ?case
  proof (cases "bit (word_of_nat C :: u32) l")
    case True
    then show ?thesis using Suc.prems bit l32 by (subst lowest_level.simps) simp
  next
    case False
    then have e: "lowest_level (word_of_nat C) l = lowest_level (word_of_nat C) (Suc l)"
      using l32 by (subst lowest_level.simps) simp
    have dv: "2 ^ Suc l dvd C" and d: "d = 32 - Suc l" and l': "Suc l \<le> 32" using False bit Suc.hyps(2) by simp_all
    obtain l' where "lowest_level (word_of_nat C) (Suc l) = l'" "Suc l \<le> l'" "l' < 32" "2 ^ l' dvd C" "\<not> 2 ^ Suc l' dvd C"
      using Suc.hyps(1) [OF d dv l'] by blast
    then show ?thesis using e by (intro exI [of _ l']) simp
  qed
qed

lemma length_lev_next: "length (lev H xs (l + j)) = (length (lev H xs l) + 2 ^ j - 1) div 2 ^ j"
proof -
  have "lev H xs (l + j) = lev H (lev H xs l) j" by (induction j) simp_all
  then show ?thesis by (simp add: length_lev)
qed

lemma length_lev_exact:
  assumes "C = length (lev H xs l) * 2 ^ l" "2 ^ i dvd C" "l \<le> i"
  shows "length (lev H xs i) = C div 2 ^ i"
proof -
  obtain j where j: "i = l + j" using assms(3) le_Suc_ex by blast
  obtain a where a: "C = 2 ^ i * a" using assms(2) by blast
  then have "length (lev H xs l) = 2 ^ j * a" using assms(1) by (simp add: j power_add)
  moreover have "(2 ^ j * a + 2 ^ j - 1) div 2 ^ j = a"
  proof -
    have "2 ^ j * a + 2 ^ j - 1 = (2 ^ j - 1) + a * (2 :: nat) ^ j" using one_le_power [of "2 :: nat" j] by (simp add: algebra_simps)
    moreover have "((2 ^ j - 1) + a * (2 :: nat) ^ j) div 2 ^ j = a" by (subst div_mult_self1) simp_all
    ultimately show ?thesis by simp
  qed
  ultimately show ?thesis using a length_lev_next [of H xs l j] by (simp add: j)
qed

definition sweep_inv :: "hash_functions \<Rightarrow> uint256 list \<Rightarrow> nat \<Rightarrow> bool \<Rightarrow> nat \<Rightarrow> nat \<Rightarrow> uint256 \<Rightarrow> bool \<Rightarrow> merkle_state \<Rightarrow> bool" where
  "sweep_inv H xs p want c l h matchh st \<longleftrightarrow>
     c = length (lev H xs l) * 2 ^ l \<and> bit c l \<and> h = last (lev H xs l) \<and>
     (\<forall>i>l. bit c i \<longrightarrow> m_inner st ! i = lev H xs i ! (c div 2 ^ i - 1)) \<and>
     (\<forall>i<l. 1 < length (lev H xs i)) \<and>
     (want \<longrightarrow> (if matchh then p div 2 ^ l = c div 2 ^ l - 1 \<and> m_branch st = map (sib H xs p) [0..<l]
                else \<exists>m>l. in_segment H xs p c m st))"

lemma lev_odd_last:
  assumes "odd (length (lev H xs l))"
  shows "lev H xs (Suc l) = [] \<Longrightarrow> False" "last (lev H xs (Suc l)) = merkle_hash H (last (lev H xs l)) (last (lev H xs l))"
proof -
  obtain q where q: "length (lev H xs l) = 2 * q + 1" using assms oddE by blast
  then have ne: "lev H xs l \<noteq> []" "lev H xs (Suc l) \<noteq> []" and len: "length (lev H xs (Suc l)) = q + 1"
    by (auto simp: length_0_conv [symmetric] simp del: length_0_conv)
  show "lev H xs (Suc l) = [] \<Longrightarrow> False" using ne by simp
  have "last (lev H xs (Suc l)) = lev H xs (Suc l) ! q" using last_conv_nth [OF ne(2)] len by (simp del: lev.simps)
  also have "\<dots> = merkle_hash H (lev H xs l ! (2 * q)) (lev H xs l ! (2 * q))" using q by (simp add: level_up_nth)
  also have "lev H xs l ! (2 * q) = last (lev H xs l)" using last_conv_nth [OF ne(1)] q by simp
  finally show "last (lev H xs (Suc l)) = merkle_hash H (last (lev H xs l)) (last (lev H xs l))" .
qed

lemma sib_last:
  assumes "odd (length (lev H xs l))" "p div 2 ^ l = length (lev H xs l) - 1"
  shows "sib H xs p l = last (lev H xs l)"
proof -
  have ne: "lev H xs l \<noteq> []" using assms(1) by auto
  have "even (length (lev H xs l) - 1)" using assms(1) by simp
  then have "min ((p div 2 ^ l) XOR 1) (length (lev H xs l) - 1) = length (lev H xs l) - 1"
    using assms(2) by (simp only: xor_1) simp
  then show ?thesis using last_conv_nth [OF ne] by (simp add: sib_def)
qed

lemma le_ceiling_mult: "0 < d \<Longrightarrow> n \<le> (n + d - 1) div d * (d :: nat)"
  using div_mult_mod_eq [of "n + d - 1" d] mod_less_divisor [of d "n + d - 1"] by linarith

lemma sweep_bound:
  assumes "c \<le> 2 ^ 31" "c = q * 2 ^ l" "q = 2 * k + (1 :: nat)" "0 < k"
  shows "l < 31" "c + 2 ^ l \<le> 2 ^ 31"
proof -
  have "3 \<le> q" using assms by simp
  then have "3 * 2 ^ l \<le> c" unfolding assms(2) by (rule mult_le_mono1)
  then have "3 * 2 ^ l \<le> (2 :: nat) ^ 31" using assms(1) by (rule le_trans)
  moreover have "(2 :: nat) ^ l < 3 * 2 ^ l" by simp
  ultimately have "2 ^ l < (2 :: nat) ^ 31" by (rule less_le_trans [rotated])
  then show l: "l < 31" by (rule power_less_imp_less_exp [rotated]) simp
  then obtain e where e: "31 = l + Suc e" using less_imp_Suc_add [OF l] by auto
  have "2 ^ l * q \<le> 2 ^ l * (2 * 2 ^ e)" using assms(1) unfolding e assms(2) by (simp add: power_add mult.commute)
  then have "q \<le> 2 * 2 ^ e" by simp
  moreover have "x + 1 \<le> y" if "2 * x + 1 \<le> 2 * y" for x y :: nat using that by presburger
  ultimately have "k + 1 \<le> 2 ^ e" unfolding assms(3) by blast
  then have "2 ^ Suc l * (k + 1) \<le> 2 ^ Suc l * (2 :: nat) ^ e" by (rule mult_le_mono2)
  moreover have "c + 2 ^ l = 2 ^ Suc l * (k + 1)" using assms(2,3) by (simp add: algebra_simps)
  moreover have "2 ^ Suc l * (2 :: nat) ^ e = 2 ^ 31" unfolding e by (simp add: power_add)
  ultimately show "c + 2 ^ l \<le> 2 ^ 31" by (simp only:)
qed

lemma sweep_step:
  assumes inv: "sweep_inv H xs p want c l h matchh st" and c: "c \<le> 2 ^ 31" "length (lev H xs l) \<noteq> 1"
    and p: "want \<Longrightarrow> p < length xs" and ne: "xs \<noteq> []"
  shows "\<exists>c' l' h' matchh' st'. c' = c + 2 ^ l \<and> c' \<le> 2 ^ 31 \<and> l < l' \<and> l' < 32 \<and>
    up_loop H want False (word_of_nat c') (l + 1) (merkle_hash H h h) matchh
      (if want \<and> matchh then st\<lparr>m_branch := m_branch st @ [h]\<rparr> else st) = (l', h', matchh', st') \<and>
    sweep_inv H xs p want c' l' h' matchh' st' \<and> m_mutated st' = m_mutated st"
proof -
  let ?q = "length (lev H xs l)" and ?c = "c + 2 ^ l"
  let ?st = "if want \<and> matchh then st\<lparr>m_branch := m_branch st @ [h]\<rparr> else st"
  have cq: "c = ?q * 2 ^ l" and bc: "bit c l" and h: "h = last (lev H xs l)"
    and inner: "\<forall>i>l. bit c i \<longrightarrow> m_inner st ! i = lev H xs i ! (c div 2 ^ i - 1)"
    and low: "\<forall>i<l. 1 < length (lev H xs i)"
    and br: "want \<Longrightarrow> (if matchh then p div 2 ^ l = c div 2 ^ l - 1 \<and> m_branch st = map (sib H xs p) [0..<l]
              else \<exists>m>l. in_segment H xs p c m st)"
    using inv unfolding sweep_inv_def by blast+
  have cd: "c div 2 ^ l = ?q" using cq by (metis div_mult_self_is_m zero_less_numeral zero_less_power)
  then have odd: "odd ?q" using bc by (simp add: bit_nat_div)
  then obtain k where k: "?q = 2 * k + 1" using oddE by blast
  have k0: "0 < k" using k c(2) by (cases k) simp_all
  have c': "?c = 2 ^ Suc l * (k + 1)" using cq k by (simp add: algebra_simps)
  note l31 = sweep_bound [OF c(1) cq k k0]
  have dv: "2 ^ Suc l dvd ?c" "2 ^ l dvd ?c" unfolding c' by simp_all
  have pos: "0 < ?c" by simp
  have lenl: "?c = length (lev H xs (Suc l)) * 2 ^ Suc l" using c' k by simp
  have hl: "merkle_hash H h h = lev H xs (Suc l) ! (?c div 2 ^ Suc l - 1)"
  proof -
    have ne: "lev H xs (Suc l) \<noteq> []" using lev_odd_last(1) [OF odd] by blast
    have "?c div 2 ^ Suc l = length (lev H xs (Suc l))" using lenl by (metis div_mult_self_is_m zero_less_numeral zero_less_power)
    then show ?thesis using lev_odd_last(2) [OF odd] last_conv_nth [OF ne] h by simp
  qed
  have len: "\<forall>i \<ge> Suc l. 2 ^ i dvd ?c \<longrightarrow> ?c div 2 ^ i \<le> length (lev H xs i)"
    using length_lev_exact [OF lenl] by simp
  have inn: "\<forall>i \<ge> Suc l. 2 ^ Suc i dvd ?c \<longrightarrow> m_inner ?st ! i = lev H xs i ! (?c div 2 ^ i - 2)"
  proof (intro allI impI)
    fix i assume i: "Suc l \<le> i" "2 ^ Suc i dvd ?c"
    have li: "l \<le> i" using i(1) by simp
    show "m_inner ?st ! i = lev H xs i ! (?c div 2 ^ i - 2)"
      using bit_before [OF dv(2) pos li i(2)] inner i(1) by (simp add: numeral_2_eq_2 del: power_Suc)
  qed
  have pc: "p < ?c" if want
  proof -
    have "length xs \<le> c" unfolding cq length_lev by (rule le_ceiling_mult) simp
    then show ?thesis using p [OF that] by simp
  qed
  have cp: "?c - 2 ^ l = c" by simp
  have br0: "want \<longrightarrow> branch_ok H xs p ?c (Suc l) matchh (m_branch ?st) ?st"
  proof
    assume w: want
    show "branch_ok H xs p ?c (Suc l) matchh (m_branch ?st) ?st"
    proof (cases matchh)
      case True
      then have o: "p div 2 ^ l = ?q - 1" "m_branch st = map (sib H xs p) [0..<l]" using br [OF w] cd by simp_all
      have "2 ^ l * (p div 2 ^ l) \<le> p" by (rule times_div_less_eq_dividend)
      then have "?c - 2 ^ Suc l \<le> p" using o(1) k cq by (simp add: algebra_simps)
      then have "p div 2 ^ Suc l = ?c div 2 ^ Suc l - 1" by (rule last_segment [OF dv(1) _ pc [OF w]])
      then show ?thesis using True w o(2) h sib_last [OF odd o(1)] by (simp add: branch_ok_def)
    next
      case False
      then obtain m where m: "l < m" "in_segment H xs p c m st" using br [OF w] by auto
      have "p div 2 ^ Suc l \<noteq> ?c div 2 ^ Suc l - 1"
      proof
        assume e: "p div 2 ^ Suc l = ?c div 2 ^ Suc l - 1"
        have m': "(2 :: nat) ^ m = 2 ^ Suc l * 2 ^ (m - Suc l)" using m(1) by (simp add: power_add [symmetric] del: power_Suc)
        have "?c div 2 ^ Suc l - 1 = c div 2 ^ Suc l" using div_before [OF dv(2) pos, of "Suc l"] dv(1) cp by simp
        then have "p div 2 ^ m = c div 2 ^ m" using e by (simp only: m' div_mult2_eq)
        moreover have "0 < c div 2 ^ m" using m(2) by (metis bit_nat_div dvd_0_right in_segment_def neq0_conv)
        ultimately show False using m(2) unfolding in_segment_def by linarith
      qed
      moreover have "(m_matchlevel st = int i \<longleftrightarrow> p div 2 ^ i = ?c div 2 ^ i - 2) \<and> (m_matchlevel st = int i \<longrightarrow> m_branch st = map (sib H xs p) [0..<i])"
        if "Suc l \<le> i" "2 ^ Suc i dvd ?c" for i
        using branch_ok_start [OF dv(2) pos, of H xs p m st i] m(2) that cp by simp
      ultimately show ?thesis using False by (simp add: branch_ok_def)
    qed
  qed
  have lt: "?c < 2 ^ 32" "Suc l \<le> 32" using l31 by simp_all
  obtain l' matchh' st' where r: "up_loop H want False (word_of_nat ?c) (Suc l) (merkle_hash H h h) matchh ?st = (l', lev H xs l' ! (?c div 2 ^ l' - 1), matchh', st')"
    "Suc l \<le> l'" "l' < 32" "2 ^ l' dvd ?c" "\<not> 2 ^ Suc l' dvd ?c" "m_inner st' = m_inner ?st" "m_matchlevel st' = m_matchlevel ?st"
    "want \<longrightarrow> branch_ok H xs p ?c l' matchh' (m_branch ?st) st'"
    "m_mutated st' = (m_mutated ?st \<or> False \<and> (\<exists>i. Suc l \<le> i \<and> i < l' \<and> lev H xs i ! (?c div 2 ^ i - 2) = lev H xs i ! (?c div 2 ^ i - 1)))"
    using up_loop_run [where first = False, OF pos lt(1) refl dv(1) lt(2) hl len inn br0] by blast
  have ll: "l \<le> l'" "Suc l \<le> l'" using r(2) by simp_all
  have l'len: "length (lev H xs l') = ?c div 2 ^ l'" by (rule length_lev_exact [OF lenl r(4) ll(2)])
  have "sweep_inv H xs p want ?c l' (lev H xs l' ! (?c div 2 ^ l' - 1)) matchh' st'"
    unfolding sweep_inv_def
  proof (intro conjI allI impI)
    show c1: "?c = length (lev H xs l') * 2 ^ l'" using l'len r(4) by simp
    show "bit ?c l'" using r(4,5) dvd_Suc_level by (simp add: bit_nat_div del: power_Suc)
    have "lev H xs l' \<noteq> []" using ne lev_Nil_iff by blast
    then show "lev H xs l' ! (?c div 2 ^ l' - 1) = last (lev H xs l')" using l'len last_conv_nth by metis
  next
    fix i assume i: "l' < i" "bit ?c i"
    have "\<not> 2 ^ i dvd ?c" using i(1) r(5) by (meson Suc_leI dvd_trans le_imp_power_dvd)
    then have "c div 2 ^ i = ?c div 2 ^ i" using div_before [OF dv(2) pos, of i] i(1) ll(1) cp by simp
    then show "m_inner st' ! i = lev H xs i ! (?c div 2 ^ i - 1)" using inner i ll r(6) by (simp add: bit_nat_div)
  next
    fix i assume i: "i < l'"
    consider "i < l" | "i = l" | "l < i" by linarith
    then show "1 < length (lev H xs i)"
    proof cases
      case 3
      have "2 ^ Suc i dvd ?c" using r(4) i by (meson Suc_leI dvd_trans le_imp_power_dvd)
      then have "2 \<le> ?c div 2 ^ i" using bit_before(3) [OF dv(2) pos, of i] 3 by simp
      moreover have "2 ^ i dvd ?c" using r(4) i by (meson less_imp_le dvd_trans le_imp_power_dvd)
      ultimately have "2 \<le> ?c div 2 ^ i" "2 ^ i dvd ?c" by blast+
      then show ?thesis using length_lev_exact [OF lenl, of i] 3 by simp
    qed (use low k k0 in auto)
  next
    assume w: want
    obtain m where o: "?c - 2 ^ l' \<le> p \<or> in_segment H xs p (?c - 2 ^ l) m ?st"
    proof (cases matchh)
      case True
      then have "2 ^ l * (?q - 1) \<le> p" using br [OF w] cd by (metis times_div_less_eq_dividend)
      then have "?c - 2 ^ Suc l \<le> p" using k cq by (simp add: algebra_simps)
      moreover have "(2 :: nat) ^ Suc l \<le> 2 ^ l'" using ll(2) by (intro power_increasing) simp_all
      ultimately show ?thesis using that by fastforce
    next
      case False
      then show ?thesis using that br [OF w] cp by auto
    qed
    have ok: "branch_ok H xs p ?c l' matchh' (m_branch ?st) st'" using r(8) w by blast
    show "if matchh' then p div 2 ^ l' = ?c div 2 ^ l' - 1 \<and> m_branch st' = map (sib H xs p) [0..<l']
       else \<exists>m>l'. in_segment H xs p ?c m st'"
      using segment_after [OF dv(2) pos ll(1) r(4,5) pc [OF w] ok r(7) o] by (cases matchh') auto
  qed
  moreover have "m_mutated st' = m_mutated st" using r(9) by simp
  moreover have "l < l'" "up_loop H want False (word_of_nat ?c) (l + 1) (merkle_hash H h h) matchh ?st = (l', lev H xs l' ! (?c div 2 ^ l' - 1), matchh', st')"
    using r(1) ll(2) by (simp_all only: Suc_eq_plus1 Suc_le_eq)
  ultimately show ?thesis using r(3) l31(2) by blast
qed

lemma sweep_run:
  assumes "sweep_inv H xs p want c l h matchh st" "c \<le> 2 ^ 31" "want \<Longrightarrow> p < length xs" "l < 32" and ne: "xs \<noteq> []"
  shows "\<exists>d st'. sweep_loop H want (word_of_nat c) l h matchh st = (lev H xs d ! 0, st') \<and>
    length (lev H xs d) = 1 \<and> (\<forall>i<d. 1 < length (lev H xs i)) \<and> m_mutated st' = m_mutated st \<and>
    (want \<longrightarrow> m_branch st' = map (sib H xs p) [0..<d])"
  using assms(1-4)
proof (induction "32 - l" arbitrary: c l h matchh st rule: less_induct)
  case less
  have cq: "c = length (lev H xs l) * 2 ^ l" and h: "h = last (lev H xs l)" and low: "\<forall>i<l. 1 < length (lev H xs i)"
    and br: "want \<longrightarrow> (if matchh then p div 2 ^ l = c div 2 ^ l - 1 \<and> m_branch st = map (sib H xs p) [0..<l]
                else \<exists>m>l. in_segment H xs p c m st)"
    using less.prems(1) unfolding sweep_inv_def by blast+
  have one: "(word_of_nat c :: u32) = push_bit l 1 \<longleftrightarrow> length (lev H xs l) = 1"
  proof -
    have "(2 :: nat) ^ l < 2 ^ 32" using less.prems(4) by (intro power_strict_increasing) simp_all
    then have "(word_of_nat c :: u32) = word_of_nat (2 ^ l) \<longleftrightarrow> c = 2 ^ l"
      using less.prems(2,4) by (simp only: word_of_nat_eq_iff) (simp add: take_bit_nat_eq_self)
    moreover have "push_bit l (1 :: u32) = word_of_nat (2 ^ l)" by (simp add: push_bit_eq_mult)
    ultimately show ?thesis using cq by simp
  qed
  show ?case
  proof (cases "length (lev H xs l) = 1")
    case True
    then have e: "sweep_loop H want (word_of_nat c) l h matchh st = (h, st)" using one by (subst sweep_loop.simps) simp
    have "lev H xs l \<noteq> []" using True by auto
    then have h0: "h = lev H xs l ! 0" using h True by (simp add: last_conv_nth)
    have "want \<longrightarrow> m_branch st = map (sib H xs p) [0..<l]"
    proof
      assume w: want
      have "matchh"
      proof (rule ccontr)
        assume "\<not> matchh"
        then obtain m where "l < m" "bit c m" using br w unfolding in_segment_def by auto
        then show False using cq True by (simp add: bit_exp_iff)
      qed
      then show "m_branch st = map (sib H xs p) [0..<l]" using br w by simp
    qed
    then show ?thesis using e h0 True low by blast
  next
    case False
    then have e: "sweep_loop H want (word_of_nat c) l h matchh st =
        (let u = up_loop H want False (word_of_nat (c + 2 ^ l)) (l + 1) (merkle_hash H h h) matchh
           (if want \<and> matchh then st\<lparr>m_branch := m_branch st @ [h]\<rparr> else st)
         in sweep_loop H want (word_of_nat (c + 2 ^ l)) (fst u) (fst (snd u)) (fst (snd (snd u))) (snd (snd (snd u))))"
      using one less.prems(4) by (subst sweep_loop.simps) (simp add: push_bit_eq_mult Let_def)
    obtain l' h' matchh' st' where s: "c + 2 ^ l \<le> 2 ^ 31" "l < l'" "l' < 32"
      "up_loop H want False (word_of_nat (c + 2 ^ l)) (l + 1) (merkle_hash H h h) matchh
         (if want \<and> matchh then st\<lparr>m_branch := m_branch st @ [h]\<rparr> else st) = (l', h', matchh', st')"
      "sweep_inv H xs p want (c + 2 ^ l) l' h' matchh' st'" "m_mutated st' = m_mutated st"
      using sweep_step [OF less.prems(1,2) False less.prems(3) ne] by blast
    have "32 - l' < 32 - l" using s(2,3) by simp
    from less.hyps [OF this s(5,1) less.prems(3) s(3)] show ?thesis unfolding e Let_def s(4) fst_conv snd_conv s(6) .
  qed
qed

lemma MerkleComputation_run:
  assumes n: "length xs \<le> 2 ^ 31" "want \<Longrightarrow> p < length xs" and ne0: "xs \<noteq> []" and p32: "p < 2 ^ 32"
  shows "\<exists>d. length (lev H xs d) = 1 \<and> (\<forall>i<d. 1 < length (lev H xs i)) \<and>
    fst (MerkleComputation H xs (word_of_nat p) want) = lev H xs d ! 0 \<and>
    fst (snd (MerkleComputation H xs (word_of_nat p) want)) = equal_pair H xs (length xs) \<and>
    (want \<longrightarrow> snd (snd (MerkleComputation H xs (word_of_nat p) want)) = map (sib H xs p) [0..<d])"
proof -
  let ?st = "\<lparr>m_inner = replicate 32 blob_null, m_mutated = False, m_matchlevel = - 1, m_branch = []\<rparr>" and ?n = "length xs"
  have ne: "xs \<noteq> []" "0 < ?n" and n32: "?n < 2 ^ 32" "p < 2 ^ 32" using n(1) ne0 p32 by auto
  have "leaves_inv H xs p want 0 ?st" by (simp add: leaves_inv_def equal_pair_def)
  then obtain st where st: "leaves_loop H want (word_of_nat p) xs 0 ?st = (word_of_nat ?n, st)" "leaves_inv H xs p want ?n st"
    using leaves_run [of H xs p want 0 ?st] n32 by auto
  obtain l where l: "lowest_level (word_of_nat ?n) 0 = l" "l < 32" "2 ^ l dvd ?n" "\<not> 2 ^ Suc l dvd ?n"
    using lowest_level_run [of 0 ?n] ne n32 by auto
  have bl: "bit ?n l" using l(3,4) dvd_Suc_level by (simp add: bit_nat_div del: power_Suc)
  have len: "length (lev H xs i) = ?n div 2 ^ i" if "i \<le> l" for i
  proof -
    have "2 ^ i dvd ?n" using l(3) that by (meson dvd_trans le_imp_power_dvd)
    then show ?thesis using length_lev_exact [of ?n H xs 0 i] by simp
  qed
  have inv: "sweep_inv H xs p want ?n l (m_inner st ! l) (m_matchlevel st = int l) st"
    unfolding sweep_inv_def
  proof (intro conjI allI impI)
    show "?n = length (lev H xs l) * 2 ^ l" using len [of l] l(3) by simp
    show "bit ?n l" by (rule bl)
    have "lev H xs l \<noteq> []" using ne(1) lev_Nil_iff by blast
    then show "m_inner st ! l = last (lev H xs l)" using st(2) bl len [of l] by (simp add: leaves_inv_def last_conv_nth)
    fix i assume "l < i" "bit ?n i"
    then show "m_inner st ! i = lev H xs i ! (?n div 2 ^ i - 1)" using st(2) by (simp add: leaves_inv_def)
  next
    fix i assume i: "i < l"
    then have "2 ^ Suc i dvd ?n" using l(3) by (meson Suc_leI dvd_trans le_imp_power_dvd)
    then have "2 \<le> ?n div 2 ^ i" using bit_before(3) [of 0 ?n i] ne(2) by simp
    then show "1 < length (lev H xs i)" using len [of i] i by simp
  next
    assume want
    then obtain m where m: "in_segment H xs p ?n m st" using st(2) n(2) unfolding leaves_inv_def by (auto split: if_splits)
    have "l \<le> m"
    proof (rule ccontr)
      assume "\<not> l \<le> m"
      then have "2 ^ Suc m dvd ?n" using l(3) by (meson Suc_leI dvd_trans le_imp_power_dvd not_le)
      then show False using m by (metis bit_nat_div dvd_Suc_level dvd_mult_right in_segment_def power_Suc mult.commute)
    qed
    then show "if m_matchlevel st = int l then p div 2 ^ l = ?n div 2 ^ l - 1 \<and> m_branch st = map (sib H xs p) [0..<l]
      else \<exists>m>l. in_segment H xs p ?n m st"
      using m by (cases "m = l") (auto simp: in_segment_def)
  qed
  obtain d st' where d: "sweep_loop H want (word_of_nat ?n) l (m_inner st ! l) (m_matchlevel st = int l) st = (lev H xs d ! 0, st')"
    "length (lev H xs d) = 1" "\<forall>i<d. 1 < length (lev H xs i)" "m_mutated st' = m_mutated st" "want \<longrightarrow> m_branch st' = map (sib H xs p) [0..<d]"
    using sweep_run [OF inv n l(2) ne0] by blast
  have "MerkleComputation H xs (word_of_nat p) want = (lev H xs d ! 0, m_mutated st', m_branch st')"
    using ne(1) st(1) l(1) d(1) by (simp add: MerkleComputation_def Let_def)
  moreover have "m_mutated st = equal_pair H xs ?n" using st(2) by (simp add: leaves_inv_def)
  ultimately show ?thesis using d(2-5) by (intro exI [of _ d]) (cases want; simp)
qed

lemma depth_unique:
  assumes "length (lev H xs d) = 1" "\<forall>i<d. 1 < length (lev H xs i)" "length (lev H xs e) = 1" "\<forall>i<e. 1 < length (lev H xs i)"
  shows "d = e"
  using assms by (metis less_irrefl linorder_neqE_nat)

lemma ComputeMerkleRoot_run:
  assumes "length xs \<le> 2 ^ 31" "xs \<noteq> []"
  shows "\<exists>d. length (lev H xs d) = 1 \<and> (\<forall>i<d. 1 < length (lev H xs i)) \<and>
    fst (ComputeMerkleRoot H xs) = lev H xs d ! 0 \<and> snd (ComputeMerkleRoot H xs) = equal_pair H xs (length xs)"
proof -
  have m: "(- 1 :: u32) = word_of_nat 4294967295" by simp
  show ?thesis using MerkleComputation_run [of xs False 4294967295 H] assms unfolding ComputeMerkleRoot_def m fst_conv snd_conv by fastforce
qed

lemma ComputeMerkleBranch_run:
  assumes "length xs \<le> 2 ^ 31" "p < length xs" "length (lev H xs d) = 1" "\<forall>i<d. 1 < length (lev H xs i)"
  shows "ComputeMerkleBranch H xs (word_of_nat p) = map (sib H xs p) [0..<d]"
proof -
  have ne: "xs \<noteq> []" and p: "p < 2 ^ 32" using assms(1,2) by auto
  obtain e where "length (lev H xs e) = 1" "\<forall>i<e. 1 < length (lev H xs i)"
    "snd (snd (MerkleComputation H xs (word_of_nat p) True)) = map (sib H xs p) [0..<e]"
    using MerkleComputation_run [of xs True p H, OF assms(1) assms(2) ne p] by blast
  then show ?thesis using depth_unique [OF assms(3,4)] by (simp add: ComputeMerkleBranch_def)
qed

section \<open>The reference construction\<close>

definition tree_upto :: "hash_functions \<Rightarrow> uint256 list \<Rightarrow> nat \<Rightarrow> uint256 list" where
  "tree_upto H xs i = concat (map (lev H xs) [0..<i])"

lemma build_loop_run:
  assumes "v = tree_upto H xs i @ lev H xs i" "j = length (tree_upto H xs i)" "i \<le> d"
    "length (lev H xs d) = 1" "\<forall>i<d. 1 < length (lev H xs i)"
  shows "fst (build_loop H v j (length (lev H xs i)) mutated) = tree_upto H xs d @ lev H xs d"
  using assms(1-3)
proof (induction "d - i" arbitrary: i v j mutated)
  case 0
  then show ?case using assms(4) by (subst build_loop.simps) simp
next
  case (Suc k)
  then have i: "i < d" by simp
  have "build_loop H v j (length (lev H xs i)) mutated =
      build_loop H (v @ lev H xs (Suc i)) (j + length (lev H xs i)) (length (lev H xs (Suc i)))
        (mutated \<or> (even (length (lev H xs i)) \<and> v ! (j + length (lev H xs i) - 2) = v ! (j + length (lev H xs i) - 1)))"
    using assms(5) i Suc.prems by (subst build_loop.simps) simp
  moreover have "fst (build_loop H (v @ lev H xs (Suc i)) (j + length (lev H xs i)) (length (lev H xs (Suc i))) m) = tree_upto H xs d @ lev H xs d" for m
    using Suc.prems Suc.hyps(2) i by (intro Suc.hyps(1)) (simp_all add: tree_upto_def)
  ultimately show ?case by simp
qed

lemma old_branch_run:
  assumes "v = tree_upto H xs d @ lev H xs d" "length (lev H xs d) = 1" "\<forall>i<d. 1 < length (lev H xs i)"
    "i \<le> d" "j = length (tree_upto H xs i)" "p < length xs"
  shows "old_branch_loop v j (length (lev H xs i)) (p div 2 ^ i) = map (sib H xs p) [i..<d]"
  using assms(4,5)
proof (induction "d - i" arbitrary: i j)
  case 0
  then show ?case using assms(2) by (subst old_branch_loop.simps) simp
next
  case (Suc k)
  then have i: "i < d" by simp
  have sz: "1 < length (lev H xs i)" using assms(3) i by blast
  have "[0..<d] = [0..<i] @ i # [Suc i..<d]"
    using i upt_add_eq_append [of 0 i "d - i"] by (simp add: upt_conv_Cons)
  then have v: "v = tree_upto H xs i @ lev H xs i @ concat (map (lev H xs) [Suc i..<d]) @ lev H xs d"
    using assms(1) by (simp add: tree_upto_def)
  have m: "min ((p div 2 ^ i) XOR 1) (length (lev H xs i) - 1) < length (lev H xs i)" using sz by simp
  then have nth: "v ! (j + min ((p div 2 ^ i) XOR 1) (length (lev H xs i) - 1)) = sib H xs p i"
    using Suc.prems(2) unfolding v sib_def by (simp add: nth_append del: min_less_iff_conj)
  have "old_branch_loop v (j + length (lev H xs i)) (length (lev H xs (Suc i))) (p div 2 ^ Suc i) = map (sib H xs p) [Suc i..<d]"
    using Suc.prems Suc.hyps(2) i by (intro Suc.hyps(1)) (simp_all add: tree_upto_def)
  moreover have "p div 2 ^ i div 2 = p div 2 ^ Suc i" by (simp add: div_mult2_eq [symmetric] mult.commute)
  ultimately have r: "old_branch_loop v (j + length (lev H xs i)) ((length (lev H xs i) + 1) div 2) (p div 2 ^ i div 2) = map (sib H xs p) [Suc i..<d]"
    by simp
  have "old_branch_loop v j (length (lev H xs i)) (p div 2 ^ i) = sib H xs p i # map (sib H xs p) [Suc i..<d]"
    using sz nth r by (subst old_branch_loop.simps) simp
  then show ?case using i by (simp add: upt_conv_Cons)
qed

lemma BlockBuildMerkleTree_run:
  assumes "length (lev H xs d) = 1" "\<forall>i<d. 1 < length (lev H xs i)"
  shows "snd (snd (BlockBuildMerkleTree H xs)) = tree_upto H xs d @ lev H xs d" "fst (BlockBuildMerkleTree H xs) = lev H xs d ! 0"
proof -
  have b: "fst (build_loop H xs 0 (length xs) False) = tree_upto H xs d @ lev H xs d"
    using build_loop_run [of xs H xs 0 0 d False] assms by (simp add: tree_upto_def)
  obtain t m where t: "build_loop H xs 0 (length xs) False = (t, m)" by fastforce
  have "lev H xs d \<noteq> []" using assms(1) by auto
  then show "snd (snd (BlockBuildMerkleTree H xs)) = tree_upto H xs d @ lev H xs d" "fst (BlockBuildMerkleTree H xs) = lev H xs d ! 0"
    using b t assms(1) by (simp_all add: BlockBuildMerkleTree_def last_conv_nth nth_append)
qed

section \<open>Checking a branch\<close>

lemma node_index: "p < length xs \<Longrightarrow> p div 2 ^ i < length (lev H xs i)"
  unfolding length_lev using le_ceiling_mult [of "2 ^ i" "length xs"] by (intro less_mult_imp_div_less) simp

lemma root_from_branch_run:
  assumes "length (lev H xs d) = 1" "\<forall>i<d. 1 < length (lev H xs i)" "p < length xs" "p < 2 ^ 32" "i \<le> d"
  shows "root_from_branch H (lev H xs i ! (p div 2 ^ i)) (map (sib H xs p) [i..<d]) (drop_bit i (word_of_nat p)) = lev H xs d ! 0"
  using assms(5)
proof (induction "d - i" arbitrary: i)
  case 0
  then have "i = d" by simp
  then show ?case using node_index [OF assms(3), of d H] assms(1) by simp
next
  case (Suc k)
  then have i: "i < d" by simp
  let ?q = "p div 2 ^ i" and ?v = "lev H xs i"
  have q: "?q < length ?v" by (rule node_index) (rule assms)
  have q2: "p div 2 ^ Suc i = ?q div 2" by (simp add: div_mult2_eq [symmetric] mult.commute)
  have "odd (drop_bit i (word_of_nat p :: u32)) \<longleftrightarrow> bit p i" using bit_u32 [OF assms(4), of i] by (simp add: bit_iff_odd_drop_bit)
  then have b: "drop_bit i (word_of_nat p :: u32) AND 1 \<noteq> 0 \<longleftrightarrow> odd ?q"
    by (simp add: and_one_eq odd_iff_mod_2_eq_one bit_nat_div)
  have step: "(if odd ?q then merkle_hash H (sib H xs p i) (?v ! ?q) else merkle_hash H (?v ! ?q) (sib H xs p i)) = lev H xs (Suc i) ! (p div 2 ^ Suc i)"
  proof (cases "odd ?q")
    case True
    then obtain r where r: "?q = 2 * r + 1" using oddE by blast
    have "?q XOR 1 = 2 * r" "?q div 2 = r" "min (2 * r + 1) (length ?v - 1) = 2 * r + 1" "min (2 * r) (length ?v - 1) = 2 * r" "r < (length ?v + 1) div 2"
      unfolding xor_1 using r q by simp_all
    then show ?thesis using True r by (simp add: q2 sib_def level_up_nth del: power_Suc)
  next
    case False
    then obtain r where r: "?q = 2 * r" by blast
    have "?q XOR 1 = 2 * r + 1" "?q div 2 = r" "r < (length ?v + 1) div 2"
      unfolding xor_1 using r q by simp_all
    then show ?thesis using False r by (simp add: q2 sib_def level_up_nth del: power_Suc)
  qed
  have "root_from_branch H (lev H xs (Suc i) ! (p div 2 ^ Suc i)) (map (sib H xs p) [Suc i..<d]) (drop_bit (Suc i) (word_of_nat p)) = lev H xs d ! 0"
    using Suc.hyps(2) i by (intro Suc.hyps(1)) simp_all
  moreover have "drop_bit 1 (drop_bit i (word_of_nat p :: u32)) = drop_bit (Suc i) (word_of_nat p)" by (simp add: drop_bit_drop_bit)
  ultimately show ?case using i b step by (simp add: upt_conv_Cons del: lev.simps power_Suc)
qed

section \<open>Equal roots\<close>

definition hashed_pairs :: "hash_functions \<Rightarrow> uint256 list \<Rightarrow> (uint256 \<times> uint256) set" where
  \<comment> \<open>the pairs hashed on the way to the root\<close>
  "hashed_pairs H xs = {(lev H xs i ! (2 * k), lev H xs i ! min (2 * k + 1) (length (lev H xs i) - 1)) | i k. 1 < length (lev H xs i) \<and> 2 * k < length (lev H xs i)}"

lemma equal_children:
  assumes inj: "inj_on (\<lambda>(a, b). merkle_hash H a b) S" and S: "hashed_pairs H xs \<subseteq> S" "hashed_pairs H ys \<subseteq> S"
    and k: "k < length (lev H xs (Suc i))" "m < length (lev H ys (Suc i))"
    and e: "lev H xs (Suc i) ! k = lev H ys (Suc i) ! m" and l: "1 < length (lev H xs i)" "1 < length (lev H ys i)"
  shows "lev H xs i ! (2 * k) = lev H ys i ! (2 * m)"
    "lev H xs i ! min (2 * k + 1) (length (lev H xs i) - 1) = lev H ys i ! min (2 * m + 1) (length (lev H ys i) - 1)"
proof -
  let ?a = "(lev H xs i ! (2 * k), lev H xs i ! min (2 * k + 1) (length (lev H xs i) - 1))"
  let ?b = "(lev H ys i ! (2 * m), lev H ys i ! min (2 * m + 1) (length (lev H ys i) - 1))"
  have km: "2 * k < length (lev H xs i)" "2 * m < length (lev H ys i)" using k by auto
  then have "?a \<in> S" "?b \<in> S" using S l unfolding hashed_pairs_def by blast+
  moreover have "(\<lambda>(a, b). merkle_hash H a b) ?a = (\<lambda>(a, b). merkle_hash H a b) ?b"
    using e k by (simp add: level_up_nth)
  ultimately have "?a = ?b" by (rule inj_onD [OF inj, rotated])
  then show "lev H xs i ! (2 * k) = lev H ys i ! (2 * m)"
    "lev H xs i ! min (2 * k + 1) (length (lev H xs i) - 1) = lev H ys i ! min (2 * m + 1) (length (lev H ys i) - 1)" by simp_all
qed

lemma full_equals_partial:
  assumes inj: "inj_on (\<lambda>(a, b). merkle_hash H a b) S" and S: "hashed_pairs H xs \<subseteq> S"
  shows "(a + 1) * 2 ^ i \<le> length xs \<Longrightarrow> length xs < (b + 1) * 2 ^ i \<Longrightarrow> b < length (lev H xs i) \<Longrightarrow>
    lev H xs i ! a = lev H xs i ! b \<Longrightarrow> equal_pair H xs (length xs)"
proof (induction i arbitrary: a b)
  case (Suc i)
  have a: "(2 * a + 2) * 2 ^ i \<le> length xs" using Suc.prems(1) by (simp add: algebra_simps)
  have la: "a < length (lev H xs (Suc i))"
  proof -
    have "(a + 1) * 2 ^ Suc i \<le> length (lev H xs (Suc i)) * 2 ^ Suc i"
      using Suc.prems(1) le_ceiling_mult [of "2 ^ Suc i" "length xs"] by (simp add: length_lev del: lev.simps power_Suc)
    then show ?thesis using mult_le_cancel2 [of "a + 1" "2 ^ Suc i"] by simp
  qed
  have la': "2 * a + 1 < length (lev H xs i)"
  proof -
    have "(2 * a + 2) * 2 ^ i \<le> length (lev H xs i) * 2 ^ i"
      using a le_ceiling_mult [of "2 ^ i" "length xs"] by (simp add: length_lev del: lev.simps power_Suc)
    then show ?thesis using mult_le_cancel2 [of "2 * a + 2" "2 ^ i"] by simp
  qed
  have l1: "1 < length (lev H xs i)" using la' by simp
  note ch = equal_children [OF inj S S la Suc.prems(3,4) l1 l1]
  have ma: "min (2 * a + 1) (length (lev H xs i) - 1) = 2 * a + 1" using la' by simp
  have lb: "2 * b < length (lev H xs i)" using Suc.prems(3) by simp
  show ?case
  proof (cases "2 * b + 1 < length (lev H xs i)")
    case False
    then have "min (2 * b + 1) (length (lev H xs i) - 1) = 2 * b" using lb by simp
    then have "lev H xs i ! (2 * a) = lev H xs i ! (2 * a + 1)" using ch ma by simp
    then show ?thesis using a unfolding equal_pair_def by blast
  next
    case True
    then have "min (2 * b + 1) (length (lev H xs i) - 1) = 2 * b + 1" by simp
    then have e: "lev H xs i ! (2 * a + 1) = lev H xs i ! (2 * b + 1)" using ch ma by simp
    show ?thesis
      using a Suc.prems(2) by (intro Suc.IH [OF _ _ True e]) (simp_all add: algebra_simps)
  qed
next
  case 0
  then show ?case by simp
qed

lemma lev_down:
  assumes inj: "inj_on (\<lambda>(a, b). merkle_hash H a b) S" and S: "hashed_pairs H xs \<subseteq> S" "hashed_pairs H ys \<subseteq> S"
    and e: "lev H xs (Suc i) = lev H ys (Suc i)" and m: "\<not> equal_pair H xs (length xs)"
    and l: "1 < length (lev H xs i)" "1 < length (lev H ys i)"
  shows "length (lev H xs i) \<le> length (lev H ys i)"
proof (rule ccontr)
  assume "\<not> length (lev H xs i) \<le> length (lev H ys i)"
  moreover have "(length (lev H xs i) + 1) div 2 = (length (lev H ys i) + 1) div 2" using arg_cong [OF e, of length] by simp
  moreover have "b < a \<Longrightarrow> (a + 1) div 2 = (b + 1) div 2 \<Longrightarrow> \<exists>k. a = 2 * k + 2 \<and> b = 2 * k + 1" for a b :: nat by presburger
  ultimately obtain k where k: "length (lev H xs i) = 2 * k + 2" "length (lev H ys i) = 2 * k + 1" by (meson not_le)
  have c: "lev H xs i ! (2 * k) = lev H xs i ! (2 * k + 1)"
    using equal_children [OF inj S, of k i k] e k l by simp
  have full: "(2 * k + 1) * 2 ^ i \<le> length xs"
  proof -
    have "(length xs + 2 ^ i - 1) div 2 ^ i = 2 * k + 2" using k(1) by (simp add: length_lev)
    then have "(2 * k + 2) * 2 ^ i \<le> length xs + 2 ^ i - 1" by (metis div_times_less_eq_dividend)
    then show ?thesis using one_le_power [of "2 :: nat" i] by (simp add: algebra_simps)
  qed
  show False
  proof (cases "(2 * k + 2) * 2 ^ i \<le> length xs")
    case True
    then show ?thesis using c m unfolding equal_pair_def by blast
  next
    case False
    then show ?thesis using full_equals_partial [OF inj S(1), of "2 * k" i "2 * k + 1"] full k(1) c m by simp
  qed
qed

lemma root_level_injective:
  assumes inj: "inj_on (\<lambda>(a, b). merkle_hash H a b) S" and S: "hashed_pairs H xs \<subseteq> S" "hashed_pairs H ys \<subseteq> S"
    and e: "lev H xs i = lev H ys i" and m: "\<not> equal_pair H xs (length xs)" "\<not> equal_pair H ys (length ys)"
    and low: "\<forall>j<i. 1 < length (lev H xs j)" "\<forall>j<i. 1 < length (lev H ys j)"
  shows "xs = ys"
  using e low
proof (induction i)
  case (Suc i)
  have len: "length (lev H xs i) = length (lev H ys i)"
    using lev_down [OF inj S Suc.prems(1) m(1)] lev_down [OF inj S(2,1) Suc.prems(1) [symmetric] m(2)] Suc.prems(2,3) by simp
  have "lev H xs i ! k = lev H ys i ! k" if k: "k < length (lev H xs i)" for k
  proof -
    have h: "k div 2 < length (lev H xs (Suc i))" "k div 2 < length (lev H ys (Suc i))" using k len by auto
    have eq: "lev H xs (Suc i) ! (k div 2) = lev H ys (Suc i) ! (k div 2)" using Suc.prems(1) by simp
    have l1: "1 < length (lev H xs i)" "1 < length (lev H ys i)" using Suc.prems(2,3) by simp_all
    note ch = equal_children [OF inj S h eq l1]
    show ?thesis
    proof (cases "even k")
      case True
      then show ?thesis using ch(1) by simp
    next
      case False
      then have "2 * (k div 2) + 1 = k" by simp
      moreover have "min k (length (lev H xs i) - 1) = k" "min k (length (lev H ys i) - 1) = k" using k len by simp_all
      ultimately show ?thesis using ch(2) by simp
    qed
  qed
  then have "lev H xs i = lev H ys i" using len by (metis nth_equalityI)
  then show ?case using Suc.prems(2,3) by (intro Suc.IH) simp_all
qed simp

text \<open>C30: the single pass of \<open>MerkleComputation\<close> agrees with the construction level by level: for up to 2^31
  leaves the root is the root of the tree built by \<open>BlockBuildMerkleTree\<close>, the branch of every leaf is
  the one read off that tree by \<open>BlockGetMerkleBranch\<close>, folding a branch over its leaf with
  \<open>ComputeMerkleRootFromBranch\<close> gives the root back, and \<open>mutated\<close> is set exactly when
  somewhere in the tree two sibling subtrees, both full, have the same hash.\<close>

theorem merkle_is_levelwise:
  assumes "length leaves \<le> 2 ^ 31"
  shows "fst (ComputeMerkleRoot H leaves) = fst (BlockBuildMerkleTree H leaves) \<and>
    (snd (ComputeMerkleRoot H leaves) \<longleftrightarrow>
       (\<exists>i j. (2 * j + 2) * 2 ^ i \<le> length leaves \<and> lev H leaves i ! (2 * j) = lev H leaves i ! (2 * j + 1))) \<and>
    (\<forall>position < length leaves. ComputeMerkleBranch H leaves (word_of_nat position) =
       BlockGetMerkleBranch leaves (snd (snd (BlockBuildMerkleTree H leaves))) position \<and>
       ComputeMerkleRootFromBranch H (leaves ! position) (ComputeMerkleBranch H leaves (word_of_nat position)) (word_of_nat position) =
         fst (ComputeMerkleRoot H leaves))"
proof (cases "leaves = []")
  case True
  then show ?thesis
    by (simp add: ComputeMerkleRoot_def MerkleComputation_def BlockBuildMerkleTree_def build_loop.simps)
next
  case False
  obtain d where d: "length (lev H leaves d) = 1" "\<forall>i<d. 1 < length (lev H leaves i)"
    and r: "fst (ComputeMerkleRoot H leaves) = lev H leaves d ! 0" "snd (ComputeMerkleRoot H leaves) = equal_pair H leaves (length leaves)"
    using ComputeMerkleRoot_run [OF assms False] by blast
  have "ComputeMerkleBranch H leaves (word_of_nat p) = BlockGetMerkleBranch leaves (snd (snd (BlockBuildMerkleTree H leaves))) p \<and>
      ComputeMerkleRootFromBranch H (leaves ! p) (ComputeMerkleBranch H leaves (word_of_nat p)) (word_of_nat p) = fst (ComputeMerkleRoot H leaves)"
    if p: "p < length leaves" for p
  proof -
    have "p < 2 ^ 32" using p assms by simp
    then have "root_from_branch H (leaves ! p) (map (sib H leaves p) [0..<d]) (word_of_nat p) = lev H leaves d ! 0"
      using root_from_branch_run [OF d p, of 0] by simp
    moreover have "ComputeMerkleBranch H leaves (word_of_nat p) = map (sib H leaves p) [0..<d]"
      by (rule ComputeMerkleBranch_run [OF assms p d])
    ultimately show ?thesis using r(1)
      old_branch_run [OF BlockBuildMerkleTree_run(1) [OF d] d le0 refl p] by (simp add: BlockGetMerkleBranch_def ComputeMerkleRootFromBranch_def tree_upto_def)
  qed
  moreover have "fst (ComputeMerkleRoot H leaves) = fst (BlockBuildMerkleTree H leaves)"
    using r(1) BlockBuildMerkleTree_run(2) [OF d] by simp
  ultimately show ?thesis using r(2) unfolding equal_pair_def by blast
qed

lemma merkle_is_levelwise_witness:
  "fst (ComputeMerkleRoot \<lparr>CRIPEMD160 = id, CSHA1 = id, CSHA256 = id, CheckLowS = (\<lambda>_. True)\<rparr> [[1], [2], [3]]) = [1, 2, 3, 3] \<and>
   ComputeMerkleRootFromBranch \<lparr>CRIPEMD160 = id, CSHA1 = id, CSHA256 = id, CheckLowS = (\<lambda>_. True)\<rparr> [3]
     (ComputeMerkleBranch \<lparr>CRIPEMD160 = id, CSHA1 = id, CSHA256 = id, CheckLowS = (\<lambda>_. True)\<rparr> [[1], [2], [3]] 2) 2 = [1, 2, 3, 3]"
proof -
  let ?H = "\<lparr>CRIPEMD160 = id, CSHA1 = id, CSHA256 = id, CheckLowS = (\<lambda>_. True)\<rparr> :: hash_functions"
  have "fst (BlockBuildMerkleTree ?H [[1], [2], [3]]) = [1, 2, 3, 3]" by code_simp
  then show ?thesis using merkle_is_levelwise [of "[[1], [2], [3]]" ?H] by (auto dest: spec [of _ 2])
qed

text \<open>C11: a Merkle root binds its transactions.  Two non-empty lists of up to 2^31 leaves with trees of the same
  height, for neither of which \<open>mutated\<close> is set, have the same root only if they are equal, unless two
  different pairs hashed on the way collide: duplicating a tail of the list (CVE-2012-2459) is always
  noticed.\<close>

theorem merkle_root_binds:
  assumes "length xs \<le> 2 ^ 31" "length ys \<le> 2 ^ 31" "xs \<noteq> []" "ys \<noteq> []"
    and "ComputeMerkleRoot H xs = (root, False)" "ComputeMerkleRoot H ys = (root, False)"
    and "length (ComputeMerkleBranch H xs 0) = length (ComputeMerkleBranch H ys 0)"
    and "inj_on (\<lambda>(a, b). merkle_hash H a b) (hashed_pairs H xs \<union> hashed_pairs H ys)"
  shows "xs = ys"
proof -
  obtain d where d: "length (lev H xs d) = 1" "\<forall>i<d. 1 < length (lev H xs i)"
    and x: "fst (ComputeMerkleRoot H xs) = lev H xs d ! 0" "snd (ComputeMerkleRoot H xs) = equal_pair H xs (length xs)"
    using ComputeMerkleRoot_run [OF assms(1,3)] by blast
  obtain e where e: "length (lev H ys e) = 1" "\<forall>i<e. 1 < length (lev H ys i)"
    and y: "fst (ComputeMerkleRoot H ys) = lev H ys e ! 0" "snd (ComputeMerkleRoot H ys) = equal_pair H ys (length ys)"
    using ComputeMerkleRoot_run [OF assms(2,4)] by blast
  have "ComputeMerkleBranch H xs 0 = map (sib H xs 0) [0..<d]" "ComputeMerkleBranch H ys 0 = map (sib H ys 0) [0..<e]"
    using ComputeMerkleBranch_run [OF assms(1) _ d, of 0] ComputeMerkleBranch_run [OF assms(2) _ e, of 0] assms(3,4) by simp_all
  then have de: "d = e" using assms(7) by simp
  have "lev H xs d = lev H ys d"
    using d(1) e(1) x(1) y(1) assms(5,6) unfolding de by (intro nth_equalityI) auto
  then show ?thesis
    using root_level_injective [OF assms(8) Un_upper1 Un_upper2 _ _ _ d(2)] x(2) y(2) assms(5,6) e(2) de by simp
qed

lemma merkle_root_binds_witness:
  "ComputeMerkleRoot \<lparr>CRIPEMD160 = id, CSHA1 = id, CSHA256 = id, CheckLowS = (\<lambda>_. True)\<rparr> [[1], [2], [3]] = ([1, 2, 3, 3], False) \<and>
   inj_on (\<lambda>(a, b). merkle_hash \<lparr>CRIPEMD160 = id, CSHA1 = id, CSHA256 = id, CheckLowS = (\<lambda>_. True)\<rparr> a b)
     {([1], [2]), ([3], [3]), ([1, 2], [3, 3])} \<and> [[1], [2], [3]] = ([[1], [2], [3]] :: uint256 list)"
proof -
  let ?H = "\<lparr>CRIPEMD160 = id, CSHA1 = id, CSHA256 = id, CheckLowS = (\<lambda>_. True)\<rparr> :: hash_functions" and ?xs = "[[1], [2], [3]] :: uint256 list"
  have r: "ComputeMerkleRoot ?H ?xs = ([1, 2, 3, 3], False)" by code_simp
  have l: "lev ?H ?xs 1 = [[1, 2], [3, 3]]" by code_simp
  have l2: "length (lev ?H ?xs (n + 2)) = 1" for n
  proof (induction n)
    case 0
    show ?case by code_simp
  qed simp
  have inj: "inj_on (\<lambda>(a, b). merkle_hash ?H a b) {([1], [2]), ([3], [3]), ([1, 2], [3, 3])}"
    by (simp add: inj_on_def merkle_hash_def CHash256_def)
  moreover have "hashed_pairs ?H ?xs \<subseteq> {([1], [2]), ([3], [3]), ([1, 2], [3, 3])}"
  proof
    fix x assume "x \<in> hashed_pairs ?H ?xs"
    then obtain i k where x: "x = (lev ?H ?xs i ! (2 * k), lev ?H ?xs i ! min (2 * k + 1) (length (lev ?H ?xs i) - 1))"
      "1 < length (lev ?H ?xs i)" "2 * k < length (lev ?H ?xs i)" unfolding hashed_pairs_def by blast
    have "i < 2"
    proof (rule ccontr)
      assume "\<not> i < 2"
      then have "i - 2 + 2 = i" by simp
      then show False using l2 [of "i - 2"] x(2) by simp
    qed
    then consider "i = 0" "k = 0" | "i = 0" "k = 1" | "i = 1" "k = 0" using x(3) l by (cases i; cases k) auto
    then show "x \<in> {([1], [2]), ([3], [3]), ([1, 2], [3, 3])}" using x(1) l by cases simp_all
  qed
  then have "inj_on (\<lambda>(a, b). merkle_hash ?H a b) (hashed_pairs ?H ?xs \<union> hashed_pairs ?H ?xs)"
    using inj_on_subset [OF inj] by simp
  then have "?xs = ?xs" using r by (intro merkle_root_binds [of ?xs ?xs ?H "[1, 2, 3, 3]"]) simp_all
  then show ?thesis using r inj by blast
qed

end
