(* ===== verification/Spork.thy ===== *)
theory Spork
  imports PubKey Transaction
begin

text \<open>
  Network-wide switches: spork.h and spork.cpp, with \<open>CDarkSendSigner::VerifyMessage\<close>
  (darksend.cpp), which checks their signatures.  A spork is on when its value, a time, has passed.
  Parameters: the public key that libsecp256k1 recovers from a compact signature, the signing with the
  master key, and the clock.
\<close>

section \<open>Decimal numbers\<close>

function dec_nat :: "nat \<Rightarrow> string" where
  "dec_nat n = (if n < 10 then [char_of (48 + n)] else dec_nat (n div 10) @ [char_of (48 + n mod 10)])"
  by pat_completeness auto
termination by (relation "measure id") auto

declare dec_nat.simps [simp del]

definition lexical_cast_int :: "int \<Rightarrow> string" where
  \<comment> \<open>\<open>boost::lexical_cast<std::string>\<close> of an integer\<close>
  "lexical_cast_int i = (if i < 0 then CHR ''-'' # dec_nat (nat (- i)) else dec_nat (nat i))"

section \<open>Signed messages\<close>

definition string_bytes :: "string \<Rightarrow> bytes" where
  "string_bytes s = map of_char s"

definition strMessageMagic :: string where
  "strMessageMagic = ''ProtonCoin Signed Message:'' @ [CHR 0x0A]"

type_synonym recover = "uint256 \<Rightarrow> bytes \<Rightarrow> CPubKey option"  \<comment> \<open>\<open>CPubKey::RecoverCompact\<close>\<close>

definition VerifyMessage :: "hash_functions \<Rightarrow> recover \<Rightarrow> CPubKey \<Rightarrow> bytes \<Rightarrow> string \<Rightarrow> bool" where
  "VerifyMessage H rc pubkey vchSig strMessage =
     (case rc (CHash256 H (ser_bytes (string_bytes strMessageMagic) @ ser_bytes (string_bytes strMessage))) vchSig of
        None \<Rightarrow> False
      | Some pubkeyFromSig \<Rightarrow> pubkey_GetID H pubkeyFromSig = pubkey_GetID H pubkey)"

section \<open>Sporks\<close>

definition SPORK_START :: int where "SPORK_START = 10001"
definition SPORK_END :: int where "SPORK_END = 10014"
definition SPORK_2_INSTANTSEND_ENABLED :: int where "SPORK_2_INSTANTSEND_ENABLED = 10001"
definition SPORK_3_INSTANTSEND_BLOCK_FILTERING :: int where "SPORK_3_INSTANTSEND_BLOCK_FILTERING = 10002"
definition SPORK_5_INSTANTSEND_MAX_VALUE :: int where "SPORK_5_INSTANTSEND_MAX_VALUE = 10004"
definition SPORK_8_MASTERNODE_PAYMENT_ENFORCEMENT :: int where "SPORK_8_MASTERNODE_PAYMENT_ENFORCEMENT = 10007"
definition SPORK_9_SUPERBLOCKS_ENABLED :: int where "SPORK_9_SUPERBLOCKS_ENABLED = 10008"
definition SPORK_10_MASTERNODE_PAY_UPDATED_NODES :: int where "SPORK_10_MASTERNODE_PAY_UPDATED_NODES = 10009"
definition SPORK_12_RECONSIDER_BLOCKS :: int where "SPORK_12_RECONSIDER_BLOCKS = 10011"
definition SPORK_13_OLD_SUPERBLOCK_FLAG :: int where "SPORK_13_OLD_SUPERBLOCK_FLAG = 10012"
definition SPORK_14_REQUIRE_SENTINEL_FLAG :: int where "SPORK_14_REQUIRE_SENTINEL_FLAG = 10013"
definition SPORK_15_FOUNDER_PAYMENT_ENFORCEMENT :: int where "SPORK_15_FOUNDER_PAYMENT_ENFORCEMENT = 10014"
definition SPORK_16_KILL_STRAGGLERS :: int where "SPORK_16_KILL_STRAGGLERS = 10015"

lemmas spork_ids = SPORK_START_def SPORK_END_def SPORK_2_INSTANTSEND_ENABLED_def
  SPORK_3_INSTANTSEND_BLOCK_FILTERING_def SPORK_5_INSTANTSEND_MAX_VALUE_def
  SPORK_8_MASTERNODE_PAYMENT_ENFORCEMENT_def SPORK_9_SUPERBLOCKS_ENABLED_def
  SPORK_10_MASTERNODE_PAY_UPDATED_NODES_def SPORK_12_RECONSIDER_BLOCKS_def
  SPORK_13_OLD_SUPERBLOCK_FLAG_def SPORK_14_REQUIRE_SENTINEL_FLAG_def
  SPORK_15_FOUNDER_PAYMENT_ENFORCEMENT_def SPORK_16_KILL_STRAGGLERS_def

record CSporkMessage =
  sp_vchSig :: bytes
  nSporkID :: int
  sp_nValue :: int
  nTimeSigned :: int

definition ser_spork :: "CSporkMessage \<Rightarrow> bytes" where
  "ser_spork m =
     ser_writedata32 (word_of_int (nSporkID m)) @ ser_writedata64 (word_of_int (sp_nValue m)) @
     ser_writedata64 (word_of_int (nTimeSigned m)) @ ser_bytes (sp_vchSig m)"

definition spork_GetHash :: "hash_functions \<Rightarrow> CSporkMessage \<Rightarrow> uint256" where
  \<comment> \<open>the signature is not hashed\<close>
  "spork_GetHash H m =
     CHash256 H (ser_writedata32 (word_of_int (nSporkID m)) @ ser_writedata64 (word_of_int (sp_nValue m)) @
       ser_writedata64 (word_of_int (nTimeSigned m)))"

definition spork_strMessage :: "CSporkMessage \<Rightarrow> string" where
  "spork_strMessage m = lexical_cast_int (nSporkID m) @ lexical_cast_int (sp_nValue m) @ lexical_cast_int (nTimeSigned m)"

definition spork_CheckSignature :: "hash_functions \<Rightarrow> recover \<Rightarrow> CPubKey \<Rightarrow> CSporkMessage \<Rightarrow> bool" where
  \<comment> \<open>the key is \<open>ParseHex(Params().SporkPubKey())\<close>\<close>
  "spork_CheckSignature H rc pubkey m = VerifyMessage H rc pubkey (sp_vchSig m) (spork_strMessage m)"

definition spork_Sign ::
  "hash_functions \<Rightarrow> recover \<Rightarrow> (string \<Rightarrow> (string \<Rightarrow> bytes option) \<times> CPubKey) \<Rightarrow> string \<Rightarrow> CSporkMessage \<Rightarrow> bool \<times> CSporkMessage" where
  \<comment> \<open>the keys of a secret sign a message, or fail to: \<open>GetKeysFromSecret\<close>, \<open>SignMessage\<close>\<close>
  "spork_Sign H rc keys strSignKey m =
     (case fst (keys strSignKey) (spork_strMessage m) of
        None \<Rightarrow> (False, m)
      | Some sig \<Rightarrow>
          let m' = m\<lparr>sp_vchSig := sig\<rparr>
          in (VerifyMessage H rc (snd (keys strSignKey)) sig (spork_strMessage m), m'))"

record CSporkManager =
  strMasterPrivKey :: string
  mapSporksActive :: "int \<Rightarrow> CSporkMessage option"
  mapSporks :: "uint256 \<Rightarrow> CSporkMessage option"
  nTimeExecuted :: int  \<comment> \<open>static of \<open>ExecuteSpork\<close>\<close>

datatype spork_effect = Relay uint256 | Misbehaving int | ReprocessBlocks int

definition ExecuteSpork :: "int \<Rightarrow> int \<Rightarrow> int \<Rightarrow> CSporkManager \<Rightarrow> CSporkManager \<times> spork_effect list" where
  \<comment> \<open>the value arrives as an \<open>int\<close>; \<open>now\<close> is \<open>GetTime()\<close>\<close>
  "ExecuteSpork now sid value st =
     (let value = sint (word_of_int value :: u32) in
      if sid = SPORK_12_RECONSIDER_BLOCKS \<and> value > 0
      then if now - nTimeExecuted st < 10 * 60 then (st, [])
           else if value > 360 then (st, [])
           else (st\<lparr>nTimeExecuted := now\<rparr>, [ReprocessBlocks value])
      else (st, []))"

definition ProcessSpork ::
  "hash_functions \<Rightarrow> recover \<Rightarrow> CPubKey \<Rightarrow> bool \<Rightarrow> bool \<Rightarrow> int \<Rightarrow> CSporkMessage \<Rightarrow> CSporkManager \<Rightarrow> CSporkManager \<times> spork_effect list" where
  \<comment> \<open>a \<open>SPORK\<close> message; \<open>tip\<close>: the active chain has a block\<close>
  "ProcessSpork H rc pubkey fLiteMode tip now spork st =
     (if fLiteMode then (st, [])
      else if \<not> tip then (st, [])
      else if (case mapSporksActive st (nSporkID spork) of None \<Rightarrow> False | Some old \<Rightarrow> nTimeSigned old \<ge> nTimeSigned spork)
      then (st, [])
      else if \<not> spork_CheckSignature H rc pubkey spork then (st, [Misbehaving 100])
      else let hash = spork_GetHash H spork;
               st = st\<lparr>mapSporks := (mapSporks st)(hash \<mapsto> spork),
                       mapSporksActive := (mapSporksActive st)(nSporkID spork \<mapsto> spork)\<rparr>;
               e = ExecuteSpork now (nSporkID spork) (sp_nValue spork) st
           in (fst e, Relay hash # snd e))"

definition UpdateSpork ::
  "hash_functions \<Rightarrow> recover \<Rightarrow> (string \<Rightarrow> (string \<Rightarrow> bytes option) \<times> CPubKey) \<Rightarrow> int \<Rightarrow> int \<Rightarrow> int \<Rightarrow> CSporkManager \<Rightarrow>
   bool \<times> CSporkManager \<times> spork_effect list" where
  "UpdateSpork H rc keys now sid value st =
     (case spork_Sign H rc keys (strMasterPrivKey st) \<lparr>sp_vchSig = [], nSporkID = sid, sp_nValue = value, nTimeSigned = now\<rparr> of
        (False, _) \<Rightarrow> (False, st, [])
      | (True, spork) \<Rightarrow>
          (True, st\<lparr>mapSporks := (mapSporks st)(spork_GetHash H spork \<mapsto> spork),
                    mapSporksActive := (mapSporksActive st)(sid \<mapsto> spork)\<rparr>, [Relay (spork_GetHash H spork)]))"

definition SetPrivKey ::
  "hash_functions \<Rightarrow> recover \<Rightarrow> CPubKey \<Rightarrow> (string \<Rightarrow> (string \<Rightarrow> bytes option) \<times> CPubKey) \<Rightarrow> string \<Rightarrow> CSporkManager \<Rightarrow> bool \<times> CSporkManager" where
  "SetPrivKey H rc pubkey keys strPrivKey st =
     (let spork = snd (spork_Sign H rc keys strPrivKey \<lparr>sp_vchSig = [], nSporkID = 0, sp_nValue = 0, nTimeSigned = 0\<rparr>)
      in if spork_CheckSignature H rc pubkey spork then (True, st\<lparr>strMasterPrivKey := strPrivKey\<rparr>) else (False, st))"

definition spork_defaults :: "(int \<times> int) list" where
  "spork_defaults =
     [(SPORK_2_INSTANTSEND_ENABLED, 0), (SPORK_3_INSTANTSEND_BLOCK_FILTERING, 0), (SPORK_5_INSTANTSEND_MAX_VALUE, 1000),
      (SPORK_8_MASTERNODE_PAYMENT_ENFORCEMENT, 1516803600), (SPORK_9_SUPERBLOCKS_ENABLED, 4070908800),
      (SPORK_10_MASTERNODE_PAY_UPDATED_NODES, 4070908800), (SPORK_12_RECONSIDER_BLOCKS, 0),
      (SPORK_13_OLD_SUPERBLOCK_FLAG, 4070908800), (SPORK_14_REQUIRE_SENTINEL_FLAG, 4070908800),
      (SPORK_15_FOUNDER_PAYMENT_ENFORCEMENT, 4070908800), (SPORK_16_KILL_STRAGGLERS, 420420)]"

definition IsSporkActive :: "CSporkManager \<Rightarrow> int \<Rightarrow> int \<Rightarrow> bool" where
  "IsSporkActive st now sid \<longleftrightarrow>
     (case mapSporksActive st sid of
        Some m \<Rightarrow> sp_nValue m
      | None \<Rightarrow> (case map_of spork_defaults sid of Some r \<Rightarrow> r | None \<Rightarrow> 4070908800)) < now"

definition GetSporkValue :: "CSporkManager \<Rightarrow> int \<Rightarrow> int" where
  "GetSporkValue st sid =
     (case mapSporksActive st sid of
        Some m \<Rightarrow> sp_nValue m
      | None \<Rightarrow> (case map_of spork_defaults sid of Some r \<Rightarrow> r | None \<Rightarrow> - 1))"

definition spork_names :: "(int \<times> string) list" where
  "spork_names =
     [(SPORK_2_INSTANTSEND_ENABLED, ''SPORK_2_INSTANTSEND_ENABLED''),
      (SPORK_3_INSTANTSEND_BLOCK_FILTERING, ''SPORK_3_INSTANTSEND_BLOCK_FILTERING''),
      (SPORK_5_INSTANTSEND_MAX_VALUE, ''SPORK_5_INSTANTSEND_MAX_VALUE''),
      (SPORK_8_MASTERNODE_PAYMENT_ENFORCEMENT, ''SPORK_8_MASTERNODE_PAYMENT_ENFORCEMENT''),
      (SPORK_9_SUPERBLOCKS_ENABLED, ''SPORK_9_SUPERBLOCKS_ENABLED''),
      (SPORK_10_MASTERNODE_PAY_UPDATED_NODES, ''SPORK_10_MASTERNODE_PAY_UPDATED_NODES''),
      (SPORK_12_RECONSIDER_BLOCKS, ''SPORK_12_RECONSIDER_BLOCKS''),
      (SPORK_13_OLD_SUPERBLOCK_FLAG, ''SPORK_13_OLD_SUPERBLOCK_FLAG''),
      (SPORK_14_REQUIRE_SENTINEL_FLAG, ''SPORK_14_REQUIRE_SENTINEL_FLAG''),
      (SPORK_15_FOUNDER_PAYMENT_ENFORCEMENT, ''SPORK_15_FOUNDER_PAYMENT_ENFORCEMENT''),
      (SPORK_16_KILL_STRAGGLERS, ''SPORK_16_KILL_STRAGGLERS'')]"

definition GetSporkIDByName :: "string \<Rightarrow> int" where
  "GetSporkIDByName strName = (case find (\<lambda>(i, n). n = strName) spork_names of Some (i, n) \<Rightarrow> i | None \<Rightarrow> - 1)"

definition GetSporkNameByID :: "int \<Rightarrow> string" where
  "GetSporkNameByID sid = (case map_of spork_names sid of Some n \<Rightarrow> n | None \<Rightarrow> ''Unknown'')"

definition ProcessSporks ::
  "hash_functions \<Rightarrow> recover \<Rightarrow> CPubKey \<Rightarrow> int \<Rightarrow> CSporkMessage list \<Rightarrow> CSporkManager \<Rightarrow> CSporkManager" where
  \<comment> \<open>the messages a node receives, in order\<close>
  "ProcessSporks H rc pubkey now ms st = foldl (\<lambda>st m. fst (ProcessSpork H rc pubkey False True now m st)) st ms"

section \<open>Which message is active\<close>

definition newest :: "(CSporkMessage \<Rightarrow> bool) \<Rightarrow> CSporkMessage set \<Rightarrow> (int \<Rightarrow> CSporkMessage option) \<Rightarrow> bool" where
  \<comment> \<open>each active message is a verified one with the latest time\<close>
  "newest V M act \<longleftrightarrow>
     (\<forall>sid m. act sid = Some m \<longrightarrow> m \<in> M \<and> V m \<and> nSporkID m = sid) \<and>
     (\<forall>m \<in> M. V m \<longrightarrow> (\<exists>a. act (nSporkID m) = Some a \<and> nTimeSigned m \<le> nTimeSigned a))"

lemma ProcessSpork_active:
  "mapSporksActive (fst (ProcessSpork H rc pk False True now m st)) =
     (if (case mapSporksActive st (nSporkID m) of None \<Rightarrow> False | Some old \<Rightarrow> nTimeSigned old \<ge> nTimeSigned m) \<or>
         \<not> spork_CheckSignature H rc pk m
      then mapSporksActive st else (mapSporksActive st)(nSporkID m \<mapsto> m))"
  by (simp add: ProcessSpork_def ExecuteSpork_def Let_def)

lemma ProcessSpork_newest:
  assumes "newest (spork_CheckSignature H rc pk) M (mapSporksActive st)"
  shows "newest (spork_CheckSignature H rc pk) (insert m M) (mapSporksActive (fst (ProcessSpork H rc pk False True now m st)))"
proof (cases "(case mapSporksActive st (nSporkID m) of None \<Rightarrow> False | Some old \<Rightarrow> nTimeSigned old \<ge> nTimeSigned m) \<or>
    \<not> spork_CheckSignature H rc pk m")
  case True
  then show ?thesis using assms by (auto simp: ProcessSpork_active newest_def split: option.splits)
next
  case False
  then have "nTimeSigned a \<le> nTimeSigned m" if "mapSporksActive st (nSporkID m) = Some a" for a using that by auto
  then show ?thesis using assms False unfolding ProcessSpork_active newest_def by (fastforce split: if_splits)
qed

lemma processed_newest:
  "newest (spork_CheckSignature H rc pk) M (mapSporksActive st) \<Longrightarrow>
   newest (spork_CheckSignature H rc pk) (M \<union> set ms) (mapSporksActive (ProcessSporks H rc pk now ms st))"
  unfolding ProcessSporks_def
proof (induction ms arbitrary: st M)
  case (Cons m ms)
  show ?case using Cons.IH [OF ProcessSpork_newest [OF Cons.prems, of m now]] by simp
qed simp

lemma newest_unique:
  assumes "newest V M act" "newest V M act'"
    and "\<forall>m \<in> M. \<forall>m' \<in> M. V m \<longrightarrow> V m' \<longrightarrow> nSporkID m = nSporkID m' \<longrightarrow> nTimeSigned m = nTimeSigned m' \<longrightarrow> m = m'"
  shows "act = act'"
proof
  fix sid
  show "act sid = act' sid"
  proof (cases "act sid")
    case None
    show ?thesis
    proof (cases "act' sid")
      case (Some b)
      then show ?thesis using assms(1,2) None unfolding newest_def by (metis option.distinct(1))
    qed (use None in simp)
  next
    case (Some a)
    then have a: "a \<in> M" "V a" "nSporkID a = sid" using assms(1) unfolding newest_def by blast+
    then obtain b where b: "act' sid = Some b" "nTimeSigned a \<le> nTimeSigned b" using assms(2) unfolding newest_def by blast
    then have b': "b \<in> M" "V b" "nSporkID b = sid" using assms(2) unfolding newest_def by blast+
    then have "nTimeSigned b \<le> nTimeSigned a" using assms(1) Some unfolding newest_def by (metis option.inject)
    then show ?thesis using assms(3) a b b' Some by (metis order.antisym)
  qed
qed

section \<open>Properties\<close>

text \<open>C32: nodes agree on the sporks.  After any messages, in any order and with any repetitions, a node's active
  message for an identifier is a validly signed one it received with the latest signing time; so two
  nodes that have received the same messages agree on every spork, if no two valid messages for one spork
  carry the same time.\<close>

theorem sporks_converge:
  assumes "mapSporksActive st = (\<lambda>_. None)" "mapSporksActive st' = (\<lambda>_. None)" "set ms = set ms'"
    and "\<forall>m \<in> set ms. \<forall>m' \<in> set ms. spork_CheckSignature H rc pk m \<longrightarrow> spork_CheckSignature H rc pk m' \<longrightarrow>
      nSporkID m = nSporkID m' \<longrightarrow> nTimeSigned m = nTimeSigned m' \<longrightarrow> m = m'"
  shows "mapSporksActive (ProcessSporks H rc pk t ms st) = mapSporksActive (ProcessSporks H rc pk t' ms' st') \<and>
    newest (spork_CheckSignature H rc pk) (set ms) (mapSporksActive (ProcessSporks H rc pk t ms st))"
proof -
  have n: "newest (spork_CheckSignature H rc pk) {} (\<lambda>_. None)" by (simp add: newest_def)
  have "newest (spork_CheckSignature H rc pk) (set ms) (mapSporksActive (ProcessSporks H rc pk t ms st))"
    using processed_newest [of H rc pk "{}" st ms t] n assms(1) by simp
  moreover have "newest (spork_CheckSignature H rc pk) (set ms) (mapSporksActive (ProcessSporks H rc pk t' ms' st'))"
    using processed_newest [of H rc pk "{}" st' ms' t'] n assms(2,3) by simp
  ultimately show ?thesis using newest_unique assms(4) by blast
qed

definition sample_hashes :: hash_functions where
  "sample_hashes = \<lparr>CRIPEMD160 = id, CSHA1 = id, CSHA256 = id, CheckLowS = (\<lambda>_. True)\<rparr>"

definition sample_spork :: "int \<Rightarrow> int \<Rightarrow> int \<Rightarrow> CSporkMessage" where
  "sample_spork k v t = \<lparr>sp_vchSig = [1], nSporkID = k, sp_nValue = v, nTimeSigned = t\<rparr>"

definition sample_manager :: "(int \<Rightarrow> CSporkMessage option) \<Rightarrow> CSporkManager" where
  "sample_manager act = \<lparr>strMasterPrivKey = [], mapSporksActive = act, mapSporks = (\<lambda>_. None), nTimeExecuted = 0\<rparr>"

lemma sporks_converge_witness:
  "mapSporksActive (ProcessSporks sample_hashes (\<lambda>_ _. Some [2]) [2] 9 [sample_spork 10008 6 8, sample_spork 10008 5 7, sample_spork 10008 6 8]
     (sample_manager (\<lambda>_. None))) 10008 = Some (sample_spork 10008 6 8)"
proof -
  let ?a = "sample_spork 10008 5 7" and ?b = "sample_spork 10008 6 8"
  have n: "nTimeSigned ?a \<noteq> nTimeSigned ?b" by (simp add: sample_spork_def)
  have r: "mapSporksActive (ProcessSporks sample_hashes (\<lambda>_ _. Some [2]) [2] 9 [?a, ?b] (sample_manager (\<lambda>_. None))) 10008 = Some ?b"
    by (simp add: ProcessSporks_def ProcessSpork_active spork_CheckSignature_def VerifyMessage_def sample_spork_def sample_manager_def)
  have "mapSporksActive (ProcessSporks sample_hashes (\<lambda>_ _. Some [2]) [2] 9 [?a, ?b] (sample_manager (\<lambda>_. None))) =
      mapSporksActive (ProcessSporks sample_hashes (\<lambda>_ _. Some [2]) [2] 9 [?b, ?a, ?b] (sample_manager (\<lambda>_. None)))"
    using n by (intro conjunct1 [OF sporks_converge]) (auto simp: sample_manager_def)
  then show ?thesis using r by simp
qed

text \<open>C33: a spork's signature does not determine the spork.  The signed string has no separators, so whoever has seen
  the signature of one message can change its value and move the rest of the digits into its time: the
  forged message is valid, replaces the genuine one, and no honest message signed at a later date
  replaces it again.  Here the genuine message turns the enforcement of masternode payments on at
  1516803600; the forged one sets the value to 1 with a time far in the future.\<close>

theorem spork_signature_replay:
  assumes "spork_CheckSignature H rc pk \<lparr>sp_vchSig = sig, nSporkID = 10007, sp_nValue = 1516803600, nTimeSigned = 1529999999\<rparr>"
    and "mapSporksActive st 10007 = Some \<lparr>sp_vchSig = sig, nSporkID = 10007, sp_nValue = 1516803600, nTimeSigned = 1529999999\<rparr>"
    and "\<forall>m \<in> set later. nTimeSigned m < 2 ^ 62"
  shows "mapSporksActive (ProcessSporks H rc pk t
      (\<lparr>sp_vchSig = sig, nSporkID = 10007, sp_nValue = 1, nTimeSigned = 5168036001529999999\<rparr> # later) st) 10007 =
    Some \<lparr>sp_vchSig = sig, nSporkID = 10007, sp_nValue = 1, nTimeSigned = 5168036001529999999\<rparr>"
proof -
  let ?f = "\<lparr>sp_vchSig = sig, nSporkID = 10007, sp_nValue = 1, nTimeSigned = 5168036001529999999\<rparr>"
  have "spork_strMessage ?f = spork_strMessage \<lparr>sp_vchSig = sig, nSporkID = 10007, sp_nValue = 1516803600, nTimeSigned = 1529999999\<rparr>"
    by (simp add: spork_strMessage_def lexical_cast_int_def dec_nat.simps)
  then have "spork_CheckSignature H rc pk ?f" using assms(1) by (simp add: spork_CheckSignature_def)
  then have s: "mapSporksActive (fst (ProcessSpork H rc pk False True t ?f st)) 10007 = Some ?f"
    using assms(2) by (simp add: ProcessSpork_active)
  have "mapSporksActive s 10007 = Some ?f \<Longrightarrow> \<forall>m \<in> set ms. nTimeSigned m < 2 ^ 62 \<Longrightarrow> mapSporksActive (ProcessSporks H rc pk t ms s) 10007 = Some ?f" for s ms
    unfolding ProcessSporks_def by (induction ms arbitrary: s) (simp_all add: ProcessSpork_active)
  from this [OF s assms(3)] show ?thesis by (simp add: ProcessSporks_def)
qed

lemma spork_signature_replay_witness:
  "mapSporksActive (ProcessSporks sample_hashes (\<lambda>_ _. Some [2]) [2] 9 [sample_spork 10007 1 5168036001529999999, sample_spork 10007 0 1600000000]
     (sample_manager ((\<lambda>_. None)(10007 \<mapsto> sample_spork 10007 1516803600 1529999999)))) 10007 = Some (sample_spork 10007 1 5168036001529999999)"
  using spork_signature_replay [of sample_hashes "\<lambda>_ _. Some [2]" "[2]" "[1]"
      "sample_manager ((\<lambda>_. None)(10007 \<mapsto> sample_spork 10007 1516803600 1529999999))" "[sample_spork 10007 0 1600000000]" 9]
  by (simp add: spork_CheckSignature_def VerifyMessage_def sample_spork_def sample_manager_def)

end
