(* ===== verification/CheckBlock.thy ===== *)
theory CheckBlock
  imports Merkle LockTime Money BlockTree VersionBits Spork
begin

text \<open>
  The checks of a block that need no unspent outputs (main.cpp): \<open>GetLegacySigOpCount\<close>,
  \<open>CheckBlockHeader\<close>, \<open>CheckBlock\<close>, \<open>IsSuperMajority\<close> and
  \<open>ContextualCheckBlock\<close>.  The globals they read are a record; the hash of a header and the
  transactions locked by InstantSend are parameters.
\<close>

section \<open>Blocks and globals\<close>

record CBlock = CBlockHeader +
  \<comment> \<open>the outputs kept for the block template, memory only, are left out\<close>
  vtx :: "CTransaction list"
  fChecked :: bool

definition MAX_BLOCK_SIGOPS :: nat where "MAX_BLOCK_SIGOPS = MAX_BLOCK_SIZE div 50"

definition REJECT_OBSOLETE :: nat where "REJECT_OBSOLETE = 0x11"

datatype node_fault = AssertionFailure | NullPointer | OutOfBounds | Exception string | NoReturn

fun node_fault_of :: "fault + 'a \<Rightarrow> node_fault + 'a" where
  "node_fault_of (Inr x) = Inr x"
| "node_fault_of (Inl AssertFailed) = Inl AssertionFailure"
| "node_fault_of (Inl NullDeref) = Inl NullPointer"
| "node_fault_of (Inl (Thrown e)) = Inl (Exception [])"

record node_ctx =
  header_hash :: "CBlockHeader \<Rightarrow> uint256"  \<comment> \<open>\<open>CBlockHeader::GetHash\<close>\<close>
  hashes :: hash_functions
  adjusted_time :: int  \<comment> \<open>\<open>GetAdjustedTime()\<close>\<close>
  sporks :: CSporkManager
  now :: int  \<comment> \<open>\<open>GetTime()\<close>\<close>
  locked_tx :: "COutPoint \<Rightarrow> uint256 option"  \<comment> \<open>\<open>instantsend.GetLockedOutPointTxHash\<close>\<close>
  founder_payment :: FounderPayment
  consensus :: Consensus_Params

definition spork_on :: "node_ctx \<Rightarrow> int \<Rightarrow> bool" where
  "spork_on G k = IsSporkActive (sporks G) (now G) k"

definition block_hash :: "node_ctx \<Rightarrow> CBlock \<Rightarrow> uint256" where
  "block_hash G b = header_hash G (CBlockHeader.truncate b)"

definition size_block :: "CBlock \<Rightarrow> nat" where
  \<comment> \<open>\<open>GetSerializeSize\<close>: the header has 80 bytes\<close>
  "size_block b = 80 + size_vector size_tx (vtx b)"

section \<open>The checks\<close>

definition GetLegacySigOpCount :: "CTransaction \<Rightarrow> nat" where
  "GetLegacySigOpCount tx =
     sum_list (map (\<lambda>txin. GetSigOpCount (scriptSig txin) False) (vin tx)) +
     sum_list (map (\<lambda>txout. GetSigOpCount (scriptPubKey txout) False) (vout tx))"

definition CheckBlockHeader :: "node_ctx \<Rightarrow> CBlock \<Rightarrow> CValidationState \<Rightarrow> bool \<Rightarrow> bool \<times> CValidationState" where
  "CheckBlockHeader G block st fCheckPOW =
     (if fCheckPOW \<and> \<not> CheckProofOfWork (block_hash G block) (hdr_nBits block) (consensus G)
      then DoS 50 False REJECT_INVALID ''high-hash'' False [] st
      else if uint (hdr_nTime block) > adjusted_time G + 2 * 60 * 60
      then Invalid False REJECT_INVALID ''time-too-new'' [] st
      else (True, st))"

definition lock_conflict :: "node_ctx \<Rightarrow> CTransaction \<Rightarrow> bool" where
  "lock_conflict G tx \<longleftrightarrow> \<not> IsCoinBase tx \<and>
     list_ex (\<lambda>txin. case locked_tx G (prevout txin) of None \<Rightarrow> False | Some hashLocked \<Rightarrow> hashLocked \<noteq> tx_hash tx) (vin tx)"

fun check_transactions ::
  "bool \<Rightarrow> (CTransaction \<Rightarrow> bool) \<Rightarrow> CTransaction list \<Rightarrow> bool \<Rightarrow> CValidationState \<Rightarrow> bool \<times> bool \<times> CValidationState" where
  \<comment> \<open>the loop "Check transactions": whether it ran to its end or its \<open>break\<close>, and
    \<open>founderTransaction\<close>\<close>
  "check_transactions enforce pays_founder [] founderTransaction st = (True, founderTransaction, st)"
| "check_transactions enforce pays_founder (tx # rest) founderTransaction st =
     (case CheckTransaction tx st of
        (False, st') \<Rightarrow> (False, founderTransaction, st')
      | (True, st') \<Rightarrow>
          if enforce
          then if pays_founder tx then (True, True, st')
               else check_transactions enforce pays_founder rest founderTransaction st'
          else check_transactions enforce pays_founder rest True st')"

record block_check =
  bc_ok :: bool
  bc_state :: CValidationState
  bc_fChecked :: bool
  bc_rejected :: bool  \<comment> \<open>the block was put into \<open>mapRejectedBlocks\<close>\<close>

definition check_result :: "CBlock \<Rightarrow> bool \<times> CValidationState \<Rightarrow> node_fault + block_check" where
  "check_result block r = Inr \<lparr>bc_ok = fst r, bc_state = snd r, bc_fChecked = fChecked block, bc_rejected = False\<rparr>"

definition CheckBlock ::
  "node_ctx \<Rightarrow> btree \<Rightarrow> CChain \<Rightarrow> CBlock \<Rightarrow> CValidationState \<Rightarrow> bool \<Rightarrow> bool \<Rightarrow> node_fault + block_check" where
  "CheckBlock G T chainActive block st fCheckPOW fCheckMerkleRoot =
     (if fChecked block then check_result block (True, st)
      else case CheckBlockHeader G block st fCheckPOW of
        (False, st1) \<Rightarrow> check_result block (False, st1)
      | (True, st1) \<Rightarrow>
     (let root = BlockMerkleRoot (hashes G) (vtx block) in
      if fCheckMerkleRoot \<and> hdr_hashMerkleRoot block \<noteq> fst root
      then check_result block (DoS 100 False REJECT_INVALID ''bad-txnmrklroot'' True [] st1)
      else if fCheckMerkleRoot \<and> snd root
      then check_result block (DoS 100 False REJECT_INVALID ''bad-txns-duplicate'' True [] st1)
      else if vtx block = [] \<or> length (vtx block) > MAX_BLOCK_SIZE \<or> size_block block > MAX_BLOCK_SIZE
      then check_result block (DoS 100 False REJECT_INVALID ''bad-blk-length'' False [] st1)
      else if vtx block = [] \<or> \<not> IsCoinBase (vtx block ! 0)
      then check_result block (DoS 100 False REJECT_INVALID ''bad-cb-missing'' False [] st1)
      else if list_ex IsCoinBase (tl (vtx block))
      then check_result block (DoS 100 False REJECT_INVALID ''bad-cb-multiple'' False [] st1)
      else if spork_on G SPORK_3_INSTANTSEND_BLOCK_FILTERING \<and> list_ex (lock_conflict G) (vtx block)
      then (case DoS 0 False REJECT_INVALID ''conflict-tx-lock'' False [] st1 of (ok, st2) \<Rightarrow>
              Inr \<lparr>bc_ok = ok, bc_state = st2, bc_fChecked = fChecked block, bc_rejected = True\<rparr>)
      else case chain_Tip chainActive of
        None \<Rightarrow> check_result block (True, st1)
      | Some tip \<Rightarrow>
     (let height = chain_Height chainActive in
      case GetBlockSubsidy (nBits (obj T tip)) height (consensus G) False of
        None \<Rightarrow> Inl NoReturn
      | Some blockReward \<Rightarrow>
     (let enforce = (spork_on G SPORK_15_FOUNDER_PAYMENT_ENFORCEMENT \<and> height + 1 > FOUNDER_START_BLOCK) in
      case check_transactions enforce (\<lambda>tx. IsBlockPayeeValid_founder (founder_payment G) tx (height + 1) blockReward) (vtx block) False st1 of
        (False, _, st2) \<Rightarrow> check_result block (False, st2)
      | (True, founderTransaction, st2) \<Rightarrow>
          if \<not> founderTransaction
          then check_result block (DoS 0 False REJECT_INVALID ''founder-not-found'' False [] st2)
          else if sum_list (map GetLegacySigOpCount (vtx block)) > MAX_BLOCK_SIGOPS
          then check_result block (DoS 100 False REJECT_INVALID ''bad-blk-sigops'' False [] st2)
          else Inr \<lparr>bc_ok = True, bc_state = st2, bc_fChecked = (fChecked block \<or> fCheckPOW \<and> fCheckMerkleRoot), bc_rejected = False\<rparr>))))"

fun majority_loop :: "btree \<Rightarrow> int \<Rightarrow> nat \<Rightarrow> nat \<Rightarrow> nat \<Rightarrow> ptr option \<Rightarrow> nat" where
  \<comment> \<open>with the rest of the window\<close>
  "majority_loop T minVersion 0 nRequired nFound pstart = nFound"
| "majority_loop T minVersion (Suc i) nRequired nFound pstart =
     (if nFound < nRequired
      then case pstart of
             None \<Rightarrow> nFound
           | Some p \<Rightarrow>
               majority_loop T minVersion i nRequired
                 (if sint (nVersion (obj T p)) \<ge> minVersion then nFound + 1 else nFound) (pprev (obj T p))
      else nFound)"

definition IsSuperMajority :: "btree \<Rightarrow> int \<Rightarrow> ptr option \<Rightarrow> int \<Rightarrow> Consensus_Params \<Rightarrow> bool" where
  "IsSuperMajority T minVersion pstart nRequired P \<longleftrightarrow>
     majority_loop T minVersion (nat (nMajorityWindow P)) (nat nRequired) 0 pstart \<ge> nat nRequired"

type_synonym versionbits_caches = "DeploymentPos \<Rightarrow> threshold_cache"

definition ContextualCheckBlock ::
  "btree \<Rightarrow> Consensus_Params \<Rightarrow> CBlock \<Rightarrow> CValidationState \<Rightarrow> ptr option \<Rightarrow> versionbits_caches \<Rightarrow>
   node_fault + bool \<times> CValidationState \<times> versionbits_caches" where
  "ContextualCheckBlock T P block st pindexPrev caches =
     (let height = (case pindexPrev of None \<Rightarrow> 0 | Some q \<Rightarrow> BlockIndex.nHeight (obj T q) + 1) in
      case VersionBitsState T P DEPLOYMENT_CSV pindexPrev caches of
        Inl e \<Rightarrow> node_fault_of (Inl e)
      | Inr (state, caches) \<Rightarrow>
     (if state = THRESHOLD_ACTIVE \<and> pindexPrev = None then Inl NullPointer
      else let nLockTimeCutoff = (if state = THRESHOLD_ACTIVE then GetMedianTimePast T (the pindexPrev) else uint (hdr_nTime block)) in
      if \<not> list_all (\<lambda>tx. IsFinalTx tx height nLockTimeCutoff) (vtx block)
      then (case DoS 10 False REJECT_INVALID ''bad-txns-nonfinal'' False [] st of (ok, st') \<Rightarrow> Inr (ok, st', caches))
      else if sint (hdr_nVersion block) \<ge> 2 \<and> IsSuperMajority T 2 pindexPrev (nMajorityEnforceBlockUpgrade P) P
      then if vtx block = [] \<or> vin (vtx block ! 0) = [] then Inl OutOfBounds
           else if \<not> take (length (push_int64 [] height)) (scriptSig (vin (vtx block ! 0) ! 0)) = push_int64 [] height
           then (case DoS 100 False REJECT_INVALID ''bad-cb-height'' False [] st of (ok, st') \<Rightarrow> Inr (ok, st', caches))
           else Inr (True, st, caches)
      else Inr (True, st, caches)))"

section \<open>What the loops compute\<close>

lemma CheckTransaction_True: "CheckTransaction tx st = (True, st') \<Longrightarrow> st' = st"
  by (auto simp: CheckTransaction_def fail_DoS_def DoS_def Let_def split: if_splits option.splits)

definition founder_prefix :: "(CTransaction \<Rightarrow> bool) \<Rightarrow> CTransaction list \<Rightarrow> bool" where
  \<comment> \<open>some transaction pays the founder, and those up to the first one that does pass the checks\<close>
  "founder_prefix pays txs \<longleftrightarrow> (\<exists>before tx rest. txs = before @ tx # rest \<and> pays tx \<and> (\<forall>t \<in> set before. \<not> pays t) \<and>
     (\<forall>t \<in> set (before @ [tx]). tx_checked t))"

lemma founder_prefix_Nil [simp]: "\<not> founder_prefix pays []"
  by (simp add: founder_prefix_def)

lemma founder_prefix_Cons: "founder_prefix pays (t # txs) \<longleftrightarrow> tx_checked t \<and> (pays t \<or> founder_prefix pays txs)"
proof
  assume "founder_prefix pays (t # txs)"
  then obtain before tx rest where "t # txs = before @ tx # rest" "pays tx" "\<forall>t \<in> set before. \<not> pays t"
    "\<forall>t \<in> set (before @ [tx]). tx_checked t" unfolding founder_prefix_def by blast
  then show "tx_checked t \<and> (pays t \<or> founder_prefix pays txs)"
    unfolding founder_prefix_def by (cases before) auto
next
  assume r: "tx_checked t \<and> (pays t \<or> founder_prefix pays txs)"
  show "founder_prefix pays (t # txs)"
  proof (cases "pays t")
    case True
    then show ?thesis using r unfolding founder_prefix_def by (intro exI [of _ "[]"]) simp
  next
    case False
    then obtain before tx rest where "txs = before @ tx # rest" "pays tx" "\<forall>t \<in> set before. \<not> pays t"
      "\<forall>t \<in> set (before @ [tx]). tx_checked t" using r unfolding founder_prefix_def by blast
    then show ?thesis using r False unfolding founder_prefix_def by (intro exI [of _ "t # before"]) simp
  qed
qed

lemma check_transactions_enforced:
  "(\<exists>st'. check_transactions True pays txs False st = (True, True, st')) \<longleftrightarrow> founder_prefix pays txs"
proof (induction txs arbitrary: st)
  case (Cons tx txs)
  obtain r st1 where c: "CheckTransaction tx st = (r, st1)" by fastforce
  have "r \<longleftrightarrow> tx_checked tx" using CheckTransaction_iff [of tx st] c by simp
  then show ?case using c Cons.IH [of st1] by (cases r; cases "pays tx") (simp_all add: founder_prefix_Cons)
qed simp

lemma check_transactions_all:
  "(\<exists>st'. check_transactions False pays txs f st = (True, True, st')) \<longleftrightarrow>
    (\<forall>tx \<in> set txs. tx_checked tx) \<and> (f \<or> txs \<noteq> [])"
proof (induction txs arbitrary: f st)
  case (Cons tx txs)
  obtain r st1 where c: "CheckTransaction tx st = (r, st1)" by fastforce
  have "r \<longleftrightarrow> tx_checked tx" using CheckTransaction_iff [of tx st] c by simp
  then show ?case using c Cons.IH [of True st1] by (cases r) simp_all
qed simp

lemma check_transactions_state:
  "check_transactions enforce pays txs f st = (True, b, st') \<Longrightarrow> st' = st"
  by (induction txs arbitrary: f) (auto split: prod.splits bool.splits if_splits dest: CheckTransaction_True)

fun versions_back :: "btree \<Rightarrow> nat \<Rightarrow> ptr option \<Rightarrow> int list" where
  \<comment> \<open>the versions of the last blocks\<close>
  "versions_back T 0 p = []"
| "versions_back T (Suc i) None = []"
| "versions_back T (Suc i) (Some p) = sint (nVersion (obj T p)) # versions_back T i (pprev (obj T p))"

lemma majority_loop_spec:
  "majority_loop T v i n k p \<ge> n \<longleftrightarrow> k + length (filter (\<lambda>x. x \<ge> v) (versions_back T i p)) \<ge> n"
proof (induction i arbitrary: k p)
  case (Suc i)
  show ?case
  proof (cases "k < n")
    case True
    then show ?thesis using Suc.IH by (cases p) simp_all
  qed simp
qed simp

lemma IsSuperMajority_spec:
  "IsSuperMajority T v p n P \<longleftrightarrow> nat n \<le> length (filter (\<lambda>x. x \<ge> v) (versions_back T (nat (nMajorityWindow P)) p))"
  by (simp add: IsSuperMajority_def majority_loop_spec)

definition accepts_iff :: "node_fault + block_check \<Rightarrow> bool \<Rightarrow> bool" where
  "accepts_iff r Q \<longleftrightarrow> (\<exists>res. r = Inr res \<and> (bc_ok res \<longleftrightarrow> Q))"

lemma accepts_iff_results:
  "accepts_iff (check_result b (ok, st)) Q \<longleftrightarrow> ok = Q"
  "accepts_iff (check_result b (DoS l ok r m c d st)) Q \<longleftrightarrow> ok = Q"
  "accepts_iff (Inr \<lparr>bc_ok = ok, bc_state = st, bc_fChecked = f, bc_rejected = j\<rparr>) Q \<longleftrightarrow> ok = Q"
  "accepts_iff (case DoS l ok r m c d st of (ok, st2) \<Rightarrow> Inr \<lparr>bc_ok = ok, bc_state = st2, bc_fChecked = f, bc_rejected = j\<rparr>) Q \<longleftrightarrow> ok = Q"
  by (auto simp: accepts_iff_def check_result_def case_prod_beta)

lemma reject_if: "(if c then False = Q else Q = R) \<longleftrightarrow> Q = (\<not> c \<and> R)"
  by auto

lemma accepts_iff_if: "accepts_iff (if c then x else y) Q \<longleftrightarrow> (if c then accepts_iff x Q else accepts_iff y Q)"
  by simp

section \<open>Properties\<close>

text \<open>C12: the exact conditions under which \<open>CheckBlock\<close> accepts a block, on a chain with a tip: the
  header, the Merkle root, the sizes, a single coinbase in front, no conflict with a locked transaction, and
  few enough signature operations.  The transactions must all be well-formed while founder payments are
  not enforced.  Once they are enforced only the transactions up to the first one that pays the founder,
  usually the coinbase alone, are checked at all.\<close>

theorem CheckBlock_exact:
  assumes "\<not> fChecked block" "chain_Tip chainActive = Some tip"
    and "GetBlockSubsidy (nBits (obj T tip)) (chain_Height chainActive) (consensus G) False = Some blockReward"
  shows "\<exists>res. CheckBlock G T chainActive block st fCheckPOW fCheckMerkleRoot = Inr res \<and>
    (bc_ok res \<longleftrightarrow>
       (fCheckPOW \<longrightarrow> CheckProofOfWork (block_hash G block) (hdr_nBits block) (consensus G)) \<and>
       uint (hdr_nTime block) \<le> adjusted_time G + 7200 \<and>
       (fCheckMerkleRoot \<longrightarrow> BlockMerkleRoot (hashes G) (vtx block) = (hdr_hashMerkleRoot block, False)) \<and>
       vtx block \<noteq> [] \<and> length (vtx block) \<le> MAX_BLOCK_SIZE \<and> size_block block \<le> MAX_BLOCK_SIZE \<and>
       IsCoinBase (hd (vtx block)) \<and> (\<forall>tx \<in> set (tl (vtx block)). \<not> IsCoinBase tx) \<and>
       (spork_on G SPORK_3_INSTANTSEND_BLOCK_FILTERING \<longrightarrow> (\<forall>tx \<in> set (vtx block). \<not> lock_conflict G tx)) \<and>
       (if spork_on G SPORK_15_FOUNDER_PAYMENT_ENFORCEMENT \<and> chain_Height chainActive + 1 > FOUNDER_START_BLOCK
        then founder_prefix (\<lambda>tx. IsBlockPayeeValid_founder (founder_payment G) tx (chain_Height chainActive + 1) blockReward) (vtx block)
        else \<forall>tx \<in> set (vtx block). tx_checked tx) \<and>
       sum_list (map GetLegacySigOpCount (vtx block)) \<le> MAX_BLOCK_SIGOPS)"
    (is "\<exists>res. _ = Inr res \<and> (bc_ok res \<longleftrightarrow> ?Q)")
proof -
  let ?enforce = "spork_on G SPORK_15_FOUNDER_PAYMENT_ENFORCEMENT \<and> chain_Height chainActive + 1 > FOUNDER_START_BLOCK"
  let ?pays = "\<lambda>tx. IsBlockPayeeValid_founder (founder_payment G) tx (chain_Height chainActive + 1) blockReward"
  obtain hok st1 where h: "CheckBlockHeader G block st fCheckPOW = (hok, st1)" by fastforce
  have hok: "hok \<longleftrightarrow> (fCheckPOW \<longrightarrow> CheckProofOfWork (block_hash G block) (hdr_nBits block) (consensus G)) \<and>
       uint (hdr_nTime block) \<le> adjusted_time G + 7200"
    using h by (auto simp: CheckBlockHeader_def DoS_def Invalid_def Let_def not_less split: if_splits)
  obtain ok found st2 where c: "check_transactions ?enforce ?pays (vtx block) False st1 = (ok, found, st2)"
    by (metis surj_pair)
  have txs: "ok \<and> found \<longleftrightarrow> (if ?enforce then founder_prefix ?pays (vtx block) else (\<forall>tx \<in> set (vtx block). tx_checked tx) \<and> vtx block \<noteq> [])"
    using check_transactions_enforced [of ?pays "vtx block" st1] check_transactions_all [of ?pays "vtx block" False st1] c
    by (cases ?enforce) auto
  let ?root = "BlockMerkleRoot (hashes G) (vtx block)"
  have root: "(fCheckMerkleRoot \<longrightarrow> ?root = (hdr_hashMerkleRoot block, False)) \<longleftrightarrow>
      \<not> (fCheckMerkleRoot \<and> hdr_hashMerkleRoot block \<noteq> fst ?root) \<and> \<not> (fCheckMerkleRoot \<and> snd ?root)"
    by (cases ?root) auto
  have hd: "vtx block \<noteq> [] \<Longrightarrow> hd (vtx block) = vtx block ! 0" by (rule hd_conv_nth)
  have "accepts_iff (CheckBlock G T chainActive block st fCheckPOW fCheckMerkleRoot) ?Q"
  proof (cases hok)
    case False
    then have hF: "hok = False" by simp
    show ?thesis
      unfolding CheckBlock_def if_not_P [OF assms(1)] h hF prod.case bool.case accepts_iff_results using hok False by blast
  next
    case True
    have run: "accepts_iff (CheckBlock G T chainActive block st fCheckPOW fCheckMerkleRoot) Q \<longleftrightarrow>
      Q = (\<not> (fCheckMerkleRoot \<and> hdr_hashMerkleRoot block \<noteq> fst ?root) \<and> \<not> (fCheckMerkleRoot \<and> snd ?root) \<and>
        vtx block \<noteq> [] \<and> length (vtx block) \<le> MAX_BLOCK_SIZE \<and> size_block block \<le> MAX_BLOCK_SIZE \<and>
        IsCoinBase (vtx block ! 0) \<and> \<not> list_ex IsCoinBase (tl (vtx block)) \<and>
        \<not> (spork_on G SPORK_3_INSTANTSEND_BLOCK_FILTERING \<and> list_ex (lock_conflict G) (vtx block)) \<and>
        ok \<and> found \<and> sum_list (map GetLegacySigOpCount (vtx block)) \<le> MAX_BLOCK_SIGOPS)" for Q
    proof -
      have tail: "accepts_iff (case ok of
          True \<Rightarrow>
          if \<not> found
          then check_result block (DoS 0 False REJECT_INVALID ''founder-not-found'' False [] st2)
          else if sum_list (map GetLegacySigOpCount (vtx block)) > MAX_BLOCK_SIGOPS
          then check_result block (DoS 100 False REJECT_INVALID ''bad-blk-sigops'' False [] st2)
          else Inr \<lparr>bc_ok = True, bc_state = st2, bc_fChecked = (fChecked block \<or> fCheckPOW \<and> fCheckMerkleRoot), bc_rejected = False\<rparr>
        | False \<Rightarrow> check_result block (False, st2)) Q
        \<longleftrightarrow> Q = (ok \<and> found \<and> sum_list (map GetLegacySigOpCount (vtx block)) \<le> MAX_BLOCK_SIGOPS)"
        by (cases ok; cases found) (auto simp: accepts_iff_results not_less)
      have hT: "hok = True" using True by simp
      show ?thesis
        unfolding CheckBlock_def h hT prod.case bool.case Let_def assms(2,3) option.case c accepts_iff_if tail if_not_P [OF assms(1)] accepts_iff_results reject_if
        by (simp only: de_Morgan_disj not_less conj_assoc) blast
    qed
    have c1: "fCheckPOW \<longrightarrow> CheckProofOfWork (block_hash G block) (hdr_nBits block) (consensus G)"
      "uint (hdr_nTime block) \<le> adjusted_time G + 7200" using hok True by blast+
    show ?thesis
    proof (cases "vtx block = []")
      case True
      then show ?thesis unfolding run by blast
    next
      case False
      have A: "(if ?enforce then founder_prefix ?pays (vtx block) else \<forall>tx \<in> set (vtx block). tx_checked tx) \<longleftrightarrow> ok \<and> found"
        unfolding txs using False by (simp only: simp_thms)
      show ?thesis unfolding run root A hd [OF False] list_ex_iff using c1 False by blast
    qed
  qed
  then show ?thesis by (simp add: accepts_iff_def)
qed

definition sample_ctx :: "int \<Rightarrow> node_ctx" where
  "sample_ctx founder_spork = \<lparr>header_hash = (\<lambda>_. replicate 32 0), hashes = sample_hashes, adjusted_time = 1000,
     sporks = sample_manager ((\<lambda>_. None)(SPORK_15_FOUNDER_PAYMENT_ENFORCEMENT \<mapsto> sample_spork SPORK_15_FOUNDER_PAYMENT_ENFORCEMENT founder_spork 1)),
     now = 1000, locked_tx = (\<lambda>_. None),
     founder_payment = \<lparr>founderAddresses = [[7]], founderStartHeight = 0, oneAddressHeight = 0\<rparr>,
     consensus = RegTestParams (replicate 32 0)\<rparr>"

definition sample_tree :: btree where
  "sample_tree = \<lparr>obj = (\<lambda>_. CBlockIndex_null), known = {0}\<rparr>"

definition sample_txn :: "u8 \<Rightarrow> CTxIn list \<Rightarrow> CTxOut list \<Rightarrow> CTransaction" where
  "sample_txn k ins outs = \<lparr>tx_nVersion = 1, vin = ins, vout = outs, nLockTime = 0, tx_hash = replicate 32 k\<rparr>"

definition sample_in :: "uint256 \<Rightarrow> u32 \<Rightarrow> bytes \<Rightarrow> CTxIn" where
  "sample_in h n s = \<lparr>prevout = COutPoint h n, scriptSig = s, nSequence = SEQUENCE_FINAL, prevPubKey = []\<rparr>"

definition sample_pay :: "CAmount \<Rightarrow> bytes \<Rightarrow> CTxOut" where
  "sample_pay v s = CTxOut_of v s"

definition sample_block :: CBlock where
  \<comment> \<open>the coinbase pays the founder; the other transaction spends one output twice\<close>
  "sample_block = \<lparr>hdr_nVersion = 1, hashPrevBlock = replicate 32 0, hdr_hashMerkleRoot = replicate 32 0, hdr_nTime = 1000,
     hdr_nBits = 0, hdr_nNonce = 0,
     vtx = [sample_txn 1 [sample_in (replicate 32 0) (- 1) [1, 1]] [sample_pay (10 * COIN) [7]],
            sample_txn 2 [sample_in (replicate 32 9) 0 [], sample_in (replicate 32 9) 0 []] [sample_pay 1 [8]]],
     fChecked = False\<rparr>"

definition sample_chain :: CChain where
  "sample_chain = \<lparr>vChain = replicate 9999001 (Some 0)\<rparr>"

lemma sample_chain_simps: "chain_Tip sample_chain = Some 0" "chain_Height sample_chain = 9999000"
  by (simp_all add: sample_chain_def chain_Tip_def chain_Height_def)

lemma sample_subsidy:
  "\<exists>r. GetBlockSubsidy (nBits (obj sample_tree 0)) 9999000 (consensus (sample_ctx k)) False = Some r \<and> 0 \<le> r \<and> r \<le> 10 * COIN"
  using GetBlockSubsidy_schedule [of "consensus (sample_ctx k)" 9999000] subsidy_bounds [of 9999000 "consensus (sample_ctx k)"]
  by (auto simp: sample_ctx_def RegTestParams_def POST_MINE_HEIGHT_def)

lemmas sample_block_simps = sample_block_def sample_txn_def sample_in_def sample_pay_def sample_ctx_def CTxOut_of_def

lemma CheckBlock_exact_witness:
  "\<exists>res. CheckBlock (sample_ctx 0) sample_tree sample_chain sample_block vs_init False False = Inr res \<and> bc_ok res \<and>
     \<not> tx_checked (vtx sample_block ! 1)"
proof -
  obtain r where r: "GetBlockSubsidy (nBits (obj sample_tree 0)) (chain_Height sample_chain) (consensus (sample_ctx 0)) False = Some r"
      "0 \<le> r" "r \<le> 10 * COIN"
    using sample_subsidy [of 0] by (auto simp: sample_chain_simps)
  have "r div 11 \<le> 10 * COIN" using r(2,3) by linarith
  then have pays: "IsBlockPayeeValid_founder (founder_payment (sample_ctx 0)) (vtx sample_block ! 0) 9999001 r"
    using r(2) by (simp add: IsBlockPayeeValid_founder_def getFounderPaymentAmount_def payeeMatchFounder_def sample_block_simps)
  have checked: "tx_checked (vtx sample_block ! 0)" "\<not> tx_checked (vtx sample_block ! 1)"
    by (simp_all add: tx_checked_def sample_block_simps IsCoinBase_def outpoint_IsNull_def blob_IsNull_def size_tx_def size_vector_def
        size_txin_def size_txout_def size_bytes_def GetSizeOfCompactSize_def MAX_BLOCK_SIZE_def MAX_MONEY_def COIN_def list_all_iff)
  have ops: "map GetLegacySigOpCount (vtx sample_block) = [0, 0]" by code_simp
  have shape: "\<not> fChecked sample_block" "vtx sample_block \<noteq> []" "length (vtx sample_block) \<le> MAX_BLOCK_SIZE" "size_block sample_block \<le> MAX_BLOCK_SIZE"
    "IsCoinBase (hd (vtx sample_block))" "\<forall>tx \<in> set (tl (vtx sample_block)). \<not> IsCoinBase tx" "\<forall>tx \<in> set (vtx sample_block). \<not> lock_conflict (sample_ctx 0) tx"
    "uint (hdr_nTime sample_block) \<le> adjusted_time (sample_ctx 0) + 7200"
    by (simp_all add: sample_block_simps IsCoinBase_def outpoint_IsNull_def blob_IsNull_def size_block_def size_tx_def size_vector_def
        size_txin_def size_txout_def size_bytes_def GetSizeOfCompactSize_def MAX_BLOCK_SIZE_def lock_conflict_def list_all_iff)
  have on: "spork_on (sample_ctx 0) SPORK_15_FOUNDER_PAYMENT_ENFORCEMENT" "9999000 + 1 > FOUNDER_START_BLOCK"
    by (simp_all add: spork_on_def IsSporkActive_def sample_ctx_def sample_manager_def sample_spork_def FOUNDER_START_BLOCK_def)
  have two: "vtx sample_block = [vtx sample_block ! 0, vtx sample_block ! 1]" by (simp add: sample_block_def)
  have "founder_prefix (\<lambda>tx. IsBlockPayeeValid_founder (founder_payment (sample_ctx 0)) tx (chain_Height sample_chain + 1) r) (vtx sample_block)"
    using pays checked(1) by (subst two) (simp add: founder_prefix_Cons sample_chain_simps)
  then show ?thesis
    using CheckBlock_exact [OF shape(1) sample_chain_simps(1) r(1), of vs_init False False] shape on ops checked(2)
    by (simp add: sample_chain_simps MAX_BLOCK_SIGOPS_def)
qed

text \<open>C31: \<open>ContextualCheckBlock\<close> accepts a block exactly if all its transactions are final, at its height and at the
  median time past once BIP 113 is active (at its own time before), and, for a block of version two or more when
  enough of the blocks in the window have that version, if the coinbase script starts with the height.\<close>

theorem ContextualCheckBlock_exact:
  assumes "VersionBitsState T P DEPLOYMENT_CSV pindexPrev caches = Inr (state, caches')"
    and "state = THRESHOLD_ACTIVE \<Longrightarrow> pindexPrev \<noteq> None" and "vtx block \<noteq> []" "vin (hd (vtx block)) \<noteq> []"
  defines "height \<equiv> (case pindexPrev of None \<Rightarrow> 0 | Some q \<Rightarrow> BlockIndex.nHeight (obj T q) + 1)"
  shows "\<exists>ok st'. ContextualCheckBlock T P block st pindexPrev caches = Inr (ok, st', caches') \<and>
    (ok \<longleftrightarrow>
      (\<forall>tx \<in> set (vtx block). IsFinalTx tx height
         (if state = THRESHOLD_ACTIVE then GetMedianTimePast T (the pindexPrev) else uint (hdr_nTime block))) \<and>
      (sint (hdr_nVersion block) \<ge> 2 \<and>
       nat (nMajorityEnforceBlockUpgrade P) \<le> length (filter (\<lambda>v. v \<ge> 2) (versions_back T (nat (nMajorityWindow P)) pindexPrev)) \<longrightarrow>
         (\<exists>rest. scriptSig (hd (vin (hd (vtx block)))) = push_int64 [] height @ rest))) \<and>
    (ok \<longrightarrow> st' = st)"
proof -
  have pre: "take (length a) b = a \<longleftrightarrow> (\<exists>rest. b = a @ rest)" for a b :: bytes
    by (metis append_take_drop_id append_eq_conv_conj)
  have hd: "hd (vtx block) = vtx block ! 0" "hd (vin (vtx block ! 0)) = vin (vtx block ! 0) ! 0"
    using assms(3,4) by (simp_all add: hd_conv_nth)
  have nn: "\<not> (state = THRESHOLD_ACTIVE \<and> pindexPrev = None)" "\<not> (vtx block = [] \<or> vin (vtx block ! 0) = [])"
    using assms(2,3,4) hd(1) by auto
  show ?thesis
    unfolding ContextualCheckBlock_def Let_def assms(1) sum.case prod.case IsSuperMajority_spec height_def [symmetric] if_not_P [OF nn(1)] if_not_P [OF nn(2)] hd pre
    by (auto simp: list_all_iff case_prod_beta)
qed

lemma ContextualCheckBlock_exact_witness:
  "\<exists>ok st' caches'. ContextualCheckBlock sample_tree (RegTestParams (replicate 32 0)) sample_block vs_init None (\<lambda>_ _. None) = Inr (ok, st', caches') \<and> ok"
proof -
  obtain caches' where v: "VersionBitsState sample_tree (RegTestParams (replicate 32 0)) DEPLOYMENT_CSV None (\<lambda>_ _. None) = Inr (THRESHOLD_DEFINED, caches')"
    by (auto simp: VersionBitsState_def GetStateFor_def align_prev_def)
  have "\<forall>tx \<in> set (vtx sample_block). IsFinalTx tx 0 (uint (hdr_nTime sample_block))"
    by (simp add: sample_block_simps IsFinalTx_def)
  then show ?thesis
    using ContextualCheckBlock_exact [OF v, of sample_block vs_init] by (auto simp: sample_block_simps)
qed

end
