(* ===== verification/CoreWrite.thy ===== *)
theory CoreWrite
  imports Spork Interpreter
begin

text \<open>
  Scripts as text: \<open>ScriptToAsmStr\<close> of core_write.cpp, with \<open>HexStr\<close> (utilstrencodings.h) and
  \<open>COutPoint::ToStringShort\<close> (primitives/transaction.cpp).  Masternode payment votes sign this text.
\<close>

definition HexStr :: "bytes \<Rightarrow> string" where
  "HexStr vch = concat (map hex_byte vch)"

definition ToStringShort :: "COutPoint \<Rightarrow> string" where
  "ToStringShort out = (case out of COutPoint h n \<Rightarrow> take 64 (GetHex h) @ ''-'' @ dec_nat (unat n))"

definition mapSigHashTypes :: "(u8 \<times> string) list" where
  "mapSigHashTypes =
     [(1, ''ALL''), (0x81, ''ALL|ANYONECANPAY''), (2, ''NONE''), (0x82, ''NONE|ANYONECANPAY''),
      (3, ''SINGLE''), (0x83, ''SINGLE|ANYONECANPAY'')]"

definition sighash_text :: "hash_functions \<Rightarrow> bytes \<Rightarrow> string" where
  \<comment> \<open>data that looks like a signature, with its hash type decoded\<close>
  "sighash_text H vch =
     (if CheckSignatureEncoding H vch SCRIPT_VERIFY_STRICTENC = None
      then case map_of mapSigHashTypes (last vch) of
             Some name \<Rightarrow> HexStr (butlast vch) @ ''['' @ name @ '']''
           | None \<Rightarrow> HexStr vch
      else HexStr vch)"

function asm_loop :: "hash_functions \<Rightarrow> bool \<Rightarrow> bytes \<Rightarrow> string \<Rightarrow> string" where
  \<comment> \<open>the second argument is \<open>fAttemptSighashDecode && !script.IsUnspendable()\<close>\<close>
  "asm_loop H decode pc str =
     (if pc = [] then str
      else let str = (if str \<noteq> [] then str @ '' '' else str)
           in case GetOp2 pc of (ok, opcode, vch, pc') \<Rightarrow>
             if \<not> ok then str @ ''[error]''
             else if opcode \<le> OP_PUSHDATA4
             then if length vch \<le> 4 then asm_loop H decode pc' (str @ lexical_cast_int (getint (set_vch vch)))
                  else asm_loop H decode pc' (str @ (if decode then sighash_text H vch else HexStr vch))
             else asm_loop H decode pc' (str @ GetOpName opcode))"
  by pat_completeness auto
termination by (relation "measure (\<lambda>(H, d, pc, str). length pc)") (auto simp: GetOp2_True dest!: sym [of _ "GetOp2 _"])

declare asm_loop.simps [simp del]

definition ScriptToAsmStr :: "hash_functions \<Rightarrow> bytes \<Rightarrow> bool \<Rightarrow> string" where
  "ScriptToAsmStr H script fAttemptSighashDecode = asm_loop H (fAttemptSighashDecode \<and> \<not> IsUnspendable script) script []"

end
