(* ===== verification/Payments.thy ===== *)
theory Payments
  imports CheckBlock Standard CoreWrite "HOL-Library.AList"
begin

text \<open>
  Who a block must pay, and how much it may create: masternode-payments.h, masternode-payments.cpp and the
  superblocks of governance-classes.cpp.  Votes for the payee of each height are kept with their hashes; a
  payee with six votes must be paid.  The masternode list, the trigger objects of the governance
  system and whether the node is synchronised are parameters.
\<close>

section \<open>Votes\<close>

definition MNPAYMENTS_SIGNATURES_REQUIRED :: int where "MNPAYMENTS_SIGNATURES_REQUIRED = 6"
definition MNPAYMENTS_SIGNATURES_TOTAL :: int where "MNPAYMENTS_SIGNATURES_TOTAL = 10"

record CMasternodePayee =
  GetPayee :: bytes
  vecVoteHashes :: "uint256 list"

definition GetVoteCount :: "CMasternodePayee \<Rightarrow> int" where
  "GetVoteCount p = int (length (vecVoteHashes p))"

definition AddVoteHash :: "uint256 \<Rightarrow> CMasternodePayee \<Rightarrow> CMasternodePayee" where
  "AddVoteHash hashIn p = p\<lparr>vecVoteHashes := vecVoteHashes p @ [hashIn]\<rparr>"

record CMasternodePaymentVote =
  vinMasternode :: CTxIn
  vote_nBlockHeight :: int
  vote_payee :: bytes
  vote_vchSig :: bytes

definition vote_GetHash :: "hash_functions \<Rightarrow> CMasternodePaymentVote \<Rightarrow> uint256" where
  "vote_GetHash H v =
     CHash256 H (ser_bytes (vote_payee v) @ ser_writedata32 (word_of_int (vote_nBlockHeight v)) @ ser_outpoint (prevout (vinMasternode v)))"

definition vote_IsVerified :: "CMasternodePaymentVote \<Rightarrow> bool" where
  "vote_IsVerified v \<longleftrightarrow> vote_vchSig v \<noteq> []"

definition MarkAsNotVerified :: "CMasternodePaymentVote \<Rightarrow> CMasternodePaymentVote" where
  "MarkAsNotVerified v = v\<lparr>vote_vchSig := []\<rparr>"

fun AddPayee_loop :: "bytes \<Rightarrow> uint256 \<Rightarrow> CMasternodePayee list \<Rightarrow> CMasternodePayee list" where
  "AddPayee_loop payee h [] = [\<lparr>GetPayee = payee, vecVoteHashes = [h]\<rparr>]"
| "AddPayee_loop payee h (p # rest) = (if GetPayee p = payee then AddVoteHash h p # rest else p # AddPayee_loop payee h rest)"

definition AddPayee :: "hash_functions \<Rightarrow> CMasternodePaymentVote \<Rightarrow> CMasternodePayee list \<Rightarrow> CMasternodePayee list" where
  \<comment> \<open>on \<open>vecPayees\<close>\<close>
  "AddPayee H vote vecPayees = AddPayee_loop (vote_payee vote) (vote_GetHash H vote) vecPayees"

fun best_loop :: "CMasternodePayee list \<Rightarrow> int \<Rightarrow> bytes option \<Rightarrow> bytes option" where
  "best_loop [] nVotes payeeRet = payeeRet"
| "best_loop (p # rest) nVotes payeeRet =
     (if GetVoteCount p > nVotes then best_loop rest (GetVoteCount p) (Some (GetPayee p)) else best_loop rest nVotes payeeRet)"

definition GetBestPayee :: "CMasternodePayee list \<Rightarrow> bytes option" where
  \<comment> \<open>\<open>None\<close>: returns false\<close>
  "GetBestPayee vecPayees = best_loop vecPayees (- 1) None"

definition HasPayeeWithVotes :: "bytes \<Rightarrow> int \<Rightarrow> CMasternodePayee list \<Rightarrow> bool" where
  "HasPayeeWithVotes payeeIn nVotesReq vecPayees = list_ex (\<lambda>p. GetVoteCount p \<ge> nVotesReq \<and> GetPayee p = payeeIn) vecPayees"

definition payees_IsTransactionValid :: "int \<Rightarrow> int \<Rightarrow> CMasternodePayee list \<Rightarrow> 'a CMutableTransaction_scheme \<Rightarrow> node_fault + bool" where
  \<comment> \<open>the first argument is \<open>founderPayment.getFounderStartHeight()\<close>\<close>
  "payees_IsTransactionValid fs nBlockHeight vecPayees txNew =
     (case GetValueOut txNew of
        Inl () \<Rightarrow> Inl (Exception ''value out of range'')
      | Inr nValueOut \<Rightarrow>
     (let nMasternodePayment = GetMasternodePayment fs nBlockHeight nValueOut;
          nMaxSignatures = fold (\<lambda>p m. if GetVoteCount p \<ge> m then GetVoteCount p else m) vecPayees 0
      in Inr (if nMaxSignatures < MNPAYMENTS_SIGNATURES_REQUIRED then True
              else list_ex (\<lambda>p. GetVoteCount p \<ge> MNPAYMENTS_SIGNATURES_REQUIRED \<and>
                     list_ex (\<lambda>txout. GetPayee p = scriptPubKey txout \<and> nMasternodePayment = nValue txout) (vout txNew)) vecPayees)))"

record CMasternodePayments =
  mapMasternodePaymentVotes :: "(uint256 \<times> CMasternodePaymentVote) list"
  mapMasternodeBlocks :: "(int \<times> CMasternodePayee list) list"
  mapMasternodesLastVote :: "COutPoint \<Rightarrow> int option"
  pCurrentBlockIndex :: "int option"  \<comment> \<open>its height\<close>

definition payments_Clear :: "CMasternodePayments \<Rightarrow> CMasternodePayments" where
  "payments_Clear m = m\<lparr>mapMasternodePaymentVotes := [], mapMasternodeBlocks := []\<rparr>"

definition CanVote :: "COutPoint \<Rightarrow> int \<Rightarrow> CMasternodePayments \<Rightarrow> bool \<times> CMasternodePayments" where
  "CanVote outMasternode nBlockHeight m =
     (if mapMasternodesLastVote m outMasternode = Some nBlockHeight then (False, m)
      else (True, m\<lparr>mapMasternodesLastVote := (mapMasternodesLastVote m)(outMasternode \<mapsto> nBlockHeight)\<rparr>))"

definition GetBlockPayee :: "int \<Rightarrow> CMasternodePayments \<Rightarrow> bytes option" where
  "GetBlockPayee nBlockHeight m = Option.bind (map_of (mapMasternodeBlocks m) nBlockHeight) GetBestPayee"

definition IsScheduled :: "bytes \<Rightarrow> int \<Rightarrow> CMasternodePayments \<Rightarrow> bool" where
  \<comment> \<open>\<open>mnpayee\<close> is the script for the masternode's collateral key\<close>
  "IsScheduled mnpayee nNotBlockHeight m =
     (case pCurrentBlockIndex m of
        None \<Rightarrow> False
      | Some cur \<Rightarrow> list_ex (\<lambda>h. h \<noteq> nNotBlockHeight \<and> GetBlockPayee h m = Some mnpayee) [cur .. cur + 8])"

definition HasVerifiedPaymentVote :: "uint256 \<Rightarrow> CMasternodePayments \<Rightarrow> bool" where
  "HasVerifiedPaymentVote hashIn m \<longleftrightarrow>
     (case map_of (mapMasternodePaymentVotes m) hashIn of None \<Rightarrow> False | Some v \<Rightarrow> vote_IsVerified v)"

definition AddPaymentVote ::
  "hash_functions \<Rightarrow> (int \<Rightarrow> bool) \<Rightarrow> CMasternodePaymentVote \<Rightarrow> CMasternodePayments \<Rightarrow> bool \<times> CMasternodePayments" where
  \<comment> \<open>the second argument: \<open>GetBlockHash\<close> finds a block of this height\<close>
  "AddPaymentVote H has_block vote m =
     (if \<not> has_block (vote_nBlockHeight vote - 101) then (False, m)
      else if HasVerifiedPaymentVote (vote_GetHash H vote) m then (False, m)
      else let payees = (case map_of (mapMasternodeBlocks m) (vote_nBlockHeight vote) of None \<Rightarrow> [] | Some ps \<Rightarrow> ps)
           in (True, m\<lparr>mapMasternodePaymentVotes := AList.update (vote_GetHash H vote) vote (mapMasternodePaymentVotes m),
                       mapMasternodeBlocks := AList.update (vote_nBlockHeight vote) (AddPayee H vote payees) (mapMasternodeBlocks m)\<rparr>))"

definition payments_IsTransactionValid :: "int \<Rightarrow> CMasternodePayments \<Rightarrow> 'a CMutableTransaction_scheme \<Rightarrow> int \<Rightarrow> node_fault + bool" where
  "payments_IsTransactionValid fs m txNew nBlockHeight =
     (case map_of (mapMasternodeBlocks m) nBlockHeight of
        None \<Rightarrow> Inr True
      | Some payees \<Rightarrow> payees_IsTransactionValid fs nBlockHeight payees txNew)"

definition GetStorageLimit :: "int \<Rightarrow> int" where
  \<comment> \<open>the factor \<open>1.25f\<close> is exact for fewer than 2^21 masternodes\<close>
  "GetStorageLimit mnodes = max (mnodes * 5 div 4) 5000"

definition CheckAndRemove :: "int \<Rightarrow> CMasternodePayments \<Rightarrow> CMasternodePayments" where
  "CheckAndRemove mnodes m =
     (case pCurrentBlockIndex m of
        None \<Rightarrow> m
      | Some cur \<Rightarrow>
     (let old = (\<lambda>v. cur - vote_nBlockHeight v > GetStorageLimit mnodes);
          gone = map (vote_nBlockHeight \<circ> snd) (filter (\<lambda>kv. old (snd kv)) (mapMasternodePaymentVotes m))
      in m\<lparr>mapMasternodePaymentVotes := filter (\<lambda>kv. \<not> old (snd kv)) (mapMasternodePaymentVotes m),
           mapMasternodeBlocks := filter (\<lambda>kb. fst kb \<notin> set gone) (mapMasternodeBlocks m)\<rparr>))"

definition FillBlockPayee ::
  "int \<Rightarrow> CMasternodePayments \<Rightarrow> bytes option \<Rightarrow> CMutableTransaction \<Rightarrow> int \<Rightarrow> CAmount \<Rightarrow> CMutableTransaction \<times> CTxOut option" where
  \<comment> \<open>the third argument is the script of the next masternode in the queue, if there is one; the
    second result is \<open>txoutMasternodeRet\<close> when it is set\<close>
  "FillBlockPayee fs m queue txNew nBlockHeight blockReward =
     (case (case GetBlockPayee nBlockHeight m of Some payee \<Rightarrow> Some payee | None \<Rightarrow> queue) of
        None \<Rightarrow> (txNew, None)
      | Some payee \<Rightarrow>
     (let masternodePayment = GetMasternodePayment fs nBlockHeight blockReward;
          ret = CTxOut_of masternodePayment payee
      in (txNew\<lparr>vout := (vout txNew)[0 := (vout txNew ! 0)\<lparr>nValue := nValue (vout txNew ! 0) - masternodePayment\<rparr>] @ [ret]\<rparr>, Some ret)))"

section \<open>Receiving and sending votes\<close>

definition MIN_MASTERNODE_PAYMENT_PROTO_VERSION_1 :: int where "MIN_MASTERNODE_PAYMENT_PROTO_VERSION_1 = 70206"
definition MIN_MASTERNODE_PAYMENT_PROTO_VERSION_2 :: int where "MIN_MASTERNODE_PAYMENT_PROTO_VERSION_2 = 70206"

text \<open>
  What the handlers ask of the rest of the node.
\<close>

record masternode_env =
  env_hashes :: hash_functions
  env_recover :: recover
  pay_updated :: bool  \<comment> \<open>\<open>SPORK_10_MASTERNODE_PAY_UPDATED_NODES\<close> is active\<close>
  mn_list_synced :: bool  \<comment> \<open>\<open>masternodeSync.IsMasternodeListSynced()\<close>\<close>
  winners_synced :: bool  \<comment> \<open>\<open>masternodeSync.IsWinnersListSynced()\<close>\<close>
  fLiteMode :: bool
  fMasterNode :: bool
  mn_Find :: "COutPoint \<Rightarrow> int option"  \<comment> \<open>\<open>mnodeman.Find\<close>: the masternode's protocol version\<close>
  mn_info :: "COutPoint \<Rightarrow> CPubKey option"  \<comment> \<open>\<open>mnodeman.GetMasternodeInfo\<close>: its key\<close>
  GetMasternodeRank :: "COutPoint \<Rightarrow> int \<Rightarrow> int \<Rightarrow> int"
  mn_size :: int  \<comment> \<open>\<open>mnodeman.size()\<close>\<close>
  mn_queue :: "int \<Rightarrow> bytes option"  \<comment> \<open>the script of \<open>GetNextMasternodeInQueueForPayment\<close>\<close>
  has_block :: "int \<Rightarrow> bool"  \<comment> \<open>\<open>GetBlockHash\<close> finds a block of this height\<close>
  active_vin :: CTxIn
  active_key :: CPubKey
  active_sign :: "string \<Rightarrow> bytes option"  \<comment> \<open>\<open>SignMessage\<close> with \<open>activeMasternode.keyMasternode\<close>\<close>

datatype vote_effect =
    AskForMN COutPoint | Misbehaving int | RelayVote uint256 | AddedPaymentVote

definition GetMinMasternodePaymentsProto :: "masternode_env \<Rightarrow> int" where
  "GetMinMasternodePaymentsProto E =
     (if pay_updated E then MIN_MASTERNODE_PAYMENT_PROTO_VERSION_2 else MIN_MASTERNODE_PAYMENT_PROTO_VERSION_1)"

definition vote_strMessage :: "hash_functions \<Rightarrow> CMasternodePaymentVote \<Rightarrow> string" where
  "vote_strMessage H v =
     ToStringShort (prevout (vinMasternode v)) @ lexical_cast_int (vote_nBlockHeight v) @ ScriptToAsmStr H (vote_payee v) False"

definition vote_CheckSignature :: "masternode_env \<Rightarrow> CPubKey \<Rightarrow> int \<Rightarrow> CMasternodePaymentVote \<Rightarrow> bool \<times> int" where
  \<comment> \<open>the result and \<open>nDos\<close>\<close>
  "vote_CheckSignature E pubKeyMasternode nValidationHeight v =
     (if \<not> VerifyMessage (env_hashes E) (env_recover E) pubKeyMasternode (vote_vchSig v) (vote_strMessage (env_hashes E) v)
      then (False, if mn_list_synced E \<and> vote_nBlockHeight v > nValidationHeight then 20 else 0)
      else (True, 0))"

definition vote_Sign :: "masternode_env \<Rightarrow> CMasternodePaymentVote \<Rightarrow> bool \<times> CMasternodePaymentVote" where
  "vote_Sign E v =
     (case active_sign E (vote_strMessage (env_hashes E) v) of
        None \<Rightarrow> (False, v)
      | Some sig \<Rightarrow>
          let v' = v\<lparr>vote_vchSig := sig\<rparr>
          in (VerifyMessage (env_hashes E) (env_recover E) (active_key E) sig (vote_strMessage (env_hashes E) v'), v'))"

definition vote_IsValid :: "masternode_env \<Rightarrow> int \<Rightarrow> CMasternodePaymentVote \<Rightarrow> bool \<times> vote_effect list" where
  "vote_IsValid E nValidationHeight v =
     (let out = prevout (vinMasternode v) in
      case mn_Find E out of
        None \<Rightarrow> (False, if mn_list_synced E then [AskForMN out] else [])
      | Some nProtocolVersion \<Rightarrow>
     (let nMinRequiredProtocol =
            (if vote_nBlockHeight v \<ge> nValidationHeight then GetMinMasternodePaymentsProto E
             else MIN_MASTERNODE_PAYMENT_PROTO_VERSION_1)
      in if nProtocolVersion < nMinRequiredProtocol then (False, [])
         else if \<not> fMasterNode E \<and> vote_nBlockHeight v < nValidationHeight then (True, [])
         else let nRank = GetMasternodeRank E out (vote_nBlockHeight v - 101) nMinRequiredProtocol
              in if nRank = - 1 then (False, [])
                 else if nRank > MNPAYMENTS_SIGNATURES_TOTAL
                 then (False, if nRank > MNPAYMENTS_SIGNATURES_TOTAL * 2 \<and> vote_nBlockHeight v > nValidationHeight
                              then [Misbehaving 20] else [])
                 else (True, [])))"

definition vote_Relay :: "masternode_env \<Rightarrow> CMasternodePaymentVote \<Rightarrow> vote_effect list" where
  "vote_Relay E v = (if winners_synced E then [RelayVote (vote_GetHash (env_hashes E) v)] else [])"

definition ProcessVote ::
  "masternode_env \<Rightarrow> int \<Rightarrow> CMasternodePaymentVote \<Rightarrow> CMasternodePayments \<Rightarrow> CMasternodePayments \<times> vote_effect list" where
  \<comment> \<open>the branch of \<open>ProcessMessage\<close> for \<open>NetMsgType::MASTERNODEPAYMENTVOTE\<close>; the second argument is
    \<open>pfrom->nVersion\<close>\<close>
  "ProcessVote E peer_version vote m =
     (if \<not> mn_list_synced E \<or> fLiteMode E \<or> peer_version < GetMinMasternodePaymentsProto E then (m, [])
      else case pCurrentBlockIndex m of
        None \<Rightarrow> (m, [])
      | Some cur \<Rightarrow>
     (let H = env_hashes E; nHash = vote_GetHash H vote; out = prevout (vinMasternode vote) in
      if map_of (mapMasternodePaymentVotes m) nHash \<noteq> None then (m, [])
      else
     (let m1 = m\<lparr>mapMasternodePaymentVotes := AList.update nHash (MarkAsNotVerified vote) (mapMasternodePaymentVotes m)\<rparr>;
          nFirstBlock = cur - GetStorageLimit (mn_size E)
      in if vote_nBlockHeight vote < nFirstBlock \<or> vote_nBlockHeight vote > cur + 20 then (m1, [])
         else case vote_IsValid E cur vote of
           (False, eff) \<Rightarrow> (m1, eff)
         | (True, eff) \<Rightarrow>
        (case CanVote out (vote_nBlockHeight vote) m1 of
           (False, m2) \<Rightarrow> (m2, eff)
         | (True, m2) \<Rightarrow>
        (case mn_info E out of
           None \<Rightarrow> (m2, eff @ [AskForMN out])
         | Some key \<Rightarrow>
        (case vote_CheckSignature E key cur vote of
           (False, nDos) \<Rightarrow> (m2, eff @ (if nDos \<noteq> 0 then [Misbehaving nDos] else []) @ [AskForMN out])
         | (True, nDos) \<Rightarrow>
        (case AddPaymentVote H (has_block E) vote m2 of
           (True, m3) \<Rightarrow> (m3, eff @ vote_Relay E vote @ [AddedPaymentVote])
         | (False, m3) \<Rightarrow> (m3, eff))))))))"

definition ProcessBlock :: "masternode_env \<Rightarrow> int \<Rightarrow> CMasternodePayments \<Rightarrow> bool \<times> CMasternodePayments \<times> vote_effect list" where
  "ProcessBlock E nBlockHeight m =
     (if fLiteMode E \<or> \<not> fMasterNode E \<or> \<not> mn_list_synced E then (False, m, [])
      else let nRank = GetMasternodeRank E (prevout (active_vin E)) (nBlockHeight - 101) (GetMinMasternodePaymentsProto E)
           in if nRank = - 1 \<or> nRank > MNPAYMENTS_SIGNATURES_TOTAL then (False, m, [])
              else case mn_queue E nBlockHeight of
                None \<Rightarrow> (False, m, [])
              | Some payee \<Rightarrow>
             (case vote_Sign E \<lparr>vinMasternode = active_vin E, vote_nBlockHeight = nBlockHeight, vote_payee = payee, vote_vchSig = []\<rparr> of
                (False, voteNew) \<Rightarrow> (False, m, [])
              | (True, voteNew) \<Rightarrow>
             (case AddPaymentVote (env_hashes E) (has_block E) voteNew m of
                (True, m') \<Rightarrow> (True, m', vote_Relay E voteNew)
              | (False, m') \<Rightarrow> (False, m', []))))"

definition UpdatedBlockTip :: "masternode_env \<Rightarrow> int \<Rightarrow> CMasternodePayments \<Rightarrow> CMasternodePayments \<times> vote_effect list" where
  \<comment> \<open>the second argument is \<open>pindex->nHeight\<close>\<close>
  "UpdatedBlockTip E cur m = snd (ProcessBlock E (cur + 10) (m\<lparr>pCurrentBlockIndex := Some cur\<rparr>))"

definition Sync :: "CMasternodePayments \<Rightarrow> uint256 list" where
  \<comment> \<open>the votes announced to a peer that asks for the list\<close>
  "Sync m =
     (case pCurrentBlockIndex m of
        None \<Rightarrow> []
      | Some cur \<Rightarrow>
          concat (map (\<lambda>h. case map_of (mapMasternodeBlocks m) h of
                              None \<Rightarrow> []
                            | Some payees \<Rightarrow> filter (\<lambda>hash. HasVerifiedPaymentVote hash m) (concat (map vecVoteHashes payees)))
                      [cur .. cur + 19]))"

definition IsEnoughData :: "masternode_env \<Rightarrow> CMasternodePayments \<Rightarrow> bool" where
  \<comment> \<open>the average of votes is 8; the products of floats are exact below 2^24\<close>
  "IsEnoughData E m \<longleftrightarrow>
     int (length (mapMasternodeBlocks m)) > GetStorageLimit (mn_size E) \<and>
     int (length (mapMasternodePaymentVotes m)) >
       GetStorageLimit (mn_size E) * ((MNPAYMENTS_SIGNATURES_TOTAL + MNPAYMENTS_SIGNATURES_REQUIRED) div 2)"

section \<open>Superblocks\<close>

record CSuperblock =
  vecPayments :: "(bytes \<times> CAmount) list"  \<comment> \<open>\<open>script\<close> and \<open>nAmount\<close>\<close>
  GetBlockStart :: int
  sb_object :: bool  \<comment> \<open>\<open>GetGovernanceObject()\<close> is not null\<close>
  sb_funding :: bool  \<comment> \<open>\<open>IsSetCachedFunding()\<close> after \<open>UpdateSentinelVariables\<close>\<close>
  sb_yes :: int  \<comment> \<open>\<open>GetAbsoluteYesCount(VOTE_SIGNAL_FUNDING)\<close>\<close>

definition sb_IsValidBlockHeight :: "Consensus_Params \<Rightarrow> int \<Rightarrow> bool" where
  "sb_IsValidBlockHeight P nBlockHeight \<longleftrightarrow>
     nBlockHeight \<ge> nSuperblockStartBlock P \<and> cmod nBlockHeight (nSuperblockCycle P) = 0"

definition GetPaymentsLimit :: "Consensus_Params \<Rightarrow> int \<Rightarrow> CAmount option" where
  \<comment> \<open>\<open>None\<close>: \<open>GetBlockSubsidy\<close> does not return\<close>
  "GetPaymentsLimit P nBlockHeight =
     (if \<not> sb_IsValidBlockHeight P nBlockHeight then Some 0
      else case (if fPowAllowMinDifficultyBlocks P then GetCompact (UintToArith256 (powLimit P)) False else Some 1) of
        None \<Rightarrow> None
      | Some bits \<Rightarrow>
          map_option (\<lambda>nSuperblockPartOfSubsidy. nSuperblockPartOfSubsidy * nSuperblockCycle P)
            (GetBlockSubsidy bits nBlockHeight P True))"

definition GetPaymentsTotalAmount :: "CSuperblock \<Rightarrow> CAmount" where
  "GetPaymentsTotalAmount sb = sum_list (map snd (vecPayments sb))"

fun find_output :: "bytes \<times> CAmount \<Rightarrow> CTxOut list \<Rightarrow> nat list \<Rightarrow> nat option" where
  \<comment> \<open>the loop over the remaining indices \<open>j\<close>\<close>
  "find_output payment outs [] = None"
| "find_output payment outs (j # rest) =
     (if fst payment = scriptPubKey (outs ! j) \<and> snd payment = nValue (outs ! j) then Some j else find_output payment outs rest)"

fun match_payments :: "(bytes \<times> CAmount) list \<Rightarrow> CTxOut list \<Rightarrow> nat \<Rightarrow> bool" where
  "match_payments [] outs nVoutIndex = True"
| "match_payments (payment # rest) outs nVoutIndex =
     (case find_output payment outs [nVoutIndex..<length outs] of
        None \<Rightarrow> False
      | Some j \<Rightarrow> match_payments rest outs j)"

definition sb_IsValid :: "Consensus_Params \<Rightarrow> CSuperblock \<Rightarrow> 'a CMutableTransaction_scheme \<Rightarrow> int \<Rightarrow> CAmount \<Rightarrow> node_fault + bool" where
  "sb_IsValid P sb txNew nBlockHeight blockReward =
     (if \<not> sb_IsValidBlockHeight P nBlockHeight then Inr False
      else if length (vout txNew) < length (vecPayments sb) then Inr False
      else case GetPaymentsLimit P nBlockHeight of
        None \<Rightarrow> Inl NoReturn
      | Some nPaymentsLimit \<Rightarrow>
          if GetPaymentsTotalAmount sb > nPaymentsLimit then Inr False
          else case GetValueOut txNew of
            Inl () \<Rightarrow> Inl (Exception ''value out of range'')
          | Inr nBlockValue \<Rightarrow>
              if nBlockValue > blockReward + GetPaymentsTotalAmount sb then Inr False
              else Inr (match_payments (vecPayments sb) (vout txNew) 0))"

definition IsSuperblockTriggered :: "Consensus_Params \<Rightarrow> CSuperblock option list \<Rightarrow> int \<Rightarrow> bool" where
  \<comment> \<open>the second argument is \<open>triggerman.GetActiveTriggers()\<close>\<close>
  "IsSuperblockTriggered P vecTriggers nBlockHeight \<longleftrightarrow>
     sb_IsValidBlockHeight P nBlockHeight \<and>
     list_ex (\<lambda>t. case t of None \<Rightarrow> False
                          | Some sb \<Rightarrow> sb_object sb \<and> nBlockHeight = GetBlockStart sb \<and> sb_funding sb) vecTriggers"

fun best_superblock_loop :: "CSuperblock option list \<Rightarrow> int \<Rightarrow> int \<Rightarrow> CSuperblock option \<Rightarrow> int \<times> CSuperblock option" where
  "best_superblock_loop [] nBlockHeight nYesCount pSuperblockRet = (nYesCount, pSuperblockRet)"
| "best_superblock_loop (t # rest) nBlockHeight nYesCount pSuperblockRet =
     (case t of
        None \<Rightarrow> best_superblock_loop rest nBlockHeight nYesCount pSuperblockRet
      | Some sb \<Rightarrow>
          if \<not> sb_object sb \<or> nBlockHeight \<noteq> GetBlockStart sb then best_superblock_loop rest nBlockHeight nYesCount pSuperblockRet
          else if sb_yes sb > nYesCount then best_superblock_loop rest nBlockHeight (sb_yes sb) (Some sb)
          else best_superblock_loop rest nBlockHeight nYesCount pSuperblockRet)"

definition GetBestSuperblock :: "Consensus_Params \<Rightarrow> CSuperblock option list \<Rightarrow> int \<Rightarrow> CSuperblock option" where
  "GetBestSuperblock P vecTriggers nBlockHeight =
     (if \<not> sb_IsValidBlockHeight P nBlockHeight then None
      else case best_superblock_loop vecTriggers nBlockHeight 0 None of
        (nYesCount, r) \<Rightarrow> if nYesCount > 0 then r else None)"

definition manager_IsValid ::
  "Consensus_Params \<Rightarrow> CSuperblock option list \<Rightarrow> 'a CMutableTransaction_scheme \<Rightarrow> int \<Rightarrow> CAmount \<Rightarrow> node_fault + bool" where
  "manager_IsValid P vecTriggers txNew nBlockHeight blockReward =
     (case GetBestSuperblock P vecTriggers nBlockHeight of
        None \<Rightarrow> Inr False
      | Some sb \<Rightarrow> sb_IsValid P sb txNew nBlockHeight blockReward)"

definition CreateSuperblock ::
  "Consensus_Params \<Rightarrow> CSuperblock option list \<Rightarrow> CMutableTransaction \<Rightarrow> int \<Rightarrow> CMutableTransaction \<times> CTxOut list option" where
  \<comment> \<open>the second result is \<open>voutSuperblockRet\<close> when it is set\<close>
  "CreateSuperblock P vecTriggers txNewRet nBlockHeight =
     (case GetBestSuperblock P vecTriggers nBlockHeight of
        None \<Rightarrow> (txNewRet, None)
      | Some sb \<Rightarrow>
          let outs = map (\<lambda>(script, amount). CTxOut_of amount script) (vecPayments sb)
          in (txNewRet\<lparr>vout := vout txNewRet @ outs\<rparr>, Some outs))"

section \<open>Block value and payee\<close>

record payment_ctx =
  mnpayments :: CMasternodePayments
  triggers :: "CSuperblock option list"
  mn_synced :: bool  \<comment> \<open>\<open>masternodeSync.IsSynced()\<close>\<close>

definition budget_window :: "Consensus_Params \<Rightarrow> int \<Rightarrow> bool" where
  "budget_window P nBlockHeight \<longleftrightarrow>
     nBlockHeight \<ge> nBudgetPaymentsStartBlock P \<and> cmod nBlockHeight (nBudgetPaymentsCycleBlocks P) < nBudgetPaymentsWindowBlocks P"

definition IsBlockValueValid :: "node_ctx \<Rightarrow> payment_ctx \<Rightarrow> 'a CMutableTransaction_scheme \<Rightarrow> int \<Rightarrow> CAmount \<Rightarrow> node_fault + bool" where
  \<comment> \<open>on \<open>block.vtx[0]\<close>\<close>
  "IsBlockValueValid G M coinbase nBlockHeight blockReward =
     (let P = consensus G in
      case GetValueOut coinbase of
        Inl () \<Rightarrow> Inl (Exception ''value out of range'')
      | Inr nValueOut \<Rightarrow>
     (let isBlockRewardValueMet = (nValueOut \<le> blockReward) in
      if nBlockHeight < nSuperblockStartBlock P
      then if budget_window P nBlockHeight
           then if mn_synced M \<and> \<not> spork_on G SPORK_13_OLD_SUPERBLOCK_FLAG then Inr isBlockRewardValueMet else Inr True
           else Inr isBlockRewardValueMet
      else case GetPaymentsLimit P nBlockHeight of
        None \<Rightarrow> Inl NoReturn
      | Some limit \<Rightarrow>
     (let isSuperblockMaxValueMet = (nValueOut \<le> blockReward + limit) in
      if \<not> mn_synced M
      then if sb_IsValidBlockHeight P nBlockHeight then Inr isSuperblockMaxValueMet else Inr isBlockRewardValueMet
      else if spork_on G SPORK_9_SUPERBLOCKS_ENABLED \<and> IsSuperblockTriggered P (triggers M) nBlockHeight
      then manager_IsValid P (triggers M) coinbase nBlockHeight blockReward
      else Inr isBlockRewardValueMet)))"

definition IsBlockPayeeValid :: "node_ctx \<Rightarrow> payment_ctx \<Rightarrow> 'a CMutableTransaction_scheme \<Rightarrow> int \<Rightarrow> CAmount \<Rightarrow> node_fault + bool" where
  "IsBlockPayeeValid G M txNew nBlockHeight blockReward =
     (let P = consensus G; fs = founderStartHeight (founder_payment G) in
      if \<not> mn_synced M then Inr True
      else if nBlockHeight < nSuperblockStartBlock P
      then sum_bind (payments_IsTransactionValid fs (mnpayments M) txNew nBlockHeight) (\<lambda>ok.
             if ok then Inr True
             else if budget_window P nBlockHeight then Inr (spork_on G SPORK_13_OLD_SUPERBLOCK_FLAG)
             else Inr (\<not> spork_on G SPORK_8_MASTERNODE_PAYMENT_ENFORCEMENT))
      else if spork_on G SPORK_9_SUPERBLOCKS_ENABLED \<and> IsSuperblockTriggered P (triggers M) nBlockHeight
      then manager_IsValid P (triggers M) txNew nBlockHeight blockReward
      else sum_bind (payments_IsTransactionValid fs (mnpayments M) txNew nBlockHeight) (\<lambda>ok.
             if ok then Inr True else Inr (\<not> spork_on G SPORK_8_MASTERNODE_PAYMENT_ENFORCEMENT)))"

definition FillBlockPayments ::
  "node_ctx \<Rightarrow> payment_ctx \<Rightarrow> bytes option \<Rightarrow> CMutableTransaction \<Rightarrow> int \<Rightarrow> CAmount \<Rightarrow> CMutableTransaction \<times> CTxOut option \<times> CTxOut list option" where
  "FillBlockPayments G M queue txNew nBlockHeight blockReward =
     (if spork_on G SPORK_9_SUPERBLOCKS_ENABLED \<and> IsSuperblockTriggered (consensus G) (triggers M) nBlockHeight
      then case CreateSuperblock (consensus G) (triggers M) txNew nBlockHeight of (tx, outs) \<Rightarrow> (tx, None, outs)
      else case FillBlockPayee (founderStartHeight (founder_payment G)) (mnpayments M) queue txNew nBlockHeight blockReward of
             (tx, out) \<Rightarrow> (tx, out, None))"

definition miner_coinbase ::
  "node_ctx \<Rightarrow> payment_ctx \<Rightarrow> bytes option \<Rightarrow> CMutableTransaction \<Rightarrow> int \<Rightarrow> CAmount \<Rightarrow> CMutableTransaction" where
  \<comment> \<open>the coinbase in \<open>CreateNewBlock\<close>\<close>
  "miner_coinbase G M queue txNew nBlockHeight blockReward =
     (let txNew = txNew\<lparr>vout := (vout txNew)[0 := (vout txNew ! 0)\<lparr>nValue := blockReward\<rparr>]\<rparr>;
          txNew = fst (FillBlockPayments G M queue txNew nBlockHeight blockReward)
      in fst (FillFounderPayment (founder_payment G) txNew nBlockHeight blockReward))"

section \<open>A block creates no more than its reward\<close>

lemma GetBlockSubsidy_superblock_part:
  "GetBlockSubsidy bits h P True = Some r \<Longrightarrow> 250 \<le> h \<Longrightarrow> h + 1 \<noteq> POST_MINE_HEIGHT \<Longrightarrow> r = 0"
  by (auto simp: GetBlockSubsidy_def Let_def split: if_splits option.splits)

lemma GetPaymentsLimit_zero:
  assumes "GetPaymentsLimit P h = Some limit" "250 \<le> nSuperblockStartBlock P" "h + 1 \<noteq> POST_MINE_HEIGHT"
  shows "limit = 0"
  using assms GetBlockSubsidy_superblock_part [of _ h P]
  by (auto simp: GetPaymentsLimit_def sb_IsValidBlockHeight_def split: if_splits option.splits)

lemma sb_IsValid_value:
  assumes "sb_IsValid P sb tx h r = Inr True"
  shows "\<exists>limit v. GetPaymentsLimit P h = Some limit \<and> GetPaymentsTotalAmount sb \<le> limit \<and>
    GetValueOut tx = Inr v \<and> v \<le> r + GetPaymentsTotalAmount sb"
proof (cases "GetPaymentsLimit P h")
  case None
  then show ?thesis using assms by (simp add: sb_IsValid_def split: if_splits)
next
  case (Some limit)
  then show ?thesis using assms
    by (cases "GetValueOut tx") (simp_all add: sb_IsValid_def not_less split: if_splits unit.splits)
qed

lemma manager_IsValid_value:
  assumes "manager_IsValid P ts tx h r = Inr True" "250 \<le> nSuperblockStartBlock P" "h + 1 \<noteq> POST_MINE_HEIGHT"
  shows "\<exists>v. GetValueOut tx = Inr v \<and> v \<le> r"
proof -
  obtain sb where "sb_IsValid P sb tx h r = Inr True"
    using assms(1) by (auto simp: manager_IsValid_def split: option.splits)
  from sb_IsValid_value [OF this] GetPaymentsLimit_zero [OF _ assms(2,3)] show ?thesis by fastforce
qed

text \<open>
  A block that passes \<open>IsBlockValueValid\<close> has a coinbase worth no more than the block reward, superblocks
  included (their limit is zero), except in the window of the old budgets while the node is not
  synchronised or \<open>SPORK_13_OLD_SUPERBLOCK_FLAG\<close> is on, where any value passes.
\<close>

lemma IsBlockValueValid_bounds_coinbase:
  assumes "IsBlockValueValid G M coinbase h blockReward = Inr True"
    and "250 \<le> nSuperblockStartBlock (consensus G)" "h + 1 \<noteq> POST_MINE_HEIGHT"
    and "h < nSuperblockStartBlock (consensus G) \<Longrightarrow> budget_window (consensus G) h \<Longrightarrow>
           mn_synced M \<and> \<not> spork_on G SPORK_13_OLD_SUPERBLOCK_FLAG"
  shows "\<exists>v. GetValueOut coinbase = Inr v \<and> v \<le> blockReward"
proof (cases "GetValueOut coinbase")
  case (Inl e)
  then show ?thesis using assms(1) by (simp add: IsBlockValueValid_def split: unit.splits)
next
  case (Inr v)
  show ?thesis
  proof (cases "h < nSuperblockStartBlock (consensus G)")
    case True
    then show ?thesis using assms(1,4) Inr by (simp add: IsBlockValueValid_def Let_def split: if_splits)
  next
    case False
    then show ?thesis
      using assms(1) Inr manager_IsValid_value [OF _ assms(2,3), of "triggers M" coinbase blockReward]
        GetPaymentsLimit_zero [OF _ assms(2,3)]
      by (auto simp add: IsBlockValueValid_def Let_def split: if_splits option.splits)
  qed
qed

lemma best_superblock_in:
  assumes "best_superblock_loop ts h n best = (n', Some sb)"
  shows "best = Some sb \<or> Some sb \<in> set ts \<and> GetBlockStart sb = h"
  using assms by (induction ts arbitrary: n best) (auto split: option.splits if_splits)

lemma GetBestSuperblock_in:
  "GetBestSuperblock P ts h = Some sb \<Longrightarrow> Some sb \<in> set ts \<and> GetBlockStart sb = h"
  using best_superblock_in [of ts h 0 None] by (auto simp: GetBestSuperblock_def split: if_splits prod.splits)

lemma paying_superblock_invalid:
  assumes "\<And>sb. Some sb \<in> set ts \<Longrightarrow> GetBlockStart sb = h \<Longrightarrow> 0 < GetPaymentsTotalAmount sb"
    and "250 \<le> nSuperblockStartBlock P" "h + 1 \<noteq> POST_MINE_HEIGHT"
  shows "manager_IsValid P ts tx h r \<noteq> Inr True"
proof
  assume a: "manager_IsValid P ts tx h r = Inr True"
  then obtain sb where "GetBestSuperblock P ts h = Some sb" and v: "sb_IsValid P sb tx h r = Inr True"
    by (auto simp: manager_IsValid_def split: option.splits)
  then have "0 < GetPaymentsTotalAmount sb" using assms(1) GetBestSuperblock_in by blast
  with sb_IsValid_value [OF v] GetPaymentsLimit_zero [OF _ assms(2,3)] show False by fastforce
qed

text \<open>C14: Superblocks stop the chain: with \<open>SPORK_9_SUPERBLOCKS_ENABLED\<close> on, at a height where a superblock is
  triggered and every superblock for that height pays something, no coinbase passes either check on
  a synchronised node, because \<open>GetPaymentsLimit\<close> is zero; not even the one that
  \<open>FillBlockPayments\<close> builds.\<close>

theorem triggered_superblock_stops_chain:
  assumes "mn_synced M" "spork_on G SPORK_9_SUPERBLOCKS_ENABLED" "IsSuperblockTriggered (consensus G) (triggers M) h"
    and "\<And>sb. Some sb \<in> set (triggers M) \<Longrightarrow> GetBlockStart sb = h \<Longrightarrow> 0 < GetPaymentsTotalAmount sb"
    and "250 \<le> nSuperblockStartBlock (consensus G)" "h + 1 \<noteq> POST_MINE_HEIGHT"
  shows "IsBlockValueValid G M (coinbase :: 'a CMutableTransaction_scheme) h blockReward \<noteq> Inr True \<and>
    IsBlockPayeeValid G M coinbase h blockReward \<noteq> Inr True"
proof -
  have inv: "manager_IsValid (consensus G) (triggers M) tx h r \<noteq> Inr True" for tx :: "'a CMutableTransaction_scheme" and r
    using paying_superblock_invalid assms(4-6) by blast
  have "\<not> h < nSuperblockStartBlock (consensus G)"
    using assms(3) by (simp add: IsSuperblockTriggered_def sb_IsValidBlockHeight_def)
  then show ?thesis using assms(1-3) inv
    by (simp add: IsBlockValueValid_def IsBlockPayeeValid_def Let_def split: sum.split unit.split option.split)
qed

section \<open>The block a miner fills is accepted\<close>

lemma best_loop_cases:
  "(best_loop ps n r = r \<and> (\<forall>q \<in> set ps. GetVoteCount q \<le> n)) \<or>
   (\<exists>p \<in> set ps. best_loop ps n r = Some (GetPayee p) \<and> n < GetVoteCount p \<and> (\<forall>q \<in> set ps. GetVoteCount q \<le> GetVoteCount p))"
proof (induction ps arbitrary: n r)
  case (Cons p ps)
  show ?case
  proof (cases "GetVoteCount p > n")
    case True
    then show ?thesis using Cons.IH [of "GetVoteCount p" "Some (GetPayee p)"] by fastforce
  next
    case False
    then show ?thesis using Cons.IH [of n r] by fastforce
  qed
qed simp

lemma GetBestPayee_max:
  "GetBestPayee ps = (if ps = [] then None else Some payee) \<Longrightarrow> ps \<noteq> [] \<Longrightarrow>
   \<exists>p \<in> set ps. GetPayee p = payee \<and> (\<forall>q \<in> set ps. GetVoteCount q \<le> GetVoteCount p)"
  using best_loop_cases [of ps "- 1" None] by (auto simp: GetBestPayee_def)

lemma GetBestPayee_None: "GetBestPayee ps = None \<longleftrightarrow> ps = []"
  using best_loop_cases [of ps "- 1" None] by (cases ps) (auto simp: GetBestPayee_def GetVoteCount_def)

lemma fold_max_bound:
  "m \<le> c \<Longrightarrow> (\<forall>q \<in> set ps. GetVoteCount q \<le> c) \<Longrightarrow> fold (\<lambda>p m. if GetVoteCount p \<ge> m then GetVoteCount p else m) ps m \<le> c"
  by (induction ps arbitrary: m) auto

lemma paid_payee_accepted:
  assumes "GetBestPayee ps = Some payee" "GetValueOut tx = Inr v"
    and "out \<in> set (vout tx)" "scriptPubKey out = payee" "nValue out = GetMasternodePayment fs h v"
  shows "payees_IsTransactionValid fs h ps tx = Inr True"
proof -
  obtain p where p: "p \<in> set ps" "GetPayee p = payee" "\<forall>q \<in> set ps. GetVoteCount q \<le> GetVoteCount p"
    using GetBestPayee_max [of ps payee] assms(1) GetBestPayee_None [of ps] by force
  let ?m = "fold (\<lambda>p m. if GetVoteCount p \<ge> m then GetVoteCount p else m) ps 0"
  have "?m \<le> GetVoteCount p" using p(3) by (intro fold_max_bound) (simp_all add: GetVoteCount_def)
  then have "MNPAYMENTS_SIGNATURES_REQUIRED \<le> ?m \<Longrightarrow> MNPAYMENTS_SIGNATURES_REQUIRED \<le> GetVoteCount p" by simp
  moreover have "\<exists>txout \<in> set (vout tx). GetPayee p = scriptPubKey txout \<and> GetMasternodePayment fs h v = nValue txout"
    using assms(3-5) p(2) by auto
  ultimately show ?thesis using assms(2) p(1)
    by (fastforce simp: payees_IsTransactionValid_def Let_def list_ex_iff not_less)
qed

lemma payments_accepted:
  assumes "GetValueOut tx = Inr v"
    and "\<And>payee. GetBlockPayee h m = Some payee \<Longrightarrow>
           \<exists>out \<in> set (vout tx). scriptPubKey out = payee \<and> nValue out = GetMasternodePayment fs h v"
  shows "payments_IsTransactionValid fs m tx h = Inr True"
proof (cases "map_of (mapMasternodeBlocks m) h")
  case (Some ps)
  show ?thesis
  proof (cases "GetBestPayee ps")
    case None
    then show ?thesis using Some assms(1)
      by (simp add: GetBestPayee_None payments_IsTransactionValid_def payees_IsTransactionValid_def
          MNPAYMENTS_SIGNATURES_REQUIRED_def)
  next
    case best: (Some payee)
    then obtain out where "out \<in> set (vout tx)" "scriptPubKey out = payee" "nValue out = GetMasternodePayment fs h v"
      using assms(2) [of payee] Some by (auto simp: GetBlockPayee_def)
    then show ?thesis using paid_payee_accepted [OF best assms(1)] Some by (simp add: payments_IsTransactionValid_def)
  qed
qed (simp add: payments_IsTransactionValid_def)

lemma round_half_even_up:
  assumes "0 < d"
  shows "2 * d * round_half_even n d \<le> 2 * n + d"
proof -
  define q r where "q = n div d" and "r = n mod d"
  have n: "n = d * q + r" and r: "0 \<le> r" using assms by (simp_all add: q_def r_def)
  consider "round_half_even n d = q" | "round_half_even n d = q + 1" "d \<le> 2 * r"
  proof (cases "2 * r > d \<or> (2 * r = d \<and> odd q)")
    case True
    then have "round_half_even n d = q + 1" "d \<le> 2 * r" by (auto simp: round_half_even_def Let_def q_def r_def)
    then show ?thesis by (rule that(2))
  next
    case False
    then have "round_half_even n d = q" by (simp add: round_half_even_def Let_def q_def r_def)
    then show ?thesis by (rule that(1))
  qed
  then show ?thesis
  proof cases
    case 1
    have "2 * d * q = 2 * (d * q)" by simp
    then have "2 * d * q \<le> 2 * n + d" using n r assms by linarith
    then show ?thesis by (simp only: 1)
  next
    case 2
    have "2 * d * (q + 1) = 2 * (d * q) + 2 * d" by (simp add: distrib_left)
    then have "2 * d * (q + 1) \<le> 2 * n + d" using n 2(2) by linarith
    then show ?thesis by (simp only: 2(1))
  qed
qed

lemma div_1_1_founder:
  assumes "0 \<le> v"
  shows "div_1_1 v + v div 11 \<le> v"
proof (cases "v = 0")
  case True
  then show ?thesis by (simp add: div_1_1_def)
next
  case False
  define d :: int where "d = 4953959590107546"
  define K :: int where "K = 2 ^ (53 - bit_length (nat (v * 2 ^ 52 div d)))"
  define n where "n = v * 2 ^ 52 * K"
  define q where "q = round_half_even n d"
  have d: "0 < d" "11 * 2 ^ 52 \<le> 10 * d" by (simp_all add: d_def)
  have K: "1 \<le> K" unfolding K_def by simp
  have dv: "div_1_1 v = q div K"
    using False assms(1) unfolding div_1_1_def double_quotient_def Let_def q_def n_def K_def d_def by simp
  have "q div K * K \<le> q" using K by (simp add: minus_mod_eq_div_mult [symmetric])
  then have "2 * d * (q div K * K) \<le> 2 * d * q" using d(1) by (intro mult_left_mono) simp_all
  also have "\<dots> \<le> 2 * n + d" unfolding q_def by (rule round_half_even_up [OF d(1)])
  finally have "11 * (2 * d * (q div K * K)) \<le> 2 * (v * K) * (11 * 2 ^ 52) + 11 * d" by (simp add: n_def)
  also have "\<dots> \<le> 2 * (v * K) * (10 * d) + 11 * d" using assms(1) K d(2)
    by (intro add_right_mono mult_left_mono) simp_all
  finally have "d * (22 * (q div K * K)) \<le> d * (20 * (v * K) + 11)" by (simp add: algebra_simps)
  then have "22 * (q div K * K) \<le> 20 * (v * K) + 11" using d(1) by (simp only: mult_le_cancel_left_pos)
  also have "\<dots> \<le> 20 * (v * K) + 11 * K" using K by simp
  finally have "K * (22 * (q div K)) \<le> K * (20 * v + 11)" by (simp add: algebra_simps)
  then have "22 * (q div K) \<le> 20 * v + 11" using K by (simp only: mult_le_cancel_left_pos)
  then show ?thesis unfolding dv by linarith
qed

lemma GetPaymentsLimit_Some:
  assumes "0 < nSubsidyHalvingInterval P" "0 \<le> h"
  shows "\<exists>limit. GetPaymentsLimit P h = Some limit"
proof -
  obtain c where "GetCompact (UintToArith256 (powLimit P)) False = Some c" using GetCompact_val [OF bu_wf_UintToArith256] by blast
  moreover have "\<exists>r. GetBlockSubsidy bits h P True = Some r" for bits
    using subsidy_loop_schedule [OF assms, of "10 * COIN"] by (auto simp: GetBlockSubsidy_def Let_def COIN_def)
  ultimately show ?thesis by (auto simp: GetPaymentsLimit_def)
qed

lemma miner_payments_fit:
  assumes r: "0 \<le> r" and post: "h = POST_MINE_HEIGHT \<Longrightarrow> POST_MINE_VALUE * COIN \<le> r"
  shows "0 \<le> GetMasternodePayment (founderStartHeight f) h r" "0 \<le> getFounderPaymentAmount f h r"
    "GetMasternodePayment (founderStartHeight f) h r + getFounderPaymentAmount f h r \<le> r"
proof -
  have f: "getFounderPaymentAmount f h r = (if h < founderStartHeight f then 0 else r div 11)"
    using r by (simp add: getFounderPaymentAmount_def)
  then show "0 \<le> getFounderPaymentAmount f h r" using r by (simp add: pos_imp_zdiv_nonneg_iff)
  have "0 \<le> GetMasternodePayment (founderStartHeight f) h r \<and>
      GetMasternodePayment (founderStartHeight f) h r + getFounderPaymentAmount f h r \<le> r"
  proof (cases "h = POST_MINE_HEIGHT")
    case True
    then have p: "0 \<le> r - POST_MINE_VALUE * COIN" "0 \<le> POST_MINE_VALUE * COIN" using post by (simp_all add: POST_MINE_VALUE_def COIN_def)
    then have "GetMasternodePayment (founderStartHeight f) h r = (r - POST_MINE_VALUE * COIN) div 10"
      using True by (simp add: GetMasternodePayment_def)
    then show ?thesis using p f by simp linarith
  next
    case False
    note b = GetMasternodePayment_bounds [OF r False, of "founderStartHeight f"]
    show ?thesis
    proof (cases "h < founderStartHeight f")
      case True
      then show ?thesis using b f by simp
    next
      case nf: False
      then have "GetMasternodePayment (founderStartHeight f) h r = div_1_1 r" using False by (simp add: GetMasternodePayment_def Let_def)
      then show ?thesis using b f nf div_1_1_founder [OF r] by simp
    qed
  qed
  then show "0 \<le> GetMasternodePayment (founderStartHeight f) h r"
    "GetMasternodePayment (founderStartHeight f) h r + getFounderPaymentAmount f h r \<le> r" by blast+
qed

lemma GetPaymentsLimit_nonneg:
  assumes "GetPaymentsLimit P h = Some limit" "0 \<le> nSuperblockCycle P"
  shows "0 \<le> limit"
proof -
  have "0 \<le> r" if "GetBlockSubsidy bits h P True = Some r" for bits r
    using that by (auto simp: GetBlockSubsidy_def Let_def POST_MINE_VALUE_def COIN_def split: if_splits option.splits)
  then show ?thesis using assms by (auto simp: GetPaymentsLimit_def split: if_splits option.splits)
qed

lemma FillBlockPayee_conserves:
  "vout tx \<noteq> [] \<Longrightarrow> sum_list (map nValue (vout (fst (FillBlockPayee fs m queue tx h r)))) = sum_list (map nValue (vout tx))"
  by (simp add: FillBlockPayee_def Let_def CTxOut_of_def map_update sum_list_update_int split: option.split)

text \<open>C35: The coinbase that \<open>CreateNewBlock\<close> fills passes the payment checks of the validating node, at every
  height and for every part of the masternode schedule (1, 40, 50, 60 percent, or the reward without the founders' eleventh):
  it is worth exactly the block reward, the miner's own output is not negative, the masternode payee and the value are accepted,
  and from the start of the founder payments so is the founder payee.  The conditions: the template has the
  miner's one output; no superblock is triggered while superblocks are enabled; the reward is within the money range, and
  at the height of the post-mine it is at least the post-mine; once founder payments have started the reward is at least 11, so that the
  founders' part is not 0, and there is a founder address; the consensus parameters have a positive halving interval
  and no negative superblock cycle, as those of all networks.\<close>

theorem miner_coinbase_accepted:
  fixes q :: "bytes option"
  assumes "length (vout txNew) = 1"
    and "\<not> (spork_on G SPORK_9_SUPERBLOCKS_ENABLED \<and> IsSuperblockTriggered (consensus G) (triggers M) h)"
    and "0 \<le> r" "r \<le> MAX_MONEY" "h = POST_MINE_HEIGHT \<Longrightarrow> POST_MINE_VALUE * COIN \<le> r"
    and "founderStartHeight (founder_payment G) \<le> h \<Longrightarrow> 11 \<le> r \<and> founderAddresses (founder_payment G) \<noteq> []"
    and "0 \<le> h" "0 < nSubsidyHalvingInterval (consensus G)" "0 \<le> nSuperblockCycle (consensus G)"
  defines "coinbase \<equiv> miner_coinbase G M q txNew h r"
  shows "GetValueOut coinbase = Inr r \<and> nValue (vout coinbase ! 0) \<ge> 0 \<and> IsBlockValueValid G M coinbase h r = Inr True \<and>
    IsBlockPayeeValid G M coinbase h r = Inr True \<and>
    (h < founderStartHeight (founder_payment G) \<or> IsBlockPayeeValid_founder (founder_payment G) coinbase h r)"
proof -
  let ?f = "founder_payment G" and ?fs = "founderStartHeight (founder_payment G)"
  let ?mn = "GetMasternodePayment ?fs h r" and ?fa = "getFounderPaymentAmount ?f h r"
  define tx0 where "tx0 = txNew\<lparr>vout := (vout txNew)[0 := (vout txNew ! 0)\<lparr>nValue := r\<rparr>]\<rparr>"
  define tx1 where "tx1 = fst (FillBlockPayee ?fs (mnpayments M) q tx0 h r)"
  have cb: "coinbase = fst (FillFounderPayment ?f tx1 h r)"
    unfolding coinbase_def miner_coinbase_def FillBlockPayments_def Let_def if_not_P [OF assms(2)] tx0_def tx1_def
    by (simp split: prod.split)
  obtain o0 where v0: "vout txNew = [o0]" using assms(1) by (cases "vout txNew") auto
  have fit: "0 \<le> ?mn" "0 \<le> ?fa" "?mn + ?fa \<le> r" "?fa \<le> r"
    using miner_payments_fit [of r h ?f] assms(3,5) by auto
  let ?founder = "if ?fa = 0 then [] else [CTxOut_of ?fa (getCurrentFounderAddress ?f h)]"
  let ?payee = "case GetBlockPayee h (mnpayments M) of Some payee \<Rightarrow> Some payee | None \<Rightarrow> q"
  have outs: "vout coinbase = (case ?payee of
      None \<Rightarrow> o0\<lparr>nValue := r - ?fa\<rparr> # ?founder
    | Some payee \<Rightarrow> o0\<lparr>nValue := r - ?mn - ?fa\<rparr> # CTxOut_of ?mn payee # ?founder)"
    by (simp add: cb FillFounderPayment_def tx1_def FillBlockPayee_def tx0_def v0 Let_def split: option.split)
  have val: "GetValueOut coinbase = Inr r"
    unfolding GetValueOut_def outs using fit assms(3,4)
    by (auto simp: value_loop_Inr CTxOut_of_def split: option.split)
  have own: "nValue (vout coinbase ! 0) \<ge> 0" using fit by (auto simp: outs split: option.split)
  have pay: "payments_IsTransactionValid ?fs (mnpayments M) coinbase h = Inr True"
    by (rule payments_accepted [OF val]) (simp add: outs CTxOut_of_def)
  obtain limit where l: "GetPaymentsLimit (consensus G) h = Some limit" "0 \<le> limit"
    using GetPaymentsLimit_Some [OF assms(8,7)] GetPaymentsLimit_nonneg [OF _ assms(9)] by blast
  have "h < ?fs \<or> IsBlockPayeeValid_founder ?f coinbase h r"
    using FillFounderPayment_accepted [of ?f h r tx1] assms(6) unfolding cb by linarith
  then show ?thesis using val own pay l assms(2) by (auto simp: IsBlockValueValid_def IsBlockPayeeValid_def Let_def)
qed


section \<open>Counting votes\<close>

text \<open>
  The hashes counted for a payee at a height, and the verified votes that were cast for it.
\<close>

definition payee_votes :: "CMasternodePayee list \<Rightarrow> bytes \<Rightarrow> uint256 list" where
  "payee_votes ps payee = (case map_of (map (\<lambda>p. (GetPayee p, vecVoteHashes p)) ps) payee of None \<Rightarrow> [] | Some hs \<Rightarrow> hs)"

definition counted :: "CMasternodePayments \<Rightarrow> int \<Rightarrow> bytes \<Rightarrow> uint256 list" where
  "counted m h payee = (case map_of (mapMasternodeBlocks m) h of None \<Rightarrow> [] | Some ps \<Rightarrow> payee_votes ps payee)"

definition cast_votes :: "CMasternodePayments \<Rightarrow> int \<Rightarrow> bytes \<Rightarrow> uint256 set" where
  "cast_votes m h payee =
     {x. \<exists>v. map_of (mapMasternodePaymentVotes m) x = Some v \<and> vote_IsVerified v \<and> vote_nBlockHeight v = h \<and> vote_payee v = payee}"

definition votes_ok :: "CMasternodePayments \<Rightarrow> bool" where
  "votes_ok m \<longleftrightarrow>
     distinct (map fst (mapMasternodePaymentVotes m)) \<and> distinct (map fst (mapMasternodeBlocks m)) \<and>
     (\<forall>h ps. map_of (mapMasternodeBlocks m) h = Some ps \<longrightarrow> distinct (map GetPayee ps)) \<and>
     (\<forall>h payee. distinct (counted m h payee) \<and> set (counted m h payee) = cast_votes m h payee)"

lemma payee_votes_Nil: "payee_votes [] q = []"
  by (simp add: payee_votes_def)

lemma AddPayee_loop_payees:
  "map GetPayee (AddPayee_loop payee x ps) = map GetPayee ps @ (if payee \<in> GetPayee ` set ps then [] else [payee])"
  by (induction ps) (auto simp: AddVoteHash_def)

lemma AddPayee_loop_votes:
  "payee_votes (AddPayee_loop payee x ps) q = (if q = payee then payee_votes ps q @ [x] else payee_votes ps q)"
  by (induction ps) (auto simp: payee_votes_def AddVoteHash_def)

lemma AddPayee_loop_distinct: "distinct (map GetPayee ps) \<Longrightarrow> distinct (map GetPayee (AddPayee_loop payee x ps))"
  by (auto simp: AddPayee_loop_payees)

lemma AddPaymentVote_ok:
  assumes ok: "votes_ok m" and v: "vote_IsVerified vote"
  shows "votes_ok (snd (AddPaymentVote H hb vote m))"
proof (cases "hb (vote_nBlockHeight vote - 101) \<and> \<not> HasVerifiedPaymentVote (vote_GetHash H vote) m")
  case False
  then show ?thesis using ok by (auto simp: AddPaymentVote_def)
next
  case True
  let ?x = "vote_GetHash H vote" and ?h = "vote_nBlockHeight vote" and ?q = "vote_payee vote"
  let ?ps = "case map_of (mapMasternodeBlocks m) ?h of None \<Rightarrow> [] | Some ps \<Rightarrow> ps"
  define m' where "m' = snd (AddPaymentVote H hb vote m)"
  have votes: "mapMasternodePaymentVotes m' = AList.update ?x vote (mapMasternodePaymentVotes m)"
    and blocks: "mapMasternodeBlocks m' = AList.update ?h (AddPayee H vote ?ps) (mapMasternodeBlocks m)"
    using True by (simp_all add: m'_def AddPaymentVote_def Let_def)
  have old: "map_of (mapMasternodePaymentVotes m) ?x = Some w \<Longrightarrow> \<not> vote_IsVerified w" for w
    using True by (simp add: HasVerifiedPaymentVote_def)
  have cast: "cast_votes m' h q = (if h = ?h \<and> q = ?q then insert ?x (cast_votes m h q) else cast_votes m h q)" for h q
    using v old by (auto simp: cast_votes_def votes update_conv')
  have new: "?x \<notin> cast_votes m h q" for h q using old by (auto simp: cast_votes_def)
  have cnt: "counted m' h q = (if h = ?h \<and> q = ?q then counted m h q @ [?x] else counted m h q)" for h q
    by (simp add: counted_def blocks update_conv' AddPayee_def AddPayee_loop_votes payee_votes_Nil
        split: option.split del: AddPayee_loop.simps)
  have "distinct (map GetPayee ps)" if "map_of (mapMasternodeBlocks m') h = Some ps" for h ps
    using that ok by (auto simp: blocks update_conv' AddPayee_def votes_ok_def split: if_splits option.splits
        intro!: AddPayee_loop_distinct)
  then show ?thesis using ok new unfolding m'_def [symmetric] votes_ok_def cast cnt
    by (auto simp: votes blocks distinct_update)
qed

lemma votes_ok_cong:
  assumes "mapMasternodePaymentVotes m' = mapMasternodePaymentVotes m" "mapMasternodeBlocks m' = mapMasternodeBlocks m"
  shows "votes_ok m' = votes_ok m"
  using assms by (simp add: votes_ok_def counted_def cast_votes_def)

lemma CanVote_ok: "votes_ok (snd (CanVote out h m)) = votes_ok m"
  by (rule votes_ok_cong) (simp_all add: CanVote_def)

lemma store_unverified_ok:
  assumes "votes_ok m" "map_of (mapMasternodePaymentVotes m) x = None"
  shows "votes_ok (m\<lparr>mapMasternodePaymentVotes := AList.update x (MarkAsNotVerified v) (mapMasternodePaymentVotes m)\<rparr>)"
    (is "votes_ok ?m")
proof -
  have "cast_votes ?m h q = cast_votes m h q" for h q
    using assms(2) by (auto simp: cast_votes_def update_conv' MarkAsNotVerified_def vote_IsVerified_def)
  moreover have "counted ?m h q = counted m h q" for h q by (simp add: counted_def)
  ultimately show ?thesis using assms(1) by (simp add: votes_ok_def distinct_update)
qed

lemma votes_ok_cases: "P (CanVote out h m) \<longleftrightarrow> (if mapMasternodesLastVote m out = Some h then P (False, m)
    else P (True, m\<lparr>mapMasternodesLastVote := (mapMasternodesLastVote m)(out \<mapsto> h)\<rparr>))"
  by (simp add: CanVote_def)

lemma verified_signature:
  assumes "fst (vote_CheckSignature E key cur v)" "\<And>x. env_recover E x [] = None"
  shows "vote_IsVerified v"
  using assms by (auto simp: vote_CheckSignature_def vote_IsVerified_def VerifyMessage_def split: if_splits)

lemma ProcessVote_ok:
  assumes "votes_ok m" "\<And>x. env_recover E x [] = None"
  shows "votes_ok (fst (ProcessVote E ver vote m))"
proof -
  let ?H = "env_hashes E" and ?h = "vote_nBlockHeight vote" and ?out = "prevout (vinMasternode vote)"
  let ?x = "vote_GetHash ?H vote"
  let ?m1 = "m\<lparr>mapMasternodePaymentVotes := AList.update ?x (MarkAsNotVerified vote) (mapMasternodePaymentVotes m)\<rparr>"
  have m1: "map_of (mapMasternodePaymentVotes m) ?x = None \<Longrightarrow> votes_ok ?m1"
    using store_unverified_ok [OF assms(1)] by blast
  have m2: "CanVote ?out ?h ?m1 = (ok, m2) \<Longrightarrow> map_of (mapMasternodePaymentVotes m) ?x = None \<Longrightarrow> votes_ok m2" for ok m2
    using CanVote_ok [of ?out ?h ?m1] m1 by simp
  have m3: "AddPaymentVote ?H (has_block E) vote m2 = (ok', m3) \<Longrightarrow> CanVote ?out ?h ?m1 = (ok, m2) \<Longrightarrow>
      vote_CheckSignature E key cur vote = (True, dos) \<Longrightarrow>
      map_of (mapMasternodePaymentVotes m) ?x = None \<Longrightarrow> votes_ok m3" for ok ok' m2 m3 key cur dos
    using AddPaymentVote_ok [of m2 vote ?H "has_block E"] m2 [of ok m2] verified_signature [of E key cur vote, OF _ assms(2)]
    by simp
  show ?thesis
    unfolding ProcessVote_def Let_def using assms(1) m1
    by (auto split: option.split prod.split bool.split dest: m2 m3)
qed

lemma ProcessBlock_ok:
  assumes "votes_ok m" "\<And>x. env_recover E x [] = None"
  shows "votes_ok (fst (snd (ProcessBlock E h m)))"
proof -
  have "vote_IsVerified v'" if "vote_Sign E v = (True, v')" for v v'
    using that assms(2) by (auto simp: vote_Sign_def vote_IsVerified_def VerifyMessage_def Let_def split: option.splits)
  then have "votes_ok m'" if "vote_Sign E v = (True, v')" "AddPaymentVote (env_hashes E) (has_block E) v' m = (ok, m')" for v v' ok m'
    using AddPaymentVote_ok [OF assms(1), of v' "env_hashes E" "has_block E"] that by simp
  then show ?thesis using assms(1)
    by (auto simp: ProcessBlock_def Let_def split: option.split prod.split bool.split)
qed

lemma UpdatedBlockTip_ok:
  assumes "votes_ok m" "\<And>x. env_recover E x [] = None"
  shows "votes_ok (fst (UpdatedBlockTip E h m))"
  unfolding UpdatedBlockTip_def using assms votes_ok_cong [of "m\<lparr>pCurrentBlockIndex := Some h\<rparr>" m]
  by (intro ProcessBlock_ok) simp_all

lemma map_of_filter_keys: "map_of (filter (\<lambda>kb. fst kb \<notin> S) xs) k = (if k \<in> S then None else map_of xs k)"
  by (induction xs) auto

lemma CheckAndRemove_ok:
  assumes "votes_ok m"
  shows "votes_ok (CheckAndRemove n m)"
proof (cases "pCurrentBlockIndex m")
  case None
  then show ?thesis using assms by (simp add: CheckAndRemove_def)
next
  case (Some cur)
  define old where "old = (\<lambda>v :: CMasternodePaymentVote. cur - vote_nBlockHeight v > GetStorageLimit n)"
  define gone where "gone = map (vote_nBlockHeight \<circ> snd) (filter (\<lambda>kv. old (snd kv)) (mapMasternodePaymentVotes m))"
  define m' where "m' = CheckAndRemove n m"
  have m': "mapMasternodePaymentVotes m' = filter (\<lambda>kv. \<not> old (snd kv)) (mapMasternodePaymentVotes m)"
    "mapMasternodeBlocks m' = filter (\<lambda>kb. fst kb \<notin> set gone) (mapMasternodeBlocks m)"
    unfolding m'_def CheckAndRemove_def Some by (simp_all add: old_def gone_def)
  have d: "distinct (map fst (mapMasternodePaymentVotes m))" "distinct (map fst (mapMasternodeBlocks m))"
    using assms by (simp_all add: votes_ok_def)
  have mv: "map_of (mapMasternodePaymentVotes m') x = Some v \<longleftrightarrow> map_of (mapMasternodePaymentVotes m) x = Some v \<and> \<not> old v" for x v
    using d(1) by (auto simp: m' map_of_eq_Some_iff distinct_map_filter)
  have mb: "map_of (mapMasternodeBlocks m') h = (if h \<in> set gone then None else map_of (mapMasternodeBlocks m) h)" for h
    unfolding m'(2) by (rule map_of_filter_keys)
  have gone: "h \<in> set gone \<longleftrightarrow> (\<exists>x v. map_of (mapMasternodePaymentVotes m) x = Some v \<and> old v \<and> vote_nBlockHeight v = h)" for h
    using d(1) by (fastforce simp: gone_def map_of_eq_Some_iff image_iff)
  have cast: "cast_votes m' h q = (if h \<in> set gone then {} else cast_votes m h q)" for h q
    unfolding gone by (auto simp: cast_votes_def mv old_def)
  have cnt: "counted m' h q = (if h \<in> set gone then [] else counted m h q)" for h q
    by (simp add: counted_def mb)
  show ?thesis using assms unfolding m'_def [symmetric] votes_ok_def cast cnt mb
    by (auto simp: m' distinct_map_filter)
qed

text \<open>
  What happens to the table of votes: a vote arrives from the network, the tip moves (and this node
  may cast a vote), old votes are swept, everything is cleared.
\<close>

inductive payments_step :: "CMasternodePayments \<Rightarrow> CMasternodePayments \<Rightarrow> bool" where
  vote_received: "\<forall>x. env_recover E x [] = None \<Longrightarrow> payments_step m (fst (ProcessVote E ver vote m))"
| tip_moved: "\<forall>x. env_recover E x [] = None \<Longrightarrow> payments_step m (fst (UpdatedBlockTip E h m))"
| swept: "payments_step m (CheckAndRemove n m)"
| cleared: "payments_step m (payments_Clear m)"

definition payments_init :: CMasternodePayments where
  "payments_init = \<lparr>mapMasternodePaymentVotes = [], mapMasternodeBlocks = [], mapMasternodesLastVote = (\<lambda>_. None),
     pCurrentBlockIndex = None\<rparr>"

lemma votes_ok_empty: "mapMasternodePaymentVotes m = [] \<Longrightarrow> mapMasternodeBlocks m = [] \<Longrightarrow> votes_ok m"
  by (simp add: votes_ok_def counted_def cast_votes_def)

lemma payments_step_ok: "payments_step m m' \<Longrightarrow> votes_ok m \<Longrightarrow> votes_ok m'"
  by (induction rule: payments_step.induct)
    (auto intro: ProcessVote_ok UpdatedBlockTip_ok CheckAndRemove_ok votes_ok_empty simp: payments_Clear_def)

lemma reachable_votes_ok: "payments_step\<^sup>*\<^sup>* payments_init m \<Longrightarrow> votes_ok m"
  by (induction rule: rtranclp_induct) (auto intro: payments_step_ok votes_ok_empty simp: payments_init_def)

text \<open>C36: However votes arrive, tips move and old votes are swept, the votes counted for a payee at a height
  are exactly the verified votes stored for it, each counted once: \<open>GetVoteCount\<close> is their number.
  (\<open>CPubKey::RecoverCompact\<close> refuses a signature that is not 65 bytes long.)\<close>

theorem vote_counts_are_votes_cast:
  assumes "payments_step\<^sup>*\<^sup>* payments_init m"
    and "map_of (mapMasternodeBlocks m) h = Some payees" "p \<in> set payees"
  shows "GetVoteCount p = int (card (cast_votes m h (GetPayee p))) \<and> set (vecVoteHashes p) = cast_votes m h (GetPayee p)"
proof -
  note ok = reachable_votes_ok [OF assms(1), unfolded votes_ok_def]
  then have "distinct (map GetPayee payees)" using assms(2) by blast
  then have "map_of (map (\<lambda>p. (GetPayee p, vecVoteHashes p)) payees) (GetPayee p) = Some (vecVoteHashes p)"
    using assms(3) by (intro map_of_is_SomeI) (auto simp: comp_def)
  then have "payee_votes payees (GetPayee p) = vecVoteHashes p" by (simp add: payee_votes_def)
  then have "counted m h (GetPayee p) = vecVoteHashes p" using assms(2) by (simp add: counted_def)
  then have "distinct (vecVoteHashes p)" "set (vecVoteHashes p) = cast_votes m h (GetPayee p)" using ok by metis+
  then show ?thesis by (simp add: GetVoteCount_def distinct_card [symmetric])
qed

lemma vote_hash_ignores_signature [simp]: "vote_GetHash H (v\<lparr>vote_vchSig := s\<rparr>) = vote_GetHash H v"
  by (simp add: vote_GetHash_def)

text \<open>C37: The hash of a vote does not cover its signature, and a vote is stored before its signature is
  checked.  So a copy of a vote with a false signature, arriving first, suppresses the real one:
  nothing is counted for the copy, and the real vote is ignored as already seen, whoever sends it.\<close>

theorem forged_signature_suppresses_vote:
  assumes "mn_list_synced E" "\<not> fLiteMode E" "GetMinMasternodePaymentsProto E \<le> ver" "pCurrentBlockIndex m = Some cur"
    and "\<And>key. mn_info E (prevout (vinMasternode vote)) = Some key \<Longrightarrow>
           \<not> fst (vote_CheckSignature E key cur (vote\<lparr>vote_vchSig := forged\<rparr>))"
    and "env_hashes E' = env_hashes E"
  shows "mapMasternodeBlocks (fst (ProcessVote E ver (vote\<lparr>vote_vchSig := forged\<rparr>) m)) = mapMasternodeBlocks m \<and>
    ProcessVote E' ver' vote (fst (ProcessVote E ver (vote\<lparr>vote_vchSig := forged\<rparr>) m)) =
      (fst (ProcessVote E ver (vote\<lparr>vote_vchSig := forged\<rparr>) m), [])"
proof -
  let ?f = "vote\<lparr>vote_vchSig := forged\<rparr>" and ?x = "vote_GetHash (env_hashes E) vote"
  let ?out = "prevout (vinMasternode vote)"
  define m' where "m' = fst (ProcessVote E ver ?f m)"
  have forged: "vote_CheckSignature E key cur ?f \<noteq> (True, dos)" if "mn_info E ?out = Some key" for key dos
    using assms(5) [OF that] by (metis fst_conv)
  have "mapMasternodeBlocks m' = mapMasternodeBlocks m \<and> map_of (mapMasternodePaymentVotes m') ?x \<noteq> None"
  proof (cases "map_of (mapMasternodePaymentVotes m) ?x")
    case (Some v)
    then show ?thesis using assms(1-4) by (simp add: m'_def ProcessVote_def Let_def)
  next
    case None
    then show ?thesis using assms(1-4) forged
      by (auto simp: m'_def ProcessVote_def Let_def CanVote_def update_conv' split: prod.split bool.split option.split)
  qed
  moreover from this have "ProcessVote E' ver' vote m' = (m', [])"
    using assms(6) by (auto simp: ProcessVote_def Let_def split: option.split)
  ultimately show ?thesis by (simp add: m'_def)
qed

section \<open>Instances\<close>

definition sample_superblock :: CSuperblock where
  "sample_superblock = \<lparr>vecPayments = [([7], 5)], GetBlockStart = 1500, sb_object = True, sb_funding = True, sb_yes = 1\<rparr>"

definition sample_payments :: "CSuperblock option list \<Rightarrow> payment_ctx" where
  "sample_payments ts = \<lparr>mnpayments = payments_init, triggers = ts, mn_synced = True\<rparr>"

definition superblock_ctx :: node_ctx where
  "superblock_ctx = (sample_ctx 0)\<lparr>sporks := sample_manager ((\<lambda>_. None)(SPORK_9_SUPERBLOCKS_ENABLED \<mapsto> sample_spork SPORK_9_SUPERBLOCKS_ENABLED 0 1))\<rparr>"

lemmas sample_payment_simps = sample_superblock_def sample_payments_def superblock_ctx_def sample_ctx_def RegTestParams_def
  sample_manager_def sample_spork_def spork_on_def IsSporkActive_def spork_ids IsSuperblockTriggered_def sb_IsValidBlockHeight_def
  POST_MINE_HEIGHT_def budget_window_def GetPaymentsTotalAmount_def

lemma triggered_superblock_stops_chain_witness:
  "IsBlockValueValid superblock_ctx (sample_payments [Some sample_superblock]) (sample_txn 1 [] [sample_pay 3 [7]]) 1500 9 \<noteq> Inr True \<and>
   IsBlockPayeeValid superblock_ctx (sample_payments [Some sample_superblock]) (sample_txn 1 [] [sample_pay 3 [7]]) 1500 9 \<noteq> Inr True"
  by (rule triggered_superblock_stops_chain) (auto simp: sample_payment_simps cmod_def)

text \<open>On a block of the schedule, with the founder payments far away, and on one with them.\<close>

lemma miner_coinbase_accepted_witness:
  "(let M = sample_payments []; tx = \<lparr>tx_nVersion = 1, vin = [], vout = [sample_pay 0 [8]], nLockTime = 0\<rparr>;
        late = (sample_ctx 0)\<lparr>founder_payment := \<lparr>founderAddresses = [[7]], founderStartHeight = 9999000, oneAddressHeight = 0\<rparr>\<rparr>
    in IsBlockPayeeValid late M (miner_coinbase late M (Some [9]) tx 60000 COIN) 60000 COIN = Inr True \<and>
       IsBlockPayeeValid (sample_ctx 0) M (miner_coinbase (sample_ctx 0) M (Some [9]) tx 5 COIN) 5 COIN = Inr True)"
proof -
  let ?M = "sample_payments []" and ?tx = "\<lparr>tx_nVersion = 1, vin = [], vout = [sample_pay 0 [8]], nLockTime = 0\<rparr>"
  let ?late = "(sample_ctx 0)\<lparr>founder_payment := \<lparr>founderAddresses = [[7]], founderStartHeight = 9999000, oneAddressHeight = 0\<rparr>\<rparr>"
  have t: "\<not> IsSuperblockTriggered P (triggers ?M) h" for P h by (simp add: sample_payment_simps)
  show ?thesis
    using miner_coinbase_accepted [of ?tx ?late ?M 60000 COIN "Some [9]"]
      miner_coinbase_accepted [of ?tx "sample_ctx 0" ?M 5 COIN "Some [9]"] t
    by (simp add: sample_ctx_def RegTestParams_def COIN_def MAX_MONEY_def POST_MINE_HEIGHT_def Let_def)
qed

definition sample_env :: masternode_env where
  \<comment> \<open>one masternode, whose valid signatures are \<open>[1]\<close>\<close>
  "sample_env = \<lparr>env_hashes = sample_hashes, env_recover = (\<lambda>_ s. if s = [1] then Some [2] else None), pay_updated = False,
     mn_list_synced = True, winners_synced = True, fLiteMode = False, fMasterNode = False,
     mn_Find = (\<lambda>_. Some 70206), mn_info = (\<lambda>_. Some [2]), GetMasternodeRank = (\<lambda>_ _ _. 1), mn_size = 1,
     mn_queue = (\<lambda>_. None), has_block = (\<lambda>_. True), active_vin = sample_in [] 0 [], active_key = [], active_sign = (\<lambda>_. None)\<rparr>"

definition sample_vote :: "bytes \<Rightarrow> CMasternodePaymentVote" where
  "sample_vote sig = \<lparr>vinMasternode = sample_in [] 0 [], vote_nBlockHeight = 105, vote_payee = [7], vote_vchSig = sig\<rparr>"

definition sample_table :: CMasternodePayments where
  "sample_table = payments_init\<lparr>pCurrentBlockIndex := Some 100\<rparr>"

lemmas sample_vote_simps = sample_env_def sample_vote_def sample_table_def payments_init_def ProcessVote_def Let_def
  GetMinMasternodePaymentsProto_def MIN_MASTERNODE_PAYMENT_PROTO_VERSION_1_def MIN_MASTERNODE_PAYMENT_PROTO_VERSION_2_def
  GetStorageLimit_def vote_IsValid_def MNPAYMENTS_SIGNATURES_TOTAL_def CanVote_def vote_CheckSignature_def VerifyMessage_def
  AddPaymentVote_def HasVerifiedPaymentVote_def MarkAsNotVerified_def vote_IsVerified_def AddPayee_def

lemma sample_env_recover: "\<forall>x. env_recover sample_env x [] = None"
  by (simp add: sample_env_def)

lemma sample_table_reachable: "payments_step payments_init sample_table"
proof -
  have "fst (UpdatedBlockTip sample_env 100 payments_init) = sample_table"
    by (simp add: UpdatedBlockTip_def ProcessBlock_def sample_env_def sample_table_def)
  then show ?thesis using tip_moved [OF sample_env_recover, of payments_init 100] by simp
qed

lemma sample_vote_counted:
  "map_of (mapMasternodeBlocks (fst (ProcessVote sample_env 70206 (sample_vote [1]) sample_table))) 105 =
     Some [\<lparr>GetPayee = [7], vecVoteHashes = [vote_GetHash sample_hashes (sample_vote [])]\<rparr>]"
proof -
  have h: "vote_GetHash sample_hashes (sample_vote [1]) = vote_GetHash sample_hashes (sample_vote [])"
    by (simp add: vote_GetHash_def sample_vote_def)
  show ?thesis by (simp add: sample_vote_simps h [unfolded sample_vote_def])
qed

lemma vote_counts_are_votes_cast_witness:
  "card (cast_votes (fst (ProcessVote sample_env 70206 (sample_vote [1]) sample_table)) 105 [7]) = 1"
proof -
  have "payments_step\<^sup>*\<^sup>* payments_init (fst (ProcessVote sample_env 70206 (sample_vote [1]) sample_table))"
    using sample_table_reachable vote_received [OF sample_env_recover, of sample_table 70206 "sample_vote [1]"]
    by (meson r_into_rtranclp rtranclp.rtrancl_into_rtrancl)
  from vote_counts_are_votes_cast [OF this sample_vote_counted] show ?thesis by (simp add: GetVoteCount_def)
qed

lemma forged_signature_suppresses_vote_witness:
  "ProcessVote sample_env 70206 (sample_vote [1]) (fst (ProcessVote sample_env 70206 (sample_vote [3]) sample_table)) =
     (fst (ProcessVote sample_env 70206 (sample_vote [3]) sample_table), [])"
proof -
  have f: "(sample_vote [1])\<lparr>vote_vchSig := [3]\<rparr> = sample_vote [3]" by (simp add: sample_vote_def)
  have bad: "\<not> fst (vote_CheckSignature sample_env key 100 (sample_vote [3]))" for key
    by (simp add: vote_CheckSignature_def VerifyMessage_def sample_env_def sample_vote_def)
  show ?thesis
    using forged_signature_suppresses_vote [of sample_env 70206 sample_table 100 "sample_vote [1]" "[3]" sample_env 70206] bad
    unfolding f by (simp add: sample_env_def sample_table_def GetMinMasternodePaymentsProto_def
        MIN_MASTERNODE_PAYMENT_PROTO_VERSION_1_def)
qed

end
