(* ===== verification/ConnectBlock.thy ===== *)
theory ConnectBlock
  imports Payments Utxo SigChecker Standard
begin

text \<open>
  \<open>ConnectBlock\<close> and the input checks of main.cpp: the flags a block's scripts are checked under, the
  checks of each transaction against the unspent outputs, the collection of fees, the payment checks
  and the update of the unspent outputs.  The main result: a connected block creates no more than
  its subsidy.  The address, spent and timestamp indexes and the signals to wallets are left out; of
  the disk the model keeps whether the undo data and the indexes could be written.
\<close>

section \<open>Faults and rejections\<close>

datatype connect_stop =
    Fault node_fault
  | Rejected CValidationState bool  \<comment> \<open>returned false; whether the block was put into \<open>mapRejectedBlocks\<close>\<close>

definition lift_fault :: "fault + 'a \<Rightarrow> connect_stop + 'a" where
  "lift_fault r = (case node_fault_of r of Inl e \<Rightarrow> Inl (Fault e) | Inr a \<Rightarrow> Inr a)"

definition lift_node :: "node_fault + 'a \<Rightarrow> connect_stop + 'a" where
  "lift_node r = (case r of Inl e \<Rightarrow> Inl (Fault e) | Inr a \<Rightarrow> Inr a)"

definition asserted :: "'a option \<Rightarrow> connect_stop + 'a" where
  "asserted r = (case r of None \<Rightarrow> Inl (Fault AssertionFailure) | Some a \<Rightarrow> Inr a)"

definition not_null :: "'a option \<Rightarrow> connect_stop + 'a" where
  "not_null r = (case r of None \<Rightarrow> Inl (Fault NullPointer) | Some a \<Rightarrow> Inr a)"

definition reject :: "bool \<times> CValidationState \<Rightarrow> connect_stop + 'a" where
  \<comment> \<open>\<open>return state.DoS(\<dots>)\<close>\<close>
  "reject r = Inl (Rejected (snd r) False)"

definition value_out :: "'b CMutableTransaction_scheme \<Rightarrow> connect_stop + CAmount" where
  \<comment> \<open>\<open>GetValueOut\<close> throws\<close>
  "value_out tx = (case GetValueOut tx of Inl () \<Rightarrow> Inl (Fault (Exception ''value out of range'')) | Inr v \<Rightarrow> Inr v)"

section \<open>The checks of a transaction's inputs\<close>

definition COINBASE_MATURITY :: int where "COINBASE_MATURITY = 100"
definition REJECT_NONSTANDARD :: nat where "REJECT_NONSTANDARD = 0x40"
definition MANDATORY_SCRIPT_VERIFY_FLAGS :: u32 where "MANDATORY_SCRIPT_VERIFY_FLAGS = SCRIPT_VERIFY_P2SH"

definition STANDARD_SCRIPT_VERIFY_FLAGS :: u32 where
  "STANDARD_SCRIPT_VERIFY_FLAGS = MANDATORY_SCRIPT_VERIFY_FLAGS OR SCRIPT_VERIFY_DERSIG OR SCRIPT_VERIFY_STRICTENC OR
     SCRIPT_VERIFY_MINIMALDATA OR SCRIPT_VERIFY_NULLDUMMY OR SCRIPT_VERIFY_DISCOURAGE_UPGRADABLE_NOPS OR
     SCRIPT_VERIFY_CLEANSTACK OR SCRIPT_VERIFY_CHECKLOCKTIMEVERIFY OR SCRIPT_VERIFY_CHECKSEQUENCEVERIFY OR
     SCRIPT_VERIFY_LOW_S"

definition STANDARD_NOT_MANDATORY_VERIFY_FLAGS :: u32 where
  "STANDARD_NOT_MANDATORY_VERIFY_FLAGS = STANDARD_SCRIPT_VERIFY_FLAGS AND NOT MANDATORY_SCRIPT_VERIFY_FLAGS"

text \<open>
  What the functions take from the rest of the node: \<open>banned\<close> are the destinations of
  \<open>bannedAddresses\<close> (main.h), decoded; \<open>key_mem\<close> the bytes of an uninitialised \<open>CPubKey\<close>; the
  signature cache only remembers what the verifier answered and is not modelled.
\<close>

record ('pk, 'sig) connect_env =
  node :: node_ctx
  pays :: payment_ctx
  crypto :: "('pk, 'sig) secp256k1"
  key_mem :: CPubKey
  banned :: "CTxDestination list"
  hashAssumeValid :: uint256
  mapCheckpoints :: "(int \<times> uint256) list option"  \<comment> \<open>by height; \<open>None\<close> without \<open>fCheckpointsEnabled\<close>\<close>
  script_threads :: bool  \<comment> \<open>\<open>nScriptCheckThreads\<close> is not zero\<close>
  write_undo :: "int \<Rightarrow> CTxInUndo list list \<Rightarrow> uint256 \<Rightarrow> string + u32"
    \<comment> \<open>\<open>FindUndoPos\<close> and \<open>UndoWriteToDisk\<close>: the position in the file, or why it failed\<close>
  index_error :: "string option"  \<comment> \<open>the first index that could not be written\<close>

definition no_checker :: BaseSignatureChecker where
  \<comment> \<open>\<open>BaseSignatureChecker()\<close>\<close>
  "no_checker = \<lparr>CheckSig = (\<lambda>_ _ _. False), CheckLockTime = (\<lambda>_. False), CheckSequence = (\<lambda>_. False)\<rparr>"

definition script_result :: "script_stop + 'a \<Rightarrow> connect_stop + 'a option" where
  \<comment> \<open>\<open>None\<close>: returns false\<close>
  "script_result r = (case r of Inl script_stop.AssertFailed \<Rightarrow> Inl (Fault AssertionFailure) | Inl (Err e) \<Rightarrow> Inr None | Inr a \<Rightarrow> Inr (Some a))"

definition IsInputBanned ::
  "('pk, 'sig) connect_env \<Rightarrow> 'v get_coins \<Rightarrow> (CCoins \<Rightarrow> int) \<Rightarrow> CTxIn \<Rightarrow> 'v CCoinsViewCache \<Rightarrow>
   connect_stop + bool \<times> 'v CCoinsViewCache" where
  \<comment> \<open>\<open>stack.at\<close> throws on an empty stack\<close>
  "IsInputBanned E GetC usage input view =
     (let H = hashes (node E) in
      sum_bind (asserted (GetOutputFor GetC usage view input)) (\<lambda>(prev, view).
        case Solver (scriptPubKey prev) of (ok, whichType, vSolutions) \<Rightarrow>
          if \<not> ok then Inr (True, view)
          else if whichType = TX_PUBKEYHASH
          then sum_bind (script_result (EvalScript H [] (scriptSig input) SCRIPT_VERIFY_P2SH no_checker)) (\<lambda>res.
            case res of
              None \<Rightarrow> Inr (True, view)
            | Some [] \<Rightarrow> Inl (Fault (Exception ''vector::_M_range_check''))
            | Some (vchPubKey # rest) \<Rightarrow>
                let pubkey = pubkey_Set (key_mem E) vchPubKey in
                if \<not> pubkey_IsValid pubkey then Inr (True, view)
                else if list_ex (\<lambda>bannedAddress. CKeyID (pubkey_GetID H pubkey) = bannedAddress) (banned E)
                then Inr (True, view) else Inr (False, view))
          else Inr (False, view)))"

fun txin_loop ::
  "('pk, 'sig) connect_env \<Rightarrow> 'v get_coins \<Rightarrow> (CCoins \<Rightarrow> int) \<Rightarrow> CValidationState \<Rightarrow> int \<Rightarrow> CTxIn list \<Rightarrow> CAmount \<Rightarrow>
   'v CCoinsViewCache \<Rightarrow> connect_stop + CAmount \<times> 'v CCoinsViewCache" where
  \<comment> \<open>the loop over the inputs; the result is \<open>nValueIn\<close>\<close>
  "txin_loop E GetC usage st nSpendHeight [] nValueIn view = Inr (nValueIn, view)"
| "txin_loop E GetC usage st nSpendHeight (txin # rest) nValueIn view =
     (case prevout txin of COutPoint h n \<Rightarrow>
      case FetchCoins GetC usage view h of
        (None, view) \<Rightarrow> Inl (Fault AssertionFailure)
      | (Some e, view) \<Rightarrow>
     (let cs = coins e in
      if fCoinBase cs \<and> nSpendHeight - c_nHeight cs < COINBASE_MATURITY
      then reject (Invalid False REJECT_INVALID ''bad-txns-premature-spend-of-coinbase'' [] st)
      else if length (c_vout cs) \<le> unat n then Inl (Fault OutOfBounds)
      else let v = nValue (c_vout cs ! unat n); nValueIn = nValueIn + v in
        if \<not> MoneyRange v \<or> \<not> MoneyRange nValueIn
        then reject (DoS 100 False REJECT_INVALID ''bad-txns-inputvalues-outofrange'' False [] st)
        else if nSpendHeight \<ge> nStoneHeight (consensus (node E))
        then sum_bind (IsInputBanned E GetC usage txin view) (\<lambda>(isBanned, view).
               if isBanned then reject (DoS 100 False REJECT_INVALID ''bad-txns-in-banned'' False [] st)
               else txin_loop E GetC usage st nSpendHeight rest nValueIn view)
        else txin_loop E GetC usage st nSpendHeight rest nValueIn view))"

definition CheckTxInputs ::
  "('pk, 'sig) connect_env \<Rightarrow> 'v get_coins \<Rightarrow> (CCoins \<Rightarrow> int) \<Rightarrow> CTransaction \<Rightarrow> CValidationState \<Rightarrow> int \<Rightarrow>
   'v CCoinsViewCache \<Rightarrow> connect_stop + 'v CCoinsViewCache" where
  \<comment> \<open>debug messages that quote amounts are left empty\<close>
  "CheckTxInputs E GetC usage tx st nSpendHeight view =
     (case HaveInputs GetC usage view tx of
        (False, view) \<Rightarrow> reject (Invalid False 0 [] ''Inputs unavailable'' st)
      | (True, view) \<Rightarrow>
          sum_bind (txin_loop E GetC usage st nSpendHeight (vin tx) 0 view) (\<lambda>(nValueIn, view).
          sum_bind (value_out tx) (\<lambda>nValueOut.
            if nValueIn < nValueOut then reject (DoS 100 False REJECT_INVALID ''bad-txns-in-belowout'' False [] st)
            else let nTxFee = nValueIn - nValueOut in
              if nTxFee < 0 then reject (DoS 100 False REJECT_INVALID ''bad-txns-fee-negative'' False [] st)
              else if \<not> MoneyRange nTxFee then reject (DoS 100 False REJECT_INVALID ''bad-txns-fee-outofrange'' False [] st)
              else Inr view)))"

definition GetSpendHeight ::
  "chain_state \<Rightarrow> ('v \<Rightarrow> uint256) \<Rightarrow> 'v CCoinsViewCache \<Rightarrow> connect_stop + int \<times> 'v CCoinsViewCache" where
  "GetSpendHeight S best view =
     (case cache_GetBestBlock best view of (h, view) \<Rightarrow>
        sum_bind (not_null (mapBlockIndex S h)) (\<lambda>p. Inr (BlockIndex.nHeight (obj (tree S) p) + 1, view)))"

record CScriptCheck =
  chk_scriptPubKey :: bytes
  ptxTo :: CTransaction
  nIn :: nat
  nFlags :: u32

definition run_check :: "('pk, 'sig) connect_env \<Rightarrow> CScriptCheck \<Rightarrow> script_stop + unit" where
  \<comment> \<open>\<open>CScriptCheck::operator()\<close>\<close>
  "run_check E c =
     VerifyScript (hashes (node E)) (scriptSig (vin (ptxTo c) ! nIn c)) (chk_scriptPubKey c) (nFlags c)
       (TransactionSignatureChecker (crypto E) (hashes (node E)) (key_mem E) (ptxTo c) (word_of_nat (nIn c)))"

definition script_failed ::
  "('pk, 'sig) connect_env \<Rightarrow> CScriptCheck \<Rightarrow> ScriptError \<Rightarrow> CValidationState \<Rightarrow> connect_stop + 'a" where
  \<comment> \<open>a check that ran in this thread failed\<close>
  "script_failed E c err0 st =
     (if has_flag (nFlags c) STANDARD_NOT_MANDATORY_VERIFY_FLAGS
      then sum_bind (script_result (run_check E (c\<lparr>nFlags := nFlags c AND NOT STANDARD_NOT_MANDATORY_VERIFY_FLAGS\<rparr>))) (\<lambda>r2.
        if r2 \<noteq> None
        then reject (Invalid False REJECT_NONSTANDARD
               (''non-mandatory-script-verify-flag ('' @ ScriptErrorString err0 @ '')'') [] st)
        else reject (DoS 100 False REJECT_INVALID
               (''mandatory-script-verify-flag-failed ('' @ ScriptErrorString err0 @ '')'') False [] st))
      else reject (DoS 100 False REJECT_INVALID
             (''mandatory-script-verify-flag-failed ('' @ ScriptErrorString err0 @ '')'') False [] st))"

fun script_loop ::
  "('pk, 'sig) connect_env \<Rightarrow> 'v get_coins \<Rightarrow> (CCoins \<Rightarrow> int) \<Rightarrow> CTransaction \<Rightarrow> CValidationState \<Rightarrow> u32 \<Rightarrow> bool \<Rightarrow> nat list \<Rightarrow>
   'v CCoinsViewCache \<Rightarrow> connect_stop + CScriptCheck list \<times> 'v CCoinsViewCache" where
  \<comment> \<open>over the remaining indices; with \<open>pvChecks\<close> the checks are collected, otherwise run\<close>
  "script_loop E GetC usage tx st fl pvChecks [] view = Inr ([], view)"
| "script_loop E GetC usage tx st fl pvChecks (i # rest) view =
     (case prevout (vin tx ! i) of COutPoint h n \<Rightarrow>
      case FetchCoins GetC usage view h of
        (None, view) \<Rightarrow> Inl (Fault AssertionFailure)
      | (Some e, view) \<Rightarrow>
          if length (c_vout (coins e)) \<le> unat n then Inl (Fault OutOfBounds)
          else let c = \<lparr>chk_scriptPubKey = scriptPubKey (c_vout (coins e) ! unat n), ptxTo = tx, nIn = i, nFlags = fl\<rparr> in
            if pvChecks
            then sum_bind (script_loop E GetC usage tx st fl pvChecks rest view) (\<lambda>(cs, view). Inr (c # cs, view))
            else case run_check E c of
                Inl script_stop.AssertFailed \<Rightarrow> Inl (Fault AssertionFailure)
              | Inl (Err e) \<Rightarrow> script_failed E c e st
              | Inr _ \<Rightarrow> script_loop E GetC usage tx st fl pvChecks rest view)"

definition CheckInputs ::
  "('pk, 'sig) connect_env \<Rightarrow> chain_state \<Rightarrow> 'v get_coins \<Rightarrow> (CCoins \<Rightarrow> int) \<Rightarrow> ('v \<Rightarrow> uint256) \<Rightarrow> CTransaction \<Rightarrow> CValidationState \<Rightarrow>
   bool \<Rightarrow> u32 \<Rightarrow> bool \<Rightarrow> 'v CCoinsViewCache \<Rightarrow> connect_stop + CScriptCheck list \<times> 'v CCoinsViewCache" where
  "CheckInputs E S GetC usage best tx st fScriptChecks fl pvChecks view =
     (if IsCoinBase tx then Inr ([], view)
      else sum_bind (GetSpendHeight S best view) (\<lambda>(nSpendHeight, view).
        sum_bind (CheckTxInputs E GetC usage tx st nSpendHeight view) (\<lambda>view.
          if fScriptChecks then script_loop E GetC usage tx st fl pvChecks [0..<length (vin tx)] view
          else Inr ([], view))))"

section \<open>What a block is checked under\<close>

definition GetLastCheckpoint :: "chain_state \<Rightarrow> (int \<times> uint256) list \<Rightarrow> ptr option" where
  "GetLastCheckpoint S data = fold (\<lambda>i found. case found of Some t \<Rightarrow> Some t | None \<Rightarrow> mapBlockIndex S (snd i)) (rev data) None"

definition assume_valid_checks :: "('pk, 'sig) connect_env \<Rightarrow> chain_state \<Rightarrow> ptr \<Rightarrow> connect_stop + bool" where
  \<comment> \<open>\<open>fScriptChecks\<close> after the part on \<open>hashAssumeValid\<close>\<close>
  "assume_valid_checks E S pindex =
     (let T = tree S; P = consensus (node E); height = BlockIndex.nHeight (obj T pindex) in
      if blob_IsNull (hashAssumeValid E) then Inr True
      else case mapBlockIndex S (hashAssumeValid E) of
        None \<Rightarrow> Inr True
      | Some it \<Rightarrow>
          sum_bind (lift_fault (GetAncestor T it height)) (\<lambda>a.
            if a \<noteq> Some pindex then Inr True
            else sum_bind (not_null (pindexBestHeader S)) (\<lambda>best.
              sum_bind (lift_fault (GetAncestor T best height)) (\<lambda>b.
                if b \<noteq> Some pindex \<or> bu_compare (nChainWork (obj T best)) (UintToArith256 (nMinimumChainWork P)) < 0 then Inr True
                else sum_bind (lift_fault (of_uint_res (GetBlockProofEquivalentTime (obj T best) (obj T pindex) (obj T best) P)))
                  (\<lambda>t. Inr (t \<le> 60 * 60 * 24 * 7 * 2))))))"

definition script_checks :: "('pk, 'sig) connect_env \<Rightarrow> chain_state \<Rightarrow> ptr \<Rightarrow> connect_stop + bool" where
  \<comment> \<open>\<open>fScriptChecks\<close>\<close>
  "script_checks E S pindex =
     sum_bind (assume_valid_checks E S pindex) (\<lambda>fScriptChecks.
       case Option.bind (mapCheckpoints E) (GetLastCheckpoint S) of
         None \<Rightarrow> Inr fScriptChecks
       | Some checkpoint \<Rightarrow>
           sum_bind (lift_fault (GetAncestor (tree S) checkpoint (BlockIndex.nHeight (obj (tree S) pindex)))) (\<lambda>a.
             Inr (if a = Some pindex then False else fScriptChecks)))"

definition enforce_BIP30 :: "Consensus_Params \<Rightarrow> btree \<Rightarrow> ptr \<Rightarrow> connect_stop + bool" where
  "enforce_BIP30 P T pindex =
     (let b = obj T pindex; h = BlockIndex.nHeight b;
          fEnforceBIP30 = (phashBlock b = [] \<or>
            \<not> (h = 91842 \<and> phashBlock b = uint256S ''0x00000000000a4d0a398161ffc163c503763b1f4360639393e0e4c8e300e0caec'' \<or>
               h = 91880 \<and> phashBlock b = uint256S ''0x00000000000743f190a18c5577a3c2d2a1f610ae9601ac046a38084ccb7cd721''))
      in sum_bind (not_null (pprev b)) (\<lambda>prev.
         sum_bind (lift_fault (GetAncestor T prev (BIP34Height P))) (\<lambda>pindexBIP34height.
           Inr (fEnforceBIP30 \<and>
             (case pindexBIP34height of None \<Rightarrow> True | Some q \<Rightarrow> phashBlock (obj T q) \<noteq> BIP34Hash P)))))"

fun overwrites ::
  "'v get_coins \<Rightarrow> (CCoins \<Rightarrow> int) \<Rightarrow> CTransaction list \<Rightarrow> 'v CCoinsViewCache \<Rightarrow> bool \<times> 'v CCoinsViewCache" where
  \<comment> \<open>some transaction of the block has unspent outputs already\<close>
  "overwrites GetC usage [] view = (False, view)"
| "overwrites GetC usage (tx # rest) view =
     (case FetchCoins GetC usage view (tx_hash tx) of
        (None, view) \<Rightarrow> overwrites GetC usage rest view
      | (Some e, view) \<Rightarrow> if \<not> IsPruned (coins e) then (True, view) else overwrites GetC usage rest view)"

definition script_flags ::
  "Consensus_Params \<Rightarrow> btree \<Rightarrow> CBlock \<Rightarrow> ptr \<Rightarrow> versionbits_caches \<Rightarrow> connect_stop + u32 \<times> u32 \<times> versionbits_caches" where
  \<comment> \<open>\<open>flags\<close> and \<open>nLockTimeFlags\<close>\<close>
  "script_flags P T block pindex caches =
     (let prev = pprev (obj T pindex); version = sint (hdr_nVersion block);
          fl = (if GetBlockTime (obj T pindex) \<ge> 1333238400 then SCRIPT_VERIFY_P2SH else 0);
          fl = (if version \<ge> 3 \<and> IsSuperMajority T 3 prev (nMajorityEnforceBlockUpgrade P) P then fl OR SCRIPT_VERIFY_DERSIG else fl);
          fl = (if version \<ge> 4 \<and> IsSuperMajority T 4 prev (nMajorityEnforceBlockUpgrade P) P
                then fl OR SCRIPT_VERIFY_CHECKLOCKTIMEVERIFY else fl)
      in sum_bind (lift_fault (VersionBitsState T P DEPLOYMENT_CSV prev caches)) (\<lambda>(state, caches).
           if state = THRESHOLD_ACTIVE then Inr (fl OR SCRIPT_VERIFY_CHECKSEQUENCEVERIFY, LOCKTIME_VERIFY_SEQUENCE, caches)
           else Inr (fl, 0, caches)))"

section \<open>The transactions of a block\<close>

fun coin_heights ::
  "'v get_coins \<Rightarrow> (CCoins \<Rightarrow> int) \<Rightarrow> CTxIn list \<Rightarrow> 'v CCoinsViewCache \<Rightarrow> connect_stop + int list \<times> 'v CCoinsViewCache" where
  \<comment> \<open>\<open>prevheights\<close>\<close>
  "coin_heights GetC usage [] view = Inr ([], view)"
| "coin_heights GetC usage (txin # rest) view =
     (case prevout txin of COutPoint h n \<Rightarrow>
      case FetchCoins GetC usage view h of
        (None, view) \<Rightarrow> Inl (Fault NullPointer)
      | (Some e, view) \<Rightarrow>
          sum_bind (coin_heights GetC usage rest view) (\<lambda>(hs, view). Inr (c_nHeight (coins e) # hs, view)))"

fun p2sh_sigops ::
  "'v get_coins \<Rightarrow> (CCoins \<Rightarrow> int) \<Rightarrow> CTxIn list \<Rightarrow> 'v CCoinsViewCache \<Rightarrow> connect_stop + nat \<times> 'v CCoinsViewCache" where
  "p2sh_sigops GetC usage [] view = Inr (0, view)"
| "p2sh_sigops GetC usage (txin # rest) view =
     sum_bind (asserted (GetOutputFor GetC usage view txin)) (\<lambda>(prev, view).
       sum_bind (p2sh_sigops GetC usage rest view) (\<lambda>(n, view).
         Inr ((if IsPayToScriptHash (scriptPubKey prev) then GetSigOpCount_P2SH (scriptPubKey prev) (scriptSig txin) else 0) + n, view)))"

definition GetP2SHSigOpCount ::
  "'v get_coins \<Rightarrow> (CCoins \<Rightarrow> int) \<Rightarrow> CTransaction \<Rightarrow> 'v CCoinsViewCache \<Rightarrow> connect_stop + nat \<times> 'v CCoinsViewCache" where
  "GetP2SHSigOpCount GetC usage tx view = (if IsCoinBase tx then Inr (0, view) else p2sh_sigops GetC usage (vin tx) view)"

record 'v connect_acc =
  ca_view :: "'v CCoinsViewCache"
  ca_fees :: CAmount
  ca_sigops :: nat
  ca_undo :: "CTxInUndo list list"
  ca_checks :: "CScriptCheck list"

definition connect_inputs ::
  "('pk, 'sig) connect_env \<Rightarrow> chain_state \<Rightarrow> 'v get_coins \<Rightarrow> (CCoins \<Rightarrow> int) \<Rightarrow> ('v \<Rightarrow> uint256) \<Rightarrow> ptr \<Rightarrow> bool \<Rightarrow> u32 \<Rightarrow> u32 \<Rightarrow>
   CTransaction \<Rightarrow> CValidationState \<Rightarrow> 'v connect_acc \<Rightarrow> connect_stop + 'v connect_acc" where
  \<comment> \<open>the part of the loop for a transaction that is not a coinbase\<close>
  "connect_inputs E S GetC usage best pindex fScriptChecks fl nLockTimeFlags tx st a =
     (case HaveInputs GetC usage (ca_view a) tx of
        (False, view) \<Rightarrow> reject (DoS 100 False REJECT_INVALID ''bad-txns-inputs-missingorspent'' False [] st)
      | (True, view) \<Rightarrow>
          sum_bind (coin_heights GetC usage (vin tx) view) (\<lambda>(prevheights, view).
          sum_bind (lift_fault (SequenceLocks (tree S) tx nLockTimeFlags prevheights pindex)) (\<lambda>final.
            if \<not> final then reject (DoS 100 False REJECT_INVALID ''bad-txns-nonfinal'' False [] st)
            else sum_bind (if has_flag fl SCRIPT_VERIFY_P2SH then GetP2SHSigOpCount GetC usage tx view else Inr (0, view)) (\<lambda>(n, view).
              if ca_sigops a + n > MAX_BLOCK_SIGOPS then reject (DoS 100 False REJECT_INVALID ''bad-blk-sigops'' False [] st)
              else sum_bind (asserted (GetValueIn GetC usage view tx)) (\<lambda>(nValueIn, view).
                sum_bind (value_out tx) (\<lambda>nValueOut.
                  sum_bind (CheckInputs E S GetC usage best tx st fScriptChecks fl (script_threads E) view) (\<lambda>(vChecks, view).
                    Inr (a\<lparr>ca_view := view, ca_fees := ca_fees a + (nValueIn - nValueOut), ca_sigops := ca_sigops a + n,
                           ca_checks := ca_checks a @ vChecks\<rparr>))))))))"

definition connect_tx ::
  "('pk, 'sig) connect_env \<Rightarrow> chain_state \<Rightarrow> 'v get_coins \<Rightarrow> (CCoins \<Rightarrow> int) \<Rightarrow> ('v \<Rightarrow> uint256) \<Rightarrow> ptr \<Rightarrow> bool \<Rightarrow> u32 \<Rightarrow> u32 \<Rightarrow>
   bool \<Rightarrow> CTransaction \<Rightarrow> CValidationState \<Rightarrow> 'v connect_acc \<Rightarrow> connect_stop + 'v connect_acc" where
  \<comment> \<open>the body of the loop; \<open>first\<close> is \<open>i == 0\<close>, whose undo record is a dummy\<close>
  "connect_tx E S GetC usage best pindex fScriptChecks fl nLockTimeFlags first tx st a =
     (let a = a\<lparr>ca_sigops := ca_sigops a + GetLegacySigOpCount tx\<rparr> in
      if ca_sigops a > MAX_BLOCK_SIGOPS then reject (DoS 100 False REJECT_INVALID ''bad-blk-sigops'' False [] st)
      else sum_bind (if IsCoinBase tx then Inr a
                     else connect_inputs E S GetC usage best pindex fScriptChecks fl nLockTimeFlags tx st a) (\<lambda>a.
        sum_bind (asserted (UpdateCoins GetC usage tx (ca_view a) (BlockIndex.nHeight (obj (tree S) pindex)))) (\<lambda>(us, view).
          Inr (a\<lparr>ca_view := view, ca_undo := (if first then ca_undo a else ca_undo a @ [us])\<rparr>))))"

fun connect_txs ::
  "('pk, 'sig) connect_env \<Rightarrow> chain_state \<Rightarrow> 'v get_coins \<Rightarrow> (CCoins \<Rightarrow> int) \<Rightarrow> ('v \<Rightarrow> uint256) \<Rightarrow> ptr \<Rightarrow> bool \<Rightarrow> u32 \<Rightarrow> u32 \<Rightarrow>
   bool \<Rightarrow> CTransaction list \<Rightarrow> CValidationState \<Rightarrow> 'v connect_acc \<Rightarrow> connect_stop + 'v connect_acc" where
  "connect_txs E S GetC usage best pindex fScriptChecks fl nLockTimeFlags first [] st a = Inr a"
| "connect_txs E S GetC usage best pindex fScriptChecks fl nLockTimeFlags first (tx # rest) st a =
     sum_bind (connect_tx E S GetC usage best pindex fScriptChecks fl nLockTimeFlags first tx st a)
       (connect_txs E S GetC usage best pindex fScriptChecks fl nLockTimeFlags False rest st)"

definition wait_checks :: "('pk, 'sig) connect_env \<Rightarrow> bool \<Rightarrow> CScriptCheck list \<Rightarrow> connect_stop + bool" where
  \<comment> \<open>\<open>control.Wait()\<close>: the checks the threads ran; an assertion in any of them stops the program\<close>
  "wait_checks E fScriptChecks cs =
     (if \<not> (fScriptChecks \<and> script_threads E) then Inr True
      else if list_ex (\<lambda>c. run_check E c = Inl script_stop.AssertFailed) cs then Inl (Fault AssertionFailure)
      else Inr (list_all (\<lambda>c. run_check E c = Inr ()) cs))"

definition BLOCK_HAVE_UNDO :: u32 where "BLOCK_HAVE_UNDO = 16"
definition BLOCK_VALID_SCRIPTS :: u32 where "BLOCK_VALID_SCRIPTS = 5"

definition undo_null :: "CBlockIndex \<Rightarrow> bool" where
  \<comment> \<open>\<open>GetUndoPos().IsNull()\<close>\<close>
  "undo_null b \<longleftrightarrow> nStatus b AND BLOCK_HAVE_UNDO = 0 \<or> nFile b = - 1"

definition write_block_undo ::
  "('pk, 'sig) connect_env \<Rightarrow> chain_state \<Rightarrow> ptr \<Rightarrow> CTxInUndo list list \<Rightarrow> CValidationState \<Rightarrow> connect_stop + chain_state" where
  "write_block_undo E S pindex vtxundo st =
     (let T = tree S; b = obj T pindex in
      sum_bind (lift_fault (if undo_null b then Inr False else IsValid b BLOCK_VALID_SCRIPTS)) (\<lambda>valid.
        if valid then Inr S
        else sum_bind (if undo_null b
                       then sum_bind (not_null (pprev b)) (\<lambda>prev.
                         case write_undo E (nFile b) vtxundo (phashBlock (obj T prev)) of
                           Inl msg \<Rightarrow> reject (vs_Error msg st)
                         | Inr pos \<Rightarrow> Inr (b\<lparr>nUndoPos := pos, nStatus := nStatus b OR BLOCK_HAVE_UNDO\<rparr>))
                       else Inr b) (\<lambda>b.
          sum_bind (lift_fault (RaiseValidity b BLOCK_VALID_SCRIPTS)) (\<lambda>(b, _).
            Inr (S\<lparr>tree := T\<lparr>obj := (obj T)(pindex := b)\<rparr>, setDirtyBlockIndex := insert pindex (setDirtyBlockIndex S)\<rparr>)))))"

record 'v connect_result =
  cr_chain :: chain_state
  cr_view :: "'v CCoinsViewCache"
  cr_state :: CValidationState
  cr_caches :: versionbits_caches
  cr_fChecked :: bool

definition connect_payments ::
  "('pk, 'sig) connect_env \<Rightarrow> CBlock \<Rightarrow> int \<Rightarrow> CAmount \<Rightarrow> CValidationState \<Rightarrow> connect_stop + unit" where
  "connect_payments E block height blockReward st =
     sum_bind (lift_node (IsBlockValueValid (node E) (pays E) (vtx block ! 0) height blockReward)) (\<lambda>ok.
       if \<not> ok then reject (DoS 0 False REJECT_INVALID ''bad-cb-amount'' False [] st)
       else sum_bind (lift_node (IsBlockPayeeValid (node E) (pays E) (vtx block ! 0) height blockReward)) (\<lambda>ok.
         if \<not> ok then Inl (Rejected (snd (DoS 0 False REJECT_INVALID ''bad-cb-payee'' False [] st)) True)
         else Inr ()))"

definition ConnectBlock ::
  "('pk, 'sig) connect_env \<Rightarrow> chain_state \<Rightarrow> CChain \<Rightarrow> versionbits_caches \<Rightarrow> 'v get_coins \<Rightarrow> (CCoins \<Rightarrow> int) \<Rightarrow> ('v \<Rightarrow> uint256) \<Rightarrow>
   CBlock \<Rightarrow> CValidationState \<Rightarrow> ptr \<Rightarrow> 'v CCoinsViewCache \<Rightarrow> bool \<Rightarrow> connect_stop + 'v connect_result" where
  \<comment> \<open>a rejection drops the view and what the call left in caches\<close>
  "ConnectBlock E S chainActive caches GetC usage best block st pindex view fJustCheck =
     (let G = node E; P = consensus G; T = tree S; b = obj T pindex; height = BlockIndex.nHeight b in
      sum_bind (lift_node (CheckBlock G T chainActive block st (\<not> fJustCheck) (\<not> fJustCheck))) (\<lambda>chk.
      if \<not> bc_ok chk then Inl (Rejected (bc_state chk) (bc_rejected chk))
      else let st = bc_state chk; hashPrev = (case pprev b of None \<Rightarrow> blob_null | Some q \<Rightarrow> phashBlock (obj T q)) in
      case cache_GetBestBlock best view of (bestHash, view) \<Rightarrow>
      if hashPrev \<noteq> bestHash then Inl (Fault AssertionFailure)
      else if block_hash G block = hashGenesisBlock P
      then Inr \<lparr>cr_chain = S, cr_view = (if fJustCheck then view else SetBestBlock (phashBlock b) view), cr_state = st,
                cr_caches = caches, cr_fChecked = bc_fChecked chk\<rparr>
      else sum_bind (script_checks E S pindex) (\<lambda>fScriptChecks.
      sum_bind (enforce_BIP30 P T pindex) (\<lambda>fEnforceBIP30.
      case (if fEnforceBIP30 then overwrites GetC usage (vtx block) view else (False, view)) of (dup, view) \<Rightarrow>
      if dup then reject (DoS 100 False REJECT_INVALID ''bad-txns-BIP30'' False [] st)
      else sum_bind (script_flags P T block pindex caches) (\<lambda>(fl, nLockTimeFlags, caches).
      sum_bind (connect_txs E S GetC usage best pindex fScriptChecks fl nLockTimeFlags True (vtx block) st
                  \<lparr>ca_view = view, ca_fees = 0, ca_sigops = 0, ca_undo = [], ca_checks = []\<rparr>) (\<lambda>a.
      sum_bind (not_null (pprev b)) (\<lambda>prev.
      case GetBlockSubsidy (nBits (obj T prev)) (BlockIndex.nHeight (obj T prev)) P False of
        None \<Rightarrow> Inl (Fault NoReturn)
      | Some nSubsidy \<Rightarrow>
      sum_bind (connect_payments E block height (ca_fees a + nSubsidy) st) (\<lambda>_.
      sum_bind (wait_checks E fScriptChecks (ca_checks a)) (\<lambda>ok.
      if \<not> ok then reject (DoS 100 False 0 [] False [] st)
      else if fJustCheck
      then Inr \<lparr>cr_chain = S, cr_view = ca_view a, cr_state = st, cr_caches = caches, cr_fChecked = bc_fChecked chk\<rparr>
      else sum_bind (write_block_undo E S pindex (ca_undo a) st) (\<lambda>S.
        case index_error E of
          Some msg \<Rightarrow> reject (vs_Error msg st)
        | None \<Rightarrow> Inr \<lparr>cr_chain = S, cr_view = SetBestBlock (phashBlock b) (ca_view a), cr_state = st, cr_caches = caches,
                          cr_fChecked = bc_fChecked chk\<rparr>))))))))))"

end
