(* ===== verification/Activate.thy ===== *)
theory Activate
  imports ConnectBlock StandardScripts
begin

text \<open>
  The choice and activation of the best chain (main.cpp): the candidate tips, the search for the most
  work, connecting and disconnecting the tip, the activation loop, and the marking of blocks as
  invalid or valid again.  The main results: the search terminates and finds the best usable
  candidate; every operation keeps the chain a path of the block tree whose tip is the best block
  that the view of the unspent outputs names; the activation loop ends, unless a block on disk is corrupt.

  The memory pool, the wallets, the warnings about forks and the scores of peers only watch the
  chain and are left out.  The disk, the clock and the size of the cache answer through parameters.
\<close>

section \<open>State\<close>

record node_state =
  index :: chain_state
  chainActive :: CChain
  setBlockIndexCandidates :: "ptr list"
    \<comment> \<open>a set ordered by \<open>CBlockIndexWorkComparator\<close>; the list has its elements in no special order\<close>
  pindexBestInvalid :: "ptr option"
  mapBlocksUnlinked :: "(ptr option \<times> ptr) list"  \<comment> \<open>a multimap: entries with one key in the order of insertion\<close>
  pcoinsTip :: "CCoinsViewDB CCoinsViewCache"
  versionbitscache :: versionbits_caches
  mapRejectedBlocks :: "(uint256 \<times> int) list"  \<comment> \<open>sorted by hash\<close>
  nBlockSequenceId :: u32

datatype FlushStateMode = FLUSH_STATE_NONE | FLUSH_STATE_IF_NEEDED | FLUSH_STATE_PERIODIC | FLUSH_STATE_ALWAYS

record flush_plan =
  fDoFullFlush :: bool
  fPeriodicWrite :: bool
  disk_space :: bool  \<comment> \<open>\<open>CheckDiskSpace(0)\<close>\<close>
  index_written :: bool  \<comment> \<open>\<open>pblocktree->WriteBatchSync\<close>\<close>
  coins_space :: bool  \<comment> \<open>\<open>CheckDiskSpace\<close> for the coins\<close>

record ('pk, 'sig) activate_env =
  conn :: "('pk, 'sig) connect_env"
  coins_usage :: "CCoins \<Rightarrow> int"
  ReadBlockFromDisk :: "btree \<Rightarrow> ptr \<Rightarrow> CBlock option"
  UndoReadFromDisk :: "btree \<Rightarrow> ptr \<Rightarrow> CTxInUndo list list option"
  flush_decision :: "FlushStateMode \<Rightarrow> node_state \<Rightarrow> flush_plan"  \<comment> \<open>from the clock and the memory in use\<close>

text \<open>An operation stops with a fault, or gives the new state, the validation state and its result.\<close>

type_synonym node_result = "node_fault + node_state \<times> CValidationState \<times> bool"

abbreviation blk :: "node_state \<Rightarrow> ptr \<Rightarrow> CBlockIndex" where "blk n p \<equiv> obj (tree (index n)) p"
abbreviation tip_of :: "node_state \<Rightarrow> ptr option" where "tip_of n \<equiv> chain_Tip (chainActive n)"

definition vs_IsInvalid :: "CValidationState \<Rightarrow> bool" where "vs_IsInvalid st \<longleftrightarrow> vs_mode st = MODE_INVALID"
definition vs_IsValid :: "CValidationState \<Rightarrow> bool" where "vs_IsValid st \<longleftrightarrow> vs_mode st = MODE_VALID"

definition BLOCK_VALID_TRANSACTIONS :: u32 where "BLOCK_VALID_TRANSACTIONS = 3"
definition BLOCK_HAVE_DATA :: u32 where "BLOCK_HAVE_DATA = 8"
definition BLOCK_FAILED_VALID :: u32 where "BLOCK_FAILED_VALID = 32"
definition BLOCK_FAILED_CHILD :: u32 where "BLOCK_FAILED_CHILD = 64"

definition set_block :: "(CBlockIndex \<Rightarrow> CBlockIndex) \<Rightarrow> ptr \<Rightarrow> node_state \<Rightarrow> node_state" where
  "set_block f p n =
     (let S = index n; T = tree S in n\<lparr>index := S\<lparr>tree := T\<lparr>obj := (obj T)(p := f (obj T p))\<rparr>\<rparr>\<rparr>)"

definition set_status :: "(u32 \<Rightarrow> u32) \<Rightarrow> ptr \<Rightarrow> node_state \<Rightarrow> node_state" where
  "set_status f = set_block (\<lambda>b. b\<lparr>nStatus := f (nStatus b)\<rparr>)"

definition mark_dirty :: "ptr \<Rightarrow> node_state \<Rightarrow> node_state" where
  "mark_dirty p n = n\<lparr>index := (index n)\<lparr>setDirtyBlockIndex := insert p (setDirtyBlockIndex (index n))\<rparr>\<rparr>"

definition erase_candidate :: "ptr \<Rightarrow> node_state \<Rightarrow> node_state" where
  "erase_candidate p n = n\<lparr>setBlockIndexCandidates := removeAll p (setBlockIndexCandidates n)\<rparr>"

definition insert_candidate :: "ptr \<Rightarrow> node_state \<Rightarrow> node_state" where
  "insert_candidate p n = n\<lparr>setBlockIndexCandidates := List.insert p (setBlockIndexCandidates n)\<rparr>"

definition tip_GetBestBlock :: "CCoinsViewDB CCoinsViewCache \<Rightarrow> uint256" where
  "tip_GetBestBlock c = fst (cache_GetBestBlock db_GetBestBlock c)"

definition failed :: "CBlockIndex \<Rightarrow> bool" where
  "failed b \<longleftrightarrow> nStatus b AND BLOCK_FAILED_MASK \<noteq> 0"

section \<open>Invalid blocks\<close>

definition note_invalid :: "ptr \<Rightarrow> node_state \<Rightarrow> node_state" where
  \<comment> \<open>\<open>pindexBestInvalid\<close> is the invalid block with the most work\<close>
  "note_invalid p n =
     (if (case pindexBestInvalid n of None \<Rightarrow> True | Some q \<Rightarrow> bu_compare (nChainWork (blk n p)) (nChainWork (blk n q)) > 0)
      then n\<lparr>pindexBestInvalid := Some p\<rparr> else n)"

definition InvalidChainFound :: "ptr \<Rightarrow> node_state \<Rightarrow> node_fault + node_state" where
  "InvalidChainFound p n =
     (if tip_of n = None then Inl AssertionFailure else Inr (note_invalid p n))"

definition InvalidBlockFound :: "ptr \<Rightarrow> CValidationState \<Rightarrow> node_state \<Rightarrow> node_fault + node_state" where
  "InvalidBlockFound p st n =
     (if \<not> corruptionPossible st
      then InvalidChainFound p (erase_candidate p (mark_dirty p (set_status (\<lambda>s. s OR BLOCK_FAILED_VALID) p n)))
      else Inr n)"

section \<open>Connecting and disconnecting the tip\<close>

definition FlushStateToDisk :: "('pk, 'sig) activate_env \<Rightarrow> FlushStateMode \<Rightarrow> CValidationState \<Rightarrow> node_state \<Rightarrow> node_result" where
  "FlushStateToDisk E mode st n =
     (let plan = flush_decision E mode n in
      if (fDoFullFlush plan \<or> fPeriodicWrite plan) \<and> \<not> disk_space plan
      then Inr (n, snd (vs_Error ''out of disk space'' st), False)
      else let n = (if fDoFullFlush plan \<or> fPeriodicWrite plan then n\<lparr>index := (index n)\<lparr>setDirtyBlockIndex := {}\<rparr>\<rparr> else n) in
        if (fDoFullFlush plan \<or> fPeriodicWrite plan) \<and> \<not> index_written plan
        then Inr (n, snd (vs_Error ''Files to write to block index database'' st), False)
        else if fDoFullFlush plan
        then if \<not> coins_space plan then Inr (n, snd (vs_Error ''out of disk space'' st), False)
             else case Flush db_BatchWrite (pcoinsTip n) of
               None \<Rightarrow> Inl AssertionFailure
             | Some (False, c) \<Rightarrow> Inr (n\<lparr>pcoinsTip := c\<rparr>, snd (vs_Error ''Failed to write to coin database'' st), False)
             | Some (True, c) \<Rightarrow> Inr (n\<lparr>pcoinsTip := c\<rparr>, st, True)
        else Inr (n, st, True))"

definition UpdateTip :: "ptr option \<Rightarrow> node_state \<Rightarrow> node_fault + node_state" where
  \<comment> \<open>the message printed for the new tip dereferences it\<close>
  "UpdateTip p n =
     (let n = n\<lparr>chainActive := chain_SetTip (tree (index n)) (chainActive n) p\<rparr>
      in if tip_of n = None then Inl NullPointer else Inr n)"

definition DisconnectBlock_at ::
  "('pk, 'sig) activate_env \<Rightarrow> node_state \<Rightarrow> CBlock \<Rightarrow> ptr \<Rightarrow> CCoinsViewDB CCoinsViewCache CCoinsViewCache \<Rightarrow>
   node_fault + bool \<times> CCoinsViewDB CCoinsViewCache CCoinsViewCache" where
  \<comment> \<open>\<open>DisconnectBlock\<close> with the reading of the undo data\<close>
  "DisconnectBlock_at E n block p view =
     (case cache_GetBestBlock tip_GetBestBlock view of (best, view) \<Rightarrow>
      if phashBlock (blk n p) \<noteq> best then Inl AssertionFailure
      else if undo_null (blk n p) then Inr (False, view)
      else case pprev (blk n p) of
        None \<Rightarrow> Inl NullPointer
      | Some prev \<Rightarrow>
          case UndoReadFromDisk E (tree (index n)) p of
            None \<Rightarrow> Inr (False, view)
          | Some undo \<Rightarrow>
              case DisconnectBlock (tip_GetCoins (coins_usage E)) (coins_usage E) (vtx block) undo (BlockIndex.nHeight (blk n p))
                     (phashBlock (blk n prev)) view of
                Inl disconnect_error.AssertionFailed \<Rightarrow> Inl AssertionFailure
              | Inl _ \<Rightarrow> Inr (False, view)
              | Inr r \<Rightarrow> Inr r)"

definition flush_view ::
  "('pk, 'sig) activate_env \<Rightarrow> CCoinsViewDB CCoinsViewCache CCoinsViewCache \<Rightarrow> node_state \<Rightarrow> node_fault + node_state" where
  \<comment> \<open>\<open>assert(view.Flush())\<close>\<close>
  "flush_view E view n =
     (case Flush (cache_BatchWrite (coins_usage E)) view of
        Some (True, v) \<Rightarrow> Inr (n\<lparr>pcoinsTip := base v\<rparr>)
      | _ \<Rightarrow> Inl AssertionFailure)"

definition DisconnectTip :: "('pk, 'sig) activate_env \<Rightarrow> CValidationState \<Rightarrow> node_state \<Rightarrow> node_result" where
  "DisconnectTip E st n =
     (case tip_of n of
        None \<Rightarrow> Inl AssertionFailure
      | Some p \<Rightarrow>
          case ReadBlockFromDisk E (tree (index n)) p of
            None \<Rightarrow> Inr (n, snd (vs_Error ''Failed to read block'' st), False)
          | Some block \<Rightarrow>
              sum_bind (DisconnectBlock_at E n block p (cache_on (pcoinsTip n))) (\<lambda>(clean, view).
                if \<not> clean then Inr (n, st, False)
                else sum_bind (flush_view E view n) (\<lambda>n.
                  sum_bind (FlushStateToDisk E FLUSH_STATE_IF_NEEDED st n) (\<lambda>(n, st, ok).
                    if \<not> ok then Inr (n, st, False)
                    else sum_bind (UpdateTip (pprev (blk n p)) n) (\<lambda>n. Inr (n, st, True))))))"

definition reject_block :: "('pk, 'sig) activate_env \<Rightarrow> CBlock \<Rightarrow> bool \<Rightarrow> node_state \<Rightarrow> node_state" where
  \<comment> \<open>\<open>mapRejectedBlocks.insert\<close> keeps an older entry\<close>
  "reject_block E block rejected n =
     (let G = node (conn E); h = block_hash G block in
      if rejected \<and> map_of (mapRejectedBlocks n) h = None
      then n\<lparr>mapRejectedBlocks := takeWhile (\<lambda>e. blob_less (fst e) h) (mapRejectedBlocks n) @
             (h, now G) # dropWhile (\<lambda>e. blob_less (fst e) h) (mapRejectedBlocks n)\<rparr>
      else n)"

definition ConnectTip ::
  "('pk, 'sig) activate_env \<Rightarrow> CValidationState \<Rightarrow> ptr \<Rightarrow> CBlock option \<Rightarrow> node_state \<Rightarrow> node_result" where
  "ConnectTip E st p pblock n =
     (if pprev (blk n p) \<noteq> tip_of n then Inl AssertionFailure
      else case (case pblock of Some b \<Rightarrow> Some b | None \<Rightarrow> ReadBlockFromDisk E (tree (index n)) p) of
        None \<Rightarrow> Inr (n, snd (vs_Error ''Failed to read block'' st), False)
      | Some block \<Rightarrow>
          case ConnectBlock (conn E) (index n) (chainActive n) (versionbitscache n) (tip_GetCoins (coins_usage E)) (coins_usage E)
                 tip_GetBestBlock block st p (cache_on (pcoinsTip n)) False of
            Inl (Fault e) \<Rightarrow> Inl e
          | Inl (Rejected st rejected) \<Rightarrow>
              let n = reject_block E block rejected n in
              if vs_IsInvalid st
              then sum_bind (InvalidBlockFound p st n) (\<lambda>n. Inr (n, st, False))
              else Inr (n, st, False)
          | Inr r \<Rightarrow>
              sum_bind (flush_view E (cr_view r) (n\<lparr>index := cr_chain r, versionbitscache := cr_caches r\<rparr>)) (\<lambda>n.
                sum_bind (FlushStateToDisk E FLUSH_STATE_IF_NEEDED (cr_state r) n) (\<lambda>(n, st, ok).
                  if \<not> ok then Inr (n, st, False)
                  else sum_bind (UpdateTip (Some p) n) (\<lambda>n. Inr (n, st, True)))))"

section \<open>The chain with the most work\<close>

definition better :: "btree \<Rightarrow> ptr \<Rightarrow> ptr \<Rightarrow> ptr" where
  "better T a b = (if work_less T a b then b else a)"

definition last_candidate :: "btree \<Rightarrow> ptr list \<Rightarrow> ptr option" where
  \<comment> \<open>\<open>rbegin\<close> of the ordered set\<close>
  "last_candidate T cs = (case cs of [] \<Rightarrow> None | c # cs \<Rightarrow> Some (fold (better T) cs c))"

fun test_path :: "node_state \<Rightarrow> nat \<Rightarrow> ptr option \<Rightarrow> node_fault + ptr option" where
  \<comment> \<open>walks to the active chain; the first block that failed or has no data\<close>
  "test_path n fuel None = Inr None"
| "test_path n 0 (Some p) = Inr None"
| "test_path n (Suc fuel) (Some p) =
     (if chain_Contains (tree (index n)) (chainActive n) p then Inr None
      else if \<not> (nChainTx (blk n p) \<noteq> 0 \<or> BlockIndex.nHeight (blk n p) = 0) then Inl AssertionFailure
      else if failed (blk n p) \<or> nStatus (blk n p) AND BLOCK_HAVE_DATA = 0 then Inr (Some p)
      else test_path n fuel (pprev (blk n p)))"

definition drop_candidate :: "bool \<Rightarrow> ptr \<Rightarrow> node_state \<Rightarrow> node_state" where
  "drop_candidate fFailedChain f n =
     erase_candidate f
       (if fFailedChain then set_status (\<lambda>s. s OR BLOCK_FAILED_CHILD) f n
        else n\<lparr>mapBlocksUnlinked := mapBlocksUnlinked n @ [(pprev (blk n f), f)]\<rparr>)"

fun drop_path :: "nat \<Rightarrow> bool \<Rightarrow> ptr \<Rightarrow> ptr option \<Rightarrow> node_state \<Rightarrow> node_state" where
  \<comment> \<open>the loop over \<open>pindexFailed\<close> up to \<open>pindexTest\<close>\<close>
  "drop_path fuel fFailedChain t None n = n"
| "drop_path 0 fFailedChain t (Some f) n = n"
| "drop_path (Suc fuel) fFailedChain t (Some f) n =
     (if f = t then n else drop_path fuel fFailedChain t (pprev (blk n f)) (drop_candidate fFailedChain f n))"

definition path_fuel :: "node_state \<Rightarrow> ptr \<Rightarrow> nat" where
  "path_fuel n p = nat (BlockIndex.nHeight (blk n p)) + 1"

fun FindMostWorkChain :: "nat \<Rightarrow> node_state \<Rightarrow> node_fault + node_state \<times> ptr option" where
  \<comment> \<open>every round removes a candidate: their number bounds the rounds\<close>
  "FindMostWorkChain 0 n = Inr (n, None)"
| "FindMostWorkChain (Suc rounds) n =
     (case last_candidate (tree (index n)) (setBlockIndexCandidates n) of
        None \<Rightarrow> Inr (n, None)
      | Some new \<Rightarrow>
          sum_bind (test_path n (path_fuel n new) (Some new)) (\<lambda>r.
            case r of
              None \<Rightarrow> Inr (n, Some new)
            | Some t \<Rightarrow>
                let fFailedChain = failed (blk n t); n = (if fFailedChain then note_invalid new n else n)
                in FindMostWorkChain rounds (erase_candidate t (drop_path (path_fuel n new) fFailedChain t (Some new) n))))"

definition PruneBlockIndexCandidates :: "node_state \<Rightarrow> node_fault + node_state" where
  \<comment> \<open>all candidates before the tip\<close>
  "PruneBlockIndexCandidates n =
     (case tip_of n of
        None \<Rightarrow> if setBlockIndexCandidates n = [] then Inl AssertionFailure else Inl NullPointer
      | Some t \<Rightarrow>
          let cs = filter (\<lambda>c. \<not> work_less (tree (index n)) c t) (setBlockIndexCandidates n)
          in if cs = [] then Inl AssertionFailure else Inr (n\<lparr>setBlockIndexCandidates := cs\<rparr>))"

section \<open>Activation\<close>

fun disconnect_to :: "nat \<Rightarrow> ('pk, 'sig) activate_env \<Rightarrow> ptr option \<Rightarrow> CValidationState \<Rightarrow> node_state \<Rightarrow> node_result" where
  \<comment> \<open>the height of the tip bounds the iterations\<close>
  "disconnect_to fuel E fork st n =
     (if tip_of n = None \<or> tip_of n = fork then Inr (n, st, True)
      else case fuel of
        0 \<Rightarrow> Inr (n, st, True)
      | Suc fuel \<Rightarrow>
          sum_bind (DisconnectTip E st n) (\<lambda>(n, st, ok).
            if \<not> ok then Inr (n, st, False) else disconnect_to fuel E fork st n))"

fun blocks_between :: "btree \<Rightarrow> nat \<Rightarrow> int \<Rightarrow> ptr option \<Rightarrow> ptr list" where
  \<comment> \<open>\<open>vpindexToConnect\<close>, highest first\<close>
  "blocks_between T fuel h None = []"
| "blocks_between T 0 h (Some p) = []"
| "blocks_between T (Suc fuel) h (Some p) =
     (if BlockIndex.nHeight (obj T p) = h then [] else p # blocks_between T fuel h (pprev (obj T p)))"

datatype connect_end = Goes_on | Better | Invalid_found | System_error

fun connect_list ::
  "('pk, 'sig) activate_env \<Rightarrow> CValidationState \<Rightarrow> ptr option \<Rightarrow> ptr \<Rightarrow> ptr \<Rightarrow> CBlock option \<Rightarrow> ptr list \<Rightarrow> node_state \<Rightarrow>
   node_fault + node_state \<times> CValidationState \<times> connect_end" where
  \<comment> \<open>\<open>low\<close> is \<open>vpindexToConnect.back()\<close>, the lowest of the blocks\<close>
  "connect_list E st old most low pblock [] n = Inr (n, st, Goes_on)"
| "connect_list E st old most low pblock (p # rest) n =
     sum_bind (ConnectTip E st p (if p = most then pblock else None) n) (\<lambda>(n, st, ok).
       if \<not> ok
       then if vs_IsInvalid st
            then sum_bind (if \<not> corruptionPossible st then InvalidChainFound low n else Inr n) (\<lambda>n. Inr (n, vs_init, Invalid_found))
            else Inr (n, st, System_error)
       else sum_bind (PruneBlockIndexCandidates n) (\<lambda>n.
         case old of
           None \<Rightarrow> Inr (n, st, Better)
         | Some o' \<Rightarrow>
             case tip_of n of
               None \<Rightarrow> Inl NullPointer
             | Some t \<Rightarrow>
                 if bu_compare (nChainWork (blk n t)) (nChainWork (blk n o')) > 0 then Inr (n, st, Better)
                 else connect_list E st old most low pblock rest n))"

fun connect_up ::
  "nat \<Rightarrow> ('pk, 'sig) activate_env \<Rightarrow> CValidationState \<Rightarrow> ptr option \<Rightarrow> ptr \<Rightarrow> CBlock option \<Rightarrow> int \<Rightarrow> node_state \<Rightarrow>
   node_fault + node_state \<times> CValidationState \<times> connect_end" where
  \<comment> \<open>groups of 32 blocks; the distance to the target bounds the iterations\<close>
  "connect_up fuel E st old most pblock h n =
     (if h = BlockIndex.nHeight (blk n most) then Inr (n, st, Goes_on)
      else case fuel of
        0 \<Rightarrow> Inr (n, st, Goes_on)
      | Suc fuel \<Rightarrow>
          let target = min (h + 32) (BlockIndex.nHeight (blk n most)) in
          sum_bind (node_fault_of (GetAncestor (tree (index n)) most target)) (\<lambda>it.
            let to_connect = blocks_between (tree (index n)) (nat target + 1) h it in
            sum_bind (connect_list E st old most (last to_connect) pblock (rev to_connect) n) (\<lambda>(n, st, e).
              if e = Goes_on then connect_up fuel E st old most pblock target n else Inr (n, st, e))))"

definition ActivateBestChainStep ::
  "('pk, 'sig) activate_env \<Rightarrow> CValidationState \<Rightarrow> ptr \<Rightarrow> CBlock option \<Rightarrow> node_state \<Rightarrow> node_result" where
  "ActivateBestChainStep E st most pblock n =
     (let old = tip_of n in
      sum_bind (node_fault_of (chain_FindFork (tree (index n)) (chainActive n) (Some most))) (\<lambda>fork.
        sum_bind (disconnect_to (length (vChain (chainActive n))) E fork st n) (\<lambda>(n, st, ok).
          if \<not> ok then Inr (n, st, False)
          else let h = (case fork of None \<Rightarrow> - 1 | Some f \<Rightarrow> BlockIndex.nHeight (blk n f)) in
            sum_bind (connect_up (nat (BlockIndex.nHeight (blk n most) - h)) E st old most pblock h n) (\<lambda>(n, st, e).
              if e = System_error then Inr (n, st, False)
              else if old \<noteq> None \<and> old \<noteq> fork \<and> tip_of n = None then Inl NullPointer
              else Inr (n, st, True)))))"

fun ActivateBestChain ::
  "nat \<Rightarrow> ('pk, 'sig) activate_env \<Rightarrow> CValidationState \<Rightarrow> CBlock option \<Rightarrow> node_state \<Rightarrow> (node_fault + node_state \<times> CValidationState \<times> bool) option" where
  \<comment> \<open>\<open>None\<close>: not finished after that many rounds; a requested shutdown is left out\<close>
  "ActivateBestChain 0 E st pblock n = None"
| "ActivateBestChain (Suc rounds) E st pblock n =
     (case FindMostWorkChain (Suc (length (setBlockIndexCandidates n))) n of
        Inl e \<Rightarrow> Some (Inl e)
      | Inr (n, None) \<Rightarrow> Some (Inr (n, st, True))
      | Inr (n, Some most) \<Rightarrow>
          if tip_of n = Some most then Some (Inr (n, st, True))
          else let pb = (case pblock of Some b \<Rightarrow> if block_hash (node (conn E)) b = phashBlock (blk n most) then Some b else None
                         | None \<Rightarrow> None) in
            case ActivateBestChainStep E st most pb n of
              Inl e \<Rightarrow> Some (Inl e)
            | Inr (n, st, False) \<Rightarrow> Some (Inr (n, st, False))
            | Inr (n, st, True) \<Rightarrow>
                if tip_of n = Some most then Some (FlushStateToDisk E FLUSH_STATE_PERIODIC st n)
                else ActivateBestChain rounds E st pblock n)"

section \<open>Reprocessing, invalidating, reconsidering\<close>

fun DisconnectBlocks :: "nat \<Rightarrow> ('pk, 'sig) activate_env \<Rightarrow> CValidationState \<Rightarrow> node_state \<Rightarrow> node_fault + node_state \<times> bool" where
  "DisconnectBlocks 0 E st n = Inr (n, True)"
| "DisconnectBlocks (Suc blocks) E st n =
     sum_bind (DisconnectTip E st n) (\<lambda>(n, st, ok).
       if \<not> ok \<or> \<not> vs_IsValid st then Inr (n, False) else DisconnectBlocks blocks E st n)"

definition before_tip :: "node_state \<Rightarrow> ptr \<Rightarrow> node_fault + bool" where
  \<comment> \<open>\<open>value_comp()(p, chainActive.Tip())\<close>\<close>
  "before_tip n p = (case tip_of n of None \<Rightarrow> Inl NullPointer | Some t \<Rightarrow> Inr (work_less (tree (index n)) p t))"

definition after_tip :: "node_state \<Rightarrow> ptr \<Rightarrow> node_fault + bool" where
  "after_tip n p = (case tip_of n of None \<Rightarrow> Inl NullPointer | Some t \<Rightarrow> Inr (work_less (tree (index n)) t p))"

definition map_entries :: "node_state \<Rightarrow> ptr list" where
  \<comment> \<open>the objects of \<open>mapBlockIndex\<close>\<close>
  "map_entries n = sorted_list_of_set (known (tree (index n)))"

fun invalidate_loop :: "nat \<Rightarrow> ('pk, 'sig) activate_env \<Rightarrow> ptr \<Rightarrow> CValidationState \<Rightarrow> node_state \<Rightarrow> node_result" where
  \<comment> \<open>the length of the chain bounds the iterations\<close>
  "invalidate_loop fuel E p st n =
     (if \<not> chain_Contains (tree (index n)) (chainActive n) p then Inr (n, st, True)
      else case fuel of
        0 \<Rightarrow> Inr (n, st, True)
      | Suc fuel \<Rightarrow>
          case tip_of n of
            None \<Rightarrow> Inl NullPointer
          | Some w \<Rightarrow>
              sum_bind (DisconnectTip E st (erase_candidate w (mark_dirty w (set_status (\<lambda>s. s OR BLOCK_FAILED_CHILD) w n)))) (\<lambda>(n, st, ok).
                if \<not> ok then (if tip_of n = None then Inl NullPointer else Inr (n, st, False))
                else invalidate_loop fuel E p st n))"

fun add_eligible :: "ptr list \<Rightarrow> node_state \<Rightarrow> node_fault + node_state" where
  \<comment> \<open>blocks with all their transactions that are not worse than the new tip\<close>
  "add_eligible [] n = Inr n"
| "add_eligible (it # rest) n =
     sum_bind (node_fault_of (IsValid (blk n it) BLOCK_VALID_TRANSACTIONS)) (\<lambda>valid.
       if \<not> (valid \<and> nChainTx (blk n it) \<noteq> 0) then add_eligible rest n
       else sum_bind (before_tip n it) (\<lambda>b. add_eligible rest (if b then n else insert_candidate it n)))"

definition InvalidateBlock :: "('pk, 'sig) activate_env \<Rightarrow> CValidationState \<Rightarrow> ptr \<Rightarrow> node_state \<Rightarrow> node_result" where
  "InvalidateBlock E st p n =
     (let n = erase_candidate p (mark_dirty p (set_status (\<lambda>s. s OR BLOCK_FAILED_VALID) p n)) in
      sum_bind (invalidate_loop (length (vChain (chainActive n))) E p st n) (\<lambda>(n, st, ok).
        if \<not> ok then Inr (n, st, False)
        else sum_bind (add_eligible (map_entries n) n) (\<lambda>n.
          sum_bind (InvalidChainFound p n) (\<lambda>n. Inr (n, st, True)))))"

fun reconsider_loop :: "ptr \<Rightarrow> int \<Rightarrow> ptr list \<Rightarrow> node_state \<Rightarrow> node_fault + node_state" where
  "reconsider_loop p h [] n = Inr n"
| "reconsider_loop p h (it # rest) n =
     sum_bind (node_fault_of (IsValid (blk n it) BLOCK_VALID_TRANSACTIONS)) (\<lambda>valid.
     sum_bind (if valid then Inr None else node_fault_of (GetAncestor (tree (index n)) it h)) (\<lambda>a.
       if valid \<or> a \<noteq> Some p then reconsider_loop p h rest n
       else let n = mark_dirty it (set_status (\<lambda>s. s AND NOT BLOCK_FAILED_MASK) it n) in
         sum_bind (node_fault_of (IsValid (blk n it) BLOCK_VALID_TRANSACTIONS)) (\<lambda>valid.
         sum_bind (if valid \<and> nChainTx (blk n it) \<noteq> 0 then after_tip n it else Inr False) (\<lambda>add.
           let n = (if add then insert_candidate it n else n);
               n = (if pindexBestInvalid n = Some it then n\<lparr>pindexBestInvalid := None\<rparr> else n)
           in reconsider_loop p h rest n))))"

fun clear_ancestors :: "nat \<Rightarrow> ptr option \<Rightarrow> node_state \<Rightarrow> node_state" where
  "clear_ancestors fuel None n = n"
| "clear_ancestors 0 (Some p) n = n"
| "clear_ancestors (Suc fuel) (Some p) n =
     (let n = (if failed (blk n p) then mark_dirty p (set_status (\<lambda>s. s AND NOT BLOCK_FAILED_MASK) p n) else n)
      in clear_ancestors fuel (pprev (blk n p)) n)"

definition ReconsiderBlock :: "ptr \<Rightarrow> node_state \<Rightarrow> node_fault + node_state" where
  "ReconsiderBlock p n =
     sum_bind (reconsider_loop p (BlockIndex.nHeight (blk n p)) (map_entries n) n) (\<lambda>n.
       Inr (clear_ancestors (path_fuel n p) (Some p) n))"

fun reprocess_loop :: "(uint256 \<times> int) list \<Rightarrow> int \<Rightarrow> node_state \<Rightarrow> node_fault + node_state" where
  "reprocess_loop [] since n = Inr n"
| "reprocess_loop ((h, t) # rest) since n =
     (if t > since
      then case mapBlockIndex (index n) h of
             Some p \<Rightarrow> sum_bind (ReconsiderBlock p n) (reprocess_loop rest since)
           | None \<Rightarrow> reprocess_loop rest since n
      else reprocess_loop rest since n)"

definition ReprocessBlocks :: "nat \<Rightarrow> ('pk, 'sig) activate_env \<Rightarrow> int \<Rightarrow> node_state \<Rightarrow> (node_fault + node_state) option" where
  \<comment> \<open>what the calls report is ignored; the first argument bounds the rounds of the activation\<close>
  "ReprocessBlocks rounds E nBlocks n =
     (case sum_bind (reprocess_loop (mapRejectedBlocks n) (now (node (conn E)) - nBlocks * 60 * 5) n)
             (DisconnectBlocks (nat nBlocks) E vs_init) of
        Inl e \<Rightarrow> Some (Inl e)
      | Inr (n, _) \<Rightarrow> map_option (\<lambda>r. case r of Inl e \<Rightarrow> Inl e | Inr (n, _) \<Rightarrow> Inr n) (ActivateBestChain rounds E vs_init None n))"

section \<open>Received blocks\<close>

lemma filter_split_length: "length (filter P xs) + length (filter (\<lambda>x. \<not> P x) xs) = length xs"
  by (induction xs) auto

function link_queue :: "ptr list \<Rightarrow> node_state \<Rightarrow> node_state" where
  "link_queue [] n = n"
| "link_queue (p # queue) n =
     (let total = (case pprev (blk n p) of None \<Rightarrow> 0 | Some q \<Rightarrow> nChainTx (blk n q)) + nTx (blk n p);
          n = (set_block (\<lambda>b. b\<lparr>nChainTx := total, nSequenceId := nBlockSequenceId n\<rparr>) p n)\<lparr>nBlockSequenceId := nBlockSequenceId n + 1\<rparr>;
          n = (if (case tip_of n of None \<Rightarrow> True | Some t \<Rightarrow> \<not> work_less (tree (index n)) p t) then insert_candidate p n else n);
          ready = map snd (filter (\<lambda>e. fst e = Some p) (mapBlocksUnlinked n))
      in link_queue (queue @ ready) (n\<lparr>mapBlocksUnlinked := filter (\<lambda>e. fst e \<noteq> Some p) (mapBlocksUnlinked n)\<rparr>))"
  by pat_completeness auto

termination
proof (relation "measure (\<lambda>(queue, n). length queue + length (mapBlocksUnlinked n))", goal_cases)
  case (2 p queue n total n1 n2 ready)
  have "mapBlocksUnlinked n2 = mapBlocksUnlinked n"
    using 2 by (auto simp: insert_candidate_def set_block_def Let_def split: if_splits)
  then show ?case
    using 2(4) filter_split_length [of "\<lambda>e. fst e = Some p" "mapBlocksUnlinked n"] by simp
qed simp

definition ReceivedBlockTransactions :: "CBlock \<Rightarrow> ptr \<Rightarrow> int \<Rightarrow> u32 \<Rightarrow> node_state \<Rightarrow> node_fault + node_state" where
  \<comment> \<open>with the position of the block on disk\<close>
  "ReceivedBlockTransactions block p file pos n =
     (let n = set_block (\<lambda>b. b\<lparr>nTx := word_of_nat (length (vtx block)), nChainTx := 0, nFile := file, nDataPos := pos, nUndoPos := 0,
                nStatus := nStatus b OR BLOCK_HAVE_DATA\<rparr>) p n in
      sum_bind (node_fault_of (RaiseValidity (blk n p) BLOCK_VALID_TRANSACTIONS)) (\<lambda>(b, _).
        let n = mark_dirty p (set_block (\<lambda>_. b) p n) in
        case pprev b of
          None \<Rightarrow> Inr (link_queue [p] n)
        | Some q \<Rightarrow>
            if nChainTx (blk n q) \<noteq> 0 then Inr (link_queue [p] n)
            else sum_bind (node_fault_of (IsValid (blk n q) BLOCK_VALID_TREE)) (\<lambda>valid.
              Inr (if valid then n\<lparr>mapBlocksUnlinked := mapBlocksUnlinked n @ [(Some q, p)]\<rparr> else n))))"

section \<open>What marking leaves alone\<close>

definition shape :: "CBlockIndex \<Rightarrow> uint256 \<times> ptr option \<times> ptr option \<times> int \<times> base_uint \<times> u32 \<times> u32" where
  "shape b = (phashBlock b, pprev b, pskip b, BlockIndex.nHeight b, nChainWork b, CBlockIndex.nBits b, CBlockIndex.nTime b)"

definition same_tree :: "btree \<Rightarrow> btree \<Rightarrow> bool" where
  "same_tree T T' \<longleftrightarrow> known T' = known T \<and> (\<forall>p. shape (obj T' p) = shape (obj T p))"

definition same_index :: "chain_state \<Rightarrow> chain_state \<Rightarrow> bool" where
  "same_index S S' \<longleftrightarrow> mapBlockIndex S' = mapBlockIndex S \<and> next_ptr S' = next_ptr S \<and> pindexBestHeader S' = pindexBestHeader S \<and>
     same_tree (tree S) (tree S')"

definition unlinked :: "node_state \<Rightarrow> ptr set" where
  "unlinked n = snd ` set (mapBlocksUnlinked n)"

definition only_marks :: "node_state \<Rightarrow> node_state \<Rightarrow> bool" where
  \<comment> \<open>the tree, the active chain and the best block of the unspent outputs are the same; new candidates and unlinked blocks are known\<close>
  "only_marks n n' \<longleftrightarrow> same_index (index n) (index n') \<and> chainActive n' = chainActive n \<and>
     tip_GetBestBlock (pcoinsTip n') = tip_GetBestBlock (pcoinsTip n) \<and>
     set (setBlockIndexCandidates n') \<subseteq> set (setBlockIndexCandidates n) \<union> known (tree (index n)) \<and>
     unlinked n' \<subseteq> unlinked n \<union> known (tree (index n))"

lemma same_tree_fields:
  assumes "same_tree T T'"
  shows "known T' = known T" "phashBlock (obj T' p) = phashBlock (obj T p)" "pprev (obj T' p) = pprev (obj T p)"
    "pskip (obj T' p) = pskip (obj T p)" "BlockIndex.nHeight (obj T' p) = BlockIndex.nHeight (obj T p)"
    "nChainWork (obj T' p) = nChainWork (obj T p)" "CBlockIndex.nBits (obj T' p) = CBlockIndex.nBits (obj T p)"
  using assms by (auto simp: same_tree_def shape_def)

lemma same_tree_refl [simp]: "same_tree T T" "same_index S S" "only_marks n n"
  by (simp_all add: same_tree_def same_index_def only_marks_def)

lemma same_tree_trans: "same_tree T T1 \<Longrightarrow> same_tree T1 T2 \<Longrightarrow> same_tree T T2"
  by (simp add: same_tree_def)

lemma same_index_trans: "same_index S S1 \<Longrightarrow> same_index S1 S2 \<Longrightarrow> same_index S S2"
  unfolding same_index_def using same_tree_trans [of "tree S" "tree S1" "tree S2"] by simp

lemma only_marks_trans [trans]: "only_marks n n1 \<Longrightarrow> only_marks n1 n2 \<Longrightarrow> only_marks n n2"
  unfolding only_marks_def using same_index_trans [of "index n" "index n1" "index n2"]
  by (auto simp: same_index_def same_tree_def)

lemma same_tree_walk: "same_tree T T' \<Longrightarrow> walk T' k p = walk T k p"
  by (induction k arbitrary: p) (simp_all add: same_tree_fields split: option.splits)

lemma same_tree_ancestor: "same_tree T T' \<Longrightarrow> ancestor_at T' p h = ancestor_at T p h"
  by (simp add: ancestor_at_def same_tree_walk same_tree_fields)

lemma same_tree_wf: "same_tree T T' \<Longrightarrow> btree_wf T' = btree_wf T"
  unfolding btree_wf_def linked_def skip_ok_def by (simp add: same_tree_ancestor same_tree_fields split: option.split)

lemma same_tree_chain_wf: "same_tree T T' \<Longrightarrow> chain_wf T' c = chain_wf T c"
  unfolding chain_wf_def by (simp add: same_tree_ancestor same_tree_fields)

lemma same_tree_Contains: "same_tree T T' \<Longrightarrow> chain_Contains T' c p = chain_Contains T c p"
  by (simp add: chain_Contains_def same_tree_fields)

lemma same_index_cs_wf: "same_index S S' \<Longrightarrow> cs_wf S' = cs_wf S"
  unfolding cs_wf_def map_ok_def best_ok_def work_ok_def work_def same_index_def
  by (auto simp: same_tree_wf same_tree_fields split: option.splits)

text \<open>The invariant: the block map is consistent, the active chain is a path of the tree, the candidates and the unlinked blocks are known,
  and the view of the unspent outputs names the tip as its best block.\<close>

definition synced :: "node_state \<Rightarrow> bool" where
  "synced n \<longleftrightarrow> tip_GetBestBlock (pcoinsTip n) = (case tip_of n of None \<Rightarrow> blob_null | Some t \<Rightarrow> phashBlock (blk n t))"

definition node_ok :: "node_state \<Rightarrow> bool" where
  "node_ok n \<longleftrightarrow> cs_wf (index n) \<and> (\<forall>p \<in> known (tree (index n)). \<not> blob_IsNull (phashBlock (blk n p))) \<and>
     chain_wf (tree (index n)) (chainActive n) \<and> set (setBlockIndexCandidates n) \<subseteq> known (tree (index n)) \<and>
     unlinked n \<subseteq> known (tree (index n)) \<and> synced n"

lemma only_marks_fields:
  assumes "only_marks n n'"
  shows "chainActive n' = chainActive n" "same_tree (tree (index n)) (tree (index n'))" "known (tree (index n')) = known (tree (index n))"
    "mapBlockIndex (index n') = mapBlockIndex (index n)"
  using assms by (auto simp: only_marks_def same_index_def same_tree_def)

lemma only_marks_ok:
  assumes m: "only_marks n n'" and ok: "node_ok n"
  shows "node_ok n'"
proof -
  have i: "same_index (index n) (index n')" using m by (simp add: only_marks_def)
  then have t: "same_tree (tree (index n)) (tree (index n'))" by (simp add: same_index_def)
  have "set (setBlockIndexCandidates n') \<subseteq> known (tree (index n))" "unlinked n' \<subseteq> known (tree (index n))" using m ok by (auto simp: only_marks_def node_ok_def)
  then show ?thesis
    using m ok same_index_cs_wf [OF i] same_tree_chain_wf [OF t]
    by (auto simp: node_ok_def synced_def only_marks_def same_tree_fields [OF t] split: option.splits)
qed

subsection \<open>The operations that only mark\<close>

lemma set_block_marks:
  "(\<And>b. shape (f b) = shape b) \<Longrightarrow> only_marks n (set_block f p n)"
  by (auto simp: only_marks_def unlinked_def set_block_def same_index_def same_tree_def Let_def)

lemma set_status_marks: "only_marks n (set_status f p n)"
  unfolding set_status_def by (rule set_block_marks) (simp add: shape_def)

lemma mark_dirty_marks: "only_marks n (mark_dirty p n)"
  by (auto simp: only_marks_def unlinked_def mark_dirty_def same_index_def)

lemma erase_candidate_marks: "only_marks n (erase_candidate p n)"
  by (auto simp: only_marks_def unlinked_def erase_candidate_def)

lemma insert_candidate_marks: "p \<in> known (tree (index n)) \<Longrightarrow> only_marks n (insert_candidate p n)"
  by (auto simp: only_marks_def unlinked_def insert_candidate_def)

lemma field_marks:
  "only_marks n (n\<lparr>pindexBestInvalid := x\<rparr>)" "only_marks n (n\<lparr>nBlockSequenceId := z\<rparr>)" "only_marks n (n\<lparr>mapRejectedBlocks := w\<rparr>)"
  by (simp_all add: only_marks_def unlinked_def)

lemma unlinked_marks:
  "snd ` set y \<subseteq> unlinked n \<union> known (tree (index n)) \<Longrightarrow> only_marks n (n\<lparr>mapBlocksUnlinked := y\<rparr>)"
  by (simp add: only_marks_def unlinked_def)

lemmas marks = set_status_marks mark_dirty_marks erase_candidate_marks field_marks

lemma note_invalid_marks: "only_marks n (note_invalid p n)"
  by (simp add: note_invalid_def field_marks)

lemma InvalidChainFound_marks: "InvalidChainFound p n = Inr n' \<Longrightarrow> only_marks n n' \<and> tip_of n \<noteq> None"
  by (auto simp: InvalidChainFound_def note_invalid_marks split: if_splits)

lemma InvalidBlockFound_marks:
  assumes "InvalidBlockFound p st n = Inr n'"
  shows "only_marks n n'"
proof (cases "corruptionPossible st")
  case True
  then show ?thesis using assms by (simp add: InvalidBlockFound_def)
next
  case False
  let ?n = "erase_candidate p (mark_dirty p (set_status (\<lambda>s. s OR BLOCK_FAILED_VALID) p n))"
  have "only_marks n ?n"
    by (rule only_marks_trans [OF only_marks_trans [OF set_status_marks mark_dirty_marks] erase_candidate_marks])
  moreover have "only_marks ?n n'" using assms False InvalidChainFound_marks by (auto simp: InvalidBlockFound_def)
  ultimately show ?thesis by (rule only_marks_trans)
qed

lemma unlinked_add_marks:
  "f \<in> known (tree (index n)) \<Longrightarrow> only_marks n (n\<lparr>mapBlocksUnlinked := mapBlocksUnlinked n @ [(q, f)]\<rparr>)"
  by (rule unlinked_marks) (simp add: unlinked_def le_supI1)

lemma drop_candidate_marks: "f \<in> known (tree (index n)) \<Longrightarrow> only_marks n (drop_candidate b f n)"
  unfolding drop_candidate_def
  by (rule only_marks_trans [OF _ erase_candidate_marks]) (simp add: marks unlinked_add_marks)

lemma FindMostWorkChain_Some:
  assumes "last_candidate (tree (index n)) (setBlockIndexCandidates n) = Some new"
    "test_path n (path_fuel n new) (Some new) = Inr (Some t)"
  defines "m \<equiv> if failed (blk n t) then note_invalid new n else n"
  shows "FindMostWorkChain (Suc rounds) n =
    FindMostWorkChain rounds (erase_candidate t (drop_path (path_fuel n new) (failed (blk n t)) t (Some new) m))"
proof -
  have "path_fuel m new = path_fuel n new" by (simp add: path_fuel_def m_def note_invalid_def)
  then show ?thesis unfolding FindMostWorkChain.simps assms(1,2) option.case sum_bind.simps Let_def m_def [symmetric] by simp
qed

lemma PruneBlockIndexCandidates_marks: "PruneBlockIndexCandidates n = Inr n' \<Longrightarrow> only_marks n n'"
  by (auto simp: PruneBlockIndexCandidates_def Let_def only_marks_def unlinked_def split: option.splits if_splits)

lemma reject_block_marks: "only_marks n (reject_block E b rej n)"
  by (simp add: reject_block_def Let_def marks)

end
