(* ===== verification/ActiveChain.thy ===== *)
theory ActiveChain
  imports Activate
begin

text \<open>
  The active chain: connecting, disconnecting and the activation loop keep the invariant of the chain state; the search
  for the chain with the most work ends and finds the best candidate that is usable; the activation
  loop ends.
\<close>

section \<open>Connecting keeps the invariant\<close>

definition same_failed :: "node_state \<Rightarrow> node_state \<Rightarrow> bool" where
  "same_failed n n' \<longleftrightarrow> (\<forall>p. failed (blk n' p) = failed (blk n p))"

lemma node_fault_of_Inr [simp]: "node_fault_of r = Inr a \<longleftrightarrow> r = Inr a"
  by (cases r rule: node_fault_of.cases) auto

lemma lift_Inr [simp]: "lift_fault r = Inr a \<longleftrightarrow> r = Inr a" "lift_node q = Inr a \<longleftrightarrow> q = Inr a"
  by (cases r rule: node_fault_of.cases) (auto simp: lift_fault_def lift_node_def split: sum.splits)

lemma RaiseValidity_shape:
  "RaiseValidity b v = Inr (b', c) \<Longrightarrow> shape b' = shape b"
  by (auto simp: RaiseValidity_def shape_def split: if_splits)

lemma RaiseValidity_failed:
  "RaiseValidity b v = Inr (b', c) \<Longrightarrow> failed b' = failed b"
proof -
  assume r: "RaiseValidity b v = Inr (b', c)"
  have v: "v AND NOT BLOCK_VALID_MASK = 0" using r by (auto simp: RaiseValidity_def split: if_splits)
  note nb = and_not_zeroD [OF v]
  have "((nStatus b AND NOT BLOCK_VALID_MASK) OR v) AND BLOCK_FAILED_MASK = nStatus b AND BLOCK_FAILED_MASK"
    by (rule bit_word_eqI) (use nb BLOCK_masks_disjoint in \<open>auto simp: bit_simps\<close>)
  then show ?thesis using r by (auto simp: RaiseValidity_def failed_def split: if_splits)
qed

lemma write_block_undo_index:
  assumes "write_block_undo E S p undo st = Inr S'"
  shows "same_index S S' \<and> (\<forall>q. failed (obj (tree S') q) = failed (obj (tree S) q))"
proof -
  let ?b = "obj (tree S) p"
  obtain valid where v: "lift_fault (if undo_null ?b then Inr False else IsValid ?b BLOCK_VALID_SCRIPTS) = Inr valid"
    using assms by (auto simp: write_block_undo_def Let_def sum_bind_Inr_iff)
  show ?thesis
  proof (cases valid)
    case True
    then show ?thesis using assms v by (simp add: write_block_undo_def Let_def)
  next
    case False
    define u where "u = (if undo_null ?b
                       then sum_bind (not_null (pprev ?b)) (\<lambda>prev.
                         case write_undo E (nFile ?b) undo (phashBlock (obj (tree S) prev)) of
                           Inl msg \<Rightarrow> reject (vs_Error msg st)
                         | Inr pos \<Rightarrow> Inr (?b\<lparr>nUndoPos := pos, nStatus := nStatus ?b OR BLOCK_HAVE_UNDO\<rparr>))
                       else Inr ?b)"
    obtain b1 b2 c where b: "u = Inr b1" "RaiseValidity b1 BLOCK_VALID_SCRIPTS = Inr (b2, c)"
      "S' = S\<lparr>tree := (tree S)\<lparr>obj := (obj (tree S))(p := b2)\<rparr>, setDirtyBlockIndex := insert p (setDirtyBlockIndex S)\<rparr>"
      using assms v False unfolding write_block_undo_def Let_def u_def [symmetric]
      by (auto simp: sum_bind_Inr_iff)
    have "(nStatus ?b OR BLOCK_HAVE_UNDO) AND BLOCK_FAILED_MASK = nStatus ?b AND BLOCK_FAILED_MASK"
      by (simp add: bit.conj_disj_distrib2 BLOCK_HAVE_UNDO_def BLOCK_FAILED_MASK_def)
    note hu = this
    have "shape b1 = shape ?b \<and> failed b1 = failed ?b"
    proof (cases "undo_null ?b")
      case True
      then obtain prev where "(case write_undo E (nFile ?b) undo (phashBlock (obj (tree S) prev)) of
          Inl msg \<Rightarrow> reject (vs_Error msg st)
        | Inr pos \<Rightarrow> Inr (?b\<lparr>nUndoPos := pos, nStatus := nStatus ?b OR BLOCK_HAVE_UNDO\<rparr>)) = Inr b1"
        using b(1) by (auto simp: u_def sum_bind_Inr_iff)
      then show ?thesis using hu
        by (cases "write_undo E (nFile ?b) undo (phashBlock (obj (tree S) prev))") (auto simp: reject_def shape_def failed_def)
    next
      case False
      then show ?thesis using b(1) by (simp add: u_def)
    qed
    then have "shape b2 = shape ?b" "failed b2 = failed ?b"
      using RaiseValidity_shape [OF b(2)] RaiseValidity_failed [OF b(2)] by simp_all
    then show ?thesis using b(3) by (simp add: same_index_def same_tree_def)
  qed
qed

lemma ConnectBlock_index:
  fixes view :: "'v CCoinsViewCache"
  assumes "ConnectBlock E S ch caches GetC usage best block st p view False = Inr r"
  shows "same_index S (cr_chain r) \<and> (\<forall>q. failed (obj (tree (cr_chain r)) q) = failed (obj (tree S) q)) \<and>
    hashBlock (cr_view r) = phashBlock (obj (tree S) p)"
proof -
  let ?G = "node E" and ?T = "tree S" and ?b = "obj (tree S) p"
  obtain chk where c: "CheckBlock ?G ?T ch block st (\<not> False) (\<not> False) = Inr chk" and ok: "bc_ok chk"
  proof -
    have "\<exists>K. ConnectBlock E S ch caches GetC usage best block st p view False =
        sum_bind (lift_node (CheckBlock ?G ?T ch block st (\<not> False) (\<not> False)))
          (\<lambda>chk. if \<not> bc_ok chk then Inl (Rejected (bc_state chk) (bc_rejected chk)) else K chk)"
      unfolding ConnectBlock_def Let_def by (rule exI, rule refl)
    then obtain K where K: "ConnectBlock E S ch caches GetC usage best block st p view False =
        sum_bind (lift_node (CheckBlock ?G ?T ch block st (\<not> False) (\<not> False)))
          (\<lambda>chk. if \<not> bc_ok chk then Inl (Rejected (bc_state chk) (bc_rejected chk)) else K chk)"
      by (rule exE)
    from trans [OF K [symmetric] assms] show ?thesis using that by (auto simp: sum_bind_Inr_iff split: if_split_asm)
  qed
  obtain h v0 where v0: "cache_GetBestBlock best view = (h, v0)" by (cases "cache_GetBestBlock best view") auto
  show ?thesis
  proof (cases "block_hash ?G block = hashGenesisBlock (consensus ?G)")
    case True
    have "(if (case pprev ?b of None \<Rightarrow> blob_null | Some q \<Rightarrow> phashBlock (obj ?T q)) \<noteq> h then Inl (Fault AssertionFailure)
      else Inr \<lparr>cr_chain = S, cr_view = (if False then v0 else SetBestBlock (phashBlock ?b) v0), cr_state = bc_state chk,
             cr_caches = caches, cr_fChecked = bc_fChecked chk\<rparr>) = Inr r"
      using assms ok unfolding ConnectBlock_def Let_def c v0 lift_node_def sum.case prod.case sum_bind.simps if_P [OF True]
      by (simp only: simp_thms if_False not_False_eq_True)
    then show ?thesis by (auto simp: SetBestBlock_def split: if_split_asm)
  next
    case False
    let ?ov = "\<lambda>f. if f then overwrites GetC usage (vtx block) v0 else (False, v0)"
    define rest where "rest = (\<lambda>(a :: 'v connect_acc) caches S. case index_error E of
          Some msg \<Rightarrow> reject (vs_Error msg (bc_state chk))
        | None \<Rightarrow> Inr \<lparr>cr_chain = S, cr_view = SetBestBlock (phashBlock ?b) (ca_view a), cr_state = bc_state chk, cr_caches = caches,
                          cr_fChecked = bc_fChecked chk\<rparr>)"
    define kont where "kont = (\<lambda>fs a cs prev.
      case GetBlockSubsidy (nBits (obj ?T prev)) (BlockIndex.nHeight (obj ?T prev)) (consensus ?G) False of
        None \<Rightarrow> Inl (Fault NoReturn)
      | Some s \<Rightarrow>
      sum_bind (connect_payments E block (BlockIndex.nHeight ?b) (ca_fees a + s) (bc_state chk)) (\<lambda>_.
      sum_bind (wait_checks E fs (ca_checks a)) (\<lambda>ok.
      if \<not> ok then reject (DoS 100 False 0 [] False [] (bc_state chk))
      else if False
      then Inr \<lparr>cr_chain = S, cr_view = ca_view a, cr_state = bc_state chk, cr_caches = cs, cr_fChecked = bc_fChecked chk\<rparr>
      else sum_bind (write_block_undo E S p (ca_undo a) (bc_state chk)) (rest a cs))))"
    define tail where "tail = (\<lambda>fs f. case ?ov f of (dup, view) \<Rightarrow>
      if dup then reject (DoS 100 False REJECT_INVALID ''bad-txns-BIP30'' False [] (bc_state chk))
      else sum_bind (script_flags (consensus ?G) ?T block p caches) (\<lambda>(fl, nLockTimeFlags, caches).
      sum_bind (connect_txs E S GetC usage best p fs fl nLockTimeFlags True (vtx block) (bc_state chk)
                  \<lparr>ca_view = view, ca_fees = 0, ca_sigops = 0, ca_undo = [], ca_checks = []\<rparr>) (\<lambda>a.
      sum_bind (not_null (pprev ?b)) (kont fs a caches))))"
    have "(if (case pprev ?b of None \<Rightarrow> blob_null | Some q \<Rightarrow> phashBlock (obj ?T q)) \<noteq> h then Inl (Fault AssertionFailure)
      else sum_bind (script_checks E S p) (\<lambda>fs. sum_bind (enforce_BIP30 (consensus ?G) ?T p) (tail fs))) = Inr r"
      using assms ok unfolding ConnectBlock_def Let_def c v0 lift_node_def sum.case prod.case sum_bind.simps if_not_P [OF False]
        tail_def kont_def rest_def by (simp only: simp_thms if_False not_False_eq_True)
    then obtain fs f where t: "tail fs f = Inr r" by (auto simp: sum_bind_Inr_iff split: if_split_asm)
    obtain dup v1 where o: "?ov f = (dup, v1)" by (cases "?ov f") auto
    have d: "\<not> dup" using t o by (auto simp: tail_def reject_def)
    then obtain a cs prev where k: "kont fs a cs prev = Inr r"
      using t o unfolding tail_def by (auto simp: sum_bind_Inr_iff)
    obtain s where s: "GetBlockSubsidy (nBits (obj ?T prev)) (BlockIndex.nHeight (obj ?T prev)) (consensus ?G) False = Some s"
      using k by (cases "GetBlockSubsidy (nBits (obj ?T prev)) (BlockIndex.nHeight (obj ?T prev)) (consensus ?G) False")
        (simp_all add: kont_def)
    obtain ok where w: "(if \<not> ok then reject (DoS 100 False 0 [] False [] (bc_state chk))
      else sum_bind (write_block_undo E S p (ca_undo a) (bc_state chk)) (rest a cs)) = Inr r"
      using k unfolding kont_def s option.case if_False by (auto simp only: sum_bind_Inr_iff)
    then have "ok" by (simp add: reject_def split: if_split_asm)
    with w obtain S' where "write_block_undo E S p (ca_undo a) (bc_state chk) = Inr S'" "rest a cs S' = Inr r"
      by (auto simp: sum_bind_Inr_iff)
    note S' = this
    have "cr_chain r = S'" "hashBlock (cr_view r) = phashBlock ?b"
      using S'(2) by (cases "index_error E"; simp add: rest_def reject_def SetBestBlock_def; elim subst; simp)+
    then show ?thesis using write_block_undo_index [OF S'(1)] by simp
  qed
qed

text \<open>What a step of the chain does: the index is marked only, the chain has the given tip, and the invariant holds.\<close>

lemma same_failed_trans: "same_failed n n1 \<Longrightarrow> same_failed n1 n2 \<Longrightarrow> same_failed n n2"
  by (simp add: same_failed_def)

lemma db_flush_best:
  "Flush db_BatchWrite c = Some (ok, c') \<Longrightarrow> tip_GetBestBlock c' = tip_GetBestBlock c"
  by (auto simp: Flush_def db_BatchWrite_def tip_GetBestBlock_def cache_GetBestBlock_def db_GetBestBlock_def Let_def)

lemma FlushStateToDisk_marks:
  assumes "FlushStateToDisk E mode st n = Inr (n', st', ok)"
  shows "only_marks n n' \<and> same_failed n n' \<and> (ok \<longrightarrow> st' = st) \<and> (\<not> ok \<longrightarrow> \<not> vs_IsInvalid st')"
proof -
  define d where "d = n\<lparr>index := (index n)\<lparr>setDirtyBlockIndex := {}\<rparr>\<rparr>"
  have d: "only_marks n d" "same_failed n d" "pcoinsTip d = pcoinsTip n"
    by (simp_all add: d_def only_marks_def unlinked_def same_index_def same_tree_def same_failed_def)
  have c: "only_marks d (d\<lparr>pcoinsTip := c\<rparr>) \<and> same_failed d (d\<lparr>pcoinsTip := c\<rparr>)"
    if "Flush db_BatchWrite (pcoinsTip n) = Some (b, c)" for b c
    using db_flush_best [OF that] d(3) by (simp add: only_marks_def unlinked_def same_failed_def)
  have e: "\<not> vs_IsInvalid (snd (vs_Error msg st))" for msg by (simp add: vs_Error_def vs_IsInvalid_def)
  have t: "only_marks n (d\<lparr>pcoinsTip := c\<rparr>) \<and> same_failed n (d\<lparr>pcoinsTip := c\<rparr>)"
    if "Flush db_BatchWrite (pcoinsTip n) = Some (b, c)" for b c
    using c [OF that] only_marks_trans [OF d(1)] same_failed_trans [OF d(2)] by blast
  have "(n' = n \<or> n' = d \<or> (\<exists>b c. Flush db_BatchWrite (pcoinsTip n) = Some (b, c) \<and> n' = d\<lparr>pcoinsTip := c\<rparr>)) \<and>
    (ok \<longrightarrow> st' = st) \<and> (\<not> ok \<longrightarrow> \<not> vs_IsInvalid st')"
    using assms d(3) unfolding FlushStateToDisk_def Let_def d_def [symmetric]
    by (auto simp: e split: if_split_asm option.split_asm bool.split_asm)
  then show ?thesis using t d(1,2) by (auto simp: same_failed_def [of n n])
qed

definition moves_to :: "ptr \<Rightarrow> node_state \<Rightarrow> node_state \<Rightarrow> bool" where
  \<comment> \<open>the tip is the given block, the candidates are at most those before\<close>
  "moves_to p n n' \<longleftrightarrow> same_index (index n) (index n') \<and> same_failed n n' \<and> tip_of n' = Some p \<and>
     set (setBlockIndexCandidates n') \<subseteq> set (setBlockIndexCandidates n) \<and>
     chainActive n' = chain_SetTip (tree (index n)) (chainActive n) (Some p) \<and> node_ok n'"

lemma chain_SetTip_same_tree:
  assumes "same_tree T T'"
  shows "chain_SetTip T' c t = chain_SetTip T c t"
proof -
  have "settip_loop T' k v q = settip_loop T k v q" for k v q
  proof (induction k arbitrary: v q)
    case (Suc k)
    then show ?case by (cases q) (simp_all add: same_tree_fields [OF assms] Let_def)
  next
    case 0
    then show ?case by (cases q) simp_all
  qed
  then show ?thesis by (simp add: chain_SetTip_def same_tree_fields [OF assms] split: option.splits)
qed

lemma chain_Tip_height: "chain_Tip c = chain_at c (chain_Height c)"
  by (cases "vChain c" rule: rev_cases) (simp_all add: chain_Tip_def chain_at_def chain_Height_def)

lemma chain_SetTip_tip:
  assumes "btree_wf T" "chain_wf T c" "p \<in> known T"
  shows "chain_Tip (chain_SetTip T c (Some p)) = Some p" "chain_wf T (chain_SetTip T c (Some p))"
proof -
  note s = chain_SetTip_correct [OF assms]
  have "0 \<le> BlockIndex.nHeight (obj T p)" using assms(1,3) by (simp add: btree_wf_def linked_def)
  then show "chain_Tip (chain_SetTip T c (Some p)) = Some p" using s by (simp add: chain_Tip_height)
  show "chain_wf T (chain_SetTip T c (Some p))" using s by simp
qed

lemma UpdateTip_moves:
  assumes ok: "cs_wf (index n)" "\<forall>q \<in> known (tree (index n)). \<not> blob_IsNull (phashBlock (blk n q))" "chain_wf (tree (index n)) (chainActive n)"
      "set (setBlockIndexCandidates n) \<subseteq> known (tree (index n))" "unlinked n \<subseteq> known (tree (index n))"
    and p: "p \<in> known (tree (index n))" "tip_GetBestBlock (pcoinsTip n) = phashBlock (blk n p)"
    and u: "UpdateTip (Some p) n = Inr n'"
  shows "moves_to p n n'"
proof -
  have n': "n' = n\<lparr>chainActive := chain_SetTip (tree (index n)) (chainActive n) (Some p)\<rparr>"
    using u by (auto simp: UpdateTip_def Let_def split: if_splits)
  have "btree_wf (tree (index n))" using ok(1) by (simp add: cs_wf_def)
  note t = chain_SetTip_tip [OF this ok(3) p(1)]
  show ?thesis using n' t ok p(2) by (simp add: moves_to_def same_failed_def node_ok_def synced_def unlinked_def)
qed

lemma base_flushed: "base (c\<lparr>base := b, cacheCoins := [], cachedCoinsUsage := 0\<rparr>) = b"
  by simp

lemma flush_view_best:
  assumes "flush_view E view n = Inr n'" "hashBlock view = h" "\<not> blob_IsNull h"
  shows "n' = n\<lparr>pcoinsTip := pcoinsTip n'\<rparr> \<and> tip_GetBestBlock (pcoinsTip n') = h"
proof -
  obtain v where v: "Flush (cache_BatchWrite (coins_usage E)) view = Some (True, v)" "n' = n\<lparr>pcoinsTip := base v\<rparr>"
    using assms(1) by (auto simp: flush_view_def split: option.splits bool.splits)
  have "hashBlock (base v) = h" using v(1) assms(2) by (auto simp: Flush_def cache_BatchWrite_def base_flushed split: if_splits)
  then show ?thesis using v(2) assms(3) by (simp add: tip_GetBestBlock_def cache_GetBestBlock_def Let_def)
qed

lemma chain_wf_tip:
  assumes "chain_wf T c" "chain_Tip c = Some t" "btree_wf T"
  shows "t \<in> known T"
proof -
  obtain t' where t': "t' \<in> known T" "BlockIndex.nHeight (obj T t') + 1 = int (length (vChain c))"
      "\<forall>h < length (vChain c). vChain c ! h = ancestor_at T t' (int h)"
    using assms(1,2) by (auto simp: chain_wf_def chain_Tip_def)
  have "length (vChain c) - 1 < length (vChain c)" using assms(2) by (auto simp: chain_Tip_def split: if_splits)
  then have "chain_Tip c = ancestor_at T t' (int (length (vChain c) - 1))" using t'(3) by (auto simp: chain_Tip_def)
  also have "int (length (vChain c) - 1) = BlockIndex.nHeight (obj T t')" using t'(2) \<open>length (vChain c) - 1 < _\<close> by simp
  also have "ancestor_at T t' (BlockIndex.nHeight (obj T t')) = Some t'"
    using assms(3) t'(1) by (simp add: btree_wf_def linked_def)
  finally show ?thesis using assms(2) t'(1) by simp
qed

lemma node_ok_parts:
  assumes "node_ok n"
  shows "cs_wf (index n)" "btree_wf (tree (index n))" "chain_wf (tree (index n)) (chainActive n)"
    "set (setBlockIndexCandidates n) \<subseteq> known (tree (index n))" "synced n"
    "unlinked n \<subseteq> known (tree (index n))" "\<And>p. p \<in> known (tree (index n)) \<Longrightarrow> \<not> blob_IsNull (phashBlock (blk n p))"
  using assms by (simp_all add: node_ok_def cs_wf_def)

lemma tip_known: "node_ok n \<Longrightarrow> tip_of n = Some t \<Longrightarrow> t \<in> known (tree (index n))"
  using chain_wf_tip node_ok_parts(2,3) by blast

text \<open>The end of both directions: the view is flushed into the tip, the state perhaps to disk, and the chain moved.\<close>

lemma finish_move:
  assumes ok: "node_ok n" and p: "p \<in> known (tree (index n))"
    and m: "same_index (index n) (index m)" "same_failed n m" "chainActive m = chainActive n"
      "setBlockIndexCandidates m = setBlockIndexCandidates n" "mapBlocksUnlinked m = mapBlocksUnlinked n"
    and v: "flush_view E view m = Inr m1" "hashBlock view = phashBlock (blk n p)"
    and f: "FlushStateToDisk E mode st m1 = Inr (m2, st2, True)"
    and u: "UpdateTip (Some p) m2 = Inr n'"
  shows "moves_to p n n' \<and> st2 = st"
proof -
  note fields = same_tree_fields [of "tree (index n)" "tree (index m)"]
  have t: "same_tree (tree (index n)) (tree (index m))" using m(1) by (simp add: same_index_def)
  have m1: "m1 = m\<lparr>pcoinsTip := pcoinsTip m1\<rparr>" "tip_GetBestBlock (pcoinsTip m1) = phashBlock (blk n p)"
    using flush_view_best [OF v] node_ok_parts(7) [OF ok p] by auto
  have i1: "index m1 = index m" "chainActive m1 = chainActive n" "setBlockIndexCandidates m1 = setBlockIndexCandidates n"
    "mapBlocksUnlinked m1 = mapBlocksUnlinked n"
    by (subst m1(1), simp add: m)+
  have k: "only_marks m1 m2" "same_failed m1 m2" "st2 = st" using FlushStateToDisk_marks [OF f] by auto
  have t2: "same_index (index n) (index m2)" using k(1) m(1) i1(1) same_index_trans by (auto simp: only_marks_def)
  then have tt: "same_tree (tree (index n)) (tree (index m2))" by (simp add: same_index_def)
  have c2: "chainActive m2 = chainActive n" "tip_GetBestBlock (pcoinsTip m2) = phashBlock (blk n p)"
    using k(1) m1(2) i1 by (simp_all add: only_marks_def)
  have s2: "setBlockIndexCandidates m2 = setBlockIndexCandidates n" "mapBlocksUnlinked m2 = mapBlocksUnlinked n"
    using f i1(3,4) by (auto simp: FlushStateToDisk_def Let_def split: if_split_asm option.split_asm bool.split_asm)
  then have u2: "unlinked m2 = unlinked n" by (simp add: unlinked_def)
  have fl: "same_failed n m2" using m(2) k(2) i1(1) by (simp add: same_failed_def)
  have "moves_to p m2 n'"
    by (rule UpdateTip_moves [OF _ _ _ _ _ _ _ u])
      (use node_ok_parts [OF ok] same_index_cs_wf [OF t2] p s2(1) u2 c2 in \<open>auto simp: same_tree_fields [OF tt] same_tree_chain_wf [OF tt]\<close>)
  then show ?thesis
    using t2 fl c2 s2 k(3) same_index_trans [OF t2] same_failed_trans [OF fl] chain_SetTip_same_tree [OF tt]
    by (auto simp: moves_to_def)
qed

lemma flush_result: "FlushStateToDisk E mode st n = Inr (n', st', ok) \<Longrightarrow> setBlockIndexCandidates n' = setBlockIndexCandidates n"
  by (auto simp: FlushStateToDisk_def Let_def split: if_split_asm option.split_asm bool.split_asm)

text \<open>A failed disk write after the view was flushed leaves the unspent outputs one block ahead of the chain: the node
  shuts down.  The invariant below is about states that go on.\<close>

lemma DisconnectTip_moves:
  assumes ok: "node_ok n" and d: "DisconnectTip E st n = Inr (n', st', True)"
  shows "\<exists>t q. tip_of n = Some t \<and> pprev (blk n t) = Some q \<and> moves_to q n n' \<and> st' = st"
proof -
  obtain t where t: "tip_of n = Some t" using d by (auto simp: DisconnectTip_def split: option.splits)
  obtain block where b: "ReadBlockFromDisk E (tree (index n)) t = Some block"
    using d t by (auto simp: DisconnectTip_def split: option.splits)
  obtain clean view where v: "DisconnectBlock_at E n block t (cache_on (pcoinsTip n)) = Inr (clean, view)"
    using d t b by (auto simp: DisconnectTip_def sum_bind_Inr_iff)
  have clean: "clean" using d t b v by (auto simp: DisconnectTip_def split: if_split_asm)
  have "sum_bind (flush_view E view n) (\<lambda>n1. sum_bind (FlushStateToDisk E FLUSH_STATE_IF_NEEDED st n1) (\<lambda>(n2, st, ok).
      if \<not> ok then Inr (n2, st, False) else sum_bind (UpdateTip (pprev (blk n2 t)) n2) (\<lambda>n. Inr (n, st, True)))) = Inr (n', st', True)"
    using d t b v clean by (simp add: DisconnectTip_def)
  then obtain n1 n2 st2 where f: "flush_view E view n = Inr n1" "FlushStateToDisk E FLUSH_STATE_IF_NEEDED st n1 = Inr (n2, st2, True)"
      "UpdateTip (pprev (blk n2 t)) n2 = Inr n'" "st' = st2"
    by (auto simp: sum_bind_Inr_iff split: if_split_asm)
  obtain q where q: "pprev (blk n t) = Some q" "hashBlock view = phashBlock (blk n q)"
    using v clean
    by (auto simp: DisconnectBlock_at_def DisconnectBlock_def sum_bind_Inr_iff SetBestBlock_def
        split: prod.splits if_split_asm option.split_asm sum.split_asm disconnect_error.split_asm)
  have tk: "t \<in> known (tree (index n))" by (rule tip_known [OF ok t])
  then have qk: "q \<in> known (tree (index n))" using node_ok_parts(2) [OF ok] q(1) by (auto simp: btree_wf_def linked_def)
  have "n1 = n\<lparr>pcoinsTip := pcoinsTip n1\<rparr>" using flush_view_best [OF f(1) q(2)] node_ok_parts(7) [OF ok qk] by auto
  then have i1: "index n1 = index n" by (metis node_state.ext_inject node_state.surjective node_state.update_convs(6))
  have "same_tree (tree (index n)) (tree (index n2))" using FlushStateToDisk_marks [OF f(2)] i1 by (simp add: only_marks_def same_index_def)
  then have "pprev (blk n2 t) = Some q" using q(1) by (simp add: same_tree_fields)
  then show ?thesis using finish_move [OF ok qk _ _ _ _ _ f(1) q(2) f(2)] f(3,4) t q(1) by (auto simp: same_failed_def)
qed

lemma ConnectTip_moves:
  assumes ok: "node_ok n" and p: "p \<in> known (tree (index n))"
    and d: "ConnectTip E st p pblock n = Inr (n', st', True)"
  shows "moves_to p n n' \<and> tip_of n = pprev (blk n p)"
proof -
  have prev: "pprev (blk n p) = tip_of n" using d by (auto simp: ConnectTip_def split: if_split_asm)
  define ob where "ob = (case pblock of Some b \<Rightarrow> Some b | None \<Rightarrow> ReadBlockFromDisk E (tree (index n)) p)"
  obtain block where b: "ob = Some block"
    using d prev unfolding ConnectTip_def ob_def [symmetric] by (cases ob) auto
  define cb where "cb = ConnectBlock (conn E) (index n) (chainActive n) (versionbitscache n) (tip_GetCoins (coins_usage E)) (coins_usage E)
                 tip_GetBestBlock block st p (cache_on (pcoinsTip n)) False"
  note d' = d [unfolded ConnectTip_def ob_def [symmetric] b option.case cb_def [symmetric] Let_def, simplified prev]
  obtain r where r: "cb = Inr r"
  proof (cases cb)
    case (Inl e)
    then show ?thesis using d'
      by (cases e) (auto simp: sum_bind_Inr_iff split: if_split_asm)
  qed auto
  let ?m = "n\<lparr>index := cr_chain r, versionbitscache := cr_caches r\<rparr>"
  obtain n1 n2 where f: "flush_view E (cr_view r) ?m = Inr n1" "FlushStateToDisk E FLUSH_STATE_IF_NEEDED (cr_state r) n1 = Inr (n2, st', True)"
      "UpdateTip (Some p) n2 = Inr n'"
    using d' by (auto simp: r sum_bind_Inr_iff split: if_split_asm)
  have c: "same_index (index n) (cr_chain r)" "\<forall>q. failed (obj (tree (cr_chain r)) q) = failed (blk n q)"
    "hashBlock (cr_view r) = phashBlock (blk n p)"
    using ConnectBlock_index [OF r [unfolded cb_def]] by auto
  show ?thesis using finish_move [OF ok p _ _ _ _ _ f(1) c(3) f(2,3)] c(1,2) prev by (simp add: same_failed_def)
qed

text \<open>A connection that fails, but not on a system error, only marks blocks; unless the block may have been
  corrupted on disk, it is now marked as failed.\<close>

lemma note_invalid_fields [simp]:
  "blk (note_invalid p n) q = blk n q" "chainActive (note_invalid p n) = chainActive n"
  "setBlockIndexCandidates (note_invalid p n) = setBlockIndexCandidates n"
  by (simp_all add: note_invalid_def)

lemma set_status_blk: "blk (set_status f p n) q = (if q = p then (blk n p)\<lparr>nStatus := f (nStatus (blk n p))\<rparr> else blk n q)"
  by (simp add: set_status_def set_block_def Let_def)

lemma marker_fields [simp]:
  "blk (mark_dirty p n) q = blk n q" "blk (erase_candidate p n) q = blk n q" "blk (insert_candidate p n) q = blk n q"
  "setBlockIndexCandidates (mark_dirty p n) = setBlockIndexCandidates n"
  "setBlockIndexCandidates (set_status f p n) = setBlockIndexCandidates n"
  by (simp_all add: mark_dirty_def erase_candidate_def insert_candidate_def set_status_def set_block_def Let_def)

definition more_failed :: "node_state \<Rightarrow> node_state \<Rightarrow> bool" where
  \<comment> \<open>failed blocks stay failed, candidates only go\<close>
  "more_failed n n' \<longleftrightarrow> (\<forall>p. failed (blk n p) \<longrightarrow> failed (blk n' p)) \<and>
     set (setBlockIndexCandidates n') \<subseteq> set (setBlockIndexCandidates n)"

lemma more_failed_refl [simp]: "more_failed n n"
  by (simp add: more_failed_def)

lemma more_failed_trans: "more_failed n n1 \<Longrightarrow> more_failed n1 n2 \<Longrightarrow> more_failed n n2"
  by (auto simp: more_failed_def)

lemma failed_or: "nStatus b AND BLOCK_FAILED_MASK \<noteq> 0 \<Longrightarrow> (nStatus b OR k) AND BLOCK_FAILED_MASK \<noteq> 0"
  by (simp add: bit.conj_disj_distrib2 or_eq_0_iff)

lemma set_failed:
  "k = BLOCK_FAILED_VALID \<or> k = BLOCK_FAILED_CHILD \<Longrightarrow> failed (b\<lparr>nStatus := nStatus b OR k\<rparr>)"
  by (auto simp: failed_def bit.conj_disj_distrib2 or_eq_0_iff BLOCK_FAILED_VALID_def BLOCK_FAILED_CHILD_def BLOCK_FAILED_MASK_def)

lemma set_status_more:
  "k = BLOCK_FAILED_VALID \<or> k = BLOCK_FAILED_CHILD \<Longrightarrow> more_failed n (set_status (\<lambda>s. s OR k) p n) \<and> failed (blk (set_status (\<lambda>s. s OR k) p n) p)"
  using set_failed [of k "blk n p"] by (auto simp: more_failed_def set_status_blk)

lemma InvalidBlockFound_fails:
  assumes "InvalidBlockFound p st n = Inr n'" "\<not> corruptionPossible st"
  shows "more_failed n n' \<and> failed (blk n' p) \<and> p \<notin> set (setBlockIndexCandidates n')"
  using assms set_status_more [of BLOCK_FAILED_VALID n p]
  by (auto simp: InvalidBlockFound_def InvalidChainFound_def more_failed_def erase_candidate_def [of p "mark_dirty p _"]
      split: if_split_asm)

lemma ConnectTip_rejected:
  assumes d: "ConnectTip E st p pblock n = Inr (n', st', False)" and "vs_IsInvalid st'"
  shows "only_marks n n' \<and> more_failed n n' \<and> (\<not> corruptionPossible st' \<longrightarrow> failed (blk n' p))"
proof -
  have prev: "pprev (blk n p) = tip_of n" using d by (auto simp: ConnectTip_def split: if_split_asm)
  define ob where "ob = (case pblock of Some b \<Rightarrow> Some b | None \<Rightarrow> ReadBlockFromDisk E (tree (index n)) p)"
  have e: "\<not> vs_IsInvalid (snd (vs_Error msg st))" for msg by (simp add: vs_Error_def vs_IsInvalid_def)
  obtain block where b: "ob = Some block"
    using d prev e assms(2) unfolding ConnectTip_def ob_def [symmetric] by (cases ob) auto
  define cb where "cb = ConnectBlock (conn E) (index n) (chainActive n) (versionbitscache n) (tip_GetCoins (coins_usage E)) (coins_usage E)
                 tip_GetBestBlock block st p (cache_on (pcoinsTip n)) False"
  note d' = d [unfolded ConnectTip_def ob_def [symmetric] b option.case cb_def [symmetric] Let_def, simplified prev]
  show ?thesis
  proof (cases cb)
    case (Inr r)
    then have False using d' assms(2) by (auto simp: sum_bind_Inr_iff split: if_split_asm dest!: FlushStateToDisk_marks)
    then show ?thesis ..
  next
    case (Inl x)
    then obtain rej where x: "x = Rejected st' rej" "InvalidBlockFound p st' (reject_block E block rej n) = Inr n'"
      using d' assms(2) by (cases x) (auto simp: sum_bind_Inr_iff split: if_split_asm)
    have r: "more_failed n (reject_block E block rej n)" by (simp add: reject_block_def Let_def more_failed_def)
    have "only_marks n n'" using only_marks_trans [OF reject_block_marks InvalidBlockFound_marks [OF x(2)]] .
    moreover have "more_failed n n' \<and> (\<not> corruptionPossible st' \<longrightarrow> failed (blk n' p))"
    proof (cases "corruptionPossible st'")
      case True
      then show ?thesis using x(2) r by (simp add: InvalidBlockFound_def)
    next
      case False
      then show ?thesis using InvalidBlockFound_fails [OF x(2)] more_failed_trans [OF r] by blast
    qed
    ultimately show ?thesis by blast
  qed
qed

section \<open>One step of the activation\<close>

definition advances :: "node_state \<Rightarrow> node_state \<Rightarrow> bool" where
  \<comment> \<open>the invariant holds, the index is marked only, failed blocks stay failed and candidates only go\<close>
  "advances n n' \<longleftrightarrow> same_index (index n) (index n') \<and> more_failed n n' \<and> node_ok n'"

lemma advances_trans: "advances n n1 \<Longrightarrow> advances n1 n2 \<Longrightarrow> advances n n2"
  unfolding advances_def using same_index_trans [of "index n" "index n1" "index n2"] more_failed_trans [of n n1 n2] by blast

lemma advances_refl: "node_ok n \<Longrightarrow> advances n n"
  by (simp add: advances_def)

lemma advances_marks: "only_marks n n' \<Longrightarrow> more_failed n n' \<Longrightarrow> node_ok n \<Longrightarrow> advances n n'"
  using only_marks_ok by (auto simp: advances_def only_marks_def)

lemma moves_advances: "moves_to p n n' \<Longrightarrow> advances n n'"
  by (auto simp: moves_to_def advances_def more_failed_def same_failed_def)

lemma advances_tree: "advances n n' \<Longrightarrow> same_tree (tree (index n)) (tree (index n'))"
  by (simp add: advances_def same_index_def)

lemma ancestor_height:
  assumes "btree_wf T" "p \<in> known T" "ancestor_at T p h = Some q"
  shows "q \<in> known T \<and> BlockIndex.nHeight (obj T q) = h \<and> 0 \<le> h \<and> h \<le> BlockIndex.nHeight (obj T p)"
proof -
  have "0 \<le> h" "h \<le> BlockIndex.nHeight (obj T p)" using assms(3) by (auto simp: ancestor_at_def split: if_splits)
  then show ?thesis using ancestor_at_total [OF assms(1,2), of h] assms(3) by auto
qed

lemma chain_of_tip:
  assumes "btree_wf T" "chain_wf T c" "chain_Tip c = Some t"
  shows "chain_at c h = ancestor_at T t h" "chain_Height c = BlockIndex.nHeight (obj T t)" "t \<in> known T"
proof -
  show tk: "t \<in> known T" by (rule chain_wf_tip [OF assms(2,3,1)])
  obtain t' where t': "t' \<in> known T" "BlockIndex.nHeight (obj T t') + 1 = int (length (vChain c))"
      "\<forall>h < length (vChain c). vChain c ! h = ancestor_at T t' (int h)"
    using assms(2,3) by (auto simp: chain_wf_def chain_Tip_def)
  have h0: "0 \<le> BlockIndex.nHeight (obj T t')" using assms(1) t'(1) by (simp add: btree_wf_def linked_def)
  have at: "chain_at c h = ancestor_at T t' h" for h
    using t'(2,3) h0 by (auto simp: chain_at_def ancestor_at_def not_le)
  have "chain_Tip c = Some t'"
    using at [of "BlockIndex.nHeight (obj T t')"] h0 by (simp add: chain_Tip_height chain_Height_def t'(2) [symmetric])
  then have "t' = t" using assms(3) by simp
  then show "chain_at c h = ancestor_at T t h" "chain_Height c = BlockIndex.nHeight (obj T t)"
    using at t'(2) by (simp_all add: chain_Height_def)
qed

lemma chain_wf_empty:
  assumes "btree_wf T" "chain_wf T c" "chain_Tip c = None"
  shows "vChain c = []"
proof (rule ccontr)
  assume ne: "vChain c \<noteq> []"
  then obtain t where t: "t \<in> known T" "BlockIndex.nHeight (obj T t) + 1 = int (length (vChain c))"
      "\<forall>h < length (vChain c). vChain c ! h = ancestor_at T t (int h)"
    using assms(2) by (auto simp: chain_wf_def)
  have "vChain c ! (length (vChain c) - 1) = ancestor_at T t (int (length (vChain c) - 1))" using t(3) ne by simp
  moreover have "int (length (vChain c) - 1) = BlockIndex.nHeight (obj T t)" using t(2) ne by (cases "vChain c") auto
  moreover have "ancestor_at T t (BlockIndex.nHeight (obj T t)) = Some t" using assms(1) t(1) by (simp add: btree_wf_def linked_def)
  ultimately show False using assms(3) ne by (simp add: chain_Tip_def)
qed

lemma disconnect_to_fork:
  assumes "node_ok n" "disconnect_to fuel E fork st n = Inr (n', st', True)"
    and "\<And>t. tip_of n = Some t \<Longrightarrow> BlockIndex.nHeight (blk n t) < int fuel \<and> (\<forall>f. fork = Some f \<longrightarrow> (\<exists>h. ancestor_at (tree (index n)) t h = Some f))"
  shows "advances n n' \<and> st' = st \<and> (tip_of n = None \<and> tip_of n' = None \<or> tip_of n' = fork \<and> fork \<noteq> None) \<and> same_failed n n'"
  using assms
proof (induction fuel E fork st n rule: disconnect_to.induct)
  case (1 fuel E fork st n)
  show ?case
  proof (cases "tip_of n = None \<or> tip_of n = fork")
    case True
    then show ?thesis using "1.prems" advances_refl by (auto simp: same_failed_def)
  next
    case False
    then obtain t where t: "tip_of n = Some t" by auto
    note wf = node_ok_parts(2) [OF "1.prems"(1)] and c = chain_of_tip [OF node_ok_parts(2) [OF "1.prems"(1)] node_ok_parts(3) [OF "1.prems"(1)] t]
    have "0 \<le> BlockIndex.nHeight (blk n t)" using wf c(3) by (simp add: btree_wf_def linked_def)
    then obtain k where k: "fuel = Suc k" using "1.prems"(3) [OF t] by (cases fuel) auto
    obtain n1 st1 ok where d: "DisconnectTip E st n = Inr (n1, st1, ok)"
      using "1.prems"(2) False k by (auto simp: sum_bind_Inr_iff)
    have ok: "ok" and r: "disconnect_to k E fork st1 n1 = Inr (n', st', True)"
      using "1.prems"(2) False k d by (auto split: if_split_asm)
    obtain q where q: "pprev (blk n t) = Some q" "moves_to q n n1" "st1 = st"
      using DisconnectTip_moves [OF "1.prems"(1), of E st n1 st1] d ok t by auto
    have tq: "tip_of n1 = Some q" "node_ok n1" and same: "same_tree (tree (index n)) (tree (index n1))"
      using q(2) unfolding moves_to_def same_index_def by blast+
    have hq: "BlockIndex.nHeight (blk n t) = BlockIndex.nHeight (blk n q) + 1" using wf c(3) q(1) by (auto simp: btree_wf_def linked_def)
    have "\<exists>h. ancestor_at (tree (index n1)) q h = Some f" if f: "fork = Some f" for f
    proof -
      obtain h where h: "ancestor_at (tree (index n)) t h = Some f" using "1.prems"(3) [OF t] f by auto
      have "h \<noteq> BlockIndex.nHeight (blk n t)"
        using h False t f wf c(3) by (auto simp: btree_wf_def linked_def)
      then have "ancestor_at (tree (index n)) q h = Some f"
        using ancestor_at_pprev [OF wf c(3) q(1), of h] ancestor_height [OF wf c(3) h] h by auto
      then show ?thesis by (auto simp: same_tree_ancestor [OF same])
    qed
    then have "advances n1 n' \<and> st' = st1 \<and> (tip_of n1 = None \<and> tip_of n' = None \<or> tip_of n' = fork \<and> fork \<noteq> None) \<and> same_failed n1 n'"
      using "1.IH" [OF False k _ tq(2) r] ok tq(1) "1.prems"(3) [OF t] hq k by (simp add: same_tree_fields [OF same])
    then show ?thesis
      using advances_trans [OF moves_advances [OF q(2)]] q(2,3) tq(1) same_failed_trans [of n n1 n'] by (auto simp: moves_to_def)
  qed
qed

text \<open>The blocks to connect are the ancestors of the target above the fork.\<close>

lemma blocks_between_ancestors:
  assumes wf: "btree_wf T"
  shows "m \<in> known T \<Longrightarrow> BlockIndex.nHeight (obj T m) = h + int k \<Longrightarrow> -1 \<le> h \<Longrightarrow> k \<le> fuel \<Longrightarrow>
    rev (blocks_between T fuel h (Some m)) = map (\<lambda>i. the (ancestor_at T m (h + 1 + int i))) [0..<k]"
proof (induction k arbitrary: m fuel)
  case 0
  then show ?case by (cases fuel) auto
next
  case (Suc k)
  then obtain f where f: "fuel = Suc f" by (cases fuel) auto
  have lm: "linked T m" using wf Suc.prems(1) by (simp add: btree_wf_def)
  have self: "ancestor_at T m (h + 1 + int k) = Some m"
    using Suc.prems ancestor_at_self [of T m] by (simp add: ac_simps)
  show ?case
  proof (cases "pprev (obj T m)")
    case None
    then have "k = 0" "h = - 1" using lm Suc.prems by (auto simp: linked_def)
    then show ?thesis using f None Suc.prems self by simp
  next
    case (Some q)
    have q: "q \<in> known T" "BlockIndex.nHeight (obj T q) = h + int k" using lm Some Suc.prems by (auto simp: linked_def)
    have IH: "rev (blocks_between T f h (Some q)) = map (\<lambda>i. the (ancestor_at T q (h + 1 + int i))) [0..<k]"
      using Suc.IH [OF q] Suc.prems f by simp
    have "ancestor_at T q (h + 1 + int i) = ancestor_at T m (h + 1 + int i)" if "i < k" for i
      using ancestor_at_pprev [OF wf Suc.prems(1) Some, of "h + 1 + int i"] that Suc.prems by simp
    then have "rev (blocks_between T f h (Some q)) = map (\<lambda>i. the (ancestor_at T m (h + 1 + int i))) [0..<k]"
      unfolding IH by simp
    then show ?thesis using f Some Suc.prems self by simp
  qed
qed

definition path_ok :: "btree \<Rightarrow> ptr option \<Rightarrow> ptr list \<Rightarrow> bool" where
  \<comment> \<open>known blocks, each the parent of the next, the first on the given tip\<close>
  "path_ok T t ps \<longleftrightarrow> set ps \<subseteq> known T \<and> (\<forall>i < length ps. pprev (obj T (ps ! i)) = (if i = 0 then t else Some (ps ! (i - 1))))"

lemma path_ok_Cons: "path_ok T t (p # ps) \<longleftrightarrow> p \<in> known T \<and> pprev (obj T p) = t \<and> path_ok T (Some p) ps"
  by (auto simp: path_ok_def All_less_Suc2 nth_Cons')

definition work_above :: "node_state \<Rightarrow> ptr option \<Rightarrow> bool" where
  \<comment> \<open>the tip has more work than the old tip\<close>
  "work_above n old \<longleftrightarrow> (\<exists>t. tip_of n = Some t \<and> (\<forall>o'. old = Some o' \<longrightarrow> work (tree (index n)) o' < work (tree (index n)) t))"

lemma Prune_advances:
  assumes "node_ok n" "PruneBlockIndexCandidates n = Inr n'"
  shows "advances n n' \<and> same_failed n n' \<and> tip_of n' = tip_of n"
  using assms advances_marks [OF PruneBlockIndexCandidates_marks [OF assms(2)]]
  by (auto simp: PruneBlockIndexCandidates_def Let_def more_failed_def same_failed_def split: option.splits if_splits)

definition uncorrupted :: "('pk, 'sig) activate_env \<Rightarrow> CBlock option \<Rightarrow> bool" where
  \<comment> \<open>no connection is refused for a reason that does not tell whether the block is invalid\<close>
  "uncorrupted E pblock \<longleftrightarrow> (\<forall>st p n n' st' pb. pb \<in> {None, pblock} \<longrightarrow> ConnectTip E st p pb n = Inr (n', st', False) \<longrightarrow> vs_IsInvalid st' \<longrightarrow>
     \<not> corruptionPossible st')"

lemma path_ok_same: "same_tree T T' \<Longrightarrow> path_ok T' t ps = path_ok T t ps"
  by (simp add: path_ok_def same_tree_fields)

definition list_result :: "bool \<Rightarrow> node_state \<Rightarrow> ptr list \<Rightarrow> ptr option \<Rightarrow> node_state \<Rightarrow> connect_end \<Rightarrow> bool" where
  \<comment> \<open>\<open>u\<close>: corrupted blocks are ruled out\<close>
  "list_result u n ps old n' e \<longleftrightarrow> e = System_error \<or> advances n n' \<and>
    (e = Goes_on \<longrightarrow> tip_of n' = (if ps = [] then tip_of n else Some (last ps)) \<and> same_failed n n') \<and>
    (e = Better \<longrightarrow> work_above n' old) \<and>
    (e = Invalid_found \<longrightarrow> u \<longrightarrow> (\<exists>p \<in> set ps. failed (blk n' p)))"

lemma connect_list_result:
  assumes "node_ok n" "path_ok (tree (index n)) (tip_of n) ps"
    "connect_list E st old most low pblock ps n = Inr (n', st', e)" "\<And>o'. old = Some o' \<Longrightarrow> o' \<in> known (tree (index n))"
  shows "list_result (uncorrupted E pblock) n ps old n' e"
  using assms
proof (induction ps arbitrary: n st)
  case Nil
  then show ?case by (simp add: list_result_def advances_refl same_failed_def)
next
  case (Cons p ps)
  have p: "p \<in> known (tree (index n))" and ps: "path_ok (tree (index n)) (Some p) ps"
    using Cons.prems(2) by (simp_all add: path_ok_Cons)
  define pb where "pb = (if p = most then pblock else None)"
  obtain n1 st1 ok where c: "ConnectTip E st p pb n = Inr (n1, st1, ok)"
    using Cons.prems(3) by (auto simp: pb_def sum_bind_Inr_iff)
  note run = Cons.prems(3) [unfolded connect_list.simps pb_def [symmetric] c sum_bind.simps prod.case]
  show ?case
  proof (cases ok)
    case False
    show ?thesis
    proof (cases "vs_IsInvalid st1")
      case True
      have pb: "pb \<in> {None, pblock}" by (simp add: pb_def)
      have cor: "\<not> corruptionPossible st1" if "uncorrupted E pblock"
        using that [unfolded uncorrupted_def, rule_format, of pb st p n n1 st1] c True False pb by simp
      have "ConnectTip E st p pb n = Inr (n1, st1, False)" using c False by simp
      note rj = ConnectTip_rejected [OF this True]
      obtain n2 where i: "n' = n2" "e = Invalid_found" "n2 = (if corruptionPossible st1 then n1 else note_invalid low n1)"
        using run False True by (auto simp: sum_bind_Inr_iff InvalidChainFound_def split: if_split_asm)
      have m: "only_marks n n2" "more_failed n n2" "uncorrupted E pblock \<Longrightarrow> failed (blk n2 p)"
        using rj cor only_marks_trans [OF _ note_invalid_marks] i(3) by (auto simp: more_failed_def)
      show ?thesis using advances_marks [OF m(1,2) Cons.prems(1)] m(3) i(1,2) by (auto simp: list_result_def)
    next
      case False
      then show ?thesis using run \<open>\<not> ok\<close> by (auto simp: list_result_def)
    qed
  next
    case True
    have "ConnectTip E st p pb n = Inr (n1, st1, True)" using c True by simp
    note mv = ConnectTip_moves [OF Cons.prems(1) p this, THEN conjunct1]
    obtain n2 where pr: "PruneBlockIndexCandidates n1 = Inr n2" using run True by (auto simp: sum_bind_Inr_iff)
    have ok1: "node_ok n1" "tip_of n1 = Some p" "same_failed n n1" using mv unfolding moves_to_def by blast+
    note p2 = Prune_advances [OF ok1(1) pr]
    have ad: "advances n n2" using advances_trans [OF moves_advances [OF mv]] p2 by blast
    have sf: "same_failed n n2" using same_failed_trans [OF ok1(3)] p2 by blast
    have t2: "tip_of n2 = Some p" "node_ok n2" using p2 ok1(2) by (simp_all add: advances_def)
    note same = advances_tree [OF ad]
    note run' = run [unfolded pr sum_bind.simps if_not_P [OF not_not [THEN iffD2, OF True]]]
    show ?thesis
    proof (cases old)
      case None
      then show ?thesis using run' ad t2(1) by (auto simp: list_result_def work_above_def)
    next
      case (Some o')
      note run2 = run' [unfolded Some t2(1) option.case]
      have kn: "p \<in> known (tree (index n2))" "o' \<in> known (tree (index n2))"
        using p Cons.prems(4) [OF Some] by (simp_all add: same_tree_fields [OF same])
      then have wf: "bu_wf (nChainWork (blk n2 p))" "bu_wf (nChainWork (blk n2 o'))"
        using t2(2) by (auto simp: node_ok_def cs_wf_def work_ok_def)
      show ?thesis
      proof (cases "bu_compare (nChainWork (blk n2 p)) (nChainWork (blk n2 o')) > 0")
        case True
        then have "work (tree (index n2)) o' < work (tree (index n2)) p" using wf by (simp add: bu_compare_val work_def sgn_if split: if_splits)
        moreover have "n' = n2" "e = Better" using run2 True by auto
        ultimately show ?thesis using ad t2(1) Some by (simp add: list_result_def work_above_def)
      next
        case False
        then have r: "connect_list E st1 (Some o') most low pblock ps n2 = Inr (n', st', e)" using run2 by simp
        have "list_result (uncorrupted E pblock) n2 ps old n' e"
          by (rule Cons.IH [OF t2(2)]) (use ps r Some kn(2) in \<open>simp_all add: path_ok_same [OF same] t2(1)\<close>)
        then show ?thesis using advances_trans [OF ad] same_failed_trans [OF sf] t2(1) by (auto simp: list_result_def)
      qed
    qed
  qed
qed

lemma pprev_ancestor:
  assumes wf: "btree_wf T" and m: "m \<in> known T" and p: "ancestor_at T m j = Some p"
  shows "pprev (obj T p) = ancestor_at T m (j - 1)"
proof -
  note h = ancestor_height [OF wf m p]
  then have l: "linked T p" using wf by (simp add: btree_wf_def)
  show ?thesis
  proof (cases "pprev (obj T p)")
    case None
    then have "j = 0" using l h by (simp add: linked_def)
    then show ?thesis using None by (simp add: ancestor_at_def)
  next
    case (Some q)
    then have q: "BlockIndex.nHeight (obj T q) = j - 1" "q \<in> known T" using l h by (auto simp: linked_def)
    then have "0 \<le> j - 1" using wf by (auto simp: btree_wf_def linked_def)
    then have "ancestor_at T p (j - 1) = ancestor_at T m (j - 1)" "ancestor_at T q (j - 1) = Some q"
      using ancestor_at_trans [OF wf m p, of "j - 1"] q ancestor_at_self [of T q] by simp_all
    moreover have "ancestor_at T q (j - 1) = ancestor_at T p (j - 1)"
      using ancestor_at_pprev [OF wf _ Some, of "j - 1"] h \<open>0 \<le> j - 1\<close> by simp
    ultimately show ?thesis using Some by simp
  qed
qed

definition ancestors :: "btree \<Rightarrow> ptr \<Rightarrow> int \<Rightarrow> nat \<Rightarrow> ptr list" where
  "ancestors T m h k = map (\<lambda>i. the (ancestor_at T m (h + 1 + int i))) [0..<k]"

lemma ancestors_path:
  assumes wf: "btree_wf T" and m: "m \<in> known T" and h: "- 1 \<le> h" "h + int k \<le> BlockIndex.nHeight (obj T m)"
  shows "path_ok T (ancestor_at T m h) (ancestors T m h k)"
    "p \<in> set (ancestors T m h k) \<Longrightarrow> \<exists>j > h. ancestor_at T m j = Some p"
    "0 < k \<Longrightarrow> Some (last (ancestors T m h k)) = ancestor_at T m (h + int k)"
proof -
  have a: "ancestor_at T m (h + 1 + int i) = Some (ancestors T m h k ! i)" if "i < k" for i
    using ancestor_at_total [OF wf m, of "h + 1 + int i"] that h by (auto simp: ancestors_def)
  have len: "length (ancestors T m h k) = k" by (simp add: ancestors_def)
  show "path_ok T (ancestor_at T m h) (ancestors T m h k)"
    unfolding path_ok_def len
  proof (intro conjI allI impI)
    show "set (ancestors T m h k) \<subseteq> known T"
      using a ancestor_height [OF wf m] len by (auto simp: in_set_conv_nth) blast
    fix i assume i: "i < k"
    have "pprev (obj T (ancestors T m h k ! i)) = ancestor_at T m (h + int i)"
      using pprev_ancestor [OF wf m a [OF i]] by simp
    then show "pprev (obj T (ancestors T m h k ! i)) = (if i = 0 then ancestor_at T m h else Some (ancestors T m h k ! (i - 1)))"
      using a [of "i - 1"] i by (cases i) (simp_all add: add.commute add.left_commute)
  qed
  show "p \<in> set (ancestors T m h k) \<Longrightarrow> \<exists>j > h. ancestor_at T m j = Some p"
    using a len by (auto simp: in_set_conv_nth) (metis less_add_one order_less_le_trans of_nat_0_le_iff le_add_same_cancel1)
  assume "0 < k"
  then have "last (ancestors T m h k) = ancestors T m h k ! (k - 1)" using len by (metis last_conv_nth length_greater_0_conv)
  then show "Some (last (ancestors T m h k)) = ancestor_at T m (h + int k)"
    using a [of "k - 1"] \<open>0 < k\<close> by (simp add: of_nat_diff)
qed

lemma blocks_between_path:
  assumes wf: "btree_wf T" and m: "m \<in> known T" and h: "- 1 \<le> h" "h < target" "target \<le> BlockIndex.nHeight (obj T m)"
  shows "rev (blocks_between T (nat target + 1) h (ancestor_at T m target)) = ancestors T m h (nat (target - h))"
proof -
  obtain it where it: "ancestor_at T m target = Some it" "it \<in> known T" "BlockIndex.nHeight (obj T it) = target"
    using ancestor_at_total [OF wf m, of target] h by auto
  have "rev (blocks_between T (nat target + 1) h (Some it)) = map (\<lambda>i. the (ancestor_at T it (h + 1 + int i))) [0..<nat (target - h)]"
    by (rule blocks_between_ancestors [OF wf it(2)]) (use it(3) h in auto)
  moreover have "ancestor_at T it (h + 1 + int i) = ancestor_at T m (h + 1 + int i)" if "i < nat (target - h)" for i
    using ancestor_at_trans [OF wf m it(1), of "h + 1 + int i"] that h by simp
  ultimately show ?thesis by (simp add: it(1) ancestors_def)
qed

definition up_result :: "bool \<Rightarrow> node_state \<Rightarrow> ptr \<Rightarrow> int \<Rightarrow> ptr option \<Rightarrow> node_state \<Rightarrow> connect_end \<Rightarrow> bool" where
  "up_result u n most h old n' e \<longleftrightarrow> e = System_error \<or> advances n n' \<and>
    (e = Goes_on \<longrightarrow> tip_of n' = Some most \<and> same_failed n n') \<and>
    (e = Better \<longrightarrow> work_above n' old) \<and>
    (e = Invalid_found \<longrightarrow> u \<longrightarrow> (\<exists>p j. h < j \<and> ancestor_at (tree (index n)) most j = Some p \<and> failed (blk n' p)))"

lemma connect_up_result:
  assumes "node_ok n" "most \<in> known (tree (index n))" "\<And>o'. old = Some o' \<Longrightarrow> o' \<in> known (tree (index n))"
    "- 1 \<le> h" "h \<le> BlockIndex.nHeight (blk n most)" "tip_of n = ancestor_at (tree (index n)) most h"
    "nat (BlockIndex.nHeight (blk n most) - h) \<le> fuel"
    "connect_up fuel E st old most pblock h n = Inr (n', st', e)"
  shows "up_result (uncorrupted E pblock) n most h old n' e"
  using assms
proof (induction fuel arbitrary: st h n)
  case (0 st h n)
  then have "h = BlockIndex.nHeight (blk n most)" by simp
  then show ?case using 0 ancestor_at_self [of "tree (index n)" most] node_ok_parts(2) [OF 0(1)]
    by (auto simp: up_result_def advances_refl same_failed_def btree_wf_def linked_def)
next
  case (Suc fuel st h n)
  let ?T = "tree (index n)"
  note wf = node_ok_parts(2) [OF Suc.prems(1)] and mk = Suc.prems(2)
  show ?case
  proof (cases "h = BlockIndex.nHeight (blk n most)")
    case True
    then show ?thesis using Suc.prems ancestor_at_self [of ?T most] wf
      by (auto simp: up_result_def advances_refl same_failed_def btree_wf_def linked_def)
  next
    case False
    define target where "target = min (h + 32) (BlockIndex.nHeight (blk n most))"
    have t: "h < target" "target \<le> BlockIndex.nHeight (blk n most)" using False Suc.prems(5) by (auto simp: target_def)
    define ps where "ps = ancestors ?T most h (nat (target - h))"
    have ga: "node_fault_of (GetAncestor ?T most target) = Inr (ancestor_at ?T most target)"
      using GetAncestor_correct [OF wf mk] by simp
    have bb: "rev (blocks_between ?T (nat target + 1) h (ancestor_at ?T most target)) = ps"
      unfolding ps_def by (rule blocks_between_path [OF wf mk Suc.prems(4) t])
    obtain n1 st1 e1 low where c: "connect_list E st old most low pblock ps n = Inr (n1, st1, e1)"
      and r: "(if e1 = Goes_on then connect_up fuel E st1 old most pblock target n1 else Inr (n1, st1, e1)) = Inr (n', st', e)"
      using Suc.prems(8) False unfolding connect_up.simps [of "Suc fuel"] if_not_P [OF False] nat.case Let_def target_def [symmetric]
        ga sum_bind.simps bb by (auto simp: sum_bind_Inr_iff)
    have k: "0 < nat (target - h)" "h + int (nat (target - h)) = target" using t by auto
    note an = ancestors_path [OF wf mk Suc.prems(4), of "nat (target - h)", folded ps_def, unfolded k(2), OF t(2)]
    have ne: "ps \<noteq> []" using k(1) by (simp add: ps_def ancestors_def)
    have lr: "list_result (uncorrupted E pblock) n ps old n1 e1"
      by (rule connect_list_result [OF Suc.prems(1) _ c Suc.prems(3)]) (use an(1) Suc.prems(6) in simp)
    show ?thesis
    proof (cases "e1 = Goes_on")
      case False
      then show ?thesis using lr r an(2) unfolding up_result_def list_result_def by simp blast
    next
      case True
      then have ad: "advances n n1" "same_failed n n1" and t1: "tip_of n1 = ancestor_at ?T most target"
        using lr ne an(3) k(1) by (auto simp: list_result_def)
      note same = advances_tree [OF ad(1)]
      have "up_result (uncorrupted E pblock) n1 most target old n' e"
      proof (rule Suc.IH)
        show "node_ok n1" using ad by (simp add: advances_def)
        show "connect_up fuel E st1 old most pblock target n1 = Inr (n', st', e)" using r True by simp
        show "nat (BlockIndex.nHeight (blk n1 most) - target) \<le> fuel"
          using Suc.prems(7) t by (simp add: same_tree_fields [OF same])
      qed (use Suc.prems t t1 mk in \<open>simp_all add: same_tree_fields [OF same] same_tree_ancestor [OF same]\<close>)
      then show ?thesis
        using advances_trans [OF ad(1)] same_failed_trans [OF ad(2)] t(1)
        by (auto simp: up_result_def same_tree_ancestor [OF same]) (meson less_trans)+
    qed
  qed
qed

section \<open>The search for the most work\<close>

definition no_data :: "CBlockIndex \<Rightarrow> bool" where
  "no_data b \<longleftrightarrow> nStatus b AND BLOCK_HAVE_DATA = 0"

definition off_chain :: "node_state \<Rightarrow> ptr \<Rightarrow> int \<Rightarrow> ptr \<Rightarrow> bool" where
  \<comment> \<open>\<open>q\<close> is the ancestor of \<open>p\<close> at this height, and neither it nor what is above it on the way from \<open>p\<close> is in the active chain\<close>
  "off_chain n p j q \<longleftrightarrow> ancestor_at (tree (index n)) p j = Some q \<and>
     (\<forall>i \<ge> j. \<forall>r. ancestor_at (tree (index n)) p i = Some r \<longrightarrow> \<not> chain_Contains (tree (index n)) (chainActive n) r)"

definition usable :: "node_state \<Rightarrow> ptr \<Rightarrow> bool" where
  \<comment> \<open>all blocks between the active chain and \<open>p\<close> have their data and have not failed\<close>
  "usable n p \<longleftrightarrow> (\<forall>j q. off_chain n p j q \<longrightarrow> \<not> failed (blk n q) \<and> \<not> no_data (blk n q))"

definition loaded :: "node_state \<Rightarrow> ptr \<Rightarrow> bool" where
  \<comment> \<open>the transactions of every ancestor are counted\<close>
  "loaded n p \<longleftrightarrow> (\<forall>j q. ancestor_at (tree (index n)) p j = Some q \<longrightarrow> nChainTx (blk n q) \<noteq> 0 \<or> BlockIndex.nHeight (blk n q) = 0)"

definition bad :: "node_state \<Rightarrow> ptr \<Rightarrow> bool" where
  \<comment> \<open>the block or one of its ancestors failed or lacks its data\<close>
  "bad n p \<longleftrightarrow> (\<exists>j q. ancestor_at (tree (index n)) p j = Some q \<and> (failed (blk n q) \<or> no_data (blk n q)))"

lemma off_chain_pprev:
  assumes wf: "btree_wf (tree (index n))" and p: "p \<in> known (tree (index n))"
  shows "off_chain n p j q \<longleftrightarrow> \<not> chain_Contains (tree (index n)) (chainActive n) p \<and>
    (j = BlockIndex.nHeight (blk n p) \<and> q = p \<or> (\<exists>r. pprev (blk n p) = Some r \<and> off_chain n r j q))"
proof -
  let ?T = "tree (index n)" and ?h = "BlockIndex.nHeight (blk n p)"
  have l: "linked ?T p" using wf p by (simp add: btree_wf_def)
  then have self: "ancestor_at ?T p ?h = Some p" by (simp add: linked_def)
  have split: "ancestor_at ?T p i = Some x \<longleftrightarrow> i = ?h \<and> x = p \<or> (\<exists>r. pprev (blk n p) = Some r \<and> ancestor_at ?T r i = Some x)" for i x
  proof (cases "i = ?h")
    case True
    have "ancestor_at ?T r ?h \<noteq> Some x" if "pprev (blk n p) = Some r" for r
      using that l by (auto simp: linked_def ancestor_at_def)
    then show ?thesis using True self by auto
  next
    case i: False
    show ?thesis
    proof (cases "0 \<le> i \<and> i < ?h")
      case True
      then obtain r where "pprev (blk n p) = Some r" using l by (auto simp: linked_def split: option.splits)
      then show ?thesis using ancestor_at_pprev [OF wf p _ _ , of r i] True i by auto
    next
      case False
      then show ?thesis using i l by (auto simp: ancestor_at_def linked_def split: option.splits)
    qed
  qed
  have le: "ancestor_at ?T p j = Some x \<Longrightarrow> j \<le> ?h" for x by (auto simp: ancestor_at_def split: if_splits)
  show ?thesis
  proof
    assume o': "off_chain n p j q"
    then have "j \<le> ?h" "ancestor_at ?T p j = Some q" using le by (auto simp: off_chain_def)
    moreover have "\<not> chain_Contains ?T (chainActive n) p" using o' calculation self by (auto simp: off_chain_def)
    moreover have "off_chain n r j q" if "pprev (blk n p) = Some r" "ancestor_at ?T r j = Some q" for r
      using o' that split by (auto simp: off_chain_def)
    ultimately show "\<not> chain_Contains ?T (chainActive n) p \<and> (j = ?h \<and> q = p \<or> (\<exists>r. pprev (blk n p) = Some r \<and> off_chain n r j q))"
      using split by blast
  next
    assume a: "\<not> chain_Contains ?T (chainActive n) p \<and> (j = ?h \<and> q = p \<or> (\<exists>r. pprev (blk n p) = Some r \<and> off_chain n r j q))"
    show "off_chain n p j q"
    proof (cases "j = ?h \<and> q = p")
      case True
      have "ancestor_at ?T p i = Some x \<Longrightarrow> ?h \<le> i \<Longrightarrow> x = p" for i x
        using self by (cases "i = ?h") (auto simp: ancestor_at_def)
      then show ?thesis using True a self by (auto simp: off_chain_def)
    next
      case False
      then obtain r where r: "pprev (blk n p) = Some r" "off_chain n r j q" using a by blast
      then show ?thesis using a split unfolding off_chain_def by (metis option.inject)
    qed
  qed
qed

lemma test_path_spec:
  assumes wf: "btree_wf (tree (index n))"
  shows "p \<in> known (tree (index n)) \<Longrightarrow> BlockIndex.nHeight (blk n p) < int fuel \<Longrightarrow>
    (case test_path n fuel (Some p) of
       Inl e \<Rightarrow> \<not> loaded n p
     | Inr None \<Rightarrow> usable n p
     | Inr (Some t) \<Rightarrow> \<exists>j. off_chain n p j t \<and> (failed (blk n t) \<or> no_data (blk n t)))"
proof (induction fuel arbitrary: p)
  case 0
  then have "linked (tree (index n)) p" using wf by (simp add: btree_wf_def)
  then show ?case using 0 by (simp add: linked_def)
next
  case (Suc fuel)
  have l: "linked (tree (index n)) p" using wf Suc.prems(1) by (simp add: btree_wf_def)
  then have self: "ancestor_at (tree (index n)) p (BlockIndex.nHeight (blk n p)) = Some p" by (simp add: linked_def)
  note off = off_chain_pprev [OF wf Suc.prems(1)]
  show ?case
  proof (cases "chain_Contains (tree (index n)) (chainActive n) p")
    case True
    then show ?thesis using off by (simp add: usable_def)
  next
    case out: False
    consider (nl) "nChainTx (blk n p) = 0" "BlockIndex.nHeight (blk n p) \<noteq> 0"
      | (stop) "nChainTx (blk n p) \<noteq> 0 \<or> BlockIndex.nHeight (blk n p) = 0" "failed (blk n p) \<or> nStatus (blk n p) AND BLOCK_HAVE_DATA = 0"
      | (on) "nChainTx (blk n p) \<noteq> 0 \<or> BlockIndex.nHeight (blk n p) = 0" "\<not> (failed (blk n p) \<or> nStatus (blk n p) AND BLOCK_HAVE_DATA = 0)"
      by blast
    then show ?thesis
    proof cases
      case nl
      then show ?thesis using out self by (auto simp: loaded_def)
    next
      case stop
      then show ?thesis using out off by (auto simp: no_data_def)
    next
      case on
      note False = on(2)
      have run: "test_path n (Suc fuel) (Some p) = test_path n fuel (pprev (blk n p))" using out on by auto
      show ?thesis
      proof (cases "pprev (blk n p)")
        case None
        show ?thesis unfolding run None using False off None by (auto simp: usable_def no_data_def)
      next
        case (Some q)
        have q: "q \<in> known (tree (index n))" "BlockIndex.nHeight (blk n q) < int fuel" using l Some Suc.prems(2) by (auto simp: linked_def)
        have "ancestor_at (tree (index n)) q j = Some x \<Longrightarrow> ancestor_at (tree (index n)) p j = Some x" for j x
          using ancestor_at_pprev [OF wf Suc.prems(1) Some, of j] ancestor_height [OF wf q(1), of j x] l Some by (auto simp: linked_def)
        then have "loaded n p \<Longrightarrow> loaded n q" by (auto simp: loaded_def)
        then show ?thesis using Suc.IH [OF q]
          unfolding run Some using False off out Some by (auto simp: usable_def no_data_def split: sum.splits option.splits)
      qed
    qed
  qed
qed

lemma better_props:
  assumes "\<And>p. p \<in> S \<Longrightarrow> bu_wf (nChainWork (obj T p))"
  shows "set cs \<subseteq> S \<Longrightarrow> c \<in> S \<Longrightarrow>
    fold (better T) cs c \<in> insert c (set cs) \<and> (\<forall>x \<in> insert c (set cs). \<not> work_less T (fold (better T) cs c) x)"
proof (induction cs arbitrary: c)
  case Nil
  then show ?case using work_less_order(1) [of S T c] assms by auto
next
  case (Cons d cs)
  note o' = work_less_order [of S T, OF assms]
  let ?m = "better T d c" and ?r = "fold (better T) cs (better T d c)"
  have m: "?m \<in> S" "?m \<in> {c, d}" using Cons.prems by (auto simp: better_def)
  have IH: "?r \<in> insert ?m (set cs)" "\<forall>x \<in> insert ?m (set cs). \<not> work_less T ?r x"
    using Cons.IH [OF _ m(1)] Cons.prems(1) by auto
  have r: "?r \<in> S" using IH(1) m(1) Cons.prems(1) by auto
  have md: "\<not> work_less T ?m x" if "x \<in> {c, d}" for x
    using that o'(1) o'(2) [of c d c] Cons.prems by (auto simp: better_def)
  have "\<not> work_less T ?r x" if x: "x \<in> {c, d}" for x
  proof
    assume a: "work_less T ?r x"
    have "x \<in> S" using x Cons.prems by auto
    then have "x = ?m \<or> work_less T x ?m" using md [OF x] o'(3) [of x ?m] m(1) by blast
    then have "work_less T ?r ?m" using a o'(2) [of ?r x ?m] r m(1) \<open>x \<in> S\<close> by auto
    then show False using IH(2) by auto
  qed
  then show ?case using IH m(2) by auto
qed

lemma last_candidate_Some:
  assumes "\<And>p. p \<in> set cs \<Longrightarrow> bu_wf (nChainWork (obj T p))" "last_candidate T cs = Some m"
  shows "m \<in> set cs \<and> (\<forall>x \<in> set cs. \<not> work_less T m x)"
  using assms(2) better_props [of "set cs" T, OF assms(1)] by (cases cs) (auto simp: last_candidate_def)

definition loses :: "node_state \<Rightarrow> node_state \<Rightarrow> bool" where
  \<comment> \<open>only bad candidates go, and nothing becomes bad\<close>
  "loses n n' \<longleftrightarrow> only_marks n n' \<and> more_failed n n' \<and> (\<forall>c \<in> known (tree (index n)). bad n' c \<longrightarrow> bad n c) \<and>
     (\<forall>q. nChainTx (blk n' q) = nChainTx (blk n q)) \<and> (\<forall>q. no_data (blk n' q) = no_data (blk n q)) \<and>
     (\<forall>c \<in> set (setBlockIndexCandidates n). c \<notin> set (setBlockIndexCandidates n') \<longrightarrow> bad n c)"

lemma loses_refl [simp]: "loses n n"
  by (simp add: loses_def)

lemma loses_trans:
  assumes "node_ok n" "loses n n1" "loses n1 n2"
  shows "loses n n2"
proof -
  have "only_marks n n2" "more_failed n n2"
    using assms(2,3) only_marks_trans [of n n1 n2] more_failed_trans [of n n1 n2] by (simp_all add: loses_def)
  moreover have "known (tree (index n1)) = known (tree (index n))" using assms(2) only_marks_fields by (auto simp: loses_def)
  ultimately show ?thesis using assms(2,3) node_ok_parts(4) [OF assms(1)] unfolding loses_def by (auto simp: subset_iff)
qed

lemma bad_up:
  assumes wf: "btree_wf (tree (index n))" and c: "c \<in> known (tree (index n))"
    and a: "ancestor_at (tree (index n)) c j = Some f" and "bad n f"
  shows "bad n c"
proof -
  obtain i q where q: "ancestor_at (tree (index n)) f i = Some q" "failed (blk n q) \<or> no_data (blk n q)" using assms(4) by (auto simp: bad_def)
  have "0 \<le> i" "i \<le> BlockIndex.nHeight (blk n f)" using q(1) by (auto simp: ancestor_at_def split: if_splits)
  then have "ancestor_at (tree (index n)) c i = Some q"
    using ancestor_at_trans [OF wf c a, of i] ancestor_height [OF wf c a] q(1) by simp
  then show ?thesis using q(2) by (auto simp: bad_def)
qed

lemma loses_marks:
  assumes wf: "btree_wf (tree (index n))" and m: "only_marks n n'" "more_failed n n'"
    and f: "\<And>q. failed (blk n' q) \<Longrightarrow> failed (blk n q) \<or> bad n q"
    and d: "\<And>q. nChainTx (blk n' q) = nChainTx (blk n q)" "\<And>q. no_data (blk n' q) = no_data (blk n q)"
    and g: "\<And>c. c \<in> set (setBlockIndexCandidates n) \<Longrightarrow> c \<notin> set (setBlockIndexCandidates n') \<Longrightarrow> bad n c"
  shows "loses n n'"
proof -
  have same: "same_tree (tree (index n)) (tree (index n'))" using only_marks_fields(2) [OF m(1)] .
  have "bad n c" if c: "c \<in> known (tree (index n))" "bad n' c" for c
  proof -
    obtain j q where q: "ancestor_at (tree (index n)) c j = Some q" "failed (blk n' q) \<or> no_data (blk n' q)"
      using c(2) by (auto simp: bad_def same_tree_ancestor [OF same])
    show ?thesis
    proof (cases "failed (blk n q) \<or> no_data (blk n q)")
      case True
      then show ?thesis using q(1) by (auto simp: bad_def)
    next
      case False
      then have "bad n q" using f d(2) q(2) by blast
      then show ?thesis by (rule bad_up [OF wf c(1) q(1)])
    qed
  qed
  then show ?thesis using m d g by (simp add: loses_def)
qed

lemma no_data_or: "no_data (b\<lparr>nStatus := nStatus b OR BLOCK_FAILED_CHILD\<rparr>) = no_data b"
proof -
  have "(nStatus b OR BLOCK_FAILED_CHILD) AND BLOCK_HAVE_DATA = nStatus b AND BLOCK_HAVE_DATA"
    by (simp add: bit.conj_disj_distrib2 BLOCK_FAILED_CHILD_def BLOCK_HAVE_DATA_def)
  then show ?thesis by (simp add: no_data_def)
qed

lemma erase_loses: "btree_wf (tree (index n)) \<Longrightarrow> bad n p \<Longrightarrow> loses n (erase_candidate p n)"
proof (rule loses_marks [OF _ erase_candidate_marks])
  show "more_failed n (erase_candidate p n)" by (auto simp: more_failed_def erase_candidate_def)
  show "bad n p \<Longrightarrow> bad n c" if "c \<in> set (setBlockIndexCandidates n)" "c \<notin> set (setBlockIndexCandidates (erase_candidate p n))" for c
    using that by (auto simp: erase_candidate_def)
qed (simp_all add: erase_candidate_def)

lemma drop_candidate_loses:
  assumes wf: "btree_wf (tree (index n))" and f: "f \<in> known (tree (index n))" and b: "bad n f"
  shows "loses n (drop_candidate fF f n)"
proof (rule loses_marks [OF wf drop_candidate_marks [OF f]])
  let ?m = "set_status (\<lambda>s. s OR BLOCK_FAILED_CHILD) f n"
  have m: "more_failed n ?m" using set_status_more [of BLOCK_FAILED_CHILD n f] by simp
  show "more_failed n (drop_candidate fF f n)"
    using m by (auto simp: drop_candidate_def more_failed_def erase_candidate_def)
  fix q
  show "failed (blk (drop_candidate fF f n) q) \<Longrightarrow> failed (blk n q) \<or> bad n q"
    using b by (auto simp: drop_candidate_def set_status_blk split: if_split_asm)
  show "nChainTx (blk (drop_candidate fF f n) q) = nChainTx (blk n q)" "no_data (blk (drop_candidate fF f n) q) = no_data (blk n q)"
    by (auto simp: drop_candidate_def set_status_blk no_data_or)
  show "bad n c" if "c \<in> set (setBlockIndexCandidates n)" "c \<notin> set (setBlockIndexCandidates (drop_candidate fF f n))" for c
    using that b by (auto simp: drop_candidate_def erase_candidate_def split: if_split_asm)
qed

lemma drop_path_loses:
  assumes "node_ok n" "f \<in> known (tree (index n))" "ancestor_at (tree (index n)) f j = Some t" "failed (blk n t) \<or> no_data (blk n t)"
    "BlockIndex.nHeight (blk n f) < int fuel"
  shows "loses n (drop_path fuel fF t (Some f) n) \<and> (f = t \<or> f \<notin> set (setBlockIndexCandidates (drop_path fuel fF t (Some f) n)))"
  using assms
proof (induction fuel arbitrary: f n)
  case 0
  then show ?case using node_ok_parts(2) [of n] by (auto simp: btree_wf_def linked_def)
next
  case (Suc fuel)
  note wf = node_ok_parts(2) [OF Suc.prems(1)]
  show ?case
  proof (cases "f = t")
    case True
    then show ?thesis by simp
  next
    case False
    have b: "bad n f" using Suc.prems(3,4) by (auto simp: bad_def)
    let ?n = "drop_candidate fF f n"
    have l1: "loses n ?n" by (rule drop_candidate_loses [OF wf Suc.prems(2) b])
    have ok1: "node_ok ?n" using only_marks_ok Suc.prems(1) l1 by (auto simp: loses_def)
    have same: "same_tree (tree (index n)) (tree (index ?n))" using l1 only_marks_fields(2) by (auto simp: loses_def)
    have fo: "f \<notin> set (setBlockIndexCandidates ?n)" by (simp add: drop_candidate_def erase_candidate_def)
    have lf: "linked (tree (index n)) f" using wf Suc.prems(2) by (simp add: btree_wf_def)
    have "j \<noteq> BlockIndex.nHeight (blk n f)" using Suc.prems(3) False lf by (auto simp: linked_def)
    then have j: "0 \<le> j" "j < BlockIndex.nHeight (blk n f)" using ancestor_height [OF wf Suc.prems(2,3)] by auto
    then obtain q where q: "pprev (blk n f) = Some q" "q \<in> known (tree (index n))" "BlockIndex.nHeight (blk n q) < int fuel"
      using lf Suc.prems(5) by (auto simp: linked_def split: option.splits)
    have "ancestor_at (tree (index n)) q j = Some t" using ancestor_at_pprev [OF wf Suc.prems(2) q(1) j] Suc.prems(3) by simp
    moreover have "failed (blk ?n t) \<or> no_data (blk ?n t)" using Suc.prems(4) l1 by (auto simp: loses_def more_failed_def)
    ultimately have IH: "loses ?n (drop_path fuel fF t (Some q) ?n)"
      using Suc.IH [OF ok1, of q] q by (simp add: same_tree_fields [OF same] same_tree_ancestor [OF same])
    have "drop_path (Suc fuel) fF t (Some f) n = drop_path fuel fF t (Some q) ?n" using False q(1) by simp
    moreover have "f \<notin> set (setBlockIndexCandidates (drop_path fuel fF t (Some q) ?n))" using IH fo by (auto simp: loses_def more_failed_def)
    ultimately show ?thesis using loses_trans [OF Suc.prems(1) l1 IH] by simp
  qed
qed

lemma note_invalid_loses: "btree_wf (tree (index n)) \<Longrightarrow> loses n (note_invalid p n)"
  by (rule loses_marks) (auto simp: note_invalid_marks more_failed_def)

lemma loses_same: "loses n n' \<Longrightarrow> same_tree (tree (index n)) (tree (index n'))"
  using only_marks_fields(2) by (auto simp: loses_def)

lemma loses_loaded:
  assumes "loses n n'"
  shows "loaded n' c \<longleftrightarrow> loaded n c"
proof -
  note same = loses_same [OF assms]
  show ?thesis using assms by (simp add: loaded_def loses_def same_tree_ancestor [OF same] same_tree_fields [OF same])
qed

lemma loses_ok: "loses n n' \<Longrightarrow> node_ok n \<Longrightarrow> node_ok n'"
  using only_marks_ok by (auto simp: loses_def)

lemma loses_candidates: "loses n n' \<Longrightarrow> set (setBlockIndexCandidates n') \<subseteq> set (setBlockIndexCandidates n)"
  by (simp add: loses_def more_failed_def)

text \<open>One round on a path that is not usable takes the candidate out.\<close>

lemma round_loses:
  assumes ok: "node_ok n" and new: "new \<in> set (setBlockIndexCandidates n)"
    and j: "ancestor_at (tree (index n)) new j = Some t" "failed (blk n t) \<or> no_data (blk n t)"
  defines "m \<equiv> if failed (blk n t) then note_invalid new n else n"
  defines "k \<equiv> erase_candidate t (drop_path (path_fuel n new) (failed (blk n t)) t (Some new) m)"
  shows "loses n k \<and> new \<notin> set (setBlockIndexCandidates k)"
proof -
  have newk: "new \<in> known (tree (index n))" using new node_ok_parts(4) [OF ok] by auto
  have lm: "loses n m" using note_invalid_loses [OF node_ok_parts(2) [OF ok]] by (simp add: m_def)
  note okm = loses_ok [OF lm ok] and same = loses_same [OF lm]
  have bm: "blk m q = blk n q" for q by (simp add: m_def)
  let ?d = "drop_path (path_fuel n new) (failed (blk n t)) t (Some new) m"
  have d: "loses m ?d" "new = t \<or> new \<notin> set (setBlockIndexCandidates ?d)"
    using drop_path_loses [OF okm, of new j t "path_fuel n new" "failed (blk n t)"] j newk
    by (simp_all add: same_tree_fields [OF same] same_tree_ancestor [OF same] bm path_fuel_def)
  have nd: "loses n ?d" by (rule loses_trans [OF ok lm d(1)])
  note okd = loses_ok [OF nd ok] and sd = loses_same [OF nd]
  have "t \<in> known (tree (index n))" "ancestor_at (tree (index n)) t (BlockIndex.nHeight (blk n t)) = Some t"
    using ancestor_height [OF node_ok_parts(2) [OF ok] newk j(1)] node_ok_parts(2) [OF ok] by (auto simp: btree_wf_def linked_def)
  moreover have "failed (blk ?d t) \<or> no_data (blk ?d t)" using j(2) nd by (auto simp: loses_def more_failed_def)
  ultimately have "bad ?d t" by (auto simp: bad_def same_tree_ancestor [OF sd])
  then have "loses ?d k" unfolding k_def by (rule erase_loses [OF node_ok_parts(2) [OF okd]])
  then have "loses n k" by (rule loses_trans [OF ok nd])
  moreover have "new \<notin> set (setBlockIndexCandidates k)" using d(2) by (auto simp: k_def erase_candidate_def)
  ultimately show ?thesis ..
qed

definition most_work :: "node_state \<Rightarrow> ptr option \<Rightarrow> bool" where
  \<comment> \<open>a usable candidate that none of the candidates has more work than\<close>
  "most_work n r \<longleftrightarrow> (case r of None \<Rightarrow> setBlockIndexCandidates n = []
     | Some m \<Rightarrow> m \<in> set (setBlockIndexCandidates n) \<and> usable n m \<and>
         (\<forall>c \<in> set (setBlockIndexCandidates n). \<not> work_less (tree (index n)) m c))"

lemma FindMostWorkChain_finds:
  assumes "node_ok n" "card (set (setBlockIndexCandidates n)) < rounds"
  shows "case FindMostWorkChain rounds n of
      Inl e \<Rightarrow> \<exists>c \<in> set (setBlockIndexCandidates n). \<not> loaded n c
    | Inr (n', r) \<Rightarrow> loses n n' \<and> most_work n' r"
  using assms
proof (induction rounds arbitrary: n)
  case (Suc rounds)
  note wf = node_ok_parts(2) [OF Suc.prems(1)] and ks = node_ok_parts(4) [OF Suc.prems(1)]
  have bw: "bu_wf (nChainWork (blk n p))" if "p \<in> set (setBlockIndexCandidates n)" for p
    using that Suc.prems(1) ks by (auto simp: node_ok_def cs_wf_def work_ok_def)
  show ?case
  proof (cases "last_candidate (tree (index n)) (setBlockIndexCandidates n)")
    case None
    then show ?thesis by (auto simp: most_work_def last_candidate_def split: list.splits)
  next
    case (Some new)
    note best = last_candidate_Some [OF bw Some]
    then have nk: "new \<in> known (tree (index n))" using ks by auto
    have "BlockIndex.nHeight (blk n new) < int (path_fuel n new)" by (simp add: path_fuel_def)
    note tp = test_path_spec [OF wf nk this]
    show ?thesis
    proof (cases "test_path n (path_fuel n new) (Some new)")
      case (Inl e)
      then show ?thesis using tp Some best by auto
    next
      case (Inr r)
      show ?thesis
      proof (cases r)
        case None
        then have "FindMostWorkChain (Suc rounds) n = Inr (n, Some new)" using Some Inr by simp
        then show ?thesis using tp Inr None best by (simp add: most_work_def)
      next
        case (Some t)
        then obtain j where j: "off_chain n new j t" "failed (blk n t) \<or> no_data (blk n t)" using tp Inr by auto
        define k where "k = erase_candidate t (drop_path (path_fuel n new) (failed (blk n t)) t (Some new)
          (if failed (blk n t) then note_invalid new n else n))"
        have l: "loses n k" "new \<notin> set (setBlockIndexCandidates k)"
          using round_loses [OF Suc.prems(1) best [THEN conjunct1], of j t] j by (simp_all add: k_def off_chain_def)
        have "set (setBlockIndexCandidates k) \<subset> set (setBlockIndexCandidates n)" using loses_candidates [OF l(1)] l(2) best by blast
        then have "card (set (setBlockIndexCandidates k)) < card (set (setBlockIndexCandidates n))" by (rule psubset_card_mono [OF finite_set])
        then have "card (set (setBlockIndexCandidates k)) < rounds" using Suc.prems(2) by simp
        note IH = Suc.IH [OF loses_ok [OF l(1) Suc.prems(1)] this]
        have "FindMostWorkChain (Suc rounds) n = FindMostWorkChain rounds k"
          unfolding k_def by (rule FindMostWorkChain_Some [OF \<open>last_candidate _ _ = Some new\<close> Inr [unfolded Some]])
        then show ?thesis using IH loses_trans [OF Suc.prems(1) l(1)] loses_candidates [OF l(1)] loses_loaded [OF l(1)]
          by (cases "FindMostWorkChain rounds k") auto
      qed
    qed
  qed
qed simp

section \<open>Rejections that tell\<close>

definition tells :: "connect_stop + 'a \<Rightarrow> bool" where
  \<comment> \<open>a block is refused as invalid only when it is not just corrupted\<close>
  "tells r \<longleftrightarrow> (\<forall>st j. r = Inl (Rejected st j) \<longrightarrow> vs_IsInvalid st \<longrightarrow> \<not> corruptionPossible st)"

lemma tells_plain [simp]: "tells (Inr a)" "tells (Inl (Fault e))"
  by (simp_all add: tells_def)

lemma tells_reject [simp]:
  "tells (Inl (Rejected (snd (DoS l r c s False d st)) j))" "tells (reject (DoS l r c s False d st))"
  "tells (reject (Invalid r c s d st))" "tells (reject (vs_Error msg st))"
  by (simp_all add: tells_def reject_def DoS_def Invalid_def vs_Error_def Let_def vs_IsInvalid_def)

lemma tells_lift [simp]:
  "tells (lift_fault q)" "tells (lift_node m)" "tells (asserted x)" "tells (not_null x)" "tells (value_out tx)"
  by (simp_all add: lift_fault_def lift_node_def asserted_def not_null_def value_out_def split: sum.split option.split unit.split)

lemma tells_script_result [simp]: "tells (script_result sr)"
  by (simp add: script_result_def split: sum.split script_stop.split)

lemma tells_bind: "tells m \<Longrightarrow> (\<And>a. m = Inr a \<Longrightarrow> tells (f a)) \<Longrightarrow> tells (sum_bind m f)"
  by (cases m) (auto simp: tells_def)

lemma tells_if: "(c \<Longrightarrow> tells a) \<Longrightarrow> (\<not> c \<Longrightarrow> tells b) \<Longrightarrow> tells (if c then a else b)"
  by simp

lemma tells_case:
  "(\<And>a b. p = (a, b) \<Longrightarrow> tells (f a b)) \<Longrightarrow> tells (case p of (a, b) \<Rightarrow> f a b)"
  "(o' = None \<Longrightarrow> tells x) \<Longrightarrow> (\<And>a. o' = Some a \<Longrightarrow> tells (g a)) \<Longrightarrow> tells (case o' of None \<Rightarrow> x | Some a \<Rightarrow> g a)"
  "(l = [] \<Longrightarrow> tells x) \<Longrightarrow> (\<And>a as. l = a # as \<Longrightarrow> tells (k a as)) \<Longrightarrow> tells (case l of [] \<Rightarrow> x | a # as \<Rightarrow> k a as)"
  "(\<And>h n. c = COutPoint h n \<Longrightarrow> tells (q h n)) \<Longrightarrow> tells (case c of COutPoint h n \<Rightarrow> q h n)"
  "(\<And>e. s = Inl e \<Longrightarrow> tells (u e)) \<Longrightarrow> (\<And>a. s = Inr a \<Longrightarrow> tells (v a)) \<Longrightarrow> tells (case s of Inl e \<Rightarrow> u e | Inr a \<Rightarrow> v a)"
  "(b \<Longrightarrow> tells x) \<Longrightarrow> (\<not> b \<Longrightarrow> tells y) \<Longrightarrow> tells (case b of True \<Rightarrow> x | False \<Rightarrow> y)"
  by (simp_all split: prod.splits option.splits list.splits COutPoint.splits sum.splits bool.splits)

lemmas tells = tells_bind tells_if tells_case

lemma IsInputBanned_tells: "tells (IsInputBanned E GetC usage input view)"
  unfolding IsInputBanned_def Let_def by (intro tells) simp_all

lemma txin_loop_tells: "tells (txin_loop E GetC usage st h ins v view)"
  by (induction ins arbitrary: v view) (auto simp: Let_def intro!: tells IsInputBanned_tells)

lemma CheckTxInputs_tells: "tells (CheckTxInputs E GetC usage tx st h view)"
  unfolding CheckTxInputs_def Let_def by (intro tells txin_loop_tells) simp_all

lemma script_failed_tells: "tells (script_failed E c e st)"
  unfolding script_failed_def by (intro tells) simp_all

lemma script_loop_tells: "tells (script_loop E GetC usage tx st fl b is view)"
  by (induction "is" arbitrary: view)
    (auto simp: Let_def intro!: tells script_failed_tells split: script_stop.split)

lemma CheckInputs_tells: "tells (CheckInputs E S GetC usage best tx st f fl b view)"
  unfolding CheckInputs_def GetSpendHeight_def by (intro tells CheckTxInputs_tells script_loop_tells) simp_all

lemma coin_heights_tells: "tells (coin_heights GetC usage ins view)"
  by (induction ins arbitrary: view) (auto intro!: tells)

lemma p2sh_sigops_tells: "tells (p2sh_sigops GetC usage ins view)"
  by (induction ins arbitrary: view) (auto intro!: tells)

lemma connect_inputs_tells: "tells (connect_inputs E S GetC usage best p f fl k tx st a)"
  unfolding connect_inputs_def GetP2SHSigOpCount_def by (intro tells coin_heights_tells p2sh_sigops_tells CheckInputs_tells) simp_all

lemma connect_txs_tells: "tells (connect_txs E S GetC usage best p f fl k b txs st a)"
proof (induction txs arbitrary: b a)
  case (Cons tx txs)
  have "tells (connect_tx E S GetC usage best p f fl k b tx st a)"
    unfolding connect_tx_def Let_def by (intro tells connect_inputs_tells) simp_all
  then show ?case using Cons.IH by (auto intro!: tells)
qed simp

definition intact :: "hash_functions \<Rightarrow> CBlock \<Rightarrow> bool" where
  \<comment> \<open>the transactions are those the header commits to\<close>
  "intact H block \<longleftrightarrow> BlockMerkleRoot H (vtx block) = (hdr_hashMerkleRoot block, False)"

definition told :: "bool \<times> CValidationState \<Rightarrow> bool" where
  \<comment> \<open>a result that is not just the sign of a corrupted block\<close>
  "told r \<longleftrightarrow> (\<not> fst r \<longrightarrow> vs_IsInvalid (snd r) \<longrightarrow> \<not> corruptionPossible (snd r))"

lemma told_results [simp]: "told (True, st)" "told (DoS l r c s False d st)" "told (Invalid r c s d st)" "told (fail_DoS l s st)"
  by (simp_all add: told_def DoS_def Invalid_def fail_DoS_def Let_def vs_IsInvalid_def)

lemma CheckTransaction_told: "told (CheckTransaction tx st)"
  by (simp add: CheckTransaction_def Let_def split: option.split prod.split)

lemma check_transactions_told:
  "check_transactions enforce founder txs f st = (ok, b, st') \<Longrightarrow> told (ok, st')"
proof (induction txs arbitrary: f st)
  case (Cons tx txs)
  then show ?case using CheckTransaction_told [of tx st]
    by (cases "CheckTransaction tx st") (auto split: bool.split_asm if_split_asm)
qed simp

definition check_told :: "node_fault + block_check \<Rightarrow> bool" where
  "check_told r \<longleftrightarrow> (\<forall>b. r = Inr b \<longrightarrow> told (bc_ok b, bc_state b))"

lemma check_told_result [simp]: "check_told (Inl e)" "told q \<Longrightarrow> check_told (check_result b q)"
  "check_told (Inr \<lparr>bc_ok = True, bc_state = st, bc_fChecked = f, bc_rejected = j\<rparr>)"
  by (simp_all add: check_told_def check_result_def)

lemma check_told_rejected:
  "check_told (case DoS l ok k s False d st of (ok, st2) \<Rightarrow> Inr \<lparr>bc_ok = ok, bc_state = st2, bc_fChecked = f, bc_rejected = j\<rparr>)"
  using told_results(2) [of l ok k s d st] by (cases "DoS l ok k s False d st") (simp add: check_told_def)

lemma check_told_cases:
  "(c \<Longrightarrow> check_told a) \<Longrightarrow> (\<not> c \<Longrightarrow> check_told b) \<Longrightarrow> check_told (if c then a else b)"
  "(o' = None \<Longrightarrow> check_told x) \<Longrightarrow> (\<And>a. o' = Some a \<Longrightarrow> check_told (g a)) \<Longrightarrow> check_told (case o' of None \<Rightarrow> x | Some a \<Rightarrow> g a)"
  "(\<And>ok b st2. check_transactions e f txs found st1 = (ok, b, st2) \<Longrightarrow> check_told (X ok (b, st2))) \<Longrightarrow>
     check_told (case check_transactions e f txs found st1 of (ok, b) \<Rightarrow> X ok b)"
  "(B \<Longrightarrow> check_told x) \<Longrightarrow> (\<not> B \<Longrightarrow> check_told y) \<Longrightarrow> check_told (case B of True \<Rightarrow> x | False \<Rightarrow> y)"
  by (auto split: option.split bool.split prod.split)

lemma CheckBlock_told:
  assumes "intact (hashes G) block"
  shows "check_told (CheckBlock G T c block st pow merkle)"
proof (cases "fChecked block")
  case True
  then show ?thesis by (simp add: CheckBlock_def)
next
  case False
  let ?root = "BlockMerkleRoot (hashes G) (vtx block)"
  obtain ok1 st1 where c: "CheckBlockHeader G block st pow = (ok1, st1)" by fastforce
  have h: "told (ok1, st1)" using c [symmetric] by (simp add: CheckBlockHeader_def)
  have root: "(merkle \<and> hdr_hashMerkleRoot block \<noteq> fst ?root) = False" "(merkle \<and> snd ?root) = False"
    using assms by (simp_all add: intact_def)
  show ?thesis
  proof (cases ok1)
    case False
    then show ?thesis using h c \<open>\<not> fChecked block\<close> by (simp add: CheckBlock_def)
  next
    case True
    show ?thesis
      unfolding CheckBlock_def if_not_P [OF \<open>\<not> fChecked block\<close>] c True prod.case bool.case Let_def root if_False
      using True by (intro check_told_cases check_told_rejected) (auto split: bool.split dest: check_transactions_told)
  qed
qed

lemma write_block_undo_tells: "tells (write_block_undo E S p undo st)"
  unfolding write_block_undo_def Let_def by (intro tells) simp_all

lemma payments_tells: "tells (connect_payments E block h v st)"
  unfolding connect_payments_def by (intro tells) simp_all

lemma checks_tells: "tells (script_checks E S p)" "tells (enforce_BIP30 P T p)" "tells (script_flags P T block p caches)"
    "tells (wait_checks E b cs)"
  unfolding script_checks_def assume_valid_checks_def enforce_BIP30_def script_flags_def wait_checks_def Let_def
  by ((intro tells); simp)+

lemma ConnectBlock_tells:
  assumes "intact (hashes (node E)) block"
  shows "tells (ConnectBlock E S ch caches GetC usage best block st p view j)"
  unfolding ConnectBlock_def Let_def
proof (intro tells payments_tells checks_tells connect_txs_tells write_block_undo_tells, goal_cases)
  case (2 chk)
  then have "CheckBlock (node E) (tree S) ch block st (\<not> j) (\<not> j) = Inr chk" by simp
  then show ?case using CheckBlock_told [OF assms] 2(2) by (auto simp: check_told_def told_def tells_def)
qed simp_all

definition intact_blocks :: "('pk, 'sig) activate_env \<Rightarrow> CBlock option \<Rightarrow> bool" where
  \<comment> \<open>every block that can be read, and the one just received, has the transactions its header commits to\<close>
  "intact_blocks E pblock \<longleftrightarrow>
     (\<forall>T p b. ReadBlockFromDisk E T p = Some b \<longrightarrow> intact (hashes (node (conn E))) b) \<and>
     (\<forall>b. pblock = Some b \<longrightarrow> intact (hashes (node (conn E))) b)"

lemma ConnectTip_tells:
  assumes "intact_blocks E pblock" "ConnectTip E st p pblock n = Inr (n', st', False)" "vs_IsInvalid st'"
  shows "\<not> corruptionPossible st'"
proof -
  note d = assms(2)
  have prev: "pprev (blk n p) = tip_of n" using d by (auto simp: ConnectTip_def split: if_split_asm)
  define ob where "ob = (case pblock of Some b \<Rightarrow> Some b | None \<Rightarrow> ReadBlockFromDisk E (tree (index n)) p)"
  have e: "\<not> vs_IsInvalid (snd (vs_Error msg st))" for msg by (simp add: vs_Error_def vs_IsInvalid_def)
  obtain block where b: "ob = Some block"
    using d prev e assms(3) unfolding ConnectTip_def ob_def [symmetric] by (cases ob) auto
  have "intact (hashes (node (conn E))) block" using assms(1) b by (auto simp: intact_blocks_def ob_def split: option.splits)
  note t = ConnectBlock_tells [OF this]
  define cb where "cb = ConnectBlock (conn E) (index n) (chainActive n) (versionbitscache n) (tip_GetCoins (coins_usage E)) (coins_usage E)
                 tip_GetBestBlock block st p (cache_on (pcoinsTip n)) False"
  note d' = d [unfolded ConnectTip_def ob_def [symmetric] b option.case cb_def [symmetric] Let_def, simplified prev]
  show ?thesis
  proof (cases cb)
    case (Inr r)
    then have False using d' assms(3) by (auto simp: sum_bind_Inr_iff split: if_split_asm dest!: FlushStateToDisk_marks)
    then show ?thesis ..
  next
    case (Inl x)
    then obtain rej where x: "x = Rejected st' rej"
      using d' assms(3) by (cases x) (auto simp: sum_bind_Inr_iff split: if_split_asm)
    have "tells cb" unfolding cb_def by (rule t)
    then show ?thesis using Inl x assms(3) by (simp add: tells_def)
  qed
qed

lemma intact_uncorrupted:
  assumes "intact_blocks E pblock"
  shows "uncorrupted E pblock"
proof -
  have "intact_blocks E pb" if "pb \<in> {None, pblock}" for pb
    using assms that by (auto simp: intact_blocks_def)
  then show ?thesis unfolding uncorrupted_def by (intro allI impI) (rule ConnectTip_tells)
qed

section \<open>A step of the activation\<close>

definition step_result :: "bool \<Rightarrow> node_state \<Rightarrow> ptr \<Rightarrow> node_state \<Rightarrow> bool" where
  \<comment> \<open>the tip is the target, or has more work than the old tip, or a block on the way turned out invalid\<close>
  "step_result u n most n' \<longleftrightarrow> advances n n' \<and>
     (tip_of n' = Some most \<or> work_above n' (tip_of n) \<or> (u \<longrightarrow> (\<exists>p j. off_chain n most j p \<and> failed (blk n' p))))"

lemma fork_height:
  assumes ok: "node_ok n" and m: "most \<in> known (tree (index n))"
    and f: "highest_common (tree (index n)) (chainActive n) most fork"
  defines "h \<equiv> (case fork of None \<Rightarrow> - 1 | Some f \<Rightarrow> BlockIndex.nHeight (blk n f))"
  shows "- 1 \<le> h" "h \<le> BlockIndex.nHeight (blk n most)" "fork = ancestor_at (tree (index n)) most h"
    "h < j \<Longrightarrow> ancestor_at (tree (index n)) most j = Some p \<Longrightarrow> off_chain n most j p"
proof -
  note wf = node_ok_parts(2) [OF ok]
  have h0: "0 \<le> BlockIndex.nHeight (blk n most)" using wf m by (simp add: btree_wf_def linked_def)
  have "(- 1 \<le> h \<and> h \<le> BlockIndex.nHeight (blk n most) \<and> fork = ancestor_at (tree (index n)) most h) \<and>
    (\<forall>i q. h < i \<longrightarrow> ancestor_at (tree (index n)) most i = Some q \<longrightarrow> \<not> chain_Contains (tree (index n)) (chainActive n) q)"
  proof (cases fork)
    case None
    moreover have "ancestor_at (tree (index n)) most (- 1) = None" by (simp add: ancestor_at_def)
    ultimately show ?thesis using f h0 by (simp add: h_def highest_common_def)
  next
    case (Some r)
    then obtain g where g: "ancestor_at (tree (index n)) most g = Some r"
      "\<forall>i q. g < i \<longrightarrow> ancestor_at (tree (index n)) most i = Some q \<longrightarrow> \<not> chain_Contains (tree (index n)) (chainActive n) q"
      using f by (auto simp: highest_common_def)
    then have "h = g" "0 \<le> g" "g \<le> BlockIndex.nHeight (blk n most)"
      using ancestor_height [OF wf m g(1)] Some by (simp_all add: h_def)
    then show ?thesis using g Some by simp
  qed
  then show "- 1 \<le> h" "h \<le> BlockIndex.nHeight (blk n most)" "fork = ancestor_at (tree (index n)) most h"
    "h < j \<Longrightarrow> ancestor_at (tree (index n)) most j = Some p \<Longrightarrow> off_chain n most j p"
    by (auto simp: off_chain_def) (meson order.strict_trans2)
qed

lemma step_disconnected:
  assumes ok: "node_ok n" and m: "most \<in> known (tree (index n))"
    and hc: "highest_common (tree (index n)) (chainActive n) most fork"
    and d: "disconnect_to (length (vChain (chainActive n))) E fork st n = Inr (n1, st1, True)"
  defines "hf \<equiv> (case fork of None \<Rightarrow> - 1 | Some f \<Rightarrow> BlockIndex.nHeight (blk n f))"
  shows "advances n n1" "st1 = st" "(case fork of None \<Rightarrow> - 1 | Some f \<Rightarrow> BlockIndex.nHeight (blk n1 f)) = hf"
    "tip_of n1 = ancestor_at (tree (index n1)) most hf" "- 1 \<le> hf" "hf \<le> BlockIndex.nHeight (blk n1 most)"
    "node_ok n1" "most \<in> known (tree (index n1))" "\<And>o'. tip_of n = Some o' \<Longrightarrow> o' \<in> known (tree (index n1))"
proof -
  let ?T = "tree (index n)"
  note wf = node_ok_parts(2) [OF ok] and fh = fork_height [OF ok m hc, folded hf_def]
  have inch: "BlockIndex.nHeight (blk n t) < int (length (vChain (chainActive n))) \<and>
      (\<forall>f. fork = Some f \<longrightarrow> (\<exists>h. ancestor_at ?T t h = Some f))" if t: "tip_of n = Some t" for t
  proof -
    note c = chain_of_tip [OF wf node_ok_parts(3) [OF ok] t]
    have "\<exists>h. ancestor_at ?T t h = Some f" if "fork = Some f" for f
      using that hc c(1) by (auto simp: highest_common_def chain_Contains_def)
    then show ?thesis using c(2) by (auto simp: chain_Height_def)
  qed
  have r: "advances n n1" "st1 = st" "tip_of n = None \<and> tip_of n1 = None \<or> tip_of n1 = fork \<and> fork \<noteq> None"
    using disconnect_to_fork [OF ok d inch] by blast+
  have "fork = None" if "tip_of n = None"
    using chain_wf_empty [OF wf node_ok_parts(3) [OF ok] that] hc
    by (cases fork) (auto simp: highest_common_def chain_Contains_def chain_at_def split: if_split_asm)
  then have t1: "tip_of n1 = fork" using r(3) by auto
  note same = advances_tree [OF r(1)]
  show "advances n n1" "st1 = st" by (fact r)+
  show "(case fork of None \<Rightarrow> - 1 | Some f \<Rightarrow> BlockIndex.nHeight (blk n1 f)) = hf"
    by (simp add: hf_def same_tree_fields [OF same] split: option.split)
  show "node_ok n1" using r(1) by (simp add: advances_def)
  show "o' \<in> known (tree (index n1))" if "tip_of n = Some o'" for o'
    using tip_known [OF ok that] by (simp add: same_tree_fields [OF same])
  show "tip_of n1 = ancestor_at (tree (index n1)) most hf" "- 1 \<le> hf" "hf \<le> BlockIndex.nHeight (blk n1 most)"
    "most \<in> known (tree (index n1))"
    using m fh t1 by (simp_all add: same_tree_fields [OF same] same_tree_ancestor [OF same])
qed

lemma ActivateBestChainStep_result:
  assumes ok: "node_ok n" and m: "most \<in> known (tree (index n))"
    and s: "ActivateBestChainStep E st most pblock n = Inr (n', st', True)"
  shows "step_result (uncorrupted E pblock) n most n'"
proof -
  let ?T = "tree (index n)"
  obtain fork where fk: "chain_FindFork ?T (chainActive n) (Some most) = Inr fork"
    and hc: "highest_common ?T (chainActive n) most fork" using chain_FindFork_correct [OF node_ok_parts(2) [OF ok] m, of "chainActive n"] by blast
  define hf where "hf = (case fork of None \<Rightarrow> - 1 | Some f \<Rightarrow> BlockIndex.nHeight (blk n f))"
  note run = s [unfolded ActivateBestChainStep_def Let_def fk node_fault_of.simps sum_bind.simps]
  obtain n1 st1 where d: "disconnect_to (length (vChain (chainActive n))) E fork st n = Inr (n1, st1, True)"
    using run by (auto simp: sum_bind_Inr_iff split: if_split_asm)
  note sd = step_disconnected [OF ok m hc d, folded hf_def]
  obtain st2 e where c: "connect_up (nat (BlockIndex.nHeight (blk n1 most) - hf)) E st (tip_of n) most pblock hf n1 = Inr (n', st2, e)"
    and e: "e \<noteq> System_error"
    using run d sd(2,3) by (auto simp: sum_bind_Inr_iff split: if_split_asm)
  have up: "up_result (uncorrupted E pblock) n1 most hf (tip_of n) n' e"
    by (rule connect_up_result [OF sd(7,8,9,5,6,4) _ c]) auto
  have ad: "advances n n'" using up e advances_trans [OF sd(1)] by (simp add: up_result_def)
  have "\<exists>p j. off_chain n most j p \<and> failed (blk n' p)"
    if "hf < j" "ancestor_at (tree (index n1)) most j = Some p" "failed (blk n' p)" for p j
    using fork_height(4) [OF ok m hc, folded hf_def, of j p] that by (auto simp: same_tree_ancestor [OF advances_tree [OF sd(1)]])
  then show ?thesis
    using up e ad unfolding step_result_def up_result_def by (cases e) auto
qed

section \<open>The activation ends\<close>

definition unfailed :: "node_state \<Rightarrow> nat" where
  "unfailed n = card {p \<in> known (tree (index n)). \<not> failed (blk n p)}"

definition above_tip :: "node_state \<Rightarrow> nat" where
  "above_tip n = (case tip_of n of None \<Rightarrow> Suc (card (known (tree (index n))))
     | Some t \<Rightarrow> card {p \<in> known (tree (index n)). work (tree (index n)) t < work (tree (index n)) p})"

lemma known_finite: "node_ok n \<Longrightarrow> finite (known (tree (index n)))"
  using finite_subset [of "known (tree (index n))" "{..< next_ptr (index n)}"] by (auto simp: node_ok_def cs_wf_def)

lemma same_tree_work: "same_tree T T' \<Longrightarrow> work T' p = work T p"
  by (simp add: work_def same_tree_fields)

lemma advances_unfailed:
  assumes "node_ok n" "advances n n'"
  shows "unfailed n' \<le> unfailed n" "p \<in> known (tree (index n)) \<Longrightarrow> \<not> failed (blk n p) \<Longrightarrow> failed (blk n' p) \<Longrightarrow> unfailed n' < unfailed n"
proof -
  note same = advances_tree [OF assms(2)]
  have sub: "{p \<in> known (tree (index n')). \<not> failed (blk n' p)} \<subseteq> {p \<in> known (tree (index n)). \<not> failed (blk n p)}"
    using assms(2) by (auto simp: advances_def more_failed_def same_tree_fields [OF same])
  have fin: "finite {p \<in> known (tree (index n)). \<not> failed (blk n p)}" using known_finite [OF assms(1)] by simp
  show "unfailed n' \<le> unfailed n" unfolding unfailed_def by (rule card_mono [OF fin sub])
  show "unfailed n' < unfailed n" if "p \<in> known (tree (index n))" "\<not> failed (blk n p)" "failed (blk n' p)"
    unfolding unfailed_def by (rule psubset_card_mono [OF fin]) (use sub that in blast)
qed

lemma work_above_less:
  assumes "node_ok n" "advances n n'" "work_above n' (tip_of n)"
  shows "above_tip n' < above_tip n"
proof -
  note same = advances_tree [OF assms(2)]
  obtain t where t: "tip_of n' = Some t" "\<And>o'. tip_of n = Some o' \<Longrightarrow> work (tree (index n)) o' < work (tree (index n)) t"
    using assms(3) by (auto simp: work_above_def same_tree_work [OF same])
  have "node_ok n'" using assms(2) by (simp add: advances_def)
  then have tk: "t \<in> known (tree (index n))" using tip_known [OF _ t(1)] by (simp add: same_tree_fields [OF same])
  note fin = known_finite [OF assms(1)]
  have a: "above_tip n' = card {p \<in> known (tree (index n)). work (tree (index n)) t < work (tree (index n)) p}"
    by (simp add: above_tip_def t(1) same_tree_work [OF same] same_tree_fields [OF same])
  show ?thesis
  proof (cases "tip_of n")
    case None
    have "above_tip n' \<le> card (known (tree (index n)))" unfolding a by (rule card_mono [OF fin]) auto
    then show ?thesis using None by (simp add: above_tip_def)
  next
    case (Some o')
    have "card {p \<in> known (tree (index n)). work (tree (index n)) t < work (tree (index n)) p} <
        card {p \<in> known (tree (index n)). work (tree (index n)) o' < work (tree (index n)) p}"
      by (rule psubset_card_mono) (use fin t(2) [OF Some] tk in auto)
    then show ?thesis using a Some by (simp add: above_tip_def)
  qed
qed

definition progress :: "(node_state \<times> node_state) set" where
  "progress = measures [unfailed, above_tip]"

lemma step_progress:
  assumes ok: "node_ok n" and us: "usable n most" and m: "most \<in> known (tree (index n))" and r: "step_result True n most n'"
    and t: "tip_of n' \<noteq> Some most"
  shows "(n', n) \<in> progress"
proof -
  have ad: "advances n n'" using r by (simp add: step_result_def)
  consider "work_above n' (tip_of n)" | p j where "off_chain n most j p" "failed (blk n' p)"
    using r t by (auto simp: step_result_def)
  then show ?thesis
  proof cases
    case 1
    then show ?thesis using work_above_less [OF ok ad] advances_unfailed(1) [OF ok ad] by (auto simp: progress_def)
  next
    case 2
    have "\<not> failed (blk n p)" using us 2(1) by (auto simp: usable_def)
    moreover have "p \<in> known (tree (index n))"
      using 2(1) ancestor_height [OF node_ok_parts(2) [OF ok] m] by (auto simp: off_chain_def)
    ultimately have "unfailed n' < unfailed n" using advances_unfailed(2) [OF ok ad] 2(2) by blast
    then show ?thesis by (simp add: progress_def)
  qed
qed

lemma loses_measures:
  assumes "node_ok n" "loses n n'"
  shows "(n', n) \<in> progress \<or> unfailed n' = unfailed n \<and> above_tip n' = above_tip n"
proof -
  have m: "only_marks n n'" "more_failed n n'" using assms(2) by (simp_all add: loses_def)
  note ad = advances_marks [OF m assms(1)] and same = only_marks_fields(2) [OF m(1)]
  have "above_tip n' = above_tip n"
    by (simp add: above_tip_def only_marks_fields(1) [OF m(1)] same_tree_work [OF same] same_tree_fields [OF same]
        split: option.split)
  then show ?thesis using advances_unfailed(1) [OF assms(1) ad] by (auto simp: progress_def)
qed

lemma progress_trans: "(a, b) \<in> progress \<Longrightarrow> (b, c) \<in> progress \<or> unfailed b = unfailed c \<and> above_tip b = above_tip c \<Longrightarrow> (a, c) \<in> progress"
  by (auto simp: progress_def)

lemma ActivateBestChain_returns:
  assumes "intact_blocks E pblock" "node_ok n"
  shows "\<exists>rounds. ActivateBestChain rounds E st pblock n \<noteq> None"
  using assms(2)
proof (induction n arbitrary: st rule: wf_induct [OF wf_measures [of "[unfailed, above_tip]"]])
  case (1 n)
  define s where "s = FindMostWorkChain (Suc (length (setBlockIndexCandidates n))) n"
  have "card (set (setBlockIndexCandidates n)) < Suc (length (setBlockIndexCandidates n))" using card_length le_imp_less_Suc by blast
  note fm = FindMostWorkChain_finds [OF 1(2) this, folded s_def]
  show ?case
  proof (cases s)
    case (Inl e)
    then show ?thesis by (intro exI [of _ "Suc 0"]) (simp add: s_def)
  next
    case (Inr a)
    obtain n1 r where a: "a = (n1, r)" by fastforce
    show ?thesis
    proof (cases "r = None \<or> tip_of n1 = r")
      case True
      then show ?thesis using Inr a by (intro exI [of _ "Suc 0"]) (auto simp: s_def split: option.split)
    next
      case False
      then obtain most where most: "r = Some most" "tip_of n1 \<noteq> Some most" by auto
      have l: "loses n n1" and mw: "most \<in> set (setBlockIndexCandidates n1)" "usable n1 most"
        using fm Inr a most(1) by (simp_all add: most_work_def)
      have ok1: "node_ok n1" by (rule loses_ok [OF l 1(2)])
      define pb where "pb = (case pblock of Some b \<Rightarrow> if block_hash (node (conn E)) b = phashBlock (blk n1 most) then Some b else None
                         | None \<Rightarrow> None)"
      have run: "ActivateBestChain (Suc k) E st pblock n = (case ActivateBestChainStep E st most pb n1 of
              Inl e \<Rightarrow> Some (Inl e)
            | Inr (n, st, False) \<Rightarrow> Some (Inr (n, st, False))
            | Inr (n, st, True) \<Rightarrow>
                if tip_of n = Some most then Some (FlushStateToDisk E FLUSH_STATE_PERIODIC st n)
                else ActivateBestChain k E st pblock n)" for k
        using Inr a most by (simp add: s_def pb_def)
      show ?thesis
      proof (cases "\<exists>n2 st2. ActivateBestChainStep E st most pb n1 = Inr (n2, st2, True) \<and> tip_of n2 \<noteq> Some most")
        case False
        then have "ActivateBestChain (Suc 0) E st pblock n \<noteq> None" unfolding run by (auto split: sum.split prod.split bool.split)
        then show ?thesis by blast
      next
        case True
        then obtain n2 st2 where s2: "ActivateBestChainStep E st most pb n1 = Inr (n2, st2, True)" "tip_of n2 \<noteq> Some most" by blast
        have mk: "most \<in> known (tree (index n1))" using mw(1) node_ok_parts(4) [OF ok1] by blast
        have "intact_blocks E pb" using assms(1) by (auto simp: intact_blocks_def pb_def split: option.splits)
        from intact_uncorrupted [OF this] have r: "step_result True n1 most n2"
          using ActivateBestChainStep_result [OF ok1 mk s2(1)] by simp
        have "(n2, n) \<in> progress"
          by (rule progress_trans [OF step_progress [OF ok1 mw(2) mk r s2(2)] loses_measures [OF 1(2) l]])
        moreover have "node_ok n2" using r by (simp add: step_result_def advances_def)
        ultimately obtain k where "ActivateBestChain k E st2 pblock n2 \<noteq> None"
          using 1(1) [rule_format, of n2 st2] unfolding progress_def by blast
        then have "ActivateBestChain (Suc k) E st pblock n \<noteq> None" unfolding run s2(1) using s2(2) by simp
        then show ?thesis by blast
      qed
    qed
  qed
qed


text \<open>When it succeeds, no candidate has more work than the tip.\<close>

lemma not_work_less:
  assumes "node_ok n" "a \<in> known (tree (index n))" "b \<in> known (tree (index n))" "\<not> work_less (tree (index n)) a b"
  shows "work (tree (index n)) b \<le> work (tree (index n)) a"
  using assms by (auto simp: node_ok_def cs_wf_def work_ok_def work_less_iff work_def)

definition no_better :: "node_state \<Rightarrow> bool" where
  "no_better n \<longleftrightarrow> (\<forall>c \<in> set (setBlockIndexCandidates n). \<exists>t. tip_of n = Some t \<and> work (tree (index n)) c \<le> work (tree (index n)) t)"

lemma no_better_advances:
  assumes "node_ok n" "most_work n (Some m)" "advances n n'" "tip_of n' = Some m"
  shows "no_better n'"
proof -
  note same = advances_tree [OF assms(3)] and ks = node_ok_parts(4) [OF assms(1)]
  have "work (tree (index n)) c \<le> work (tree (index n)) m" if "c \<in> set (setBlockIndexCandidates n')" for c
    using that assms(2,3) ks by (intro not_work_less [OF assms(1)]) (auto simp: most_work_def advances_def more_failed_def)
  then show ?thesis using assms(4) by (auto simp: no_better_def same_tree_work [OF same])
qed

lemma ActivateBestChain_result:
  assumes "node_ok n" "ActivateBestChain rounds E st pblock n = Some (Inr (n', st', True))"
  shows "advances n n' \<and> no_better n'"
  using assms
proof (induction rounds arbitrary: n st)
  case (Suc rounds)
  define s where "s = FindMostWorkChain (Suc (length (setBlockIndexCandidates n))) n"
  have "card (set (setBlockIndexCandidates n)) < Suc (length (setBlockIndexCandidates n))" using card_length le_imp_less_Suc by blast
  note fm = FindMostWorkChain_finds [OF Suc.prems(1) this, folded s_def]
  obtain n1 r where s: "s = Inr (n1, r)" using Suc.prems(2) by (cases s) (auto simp: s_def)
  have l: "loses n n1" "most_work n1 r" using fm s by simp_all
  have ok1: "node_ok n1" by (rule loses_ok [OF l(1) Suc.prems(1)])
  have ad1: "advances n n1" using l(1) Suc.prems(1) by (simp add: loses_def advances_marks)
  show ?case
  proof (cases r)
    case None
    then show ?thesis using Suc.prems(2) s ad1 l(2) by (simp add: s_def most_work_def no_better_def)
  next
    case (Some most)
    have mk: "most \<in> known (tree (index n1))" using l(2) Some node_ok_parts(4) [OF ok1] by (auto simp: most_work_def)
    show ?thesis
    proof (cases "tip_of n1 = Some most")
      case True
      then have "n' = n1" using Suc.prems(2) s Some by (simp add: s_def)
      then show ?thesis using ad1 no_better_advances [OF ok1 _ advances_refl [OF ok1] True] l(2) Some by simp
    next
      case False
      define pb where "pb = (case pblock of Some b \<Rightarrow> if block_hash (node (conn E)) b = phashBlock (blk n1 most) then Some b else None
                         | None \<Rightarrow> None)"
      have run: "(case ActivateBestChainStep E st most pb n1 of
              Inl e \<Rightarrow> Some (Inl e)
            | Inr (n, st, False) \<Rightarrow> Some (Inr (n, st, False))
            | Inr (n, st, True) \<Rightarrow>
                if tip_of n = Some most then Some (FlushStateToDisk E FLUSH_STATE_PERIODIC st n)
                else ActivateBestChain rounds E st pblock n) = Some (Inr (n', st', True))"
        using Suc.prems(2) s Some False by (simp add: s_def pb_def)
      then obtain n2 st2 where s2: "ActivateBestChainStep E st most pb n1 = Inr (n2, st2, True)"
        by (auto split: sum.split_asm prod.split_asm bool.split_asm)
      have ad2: "advances n1 n2" using ActivateBestChainStep_result [OF ok1 mk s2] by (simp add: step_result_def)
      have ok2: "node_ok n2" using ad2 by (simp add: advances_def)
      show ?thesis
      proof (cases "tip_of n2 = Some most")
        case True
        then have f: "FlushStateToDisk E FLUSH_STATE_PERIODIC st2 n2 = Inr (n', st', True)" using run s2 by simp
        have "more_failed n2 n'" using FlushStateToDisk_marks [OF f] flush_result [OF f] by (simp add: more_failed_def same_failed_def)
        then have ad3: "advances n2 n'" "tip_of n' = Some most"
          using FlushStateToDisk_marks [OF f] ok2 True by (auto simp: advances_marks only_marks_fields(1))
        have "advances n1 n'" by (rule advances_trans [OF ad2 ad3(1)])
        then show ?thesis using no_better_advances [OF ok1 _ _ ad3(2)] l(2) Some advances_trans [OF ad1] by simp
      next
        case False
        then have "ActivateBestChain rounds E st2 pblock n2 = Some (Inr (n', st', True))" using run s2 by simp
        then have "advances n2 n' \<and> no_better n'" by (rule Suc.IH [OF ok2])
        then show ?thesis using advances_trans [OF ad1 advances_trans [OF ad2]] by simp
      qed
    qed
  qed
qed simp

section \<open>A corrupted block\<close>

lemma fork_is_tip:
  assumes ok: "node_ok n" and m: "most \<in> known (tree (index n))" and t: "tip_of n = Some t" "pprev (blk n most) = Some t"
  shows "chain_FindFork (tree (index n)) (chainActive n) (Some most) = Inr (Some t)"
proof -
  let ?T = "tree (index n)"
  note wf = node_ok_parts(2) [OF ok]
  note c = chain_of_tip [OF wf node_ok_parts(3) [OF ok] t(1)]
  have ht: "BlockIndex.nHeight (blk n most) = BlockIndex.nHeight (blk n t) + 1" "0 \<le> BlockIndex.nHeight (blk n t)"
    using wf m c(3) t(2) by (auto simp: btree_wf_def linked_def)
  have selfs: "ancestor_at ?T t (BlockIndex.nHeight (blk n t)) = Some t" "ancestor_at ?T most (BlockIndex.nHeight (blk n most)) = Some most"
    using wf m c(3) by (auto simp: btree_wf_def linked_def)
  have up: "ancestor_at ?T most (BlockIndex.nHeight (blk n t)) = Some t"
    using ancestor_at_pprev [OF wf m t(2), of "BlockIndex.nHeight (blk n t)"] ht selfs(1) by simp
  have ct: "chain_Contains ?T (chainActive n) t" using c(1) selfs(1) by (simp add: chain_Contains_def)
  have cm: "\<not> chain_Contains ?T (chainActive n) most" using c(1) ht(1) by (simp add: chain_Contains_def ancestor_at_def)
  obtain r where r: "chain_FindFork ?T (chainActive n) (Some most) = Inr r" "highest_common ?T (chainActive n) most r"
    using chain_FindFork_correct [OF wf m, of "chainActive n"] by blast
  obtain f g where g: "r = Some f" "chain_Contains ?T (chainActive n) f" "ancestor_at ?T most g = Some f"
      "\<forall>h q. g < h \<longrightarrow> ancestor_at ?T most h = Some q \<longrightarrow> \<not> chain_Contains ?T (chainActive n) q"
    using r(2) up ct by (cases r) (auto simp: highest_common_def)
  have "\<not> g < BlockIndex.nHeight (blk n t)" using g(4) up ct by blast
  moreover have "g \<noteq> BlockIndex.nHeight (blk n most)" using g(2,3) cm selfs(2) by auto
  ultimately have "g = BlockIndex.nHeight (blk n t)" using ancestor_height [OF wf m g(3)] ht(1) by linarith
  then show ?thesis using g(1,3) up r(1) by simp
qed

lemma corrupt_ConnectTip:
  assumes t: "pprev (blk n p) = tip_of n" and b: "ReadBlockFromDisk E (tree (index n)) p = Some block"
    and c: "\<not> fChecked block" "CheckBlockHeader (node (conn E)) block vs_init True = (True, vs_init)"
      "\<not> intact (hashes (node (conn E))) block"
  shows "\<exists>st. ConnectTip E vs_init p None n = Inr (n, st, False) \<and> vs_IsInvalid st \<and> corruptionPossible st"
proof -
  let ?root = "BlockMerkleRoot (hashes (node (conn E))) (vtx block)"
  obtain reason where k: "CheckBlock (node (conn E)) (tree (index n)) (chainActive n) block vs_init True True =
      check_result block (DoS 100 False REJECT_INVALID reason True [] vs_init)"
  proof (cases "hdr_hashMerkleRoot block = fst ?root")
    case True
    then have "snd ?root" using c(3) by (cases ?root) (auto simp: intact_def)
    then show ?thesis using True c(1,2) that [of "''bad-txns-duplicate''"] by (simp add: CheckBlock_def Let_def)
  next
    case False
    then show ?thesis using c(1,2) that [of "''bad-txnmrklroot''"] by (simp add: CheckBlock_def Let_def)
  qed
  let ?st = "snd (DoS 100 False REJECT_INVALID reason True [] vs_init)"
  have st: "vs_IsInvalid ?st \<and> corruptionPossible ?st" by (simp add: DoS_def vs_IsInvalid_def vs_init_def Let_def)
  have "ConnectTip E vs_init p None n = Inr (n, ?st, False)"
    using t b st by (simp add: ConnectTip_def ConnectBlock_def Let_def k check_result_def lift_node_def reject_block_def InvalidBlockFound_def)
  then show ?thesis using st by blast
qed

lemma corrupt_step:
  assumes ok: "node_ok n" and m: "most \<in> known (tree (index n))" and t: "tip_of n = Some t" "pprev (blk n most) = Some t"
    and c: "ConnectTip E vs_init most None n = Inr (n, st, False)" "vs_IsInvalid st" "corruptionPossible st"
  shows "ActivateBestChainStep E vs_init most None n = Inr (n, vs_init, True)"
proof -
  let ?T = "tree (index n)"
  note wf = node_ok_parts(2) [OF ok]
  have tk: "t \<in> known ?T" by (rule tip_known [OF ok t(1)])
  have ht: "BlockIndex.nHeight (blk n most) = BlockIndex.nHeight (blk n t) + 1" "0 \<le> BlockIndex.nHeight (blk n t)"
    using wf m tk t(2) by (auto simp: btree_wf_def linked_def)
  have self: "ancestor_at ?T most (BlockIndex.nHeight (blk n most)) = Some most"
    using wf m by (auto simp: btree_wf_def linked_def)
  have ga: "GetAncestor ?T most (BlockIndex.nHeight (blk n most)) = Inr (Some most)"
    using GetAncestor_correct [OF wf m] self by simp
  have cl: "connect_list E vs_init (Some t) most most None [most] n = Inr (n, vs_init, Invalid_found)"
    using c by simp
  have mn: "min (BlockIndex.nHeight (blk n t) + 32) (BlockIndex.nHeight (blk n most)) = BlockIndex.nHeight (blk n most)" using ht(1) by simp
  have f1: "nat (BlockIndex.nHeight (blk n most) - BlockIndex.nHeight (blk n t)) = Suc 0" "BlockIndex.nHeight (blk n t) \<noteq> BlockIndex.nHeight (blk n most)"
    using ht(1) by auto
  have bb: "blocks_between ?T (nat (BlockIndex.nHeight (blk n most)) + 1) (BlockIndex.nHeight (blk n t)) (Some most) = [most]"
    using ht t(2) by (cases "nat (BlockIndex.nHeight (blk n most))") auto
  have cu: "connect_up (Suc 0) E vs_init (Some t) most None (BlockIndex.nHeight (blk n t)) n = Inr (n, vs_init, Invalid_found)"
    unfolding connect_up.simps [of "Suc 0"] if_not_P [OF f1(2)] nat.case Let_def mn ga node_fault_of.simps sum_bind.simps bb
    using cl by simp
  show ?thesis
    using cu t(1) f1(1) by (simp add: ActivateBestChainStep_def Let_def fork_is_tip [OF ok m t] del: connect_up.simps)
qed

lemma corrupt_activation:
  assumes "node_ok n" "FindMostWorkChain (Suc (length (setBlockIndexCandidates n))) n = Inr (n, Some most)" "most \<in> known (tree (index n))"
    "tip_of n = Some t" "pprev (blk n most) = Some t" "ReadBlockFromDisk E (tree (index n)) most = Some block"
    "\<not> fChecked block" "CheckBlockHeader (node (conn E)) block vs_init True = (True, vs_init)" "\<not> intact (hashes (node (conn E))) block"
  shows "ActivateBestChain rounds E vs_init None n = None"
proof (induction rounds)
  case (Suc rounds)
  have "most \<noteq> t" using assms(1,3,5) node_ok_parts(2) [OF assms(1)] by (auto simp: btree_wf_def linked_def)
  moreover have "pprev (blk n most) = tip_of n" using assms(4,5) by simp
  then obtain st where c: "ConnectTip E vs_init most None n = Inr (n, st, False)" "vs_IsInvalid st" "corruptionPossible st"
    using corrupt_ConnectTip [OF _ assms(6-9)] by blast
  ultimately show ?case using Suc.IH assms(2,4) corrupt_step [OF assms(1,3-5) c] by simp
qed simp

end
