(* ===== verification/Supply.thy ===== *)
theory Supply
  imports ConnectBlock StandardScripts
begin

text \<open>
  The value of the unspent outputs.  Connecting a block changes it by what its transactions take and
  give: no block creates more than its subsidy, whatever is wrong with it that the checks miss.
\<close>

section \<open>The value of coins\<close>

definition out_value :: "CTxOut \<Rightarrow> CAmount" where
  "out_value out = (if txout_IsNull out then 0 else nValue out)"

definition coin_value :: "CCoins \<Rightarrow> CAmount" where
  "coin_value c = sum_list (map out_value (c_vout c))"

definition value_at :: "(uint256 \<Rightarrow> CCoins option) \<Rightarrow> uint256 \<Rightarrow> CAmount" where
  "value_at D k = (case D k of None \<Rightarrow> 0 | Some c \<Rightarrow> coin_value c)"

definition total_value :: "(uint256 \<Rightarrow> CCoins option) \<Rightarrow> CAmount" where
  "total_value D = (\<Sum>k \<in> dom D. value_at D k)"

definition unspent :: "(uint256 \<Rightarrow> CCoins option) \<Rightarrow> COutPoint \<Rightarrow> CTxOut option" where
  "unspent D out = (case out of COutPoint h n \<Rightarrow>
     (case D h of None \<Rightarrow> None | Some c \<Rightarrow> if IsAvailable c (unat n) then Some (c_vout c ! unat n) else None))"

definition spent_value :: "(uint256 \<Rightarrow> CCoins option) \<Rightarrow> CTxIn list \<Rightarrow> CAmount" where
  "spent_value D ins = sum_list (map (\<lambda>i. case unspent D (prevout i) of None \<Rightarrow> 0 | Some out \<Rightarrow> nValue out) ins)"

lemma out_value_null [simp]: "out_value txout_null = 0"
  by (simp add: out_value_def)

lemma cleanup_vout_value: "sum_list (map out_value (cleanup_vout v)) = sum_list (map out_value v)"
proof (induction v rule: cleanup_vout.induct)
  case (1 v)
  show ?case
  proof (cases "length v > 0 \<and> txout_IsNull (v ! (length v - 1))")
    case True
    then have e: "cleanup_vout v = cleanup_vout (butlast v)" by (subst cleanup_vout.simps) simp
    obtain w z where v: "v = w @ [z]" using True by (cases v rule: rev_cases) auto
    have "out_value z = 0" using True by (simp add: out_value_def v)
    then show ?thesis using "1.IH" [OF True] unfolding e by (simp add: v)
  next
    case False
    then have "cleanup_vout v = v" by (subst cleanup_vout.simps) auto
    then show ?thesis by simp
  qed
qed

lemma coin_value_Cleanup [simp]: "coin_value (Cleanup c) = coin_value c"
  by (simp add: coin_value_def cleanup_vout_value)

lemma coin_value_pruned: "IsPruned c \<Longrightarrow> coin_value c = 0"
proof -
  assume "IsPruned c"
  then have e: "map out_value (c_vout c) = map (\<lambda>_. 0) (c_vout c)"
    by (intro map_cong refl) (simp add: IsPruned_def list_all_iff out_value_def)
  show ?thesis unfolding coin_value_def e by simp
qed

lemma coin_value_spend:
  assumes "spend_input n c = Some (u, x)"
  shows "coin_value x = coin_value c - nValue (c_vout c ! n)"
proof -
  have a: "IsAvailable c n" "x = Cleanup (c\<lparr>c_vout := (c_vout c)[n := txout_null]\<rparr>)"
    using assms by (auto simp: spend_input_Some)
  then have "n < length (map out_value (c_vout c))" "out_value (c_vout c ! n) = nValue (c_vout c ! n)"
    by (simp_all add: IsAvailable_def out_value_def)
  then show ?thesis using sum_list_update_int [of n "map out_value (c_vout c)" 0]
    by (simp add: a(2) coin_value_def cleanup_vout_value map_update)
qed

lemma coin_value_FromTx:
  assumes "\<forall>out \<in> set (vout tx). 0 \<le> nValue out"
  shows "coin_value (FromTx tx h) \<le> sum_list (map nValue (vout tx))"
proof -
  have "coin_value (FromTx tx h) = sum_list (map (\<lambda>out. out_value (if IsUnspendable (scriptPubKey out) then txout_null else out)) (vout tx))"
    by (simp add: FromTx_def ClearUnspendable_def coin_value_def cleanup_vout_value comp_def)
  also have "\<dots> \<le> sum_list (map nValue (vout tx))"
    using assms by (intro sum_list_mono) (auto simp: out_value_def)
  finally show ?thesis .
qed

lemma total_value_superset:
  assumes "finite A" "dom D \<subseteq> A"
  shows "total_value D = (\<Sum>k \<in> A. value_at D k)"
  unfolding total_value_def using assms by (intro sum.mono_neutral_left) (auto simp: value_at_def split: option.splits)

lemma value_at_upd: "value_at (D(k := abs_coins x)) j = (if j = k then coin_value x else value_at D j)"
  by (simp add: value_at_def abs_coins_def coin_value_pruned)

lemma total_value_upd:
  assumes "finite (dom D)"
  shows "total_value (D(k := abs_coins x)) = total_value D - value_at D k + coin_value x"
proof -
  let ?A = "insert k (dom D)"
  have f: "finite ?A" using assms by simp
  have "total_value (D(k := abs_coins x)) = (\<Sum>j \<in> ?A. value_at (D(k := abs_coins x)) j)"
    using f by (rule total_value_superset) (auto split: if_splits)
  also have "\<dots> = coin_value x + (\<Sum>j \<in> ?A - {k}. value_at D j)"
    using f by (simp add: sum.remove [of _ k] value_at_upd)
  also have "(\<Sum>j \<in> ?A - {k}. value_at D j) = total_value D - value_at D k"
    using f total_value_superset [of ?A D] by (simp add: sum.remove [of ?A k] subset_insertI)
  finally show ?thesis by linarith
qed

lemma finite_dom_upd: "finite (dom D) \<Longrightarrow> finite (dom (D(k := x)))"
  by (auto simp: dom_def intro: finite_subset [of _ "insert k (dom D)"])

section \<open>Spending\<close>

lemma spend_available:
  assumes "spend_input n c = Some (u, x)" "IsAvailable x m"
  shows "IsAvailable c m \<and> c_vout x ! m = c_vout c ! m"
proof -
  have x: "x = Cleanup (c\<lparr>c_vout := (c_vout c)[n := txout_null]\<rparr>)" using assms(1) by (auto simp: spend_input_Some)
  have a: "m < length (c_vout c)" "\<not> txout_IsNull ((c_vout c)[n := txout_null] ! m)"
    using assms(2) unfolding x IsAvailable_Cleanup by (simp_all add: IsAvailable_def)
  then have "m \<noteq> n" by auto
  then have e: "(c_vout c)[n := txout_null] ! m = c_vout c ! m" by simp
  have "m < length (cleanup_vout ((c_vout c)[n := txout_null]))"
    using assms(2) unfolding x IsAvailable_def by simp
  then show ?thesis using a e cleanup_vout_nth [of m "(c_vout c)[n := txout_null]"]
    by (simp add: x IsAvailable_def)
qed

lemma spend_unavailable: "spend_input n c = Some (u, x) \<Longrightarrow> \<not> IsAvailable x n"
  by (auto simp: spend_input_Some) (simp add: IsAvailable_def)

lemma unspent_after_spend:
  assumes "D k = Some t" "spend_input n t = Some (u, x)" "unspent (D(k := abs_coins x)) out = Some o'"
  shows "unspent D out = Some o'"
  using assms spend_available [OF assms(2)]
  by (auto simp: unspent_def abs_coins_def split: COutPoint.splits option.splits if_splits)

section \<open>Reading keeps the content\<close>

definition kept ::
  "('v \<Rightarrow> bool) \<Rightarrow> ('v \<Rightarrow> uint256 \<Rightarrow> CCoins option) \<Rightarrow> 'v CCoinsViewCache \<Rightarrow> 'v CCoinsViewCache \<Rightarrow> bool" where
  \<comment> \<open>a cache that was only read stands for the same map\<close>
  "kept vinv contents c c' \<longleftrightarrow> cache_ok vinv contents c' \<and> cache_contents contents c' = cache_contents contents c \<and>
     contents (base c') = contents (base c)"

definition sound_view :: "('v \<Rightarrow> bool) \<Rightarrow> ('v \<Rightarrow> uint256 \<Rightarrow> CCoins option) \<Rightarrow> 'v CCoinsViewCache \<Rightarrow> bool" where
  "sound_view vinv contents c \<longleftrightarrow> cache_ok vinv contents c \<and> contents_wf (cache_contents contents c) \<and>
     finite (dom (cache_contents contents c))"

lemma kept_refl: "cache_ok vinv contents c \<Longrightarrow> kept vinv contents c c"
  by (simp add: kept_def)

lemma kept_trans: "kept vinv contents c c1 \<Longrightarrow> kept vinv contents c1 c2 \<Longrightarrow> kept vinv contents c c2"
  by (simp add: kept_def)

lemma kept_ok: "kept vinv contents c c' \<Longrightarrow> cache_ok vinv contents c'"
  by (simp add: kept_def)

context coins_view
begin

lemma FetchCoins_kept:
  assumes "cache_ok vinv contents c" "FetchCoins GetC usage c k = (r, c')"
  shows "kept vinv contents c c'" "Option.bind r (\<lambda>e. abs_coins (coins e)) = cache_contents contents c k"
  using FetchCoins_spec [OF assms] by (simp_all add: kept_def)

lemma GetOutputFor_kept:
  assumes "cache_ok vinv contents c" "GetOutputFor GetC usage c i = Some (out, c')"
  shows "kept vinv contents c c' \<and> unspent (cache_contents contents c) (prevout i) = Some out"
proof -
  obtain h n where p: "prevout i = COutPoint h n" by (cases "prevout i")
  then obtain e where f: "FetchCoins GetC usage c h = (Some e, c')" and a: "IsAvailable (coins e) (unat n)" "out = c_vout (coins e) ! unat n"
    using assms(2) by (auto simp: GetOutputFor_def split: prod.splits option.splits if_splits)
  have "cache_contents contents c h = Some (coins e)"
    using FetchCoins_kept(2) [OF assms(1) f] a(1) by (auto simp: abs_coins_def IsPruned_iff split: if_splits)
  then show ?thesis using FetchCoins_kept(1) [OF assms(1) f] p a by (simp add: unspent_def)
qed

lemma have_inputs_kept:
  "cache_ok vinv contents c \<Longrightarrow> have_inputs_loop GetC usage c ins = (b, c') \<Longrightarrow> kept vinv contents c c'"
proof (induction ins arbitrary: c)
  case (Cons i ins)
  let ?k = "Transaction.COutPoint.op_hash (prevout i)"
  obtain r c1 where f: "FetchCoins GetC usage c ?k = (r, c1)" by (cases "FetchCoins GetC usage c ?k") auto
  have k: "kept vinv contents c c1" using FetchCoins_kept(1) [OF Cons.prems(1) f] .
  show ?case using Cons.prems(2) Cons.IH [OF kept_ok [OF k]] kept_trans [OF k] k f
    by (auto split: option.splits if_splits)
qed (auto simp: kept_refl)

lemma value_in_loop_spec:
  "cache_ok vinv contents c \<Longrightarrow> value_in_loop GetC usage c ins acc = Some (v, c') \<Longrightarrow>
   kept vinv contents c c' \<and> v = acc + spent_value (cache_contents contents c) ins"
proof (induction ins arbitrary: c acc)
  case (Cons i ins)
  then obtain out c1 where g: "GetOutputFor GetC usage c i = Some (out, c1)"
    and r: "value_in_loop GetC usage c1 ins (acc + nValue out) = Some (v, c')"
    by (auto split: Option.bind_splits)
  note k = GetOutputFor_kept [OF Cons.prems(1) g]
  have "kept vinv contents c1 c' \<and> v = acc + nValue out + spent_value (cache_contents contents c1) ins"
    using Cons.IH [OF _ r] k by (simp add: kept_def)
  then show ?case using k by (auto simp: kept_def spent_value_def)
qed (auto simp: kept_refl spent_value_def)

lemma IsInputBanned_kept:
  assumes "cache_ok vinv contents c" "IsInputBanned E GetC usage i c = Inr (b, c')"
  shows "kept vinv contents c c'"
proof -
  obtain out c1 where g: "GetOutputFor GetC usage c i = Some (out, c1)" and
    r: "(case Solver (scriptPubKey out) of (ok, whichType, vSolutions) \<Rightarrow>
          if \<not> ok then Inr (True, c1)
          else if whichType = TX_PUBKEYHASH
          then sum_bind (script_result (EvalScript (hashes (node E)) [] (scriptSig i) SCRIPT_VERIFY_P2SH no_checker)) (\<lambda>res.
            case res of
              None \<Rightarrow> Inr (True, c1)
            | Some [] \<Rightarrow> Inl (Fault (Exception ''vector::_M_range_check''))
            | Some (vchPubKey # rest) \<Rightarrow>
                let pubkey = pubkey_Set (key_mem E) vchPubKey in
                if \<not> pubkey_IsValid pubkey then Inr (True, c1)
                else if list_ex (\<lambda>bannedAddress. CKeyID (pubkey_GetID (hashes (node E)) pubkey) = bannedAddress) (banned E)
                then Inr (True, c1) else Inr (False, c1))
          else Inr (False, c1)) = Inr (b, c')"
    using assms(2) unfolding IsInputBanned_def Let_def
    by (cases "GetOutputFor GetC usage c i") (auto simp: asserted_def)
  have "c' = c1"
  proof (cases "script_result (EvalScript (hashes (node E)) [] (scriptSig i) SCRIPT_VERIFY_P2SH no_checker)")
    case (Inl e)
    with r show ?thesis by (simp split: prod.splits if_splits)
  next
    case (Inr res)
    show ?thesis
    proof (cases res)
      case None
      with Inr r show ?thesis by (simp split: prod.splits if_splits)
    next
      case (Some stack)
      with Inr r show ?thesis by (cases stack) (simp_all add: Let_def split: prod.splits if_splits)
    qed
  qed
  then show ?thesis using GetOutputFor_kept [OF assms(1) g] by blast
qed

lemma txin_loop_kept:
  "cache_ok vinv contents c \<Longrightarrow> txin_loop E GetC usage st h ins acc c = Inr (v, c') \<Longrightarrow> kept vinv contents c c'"
proof (induction ins arbitrary: c acc)
  case (Cons i ins)
  obtain k n where p: "prevout i = COutPoint k n" by (cases "prevout i")
  obtain r c1 where f: "FetchCoins GetC usage c k = (r, c1)" by (cases "FetchCoins GetC usage c k") auto
  have k1: "kept vinv contents c c1" using FetchCoins_kept(1) [OF Cons.prems(1) f] .
  have ban: "IsInputBanned E GetC usage i c1 = Inr (b, c2) \<Longrightarrow> kept vinv contents c1 c2" for b c2
    using IsInputBanned_kept [OF kept_ok [OF k1]] .
  obtain acc' c2 where "kept vinv contents c1 c2" and r: "txin_loop E GetC usage st h ins acc' c2 = Inr (v, c')"
    using Cons.prems(2) p f kept_refl [OF kept_ok [OF k1]]
    by (auto simp: reject_def sum_bind_Inr_iff Let_def split: option.splits if_splits prod.splits dest!: ban)
  then show ?case using Cons.IH [OF _ r] k1 kept_trans kept_ok by blast
qed (auto simp: kept_refl)

lemma CheckTxInputs_kept:
  assumes "cache_ok vinv contents c" "CheckTxInputs E GetC usage tx st h c = Inr c'"
  shows "kept vinv contents c c'"
proof -
  obtain b c1 where hi: "HaveInputs GetC usage c tx = (b, c1)" by (cases "HaveInputs GetC usage c tx") auto
  have k: "kept vinv contents c c1"
    using hi have_inputs_kept [OF assms(1)] kept_refl [OF assms(1)] by (auto simp: HaveInputs_def split: if_splits)
  obtain v where "txin_loop E GetC usage st h (vin tx) 0 c1 = Inr (v, c')"
    using assms(2) hi by (cases b) (auto simp: CheckTxInputs_def reject_def sum_bind_Inr_iff Let_def split: if_splits)
  then show ?thesis using txin_loop_kept [OF kept_ok [OF k]] kept_trans [OF k] by blast
qed

lemma GetBestBlock_kept:
  "cache_ok vinv contents c \<Longrightarrow> cache_GetBestBlock best c = (h, c') \<Longrightarrow> kept vinv contents c c'"
  by (auto simp: cache_GetBestBlock_def Let_def kept_def cache_ok_def cache_contents_def fun_eq_iff split: if_splits option.split)

lemma GetSpendHeight_kept:
  assumes "cache_ok vinv contents c" "GetSpendHeight S best c = Inr (h, c')"
  shows "kept vinv contents c c'"
proof -
  obtain b c1 where g: "cache_GetBestBlock best c = (b, c1)" by (cases "cache_GetBestBlock best c") auto
  then have "c' = c1" using assms(2) by (auto simp: GetSpendHeight_def sum_bind_Inr_iff)
  then show ?thesis using GetBestBlock_kept [OF assms(1) g] by simp
qed

lemma script_failed_Inl [simp]: "script_failed E c e st \<noteq> Inr x"
  by (auto simp: script_failed_def reject_def sum_bind_Inr_iff split: if_splits)

lemma script_loop_kept:
  "cache_ok vinv contents c \<Longrightarrow> script_loop E GetC usage tx st fl pv is c = Inr (cs, c') \<Longrightarrow> kept vinv contents c c'"
proof (induction "is" arbitrary: c cs)
  case (Cons i ins)
  obtain k n where p: "prevout (vin tx ! i) = COutPoint k n" by (cases "prevout (vin tx ! i)")
  obtain r c1 where f: "FetchCoins GetC usage c k = (r, c1)" by (cases "FetchCoins GetC usage c k") auto
  have k1: "kept vinv contents c c1" using FetchCoins_kept(1) [OF Cons.prems(1) f] .
  obtain cs' where r: "script_loop E GetC usage tx st fl pv ins c1 = Inr (cs', c')"
    using Cons.prems(2) p f
    by (auto simp: sum_bind_Inr_iff Let_def split: option.splits if_splits sum.splits script_stop.splits)
  then show ?case using Cons.IH [OF kept_ok [OF k1] r] k1 kept_trans by blast
qed (auto simp: kept_refl)

lemma CheckInputs_kept:
  assumes "cache_ok vinv contents c" "CheckInputs E S GetC usage best tx st fs fl pv c = Inr (cs, c')"
  shows "kept vinv contents c c'"
proof (cases "IsCoinBase tx")
  case True
  then show ?thesis using assms by (simp add: CheckInputs_def kept_refl)
next
  case False
  then obtain h c1 c2 where r: "GetSpendHeight S best c = Inr (h, c1)" "CheckTxInputs E GetC usage tx st h c1 = Inr c2"
    "(if fs then script_loop E GetC usage tx st fl pv [0..<length (vin tx)] c2 else Inr ([], c2)) = Inr (cs, c')"
    using assms(2) by (auto simp: CheckInputs_def sum_bind_Inr_iff)
  have k1: "kept vinv contents c c1" using GetSpendHeight_kept [OF assms(1) r(1)] .
  have k2: "kept vinv contents c c2" using CheckTxInputs_kept [OF kept_ok [OF k1] r(2)] kept_trans [OF k1] by blast
  show ?thesis
  proof (cases fs)
    case True
    then show ?thesis using r(3) script_loop_kept [OF kept_ok [OF k2]] kept_trans [OF k2] by (simp; blast)
  qed (use r(3) k2 in simp)
qed

lemma coin_heights_kept:
  "cache_ok vinv contents c \<Longrightarrow> coin_heights GetC usage ins c = Inr (hs, c') \<Longrightarrow> kept vinv contents c c'"
proof (induction ins arbitrary: c hs)
  case (Cons i ins)
  obtain k n where p: "prevout i = COutPoint k n" by (cases "prevout i")
  obtain r c1 where f: "FetchCoins GetC usage c k = (r, c1)" by (cases "FetchCoins GetC usage c k") auto
  have k1: "kept vinv contents c c1" using FetchCoins_kept(1) [OF Cons.prems(1) f] .
  obtain hs' where r: "coin_heights GetC usage ins c1 = Inr (hs', c')"
    using Cons.prems(2) p f by (auto simp: sum_bind_Inr_iff split: option.splits)
  then show ?case using Cons.IH [OF kept_ok [OF k1] r] k1 kept_trans by blast
qed (auto simp: kept_refl)

lemma p2sh_sigops_kept:
  "cache_ok vinv contents c \<Longrightarrow> p2sh_sigops GetC usage ins c = Inr (n, c') \<Longrightarrow> kept vinv contents c c'"
proof (induction ins arbitrary: c n)
  case (Cons i ins)
  then obtain out c1 n' where g: "GetOutputFor GetC usage c i = Some (out, c1)" and r: "p2sh_sigops GetC usage ins c1 = Inr (n', c')"
    by (auto simp: sum_bind_Inr_iff asserted_def split: option.splits)
  have k1: "kept vinv contents c c1" using GetOutputFor_kept [OF Cons.prems(1) g] by blast
  then show ?case using Cons.IH [OF kept_ok [OF k1] r] kept_trans by blast
qed (auto simp: kept_refl)

lemma overwrites_kept:
  "cache_ok vinv contents c \<Longrightarrow> overwrites GetC usage txs c = (b, c') \<Longrightarrow> kept vinv contents c c'"
proof (induction txs arbitrary: c)
  case (Cons tx txs)
  obtain r c1 where f: "FetchCoins GetC usage c (tx_hash tx) = (r, c1)" by (cases "FetchCoins GetC usage c (tx_hash tx)") auto
  have k: "kept vinv contents c c1" using FetchCoins_kept(1) [OF Cons.prems(1) f] .
  show ?case using Cons.prems(2) Cons.IH [OF kept_ok [OF k]] kept_trans [OF k] k f
    by (auto split: option.splits if_splits)
qed (auto simp: kept_refl)

lemma spend_inputs_total:
  "cache_ok vinv contents c \<Longrightarrow> contents_wf (cache_contents contents c) \<Longrightarrow> finite (dom (cache_contents contents c)) \<Longrightarrow>
   spend_inputs GetC usage c ins = Some (us, c') \<Longrightarrow>
   finite (dom (cache_contents contents c')) \<and>
   total_value (cache_contents contents c') = total_value (cache_contents contents c) - spent_value (cache_contents contents c) ins \<and>
   (\<forall>i \<in> set ins. unspent (cache_contents contents c) (prevout i) \<noteq> None)"
proof (induction ins arbitrary: c us)
  case (Cons i ins)
  obtain k n where p: "prevout i = COutPoint k n" by (cases "prevout i")
  let ?D = "cache_contents contents c"
  from Cons.prems(4) p obtain u c1 us1 where
    s: "with_coins GetC usage k (spend_input (unat n)) c = Some (u, c1)" and r: "spend_inputs GetC usage c1 ins = Some (us1, c')"
    by (auto split: Option.bind_splits)
  obtain t x where t: "?D k = Some t" "spend_input (unat n) t = Some (u, x)" "coins_wf x"
    "cache_ok vinv contents c1" "cache_contents contents c1 = ?D(k := abs_coins x)"
    using spend_step [OF Cons.prems(1,2) s] by blast
  have wf1: "contents_wf (cache_contents contents c1)" using contents_wf_upd [OF Cons.prems(2) t(3)] t(5) by simp
  have fin1: "finite (dom (cache_contents contents c1))" unfolding t(5) by (rule finite_dom_upd [OF Cons.prems(3)])
  note IH = Cons.IH [OF t(4) wf1 fin1 r]
  have u: "unspent ?D (prevout i) = Some (c_vout t ! unat n)" using t(1,2) p by (auto simp: unspent_def spend_input_Some)
  have t1: "total_value (cache_contents contents c1) = total_value ?D - nValue (c_vout t ! unat n)"
    unfolding t(5) total_value_upd [OF Cons.prems(3)] coin_value_spend [OF t(2)] using t(1) by (simp add: value_at_def)
  have keep: "unspent ?D (prevout j) = unspent (cache_contents contents c1) (prevout j)" if "j \<in> set ins" for j
  proof -
    obtain out where "unspent (cache_contents contents c1) (prevout j) = Some out" using IH \<open>j \<in> set ins\<close> by blast
    then show ?thesis using unspent_after_spend [of ?D k t "unat n" u x] t(1,2,5) by simp
  qed
  then have "spent_value (cache_contents contents c1) ins = spent_value ?D ins"
    unfolding spent_value_def by (intro arg_cong [where f = sum_list] map_cong refl) simp
  then have "total_value (cache_contents contents c') = total_value ?D - spent_value ?D (i # ins)"
    using IH t1 u by (simp add: spent_value_def)
  then show ?case using IH u keep by simp
qed (auto simp: spent_value_def)

lemma spend_inputs_distinct:
  "cache_ok vinv contents c \<Longrightarrow> contents_wf (cache_contents contents c) \<Longrightarrow> finite (dom (cache_contents contents c)) \<Longrightarrow>
   spend_inputs GetC usage c ins = Some (us, c') \<Longrightarrow> distinct (map prevout ins)"
proof (induction ins arbitrary: c us)
  case (Cons i ins)
  obtain k n where p: "prevout i = COutPoint k n" by (cases "prevout i")
  from Cons.prems(4) p obtain u c1 us1 where
    s: "with_coins GetC usage k (spend_input (unat n)) c = Some (u, c1)" and r: "spend_inputs GetC usage c1 ins = Some (us1, c')"
    by (auto split: Option.bind_splits)
  obtain t x where t: "spend_input (unat n) t = Some (u, x)" "coins_wf x"
    "cache_ok vinv contents c1" "cache_contents contents c1 = (cache_contents contents c)(k := abs_coins x)"
    using spend_step [OF Cons.prems(1,2) s] by blast
  have wf1: "contents_wf (cache_contents contents c1)" using contents_wf_upd [OF Cons.prems(2) t(2)] t(4) by simp
  have fin1: "finite (dom (cache_contents contents c1))" unfolding t(4) by (rule finite_dom_upd [OF Cons.prems(3)])
  have "unspent (cache_contents contents c1) (prevout i) = None"
    using spend_unavailable [OF t(1)] p t(4) by (auto simp: unspent_def abs_coins_def)
  moreover have "\<forall>j \<in> set ins. unspent (cache_contents contents c1) (prevout j) \<noteq> None"
    using spend_inputs_total [OF t(3) wf1 fin1 r] by blast
  ultimately have "prevout i \<notin> prevout ` set ins" by auto
  then show ?case using Cons.IH [OF t(3) wf1 fin1 r] by simp
qed simp

lemma UpdateCoins_total:
  assumes ok: "cache_ok vinv contents c" and wf: "contents_wf (cache_contents contents c)"
    and fin: "finite (dom (cache_contents contents c))"
    and up: "UpdateCoins GetC usage tx c h = Some (us, c')" and fw: "coins_wf (FromTx tx h)"
    and new: "cache_contents contents c (tx_hash tx) = None" "contents (base c) (tx_hash tx) = None"
  shows "finite (dom (cache_contents contents c')) \<and> total_value (cache_contents contents c') =
    total_value (cache_contents contents c) - (if IsCoinBase tx then 0 else spent_value (cache_contents contents c) (vin tx)) +
    coin_value (FromTx tx h)"
proof -
  let ?k = "tx_hash tx" and ?D = "cache_contents contents c"
  have upd: "finite (dom (E(?k := abs_coins (FromTx tx h)))) \<and>
      total_value (E(?k := abs_coins (FromTx tx h))) = total_value E + coin_value (FromTx tx h)"
    if "finite (dom E)" "E ?k = None" for E
    using finite_dom_upd [OF that(1)] total_value_upd [OF that(1)] that(2) by (simp add: value_at_def)
  show ?thesis
  proof (cases "IsCoinBase tx")
    case True
    then obtain c'' where w: "with_coins GetC usage ?k (\<lambda>_. Some ((), FromTx tx h)) c = Some ((), c'')" "c' = c''"
      using up by (auto simp: UpdateCoins_def)
    obtain t where "case Some ((), FromTx tx h) of None \<Rightarrow> with_coins GetC usage ?k (\<lambda>_. Some ((), FromTx tx h)) c = None
     | Some (r, x) \<Rightarrow> \<exists>c'. with_coins GetC usage ?k (\<lambda>_. Some ((), FromTx tx h)) c = Some (r, c') \<and> cache_ok vinv contents c' \<and>
         cache_contents contents c' = ?D(?k := abs_coins (Cleanup x)) \<and>
         contents (base c') = contents (base c) \<and> hashBlock c' = hashBlock c"
      using with_coins_spec [OF ok, where k = ?k and f = "\<lambda>_. Some ((), FromTx tx h)" and usage = usage] by blast
    then have "cache_contents contents c' = ?D(?k := abs_coins (FromTx tx h))" using w coins_wf_clean [OF fw] by simp
    then show ?thesis using upd [OF fin new(1)] True by simp
  next
    case False
    then obtain c1 where w: "spend_inputs GetC usage c (vin tx) = Some (us, c1)"
      "with_new_coins usage ?k (\<lambda>_. FromTx tx h) c1 = Some c'"
      using up by (auto simp: UpdateCoins_def split: Option.bind_splits)
    note s = spend_inputs_undo [OF ok wf w(1)] and st = spend_inputs_total [OF ok wf fin w(1)]
    have n1: "cache_contents contents c1 ?k = None" and b1: "contents (base c1) ?k = None" and ok1: "cache_ok vinv contents c1"
      using s new by auto
    have "cache_contents contents c' = (cache_contents contents c1)(?k := abs_coins (FromTx tx h))"
      using with_new_coins_spec [OF ok1 b1, where f = "\<lambda>_. FromTx tx h" and usage = usage] w(2) coins_wf_clean [OF fw] by auto
    then show ?thesis using upd [OF conjunct1 [OF st] n1] st False by simp
  qed
qed

text \<open>
  One transaction: what it adds to the unspent outputs and to the collected fees together is at most
  what a coinbase pays out, and nothing for any other.
\<close>

lemma connect_inputs_total:
  assumes ok: "cache_ok vinv contents (ca_view a)"
    and c: "connect_inputs E S GetC usage best pindex fs fl nl tx st a = Inr a'" and nb: "\<not> IsCoinBase tx"
  shows "kept vinv contents (ca_view a) (ca_view a') \<and> (\<forall>out \<in> set (vout tx). 0 \<le> nValue out) \<and>
    ca_fees a' = ca_fees a + spent_value (cache_contents contents (ca_view a)) (vin tx) - sum_list (map nValue (vout tx))"
proof -
  let ?D = "cache_contents contents (ca_view a)"
  define sigops where "sigops v = (if has_flag fl SCRIPT_VERIFY_P2SH then GetP2SHSigOpCount GetC usage tx v else Inr (0, v))" for v
  from c obtain v1 hs v2 n v3 vi v4 vo ch v5 where
    r: "HaveInputs GetC usage (ca_view a) tx = (True, v1)" "coin_heights GetC usage (vin tx) v1 = Inr (hs, v2)"
      "sigops v2 = Inr (n, v3)"
      "GetValueIn GetC usage v3 tx = Some (vi, v4)" "value_out tx = Inr vo"
      "CheckInputs E S GetC usage best tx st fs fl (script_threads E) v4 = Inr (ch, v5)"
      "ca_view a' = v5" "ca_fees a' = ca_fees a + (vi - vo)"
    unfolding connect_inputs_def sigops_def [symmetric]
    by (auto simp: sum_bind_Inr_iff asserted_def reject_def split: prod.splits bool.splits if_splits option.splits)
  have k1: "kept vinv contents (ca_view a) v1"
    using r(1) have_inputs_kept [OF ok] nb by (simp add: HaveInputs_def)
  have k2: "kept vinv contents (ca_view a) v2" using coin_heights_kept [OF kept_ok [OF k1] r(2)] kept_trans [OF k1] by blast
  have k3: "kept vinv contents (ca_view a) v3"
    using r(3) nb p2sh_sigops_kept [OF kept_ok [OF k2]] kept_trans [OF k2] k2 by (auto simp: sigops_def GetP2SHSigOpCount_def split: if_splits)
  note vi = value_in_loop_spec [OF kept_ok [OF k3], of usage "vin tx" 0 vi v4]
  have "kept vinv contents v3 v4" and v: "vi = spent_value ?D (vin tx)"
    using r(4) nb vi k3 by (simp_all add: GetValueIn_def kept_def)
  then have k4: "kept vinv contents (ca_view a) v4" using kept_trans [OF k3] by blast
  have k5: "kept vinv contents (ca_view a) v5" using CheckInputs_kept [OF kept_ok [OF k4] r(6)] kept_trans [OF k4] by blast
  have "GetValueOut tx = Inr vo" using r(5) by (simp add: value_out_def split: sum.splits unit.splits)
  then have "(\<forall>out \<in> set (vout tx). 0 \<le> nValue out) \<and> vo = sum_list (map nValue (vout tx))"
    by (simp add: GetValueOut_def value_loop_Inr)
  then show ?thesis using k5 r(7,8) v by simp
qed

lemma kept_sound: "kept vinv contents c c' \<Longrightarrow> sound_view vinv contents c \<Longrightarrow> sound_view vinv contents c'"
  by (simp add: kept_def sound_view_def)

lemma connect_tx_total:
  assumes a: "sound_view vinv contents (ca_view a)"
    and c: "connect_tx E S GetC usage best pindex fs fl nl first tx st a = Inr a'"
    and outs: "IsCoinBase tx \<Longrightarrow> \<forall>out \<in> set (vout tx). 0 \<le> nValue out" "length (vout tx) < 2 ^ 32"
    and h: "0 < BlockIndex.nHeight (obj (tree S) pindex)" "BlockIndex.nHeight (obj (tree S) pindex) < 2 ^ 31"
    and new: "cache_contents contents (ca_view a) (tx_hash tx) = None" "contents (base (ca_view a)) (tx_hash tx) = None"
  shows "sound_view vinv contents (ca_view a') \<and> contents (base (ca_view a')) = contents (base (ca_view a)) \<and>
    (\<forall>j. j \<noteq> tx_hash tx \<longrightarrow> cache_contents contents (ca_view a) j = None \<longrightarrow> cache_contents contents (ca_view a') j = None) \<and>
    total_value (cache_contents contents (ca_view a')) + ca_fees a' \<le>
      total_value (cache_contents contents (ca_view a)) + ca_fees a + (if IsCoinBase tx then sum_list (map nValue (vout tx)) else 0)"
proof -
  let ?h = "BlockIndex.nHeight (obj (tree S) pindex)" and ?s = "sum_list (map nValue (vout tx))"
  let ?a0 = "a\<lparr>ca_sigops := ca_sigops a + GetLegacySigOpCount tx\<rparr>"
  let ?D = "cache_contents contents (ca_view a)"
  obtain a1 us v where i: "(if IsCoinBase tx then Inr ?a0 else connect_inputs E S GetC usage best pindex fs fl nl tx st ?a0) = Inr a1"
    and up: "UpdateCoins GetC usage tx (ca_view a1) ?h = Some (us, v)" and a': "ca_view a' = v" "ca_fees a' = ca_fees a1"
    using c by (auto simp: connect_tx_def Let_def reject_def asserted_def sum_bind_Inr_iff simp del: if_split_asm
        split: option.splits if_split_asm)
  have ok: "cache_ok vinv contents (ca_view a)" using a by (simp add: sound_view_def)
  have i1: "kept vinv contents (ca_view a) (ca_view a1) \<and> (\<forall>out \<in> set (vout tx). 0 \<le> nValue out) \<and>
    ca_fees a1 = ca_fees a + (if IsCoinBase tx then 0 else spent_value ?D (vin tx) - ?s)"
    using i outs(1) kept_refl [OF ok] connect_inputs_total [where a = ?a0 and a' = a1 and tx = tx] ok by (fastforce split: if_splits)
  then have k: "kept vinv contents (ca_view a) (ca_view a1)" by blast
  have D: "cache_contents contents (ca_view a1) = ?D" "contents (base (ca_view a1)) = contents (base (ca_view a))"
    using k by (simp_all add: kept_def)
  have ok1: "cache_ok vinv contents (ca_view a1)" "contents_wf (cache_contents contents (ca_view a1))"
    "finite (dom (cache_contents contents (ca_view a1)))"
    using kept_sound [OF k a] by (simp_all add: sound_view_def)
  have "\<forall>out \<in> set (vout tx). nValue out \<noteq> - 1" using i1 by fastforce
  then have fw: "coins_wf (FromTx tx ?h)" using FromTx_wf outs(2) h by blast
  note new1 = new [folded D]
  note u = UpdateCoins_total [OF ok1 up fw new1] and t = tx_undo [OF ok1(1,2) up fw new1]
  have "coin_value (FromTx tx ?h) \<le> ?s" using coin_value_FromTx i1 by blast
  then have "total_value (cache_contents contents v) + ca_fees a1 \<le> total_value ?D + ca_fees a + (if IsCoinBase tx then ?s else 0)"
    using u i1 unfolding D by (simp split: if_splits)
  moreover have "sound_view vinv contents v" using u t by (simp add: sound_view_def)
  ultimately show ?thesis using t unfolding a' D by blast
qed

lemma connect_txs_total:
  "sound_view vinv contents (ca_view a) \<Longrightarrow> connect_txs E S GetC usage best pindex fs fl nl first txs st a = Inr a' \<Longrightarrow>
   (\<forall>tx \<in> set txs. IsCoinBase tx \<longrightarrow> (\<forall>out \<in> set (vout tx). 0 \<le> nValue out)) \<Longrightarrow> (\<forall>tx \<in> set txs. length (vout tx) < 2 ^ 32) \<Longrightarrow>
   0 < BlockIndex.nHeight (obj (tree S) pindex) \<Longrightarrow> BlockIndex.nHeight (obj (tree S) pindex) < 2 ^ 31 \<Longrightarrow>
   distinct (map tx_hash txs) \<Longrightarrow>
   (\<forall>tx \<in> set txs. cache_contents contents (ca_view a) (tx_hash tx) = None \<and> contents (base (ca_view a)) (tx_hash tx) = None) \<Longrightarrow>
   sound_view vinv contents (ca_view a') \<and> total_value (cache_contents contents (ca_view a')) + ca_fees a' \<le>
     total_value (cache_contents contents (ca_view a)) + ca_fees a +
     sum_list (map (\<lambda>tx. if IsCoinBase tx then sum_list (map nValue (vout tx)) else 0) txs)"
proof (induction txs arbitrary: a first)
  case (Cons tx txs)
  from Cons.prems(2) obtain a1 where c: "connect_tx E S GetC usage best pindex fs fl nl first tx st a = Inr a1"
    and r: "connect_txs E S GetC usage best pindex fs fl nl False txs st a1 = Inr a'"
    by (auto simp: sum_bind_Inr_iff)
  have hyp: "IsCoinBase tx \<Longrightarrow> \<forall>out \<in> set (vout tx). 0 \<le> nValue out" "length (vout tx) < 2 ^ 32"
    "cache_contents contents (ca_view a) (tx_hash tx) = None" "contents (base (ca_view a)) (tx_hash tx) = None"
    using Cons.prems(3,4,8) by simp_all
  note t = connect_tx_total [OF Cons.prems(1) c hyp(1,2) Cons.prems(5,6) hyp(3,4)]
  have new1: "\<forall>x \<in> set txs. cache_contents contents (ca_view a1) (tx_hash x) = None \<and> contents (base (ca_view a1)) (tx_hash x) = None"
  proof
    fix x
    assume x: "x \<in> set txs"
    then have "tx_hash x \<noteq> tx_hash tx" using Cons.prems(7) by (metis distinct.simps(2) imageI list.set_map list.simps(9))
    moreover have "cache_contents contents (ca_view a) (tx_hash x) = None" "contents (base (ca_view a)) (tx_hash x) = None"
      using Cons.prems(8) x by simp_all
    ultimately show "cache_contents contents (ca_view a1) (tx_hash x) = None \<and> contents (base (ca_view a1)) (tx_hash x) = None"
      using t by simp
  qed
  have hyps: "\<forall>tx \<in> set txs. IsCoinBase tx \<longrightarrow> (\<forall>out \<in> set (vout tx). 0 \<le> nValue out)"
    "\<forall>tx \<in> set txs. length (vout tx) < 2 ^ 32" "distinct (map tx_hash txs)" using Cons.prems(3,4,7) by simp_all
  from Cons.IH [OF conjunct1 [OF t] r hyps(1,2) Cons.prems(5,6) hyps(3) new1] t show ?case by simp
qed simp

end

section \<open>A block creates at most its subsidy\<close>

lemma CheckBlock_coinbase:
  assumes "CheckBlock G T ch block st p m = Inr chk" "bc_ok chk" "\<not> fChecked block"
  shows "vtx block \<noteq> [] \<and> IsCoinBase (vtx block ! 0) \<and> \<not> list_ex IsCoinBase (tl (vtx block))"
proof (rule ccontr)
  assume n: "\<not> ?thesis"
  obtain ok st1 where h: "CheckBlockHeader G block st p = (ok, st1)" by (cases "CheckBlockHeader G block st p") auto
  show False using assms n
    by (cases ok) (auto simp: CheckBlock_def h check_result_def Let_def split: if_splits)
qed

lemma coinbase_only_value:
  assumes "vtx block \<noteq> []" "IsCoinBase (vtx block ! 0)" "\<not> list_ex IsCoinBase (tl (vtx block))"
  shows "sum_list (map (\<lambda>tx. if IsCoinBase tx then sum_list (map nValue (vout tx)) else 0) (vtx block)) =
    sum_list (map nValue (vout (vtx block ! 0)))"
proof -
  obtain cb txs where b: "vtx block = cb # txs" using assms(1) by (cases "vtx block") auto
  then have e: "map (\<lambda>tx. if IsCoinBase tx then sum_list (map nValue (vout tx)) else 0) txs = map (\<lambda>_. 0) txs"
    using assms(3) by (intro map_cong refl) (auto simp: list_ex_iff)
  show ?thesis using assms(2) unfolding b list.map e by simp
qed

lemma ConnectBlock_Inr:
  assumes "ConnectBlock E S ch caches GetC usage best block st pindex view just = Inr r"
    and "block_hash (node E) block \<noteq> hashGenesisBlock (consensus (node E))"
    and "pprev (obj (tree S) pindex) = Some prev"
    and "GetBlockSubsidy (nBits (obj (tree S) prev)) (BlockIndex.nHeight (obj (tree S) prev)) (consensus (node E)) False = Some s"
  shows "\<exists>chk h v0 b v1 fs fl nl a. CheckBlock (node E) (tree S) ch block st (\<not> just) (\<not> just) = Inr chk \<and> bc_ok chk \<and>
    cache_GetBestBlock best view = (h, v0) \<and> (v1 = v0 \<or> overwrites GetC usage (vtx block) v0 = (b, v1)) \<and>
    connect_txs E S GetC usage best pindex fs fl nl True (vtx block) (bc_state chk)
      \<lparr>ca_view = v1, ca_fees = 0, ca_sigops = 0, ca_undo = [], ca_checks = []\<rparr> = Inr a \<and>
    IsBlockValueValid (node E) (pays E) (vtx block ! 0) (BlockIndex.nHeight (obj (tree S) pindex)) (ca_fees a + s) = Inr True \<and>
    (cr_view r = ca_view a \<or> cr_view r = SetBestBlock (phashBlock (obj (tree S) pindex)) (ca_view a))"
proof -
  let ?G = "node E" and ?T = "tree S" and ?b = "obj (tree S) pindex"
  obtain chk where c: "CheckBlock ?G ?T ch block st (\<not> just) (\<not> just) = Inr chk" and ok: "bc_ok chk"
    using assms(1) by (auto simp: ConnectBlock_def Let_def sum_bind_Inr_iff lift_node_def split: sum.splits if_splits)
  obtain h v0 where v0: "cache_GetBestBlock best view = (h, v0)" by (cases "cache_GetBestBlock best view") auto
  let ?ov = "\<lambda>f. if f then overwrites GetC usage (vtx block) v0 else (False, v0)"
  define tail where "tail = (\<lambda>fs f. case ?ov f of (dup, view) \<Rightarrow>
      if dup then reject (DoS 100 False REJECT_INVALID ''bad-txns-BIP30'' False [] (bc_state chk))
      else sum_bind (script_flags (consensus ?G) ?T block pindex caches) (\<lambda>(fl, nLockTimeFlags, caches).
      sum_bind (connect_txs E S GetC usage best pindex fs fl nLockTimeFlags True (vtx block) (bc_state chk)
                  \<lparr>ca_view = view, ca_fees = 0, ca_sigops = 0, ca_undo = [], ca_checks = []\<rparr>) (\<lambda>a.
      sum_bind (connect_payments E block (BlockIndex.nHeight ?b) (ca_fees a + s) (bc_state chk)) (\<lambda>_.
      sum_bind (wait_checks E fs (ca_checks a)) (\<lambda>ok.
      if \<not> ok then reject (DoS 100 False 0 [] False [] (bc_state chk))
      else if just
      then Inr \<lparr>cr_chain = S, cr_view = ca_view a, cr_state = bc_state chk, cr_caches = caches, cr_fChecked = bc_fChecked chk\<rparr>
      else sum_bind (write_block_undo E S pindex (ca_undo a) (bc_state chk)) (\<lambda>S.
        case index_error E of
          Some msg \<Rightarrow> reject (vs_Error msg (bc_state chk))
        | None \<Rightarrow> Inr \<lparr>cr_chain = S, cr_view = SetBestBlock (phashBlock ?b) (ca_view a), cr_state = bc_state chk, cr_caches = caches,
                          cr_fChecked = bc_fChecked chk\<rparr>))))))"
  have "(if phashBlock (obj ?T prev) \<noteq> h then Inl (Fault AssertionFailure)
      else sum_bind (script_checks E S pindex) (\<lambda>fs. sum_bind (enforce_BIP30 (consensus ?G) ?T pindex) (tail fs))) = Inr r"
    using assms(1) ok unfolding ConnectBlock_def Let_def c assms(3,4) v0 lift_node_def not_null_def option.case sum.case prod.case
      sum_bind.simps if_not_P [OF assms(2)] tail_def by simp
  then obtain fs f where t: "tail fs f = Inr r" by (auto simp: sum_bind_Inr_iff split: if_split_asm)
  obtain dup v1 where o: "?ov f = (dup, v1)" by (cases "?ov f") auto
  then have v1: "v1 = v0 \<or> overwrites GetC usage (vtx block) v0 = (dup, v1)" by (auto split: if_splits)
  from t [unfolded tail_def] o obtain fl nl cs a where k: "connect_txs E S GetC usage best pindex fs fl nl True (vtx block) (bc_state chk)
                  \<lparr>ca_view = v1, ca_fees = 0, ca_sigops = 0, ca_undo = [], ca_checks = []\<rparr> = Inr a"
    "connect_payments E block (BlockIndex.nHeight ?b) (ca_fees a + s) (bc_state chk) = Inr ()"
    "cr_view r = ca_view a \<or> cr_view r = SetBestBlock (phashBlock ?b) (ca_view a)"
    by (auto simp: reject_def sum_bind_Inr_iff split: if_splits option.splits)
  have "IsBlockValueValid ?G (pays E) (vtx block ! 0) (BlockIndex.nHeight ?b) (ca_fees a + s) = Inr True"
    using k(2) by (auto simp: connect_payments_def reject_def lift_node_def sum_bind_Inr_iff split: sum.splits if_splits)
  then show ?thesis using c ok v0 v1 k(1,3) by blast
qed

text \<open>C1: No inflation: a block that \<open>ConnectBlock\<close> accepts raises the total value of the unspent outputs by at
  most the subsidy of its height, and leaves a sound view, whatever its transactions are (inputs
  spent twice in one transaction included: they stop the program instead).  The transactions' ids
  must be new and distinct; a block already marked as checked must have one coinbase, in front; in
  the old budget window the value is only checked on a synchronised node with
  \<open>SPORK_13_OLD_SUPERBLOCK_FLAG\<close> off.\<close>

theorem ConnectBlock_creates_at_most_subsidy:
  assumes view: "cache_ok tip_ok tip_contents view" "contents_wf (cache_contents tip_contents view)"
      "finite (dom (cache_contents tip_contents view))"
    and connected: "ConnectBlock E S ch caches (tip_GetCoins usage) usage best block st pindex view just = Inr r"
    and genesis: "block_hash (node E) block \<noteq> hashGenesisBlock (consensus (node E))"
    and marked: "fChecked block \<Longrightarrow> vtx block \<noteq> [] \<and> IsCoinBase (vtx block ! 0) \<and> \<not> list_ex IsCoinBase (tl (vtx block))"
    and prev: "pprev (obj (tree S) pindex) = Some prev"
      "GetBlockSubsidy (nBits (obj (tree S) prev)) (BlockIndex.nHeight (obj (tree S) prev)) (consensus (node E)) False = Some s"
    and height: "h = BlockIndex.nHeight (obj (tree S) pindex)" "0 < h" "h < 2 ^ 31" "h + 1 \<noteq> POST_MINE_HEIGHT"
    and ids: "distinct (map tx_hash (vtx block))"
      "\<forall>tx \<in> set (vtx block). cache_contents tip_contents view (tx_hash tx) = None \<and> tip_contents (base view) (tx_hash tx) = None"
    and outs: "\<forall>tx \<in> set (vtx block). length (vout tx) < 2 ^ 32"
    and params: "250 \<le> nSuperblockStartBlock (consensus (node E))"
    and budget: "h < nSuperblockStartBlock (consensus (node E)) \<Longrightarrow> budget_window (consensus (node E)) h \<Longrightarrow>
      mn_synced (pays E) \<and> \<not> spork_on (node E) SPORK_13_OLD_SUPERBLOCK_FLAG"
  shows "cache_ok tip_ok tip_contents (cr_view r) \<and> contents_wf (cache_contents tip_contents (cr_view r)) \<and>
    finite (dom (cache_contents tip_contents (cr_view r))) \<and>
    total_value (cache_contents tip_contents (cr_view r)) \<le> total_value (cache_contents tip_contents view) + s"
proof -
  obtain chk hb v0 b v1 fs fl nl a where
    c: "CheckBlock (node E) (tree S) ch block st (\<not> just) (\<not> just) = Inr chk" "bc_ok chk" and
    v: "cache_GetBestBlock best view = (hb, v0)" "v1 = v0 \<or> overwrites (tip_GetCoins usage) usage (vtx block) v0 = (b, v1)" and
    k: "connect_txs E S (tip_GetCoins usage) usage best pindex fs fl nl True (vtx block) (bc_state chk)
      \<lparr>ca_view = v1, ca_fees = 0, ca_sigops = 0, ca_undo = [], ca_checks = []\<rparr> = Inr a" and
    val: "IsBlockValueValid (node E) (pays E) (vtx block ! 0) h (ca_fees a + s) = Inr True" and
    res: "cr_view r = ca_view a \<or> cr_view r = SetBestBlock (phashBlock (obj (tree S) pindex)) (ca_view a)"
    using ConnectBlock_Inr [OF connected genesis prev, folded height(1)] by blast
  have cb: "vtx block \<noteq> []" "IsCoinBase (vtx block ! 0)" "\<not> list_ex IsCoinBase (tl (vtx block))"
    using CheckBlock_coinbase [OF c] marked by blast+
  have k0: "kept tip_ok tip_contents view v0" using tip.GetBestBlock_kept [OF view(1) v(1)] .
  have k1: "kept tip_ok tip_contents view v1"
    using v(2) k0 tip.overwrites_kept [OF kept_ok [OF k0]] kept_trans [OF k0] by blast
  have same: "cache_contents tip_contents v1 = cache_contents tip_contents view" "tip_contents (base v1) = tip_contents (base view)"
    using k1 by (simp_all add: kept_def)
  obtain vo where vo: "GetValueOut (vtx block ! 0) = Inr vo" "vo \<le> ca_fees a + s"
    using IsBlockValueValid_bounds_coinbase [OF val params height(4) budget] by blast
  then have out0: "\<forall>out \<in> set (vout (vtx block ! 0)). 0 \<le> nValue out" "vo = sum_list (map nValue (vout (vtx block ! 0)))"
    by (simp_all add: GetValueOut_def value_loop_Inr)
  have "\<forall>tx \<in> set (vtx block). IsCoinBase tx \<longrightarrow> (\<forall>out \<in> set (vout tx). 0 \<le> nValue out)"
    using cb out0(1) by (cases "vtx block") (auto simp: list_ex_iff)
  note nonneg = this
  have sv: "sound_view tip_ok tip_contents v1" using k1 view by (simp add: kept_def sound_view_def)
  have "sound_view tip_ok tip_contents (ca_view a) \<and>
      total_value (cache_contents tip_contents (ca_view a)) + ca_fees a \<le> total_value (cache_contents tip_contents view) + vo"
    using tip.connect_txs_total [OF _ k nonneg outs height(2,3)[unfolded height(1)] ids(1)] sv ids(2) coinbase_only_value [OF cb] out0(2)
    by (simp add: same)
  then show ?thesis using vo(2) res by (auto simp: sound_view_def)
qed

section \<open>What stops the program\<close>

text \<open>C38: A transaction that spends one output twice stops the program: if it passes every check of
  \<open>ConnectBlock\<close> that looks at its inputs (none of them sees the repetition), an assertion in
  \<open>UpdateCoins\<close> fails.  Only \<open>CheckTransaction\<close> rejects such transactions, and \<open>CheckBlock\<close> does not call
  it for what follows the founder payment.\<close>

theorem duplicate_inputs_abort:
  assumes "cache_ok tip_ok tip_contents (ca_view a)" "contents_wf (cache_contents tip_contents (ca_view a))"
      "finite (dom (cache_contents tip_contents (ca_view a)))"
    and "\<not> IsCoinBase tx" "\<not> distinct (map prevout (vin tx))"
    and "ca_sigops a + GetLegacySigOpCount tx \<le> MAX_BLOCK_SIGOPS"
    and "connect_inputs E S (tip_GetCoins usage) usage best pindex fs fl nl tx st
           (a\<lparr>ca_sigops := ca_sigops a + GetLegacySigOpCount tx\<rparr>) = Inr a1"
  shows "connect_tx E S (tip_GetCoins usage) usage best pindex fs fl nl first tx st a = Inl (Fault AssertionFailure)"
proof -
  let ?a = "a\<lparr>ca_sigops := ca_sigops a + GetLegacySigOpCount tx\<rparr>"
  have k: "kept tip_ok tip_contents (ca_view a) (ca_view a1)"
    using tip.connect_inputs_total [OF _ assms(7,4)] assms(1) by simp
  have "spend_inputs (tip_GetCoins usage) usage (ca_view a1) (vin tx) = None"
  proof (rule ccontr)
    assume "spend_inputs (tip_GetCoins usage) usage (ca_view a1) (vin tx) \<noteq> None"
    then obtain us c where s: "spend_inputs (tip_GetCoins usage) usage (ca_view a1) (vin tx) = Some (us, c)" by auto
    have "distinct (map prevout (vin tx))"
      by (rule tip.spend_inputs_distinct [OF _ _ _ s]) (use k assms(2,3) in \<open>simp_all add: kept_def\<close>)
    with assms(5) show False by simp
  qed
  then have "UpdateCoins (tip_GetCoins usage) usage tx (ca_view a1) (BlockIndex.nHeight (obj (tree S) pindex)) = None"
    using assms(4) by (simp add: UpdateCoins_def)
  then show ?thesis using assms(4,6,7) by (simp add: connect_tx_def Let_def asserted_def)
qed

lemma have_inputs_True:
  "cache_ok tip_ok tip_contents c \<Longrightarrow> (\<forall>i \<in> set ins. unspent (cache_contents tip_contents c) (prevout i) \<noteq> None) \<Longrightarrow>
   fst (have_inputs_loop (tip_GetCoins usage) usage c ins)"
proof (induction ins arbitrary: c)
  case (Cons i ins)
  obtain k n where p: "prevout i = COutPoint k n" by (cases "prevout i")
  obtain r c1 where f: "FetchCoins (tip_GetCoins usage) usage c k = (r, c1)" by (cases "FetchCoins (tip_GetCoins usage) usage c k") auto
  note k1 = tip.FetchCoins_kept [OF Cons.prems(1) f]
  have "unspent (cache_contents tip_contents c) (prevout i) \<noteq> None" using Cons.prems(2) by simp
  then obtain e where "r = Some e" "IsAvailable (coins e) (unat n)"
    using k1(2) p by (cases r) (auto simp: unspent_def abs_coins_def split: option.splits if_splits)
  then show ?case using f p Cons.IH [of c1] Cons.prems(2) k1(1) by (simp add: kept_def)
qed simp

text \<open>C39: From \<open>nStoneHeight\<close> on, a spend of a pay-to-public-key-hash output with an empty \<open>scriptSig\<close> makes the
  input checks throw: \<open>IsInputBanned\<close> takes the last element of an empty stack.  The exception
  leaves \<open>CheckInputs\<close>, and with it \<open>ConnectBlock\<close>, so a block with such a transaction is neither
  connected nor marked invalid.\<close>

theorem empty_scriptSig_throws:
  assumes "cache_ok tip_ok tip_contents view" "\<not> IsCoinBase tx" "vin tx = txin # rest" "scriptSig txin = []"
    and "\<forall>i \<in> set (vin tx). unspent (cache_contents tip_contents view) (prevout i) \<noteq> None"
    and "prevout txin = COutPoint k n" "cache_contents tip_contents view k = Some cs"
    and "scriptPubKey (c_vout cs ! unat n) = GetScriptForDestination (CKeyID keyid)" "length keyid = 20"
    and "MoneyRange (nValue (c_vout cs ! unat n))"
    and "GetSpendHeight S best view = Inr (h, view1)" "nStoneHeight (consensus (node E)) \<le> h"
    and "fCoinBase cs \<Longrightarrow> COINBASE_MATURITY \<le> h - c_nHeight cs"
  shows "CheckInputs E S (tip_GetCoins usage) usage best tx st fScriptChecks fl pvChecks view =
    Inl (Fault (Exception ''vector::_M_range_check''))"
proof -
  have k1: "kept tip_ok tip_contents view view1" using tip.GetSpendHeight_kept [OF assms(1,11)] .
  obtain b view2 where hi: "have_inputs_loop (tip_GetCoins usage) usage view1 (vin tx) = (b, view2)"
    by (cases "have_inputs_loop (tip_GetCoins usage) usage view1 (vin tx)") auto
  have b: "b" using have_inputs_True [OF kept_ok [OF k1], of "vin tx" usage] assms(5) k1 hi by (simp add: kept_def)
  have k2: "kept tip_ok tip_contents view view2" using tip.have_inputs_kept [OF kept_ok [OF k1] hi] kept_trans [OF k1] by blast
  obtain r view3 where f: "FetchCoins (tip_GetCoins usage) usage view2 k = (r, view3)"
    by (cases "FetchCoins (tip_GetCoins usage) usage view2 k") auto
  note k3 = tip.FetchCoins_kept [OF kept_ok [OF k2] f]
  have av: "IsAvailable cs (unat n)" using assms(3,5,6,7) by (auto simp: unspent_def split: if_splits)
  obtain e where e: "r = Some e" "coins e = cs"
    using k3(2) k2 assms(7) by (cases r) (auto simp: kept_def abs_coins_def split: if_splits)
  have m: "map_of (cacheCoins view3) k = Some e"
    using f e by (auto simp: FetchCoins_def Let_def map_of_update_if split: option.splits prod.splits)
  have g: "GetOutputFor (tip_GetCoins usage) usage view3 txin = Some (c_vout cs ! unat n, view3)"
    using m e(2) av assms(6) by (simp add: GetOutputFor_def FetchCoins_def)
  have "dest_ok (CKeyID keyid)" using assms(9) by (simp add: dest_ok_def)
  then have sol: "Solver (GetScriptForDestination (CKeyID keyid)) = (True, TX_PUBKEYHASH, [keyid])"
    using destination_ops(1) [of keyid] assms(9) by (auto simp: Solver_pubkeyhash)
  have "IsInputBanned E (tip_GetCoins usage) usage txin view3 = Inl (Fault (Exception ''vector::_M_range_check''))"
    using g sol assms(4,8) by (simp add: IsInputBanned_def Let_def asserted_def EvalScript_def script_result_def)
  then have "txin_loop E (tip_GetCoins usage) usage st h (vin tx) 0 view2 = Inl (Fault (Exception ''vector::_M_range_check''))"
    using assms(3,6,10,12,13) f e av by (auto simp: IsAvailable_def Let_def not_le)
  then show ?thesis using assms(2,11) hi b by (simp add: CheckInputs_def CheckTxInputs_def HaveInputs_def)
qed

section \<open>Instances\<close>

definition sample_env2 :: "(unit, unit) connect_env" where
  \<comment> \<open>the main network's parameters; no signature is valid\<close>
  "sample_env2 = \<lparr>node = (sample_ctx 0)\<lparr>consensus := MainParams\<rparr>, pays = sample_payments [],
     crypto = \<lparr>ec_pubkey_parse = (\<lambda>_. None), signature_parse_compact = (\<lambda>_. (False, ())), signature_normalize = id, ecdsa_verify = (\<lambda>_ _ _. False)\<rparr>,
     key_mem = [], banned = [], hashAssumeValid = blob_null, mapCheckpoints = None, script_threads = False,
     write_undo = (\<lambda>_ _ _. Inr 0), index_error = None\<rparr>"

definition sample_index :: btree where
  "sample_index = \<lparr>obj = (\<lambda>p. CBlockIndex_null\<lparr>phashBlock := (if p = 0 then sample_id 7 else sample_id 8), nHeight := (if p = 0 then 101 else 102),
     pprev := (if p = 0 then None else Some 0)\<rparr>), known = {0, 1}\<rparr>"

definition sample_chain_state :: chain_state where
  "sample_chain_state = \<lparr>mapBlockIndex = (\<lambda>h. if h = sample_id 7 then Some 0 else None), tree = sample_index, next_ptr = 2,
     pindexBestHeader = None, setDirtyBlockIndex = {}\<rparr>"

definition sample_best :: "CCoinsViewDB CCoinsViewCache \<Rightarrow> uint256" where
  "sample_best c = fst (cache_GetBestBlock db_GetBestBlock c)"

definition sample_twice :: CTransaction where
  \<comment> \<open>spends the only output of the sample tip twice\<close>
  "sample_twice = (sample_tx 11 (COutPoint (sample_id 1) 0) [60])
     \<lparr>vin := replicate 2 \<lparr>prevout = COutPoint (sample_id 1) 0, scriptSig = [], nSequence = SEQUENCE_FINAL, prevPubKey = []\<rparr>\<rparr>"

definition sample_acc :: "CCoinsViewDB CCoinsViewCache connect_acc" where
  "sample_acc = \<lparr>ca_view = cache_on sample_tip, ca_fees = 0, ca_sigops = 0, ca_undo = [], ca_checks = []\<rparr>"

abbreviation sample_entry :: CCoinsCacheEntry where
  "sample_entry \<equiv> \<lparr>coins = sample_coins, flags = 0\<rparr>"

definition sample_read :: "CCoinsViewDB CCoinsViewCache CCoinsViewCache" where
  \<comment> \<open>the cache after its first read\<close>
  "sample_read = snd (FetchCoins (tip_GetCoins (\<lambda>_. 0)) (\<lambda>_. 0) (cache_on sample_tip) (sample_id 1))"

lemma sample_not_pruned: "\<not> IsPruned sample_coins" "IsAvailable sample_coins 0"
  by (simp_all add: IsPruned_def IsAvailable_def sample_coins_def sample_out_def txout_IsNull_def)

lemma sample_fetch:
  "FetchCoins (tip_GetCoins (\<lambda>_. 0)) (\<lambda>_. 0) (cache_on sample_tip) (sample_id 1) = (Some sample_entry, sample_read)"
  "map_of (cacheCoins sample_read) (sample_id 1) = Some sample_entry"
  by (simp_all add: sample_read_def FetchCoins_def cache_on_def cache_GetCoins_def sample_tip_def db_GetCoins_def sample_not_pruned
      Let_def map_of_update_if)

lemma sample_fetch_again:
  "cacheCoins c = cacheCoins sample_read \<Longrightarrow> FetchCoins GetC usage c (sample_id 1) = (Some sample_entry, c)"
  by (simp add: FetchCoins_def sample_fetch(2))

lemma sample_twice_fields:
  "vin sample_twice = replicate 2 \<lparr>prevout = COutPoint (sample_id 1) 0, scriptSig = [], nSequence = SEQUENCE_FINAL, prevPubKey = []\<rparr>"
  "vout sample_twice = [sample_out 60]" "\<not> IsCoinBase sample_twice" "tx_nVersion sample_twice = 1"
  by (simp_all add: sample_twice_def sample_tx_def IsCoinBase_def)

lemma sample_twice_ops: "GetLegacySigOpCount sample_twice = 0"
  by code_simp

lemma sample_coins_fields: "c_nHeight sample_coins = 1" "c_vout sample_coins = [sample_out 50]" "nValue (sample_out v) = v"
  by (simp_all add: sample_coins_def sample_out_def)

lemmas sample_inputs = sample_twice_fields sample_not_pruned sample_coins_fields sample_fetch_again HaveInputs_def numeral_2_eq_2
  GetOutputFor_def

lemma sample_first:
  "HaveInputs (tip_GetCoins (\<lambda>_. 0)) (\<lambda>_. 0) (cache_on sample_tip) sample_twice = (True, sample_read)"
  by (simp add: sample_inputs sample_fetch(1))

lemma sample_again:
  assumes "cacheCoins c = cacheCoins sample_read"
  shows "HaveInputs (tip_GetCoins (\<lambda>_. 0)) (\<lambda>_. 0) c sample_twice = (True, c)"
    "coin_heights (tip_GetCoins (\<lambda>_. 0)) (\<lambda>_. 0) (vin sample_twice) c = Inr ([1, 1], c)"
    "GetValueIn (tip_GetCoins (\<lambda>_. 0)) (\<lambda>_. 0) c sample_twice = Some (100, c)"
    "102 < nStoneHeight (consensus (node E)) \<Longrightarrow>
     txin_loop E (tip_GetCoins (\<lambda>_. 0)) (\<lambda>_. 0) st 102 (vin sample_twice) 0 c = Inr (100, c)"
  using assms by (simp_all add: sample_inputs GetValueIn_def MoneyRange_def MAX_MONEY_def COIN_def COINBASE_MATURITY_def)

lemma sample_spend_height:
  "\<exists>c. GetSpendHeight sample_chain_state sample_best sample_read = Inr (102, c) \<and> cacheCoins c = cacheCoins sample_read"
  by (simp add: GetSpendHeight_def cache_GetBestBlock_def sample_read_def FetchCoins_def cache_on_def cache_GetCoins_def sample_tip_def
      db_GetCoins_def sample_not_pruned Let_def sample_best_def db_GetBestBlock_def sample_chain_state_def not_null_def sample_index_def
      blob_IsNull_def blob_null_def list_all_iff)

lemma sample_prev: "pprev (obj sample_index (Suc 0)) = Some 0" "BlockIndex.nHeight (obj sample_index (Suc 0)) = 102"
  by (simp_all add: sample_index_def)

lemma sample_median: "GetMedianTimePast sample_index 0 = 0"
  by code_simp

lemma sample_locks: "SequenceLocks (tree sample_chain_state) sample_twice 0 [1, 1] (Suc 0) = Inr True"
  by (simp add: SequenceLocks_def CalculateSequenceLocks_def sample_twice_fields EvaluateSequenceLocks_def sample_chain_state_def
      sample_prev sample_median)

lemma sample_stone: "nStoneHeight (consensus (node sample_env2)) = 90000" "\<not> script_threads sample_env2"
  by (simp_all add: sample_env2_def MainParams_def)

lemma sample_out_60: "value_out sample_twice = Inr 60"
  by (simp add: value_out_def GetValueOut_def sample_twice_fields sample_coins_fields MoneyRange_def MAX_MONEY_def COIN_def)

lemma sample_checked:
  "\<exists>a. connect_inputs sample_env2 sample_chain_state (tip_GetCoins (\<lambda>_. 0)) (\<lambda>_. 0) sample_best 1 False 0 0 sample_twice st sample_acc = Inr a"
proof -
  obtain c where c: "GetSpendHeight sample_chain_state sample_best sample_read = Inr (102, c)" "cacheCoins c = cacheCoins sample_read"
    using sample_spend_height by blast
  have "CheckInputs sample_env2 sample_chain_state (tip_GetCoins (\<lambda>_. 0)) (\<lambda>_. 0) sample_best sample_twice st False 0 False sample_read = Inr ([], c)"
    using c(1) sample_again(1) [OF c(2)] sample_again(4) [OF c(2), of sample_env2, unfolded sample_stone]
    by (simp add: CheckInputs_def CheckTxInputs_def sample_twice_fields(3) sample_stone sample_out_60 MoneyRange_def MAX_MONEY_def COIN_def)
  then show ?thesis
    using sample_first sample_again(2,3) [OF refl]
    by (simp add: connect_inputs_def sample_acc_def sample_locks lift_fault_def node_fault_of.simps sample_out_60 asserted_def has_flag_def
        SCRIPT_VERIFY_P2SH_def MAX_BLOCK_SIGOPS_def sample_stone)
qed

lemma duplicate_inputs_abort_witness:
  "connect_tx sample_env2 sample_chain_state (tip_GetCoins (\<lambda>_. 0)) (\<lambda>_. 0) sample_best 1 False 0 0 False sample_twice vs_init sample_acc =
   Inl (Fault AssertionFailure)"
proof -
  have a: "ca_view sample_acc = cache_on sample_tip" "ca_sigops sample_acc = 0" "sample_acc\<lparr>ca_sigops := 0\<rparr> = sample_acc"
    by (simp_all add: sample_acc_def)
  have ok: "cache_ok tip_ok tip_contents (cache_on sample_tip)" "cache_contents tip_contents (cache_on sample_tip) = tip_contents sample_tip"
    by (rule new_cache_ok [where vinv = tip_ok, OF sample_tip_ok(1)], rule new_cache_contents)
  have "dom (tip_contents sample_tip) \<subseteq> {sample_id 1}" by (auto simp: sample_tip_contents split: if_splits)
  then have fin: "finite (dom (tip_contents sample_tip))" using finite_subset by blast
  have dup: "\<not> distinct (map prevout (vin sample_twice))" by (simp add: sample_twice_fields numeral_2_eq_2)
  obtain a1 where c: "connect_inputs sample_env2 sample_chain_state (tip_GetCoins (\<lambda>_. 0)) (\<lambda>_. 0) sample_best 1 False 0 0 sample_twice
      vs_init sample_acc = Inr a1"
    by (rule exE [OF sample_checked [of vs_init]])
  have few: "ca_sigops sample_acc + GetLegacySigOpCount sample_twice \<le> MAX_BLOCK_SIGOPS"
    by (simp add: a sample_twice_ops MAX_BLOCK_SIGOPS_def)
  have a1: "connect_inputs sample_env2 sample_chain_state (tip_GetCoins (\<lambda>_. 0)) (\<lambda>_. 0) sample_best 1 False 0 0 sample_twice
      vs_init (sample_acc\<lparr>ca_sigops := ca_sigops sample_acc + GetLegacySigOpCount sample_twice\<rparr>) = Inr a1"
    using c by (simp add: a sample_twice_ops)
  show ?thesis
    by (rule duplicate_inputs_abort [OF _ _ _ sample_twice_fields(3) dup few a1])
      (simp_all only: a(1) ok sample_tip_ok(2) fin)
qed

definition sample_keyhash :: CCoins where
  "sample_keyhash = sample_coins\<lparr>c_vout := [\<lparr>nValue = 50, scriptPubKey = GetScriptForDestination (CKeyID (replicate 20 1)), nRounds = 0\<rparr>]\<rparr>"

definition sample_keyhash_tip :: "CCoinsViewDB CCoinsViewCache" where
  "sample_keyhash_tip = cache_on \<lparr>db_coins = (\<lambda>k. if k = sample_id 1 then Some sample_keyhash else None), db_best = Some (sample_id 7)\<rparr>"

lemma sample_keyhash_contents:
  "tip_contents sample_keyhash_tip k = (if k = sample_id 1 then Some sample_keyhash else None)"
  by (simp add: sample_keyhash_tip_def cache_on_def cache_contents_def db_contents_def abs_coins_def IsPruned_def
      sample_keyhash_def sample_coins_def txout_IsNull_def)

lemma empty_scriptSig_throws_witness:
  "CheckInputs (sample_env2\<lparr>node := sample_ctx 0\<rparr>) sample_chain_state (tip_GetCoins (\<lambda>_. 0)) (\<lambda>_. 0) (\<lambda>_. sample_id 7)
     (sample_tx 11 (COutPoint (sample_id 1) 0) [40]) vs_init False 0 False (cache_on sample_keyhash_tip) =
   Inl (Fault (Exception ''vector::_M_range_check''))"
proof -
  have t: "tip_ok sample_keyhash_tip" by (simp add: sample_keyhash_tip_def cache_on_def cache_ok_def)
  have ok: "cache_ok tip_ok tip_contents (cache_on sample_keyhash_tip)"
    "cache_contents tip_contents (cache_on sample_keyhash_tip) = tip_contents sample_keyhash_tip"
    by (rule new_cache_ok [where vinv = tip_ok, OF t], rule new_cache_contents)
  let ?i = "\<lparr>prevout = COutPoint (sample_id 1) 0, scriptSig = [], nSequence = SEQUENCE_FINAL, prevPubKey = []\<rparr>"
  have tx: "\<not> IsCoinBase (sample_tx 11 (COutPoint (sample_id 1) 0) [40])" "vin (sample_tx 11 (COutPoint (sample_id 1) 0) [40]) = [?i]"
    by (simp_all add: sample_tx_def IsCoinBase_def sample_id_def outpoint_IsNull_def)
  have v: "c_vout sample_keyhash ! 0 = \<lparr>nValue = 50, scriptPubKey = GetScriptForDestination (CKeyID (replicate 20 1)), nRounds = 0\<rparr>"
    "c_nHeight sample_keyhash = 1" "c_vout sample_keyhash \<noteq> []"
    by (simp_all add: sample_keyhash_def sample_coins_def)
  obtain view1 where h: "GetSpendHeight sample_chain_state (\<lambda>_. sample_id 7) (cache_on sample_keyhash_tip) = Inr (102, view1)"
    by (simp add: GetSpendHeight_def cache_GetBestBlock_def cache_on_def sample_chain_state_def not_null_def sample_index_def
        blob_IsNull_def blob_null_def list_all_iff)
  have stone: "nStoneHeight (consensus (node (sample_env2\<lparr>node := sample_ctx 0\<rparr>))) \<le> 102"
    by (simp add: sample_ctx_def RegTestParams_def)
  show ?thesis
    by (rule empty_scriptSig_throws [OF ok(1) tx, of "sample_id 1" 0 sample_keyhash "replicate 20 1", OF _ _ _ _ _ _ _ h stone])
      (simp_all add: tx(2) ok(2) sample_keyhash_contents v unspent_def IsAvailable_def txout_IsNull_def MoneyRange_def MAX_MONEY_def COIN_def
        COINBASE_MATURITY_def)
qed

text \<open>A block of height 102 with only a coinbase, on the chain of \<open>sample_index\<close>.\<close>

definition sample_env3 :: "(unit, unit) connect_env" where
  "sample_env3 = sample_env2\<lparr>pays := (sample_payments [])\<lparr>mn_synced := False\<rparr>\<rparr>"

definition sample_reward_block :: CBlock where
  "sample_reward_block = sample_block\<lparr>vtx := [sample_cb], fChecked := True\<rparr>"

definition sample_based :: "CCoinsViewDB CCoinsViewCache CCoinsViewCache" where
  "sample_based = (cache_on sample_tip)\<lparr>hashBlock := sample_id 7\<rparr>"

lemma sample_env3_simps:
  "consensus (node sample_env3) = MainParams" "hashAssumeValid sample_env3 = blob_null" "mapCheckpoints sample_env3 = None"
  "\<not> script_threads sample_env3" "\<not> mn_synced (pays sample_env3)"
  by (simp_all add: sample_env3_def sample_env2_def)

lemma sample_genesis: "block_hash (node sample_env3) sample_reward_block \<noteq> hashGenesisBlock MainParams"
proof
  assume "block_hash (node sample_env3) sample_reward_block = hashGenesisBlock MainParams"
  then have "replicate 32 0 = hashGenesisBlock MainParams"
    by (simp add: sample_env3_def sample_env2_def sample_ctx_def block_hash_def)
  then have "hashGenesisBlock MainParams ! 1 = (replicate 32 0 :: bytes) ! 1" by (rule arg_cong [OF sym])
  moreover have "hashGenesisBlock MainParams ! 1 \<noteq> 0" unfolding MainParams_def Consensus_Params.select_convs by code_simp
  ultimately show False by simp
qed

lemma sample_prev0: "BlockIndex.nHeight (obj sample_index 0) = 101" "pprev (obj sample_index 0) = None" "GetBlockTime (obj sample_index (Suc 0)) = 0"
  by (simp_all add: sample_index_def GetBlockTime_def CBlockIndex_null_def)

lemma sample_flags:
  "\<exists>cs. script_flags MainParams sample_index sample_reward_block (Suc 0) (\<lambda>_ _. None) = Inr (0, 0, cs)"
proof -
  have "hdr_nVersion sample_reward_block = 1" by (simp add: sample_reward_block_def sample_block_def)
  moreover have "Period (VersionBitsConditionChecker MainParams DEPLOYMENT_CSV) = 2016"
    by (simp add: VersionBitsConditionChecker_def MainParams_def)
  ultimately show ?thesis
    by (simp add: script_flags_def sample_prev sample_prev0 VersionBitsState_def GetStateFor_def align_prev_def GetAncestor_def cmod_def
        lift_fault_def)
qed

lemma sample_BIP30: "\<exists>f. enforce_BIP30 MainParams sample_index (Suc 0) = Inr f"
  by (simp add: enforce_BIP30_def Let_def sample_prev sample_prev0 not_null_def GetAncestor_def lift_fault_def MainParams_def [THEN arg_cong [where f = BIP34Height]]) blast

lemma sample_overwrites: "overwrites (tip_GetCoins (\<lambda>_. 0)) (\<lambda>_. 0) [sample_cb] sample_based = (False, sample_based)"
  by (simp add: sample_based_def FetchCoins_def cache_on_def cache_GetCoins_def sample_tip_def db_GetCoins_def sample_cb_def sample_tx_def
      sample_id_def)

lemma sample_coinbase_spent:
  "\<exists>us v. UpdateCoins (tip_GetCoins (\<lambda>_. 0)) (\<lambda>_. 0) sample_cb sample_based 102 = Some (us, v)"
proof -
  have "case UpdateCoins (tip_GetCoins (\<lambda>_. 0)) (\<lambda>_. 0) sample_cb sample_based 102 of None \<Rightarrow> False | Some _ \<Rightarrow> True" by code_simp
  then show ?thesis by (auto split: option.splits)
qed

lemma sample_paid: "connect_payments sample_env3 sample_reward_block 102 COIN st = Inr ()"
proof -
  have v: "vtx sample_reward_block = [sample_cb]" "vout sample_cb = [sample_out 50]"
    by (simp_all add: sample_reward_block_def sample_cb_def sample_tx_def)
  have P: "nSuperblockStartBlock MainParams = 92000" "nBudgetPaymentsStartBlock MainParams = 92000"
    by (simp_all add: MainParams_def)
  have "\<not> budget_window MainParams 102" by (simp add: budget_window_def P)
  then show ?thesis
    by (simp add: connect_payments_def IsBlockValueValid_def IsBlockPayeeValid_def lift_node_def sample_env3_simps v P GetValueOut_def
        sample_coins_fields MoneyRange_def MAX_MONEY_def COIN_def)
qed

lemma sample_connects_tx:
  "\<exists>a. connect_txs sample_env3 sample_chain_state (tip_GetCoins (\<lambda>_. 0)) (\<lambda>_. 0) sample_best 1 fs 0 0 True [sample_cb] st
     \<lparr>ca_view = sample_based, ca_fees = 0, ca_sigops = 0, ca_undo = [], ca_checks = []\<rparr> = Inr a \<and> ca_fees a = 0"
proof -
  obtain us v where u: "UpdateCoins (tip_GetCoins (\<lambda>_. 0)) (\<lambda>_. 0) sample_cb sample_based 102 = Some (us, v)"
    using sample_coinbase_spent by blast
  have "IsCoinBase sample_cb" "GetLegacySigOpCount sample_cb = 0" by code_simp+
  with u show ?thesis
    by (simp add: connect_tx_def Let_def MAX_BLOCK_SIGOPS_def asserted_def sample_chain_state_def sample_prev)
qed

lemma sample_connected:
  "\<exists>r. ConnectBlock sample_env3 sample_chain_state sample_chain (\<lambda>_ _. None) (tip_GetCoins (\<lambda>_. 0)) (\<lambda>_. 0) sample_best sample_reward_block
     vs_init 1 (cache_on sample_tip) True = Inr r"
proof -
  obtain f where f: "enforce_BIP30 MainParams sample_index (Suc 0) = Inr f" using sample_BIP30 by blast
  obtain cs where cs: "script_flags MainParams sample_index sample_reward_block (Suc 0) (\<lambda>_ _. None) = Inr (0, 0, cs)" using sample_flags by blast
  obtain a where a: "connect_txs sample_env3 sample_chain_state (tip_GetCoins (\<lambda>_. 0)) (\<lambda>_. 0) sample_best 1 True 0 0 True [sample_cb] vs_init
     \<lparr>ca_view = sample_based, ca_fees = 0, ca_sigops = 0, ca_undo = [], ca_checks = []\<rparr> = Inr a" "ca_fees a = 0"
    using sample_connects_tx by blast
  have c: "CheckBlock (node sample_env3) sample_index sample_chain sample_reward_block vs_init False False =
    check_result sample_reward_block (True, vs_init)"
    by (simp add: CheckBlock_def sample_reward_block_def)
  have best: "cache_GetBestBlock sample_best (cache_on sample_tip) = (sample_id 7, sample_based)"
    by (simp add: cache_GetBestBlock_def cache_on_def sample_based_def sample_best_def sample_tip_def db_GetBestBlock_def blob_IsNull_def
        blob_null_def list_all_iff)
  have sc: "script_checks sample_env3 sample_chain_state 1 = Inr True"
    by (simp add: script_checks_def assume_valid_checks_def Let_def sample_env3_simps blob_IsNull_def blob_null_def list_all_iff)
  have ph: "phashBlock (obj sample_index 0) = sample_id 7" "vtx sample_reward_block = [sample_cb]" "tree sample_chain_state = sample_index"
    by (simp_all add: sample_index_def sample_reward_block_def sample_chain_state_def)
  have sub: "GetBlockSubsidy n 101 MainParams False = Some COIN" for n by (simp add: GetBlockSubsidy_def POST_MINE_HEIGHT_def)
  show ?thesis
    using f cs a sc sample_genesis
    by (simp add: ConnectBlock_def Let_def c check_result_def lift_node_def best ph sample_prev sample_prev0 sample_env3_simps sample_overwrites
        not_null_def sub sample_paid wait_checks_def del: connect_txs.simps overwrites.simps)
qed

lemma ConnectBlock_creates_at_most_subsidy_witness:
  "\<exists>r. ConnectBlock sample_env3 sample_chain_state sample_chain (\<lambda>_ _. None) (tip_GetCoins (\<lambda>_. 0)) (\<lambda>_. 0) sample_best sample_reward_block
     vs_init 1 (cache_on sample_tip) True = Inr r \<and>
     total_value (cache_contents tip_contents (cr_view r)) \<le> total_value (tip_contents sample_tip) + COIN"
proof -
  obtain r where r: "ConnectBlock sample_env3 sample_chain_state sample_chain (\<lambda>_ _. None) (tip_GetCoins (\<lambda>_. 0)) (\<lambda>_. 0) sample_best
      sample_reward_block vs_init 1 (cache_on sample_tip) True = Inr r"
    using sample_connected by blast
  have ok: "cache_ok tip_ok tip_contents (cache_on sample_tip)" "cache_contents tip_contents (cache_on sample_tip) = tip_contents sample_tip"
    by (rule new_cache_ok [where vinv = tip_ok, OF sample_tip_ok(1)], rule new_cache_contents)
  have "dom (tip_contents sample_tip) \<subseteq> {sample_id 1}" by (auto simp: sample_tip_contents split: if_splits)
  then have fin: "finite (dom (tip_contents sample_tip))" using finite_subset by blast
  have tx: "vtx sample_reward_block = [sample_cb]" "tx_hash sample_cb = sample_id 10" "length (vout sample_cb) = 1"
    "base (cache_on sample_tip) = sample_tip"
    by (simp_all add: sample_reward_block_def sample_cb_def sample_tx_def cache_on_def)
  have cb: "IsCoinBase sample_cb" by code_simp
  have new: "tip_contents sample_tip (sample_id 10) = None" by (simp add: sample_tip_contents sample_id_def)
  have P: "nSuperblockStartBlock MainParams = 92000" "\<not> budget_window MainParams 102"
    by (simp_all add: MainParams_def budget_window_def)
  have sub: "GetBlockSubsidy n 101 MainParams False = Some COIN" for n by (simp add: GetBlockSubsidy_def POST_MINE_HEIGHT_def)
  have t: "tree sample_chain_state = sample_index" by (simp add: sample_chain_state_def)
  show ?thesis
    using ConnectBlock_creates_at_most_subsidy [OF _ _ _ r, unfolded ok(2) sample_env3_simps t, of 0 COIN 102]
      ok(1) sample_tip_ok(2) fin sample_genesis new P r
    by (simp add: tx cb sample_prev sample_prev0 sub POST_MINE_HEIGHT_def)
qed

end
