(* ===== verification/ChainState.thy ===== *)
theory ChainState
  imports ActiveChain Supply
begin

text \<open>
  The chain state over whole runs: every operation that adds headers, takes in transactions, activates,
  disconnects, invalidates or reconsiders blocks keeps the invariant, when it fails too, unless the disk fails; and what
  the activation promises.
\<close>

section \<open>The operations keep the invariant\<close>

lemma link_queue_marks:
  "set queue \<subseteq> known (tree (index n)) \<Longrightarrow> unlinked n \<subseteq> known (tree (index n)) \<Longrightarrow> only_marks n (link_queue queue n)"
proof (induction queue n rule: link_queue.induct)
  case (2 p queue n)
  define b where "b = (case pprev (blk n p) of None \<Rightarrow> 0 | Some q \<Rightarrow> nChainTx (blk n q)) + nTx (blk n p)"
  define n1 where "n1 = (set_block (\<lambda>c. c\<lparr>nChainTx := b, nSequenceId := nBlockSequenceId n\<rparr>) p n)\<lparr>nBlockSequenceId := nBlockSequenceId n + 1\<rparr>"
  define n2 where "n2 = (if (case tip_of n1 of None \<Rightarrow> True | Some t \<Rightarrow> \<not> work_less (tree (index n1)) p t) then insert_candidate p n1 else n1)"
  define ready where "ready = map snd (filter (\<lambda>e. fst e = Some p) (mapBlocksUnlinked n2))"
  define n3 where "n3 = n2\<lparr>mapBlocksUnlinked := filter (\<lambda>e. fst e \<noteq> Some p) (mapBlocksUnlinked n2)\<rparr>"
  have k1: "known (tree (index n1)) = known (tree (index n))" by (simp add: n1_def set_block_def Let_def)
  have m1: "only_marks n n1"
    unfolding n1_def by (rule only_marks_trans [OF set_block_marks field_marks(2)]) (simp add: shape_def)
  have m2: "only_marks n1 n2" using insert_candidate_marks [of p n1] "2.prems"(1) k1 by (simp add: n2_def)
  have u2: "unlinked n2 = unlinked n" by (simp add: n2_def n1_def unlinked_def insert_candidate_def set_block_def Let_def)
  have u: "b \<in> known (tree (index n))" if "(a, b) \<in> set (mapBlocksUnlinked n2)" for a b
  proof -
    have "b \<in> unlinked n2" unfolding unlinked_def by (rule rev_image_eqI [OF that]) simp
    then show ?thesis using u2 "2.prems"(2) by auto
  qed
  have m3: "only_marks n2 n3" unfolding n3_def by (rule unlinked_marks) (auto simp: unlinked_def)
  have m: "only_marks n n3" by (rule only_marks_trans [OF only_marks_trans [OF m1 m2] m3])
  have k3: "known (tree (index n3)) = known (tree (index n))" by (rule only_marks_fields(3) [OF m])
  have "set (queue @ ready) \<subseteq> known (tree (index n3))" "unlinked n3 \<subseteq> known (tree (index n3))"
    unfolding k3 using "2.prems" u by (auto simp: ready_def n3_def unlinked_def)
  then have "only_marks n3 (link_queue (queue @ ready) n3)"
    using "2.IH" [OF b_def n1_def n2_def ready_def] by (simp add: n3_def)
  moreover have "link_queue (p # queue) n = link_queue (queue @ ready) n3"
    unfolding n3_def ready_def n2_def n1_def b_def by (simp add: Let_def)
  ultimately show ?case using only_marks_trans [OF m] by simp
qed simp

lemma set_known_marks: "shape b = shape (blk n p) \<Longrightarrow> only_marks n (set_block (\<lambda>_. b) p n)"
  by (auto simp: only_marks_def unlinked_def set_block_def same_index_def same_tree_def Let_def)

lemma node_fault_of_result [simp]: "node_fault_of r = Inr a \<longleftrightarrow> r = Inr a"
  by (rule node_fault_of_Inr)

lemma ReceivedBlockTransactions_marks:
  assumes ok: "node_ok n" and p: "p \<in> known (tree (index n))" and r: "ReceivedBlockTransactions block p file pos n = Inr n'"
  shows "only_marks n n'"
proof -
  define n1 where "n1 = set_block (\<lambda>b. b\<lparr>nTx := word_of_nat (length (vtx block)), nChainTx := 0, nFile := file, nDataPos := pos, nUndoPos := 0,
                nStatus := nStatus b OR BLOCK_HAVE_DATA\<rparr>) p n"
  obtain b c where b: "RaiseValidity (blk n1 p) BLOCK_VALID_TRANSACTIONS = Inr (b, c)"
    using r unfolding ReceivedBlockTransactions_def Let_def n1_def [symmetric] by (auto simp: sum_bind_Inr_iff)
  define n2 where "n2 = mark_dirty p (set_block (\<lambda>_. b) p n1)"
  note r2 = r [unfolded ReceivedBlockTransactions_def Let_def n1_def [symmetric] b node_fault_of.simps sum_bind.simps prod.case n2_def [symmetric]]
  have m1: "only_marks n n1" unfolding n1_def by (rule set_block_marks) (simp add: shape_def)
  have m2: "only_marks n1 n2"
    unfolding n2_def by (rule only_marks_trans [OF set_known_marks mark_dirty_marks]) (rule RaiseValidity_shape [OF b])
  note m = only_marks_trans [OF m1 m2]
  note k2 = only_marks_fields(3) [OF m]
  have u2: "unlinked n2 \<subseteq> known (tree (index n2))" using node_ok_parts(6) [OF only_marks_ok [OF m ok]] .
  have l: "only_marks n2 (link_queue [p] n2)" by (rule link_queue_marks) (use p k2 u2 in auto)
  have a: "only_marks n2 (n2\<lparr>mapBlocksUnlinked := mapBlocksUnlinked n2 @ [(q, p)]\<rparr>)" for q
    by (rule unlinked_add_marks) (use p k2 in simp)
  have "only_marks n2 n'"
    using r2 l a by (auto simp: sum_bind_Inr_iff split: option.split_asm if_split_asm)
  then show ?thesis by (rule only_marks_trans [OF m])
qed

lemma DisconnectBlocks_ok:
  "node_ok n \<Longrightarrow> DisconnectBlocks k E st n = Inr (n', True) \<Longrightarrow> advances n n'"
proof (induction k arbitrary: n st)
  case (Suc k)
  obtain n1 st1 ok where d: "DisconnectTip E st n = Inr (n1, st1, ok)" using Suc.prems(2) by (auto simp: sum_bind_Inr_iff)
  then have ok: "ok" and r: "DisconnectBlocks k E st1 n1 = Inr (n', True)" using Suc.prems(2) by (auto split: if_split_asm)
  have ad: "advances n n1" using DisconnectTip_moves [OF Suc.prems(1), of E st n1 st1] d ok moves_advances by auto
  then have "advances n1 n'" using Suc.IH [OF _ r] by (simp add: advances_def [of n n1])
  then show ?case by (rule advances_trans [OF ad])
qed (simp add: advances_refl)

definition keeps :: "node_state \<Rightarrow> node_state \<Rightarrow> bool" where
  "keeps n n' \<longleftrightarrow> same_index (index n) (index n') \<and> node_ok n'"

lemma keeps_trans: "keeps n n1 \<Longrightarrow> keeps n1 n2 \<Longrightarrow> keeps n n2"
  unfolding keeps_def using same_index_trans [of "index n" "index n1" "index n2"] by blast

lemma keeps_marks: "only_marks n n' \<Longrightarrow> node_ok n \<Longrightarrow> keeps n n'"
  using only_marks_ok by (auto simp: keeps_def only_marks_def)

lemma keeps_advances: "advances n n' \<Longrightarrow> keeps n n'"
  by (simp add: keeps_def advances_def)

lemma keeps_known: "keeps n n' \<Longrightarrow> known (tree (index n')) = known (tree (index n))"
  by (simp add: keeps_def same_index_def same_tree_def)

text \<open>An operation can fail and the node goes on, unless the failure was one of the disk: that leaves the
  validation state in the mode of an error, and the node shuts down (\<open>AbortNode\<close>).\<close>

definition survives :: "bool \<Rightarrow> CValidationState \<Rightarrow> bool" where
  "survives ok st \<longleftrightarrow> ok \<or> vs_mode st \<noteq> MODE_ERROR"

lemma vs_Error_mode [simp]: "vs_mode (snd (vs_Error msg st)) = MODE_ERROR"
  by (simp add: vs_Error_def)

lemma FlushStateToDisk_error:
  "FlushStateToDisk E mode st n = Inr (n', st', False) \<Longrightarrow> vs_mode st' = MODE_ERROR"
  by (auto simp: FlushStateToDisk_def Let_def split: if_split_asm option.split_asm bool.split_asm)

lemma keeps_same: "node_ok n \<Longrightarrow> keeps n n"
  by (simp add: keeps_def)

lemma DisconnectTip_survives:
  assumes ok: "node_ok n" and d: "DisconnectTip E st n = Inr (n', st', ok)" and s: "survives ok st'"
  shows "keeps n n'"
proof (cases ok)
  case True
  then show ?thesis using DisconnectTip_moves [OF ok, of E st n' st'] d moves_advances keeps_advances by auto
next
  case False
  then have ns: "vs_mode st' \<noteq> MODE_ERROR" using s by (simp add: survives_def)
  obtain t where t: "tip_of n = Some t" using d by (auto simp: DisconnectTip_def split: option.splits)
  obtain block where b: "ReadBlockFromDisk E (tree (index n)) t = Some block"
    using d t ns by (auto simp: DisconnectTip_def split: option.splits)
  obtain clean view where v: "DisconnectBlock_at E n block t (cache_on (pcoinsTip n)) = Inr (clean, view)"
    using d t b by (auto simp: DisconnectTip_def sum_bind_Inr_iff)
  have "n' = n" using d t b v ns False
    by (auto simp: DisconnectTip_def sum_bind_Inr_iff dest: FlushStateToDisk_error split: if_split_asm)
  then show ?thesis using keeps_same [OF ok] by simp
qed

lemma ConnectTip_survives:
  assumes ok: "node_ok n" and p: "p \<in> known (tree (index n))"
    and d: "ConnectTip E st p pblock n = Inr (n', st', ok)" and s: "survives ok st'"
  shows "keeps n n'"
proof (cases ok)
  case True
  then show ?thesis using ConnectTip_moves [OF ok p, of E st pblock n' st'] d moves_advances keeps_advances by auto
next
  case False
  then have ns: "vs_mode st' \<noteq> MODE_ERROR" using s by (simp add: survives_def)
  have prev: "pprev (blk n p) = tip_of n" using d by (auto simp: ConnectTip_def split: if_split_asm)
  define ob where "ob = (case pblock of Some b \<Rightarrow> Some b | None \<Rightarrow> ReadBlockFromDisk E (tree (index n)) p)"
  obtain block where b: "ob = Some block"
    using d prev ns unfolding ConnectTip_def ob_def [symmetric] by (cases ob) auto
  define cb where "cb = ConnectBlock (conn E) (index n) (chainActive n) (versionbitscache n) (tip_GetCoins (coins_usage E)) (coins_usage E)
                 tip_GetBestBlock block st p (cache_on (pcoinsTip n)) False"
  note d' = d [unfolded ConnectTip_def ob_def [symmetric] b option.case cb_def [symmetric] Let_def, simplified prev]
  have "only_marks n n'"
  proof (cases cb)
    case (Inr r)
    then have False using d' ns \<open>\<not> ok\<close> by (auto simp: sum_bind_Inr_iff split: if_split_asm dest!: FlushStateToDisk_error)
    then show ?thesis ..
  next
    case (Inl x)
    then obtain st1 rej where x: "x = Rejected st1 rej"
        "n' = reject_block E block rej n \<or> InvalidBlockFound p st1 (reject_block E block rej n) = Inr n'"
      using d' by (cases x) (auto simp: sum_bind_Inr_iff split: if_split_asm)
    show ?thesis using x(2) only_marks_trans [OF reject_block_marks InvalidBlockFound_marks] reject_block_marks by blast
  qed
  then show ?thesis by (rule keeps_marks [OF _ ok])
qed

lemma disconnect_to_survives:
  assumes "node_ok n" "disconnect_to fuel E fork st n = Inr (n', st', ok)" "survives ok st'"
  shows "keeps n n'"
  using assms
proof (induction fuel E fork st n rule: disconnect_to.induct)
  case (1 fuel E fork st n)
  show ?case
  proof (cases "tip_of n = None \<or> tip_of n = fork \<or> fuel = 0")
    case True
    then show ?thesis using "1.prems" keeps_same by (cases fuel) (auto split: if_split_asm)
  next
    case False
    then obtain k where k: "fuel = Suc k" by (cases fuel) auto
    obtain n1 st1 ok1 where d: "DisconnectTip E st n = Inr (n1, st1, ok1)"
      using "1.prems"(2) False k by (auto simp: sum_bind_Inr_iff)
    have r: "if ok1 then disconnect_to k E fork st1 n1 = Inr (n', st', ok) else n' = n1 \<and> st' = st1 \<and> \<not> ok"
      using "1.prems"(2) False k d by (auto split: if_split_asm)
    have k1: "keeps n n1"
      by (rule DisconnectTip_survives [OF "1.prems"(1) d]) (use r "1.prems"(3) in \<open>auto simp: survives_def split: if_split_asm\<close>)
    show ?thesis
    proof (cases ok1)
      case True
      have "keeps n1 n'"
        by (rule "1.IH" [OF _ k]) (use False True k1 r "1.prems"(3) in \<open>simp_all add: keeps_def [of n n1]\<close>)
      then show ?thesis by (rule keeps_trans [OF k1])
    qed (use k1 r in simp)
  qed
qed


lemma connect_list_survives:
  assumes "node_ok n" "path_ok (tree (index n)) (tip_of n) ps"
    "connect_list E st old most low pblock ps n = Inr (n', st', e)" "survives (e \<noteq> System_error) st'"
  shows "keeps n n'"
  using assms
proof (induction ps arbitrary: n st)
  case (Cons p ps)
  have p: "p \<in> known (tree (index n))" and ps: "path_ok (tree (index n)) (Some p) ps"
    using Cons.prems(2) by (simp_all add: path_ok_Cons)
  define pb where "pb = (if p = most then pblock else None)"
  obtain n1 st1 ok where c: "ConnectTip E st p pb n = Inr (n1, st1, ok)"
    using Cons.prems(3) by (auto simp: pb_def sum_bind_Inr_iff)
  note run = Cons.prems(3) [unfolded connect_list.simps pb_def [symmetric] c sum_bind.simps prod.case]
  show ?case
  proof (cases ok)
    case False
    then have r: "(n1 = n' \<and> survives ok st1) \<or> (vs_IsInvalid st1 \<and> (n' = n1 \<or> InvalidChainFound low n1 = Inr n'))"
      using run Cons.prems(4) by (auto simp: sum_bind_Inr_iff survives_def split: if_split_asm)
    have "survives ok st1" using r by (auto simp: survives_def vs_IsInvalid_def)
    note k1 = ConnectTip_survives [OF Cons.prems(1) p c this]
    then have "keeps n1 n'" using r InvalidChainFound_marks keeps_marks keeps_same by (auto simp: keeps_def [of n n1])
    then show ?thesis by (rule keeps_trans [OF k1])
  next
    case True
    have "ConnectTip E st p pb n = Inr (n1, st1, True)" using c True by simp
    note mv = ConnectTip_moves [OF Cons.prems(1) p this, THEN conjunct1]
    obtain n2 where pr: "PruneBlockIndexCandidates n1 = Inr n2" using run True by (auto simp: sum_bind_Inr_iff)
    have ok1: "node_ok n1" "tip_of n1 = Some p" using mv unfolding moves_to_def by blast+
    note p2 = Prune_advances [OF ok1(1) pr]
    have ad: "advances n n2" using advances_trans [OF moves_advances [OF mv]] p2 by blast
    have t2: "tip_of n2 = Some p" "node_ok n2" using p2 ok1(2) by (simp_all add: advances_def)
    have "n' = n2 \<or> connect_list E st1 old most low pblock ps n2 = Inr (n', st', e)"
      using run [unfolded pr sum_bind.simps if_not_P [OF not_not [THEN iffD2, OF True]]] t2(1) by (auto split: option.split_asm if_split_asm)
    then have "keeps n2 n'"
      using Cons.IH [OF t2(2) _ _ Cons.prems(4)] ps t2 keeps_same by (auto simp: path_ok_same [OF advances_tree [OF ad]])
    then show ?thesis by (rule keeps_trans [OF keeps_advances [OF ad]])
  qed
qed (simp add: keeps_same)

lemma connect_up_survives:
  assumes "node_ok n" "most \<in> known (tree (index n))" "\<And>o'. old = Some o' \<Longrightarrow> o' \<in> known (tree (index n))"
    "- 1 \<le> h" "h \<le> BlockIndex.nHeight (blk n most)" "tip_of n = ancestor_at (tree (index n)) most h"
    "connect_up fuel E st old most pblock h n = Inr (n', st', e)" "survives (e \<noteq> System_error) st'"
  shows "keeps n n'"
  using assms
proof (induction fuel arbitrary: st h n)
  case (0 st h n)
  then show ?case by (auto simp: keeps_same split: if_split_asm)
next
  case (Suc fuel st h n)
  let ?T = "tree (index n)"
  note wf = node_ok_parts(2) [OF Suc.prems(1)] and mk = Suc.prems(2)
  show ?case
  proof (cases "h = BlockIndex.nHeight (blk n most)")
    case True
    then show ?thesis using Suc.prems by (simp add: keeps_same)
  next
    case False
    define target where "target = min (h + 32) (BlockIndex.nHeight (blk n most))"
    have t: "h < target" "target \<le> BlockIndex.nHeight (blk n most)" using False Suc.prems(5) by (auto simp: target_def)
    define ps where "ps = ancestors ?T most h (nat (target - h))"
    have ga: "node_fault_of (GetAncestor ?T most target) = Inr (ancestor_at ?T most target)"
      using GetAncestor_correct [OF wf mk] by simp
    have bb: "rev (blocks_between ?T (nat target + 1) h (ancestor_at ?T most target)) = ps"
      unfolding ps_def by (rule blocks_between_path [OF wf mk Suc.prems(4) t])
    obtain n1 st1 e1 low where c: "connect_list E st old most low pblock ps n = Inr (n1, st1, e1)"
      and r: "(if e1 = Goes_on then connect_up fuel E st1 old most pblock target n1 else Inr (n1, st1, e1)) = Inr (n', st', e)"
      using Suc.prems(7) False unfolding connect_up.simps [of "Suc fuel"] if_not_P [OF False] nat.case Let_def target_def [symmetric]
        ga sum_bind.simps bb by (auto simp: sum_bind_Inr_iff)
    have k: "0 < nat (target - h)" "h + int (nat (target - h)) = target" using t by auto
    note an = ancestors_path [OF wf mk Suc.prems(4), of "nat (target - h)", folded ps_def, unfolded k(2), OF t(2)]
    have ne: "ps \<noteq> []" using k(1) by (simp add: ps_def ancestors_def)
    have po: "path_ok ?T (tip_of n) ps" using an(1) Suc.prems(6) by simp
    have "survives (e1 \<noteq> System_error) st1" using r Suc.prems(8) by (auto simp: survives_def split: if_split_asm)
    note k1 = connect_list_survives [OF Suc.prems(1) po c this]
    show ?thesis
    proof (cases "e1 = Goes_on")
      case False
      then show ?thesis using r k1 by simp
    next
      case True
      have lr: "list_result (uncorrupted E pblock) n ps old n1 e1"
        by (rule connect_list_result [OF Suc.prems(1) po c Suc.prems(3)])
      then have ad: "advances n n1" and t1: "tip_of n1 = ancestor_at ?T most target"
        using True ne an(3) k(1) by (auto simp: list_result_def)
      note same = advances_tree [OF ad]
      have "keeps n1 n'"
      proof (rule Suc.IH)
        show "node_ok n1" using ad by (simp add: advances_def)
        show "connect_up fuel E st1 old most pblock target n1 = Inr (n', st', e)" using r True by simp
      qed (use Suc.prems t t1 mk in \<open>simp_all add: same_tree_fields [OF same] same_tree_ancestor [OF same]\<close>)
      then show ?thesis by (rule keeps_trans [OF k1])
    qed
  qed
qed


lemma ActivateBestChainStep_survives:
  assumes ok: "node_ok n" and m: "most \<in> known (tree (index n))"
    and s: "ActivateBestChainStep E st most pblock n = Inr (n', st', b)" "survives b st'"
  shows "keeps n n'"
proof -
  let ?T = "tree (index n)"
  obtain fork where fk: "chain_FindFork ?T (chainActive n) (Some most) = Inr fork"
    and hc: "highest_common ?T (chainActive n) most fork" using chain_FindFork_correct [OF node_ok_parts(2) [OF ok] m, of "chainActive n"] by blast
  define hf where "hf = (case fork of None \<Rightarrow> - 1 | Some f \<Rightarrow> BlockIndex.nHeight (blk n f))"
  note run = s(1) [unfolded ActivateBestChainStep_def Let_def fk node_fault_of.simps sum_bind.simps]
  obtain n1 st1 ok1 where d: "disconnect_to (length (vChain (chainActive n))) E fork st n = Inr (n1, st1, ok1)"
    using run by (auto simp: sum_bind_Inr_iff split: if_split_asm)
  show ?thesis
  proof (cases ok1)
    case False
    then have "n' = n1" "survives ok1 st1" using run d s(2) by simp_all
    then show ?thesis using disconnect_to_survives [OF ok d] by simp
  next
    case True
    then have "disconnect_to (length (vChain (chainActive n))) E fork st n = Inr (n1, st1, True)" using d by simp
    note sd = step_disconnected [OF ok m hc this, folded hf_def]
    obtain st2 e where c: "connect_up (nat (BlockIndex.nHeight (blk n1 most) - hf)) E st (tip_of n) most pblock hf n1 = Inr (n', st2, e)"
      and e: "survives (e \<noteq> System_error) st2"
      using run d sd(2,3) True s(2) by (auto simp: sum_bind_Inr_iff survives_def split: if_split_asm)
    have "keeps n1 n'" by (rule connect_up_survives [OF sd(7,8,9,5,6,4) c e]) auto
    then show ?thesis by (rule keeps_trans [OF keeps_advances [OF sd(1)]])
  qed
qed


lemma ActivateBestChain_survives:
  assumes "node_ok n" "ActivateBestChain rounds E st pblock n = Some (Inr (n', st', ok))" "survives ok st'"
  shows "keeps n n'"
  using assms(1,2)
proof (induction rounds arbitrary: n st)
  case (Suc rounds)
  define s where "s = FindMostWorkChain (Suc (length (setBlockIndexCandidates n))) n"
  have "card (set (setBlockIndexCandidates n)) < Suc (length (setBlockIndexCandidates n))" using card_length le_imp_less_Suc by blast
  note fm = FindMostWorkChain_finds [OF Suc.prems(1) this, folded s_def]
  obtain n1 r where s: "s = Inr (n1, r)" using Suc.prems(2) by (cases s) (auto simp: s_def)
  have l: "loses n n1" "most_work n1 r" using fm s by simp_all
  have ok1: "node_ok n1" by (rule loses_ok [OF l(1) Suc.prems(1)])
  have k1: "keeps n n1" using l(1) Suc.prems(1) by (simp add: loses_def advances_marks keeps_marks)
  show ?case
  proof (cases "r = None \<or> tip_of n1 = r")
    case True
    then have "n' = n1" using Suc.prems(2) s by (auto simp: s_def split: option.split_asm)
    then show ?thesis using k1 by simp
  next
    case False
    then obtain most where most: "r = Some most" "tip_of n1 \<noteq> Some most" by auto
    have mk: "most \<in> known (tree (index n1))" using l(2) most node_ok_parts(4) [OF ok1] by (auto simp: most_work_def)
    define pb where "pb = (case pblock of Some b \<Rightarrow> if block_hash (node (conn E)) b = phashBlock (blk n1 most) then Some b else None
                       | None \<Rightarrow> None)"
    have run: "(case ActivateBestChainStep E st most pb n1 of
            Inl e \<Rightarrow> Some (Inl e)
          | Inr (n, st, False) \<Rightarrow> Some (Inr (n, st, False))
          | Inr (n, st, True) \<Rightarrow>
              if tip_of n = Some most then Some (FlushStateToDisk E FLUSH_STATE_PERIODIC st n)
              else ActivateBestChain rounds E st pblock n) = Some (Inr (n', st', ok))"
      using Suc.prems(2) s most by (simp add: s_def pb_def)
    then obtain n2 st2 b where s2: "ActivateBestChainStep E st most pb n1 = Inr (n2, st2, b)"
      by (cases "ActivateBestChainStep E st most pb n1") auto
    have "survives b st2" using run s2 assms(3) by (cases b) (simp_all add: survives_def)
    note k2 = ActivateBestChainStep_survives [OF ok1 mk s2 this]
    then have ok2: "node_ok n2" by (simp add: keeps_def)
    have "n' = n2 \<or> FlushStateToDisk E FLUSH_STATE_PERIODIC st2 n2 = Inr (n', st', ok) \<or>
        ActivateBestChain rounds E st2 pblock n2 = Some (Inr (n', st', ok))"
      using run s2 by (cases b) (auto split: if_split_asm)
    then have "keeps n2 n'" using Suc.IH [OF ok2] FlushStateToDisk_marks keeps_marks [OF _ ok2] keeps_same [OF ok2] by blast
    then show ?thesis using keeps_trans [OF k1 keeps_trans [OF k2]] by blast
  qed
qed simp

lemma invalidate_loop_survives:
  "node_ok n \<Longrightarrow> invalidate_loop fuel E p st n = Inr (n', st', ok) \<Longrightarrow> survives ok st' \<Longrightarrow> keeps n n'"
proof (induction fuel E p st n rule: invalidate_loop.induct)
  case (1 fuel E p st n)
  note run = "1.prems"(2) [unfolded invalidate_loop.simps [of fuel E p st n]]
  show ?case
  proof (cases "\<not> chain_Contains (tree (index n)) (chainActive n) p \<or> fuel = 0")
    case True
    then have "n' = n" using run by (cases fuel) (auto split: if_split_asm simp del: invalidate_loop.simps)
    then show ?thesis using "1.prems"(1) by (simp add: keeps_def)
  next
    case False
    then obtain k where k: "fuel = Suc k" by (cases fuel) auto
    note run = run [unfolded if_not_P [OF False [unfolded de_Morgan_disj, THEN conjunct1]] k nat.case]
    obtain w where w: "tip_of n = Some w" using run by (cases "tip_of n") auto
    define m where "m = erase_candidate w (mark_dirty w (set_status (\<lambda>s. s OR BLOCK_FAILED_CHILD) w n))"
    have km: "keeps n m"
      unfolding m_def
      by (rule keeps_marks [OF only_marks_trans [OF only_marks_trans [OF set_status_marks mark_dirty_marks] erase_candidate_marks] "1.prems"(1)])
    obtain n1 st1 b where d: "DisconnectTip E st m = Inr (n1, st1, b)"
      using run [unfolded w option.case, folded m_def] by (auto simp: sum_bind_Inr_iff simp del: invalidate_loop.simps)
    have r: "if b then invalidate_loop k E p st1 n1 = Inr (n', st', ok) else n' = n1 \<and> st' = st1 \<and> \<not> ok"
      using run [unfolded w option.case, folded m_def] d by (auto split: if_split_asm simp del: invalidate_loop.simps)
    have "node_ok m" using km by (simp add: keeps_def)
    then have k1: "keeps m n1"
      by (rule DisconnectTip_survives [OF _ d]) (use r "1.prems"(3) in \<open>auto simp: survives_def split: if_split_asm\<close>)
    have "keeps n1 n'"
    proof (cases b)
      case True
      show ?thesis
        by (rule "1.IH" [OF _ k w _ _ _ "1.prems"(3)]) (use False True k1 r in \<open>simp_all add: keeps_def [of m n1]\<close>)
    qed (use k1 r in \<open>simp add: keeps_def [of m n1] keeps_same\<close>)
    then show ?thesis using keeps_trans [OF km keeps_trans [OF k1]] by blast
  qed
qed

lemma add_eligible_keeps:
  "node_ok n \<Longrightarrow> set ps \<subseteq> known (tree (index n)) \<Longrightarrow> add_eligible ps n = Inr n' \<Longrightarrow> keeps n n'"
proof (induction ps arbitrary: n)
  case (Cons it rest)
  have i: "keeps n (insert_candidate it n)" by (rule keeps_marks [OF insert_candidate_marks Cons.prems(1)]) (use Cons.prems(2) in simp)
  obtain m where m: "m = n \<or> m = insert_candidate it n" "add_eligible rest m = Inr n'"
    using Cons.prems(3) by (auto simp: sum_bind_Inr_iff split: if_split_asm)
  have km: "keeps n m" using m(1) i Cons.prems(1) by (auto simp: keeps_def [of n n])
  then have "keeps m n'" using Cons.IH [OF _ _ m(2)] Cons.prems(2) keeps_known [OF km] by (simp add: keeps_def [of n m])
  then show ?case by (rule keeps_trans [OF km])
qed (simp add: keeps_def)

lemma map_entries_set: "node_ok n \<Longrightarrow> set (map_entries n) = known (tree (index n))"
  by (simp add: map_entries_def known_finite)

lemma InvalidateBlock_survives:
  assumes "node_ok n" "InvalidateBlock E st p n = Inr (n', st', ok)" "survives ok st'"
  shows "keeps n n'"
proof -
  define m where "m = erase_candidate p (mark_dirty p (set_status (\<lambda>s. s OR BLOCK_FAILED_VALID) p n))"
  have km: "keeps n m"
    unfolding m_def
    by (rule keeps_marks [OF only_marks_trans [OF only_marks_trans [OF set_status_marks mark_dirty_marks] erase_candidate_marks] assms(1)])
  obtain n1 st1 b where l: "invalidate_loop (length (vChain (chainActive m))) E p st m = Inr (n1, st1, b)"
    and r: "if b then sum_bind (add_eligible (map_entries n1) n1) (\<lambda>n. sum_bind (InvalidChainFound p n) (\<lambda>n. Inr (n, st1, True))) = Inr (n', st', ok)
       else n' = n1 \<and> st' = st1 \<and> \<not> ok"
    using assms(2) unfolding InvalidateBlock_def Let_def m_def [symmetric] by (auto simp: sum_bind_Inr_iff split: if_split_asm)
  have k1: "keeps m n1"
    by (rule invalidate_loop_survives [OF _ l]) (use km r assms(3) in \<open>auto simp: keeps_def [of n m] survives_def sum_bind_Inr_iff split: if_split_asm\<close>)
  then have ok1: "node_ok n1" by (simp add: keeps_def)
  have "keeps n1 n'"
  proof (cases b)
    case True
    then obtain n2 where r2: "add_eligible (map_entries n1) n1 = Inr n2" "InvalidChainFound p n2 = Inr n'"
      using r by (auto simp: sum_bind_Inr_iff)
    have k2: "keeps n1 n2" by (rule add_eligible_keeps [OF ok1 _ r2(1)]) (simp add: map_entries_set [OF ok1])
    then have "keeps n2 n'" using keeps_marks InvalidChainFound_marks [OF r2(2)] by (simp add: keeps_def [of n1 n2])
    then show ?thesis by (rule keeps_trans [OF k2])
  qed (use r ok1 in \<open>simp add: keeps_same\<close>)
  then show ?thesis using keeps_trans [OF km keeps_trans [OF k1]] by blast
qed

lemma reconsider_loop_marks:
  "set ps \<subseteq> known (tree (index n)) \<Longrightarrow> reconsider_loop p h ps n = Inr n' \<Longrightarrow> only_marks n n'"
proof (induction ps arbitrary: n)
  case (Cons it rest)
  define n1 where "n1 = mark_dirty it (set_status (\<lambda>s. s AND NOT BLOCK_FAILED_MASK) it n)"
  have m1: "only_marks n n1" unfolding n1_def by (rule only_marks_trans [OF set_status_marks mark_dirty_marks])
  have i: "only_marks n1 (insert_candidate it n1)"
    by (rule insert_candidate_marks) (use Cons.prems(1) only_marks_fields(3) [OF m1] in simp)
  define add_result where "add_result = (\<lambda>add. let n = (if add then insert_candidate it n1 else n1)
      in if pindexBestInvalid n = Some it then n\<lparr>pindexBestInvalid := None\<rparr> else n)"
  obtain valid where v: "node_fault_of (IsValid (blk n it) BLOCK_VALID_TRANSACTIONS) = Inr valid"
    using Cons.prems(2) unfolding reconsider_loop.simps sum_bind_Inr_iff by blast
  obtain a where a: "(if valid then Inr None else node_fault_of (GetAncestor (tree (index n)) it h)) = Inr a"
    using Cons.prems(2) unfolding reconsider_loop.simps v sum_bind.simps by (simp only: sum_bind_Inr_iff) blast
  note run = Cons.prems(2) [unfolded reconsider_loop.simps v sum_bind.simps a Let_def, folded n1_def]
  have "\<exists>m add. (m = n \<or> m = add_result add) \<and> reconsider_loop p h rest m = Inr n'"
  proof (cases "valid \<or> a \<noteq> Some p")
    case True
    then show ?thesis using run by auto
  next
    case False
    note run = run [unfolded if_not_P [OF False]]
    obtain valid2 where v2: "node_fault_of (IsValid (blk n1 it) BLOCK_VALID_TRANSACTIONS) = Inr valid2"
      using run unfolding sum_bind_Inr_iff by blast
    obtain add where ad: "(if valid2 \<and> nChainTx (blk n1 it) \<noteq> 0 then after_tip n1 it else Inr False) = Inr add"
      using run unfolding v2 sum_bind.simps by (simp only: sum_bind_Inr_iff) blast
    have "reconsider_loop p h rest (add_result add) = Inr n'"
      using run unfolding v2 ad sum_bind.simps add_result_def Let_def .
    then show ?thesis by blast
  qed
  then obtain m add where m: "m = n \<or> m = add_result add" "reconsider_loop p h rest m = Inr n'" by blast
  have km: "only_marks n m"
  proof (cases "m = n")
    case False
    define n2 where "n2 = (if add then insert_candidate it n1 else n1)"
    have "only_marks n n2" using only_marks_trans [OF m1 i] m1 by (simp add: n2_def)
    then show ?thesis using m(1) False field_marks(1) [of n2 None] only_marks_trans [of n n2]
      unfolding add_result_def Let_def n2_def [symmetric] by (auto split: if_split_asm)
  qed simp
  then have "only_marks m n'" using Cons.IH [OF _ m(2)] Cons.prems(1) only_marks_fields(3) [OF km] by simp
  then show ?case by (rule only_marks_trans [OF km])
qed simp

lemma clear_ancestors_marks: "only_marks n (clear_ancestors fuel p n)"
proof (induction fuel p n rule: clear_ancestors.induct)
  case (3 fuel p n)
  define m where "m = (if failed (blk n p) then mark_dirty p (set_status (\<lambda>s. s AND NOT BLOCK_FAILED_MASK) p n) else n)"
  have "only_marks n m" using only_marks_trans [OF set_status_marks mark_dirty_marks] by (simp add: m_def)
  then show ?case using "3.IH" [OF m_def] only_marks_trans by (simp add: m_def [symmetric] Let_def)
qed simp_all

lemma ReconsiderBlock_keeps:
  assumes "node_ok n" "ReconsiderBlock p n = Inr n'"
  shows "keeps n n'"
proof -
  obtain n1 where r: "reconsider_loop p (BlockIndex.nHeight (blk n p)) (map_entries n) n = Inr n1"
      "n' = clear_ancestors (path_fuel n1 p) (Some p) n1"
    using assms(2) by (auto simp: ReconsiderBlock_def sum_bind_Inr_iff)
  have "only_marks n n1" by (rule reconsider_loop_marks [OF _ r(1)]) (simp add: map_entries_set [OF assms(1)])
  then show ?thesis using keeps_marks [OF only_marks_trans [OF _ clear_ancestors_marks] assms(1)] r(2) by simp
qed


section \<open>New headers\<close>

lemma AddToBlockIndex_grows:
  assumes wf: "cs_wf cs" and self: "hashfn block \<noteq> hashPrevBlock block" and a: "AddToBlockIndex hashfn cs block = Inr (cs', p)"
  shows "cs_wf cs' \<and> known (tree cs) \<subseteq> known (tree cs') \<and> (\<forall>q \<in> known (tree cs). obj (tree cs') q = obj (tree cs) q) \<and>
    (\<forall>q \<in> known (tree cs') - known (tree cs). phashBlock (obj (tree cs') q) = hashfn block)"
proof (cases "mapBlockIndex cs (hashfn block)")
  case (Some q)
  then show ?thesis using a wf AddToBlockIndex_known [of cs hashfn block q] by simp
next
  case None
  then have m: "cs_wf cs'" "mapBlockIndex cs' = (mapBlockIndex cs)(hashfn block \<mapsto> next_ptr cs)"
      "\<forall>q \<in> known (tree cs). obj (tree cs') q = obj (tree cs) q"
    using AddToBlockIndex_new [of cs hashfn block, OF wf None self] a by auto
  have mo: "map_ok cs" "map_ok cs'" using wf m(1) by (simp_all add: cs_wf_def)
  have "q \<in> known (tree cs')" if q: "q \<in> known (tree cs)" for q
  proof -
    have k: "mapBlockIndex cs (phashBlock (obj (tree cs) q)) = Some q" using mo(1) q by (simp add: map_ok_def)
    then have "phashBlock (obj (tree cs) q) \<noteq> hashfn block" using None by auto
    then have "mapBlockIndex cs' (phashBlock (obj (tree cs) q)) = Some q" using k m(2) by simp
    then show ?thesis using mo(2) by (auto simp: map_ok_def)
  qed
  moreover have "phashBlock (obj (tree cs') q) = hashfn block" if q: "q \<in> known (tree cs')" "q \<notin> known (tree cs)" for q
  proof (rule ccontr)
    assume n: "phashBlock (obj (tree cs') q) \<noteq> hashfn block"
    have "mapBlockIndex cs' (phashBlock (obj (tree cs') q)) = Some q" using mo(2) q(1) by (simp add: map_ok_def)
    then have "mapBlockIndex cs (phashBlock (obj (tree cs') q)) = Some q" using m(2) n by simp
    then show False using mo(1) q(2) by (simp add: map_ok_def)
  qed
  ultimately show ?thesis using m(1,3) by blast
qed

lemma header_ok_step:
  assumes ok: "node_ok n" and self: "hashfn block \<noteq> hashPrevBlock block" and nn: "\<not> blob_IsNull (hashfn block)"
    and a: "AddToBlockIndex hashfn (index n) block = Inr (cs', p)"
  shows "node_ok (n\<lparr>index := cs'\<rparr>)"
proof -
  note wf = node_ok_parts(2) [OF ok] and p = node_ok_parts [OF ok]
  have g: "cs_wf cs'" "known (tree (index n)) \<subseteq> known (tree cs')" "\<And>q. q \<in> known (tree (index n)) \<Longrightarrow> obj (tree cs') q = blk n q"
      "\<And>q. q \<in> known (tree cs') \<Longrightarrow> q \<notin> known (tree (index n)) \<Longrightarrow> phashBlock (obj (tree cs') q) = hashfn block"
    using AddToBlockIndex_grows [OF p(1) self a] by auto
  have ag: "agree_on (known (tree (index n))) (tree (index n)) (tree cs')" using g(3) by (simp add: agree_on_def)
  have hash: "\<not> blob_IsNull (phashBlock (obj (tree cs') q))" if "q \<in> known (tree cs')" for q
    using g(3,4) [of q] p(7) [of q] nn that by (cases "q \<in> known (tree (index n))") auto
  have ch: "chain_wf (tree cs') (chainActive n)"
  proof (cases "vChain (chainActive n) = []")
    case False
    then obtain t where t: "t \<in> known (tree (index n))" "BlockIndex.nHeight (blk n t) + 1 = int (length (vChain (chainActive n)))"
        "\<forall>h < length (vChain (chainActive n)). vChain (chainActive n) ! h = ancestor_at (tree (index n)) t (int h)"
      using p(3) by (auto simp: chain_wf_def)
    have "t \<in> known (tree cs')" "BlockIndex.nHeight (obj (tree cs') t) + 1 = int (length (vChain (chainActive n)))"
        "\<forall>h < length (vChain (chainActive n)). vChain (chainActive n) ! h = ancestor_at (tree cs') t (int h)"
      using t g(2,3) ancestor_at_agree [OF wf ag t(1)] by auto
    then show ?thesis unfolding chain_wf_def by blast
  qed (simp add: chain_wf_def)
  have "(case tip_of n of None \<Rightarrow> blob_null | Some t \<Rightarrow> phashBlock (obj (tree cs') t)) =
      (case tip_of n of None \<Rightarrow> blob_null | Some t \<Rightarrow> phashBlock (blk n t))"
    using g(3) tip_known [OF ok] by (cases "tip_of n") auto
  then have "synced (n\<lparr>index := cs'\<rparr>)" using p(5) by (cases "tip_of n") (simp_all add: synced_def)
  then show ?thesis using g(1,2) hash ch p(4,6) unfolding node_ok_def by (auto simp: unlinked_def)
qed

section \<open>Runs of a node\<close>

inductive node_step :: "(CBlockHeader \<Rightarrow> uint256) \<Rightarrow> ('pk, 'sig) activate_env \<Rightarrow> node_state \<Rightarrow> node_state \<Rightarrow> bool" for hashfn E where
  \<comment> \<open>what the node does to its chain state; a run ends with a failed assertion or when the disk fails and the node shuts down\<close>
  header: "AddToBlockIndex hashfn (index n) block = Inr (cs', p) \<Longrightarrow> hashfn block \<noteq> hashPrevBlock block \<Longrightarrow>
    \<not> blob_IsNull (hashfn block) \<Longrightarrow> node_step hashfn E n (n\<lparr>index := cs'\<rparr>)"
| transactions: "p \<in> known (tree (index n)) \<Longrightarrow> ReceivedBlockTransactions block p file pos n = Inr n' \<Longrightarrow> node_step hashfn E n n'"
| activation: "ActivateBestChain rounds E st pblock n = Some (Inr (n', st', ok)) \<Longrightarrow> survives ok st' \<Longrightarrow> node_step hashfn E n n'"
| invalidation: "InvalidateBlock E st p n = Inr (n', st', ok) \<Longrightarrow> survives ok st' \<Longrightarrow> node_step hashfn E n n'"
| reconsideration: "ReconsiderBlock p n = Inr n' \<Longrightarrow> node_step hashfn E n n'"
| disconnection: "DisconnectTip E st n = Inr (n', st', ok) \<Longrightarrow> survives ok st' \<Longrightarrow> node_step hashfn E n n'"
| disconnections: "DisconnectBlocks k E st n = Inr (n', True) \<Longrightarrow> node_step hashfn E n n'"
| pruning: "PruneBlockIndexCandidates n = Inr n' \<Longrightarrow> node_step hashfn E n n'"
| flushing: "FlushStateToDisk E mode st n = Inr (n', st', ok) \<Longrightarrow> node_step hashfn E n n'"

lemma node_step_ok:
  assumes "node_step hashfn E n n'" "node_ok n"
  shows "node_ok n'"
  using assms
proof (cases rule: node_step.cases)
  case header
  then show ?thesis using header_ok_step [OF assms(2)] by simp
next
  case transactions
  then show ?thesis using ReceivedBlockTransactions_marks [OF assms(2)] only_marks_ok assms(2) by blast
next
  case activation
  then show ?thesis using ActivateBestChain_survives [OF assms(2)] by (simp add: keeps_def) blast
next
  case invalidation
  then show ?thesis using InvalidateBlock_survives [OF assms(2)] by (simp add: keeps_def) blast
next
  case reconsideration
  then show ?thesis using ReconsiderBlock_keeps [OF assms(2)] by (auto simp: keeps_def)
next
  case disconnection
  then show ?thesis using DisconnectTip_survives [OF assms(2)] by (simp add: keeps_def) blast
next
  case disconnections
  then show ?thesis using DisconnectBlocks_ok [OF assms(2)] by (auto simp: advances_def)
next
  case pruning
  then show ?thesis using PruneBlockIndexCandidates_marks only_marks_ok assms(2) by blast
next
  case flushing
  then show ?thesis using FlushStateToDisk_marks only_marks_ok assms(2) by blast
qed

definition node_start :: "versionbits_caches \<Rightarrow> CCoinsViewDB CCoinsViewCache \<Rightarrow> node_state" where
  \<comment> \<open>an empty data directory\<close>
  "node_start caches coins0 = \<lparr>index = cs_empty, chainActive = \<lparr>vChain = []\<rparr>, setBlockIndexCandidates = [], pindexBestInvalid = None,
     mapBlocksUnlinked = [], pcoinsTip = coins0, versionbitscache = caches, mapRejectedBlocks = [], nBlockSequenceId = 1\<rparr>"

inductive node_run :: "(CBlockHeader \<Rightarrow> uint256) \<Rightarrow> ('pk, 'sig) activate_env set \<Rightarrow> node_state \<Rightarrow> bool" for hashfn Es where
  \<comment> \<open>the environment, with its clock and disk, may be another one at every step\<close>
  start: "tip_GetBestBlock coins0 = blob_null \<Longrightarrow> node_run hashfn Es (node_start caches coins0)"
| step: "node_run hashfn Es n \<Longrightarrow> E \<in> Es \<Longrightarrow> node_step hashfn E n n' \<Longrightarrow> node_run hashfn Es n'"

lemma node_run_ok: "node_run hashfn Es n \<Longrightarrow> node_ok n"
proof (induction rule: node_run.induct)
  case (start coins0 caches)
  then show ?case
    using cs_wf_empty by (simp add: node_ok_def node_start_def synced_def unlinked_def chain_wf_def chain_Tip_def cs_empty_def)
next
  case step
  then show ?case using node_step_ok by blast
qed


lemma activation_round:
  "(\<exists>c. \<forall>k. ActivateBestChain (Suc k) E st pblock n = Some c) \<or>
   (\<exists>st2 n2. \<forall>k. ActivateBestChain (Suc k) E st pblock n = ActivateBestChain k E st2 pblock n2)"
proof (cases "FindMostWorkChain (Suc (length (setBlockIndexCandidates n))) n")
  case (Inr a)
  obtain n1 r where a: "a = (n1, r)" by fastforce
  show ?thesis
  proof (cases r)
    case (Some most)
    define s where "s = ActivateBestChainStep E st most
      (case pblock of Some b \<Rightarrow> if block_hash (node (conn E)) b = phashBlock (blk n1 most) then Some b else None | None \<Rightarrow> None) n1"
    show ?thesis
    proof (cases s)
      case (Inr b)
      obtain n2 st2 ok where b: "b = (n2, st2, ok)" by (metis surj_pair)
      show ?thesis using Inr \<open>FindMostWorkChain _ n = Inr a\<close> a Some b
        by (cases ok; cases "tip_of n1 = Some most"; cases "tip_of n2 = Some most")
          (auto simp: s_def [symmetric] Let_def simp del: FindMostWorkChain.simps)
    qed (use Inr a Some in \<open>auto simp: s_def Let_def simp del: FindMostWorkChain.simps\<close>)
  qed (use Inr a in \<open>simp del: FindMostWorkChain.simps\<close>)
qed (simp del: FindMostWorkChain.simps)

lemma ActivateBestChain_more:
  "ActivateBestChain k E st pblock n = Some r \<Longrightarrow> k \<le> k' \<Longrightarrow> ActivateBestChain k' E st pblock n = Some r"
proof (induction k arbitrary: k' st n)
  case (Suc k)
  then obtain j where j: "k' = Suc j" "k \<le> j" by (cases k') auto
  show ?case
    using activation_round [of E st pblock n] Suc.prems(1) Suc.IH [OF _ j(2)] unfolding j(1) by (elim disjE exE) (metis option.inject)+
qed simp

section \<open>An instance\<close>

text \<open>A genesis block and a block on it that is not connected yet.\<close>

definition sample_header_hash :: "CBlockHeader \<Rightarrow> uint256" where
  "sample_header_hash h = (if hashPrevBlock h = blob_null then sample_id 1 else sample_id 2)"

lemma sample_ids: "sample_id 1 \<noteq> blob_null" "sample_id 2 \<noteq> blob_null" "sample_id 1 \<noteq> sample_id 2"
    "\<not> blob_IsNull (sample_id 1)" "\<not> blob_IsNull (sample_id 2)"
  by (simp_all add: sample_id_def blob_null_def blob_IsNull_def eval_nat_numeral)

lemma sample_two_blocks:
  "\<exists>cs p q. cs_wf cs \<and> mapBlockIndex cs = [sample_id 1 \<mapsto> p, sample_id 2 \<mapsto> q] \<and> p \<noteq> q \<and>
     pprev (obj (tree cs) p) = None \<and> pprev (obj (tree cs) q) = Some p"
proof -
  let ?h2 = "demo_header\<lparr>hashPrevBlock := sample_id 1\<rparr>" and ?H = sample_header_hash
  have h: "?H demo_header = sample_id 1" "?H ?h2 = sample_id 2" "hashPrevBlock demo_header = blob_null"
    using sample_ids by (simp_all add: sample_header_hash_def demo_header_def)
  have e: "mapBlockIndex cs_empty = Map.empty" by (simp add: cs_empty_def)
  obtain cs1 where c1: "cs_wf cs1" "mapBlockIndex cs1 = [sample_id 1 \<mapsto> next_ptr cs_empty]" "pprev (obj (tree cs1) (next_ptr cs_empty)) = None"
    using AddToBlockIndex_new [OF cs_wf_empty, of ?H demo_header] sample_ids by (auto simp: h e)
  have n1: "mapBlockIndex cs1 (sample_id 2) = None" "mapBlockIndex cs1 (sample_id 1) = Some (next_ptr cs_empty)" using c1(2) sample_ids by auto
  have k1: "next_ptr cs_empty \<in> known (tree cs1)" using c1(1) n1(2) by (auto simp: cs_wf_def map_ok_def)
  then have lt: "next_ptr cs_empty \<noteq> next_ptr cs1" using c1(1) by (auto simp: cs_wf_def)
  obtain cs2 where c2: "cs_wf cs2" "mapBlockIndex cs2 = (mapBlockIndex cs1)(sample_id 2 \<mapsto> next_ptr cs1)"
      "\<forall>q \<in> known (tree cs1). obj (tree cs2) q = obj (tree cs1) q" "pprev (obj (tree cs2) (next_ptr cs1)) = mapBlockIndex cs1 (sample_id 1)"
    using AddToBlockIndex_new [OF c1(1), of ?H ?h2] sample_ids n1 by (auto simp: h)
  have "pprev (obj (tree cs2) (next_ptr cs_empty)) = None" "pprev (obj (tree cs2) (next_ptr cs1)) = Some (next_ptr cs_empty)"
    using c2(3,4) k1 c1(3) n1(2) by simp_all
  then show ?thesis using c2(1,2) c1(2) lt by (intro exI [of _ cs2]) auto
qed

definition sample_node :: "chain_state \<Rightarrow> ptr \<Rightarrow> ptr \<Rightarrow> ptr \<Rightarrow> node_state" where
  \<comment> \<open>the chain is the genesis block \<open>p\<close>; \<open>c\<close> is the only candidate\<close>
  "sample_node cs p q c = set_block (\<lambda>b. b\<lparr>nChainTx := 2, nStatus := BLOCK_HAVE_DATA\<rparr>) q
     \<lparr>index = cs, chainActive = \<lparr>vChain = [Some p]\<rparr>, setBlockIndexCandidates = [c], pindexBestInvalid = None, mapBlocksUnlinked = [],
      pcoinsTip = cache_on \<lparr>db_coins = (\<lambda>_. None), db_best = Some (sample_id 1)\<rparr>, versionbitscache = (\<lambda>_ _. None),
      mapRejectedBlocks = [], nBlockSequenceId = 1\<rparr>"

lemma sample_node_facts:
  assumes "cs_wf cs" "mapBlockIndex cs = [sample_id 1 \<mapsto> p, sample_id 2 \<mapsto> q]" "p \<noteq> q" "pprev (obj (tree cs) p) = None"
    "pprev (obj (tree cs) q) = Some p" "c = p \<or> c = q"
  shows "node_ok (sample_node cs p q c)" "p \<in> known (tree cs)" "q \<in> known (tree cs)"
    "BlockIndex.nHeight (obj (tree cs) p) = 0" "BlockIndex.nHeight (obj (tree cs) q) = 1"
proof -
  have m: "map_ok cs" and wf: "btree_wf (tree cs)" using assms(1) by (simp_all add: cs_wf_def)
  have pq: "p \<in> known (tree cs)" "phashBlock (obj (tree cs) p) = sample_id 1" "q \<in> known (tree cs)" "phashBlock (obj (tree cs) q) = sample_id 2"
    using m [unfolded map_ok_def assms(2), rule_format, of "sample_id 1" p] m [unfolded map_ok_def assms(2), rule_format, of "sample_id 2" q]
      sample_ids(3) by auto
  then show "p \<in> known (tree cs)" "q \<in> known (tree cs)" by blast+
  have "linked (tree cs) p" "linked (tree cs) q" using wf pq by (simp_all add: btree_wf_def)
  then show h: "BlockIndex.nHeight (obj (tree cs) p) = 0" "BlockIndex.nHeight (obj (tree cs) q) = 1"
    using assms(4,5) by (simp_all add: linked_def)
  have hash: "\<not> blob_IsNull (phashBlock (obj (tree cs) r))" if "r \<in> known (tree cs)" for r
  proof -
    have "mapBlockIndex cs (phashBlock (obj (tree cs) r)) = Some r" using m that by (simp add: map_ok_def)
    then show ?thesis using sample_ids by (auto simp: assms(2) split: if_splits)
  qed
  have a: "ancestor_at (tree cs) p 0 = Some p" using ancestor_at_self [of "tree cs" p] h(1) by simp
  let ?n = "\<lparr>index = cs, chainActive = \<lparr>vChain = [Some p]\<rparr>, setBlockIndexCandidates = [c], pindexBestInvalid = None, mapBlocksUnlinked = [],
      pcoinsTip = cache_on \<lparr>db_coins = (\<lambda>_. None), db_best = Some (sample_id 1)\<rparr>, versionbitscache = (\<lambda>_ _. None),
      mapRejectedBlocks = [], nBlockSequenceId = 1\<rparr>"
  have best: "tip_GetBestBlock (cache_on \<lparr>db_coins = (\<lambda>_. None), db_best = Some (sample_id 1)\<rparr>) = sample_id 1"
    by (simp add: tip_GetBestBlock_def cache_GetBestBlock_def cache_on_def db_GetBestBlock_def Let_def blob_IsNull_def blob_null_def list_all_iff)
  have "chain_wf (tree cs) \<lparr>vChain = [Some p]\<rparr>" using pq(1) h(1) a by (auto simp: chain_wf_def)
  then have "node_ok ?n" using assms(1,6) hash pq best by (auto simp: node_ok_def synced_def unlinked_def chain_Tip_def)
  then show "node_ok (sample_node cs p q c)"
    unfolding sample_node_def using only_marks_ok [OF set_block_marks] by (simp add: shape_def)
qed

lemma sample_tip [simp]: "chain_Tip \<lparr>vChain = [Some p]\<rparr> = Some p"
  by (simp add: chain_Tip_def)

lemma sample_node_fields:
  "tree (index (sample_node cs p q c)) = (tree cs)\<lparr>obj := (obj (tree cs))(q := (obj (tree cs) q)\<lparr>nChainTx := 2, nStatus := BLOCK_HAVE_DATA\<rparr>)\<rparr>"
  "chainActive (sample_node cs p q c) = \<lparr>vChain = [Some p]\<rparr>" "setBlockIndexCandidates (sample_node cs p q c) = [c]"
  "tip_of (sample_node cs p q c) = Some p"
  by (simp_all add: sample_node_def set_block_def Let_def chain_Tip_def)

lemma sample_most:
  assumes "p \<noteq> q" "pprev (obj (tree cs) q) = Some p" "BlockIndex.nHeight (obj (tree cs) p) = 0" "BlockIndex.nHeight (obj (tree cs) q) = 1"
    "c = p \<or> c = q"
  shows "FindMostWorkChain (Suc (Suc 0)) (sample_node cs p q c) = Inr (sample_node cs p q c, Some c)"
proof -
  let ?n = "sample_node cs p q c"
  note f = sample_node_fields [of cs p q c]
  have "BLOCK_HAVE_DATA AND BLOCK_FAILED_MASK = 0" "BLOCK_HAVE_DATA AND BLOCK_HAVE_DATA \<noteq> 0"
    by (simp_all add: BLOCK_HAVE_DATA_def BLOCK_FAILED_MASK_def)
  then have q: "\<not> chain_Contains (tree (index ?n)) (chainActive ?n) q" "chain_Contains (tree (index ?n)) (chainActive ?n) p"
      "nChainTx (blk ?n q) \<noteq> 0" "\<not> (failed (blk ?n q) \<or> nStatus (blk ?n q) AND BLOCK_HAVE_DATA = 0)" "pprev (blk ?n q) = Some p"
    using assms by (simp_all add: f chain_Contains_def chain_at_def failed_def)
  have fuel: "path_fuel ?n p = Suc 0" "path_fuel ?n q = Suc (Suc 0)"
    using assms(1,3,4) by (simp_all add: path_fuel_def f)
  have "test_path ?n (path_fuel ?n c) (Some c) = Inr None"
    using assms(5)
  proof
    assume "c = p"
    then show ?thesis using q(2) fuel(1) by simp
  next
    assume c: "c = q"
    have "test_path ?n (Suc (Suc 0)) (Some q) = Inr None" using q by simp
    then show ?thesis using fuel(2) by (simp add: c)
  qed
  then show ?thesis by (simp add: f(3) last_candidate_def)
qed

definition sample_disk :: "CBlock option \<Rightarrow> (unit, unit) activate_env" where
  \<comment> \<open>a disk that reads the same block everywhere, and a cache that is never flushed\<close>
  "sample_disk b = \<lparr>conn = sample_env2\<lparr>node := sample_ctx 0\<rparr>, coins_usage = (\<lambda>_. 0), ReadBlockFromDisk = (\<lambda>_ _. b), UndoReadFromDisk = (\<lambda>_ _. None),
     flush_decision = (\<lambda>_ _. \<lparr>fDoFullFlush = False, fPeriodicWrite = False, disk_space = True, index_written = True, coins_space = True\<rparr>)\<rparr>"

definition sample_stored :: "uint256 \<Rightarrow> CBlock" where
  "sample_stored root = sample_reward_block\<lparr>fChecked := False, hdr_nBits := 0x207fffff, hdr_hashMerkleRoot := root\<rparr>"

lemma sample_stored_root:
  "BlockMerkleRoot (hashes (node (conn (sample_disk b)))) (vtx (sample_stored root)) = (sample_id 10, False)"
proof -
  have "map tx_hash (vtx (sample_stored root)) = [sample_id 10]"
    by (simp add: sample_stored_def sample_reward_block_def sample_cb_def sample_tx_def)
  then show ?thesis
    by (simp add: BlockMerkleRoot_def ComputeMerkleRoot_def MerkleComputation_def Let_def up_loop.simps [of _ _ _ 1 0]
        sweep_loop.simps [of _ _ 1 0] lowest_level.simps [of 1 0])
qed

subsection \<open>The genesis block of a new node\<close>

definition empty_db :: "CCoinsViewDB CCoinsViewCache" where
  "empty_db = cache_on \<lparr>db_coins = (\<lambda>_. None), db_best = None\<rparr>"

definition genesis_disk :: "(unit, unit) activate_env" where
  \<comment> \<open>every header has the hash of the genesis block\<close>
  "genesis_disk = (sample_disk None)\<lparr>conn := sample_env2\<lparr>node := (sample_ctx 0)\<lparr>header_hash := (\<lambda>_. sample_id 1),
     consensus := MainParams\<lparr>hashGenesisBlock := sample_id 1\<rparr>\<rparr>\<rparr>\<rparr>"

lemma genesis_disk_simps:
  "header_hash (node (conn genesis_disk)) = (\<lambda>_. sample_id 1)" "block_hash (node (conn genesis_disk)) b = sample_id 1"
  "hashGenesisBlock (consensus (node (conn genesis_disk))) = sample_id 1"
  "FlushStateToDisk genesis_disk mode st n = Inr (n, st, True)"
  by (simp_all add: genesis_disk_def block_hash_def sample_disk_def FlushStateToDisk_def)

lemma genesis_received:
  assumes "pprev (blk n p) = None" "nStatus (blk n p) = 2" "tip_of n = None" "mapBlocksUnlinked n = []" "setBlockIndexCandidates n = []"
  shows "\<exists>n'. ReceivedBlockTransactions sample_reward_block p 0 0 n = Inr n' \<and> setBlockIndexCandidates n' = [p] \<and>
    chainActive n' = chainActive n \<and> pcoinsTip n' = pcoinsTip n \<and> shape (blk n' p) = shape (blk n p) \<and> nStatus (blk n' p) = 11"
  using assms
  by (simp add: ReceivedBlockTransactions_def RaiseValidity_def set_block_def mark_dirty_def insert_candidate_def Let_def shape_def
      BLOCK_HAVE_DATA_def BLOCK_FAILED_MASK_def BLOCK_VALID_MASK_def BLOCK_VALID_TRANSACTIONS_def)

lemma genesis_most:
  assumes "setBlockIndexCandidates n = [p]" "vChain (chainActive n) = []" "BlockIndex.nHeight (blk n p) = 0" "nStatus (blk n p) = 11"
    "pprev (blk n p) = None"
  shows "FindMostWorkChain (Suc (Suc 0)) n = Inr (n, Some p)"
  using assms
  by (simp add: last_candidate_def path_fuel_def chain_Contains_def chain_at_def failed_def BLOCK_FAILED_MASK_def BLOCK_HAVE_DATA_def)

lemma genesis_connects:
  assumes "vChain (chainActive n) = []" "BlockIndex.nHeight (blk n p) = 0" "pprev (blk n p) = None" "phashBlock (blk n p) = sample_id 1"
    "pcoinsTip n = empty_db"
  shows "\<exists>n'. ConnectTip genesis_disk vs_init p (Some sample_reward_block) n = Inr (n', vs_init, True) \<and> tip_of n' = Some p \<and>
     setBlockIndexCandidates n' = setBlockIndexCandidates n \<and> index n' = index n"
  using assms
  apply (simp add: ConnectTip_def ConnectBlock_def Let_def genesis_disk_simps CheckBlock_def check_result_def lift_node_def
      chain_Tip_def cache_GetBestBlock_def tip_GetBestBlock_def cache_on_def empty_db_def db_GetBestBlock_def SetBestBlock_def flush_view_def Flush_def
      cache_BatchWrite_def UpdateTip_def chain_SetTip_def resize_def sample_reward_block_def)
  done


lemma cmp_loop_same: "cmp_loop k v v = 0"
  by (induction k) simp_all

lemma genesis_step:
  assumes "vChain (chainActive n) = []" "BlockIndex.nHeight (blk n p) = 0" "pprev (blk n p) = None" "phashBlock (blk n p) = sample_id 1"
    "pcoinsTip n = empty_db" "setBlockIndexCandidates n = [p]"
  shows "\<exists>n'. ActivateBestChainStep genesis_disk vs_init p (Some sample_reward_block) n = Inr (n', vs_init, True) \<and> tip_of n' = Some p"
proof -
  obtain n1 where c: "ConnectTip genesis_disk vs_init p (Some sample_reward_block) n = Inr (n1, vs_init, True)" "tip_of n1 = Some p"
     "setBlockIndexCandidates n1 = [p]" "index n1 = index n"
    using genesis_connects [OF assms(1-5)] assms(6) by auto
  have t: "tip_of n = None" using assms(1) by (simp add: chain_Tip_def)
  have "PruneBlockIndexCandidates n1 = Inr n1" using c(2,3) by (simp add: PruneBlockIndexCandidates_def work_less_def bu_compare_def cmp_loop_same Let_def)
  then have l: "connect_list genesis_disk vs_init None p p (Some sample_reward_block) [p] n = Inr (n1, vs_init, Better)"
    using c(1) by simp
  have a: "GetAncestor (tree (index n)) p 0 = Inr (Some p)" "GetAncestor (tree (index n)) p (- 1) = Inr None"
    using assms(2) by (simp_all add: GetAncestor_def ancestor_loop.simps [of _ 0])
  have u: "connect_up (Suc 0) genesis_disk vs_init None p (Some sample_reward_block) (- 1) n = Inr (n1, vs_init, Better)"
    using assms(2,3) a(1) l by (simp add: Let_def)
  have "chain_FindFork (tree (index n)) (chainActive n) (Some p) = Inr None"
    using assms(1,2) a(2) by (simp add: chain_FindFork_def chain_Height_def)
  then show ?thesis
    using u t assms(1,2) c(2) by (simp add: ActivateBestChainStep_def Let_def del: connect_up.simps)
qed

lemma genesis_activation:
  assumes "vChain (chainActive n) = []" "BlockIndex.nHeight (blk n p) = 0" "pprev (blk n p) = None" "phashBlock (blk n p) = sample_id 1"
    "pcoinsTip n = empty_db" "setBlockIndexCandidates n = [p]" "nStatus (blk n p) = 11"
  shows "\<exists>n'. ActivateBestChain 1 genesis_disk vs_init (Some sample_reward_block) n = Some (Inr (n', vs_init, True)) \<and> tip_of n' = Some p"
proof -
  obtain n1 where s: "ActivateBestChainStep genesis_disk vs_init p (Some sample_reward_block) n = Inr (n1, vs_init, True)" "tip_of n1 = Some p"
    using genesis_step [OF assms(1-6)] by blast
  have "tip_of n \<noteq> Some p" using assms(1) by (simp add: chain_Tip_def)
  then show ?thesis using s genesis_most [OF assms(6,1,2,7,3)] assms(4,6)
    by (simp add: genesis_disk_simps Let_def del: FindMostWorkChain.simps)
qed

lemma genesis_run:
  "\<exists>n p. node_run (\<lambda>_. sample_id 1) {genesis_disk} n \<and> tip_of n = Some p \<and> phashBlock (blk n p) = sample_id 1"
proof -
  let ?H = "\<lambda>_ :: CBlockHeader. sample_id 1" and ?p = "next_ptr cs_empty"
  let ?n0 = "node_start (\<lambda>_ _. None) empty_db"
  have "tip_GetBestBlock empty_db = blob_null"
    by (simp add: empty_db_def tip_GetBestBlock_def cache_GetBestBlock_def cache_on_def db_GetBestBlock_def Let_def)
  then have r0: "node_run ?H {genesis_disk} ?n0" by (rule node_run.start)
  have self: "?H demo_header \<noteq> hashPrevBlock demo_header" using sample_ids by (simp add: demo_header_def)
  have e: "mapBlockIndex cs_empty = Map.empty" by (simp add: cs_empty_def)
  obtain cs where c: "AddToBlockIndex ?H cs_empty demo_header = Inr (cs, ?p)" "cs_wf cs" "mapBlockIndex cs = [sample_id 1 \<mapsto> ?p]"
      "pprev (obj (tree cs) ?p) = None" "nStatus (obj (tree cs) ?p) = BLOCK_VALID_TREE"
    using AddToBlockIndex_new [of cs_empty ?H demo_header, OF cs_wf_empty _ self] by (auto simp: e)
  let ?n1 = "?n0\<lparr>index := cs\<rparr>"
  have p: "?p \<in> known (tree cs)" "phashBlock (obj (tree cs) ?p) = sample_id 1"
    using c(2) [unfolded cs_wf_def map_ok_def c(3)] by (auto split: if_splits)
  have "linked (tree cs) ?p" using c(2) p(1) by (simp add: cs_wf_def btree_wf_def)
  then have h: "BlockIndex.nHeight (obj (tree cs) ?p) = 0" using c(4) by (simp add: linked_def)
  have r1: "node_run ?H {genesis_disk} ?n1"
    by (rule node_run.step [OF r0 singletonI node_step.header [OF _ self]]) (use c(1) sample_ids in \<open>simp_all add: node_start_def\<close>)
  obtain n2 where n2: "ReceivedBlockTransactions sample_reward_block ?p 0 0 ?n1 = Inr n2" "setBlockIndexCandidates n2 = [?p]"
      "chainActive n2 = chainActive ?n1" "pcoinsTip n2 = empty_db" "shape (blk n2 ?p) = shape (obj (tree cs) ?p)" "nStatus (blk n2 ?p) = 11"
    using genesis_received [of ?n1 ?p] c(4,5) by (auto simp: node_start_def chain_Tip_def BLOCK_VALID_TREE_def)
  have r2: "node_run ?H {genesis_disk} n2"
    by (rule node_run.step [OF r1 singletonI node_step.transactions [OF _ n2(1)]]) (use p in simp)
  have b: "vChain (chainActive n2) = []" "BlockIndex.nHeight (blk n2 ?p) = 0" "pprev (blk n2 ?p) = None" "phashBlock (blk n2 ?p) = sample_id 1"
    using n2(3,5) h c(4) p(2) by (simp_all add: shape_def node_start_def)
  obtain n3 where n3: "ActivateBestChain 1 genesis_disk vs_init (Some sample_reward_block) n2 = Some (Inr (n3, vs_init, True))" "tip_of n3 = Some ?p"
    using genesis_activation [OF b n2(4,2,6)] by blast
  have s: "survives True vs_init" by (simp add: survives_def)
  have r3: "node_run ?H {genesis_disk} n3"
    by (rule node_run.step [OF r2 singletonI node_step.activation [OF n3(1) s]])
  have "keeps n2 n3" by (rule ActivateBestChain_survives [OF node_run_ok [OF r2] n3(1) s])
  then have "phashBlock (blk n3 ?p) = sample_id 1"
    using b(4) by (auto simp: keeps_def same_index_def same_tree_fields(2))
  then show ?thesis using r3 n3(2) by blast
qed

section \<open>Properties\<close>

text \<open>C2: every state a node reaches, by any sequence of new headers, received transactions, activations,
  invalidations, reconsiderations, disconnections, prunings of the candidates and flushes, starting with an
  empty data directory, is consistent: the block map and its tree are well-formed, the active chain is the
  path from the genesis block to its tip, the candidates and the blocks that wait for their parent are in
  the tree, and the block that the view of the unspent outputs names as its best block is the tip (no block
  when there is no tip).  Activations, invalidations and disconnections may fail: the run goes on as the
  node does.  It ends only with a failed assertion or a null pointer, or with a failure of the disk, when
  the node shuts down.  No header may have the null hash or its parent's hash as its own.\<close>

theorem node_run_consistent:
  assumes "node_run hashfn Es n"
  shows "cs_wf (index n) \<and> chain_wf (tree (index n)) (chainActive n) \<and>
    set (setBlockIndexCandidates n) \<union> snd ` set (mapBlocksUnlinked n) \<subseteq> known (tree (index n)) \<and>
    tip_GetBestBlock (pcoinsTip n) = (case tip_of n of None \<Rightarrow> blob_null | Some t \<Rightarrow> phashBlock (blk n t))"
  using node_ok_parts [OF node_run_ok [OF assms]] by (simp add: synced_def unlinked_def)

lemma node_run_consistent_witness:
  "\<exists>n p. node_run (\<lambda>_. sample_id 1) {genesis_disk} n \<and> tip_of n = Some p \<and>
     chain_wf (tree (index n)) (chainActive n) \<and> tip_GetBestBlock (pcoinsTip n) = sample_id 1"
proof -
  obtain n p where n: "node_run (\<lambda>_. sample_id 1) {genesis_disk} n" "tip_of n = Some p" "phashBlock (blk n p) = sample_id 1"
    using genesis_run by blast
  from node_run_consistent [OF n(1)] show ?thesis using n by auto
qed

text \<open>C3: \<open>ActivateBestChain\<close> ends, whatever the blocks contain, if the blocks on disk have the transactions
  their headers commit to: from some number of rounds on it has its result.\<close>

theorem activation_terminates:
  assumes "node_ok n" "intact_blocks E pblock"
  shows "\<exists>rounds r. \<forall>k \<ge> rounds. ActivateBestChain k E st pblock n = Some r"
proof -
  obtain k r where "ActivateBestChain k E st pblock n = Some r"
    using ActivateBestChain_returns [OF assms(2,1), of st] by auto
  then show ?thesis using ActivateBestChain_more by blast
qed

lemma activation_terminates_witness:
  "\<exists>n q rounds r. FindMostWorkChain 2 n = Inr (n, Some q) \<and> tip_of n \<noteq> Some q \<and>
     (\<forall>k \<ge> rounds. ActivateBestChain k (sample_disk (Some (sample_stored (sample_id 10)))) vs_init None n = Some r)"
proof -
  obtain cs p q where c: "cs_wf cs" "mapBlockIndex cs = [sample_id 1 \<mapsto> p, sample_id 2 \<mapsto> q]" "p \<noteq> q"
    "pprev (obj (tree cs) p) = None" "pprev (obj (tree cs) q) = Some p" using sample_two_blocks by blast
  let ?n = "sample_node cs p q q" and ?b = "sample_stored (sample_id 10)"
  note f = sample_node_facts [OF c, of q, simplified]
  have "intact (hashes (node (conn (sample_disk (Some ?b))))) ?b"
    unfolding intact_def sample_stored_root by (simp add: sample_stored_def)
  then have "intact_blocks (sample_disk (Some ?b)) None" by (simp add: intact_blocks_def sample_disk_def)
  from activation_terminates [OF f(1) this] sample_most [OF c(3,5) f(4,5), of q] c(3) show ?thesis
    by (metis numeral_2_eq_2 option.inject sample_node_fields(4))
qed

text \<open>C4: when \<open>ActivateBestChain\<close> succeeds, the state is consistent again, no block was forgotten, and no
  candidate has more work than the new tip.\<close>

theorem activation_best_tip:
  assumes "node_ok n" "ActivateBestChain rounds E st pblock n = Some (Inr (n', st', True))"
  shows "node_ok n' \<and> mapBlockIndex (index n') = mapBlockIndex (index n) \<and>
    (\<forall>c \<in> set (setBlockIndexCandidates n'). \<exists>t. tip_of n' = Some t \<and> work (tree (index n')) c \<le> work (tree (index n')) t)"
  using ActivateBestChain_result [OF assms] by (simp add: advances_def no_better_def same_index_def)

lemma activation_best_tip_witness:
  "\<exists>n n' st'. ActivateBestChain 1 (sample_disk None) vs_init None n = Some (Inr (n', st', True)) \<and> setBlockIndexCandidates n' \<noteq> [] \<and>
     (\<forall>c \<in> set (setBlockIndexCandidates n'). \<exists>t. tip_of n' = Some t \<and> work (tree (index n')) c \<le> work (tree (index n')) t)"
proof -
  obtain cs p q where c: "cs_wf cs" "mapBlockIndex cs = [sample_id 1 \<mapsto> p, sample_id 2 \<mapsto> q]" "p \<noteq> q"
    "pprev (obj (tree cs) p) = None" "pprev (obj (tree cs) q) = Some p" using sample_two_blocks by blast
  let ?n = "sample_node cs p q p"
  note f = sample_node_facts [OF c, of p, simplified]
  have a: "ActivateBestChain 1 (sample_disk None) vs_init None ?n = Some (Inr (?n, vs_init, True))"
    using sample_most [OF c(3,5) f(4,5), of p] by (simp add: sample_node_fields del: FindMostWorkChain.simps)
  have "setBlockIndexCandidates ?n \<noteq> []" by (simp add: sample_node_fields(3))
  with a activation_best_tip [OF f(1) a] show ?thesis by blast
qed

text \<open>C15: the search for the chain with the most work ends after one round for each candidate and never
  fails its assertion when the transactions of all ancestors of the candidates are counted.  The chain
  is left alone.  The result is a candidate with the most work, no block between it and the active chain has
  failed or lacks its data, and only candidates with an ancestor that failed or lacks its data were
  dropped.\<close>

theorem FindMostWorkChain_best:
  assumes "node_ok n" "\<forall>c \<in> set (setBlockIndexCandidates n). loaded n c"
  shows "\<exists>n' r. FindMostWorkChain (Suc (length (setBlockIndexCandidates n))) n = Inr (n', r) \<and>
    node_ok n' \<and> chainActive n' = chainActive n \<and> most_work n' r \<and>
    (\<forall>c \<in> set (setBlockIndexCandidates n). c \<in> set (setBlockIndexCandidates n') \<or> bad n c)"
proof -
  have "card (set (setBlockIndexCandidates n)) < Suc (length (setBlockIndexCandidates n))" using card_length le_imp_less_Suc by blast
  note f = FindMostWorkChain_finds [OF assms(1) this]
  then obtain n' r where r: "FindMostWorkChain (Suc (length (setBlockIndexCandidates n))) n = Inr (n', r)"
    using assms(2) by (cases "FindMostWorkChain (Suc (length (setBlockIndexCandidates n))) n") auto
  then have "loses n n'" "most_work n' r" using f by simp_all
  then show ?thesis using r loses_ok [OF _ assms(1)] only_marks_fields(1) by (auto simp: loses_def)
qed

lemma FindMostWorkChain_best_witness:
  "\<exists>n n' m. setBlockIndexCandidates n = [m] \<and> tip_of n \<noteq> Some m \<and> FindMostWorkChain 2 n = Inr (n', Some m) \<and> usable n' m"
proof -
  obtain cs p q where c: "cs_wf cs" "mapBlockIndex cs = [sample_id 1 \<mapsto> p, sample_id 2 \<mapsto> q]" "p \<noteq> q"
    "pprev (obj (tree cs) p) = None" "pprev (obj (tree cs) q) = Some p" using sample_two_blocks by blast
  let ?n = "sample_node cs p q q"
  note f = sample_node_facts [OF c, of q, simplified] and g = sample_node_fields [of cs p q q]
  have wf: "btree_wf (tree (index ?n))" by (rule node_ok_parts(2) [OF f(1)])
  have "nChainTx (blk ?n r) \<noteq> 0 \<or> BlockIndex.nHeight (blk ?n r) = 0" if a: "ancestor_at (tree (index ?n)) q j = Some r" for j r
  proof (cases "r = q")
    case False
    have "q \<in> known (tree (index ?n))" using f(3) by (simp add: g)
    note h = ancestor_height [OF wf this a]
    have "j \<noteq> 1" using a False f(5) ancestor_at_self [of "tree (index ?n)" q] by (auto simp: g)
    then show ?thesis using h f(5) by (simp add: g)
  qed (simp add: g)
  then have "\<forall>c \<in> set (setBlockIndexCandidates ?n). loaded ?n c" by (simp add: g(3) loaded_def)
  note b = FindMostWorkChain_best [OF f(1) this]
  have m: "FindMostWorkChain (Suc (length (setBlockIndexCandidates ?n))) ?n = Inr (?n, Some q)"
    using sample_most [OF c(3,5) f(4,5), of q] by (simp add: g(3) del: FindMostWorkChain.simps)
  then have "usable ?n q" using b by (simp add: most_work_def)
  then show ?thesis using m c(3) by (intro exI [of _ ?n] exI [of _ q]) (simp add: g(3,4) numeral_2_eq_2 del: FindMostWorkChain.simps)
qed

text \<open>C16: a block whose transactions were corrupted on disk, while its header is intact, stops the node: when the best
  chain goes through it next, \<open>ActivateBestChain\<close> never returns, whatever the number of rounds.\<close>

theorem corrupt_block_endless:
  assumes "node_ok n" "FindMostWorkChain (Suc (length (setBlockIndexCandidates n))) n = Inr (n, Some most)" "most \<in> known (tree (index n))"
    and "tip_of n = Some t" "pprev (blk n most) = Some t" "ReadBlockFromDisk E (tree (index n)) most = Some block"
    and "\<not> fChecked block" "CheckBlockHeader (node (conn E)) block vs_init True = (True, vs_init)"
    and "BlockMerkleRoot (hashes (node (conn E))) (vtx block) \<noteq> (hdr_hashMerkleRoot block, False)"
  shows "ActivateBestChain rounds E vs_init None n = None"
  using corrupt_activation [OF assms(1-8)] assms(9) by (simp add: intact_def)

lemma sample_stored_header:
  "\<not> fChecked (sample_stored root)"
  "CheckBlockHeader (node (conn (sample_disk b))) (sample_stored root) vs_init True = (True, vs_init)"
proof -
  have "CheckProofOfWork (replicate 32 0) 0x207fffff (RegTestParams (replicate 32 0))" by code_simp
  then show "CheckBlockHeader (node (conn (sample_disk b))) (sample_stored root) vs_init True = (True, vs_init)"
    by (simp add: CheckBlockHeader_def sample_disk_def sample_stored_def sample_reward_block_def sample_block_simps block_hash_def)
qed (simp add: sample_stored_def)

lemma corrupt_block_endless_witness:
  "\<exists>n. node_ok n \<and> (\<forall>rounds. ActivateBestChain rounds (sample_disk (Some (sample_stored (sample_id 11)))) vs_init None n = None)"
proof -
  obtain cs p q where c: "cs_wf cs" "mapBlockIndex cs = [sample_id 1 \<mapsto> p, sample_id 2 \<mapsto> q]" "p \<noteq> q"
    "pprev (obj (tree cs) p) = None" "pprev (obj (tree cs) q) = Some p" using sample_two_blocks by blast
  let ?n = "sample_node cs p q q" and ?b = "sample_stored (sample_id 11)"
  note f = sample_node_facts [OF c, of q, simplified] and g = sample_node_fields [of cs p q q]
  have m: "FindMostWorkChain (Suc (length (setBlockIndexCandidates ?n))) ?n = Inr (?n, Some q)"
    using sample_most [OF c(3,5) f(4,5), of q] by (simp add: g(3) del: FindMostWorkChain.simps)
  have r: "ReadBlockFromDisk (sample_disk (Some ?b)) (tree (index ?n)) q = Some ?b" by (simp add: sample_disk_def)
  have root: "BlockMerkleRoot (hashes (node (conn (sample_disk (Some ?b))))) (vtx ?b) \<noteq> (hdr_hashMerkleRoot ?b, False)"
    unfolding sample_stored_root by (simp add: sample_stored_def sample_id_def)
  have "ActivateBestChain k (sample_disk (Some ?b)) vs_init None ?n = None" for k
    by (rule corrupt_block_endless [OF f(1) m _ _ _ r sample_stored_header root]) (use f(3) c(5) in \<open>simp_all add: g\<close>)
  then show ?thesis using f(1) by blast
qed

end
