(* ===== verification/Spec2Isabelle.thy ===== *)
theory Spec2Isabelle
  imports VersionBits BlockTree Money LockTime Utxo StandardScripts SigChecker Standard Merkle ChainState
begin

text \<open>
  Stone Core (a Dash and Bitcoin Core descendant): the consensus core of the node under
  \<open>src/src\<close>, modelled function by function.

  \<^bold>\<open>The program.\<close>  A node receives block headers and blocks, keeps every known header in a tree
  (\<open>mapBlockIndex\<close>, \<open>CBlockIndex\<close>), chooses the valid branch with the most work, and
  connects its blocks one by one to the set of unspent outputs (\<open>pcoinsTip\<close>).  A block is checked
  in itself (\<open>CheckBlock\<close>), in its place (\<open>ContextualCheckBlock\<close>) and against the unspent outputs
  (\<open>ConnectBlock\<close>), which runs the scripts of its inputs and asks who the coinbase must pay: the
  masternode with the most votes, the founders, or a superblock.  Sporks are signed messages that switch rules on and
  off at run time.  \<open>ActivateBestChain\<close> drives connecting and disconnecting; every part below is reached from it.

  \<^bold>\<open>The theories\<close>, from the bottom up; each names in its definitions the functions of the code.

  \<^item> \<open>Prelude\<close>, \<open>Params\<close>: machine integers, error sums, C++ division, the parameters of the networks
    (consensus/params.h, chainparams.cpp).
  \<^item> \<open>Serialize\<close>, \<open>Uint256\<close>, \<open>ArithUint256\<close>: byte streams and integer encodings (serialize.h,
    crypto/common.h), opaque hashes (uint256.h), 256-bit arithmetic and the compact encoding of targets
    (arith_uint256.cpp).
  \<^item> \<open>BlockIndex\<close>, \<open>BlockTree\<close>, \<open>Pow\<close>, \<open>VersionBits\<close>: the tree with its skip list and the active
    chain (chain.cpp), \<open>AddToBlockIndex\<close> (main.cpp), the difficulty (pow.cpp), the BIP 9 deployments
    (versionbits.cpp).
  \<^item> \<open>Amount\<close>, \<open>Transaction\<close>, \<open>Money\<close>, \<open>LockTime\<close>: amounts and fee rates, transactions with their bytes and
    checks, rewards (main.cpp, FounderPayment.cpp, masternode-level.cpp), BIP 68.
  \<^item> \<open>Opcodes\<close>, \<open>ScriptNum\<close>, \<open>Script\<close>, \<open>Interpreter\<close>, \<open>EvalSafety\<close>, \<open>PubKey\<close>, \<open>SigHash\<close>,
    \<open>SigChecker\<close>, \<open>Standard\<close>, \<open>StandardScripts\<close>, \<open>CoreWrite\<close>: scripts, from the opcodes to
    \<open>VerifyScript\<close>, signature hashes, lock times, the standard templates (script/, pubkey.cpp, core_write.cpp).
  \<^item> \<open>Merkle\<close>, \<open>Spork\<close>, \<open>Payments\<close>, \<open>CheckBlock\<close>: Merkle roots (consensus/merkle.cpp), sporks
    (spork.cpp), masternode payments and superblocks (masternode-payments.cpp, governance-classes.cpp,
    miner.cpp), the checks of a block (main.cpp).
  \<^item> \<open>Coins\<close>, \<open>Utxo\<close>, \<open>ConnectBlock\<close>, \<open>Supply\<close>: the caches over the coins database (coins.cpp,
    txdb.cpp), what a block does to the unspent outputs and how it is undone, \<open>ConnectBlock\<close> with its input
    checks, the value it creates (main.cpp).
  \<^item> \<open>Activate\<close>, \<open>ActiveChain\<close>, \<open>ChainState\<close>: the state of the node and its operations: the search for the
    most work, connecting and disconnecting the tip, the activation loop, invalidating, reconsidering and
    reprocessing, received transactions (main.cpp); the step relation \<open>node_step\<close> and its runs.

  Data is as the code has it: a class is a record, an enumeration a datatype, a pointer to a block index object
  an address of \<open>btree\<close>.  A failed assertion, an uncaught exception and a null pointer are values
  (\<open>fault\<close>, \<open>node_fault\<close>, \<open>script_stop\<close>), apart from a rejection, which is a validation state.

  \<^bold>\<open>What is shown.\<close>  The properties stand at the end of the theories, or of their parts, each after a text that states it.

  \<^item> Money: a connected block raises the value of the unspent outputs by at most its subsidy (\<open>Supply\<close>), the subsidy
    follows its schedule (\<open>Money\<close>), the miner's coinbase passes the checks of the node (\<open>Payments\<close>).
  \<^item> The unspent outputs: flushing a cache keeps the content of the view, disconnecting a block undoes
    connecting it (\<open>Utxo\<close>).
  \<^item> The chain: every run of the node keeps its state consistent, the search for the most work ends and finds the
    best usable candidate, the activation ends with a tip that no candidate beats (\<open>ChainState\<close>); headers keep the
    block map (\<open>BlockTree\<close>), skip pointers find the ancestor (\<open>BlockIndex\<close>).
  \<^item> Arithmetic and difficulty: division and the compact encoding (\<open>ArithUint256\<close>), Dark Gravity Wave in closed
    form (\<open>Pow\<close>).
  \<^item> Blocks and transactions: exactly which of them pass the checks (\<open>CheckBlock\<close>, \<open>Transaction\<close>), Merkle roots bind the
    transactions (\<open>Merkle\<close>), bytes decode to the transaction they encode; deployments and lock times follow BIP 9,
    65, 68 and 112 (\<open>VersionBits\<close>, \<open>LockTime\<close>, \<open>SigChecker\<close>).
  \<^item> Scripts: the limits and the absence of failed assertions (\<open>EvalSafety\<close>), number encodings (\<open>ScriptNum\<close>), the
    meaning of the common scripts (\<open>StandardScripts\<close>, \<open>Standard\<close>), what a signature commits to (\<open>SigHash\<close>).
  \<^item> Sporks and votes: nodes agree on the sporks (\<open>Spork\<close>), votes are counted once (\<open>Payments\<close>).
  \<^item> Defects of the code, proved of the model: a spork's signature can be replayed (\<open>Spork\<close>), a triggered superblock
    stops the chain and a forged signature suppresses a vote (\<open>Payments\<close>), an unchecked duplicate input and an empty
    \<open>scriptSig\<close> stop the program (\<open>Supply\<close>), a corrupted block on disk makes the activation loop for ever
    (\<open>ChainState\<close>).

  The laws that one part relies on in another are locales: a codec (\<open>Serialize\<close>), a view of coins
  (\<open>Coins\<close>) and the checker of a deployment (\<open>VersionBits\<close>), each interpreted on the definitions of the
  components that provide them.

  \<^bold>\<open>Fuel.\<close>  Where a loop follows pointers, its number of iterations is bounded by an argument that the invariant makes large
  enough: the height of a block plus one for walks to the root (\<open>path_fuel\<close>, \<open>settip_loop\<close>,
  \<open>blocks_between\<close>), the length of the chain for disconnecting (\<open>disconnect_to\<close>,
  \<open>invalidate_loop\<close>), the distance in height for connecting (\<open>connect_up\<close>), the number of candidates plus
  one for \<open>FindMostWorkChain\<close>, where every round but the last removes a candidate.  The rounds of
  \<open>ActivateBestChain\<close> have no bound of this kind: running out is the value \<open>None\<close>, enough rounds are shown to
  give a result when the blocks on disk are intact, and a corrupted block to make every number of rounds too small.  The subsidy loop, which
  a zero interval never leaves, is a \<open>partial_function\<close>.

  \<^bold>\<open>What is not modelled.\<close>  Hash functions, elliptic curves and the allocator are parameters, as are the
  clock, the masternode list, the triggers of the governance system, the undo files, the reading of blocks from
  disk and the decision when to flush.  Coins are stored in the database as values: their encoding on
  disk is left out.  Heights and times are unbounded integers in the rules on lock times, votes and the tree; amounts
  are integers, with the conversions to unsigned types written out where the code mixes them.  A requested
  shutdown does not interrupt the activation loop; a failure of the disk ends a run of the node (\<open>survives\<close>).
  Left out: the acceptance of blocks from peers (\<open>AcceptBlock\<close>, \<open>ContextualCheckBlockHeader\<close>, which compares
  difficulties in floating point), the memory pool, wallets, the optional indexes, the pruning of
  block files, the rest of the masternode and governance systems, mixing and InstantSend, and, as input and
  output or glue, the network, RPC, the graphical interface and the initialisation.
\<close>

end
